(* ===== verification/Cg_Prelude.thy ===== *)
theory Cg_Prelude
  imports Complex_Main "HOL-Library.Word"
begin

text \<open>
  Shared vocabulary of the development: the C integer types of
  src/src/util/base.h as words, the collections of rewrite rules the component
  theories draw on, and generic facts on words, bit lengths and limbs that no
  component owns.
\<close>

unbundle bit_operations_syntax

type_synonym u8 = "8 word"
type_synonym u16 = "16 word"
type_synonym u32 = "32 word"
type_synonym u64 = "64 word"

named_theorems limb_simps \<open>natural-number values of limb operations\<close>
named_theorems limb_bounds \<open>size bounds of limbs\<close>

section \<open>Shifts and disjoint unions of words\<close>

lemma unat_shr [limb_simps]: "unat (drop_bit n (w :: 'a::len word)) = unat w div 2 ^ n"
  by (rule trans [OF unat_drop_bit_eq drop_bit_eq_div])

lemma unat_shl [limb_simps]:
  "unat (push_bit n (w :: 'a::len word)) = unat w * 2 ^ n mod 2 ^ LENGTH('a)"
  by (rule trans [OF unsigned_push_bit_eq]) (simp add: take_bit_eq_mod push_bit_eq_mult)

lemma unat_low_mask [limb_simps]:
  "unat (w AND mask n :: 'a::len word) = unat w mod 2 ^ n"
  unfolding take_bit_eq_mask [symmetric] by (rule trans [OF unsigned_take_bit_eq take_bit_eq_mod])

lemma nat_or_disjoint:
  fixes a b :: nat
  assumes "a mod 2 ^ n = 0" and "b < 2 ^ n"
  shows "a OR b = a + b"
proof -
  have "take_bit n a = 0" "take_bit n b = b"
    using assms by (simp_all add: take_bit_eq_mod)
  have "a AND b = a AND take_bit n b"
    using \<open>take_bit n b = b\<close> by simp
  also have "\<dots> = take_bit n a AND b"
    by (metis \<open>take_bit n b = b\<close> and.assoc and.commute take_bit_eq_mask)
  also have "\<dots> = 0"
    using \<open>take_bit n a = 0\<close> by simp
  finally show ?thesis
    by (simp add: disjunctive_add_eq_or)
qed

lemma unat_or_disjoint:
  fixes a b :: "'a::len word"
  assumes "unat a mod 2 ^ n = 0" and "unat b < 2 ^ n"
  shows "unat (a OR b) = unat a + unat b"
  using nat_or_disjoint [OF assms] by (simp add: unsigned_or_eq)

lemma unat_lt_2p [limb_bounds, simp]: "unat (w :: 'a::len word) < 2 ^ LENGTH('a)"
  by (rule unsigned_less)

lemma unat_u64_lt [limb_bounds]: "unat (w :: u64) < 2 ^ 64"
  using unat_lt_2p [of w] by simp

lemma unat_bool_word [simp]: "unat (of_bool b :: 'a::len word) = of_bool b"
  by (cases b) simp_all

lemma word_eq_0_iff_unat: "(w = 0) = (unat (w :: 'a::len word) = 0)"
  by (simp add: unat_eq_zero)

section \<open>Bit length of a natural number\<close>

fun nbits :: "nat \<Rightarrow> nat" where
  "nbits n = (if n = 0 then 0 else Suc (nbits (n div 2)))"

declare nbits.simps [simp del]

lemma nbits_0 [simp]: "nbits 0 = 0"
  by (simp add: nbits.simps)

lemma nbits_pos: "0 < n \<Longrightarrow> nbits n = Suc (nbits (n div 2))"
  by (simp add: nbits.simps [of n])

lemma nbits_le_iff: "nbits n \<le> m \<longleftrightarrow> n < 2 ^ m"
proof (induction m arbitrary: n)
  case 0
  then show ?case by (simp add: nbits.simps [of n])
next
  case (Suc m)
  show ?case
  proof (cases "n = 0")
    case False
    then have "nbits n \<le> Suc m \<longleftrightarrow> n div 2 < 2 ^ m"
      by (simp add: nbits.simps [of n] Suc.IH)
    then show ?thesis by auto
  qed simp
qed

lemma lt_nbits_iff: "m < nbits n \<longleftrightarrow> 2 ^ m \<le> n"
  using nbits_le_iff [of n m] by linarith

lemma lt_2_nbits: "n < 2 ^ nbits n"
  using nbits_le_iff by blast

lemma nbits_ge: "0 < n \<Longrightarrow> 2 ^ (nbits n - 1) \<le> n"
  using lt_nbits_iff [of "nbits n - 1" n] by (simp add: nbits.simps [of n])

lemma nbits_eqI: "2 ^ k \<le> n \<Longrightarrow> n < 2 ^ Suc k \<Longrightarrow> nbits n = Suc k"
  by (meson le_antisym lt_nbits_iff nbits_le_iff Suc_leI)

lemma nbits_eq_0_iff [simp]: "nbits n = 0 \<longleftrightarrow> n = 0"
  by (simp add: nbits.simps [of n])

lemma nbits_mult_2p: "0 < n \<Longrightarrow> nbits (n * 2 ^ k) = nbits n + k"
proof -
  assume n: "0 < n"
  have "nbits (n * 2 ^ k) = Suc (nbits n - 1 + k)"
  proof (rule nbits_eqI)
    show "2 ^ (nbits n - 1 + k) \<le> n * 2 ^ k"
      using nbits_ge [OF n] by (simp add: power_add)
    have "n * 2 ^ k < 2 ^ nbits n * 2 ^ k"
      using lt_2_nbits by simp
    also have "\<dots> = 2 ^ Suc (nbits n - 1 + k)"
      by (simp add: nbits_pos [OF n] power_add)
    finally show "n * 2 ^ k < 2 ^ Suc (nbits n - 1 + k)" .
  qed
  with n show ?thesis by (simp add: nbits_pos)
qed

lemma nbits_div_2p: "nbits (n div 2 ^ k) = nbits n - k"
proof (rule le_antisym)
  show "nbits (n div 2 ^ k) \<le> nbits n - k"
  proof (cases "k \<le> nbits n")
    case True
    have "n < 2 ^ (nbits n - k) * 2 ^ k"
      using lt_2_nbits [of n] True by (simp flip: power_add)
    then show ?thesis
      by (simp add: nbits_le_iff less_mult_imp_div_less)
  next
    case False
    then have "n < 2 ^ k"
      using nbits_le_iff [of n k] by simp
    then show ?thesis by simp
  qed
  show "nbits n - k \<le> nbits (n div 2 ^ k)"
  proof (rule ccontr)
    assume "\<not> ?thesis"
    then have lt: "nbits (n div 2 ^ k) < nbits n - k" by simp
    have "n div 2 ^ k < 2 ^ nbits (n div 2 ^ k)" by (rule lt_2_nbits)
    then have "n < 2 ^ nbits (n div 2 ^ k) * 2 ^ k"
      by (simp add: div_less_iff_less_mult)
    then have "nbits n \<le> nbits (n div 2 ^ k) + k"
      by (simp add: nbits_le_iff power_add)
    with lt show False by simp
  qed
qed

section \<open>Limb arithmetic on natural numbers\<close>

lemma two_limb_mod:
  fixes a b :: nat
  assumes "b < 2 ^ k"
  shows "(a * 2 ^ k + b) mod 2 ^ (m + k) = (a mod 2 ^ m) * 2 ^ k + b"
proof -
  have "(a * 2 ^ k + b) mod (2 ^ k * 2 ^ m) = 2 ^ k * (a mod 2 ^ m) + b"
    using assms by (simp add: mod_mult2_eq div_mult_self3)
  then show ?thesis by (simp add: power_add mult.commute)
qed

lemma shl_mod_split:
  fixes x k :: nat
  assumes "n \<le> k"
  shows "x * 2 ^ n = (x div 2 ^ (k - n)) * 2 ^ k + (x mod 2 ^ (k - n)) * 2 ^ n"
proof -
  have "x * 2 ^ n = (x div 2 ^ (k - n) * 2 ^ (k - n) + x mod 2 ^ (k - n)) * 2 ^ n"
    by (simp only: div_mult_mod_eq)
  also have "\<dots> = x div 2 ^ (k - n) * (2 ^ (k - n) * 2 ^ n) + x mod 2 ^ (k - n) * 2 ^ n"
    by (simp only: add_mult_distrib mult.assoc)
  also have "2 ^ (k - n) * 2 ^ n = (2 ^ k :: nat)"
    using assms by (simp flip: power_add)
  finally show ?thesis .
qed

lemma shl_mod_eq:
  fixes x k :: nat
  assumes "n \<le> k"
  shows "x * 2 ^ n mod 2 ^ k = (x mod 2 ^ (k - n)) * 2 ^ n"
proof -
  have "(x mod 2 ^ (k - n)) * 2 ^ n < 2 ^ (k - n) * 2 ^ n"
    by simp
  also have "\<dots> = 2 ^ k"
    using assms by (simp flip: power_add)
  finally have lt: "(x mod 2 ^ (k - n)) * 2 ^ n < 2 ^ k" .
  have "x * 2 ^ n mod 2 ^ k
      = ((x div 2 ^ (k - n)) * 2 ^ k + (x mod 2 ^ (k - n)) * 2 ^ n) mod 2 ^ k"
    using shl_mod_split [OF assms, of x] by simp
  also have "\<dots> = (x mod 2 ^ (k - n)) * 2 ^ n"
    using lt by simp
  finally show ?thesis .
qed

lemma shl_add_mod:
  fixes a c :: nat
  assumes "c < 2 ^ k" and "k \<le> m"
  shows "(a * 2 ^ k + c) mod 2 ^ m = a * 2 ^ k mod 2 ^ m + c"
  using two_limb_mod [OF assms(1), of a "m - k"] shl_mod_eq [OF assms(2), of a] assms(2)
  by simp

lemma pow2_split: "m \<le> n \<Longrightarrow> (2 :: 'a :: comm_semiring_1) ^ n = 2 ^ m * 2 ^ (n - m)"
  by (simp flip: power_add)

lemma mod_add_mult_drop: "(a * m * b + c) mod m = c mod (m :: nat)"
  by (simp add: mult.assoc mult.left_commute [of a m])

lemma limb_halves:
  fixes x m :: nat
  shows "x * (2 * m) = 2 * (x div 2 * (2 * m) + x mod 2 * m)"
proof -
  define a b where "a = x div 2" and "b = x mod 2"
  have "x = 2 * a + b" by (simp add: a_def b_def)
  then show ?thesis
    unfolding a_def [symmetric] b_def [symmetric] by (simp add: algebra_simps)
qed

lemma div_carry:
  fixes c :: nat
  assumes "c < 2 * m"
  shows "c div m = (if m \<le> c then 1 else 0)"
  using assms by (auto intro: div_nat_eqI)

section \<open>Single bits\<close>

lemma bit_and_1: "w AND 1 \<noteq> 0 \<longleftrightarrow> bit w 0" for w :: "'a :: semiring_bit_operations"
  by (simp add: and_one_eq bit_0 odd_iff_mod_2_eq_one)

lemma nat_bit_bound:
  fixes n :: nat
  assumes "n < 2 ^ m" "bit n k"
  shows "k < m"
proof (rule ccontr)
  assume "\<not> k < m"
  then have "(2::nat) ^ m \<le> 2 ^ k" by simp
  then have "n < 2 ^ k" using assms(1) by linarith
  then show False using assms(2) by (simp add: bit_iff_odd)
qed

lemma nat_lt_2p_bits: "(\<And>k. bit n k \<Longrightarrow> k < m) \<Longrightarrow> (n :: nat) < 2 ^ m"
proof -
  assume "\<And>k. bit n k \<Longrightarrow> k < m"
  then have "take_bit m n = n" by (intro bit_eqI) (auto simp: bit_take_bit_iff)
  then show ?thesis by (metis take_bit_nat_less_exp)
qed

section \<open>Aborting operations\<close>

text \<open>
  How an operation of the compiler can fail to return: CGF_ICE (src/src/diag.h) reports an internal
  error and ends the process, and a loop may run forever. Operations that can do either return
  \<open>abort + 'a\<close>.
\<close>

datatype abort = ICE string | No_Return

type_synonym 'a outcome = "abort + 'a"

definition bind_outcome :: "'a outcome \<Rightarrow> ('a \<Rightarrow> 'b outcome) \<Rightarrow> 'b outcome" where
  "bind_outcome r f = (case r of Inl e \<Rightarrow> Inl e | Inr x \<Rightarrow> f x)"

lemma bind_outcome_simps [simp]: "bind_outcome (Inl e) f = Inl e" "bind_outcome (Inr x) f = f x"
  by (simp_all add: bind_outcome_def)

lemma bind_outcome_Inr: "bind_outcome r f = Inr y \<longleftrightarrow> (\<exists>x. r = Inr x \<and> f x = Inr y)"
  by (cases r) simp_all

definition returning :: "'a option \<Rightarrow> 'a outcome" where
  "returning r = (case r of None \<Rightarrow> Inl No_Return | Some x \<Rightarrow> Inr x)"

lemma returning_simps [simp]: "returning None = Inl No_Return" "returning (Some x) = Inr x"
  by (simp_all add: returning_def)

section \<open>Powers of two and alignment on words\<close>

lemma unat_word_2p: "k < LENGTH('a) \<Longrightarrow> unat (2 ^ k :: 'a::len word) = 2 ^ k"
proof -
  assume k: "k < LENGTH('a)"
  have "unat (of_nat (2 ^ k) :: 'a word) = 2 ^ k"
    using k by (simp only: unsigned_of_nat take_bit_nat_eq_self_iff) simp
  then show ?thesis by simp
qed

lemma word_2p_test: "k < LENGTH('a) \<Longrightarrow> (2 ^ k :: 'a::len word) \<noteq> 0 \<and> (2 ^ k :: 'a word) AND (2 ^ k - 1) = 0"
proof -
  assume k: "k < LENGTH('a)"
  have "(2 ^ k :: 'a word) AND (2 ^ k - 1) = take_bit k (2 ^ k)" by (simp only: mask_eq_exp_minus_1 [symmetric] take_bit_eq_mask)
  also have "\<dots> = 0" by (rule bit_word_eqI) (auto simp: bit_simps bit_exp_iff)
  finally show ?thesis using unat_word_2p [OF k] by (metis power_not_zero unat_0 zero_neq_numeral)
qed

lemma word_align_up:
  fixes x :: "'a::len word"
  assumes "k < LENGTH('a)" "unat x + 2 ^ k \<le> 2 ^ LENGTH('a)"
  shows "unat ((x + 2 ^ k - 1) AND NOT (2 ^ k - 1)) = (unat x + 2 ^ k - 1) div 2 ^ k * 2 ^ k"
proof -
  let ?y = "x + 2 ^ k - 1"
  have "1 \<le> unat x + 2 ^ k" by (simp add: Suc_le_eq)
  then have "x + 2 ^ k - 1 = of_nat (unat x + 2 ^ k - 1)" by (subst of_nat_diff) simp_all
  moreover have "unat x + 2 ^ k - 1 < 2 ^ LENGTH('a)" using assms(2) \<open>1 \<le> unat x + 2 ^ k\<close> by linarith
  ultimately have y: "unat ?y = unat x + 2 ^ k - 1" by (simp only: unsigned_of_nat) (simp add: take_bit_nat_eq_self)
  have "(x + 2 ^ k - 1) AND NOT (2 ^ k - 1) = push_bit k (drop_bit k ?y)"
    unfolding mask_eq_exp_minus_1 [symmetric] by (rule bit_word_eqI) (auto simp: bit_simps)
  then have "unat ((x + 2 ^ k - 1) AND NOT (2 ^ k - 1)) = take_bit LENGTH('a) (unat ?y div 2 ^ k * 2 ^ k)"
    by (simp only: unat_shl unat_shr take_bit_eq_mod)
  also have "\<dots> = unat ?y div 2 ^ k * 2 ^ k"
    by (rule take_bit_nat_eq_self) (rule order_le_less_trans [OF div_times_less_eq_dividend unsigned_less])
  finally show ?thesis unfolding y .
qed

lemma nat_align_up:
  fixes x k :: nat
  defines "y \<equiv> (x + 2 ^ k - 1) div 2 ^ k * 2 ^ k"
  shows "x \<le> y" "y < x + 2 ^ k" "2 ^ k dvd y"
proof -
  define m where "m = x + 2 ^ k - 1"
  have m: "x + 2 ^ k = m + 1" by (simp add: m_def)
  have "m div 2 ^ k * 2 ^ k + m mod 2 ^ k = m" "m mod 2 ^ k < 2 ^ k" by (rule div_mult_mod_eq, simp)
  then show "x \<le> y" "y < x + 2 ^ k" unfolding y_def m_def [symmetric] using m by linarith+
  show "2 ^ k dvd y" by (simp add: y_def)
qed

end
