(* ===== verification/U128.thy ===== *)
theory U128
  imports Cg_Prelude
begin

text \<open>
  The 128-bit helpers of src/src/util/softfp.c (u128_shl, u128_shr_sticky,
  u128_bitlen, u128_add, u128_cmp, u128_sub). The C code keeps a 128-bit
  integer in two uint64_t limbs and updates them through pointers; here each
  helper takes the limbs and returns the new ones. The C type int is \<open>int\<close>:
  all counts stay far inside its range. The lemmas give the natural number each
  helper computes, \<open>u128v hi lo\<close>, so that later theories never look at limbs.
\<close>

section \<open>Definitions\<close>

definition u128_shl :: "u64 \<Rightarrow> u64 \<Rightarrow> int \<Rightarrow> u64 \<times> u64" where
  "u128_shl hi lo n =
     (if n \<le> 0 then (hi, lo)
      else if n \<ge> 128 then (0, 0)
      else if n \<ge> 64 then (push_bit (nat (n - 64)) lo, 0)
      else (push_bit (nat n) hi OR drop_bit (nat (64 - n)) lo, push_bit (nat n) lo))"

text \<open>One iteration of the shift loop moves both limbs right by one bit.\<close>

fun shr_sticky_loop :: "nat \<Rightarrow> u64 \<Rightarrow> u64 \<Rightarrow> bool \<Rightarrow> u64 \<times> u64 \<times> bool" where
  "shr_sticky_loop 0 hi lo sticky = (hi, lo, sticky)"
| "shr_sticky_loop (Suc k) hi lo sticky =
     shr_sticky_loop k (drop_bit 1 hi) (drop_bit 1 lo OR push_bit 63 hi)
       (if lo AND 1 \<noteq> 0 then True else sticky)"

definition u128_shr_sticky :: "u64 \<Rightarrow> u64 \<Rightarrow> int \<Rightarrow> u64 \<times> u64 \<times> bool" where
  "u128_shr_sticky hi lo n =
     (if n \<le> 0 then (hi, lo, False)
      else if n \<ge> 128 then (0, 0, (hi OR lo) \<noteq> 0)
      else shr_sticky_loop (nat n) hi lo False)"

text \<open>The loop \<open>while (w) { n++; w >>= 1; }\<close> that counts significant bits.\<close>

function bit_count_loop :: "int \<Rightarrow> u64 \<Rightarrow> int" where
  "bit_count_loop n w = (if w = 0 then n else bit_count_loop (n + 1) (drop_bit 1 w))"
  by pat_completeness auto
termination
proof (relation "measure (\<lambda>(n, w). unat w)", simp, clarsimp)
  fix w :: u64
  assume "w \<noteq> 0"
  then have "0 < unat w" by (simp add: unat_gt_0)
  then have "unat w div 2 < unat w" by simp
  then show "unat (drop_bit (Suc 0) w) < unat w"
    by (simp only: unat_shr power_Suc0_right)
qed

declare bit_count_loop.simps [simp del]

definition u128_bitlen :: "u64 \<Rightarrow> u64 \<Rightarrow> int" where
  "u128_bitlen hi lo = (if hi \<noteq> 0 then bit_count_loop 0 hi + 64 else bit_count_loop 0 lo)"

definition u128_add :: "u64 \<Rightarrow> u64 \<Rightarrow> u64 \<Rightarrow> u64 \<Rightarrow> u64 \<times> u64" where
  "u128_add hi lo ahi alo =
     (let old = lo; lo' = lo + alo in (hi + (ahi + (if lo' < old then 1 else 0)), lo'))"

definition u128_cmp :: "u64 \<Rightarrow> u64 \<Rightarrow> u64 \<Rightarrow> u64 \<Rightarrow> int" where
  "u128_cmp ahi alo bhi blo =
     (if ahi \<noteq> bhi then (if ahi < bhi then - 1 else 1)
      else if alo \<noteq> blo then (if alo < blo then - 1 else 1)
      else 0)"

definition u128_sub :: "u64 \<Rightarrow> u64 \<Rightarrow> u64 \<Rightarrow> u64 \<Rightarrow> u64 \<times> u64" where
  "u128_sub hi lo bhi blo =
     (let old = lo in (hi - (bhi + (if old < blo then 1 else 0)), lo - blo))"

text \<open>The number two limbs stand for, and the same for a pair of limbs.\<close>

definition u128v :: "u64 \<Rightarrow> u64 \<Rightarrow> nat" where
  "u128v hi lo = unat hi * 2 ^ 64 + unat lo"

abbreviation u128p :: "u64 \<times> u64 \<Rightarrow> nat" where
  "u128p p \<equiv> u128v (fst p) (snd p)"

section \<open>The value of a limb pair\<close>

lemma u128v_lt [limb_bounds]: "u128v hi lo < 2 ^ 128"
proof -
  have "unat hi * 2 ^ 64 \<le> (2 ^ 64 - 1) * 2 ^ 64"
    using unat_u64_lt [of hi] by (intro mult_le_mono1) linarith
  then show ?thesis
    using unat_u64_lt [of lo] by (simp add: u128v_def)
qed

lemma u128v_eq_0 [simp]: "u128v hi lo = 0 \<longleftrightarrow> hi = 0 \<and> lo = 0"
  by (simp add: u128v_def unat_eq_zero)

lemma u128v_pos [simp]: "0 < u128v hi lo \<longleftrightarrow> hi \<noteq> 0 \<or> lo \<noteq> 0"
  by (metis u128v_eq_0 gr0I less_numeral_extra(3))

lemma u128v_0_0 [simp]: "u128v 0 0 = 0"
  by simp

lemma u128v_div_64: "u128v hi lo div 2 ^ 64 = unat hi"
  using unat_u64_lt [of lo] by (simp add: u128v_def)

lemma u128v_mod_64: "u128v hi lo mod 2 ^ 64 = unat lo"
  using unat_u64_lt [of lo] by (simp add: u128v_def)

lemma u128v_inject: "u128v a b = u128v c d \<longleftrightarrow> a = c \<and> b = d"
  by (metis u128v_div_64 u128v_mod_64 word_unat_eq_iff)

lemma u128v_odd: "odd (u128v hi lo) \<longleftrightarrow> lo AND 1 \<noteq> 0"
proof -
  have "odd (u128v hi lo) \<longleftrightarrow> odd (unat lo)"
    by (simp add: u128v_def)
  also have "\<dots> \<longleftrightarrow> lo AND 1 \<noteq> 0"
    using unat_low_mask [of lo 1]
    by (simp add: mask_Suc_exp odd_iff_mod_2_eq_one unat_eq_zero [symmetric])
  finally show ?thesis .
qed

lemma u128v_low: "u128v 0 lo = unat lo"
  by (simp add: u128v_def)

section \<open>Shifts\<close>

lemma u128_shl_value:
  "u128p (u128_shl hi lo n) = u128v hi lo * 2 ^ nat n mod 2 ^ 128"
proof -
  consider "n \<le> 0" | "n \<ge> 128" | "64 \<le> n" "n < 128" | "0 < n" "n < 64"
    by linarith
  then show ?thesis
  proof cases
    case 1
    then show ?thesis using u128v_lt [of hi lo] by (simp add: u128_shl_def)
  next
    case 2
    then have "(2::nat) ^ nat n = 2 ^ 128 * 2 ^ (nat n - 128)"
      by (intro pow2_split) simp
    with 2 show ?thesis by (simp add: u128_shl_def)
  next
    case 3
    define k where "k = nat (n - 64)"
    have n: "nat n = k + 64" using 3 by (simp add: k_def)
    have alg: "(h * B + l) * (P * B) = (h * B * P + l * P) * B + 0" for h B l P :: nat
      by (simp add: algebra_simps)
    have "u128v hi lo * 2 ^ nat n mod 2 ^ 128
        = ((unat hi * 2 ^ 64 * 2 ^ k + unat lo * 2 ^ k) * 2 ^ 64 + 0) mod 2 ^ (64 + 64)"
      unfolding u128v_def n power_add [of 2 k 64] alg by simp
    also have "\<dots> = (unat hi * 2 ^ 64 * 2 ^ k + unat lo * 2 ^ k) mod 2 ^ 64 * 2 ^ 64 + 0"
      by (rule two_limb_mod) simp
    also have "(unat hi * 2 ^ 64 * 2 ^ k + unat lo * 2 ^ k) mod 2 ^ 64 = unat lo * 2 ^ k mod 2 ^ 64"
      by (rule mod_add_mult_drop)
    finally show ?thesis
      using 3 by (simp add: u128_shl_def u128v_def k_def [symmetric] unat_shl)
  next
    case 4
    define k where "k = nat n"
    have k: "k \<le> 64" "nat (64 - n) = 64 - k" "0 < k" "k < 64" using 4 by (auto simp: k_def)
    let ?c = "unat lo div 2 ^ (64 - k)"
    have c: "?c < 2 ^ k"
      using unat_u64_lt [of lo] k by (simp add: div_less_iff_less_mult flip: power_add)
    have hi': "unat (push_bit k hi OR drop_bit (64 - k) lo) = unat hi * 2 ^ k mod 2 ^ 64 + ?c"
      using c shl_mod_eq [OF k(1), of "unat hi"]
        unat_or_disjoint [of "push_bit k hi" k "drop_bit (64 - k) lo"]
      by (simp add: unat_shl unat_shr)
    have alg: "l * P = c * B + r \<Longrightarrow> (h * B + l) * P = (h * P + c) * B + r" for h B l P c r :: nat
      by (simp add: algebra_simps)
    have "unat lo * 2 ^ k = ?c * 2 ^ 64 + unat lo * 2 ^ k mod 2 ^ 64"
      using shl_mod_split [OF k(1), of "unat lo"] shl_mod_eq [OF k(1), of "unat lo"] by simp
    then have "u128v hi lo * 2 ^ k = (unat hi * 2 ^ k + ?c) * 2 ^ 64 + unat lo * 2 ^ k mod 2 ^ 64"
      unfolding u128v_def by (rule alg)
    then have "u128v hi lo * 2 ^ k mod 2 ^ (64 + 64)
        = ((unat hi * 2 ^ k + ?c) * 2 ^ 64 + unat lo * 2 ^ k mod 2 ^ 64) mod 2 ^ (64 + 64)"
      by (simp only:)
    also have "\<dots> = ((unat hi * 2 ^ k + ?c) mod 2 ^ 64) * 2 ^ 64 + unat lo * 2 ^ k mod 2 ^ 64"
      by (rule two_limb_mod) simp
    also have "(unat hi * 2 ^ k + ?c) mod 2 ^ 64 = unat hi * 2 ^ k mod 2 ^ 64 + ?c"
      using c k by (intro shl_add_mod) simp_all
    finally show ?thesis
      using 4 hi' k by (simp add: u128_shl_def u128v_def unat_shl flip: k_def)
  qed
qed

lemma shr_sticky_loop_value:
  "shr_sticky_loop k hi lo s = (hi', lo', s') \<Longrightarrow>
     u128v hi' lo' = u128v hi lo div 2 ^ k \<and> s' = (s \<or> u128v hi lo mod 2 ^ k \<noteq> 0)"
proof (induction k arbitrary: hi lo s)
  case 0
  then show ?case by simp
next
  case (Suc k)
  let ?h = "drop_bit 1 hi" and ?l = "drop_bit 1 lo OR push_bit 63 hi"
  have lo_half: "unat (drop_bit 1 lo) < 2 ^ 63"
    using unat_u64_lt [of lo] by (simp add: unat_shr)
  have "unat hi * 2 ^ 63 mod 2 ^ 64 = unat hi mod 2 * 2 ^ 63"
    using shl_mod_eq [of 63 64 "unat hi"] by simp
  then have l: "unat ?l = unat hi mod 2 * 2 ^ 63 + unat lo div 2"
    using lo_half unat_or_disjoint [of "push_bit 63 hi" 63 "drop_bit 1 lo"]
    by (simp add: unat_shl unat_shr or.commute)
  have "u128v hi lo = 2 * (unat hi div 2 * 2 ^ 64 + unat hi mod 2 * 2 ^ 63) + unat lo"
    using limb_halves [of "unat hi" "2 ^ 63"] by (simp add: u128v_def)
  then have "u128v hi lo div 2 = unat hi div 2 * 2 ^ 64 + unat hi mod 2 * 2 ^ 63 + unat lo div 2"
    by (simp only: div_mult_self4 zero_neq_numeral not_False_eq_True)
  then have step: "u128v ?h ?l = u128v hi lo div 2"
    unfolding u128v_def [of ?h ?l] l unat_shr by simp
  from Suc.IH [OF Suc.prems [simplified]] step
  have "u128v hi' lo' = u128v hi lo div 2 div 2 ^ k"
    and s': "s' = ((if lo AND 1 \<noteq> 0 then True else s) \<or> u128v hi lo div 2 mod 2 ^ k \<noteq> 0)"
    by auto
  moreover have "u128v hi lo mod 2 ^ Suc k \<noteq> 0 \<longleftrightarrow> lo AND 1 \<noteq> 0 \<or> u128v hi lo div 2 mod 2 ^ k \<noteq> 0"
    using u128v_odd [of hi lo] by (auto simp: mod_mult2_eq odd_iff_mod_2_eq_one)
  ultimately show ?case
    by (auto simp: div_mult2_eq)
qed

lemma u128_shr_sticky_value:
  assumes "u128_shr_sticky hi lo n = (hi', lo', s)"
  shows "u128v hi' lo' = u128v hi lo div 2 ^ nat n"
    and "s \<longleftrightarrow> u128v hi lo mod 2 ^ nat n \<noteq> 0"
proof -
  have big: "u128v hi lo < 2 ^ nat n" if "n \<ge> 128"
    using u128v_lt [of hi lo] that power_increasing [of 128 "nat n" "2::nat"] by linarith
  have or0: "(hi OR lo) = 0 \<longleftrightarrow> hi = 0 \<and> lo = 0"
    by (rule or_eq_0_iff)
  have "u128v hi' lo' = u128v hi lo div 2 ^ nat n \<and> s = (u128v hi lo mod 2 ^ nat n \<noteq> 0)"
  proof (cases "0 < n \<and> n < 128")
    case True
    then show ?thesis
      using assms shr_sticky_loop_value [of "nat n" hi lo False] by (simp add: u128_shr_sticky_def)
  next
    case False
    with assms big or0 show ?thesis
      by (auto simp: u128_shr_sticky_def split: if_splits)
  qed
  then show "u128v hi' lo' = u128v hi lo div 2 ^ nat n" "s \<longleftrightarrow> u128v hi lo mod 2 ^ nat n \<noteq> 0"
    by simp_all
qed

section \<open>Bit length\<close>

lemma bit_count_loop_eq: "bit_count_loop n w = n + int (nbits (unat w))"
proof (induction n w rule: bit_count_loop.induct)
  case (1 n w)
  show ?case
  proof (cases "w = 0")
    case False
    then have "0 < unat w" by (simp add: unat_gt_0)
    with 1 [OF False] False show ?thesis
      by (simp add: bit_count_loop.simps [of n w] unat_shr nbits_pos [of "unat w"])
  qed (simp add: bit_count_loop.simps)
qed

lemma u128_bitlen_eq: "u128_bitlen hi lo = int (nbits (u128v hi lo))"
proof (cases "hi = 0")
  case False
  then have "0 < unat hi" by (simp add: unat_gt_0)
  have "nbits (u128v hi lo) = Suc (nbits (unat hi) - 1 + 64)"
  proof (rule nbits_eqI)
    have "2 ^ (nbits (unat hi) - 1) * 2 ^ 64 \<le> unat hi * 2 ^ 64"
      using nbits_ge [OF \<open>0 < unat hi\<close>] by (intro mult_le_mono1)
    then show "2 ^ (nbits (unat hi) - 1 + 64) \<le> u128v hi lo"
      by (simp add: power_add u128v_def)
    have "Suc (unat hi) * 2 ^ 64 \<le> 2 ^ nbits (unat hi) * 2 ^ 64"
      using lt_2_nbits [of "unat hi"] by (intro mult_le_mono1) simp
    also have "\<dots> = 2 ^ Suc (nbits (unat hi) - 1 + 64)"
      by (simp only: nbits_pos [OF \<open>0 < unat hi\<close>] flip: power_add) simp
    finally show "u128v hi lo < 2 ^ Suc (nbits (unat hi) - 1 + 64)"
      using unat_u64_lt [of lo] by (simp add: u128v_def)
  qed
  with False \<open>0 < unat hi\<close> show ?thesis
    by (simp add: u128_bitlen_def bit_count_loop_eq nbits_pos)
qed (simp add: u128_bitlen_def bit_count_loop_eq u128v_low)

lemma u128_nbits_le: "nbits (u128v hi lo) \<le> 128"
  by (simp only: nbits_le_iff u128v_lt)

section \<open>Addition, comparison, subtraction\<close>

lemma u128_add_value:
  "u128p (u128_add hi lo ahi alo) = (u128v hi lo + u128v ahi alo) mod 2 ^ 128"
proof -
  let ?c = "unat lo + unat alo"
  have carry: "lo + alo < lo \<longleftrightarrow> 2 ^ 64 \<le> ?c"
    using unat_u64_lt [of lo] unat_u64_lt [of alo]
    by (auto simp: word_less_nat_alt unat_word_ariths mod_if)
  have "unat (hi + (ahi + (if lo + alo < lo then 1 else 0)))
      = (unat hi + unat ahi + ?c div 2 ^ 64) mod 2 ^ 64"
    using carry unat_u64_lt [of lo] unat_u64_lt [of alo]
    by (simp add: unat_word_ariths mod_simps add.assoc div_carry)
  then have "u128p (u128_add hi lo ahi alo)
      = (unat hi + unat ahi + ?c div 2 ^ 64) mod 2 ^ 64 * 2 ^ 64 + ?c mod 2 ^ 64"
    by (simp add: u128_add_def u128v_def unat_word_ariths Let_def)
  also have "\<dots> = ((unat hi + unat ahi + ?c div 2 ^ 64) * 2 ^ 64 + ?c mod 2 ^ 64) mod 2 ^ (64 + 64)"
    by (rule two_limb_mod [symmetric]) simp
  also have "(unat hi + unat ahi + ?c div 2 ^ 64) * 2 ^ 64 + ?c mod 2 ^ 64
      = u128v hi lo + u128v ahi alo"
    using div_mult_mod_eq [of ?c "2 ^ 64"] by (simp add: u128v_def algebra_simps)
  finally show ?thesis by simp
qed

lemma u128_cmp_value:
  "u128_cmp ahi alo bhi blo = sgn (int (u128v ahi alo) - int (u128v bhi blo))"
proof -
  have less: "u128v x y < u128v z w" if "unat x < unat z" for x y z w
  proof -
    have "Suc (unat x) * 2 ^ 64 \<le> unat z * 2 ^ 64"
      using that by (intro mult_le_mono1) simp
    then show ?thesis
      using unat_u64_lt [of y] by (simp add: u128v_def)
  qed
  consider "ahi < bhi" | "bhi < ahi" | "ahi = bhi" by (rule linorder_cases)
  then show ?thesis
  proof cases
    case 3
    then show ?thesis by (simp add: u128_cmp_def u128v_def word_less_nat_alt sgn_if uint_nat word_unat_eq_iff
          del: of_nat_unat)
  qed (use less in \<open>auto simp: u128_cmp_def word_less_nat_alt\<close>)
qed

lemma u128_sub_value:
  assumes "u128v bhi blo \<le> u128v hi lo"
  shows "u128p (u128_sub hi lo bhi blo) = u128v hi lo - u128v bhi blo"
proof -
  have le: "unat bhi + (if lo < blo then 1 else 0) \<le> unat hi"
  proof (rule ccontr)
    assume "\<not> ?thesis"
    then have "Suc (unat hi) * 2 ^ 64 \<le> (unat bhi + (if lo < blo then 1 else 0)) * 2 ^ 64"
      by (intro mult_le_mono1) simp
    with assms show False
      using unat_u64_lt [of lo] unat_u64_lt [of blo]
      by (auto simp: u128v_def word_less_nat_alt split: if_splits)
  qed
  have "unat (bhi + (if lo < blo then 1 else 0)) = unat bhi + (if lo < blo then 1 else 0)"
    using le unat_u64_lt [of hi] by (cases "lo < blo") (simp_all add: unat_word_ariths)
  then have "unat (hi - (bhi + (if lo < blo then 1 else 0)))
      = unat hi - (unat bhi + (if lo < blo then 1 else 0))"
    using le by (subst unat_sub) (simp_all add: word_le_nat_alt)
  moreover have "unat (lo - blo) = (if lo < blo then 2 ^ 64 + unat lo - unat blo else unat lo - unat blo)"
    using unat_sub_if' [of lo blo] by (auto simp: word_less_nat_alt)
  ultimately show ?thesis
    using le assms unat_u64_lt [of blo]
    by (auto simp: u128_sub_def u128v_def word_less_nat_alt diff_mult_distrib split: if_splits)
qed

section \<open>Negation and the sign bit of a pair\<close>

lemma unat_minus_u64: "unat (- w :: u64) = (if w = 0 then 0 else 2 ^ 64 - unat w)"
proof (cases "w = 0")
  case False
  have "uint (- w) = (- uint w) mod 2 ^ 64" by (simp add: uint_word_ariths)
  also have "\<dots> = 2 ^ 64 - uint w"
    using False unsigned_less [of w, where 'a = int] by (simp add: zmod_zminus1_eq_if uint_0_iff)
  finally have "int (unat (- w)) = 2 ^ 64 - int (unat w)" by simp
  then have "int (unat (- w) + unat w) = int (2 ^ 64)" by simp
  then have "unat (- w) + unat w = 2 ^ 64" by (simp only: of_nat_eq_iff)
  then show ?thesis using False by simp
qed simp

lemma unat_not_u64: "unat (NOT w :: u64) = 2 ^ 64 - 1 - unat w"
proof -
  have "NOT w = - 1 - w" by (simp add: not_eq_complement)
  moreover have "unat (- 1 - w) = unat (- 1 :: u64) - unat w"
    by (rule unat_sub) simp
  ultimately show ?thesis by (simp add: unat_minus_u64)
qed

lemma u128_neg_value:
  assumes "l = NOT lo + 1" "h = NOT hi + (if l = 0 then 1 else 0)"
  shows "u128v h l = (2 ^ 128 - u128v hi lo) mod 2 ^ 128"
proof -
  have l: "l = - lo" using assms(1) by (simp add: not_eq_complement)
  show ?thesis
  proof (cases "lo = 0")
    case True
    then have "h = - hi" "l = 0" using l assms(2) by (simp_all add: not_eq_complement)
    with True show ?thesis
      using unat_u64_lt [of hi] by (simp add: u128v_def unat_minus_u64 diff_mult_distrib unat_gt_0 [symmetric])
  next
    case False
    then have "h = NOT hi" "l \<noteq> 0" using l assms(2) by simp_all
    then show ?thesis
      using unat_u64_lt [of hi] unat_u64_lt [of lo] False
      by (simp add: u128v_def unat_not_u64 unat_minus_u64 l diff_mult_distrib word_eq_0_iff_unat)
  qed
qed

lemma u128v_top_bit: "drop_bit 63 hi \<noteq> 0 \<longleftrightarrow> 2 ^ 127 \<le> u128v hi lo"
proof -
  have "drop_bit 63 hi \<noteq> 0 \<longleftrightarrow> unat hi div 2 ^ 63 \<noteq> 0"
    by (simp add: word_eq_0_iff_unat unat_shr)
  also have "\<dots> \<longleftrightarrow> 2 ^ 63 \<le> unat hi" by (simp add: div_eq_0_iff not_less)
  also have "\<dots> \<longleftrightarrow> 2 ^ 127 \<le> u128v hi lo"
    using unat_u64_lt [of lo] unfolding u128v_def by (simp, linarith)
  finally show ?thesis .
qed

lemma u128v_above_top:
  "hi > 0x8000000000000000 \<or> (hi = 0x8000000000000000 \<and> lo \<noteq> 0) \<longleftrightarrow> 2 ^ 127 < u128v hi lo"
proof -
  have "hi > 0x8000000000000000 \<longleftrightarrow> 2 ^ 63 < unat hi" "hi = 0x8000000000000000 \<longleftrightarrow> unat hi = 2 ^ 63"
    by (simp_all add: word_less_nat_alt word_unat_eq_iff)
  then show ?thesis
    using unat_u64_lt [of lo] unat_gt_0 [of lo] by (auto simp: u128v_def)
qed

section \<open>The bits of a pair\<close>

lemma u128v_bit: "k < 128 \<Longrightarrow> bit (u128v h l) k \<longleftrightarrow> (if k < 64 then bit l k else bit h (k - 64))"
proof -
  assume k: "k < 128"
  have e: "u128v h l = push_bit 64 (unat h) + unat l" by (simp add: u128v_def push_bit_eq_mult)
  have "bit (push_bit 64 (unat h) + unat l) k \<longleftrightarrow> bit (push_bit 64 (unat h)) k \<or> bit (unat l) k"
    by (subst disjunctive_add) (auto simp: bit_simps dest: bit_imp_le_length)
  then show ?thesis unfolding e using k
    by (auto simp: bit_simps bit_unsigned_iff dest: bit_imp_le_length)
qed

end
