(* ===== verification/Ieee_Round.thy ===== *)
theory Ieee_Round
  imports Cg_Prelude
begin

text \<open>
  The abstract specification the soft-float engine is held to: rounding a
  positive real to a binary format (precision, smallest and largest exponent)
  to nearest, ties to even, with gradual underflow. The format is the locale
  \<open>binary_format\<close>; its lemmas show that the specified result is a nearest value
  of the format and that it is in the format. The last section has the
  bookkeeping predicates (an integer significand plus a sticky flag, or plus a
  round bit and a sticky flag, stand for a real) that tie limb code to reals.
\<close>

section \<open>Rounding a real to an integer, ties to even\<close>

definition rne :: "real \<Rightarrow> int" where
  "rne x = (let n = \<lfloor>x\<rfloor>; d = x - of_int n in
     if d < 1 / 2 then n else if d > 1 / 2 then n + 1 else if even n then n else n + 1)"

lemma rne_nearest: "\<bar>of_int (rne x) - x\<bar> \<le> \<bar>of_int k - x\<bar>"
proof -
  have f: "of_int \<lfloor>x\<rfloor> \<le> x" "x < of_int \<lfloor>x\<rfloor> + 1" by linarith+
  have "k \<le> \<lfloor>x\<rfloor> \<or> k \<ge> \<lfloor>x\<rfloor> + 1" by linarith
  then have k: "of_int k \<le> (of_int \<lfloor>x\<rfloor> :: real) \<or> of_int k \<ge> (of_int \<lfloor>x\<rfloor> + 1 :: real)"
    by (metis of_int_1 of_int_add of_int_le_iff)
  show ?thesis
    using f k by (auto simp: rne_def Let_def)
qed

lemma rne_of_int [simp]: "rne (of_int n) = n"
  by (simp add: rne_def)

lemma rne_eq_iff_integral: "of_int (rne x) = x \<longleftrightarrow> x \<in> \<int>"
  by (metis Ints_cases Ints_of_int rne_of_int)

lemma rne_tie_even:
  assumes "\<bar>of_int (rne x) - x\<bar> = \<bar>of_int k - x\<bar>" and "k \<noteq> rne x"
  shows "even (rne x)"
proof -
  have f: "of_int \<lfloor>x\<rfloor> \<le> x" "x < of_int \<lfloor>x\<rfloor> + 1" by linarith+
  have "k \<le> \<lfloor>x\<rfloor> \<or> k \<ge> \<lfloor>x\<rfloor> + 1" by linarith
  then have k: "of_int k \<le> (of_int \<lfloor>x\<rfloor> :: real) \<or> of_int k \<ge> (of_int \<lfloor>x\<rfloor> + 1 :: real)"
    by (metis of_int_1 of_int_add of_int_le_iff)
  have k': "of_int k \<noteq> (of_int (rne x) :: real)" using assms(2) by simp
  have "x - of_int \<lfloor>x\<rfloor> = 1 / 2"
    using f k k' assms(1) by (auto simp: rne_def Let_def split: if_splits)
  then show ?thesis by (simp add: rne_def Let_def)
qed

lemma rne_mono_lower: "of_int n \<le> x \<Longrightarrow> n \<le> rne x"
proof -
  assume "of_int n \<le> x"
  then have "n \<le> \<lfloor>x\<rfloor>" by (simp add: le_floor_iff)
  then show ?thesis by (auto simp: rne_def Let_def)
qed

lemma rne_mono_upper: "x < of_int n \<Longrightarrow> rne x \<le> n"
proof -
  assume "x < of_int n"
  then have "\<lfloor>x\<rfloor> < n" by (simp add: floor_less_iff)
  then show ?thesis by (auto simp: rne_def Let_def)
qed

lemma rne_fraction:
  assumes "0 \<le> d" "d < 1"
  shows "rne (real m + d) = int m + of_bool (1 / 2 \<le> d \<and> (d \<noteq> 1 / 2 \<or> odd m))"
proof -
  have "\<lfloor>real m + d\<rfloor> = int m" using assms by (simp add: floor_eq_iff)
  then show ?thesis by (auto simp: rne_def Let_def)
qed

lemma rne_small: "0 \<le> x \<Longrightarrow> x < 1 / 2 \<Longrightarrow> rne x = 0"
  using rne_fraction [of x 0] by simp

section \<open>Powers of two with integer exponents\<close>

lemma powi2_pos [simp]: "(0 :: real) < 2 powi e"
  by (simp add: zero_less_power_int)

lemma powi2_nonzero [simp]: "(2 :: real) powi e \<noteq> 0"
  by simp

lemma powi2_add: "(2 :: real) powi (a + b) = 2 powi a * 2 powi b"
  by (simp add: power_int_add)

lemma powi2_mono_iff [simp]: "(2 :: real) powi a \<le> 2 powi b \<longleftrightarrow> a \<le> b"
  by (metis linorder_not_le numeral_One one_less_numeral_iff power_int_increasing
      power_int_strict_increasing semiring_norm(76) less_imp_le)

lemma powi2_strict_mono_iff [simp]: "(2 :: real) powi a < 2 powi b \<longleftrightarrow> a < b"
  using powi2_mono_iff [of b a] by linarith

lemma powi2_nat: "(2 :: real) powi (a + int k) = 2 powi a * 2 ^ k"
  by (simp add: powi2_add)

lemma powi2_diff_nat: "(2 :: real) powi (a - int k) = 2 powi a / 2 ^ k"
  by (simp add: power_int_diff)

section \<open>Binary formats\<close>

definition ulp_exp :: "int \<Rightarrow> int \<Rightarrow> real \<Rightarrow> int" where
  "ulp_exp prec emin v = max (\<lfloor>log 2 v\<rfloor> - (prec - 1)) (emin - (prec - 1))"

definition ieee_round :: "int \<Rightarrow> int \<Rightarrow> real \<Rightarrow> real" where
  "ieee_round prec emin v =
     (let e = ulp_exp prec emin v in of_int (rne (v / 2 powi e)) * 2 powi e)"

text \<open>Magnitudes of a format without an upper exponent limit, and the finite format.\<close>

definition unbounded_mag :: "int \<Rightarrow> int \<Rightarrow> real \<Rightarrow> bool" where
  "unbounded_mag prec emin y \<longleftrightarrow>
     (\<exists>m e. y = real m * 2 powi e \<and> m < 2 ^ nat prec \<and> emin - (prec - 1) \<le> e)"

definition format_mag :: "int \<Rightarrow> int \<Rightarrow> int \<Rightarrow> real \<Rightarrow> bool" where
  "format_mag prec emin emax y \<longleftrightarrow>
     (\<exists>m e. y = real m * 2 powi e \<and> m < 2 ^ nat prec \<and> emin - (prec - 1) \<le> e \<and> e \<le> emax - (prec - 1))"

lemma floor_log2_iff:
  assumes "0 < v"
  shows "\<lfloor>log 2 v\<rfloor> = k \<longleftrightarrow> 2 powi k \<le> v \<and> v < 2 powi (k + 1)"
  using floor_log_eq_powr_iff [of v 2 k] assms
  by (simp flip: powr_real_of_int' add: powi2_add powr_add)

lemma floor_log2_bounds:
  assumes "0 < v"
  shows "2 powi \<lfloor>log 2 v\<rfloor> \<le> v" "v < 2 powi (\<lfloor>log 2 v\<rfloor> + 1)"
  using floor_log2_iff [OF assms] by blast+

locale binary_format =
  fixes prec emin emax :: int
  assumes prec_ge: "2 \<le> prec"
    and emin_lt_emax: "emin < emax"
begin

lemma ulp_exp_upper:
  assumes "0 < v"
  shows "v / 2 powi ulp_exp prec emin v < 2 powi prec"
proof -
  let ?e = "ulp_exp prec emin v"
  have "\<lfloor>log 2 v\<rfloor> + 1 \<le> ?e + prec" by (simp add: ulp_exp_def)
  then have "2 powi (\<lfloor>log 2 v\<rfloor> + 1) \<le> (2 :: real) powi (?e + prec)" by simp
  then have "v < 2 powi ?e * 2 powi prec"
    using floor_log2_bounds(2) [OF assms] by (simp add: powi2_add)
  then show ?thesis by (simp add: field_simps)
qed

lemma ulp_exp_normal:
  assumes "0 < v" and "emin - (prec - 1) < ulp_exp prec emin v"
  shows "2 powi (ulp_exp prec emin v + (prec - 1)) \<le> v"
  using assms floor_log2_bounds(1) [OF assms(1)] by (simp add: ulp_exp_def max_def split: if_splits)

lemma ulp_exp_eqI:
  assumes "0 < v" and "v < 2 powi (e + prec)" and "emin - (prec - 1) \<le> e"
    and "e \<noteq> emin - (prec - 1) \<Longrightarrow> 2 powi (e + (prec - 1)) \<le> v"
  shows "ulp_exp prec emin v = e"
proof -
  have "\<lfloor>log 2 v\<rfloor> < e + prec"
    using floor_log2_bounds(1) [OF assms(1)] assms(2)
    by (metis order_le_less_trans powi2_strict_mono_iff)
  moreover have "e + (prec - 1) \<le> \<lfloor>log 2 v\<rfloor>" if "e \<noteq> emin - (prec - 1)"
  proof -
    have "2 powi (e + (prec - 1)) < (2 :: real) powi (\<lfloor>log 2 v\<rfloor> + 1)"
      using floor_log2_bounds(2) [OF assms(1)] assms(4) [OF that] by linarith
    then have "e + (prec - 1) < \<lfloor>log 2 v\<rfloor> + 1" by (simp only: powi2_strict_mono_iff)
    then show ?thesis by linarith
  qed
  ultimately show ?thesis
    using assms(3) by (cases "e = emin - (prec - 1)") (auto simp: ulp_exp_def)
qed

lemma round_nearest_unbounded:
  assumes "0 < v" and "unbounded_mag prec emin y"
  shows "\<bar>ieee_round prec emin v - v\<bar> \<le> \<bar>y - v\<bar>"
proof -
  let ?e = "ulp_exp prec emin v"
  from assms(2) obtain m e where y: "y = real m * 2 powi e" "m < 2 ^ nat prec" "emin - (prec - 1) \<le> e"
    by (auto simp: unbounded_mag_def)
  have scale: "\<bar>of_int k * 2 powi ?e - v\<bar> = \<bar>of_int k - v / 2 powi ?e\<bar> * 2 powi ?e" for k
    by (simp add: field_simps flip: abs_mult_pos')
  have grid: "\<bar>ieee_round prec emin v - v\<bar> \<le> \<bar>of_int k * 2 powi ?e - v\<bar>" for k
    unfolding ieee_round_def Let_def scale
    by (intro mult_right_mono rne_nearest) simp
  show ?thesis
  proof (cases "?e \<le> e")
    case True
    have "y = of_int (int m * 2 ^ nat (e - ?e)) * 2 powi ?e"
      using True powi2_nat [of ?e "nat (e - ?e)"] by (simp add: y(1))
    then show ?thesis using grid by presburger
  next
    case False
    then have low: "2 powi (?e + (prec - 1)) \<le> v"
      using assms(1) y(3) by (intro ulp_exp_normal) auto
    have "real m \<le> 2 powi prec"
      using y(2) prec_ge by (simp add: power_int_nonneg_exp)
    then have "y \<le> 2 powi prec * 2 powi e"
      by (simp add: y(1))
    also have "\<dots> \<le> 2 powi (?e + (prec - 1))"
      using False by (simp flip: powi2_add)
    finally have "\<bar>2 powi (?e + (prec - 1)) - v\<bar> \<le> \<bar>y - v\<bar>"
      using low by linarith
    moreover have "2 powi (?e + (prec - 1)) = of_int (2 ^ nat (prec - 1)) * (2 :: real) powi ?e"
      using prec_ge powi2_nat [of ?e "nat (prec - 1)"] by simp
    ultimately show ?thesis
      using grid [of "2 ^ nat (prec - 1)"] by simp
  qed
qed

lemma round_decompose:
  assumes "0 < v"
  obtains m e where "ieee_round prec emin v = real m * 2 powi e" "m < 2 ^ nat prec"
    "emin - (prec - 1) \<le> e" "e \<noteq> emin - (prec - 1) \<Longrightarrow> 2 ^ nat (prec - 1) \<le> m"
proof -
  let ?e = "ulp_exp prec emin v" and ?m = "rne (v / 2 powi ulp_exp prec emin v)"
  have m0: "0 \<le> ?m"
    using assms by (intro rne_mono_lower) simp
  have "v / 2 powi ?e < of_int (2 ^ nat prec)"
    using ulp_exp_upper [OF assms] prec_ge by (simp add: power_int_nonneg_exp)
  then have m1: "?m \<le> 2 ^ nat prec" by (rule rne_mono_upper)
  have e: "emin - (prec - 1) \<le> ?e" by (simp add: ulp_exp_def)
  have "nat prec = Suc (nat (prec - 1))" using prec_ge by simp
  then have split: "(2 :: nat) ^ nat prec = 2 ^ nat (prec - 1) * 2"
    "(2 :: real) ^ nat prec = 2 ^ nat (prec - 1) * 2"
    by (simp_all only: power_Suc2)
  show thesis
  proof (cases "?m = 2 ^ nat prec")
    case True
    have "ieee_round prec emin v = real (2 ^ nat (prec - 1)) * 2 powi (?e + 1)"
      using powi2_nat [of ?e 1] by (simp add: ieee_round_def Let_def True split)
    then show thesis
      using e that [of "2 ^ nat (prec - 1)" "?e + 1"] by (simp add: split)
  next
    case False
    then have lt: "nat ?m < 2 ^ nat prec" using m0 m1 by (simp add: nat_less_iff)
    have eq: "ieee_round prec emin v = real (nat ?m) * 2 powi ?e"
      using m0 by (simp add: ieee_round_def Let_def)
    have "2 ^ nat (prec - 1) \<le> ?m" if "?e \<noteq> emin - (prec - 1)"
    proof (rule rne_mono_lower)
      have "2 powi (?e + (prec - 1)) \<le> v"
        using e that by (intro ulp_exp_normal [OF assms]) simp
      then show "of_int (2 ^ nat (prec - 1)) \<le> v / 2 powi ?e"
        using prec_ge powi2_nat [of ?e "nat (prec - 1)"] by (simp add: field_simps)
    qed
    then show thesis
      using m0 that [OF eq lt e] by (simp add: le_nat_iff)
  qed
qed

lemma round_in_unbounded: "0 < v \<Longrightarrow> unbounded_mag prec emin (ieee_round prec emin v)"
  by (erule round_decompose) (auto simp: unbounded_mag_def)

lemma round_in_format:
  assumes "0 < v" and "ieee_round prec emin v < 2 powi (emax + 1)"
  shows "format_mag prec emin emax (ieee_round prec emin v)"
proof -
  obtain m e where me: "ieee_round prec emin v = real m * 2 powi e" "m < 2 ^ nat prec"
    "emin - (prec - 1) \<le> e" "e \<noteq> emin - (prec - 1) \<Longrightarrow> 2 ^ nat (prec - 1) \<le> m"
    using round_decompose [OF assms(1)] by blast
  have "e \<le> emax - (prec - 1)"
  proof (cases "e = emin - (prec - 1)")
    case True
    then show ?thesis using emin_lt_emax by simp
  next
    case False
    have "(2 :: real) powi (e + (prec - 1)) = 2 ^ nat (prec - 1) * 2 powi e"
      using prec_ge powi2_nat [of e "nat (prec - 1)"] by simp
    also have "\<dots> \<le> real m * 2 powi e"
      using me(4) [OF False] by (intro mult_right_mono) (simp_all flip: of_nat_power_less_of_nat_cancel_iff)
    also have "\<dots> < 2 powi (emax + 1)" using assms(2) me(1) by simp
    finally show ?thesis by simp
  qed
  then show ?thesis using me unfolding format_mag_def by blast
qed

lemma round_nearest:
  assumes "0 < v" and "format_mag prec emin emax y"
  shows "\<bar>ieee_round prec emin v - v\<bar> \<le> \<bar>y - v\<bar>"
  using assms round_nearest_unbounded [of v y]
  by (auto simp: unbounded_mag_def format_mag_def)

lemma round_exact:
  assumes "0 < v" and "unbounded_mag prec emin v"
  shows "ieee_round prec emin v = v"
  using round_nearest_unbounded [OF assms] by simp

end

section \<open>Significands with a sticky flag\<close>

text \<open>
  \<open>residue v n e s\<close>: the real \<open>v\<close> is \<open>n\<close> units of \<open>2\<^sup>e\<close> plus a fraction of a unit,
  and the sticky flag \<open>s\<close> says whether the fraction is nonzero.
  \<open>round_state v n e rb s\<close>: in addition the round bit \<open>rb\<close> says whether the fraction
  reaches a half and \<open>s\<close> whether it is neither zero nor a half.
\<close>

definition residue :: "real \<Rightarrow> nat \<Rightarrow> int \<Rightarrow> bool \<Rightarrow> bool" where
  "residue v n e s \<longleftrightarrow>
     (\<exists>d. v = (real n + d) * 2 powi e \<and> 0 \<le> d \<and> d < 1 \<and> (s \<longleftrightarrow> d \<noteq> 0))"

definition round_state :: "real \<Rightarrow> nat \<Rightarrow> int \<Rightarrow> bool \<Rightarrow> bool \<Rightarrow> bool" where
  "round_state v n e rb s \<longleftrightarrow>
     (\<exists>d. v = (real n + d) * 2 powi e \<and> 0 \<le> d \<and> d < 1 \<and> (rb \<longleftrightarrow> 1 / 2 \<le> d)
        \<and> (s \<longleftrightarrow> d \<noteq> 0 \<and> d \<noteq> 1 / 2))"

lemma residue_exact: "residue (real n * 2 powi e) n e False"
  by (auto simp: residue_def)

lemma residue_False: "residue v n e False \<longleftrightarrow> v = real n * 2 powi e"
  by (auto simp: residue_def)

lemma residueI:
  assumes "real n * 2 powi e \<le> v" "v < (real n + 1) * 2 powi e" "s \<longleftrightarrow> v \<noteq> real n * 2 powi e"
  shows "residue v n e s"
proof -
  define d where "d = v / 2 powi e - real n"
  have "v = (real n + d) * 2 powi e" by (simp add: d_def)
  moreover have "0 \<le> d" "d < 1" using assms by (simp_all add: d_def field_simps)
  ultimately show ?thesis using assms(3) unfolding residue_def by (metis add.right_neutral add_cancel_right_right mult_cancel_right powi2_nonzero)
qed

lemma residue_bounds:
  assumes "residue v n e s"
  shows "real n * 2 powi e \<le> v" "v < (real n + 1) * 2 powi e"
  using assms by (auto simp: residue_def)

lemma residue_pos: "residue v n e s \<Longrightarrow> 0 < n \<or> s \<Longrightarrow> 0 < v"
  by (auto simp: residue_def add_pos_nonneg)

lemma round_state_residue: "round_state v n e rb s \<Longrightarrow> residue v n e (rb \<or> s)"
  by (auto simp: residue_def round_state_def)

lemma round_state_exact: "round_state v n e False False \<longleftrightarrow> v = real n * 2 powi e"
  by (auto simp: round_state_def)

text \<open>Dropping \<open>k\<close> low bits keeps the real: this is every right shift of the engine.\<close>

lemma residue_drop:
  assumes "residue v n e s" and "0 < k"
  shows "round_state v (n div 2 ^ k) (e + int k) (odd (n div 2 ^ (k - 1)))
           (s \<or> n mod 2 ^ (k - 1) \<noteq> 0)"
proof -
  from assms(1) obtain d where d: "v = (real n + d) * 2 powi e" "0 \<le> d" "d < 1" "s \<longleftrightarrow> d \<noteq> 0"
    by (auto simp: residue_def)
  obtain j where k: "k = Suc j" using assms(2) by (cases k) auto
  define q b r where "q = n div 2 ^ k" and "b = n div 2 ^ j mod 2" and "r = n mod 2 ^ j"
  have "n div 2 ^ j = 2 * q + b"
    by (simp add: q_def b_def k div_mult2_eq mult.commute [of 2 "2 ^ j"])
  then have n: "n = (2 * q + b) * 2 ^ j + r"
    using div_mult_mod_eq [of n "2 ^ j"] by (simp add: r_def)
  have r: "r < 2 ^ j" by (simp add: r_def)
  then have r1: "real r + 1 \<le> 2 ^ j"
    by (metis Suc_leI add.commute of_nat_Suc of_nat_le_iff of_nat_numeral of_nat_power)
  define x where "x = (real r + d) / 2 ^ k"
  have x: "0 \<le> x" "x < 1 / 2" "x = 0 \<longleftrightarrow> r = 0 \<and> \<not> s"
    using d r1 by (auto simp: x_def k field_simps add_nonneg_eq_0_iff)
  have "v = (real q + (real b / 2 + x)) * 2 powi (e + int k)"
    unfolding d(1) powi2_nat by (subst n) (simp add: x_def k field_simps)
  moreover have "odd (n div 2 ^ j) \<longleftrightarrow> b = 1" by (simp add: b_def odd_iff_mod_2_eq_one)
  moreover have "b = 0 \<or> b = 1" by (auto simp: b_def)
  ultimately show ?thesis
    using x unfolding round_state_def q_def [symmetric]
    by (intro exI [of _ "real b / 2 + x"]) (auto simp: k r_def)
qed

lemma round_state_rne:
  assumes "round_state v n e rb s"
  shows "rne (v / 2 powi e) = int n + of_bool (rb \<and> (s \<or> odd n))"
proof -
  from assms obtain d where d: "v = (real n + d) * 2 powi e" "0 \<le> d" "d < 1"
    "rb \<longleftrightarrow> 1 / 2 \<le> d" "s \<longleftrightarrow> d \<noteq> 0 \<and> d \<noteq> 1 / 2"
    by (auto simp: round_state_def)
  have "v / 2 powi e = real n + d" using d(1) by simp
  then show ?thesis
    using rne_fraction [OF d(2,3), of n] d(4,5) by (auto simp: of_bool_def)
qed

lemma round_state_integral:
  assumes "round_state v n e rb s"
  shows "(of_int (rne (v / 2 powi e)) * 2 powi e = v) \<longleftrightarrow> \<not> rb \<and> \<not> s"
proof -
  from assms obtain d where d: "v = (real n + d) * 2 powi e" "0 \<le> d" "d < 1"
    "rb \<longleftrightarrow> 1 / 2 \<le> d" "s \<longleftrightarrow> d \<noteq> 0 \<and> d \<noteq> 1 / 2"
    by (auto simp: round_state_def)
  have "of_int (rne (v / 2 powi e)) * 2 powi e = v \<longleftrightarrow> of_int (rne (v / 2 powi e)) = v / 2 powi e"
    by (auto simp: field_simps)
  also have "\<dots> \<longleftrightarrow> d = 0"
    unfolding round_state_rne [OF assms] using d by auto
  finally show ?thesis using d by auto
qed

end
