(* ===== verification/Sf_Round.thy ===== *)
theory Sf_Round
  imports U128 Ieee_Round
begin

text \<open>
  The number representation, the format geometry and the single rounding point
  of src/src/util/softfp.c and softfp.h: \<open>Sf\<close>, \<open>SfFormat\<close>, \<open>SfStatus\<close>, the five
  formats, prec_of, emax_of, emin_of and round_pack. The main lemma,
  \<open>round_pack_rounds\<close>, says that round_pack returns the specified rounding of the
  real its significand, exponent and sticky flag stand for, with the status
  flags that go with it.
\<close>

section \<open>Data\<close>

record sf_format =
  exp_bits :: int
  frac_bits :: int
  explicit_intbit :: bool
  total_bytes :: int

definition SF_BINARY16 :: sf_format where
  "SF_BINARY16 = \<lparr>exp_bits = 5, frac_bits = 10, explicit_intbit = False, total_bytes = 2\<rparr>"

definition SF_BINARY32 :: sf_format where
  "SF_BINARY32 = \<lparr>exp_bits = 8, frac_bits = 23, explicit_intbit = False, total_bytes = 4\<rparr>"

definition SF_BINARY64 :: sf_format where
  "SF_BINARY64 = \<lparr>exp_bits = 11, frac_bits = 52, explicit_intbit = False, total_bytes = 8\<rparr>"

definition SF_X87_80 :: sf_format where
  "SF_X87_80 = \<lparr>exp_bits = 15, frac_bits = 64, explicit_intbit = True, total_bytes = 10\<rparr>"

definition SF_BINARY128 :: sf_format where
  "SF_BINARY128 = \<lparr>exp_bits = 15, frac_bits = 112, explicit_intbit = False, total_bytes = 16\<rparr>"

datatype sf_class = SF_ZERO | SF_NORMAL | SF_INF | SF_NAN

text \<open>The C struct stores the sign in a uint8_t that only ever holds 0 or 1.\<close>

record sf =
  sf_sign :: bool
  sf_cls :: sf_class
  sf_exp :: int
  sf_hi :: u64
  sf_lo :: u64

record sf_status =
  inexact :: bool
  overflow :: bool
  underflow :: bool
  invalid :: bool

text \<open>What \<open>memset(&r, 0, sizeof(r))\<close> leaves in an \<open>Sf\<close> and in an \<open>SfStatus\<close>.\<close>

definition sf_cleared :: sf where
  "sf_cleared = \<lparr>sf_sign = False, sf_cls = SF_ZERO, sf_exp = 0, sf_hi = 0, sf_lo = 0\<rparr>"

definition status_cleared :: sf_status where
  "status_cleared = \<lparr>inexact = False, overflow = False, underflow = False, invalid = False\<rparr>"

section \<open>Format geometry\<close>

definition prec_of :: "sf_format \<Rightarrow> int" where
  "prec_of f = (if explicit_intbit f then frac_bits f else frac_bits f + 1)"

definition emax_of :: "sf_format \<Rightarrow> int" where
  "emax_of f = 2 ^ nat (exp_bits f - 1) - 1"

definition emin_of :: "sf_format \<Rightarrow> int" where
  "emin_of f = 1 - emax_of f"

section \<open>Rounding\<close>

text \<open>
  The bit just below a field that is about to lose \<open>shift\<close> bits, and the two
  right shifts that drop those bits and collect the sticky flag.
\<close>

definition round_bit_at :: "u64 \<Rightarrow> u64 \<Rightarrow> int \<Rightarrow> bool" where
  "round_bit_at hi lo shift =
     ((if shift \<le> 64 then drop_bit (nat (shift - 1)) lo AND 1
       else drop_bit (nat (shift - 65)) hi AND 1) \<noteq> 0)"

definition drop_rounding :: "u64 \<Rightarrow> u64 \<Rightarrow> int \<Rightarrow> bool \<Rightarrow> u64 \<times> u64 \<times> bool \<times> bool" where
  "drop_rounding hi lo shift sticky =
     (let round_bit = round_bit_at hi lo shift;
          (hi1, lo1, lost) = u128_shr_sticky hi lo (shift - 1);
          (hi2, lo2, _) = u128_shr_sticky hi1 lo1 1
      in (hi2, lo2, round_bit, if lost then True else sticky))"

text \<open>Lines 158--181: normalize to exactly \<open>prec\<close> significant bits.\<close>

definition normalize_sig ::
    "int \<Rightarrow> u64 \<Rightarrow> u64 \<Rightarrow> int \<Rightarrow> bool \<Rightarrow> u64 \<times> u64 \<times> int \<times> bool \<times> bool" where
  "normalize_sig prec hi lo ex sticky =
     (let bits = u128_bitlen hi lo in
      if bits > prec then
        (let shift = bits - prec;
             (hi', lo', round_bit, sticky') = drop_rounding hi lo shift sticky
         in (hi', lo', ex + shift, round_bit, sticky'))
      else if bits < prec then
        (let (hi', lo') = u128_shl hi lo (prec - bits)
         in (hi', lo', ex - (prec - bits), False, sticky))
      else (hi, lo, ex, False, sticky))"

text \<open>Lines 205--216: the increment; a carry out of the top drops one bit.\<close>

definition round_increment :: "int \<Rightarrow> u64 \<Rightarrow> u64 \<Rightarrow> int \<Rightarrow> bool \<Rightarrow> u64 \<times> u64 \<times> int" where
  "round_increment prec hi lo ex up =
     (if up then
        (let (h, l) = u128_add hi lo 0 1 in
         if u128_bitlen h l > prec then
           (let (h', l', _) = u128_shr_sticky h l 1 in (h', l', ex + 1))
         else (h, l, ex))
      else (hi, lo, ex))"

text \<open>Lines 204--238: round to nearest even, then overflow, zero or a number.\<close>

definition round_finish ::
    "sf_format \<Rightarrow> bool \<Rightarrow> u64 \<Rightarrow> u64 \<Rightarrow> int \<Rightarrow> bool \<Rightarrow> bool \<Rightarrow> sf_status \<Rightarrow> sf \<times> sf_status" where
  "round_finish f sign hi lo ex round_bit sticky st =
     (let prec = prec_of f;
          (hi1, lo1, ex1) =
            round_increment prec hi lo ex (round_bit \<and> (sticky \<or> lo AND 1 \<noteq> 0));
          st1 = (if round_bit \<or> sticky then st\<lparr>inexact := True\<rparr> else st);
          sign1 = (if hi1 = 0 \<and> lo1 = 0 then False else sign)
      in if ex1 + (prec - 1) > emax_of f then
           (sf_cleared\<lparr>sf_sign := sign1, sf_cls := SF_INF\<rparr>,
            st1\<lparr>overflow := True, inexact := True\<rparr>)
         else if hi1 = 0 \<and> lo1 = 0 then
           (sf_cleared\<lparr>sf_sign := sign1, sf_cls := SF_ZERO\<rparr>, st1)
         else
           (\<lparr>sf_sign = sign1, sf_cls = SF_NORMAL, sf_exp = ex1, sf_hi = hi1, sf_lo = lo1\<rparr>, st1))"

definition round_pack ::
    "bool \<Rightarrow> u64 \<Rightarrow> u64 \<Rightarrow> int \<Rightarrow> bool \<Rightarrow> sf_format \<Rightarrow> sf_status \<Rightarrow> sf \<times> sf_status" where
  "round_pack sign hi lo ex sticky_in f st =
     (let prec = prec_of f; emin = emin_of f in
      if hi = 0 \<and> lo = 0 \<and> \<not> sticky_in then (sf_cleared\<lparr>sf_cls := SF_ZERO, sf_sign := False\<rparr>, st)
      else
        (let (hi1, lo1, ex1, round_bit, sticky) = normalize_sig prec hi lo ex sticky_in in
         if ex1 < emin - (prec - 1) then
           (let shift = (emin - (prec - 1)) - ex1 in
            if shift \<ge> 128 then
              (sf_cleared\<lparr>sf_sign := sign, sf_cls := SF_ZERO\<rparr>,
               st\<lparr>underflow := True, inexact := True\<rparr>)
            else
              (let sticky' = (if round_bit then True else sticky);
                   (hi2, lo2, round_bit', sticky'') = drop_rounding hi1 lo1 shift sticky'
               in round_finish f sign hi2 lo2 (ex1 + shift) round_bit' sticky''
                    (st\<lparr>underflow := True\<rparr>)))
         else round_finish f sign hi1 lo1 ex1 round_bit sticky st))"

section \<open>The supported formats\<close>

definition sf_formats :: "sf_format set" where
  "sf_formats = {SF_BINARY16, SF_BINARY32, SF_BINARY64, SF_X87_80, SF_BINARY128}"

lemmas format_defs = SF_BINARY16_def SF_BINARY32_def SF_BINARY64_def SF_X87_80_def SF_BINARY128_def

lemmas geometry_defs = prec_of_def emax_of_def emin_of_def

lemma format_geometry:
  assumes "f \<in> sf_formats"
  shows "2 \<le> prec_of f" "prec_of f \<le> 113" "emin_of f = 1 - emax_of f" "15 \<le> emax_of f"
    "emax_of f \<le> 16383"
  using assms by (auto simp: sf_formats_def format_defs geometry_defs)

interpretation binary16: binary_format "prec_of SF_BINARY16" "emin_of SF_BINARY16" "emax_of SF_BINARY16"
  by unfold_locales (simp_all add: format_defs geometry_defs)

interpretation binary32: binary_format "prec_of SF_BINARY32" "emin_of SF_BINARY32" "emax_of SF_BINARY32"
  by unfold_locales (simp_all add: format_defs geometry_defs)

interpretation binary64: binary_format "prec_of SF_BINARY64" "emin_of SF_BINARY64" "emax_of SF_BINARY64"
  by unfold_locales (simp_all add: format_defs geometry_defs)

interpretation x87_80: binary_format "prec_of SF_X87_80" "emin_of SF_X87_80" "emax_of SF_X87_80"
  by unfold_locales (simp_all add: format_defs geometry_defs)

interpretation binary128: binary_format "prec_of SF_BINARY128" "emin_of SF_BINARY128" "emax_of SF_BINARY128"
  by unfold_locales (simp_all add: format_defs geometry_defs)

lemma format_binary_format:
  "f \<in> sf_formats \<Longrightarrow> binary_format (prec_of f) (emin_of f) (emax_of f)"
  using format_geometry [of f] by unfold_locales auto

section \<open>Values and well-formed numbers\<close>

definition sf_mag :: "sf \<Rightarrow> real" where
  "sf_mag a = real (u128v (sf_hi a) (sf_lo a)) * 2 powi (sf_exp a)"

definition sf_val :: "sf \<Rightarrow> real" where
  "sf_val a = (if sf_cls a = SF_NORMAL then (if sf_sign a then - sf_mag a else sf_mag a) else 0)"

text \<open>
  A canonical number of a format: exactly \<open>prec\<close> significant bits, or fewer at the
  smallest exponent; and a nonzero significand in a \<open>SF_NORMAL\<close> value.
\<close>

definition sf_canonical :: "sf_format \<Rightarrow> sf \<Rightarrow> bool" where
  "sf_canonical f a \<longleftrightarrow>
     (sf_cls a = SF_NORMAL \<longrightarrow>
        (let n = u128v (sf_hi a) (sf_lo a); p = prec_of f; el = emin_of f - (p - 1) in
         0 < n \<and> n < 2 ^ nat p \<and> el \<le> sf_exp a \<and> sf_exp a \<le> emax_of f - (p - 1)
         \<and> (sf_exp a \<noteq> el \<longrightarrow> 2 ^ nat (p - 1) \<le> n)))"

definition sf_overflows :: "sf_format \<Rightarrow> real \<Rightarrow> bool" where
  "sf_overflows f v \<longleftrightarrow> 2 powi (emax_of f + 1) \<le> ieee_round (prec_of f) (emin_of f) v"

abbreviation sf_ieee :: "sf_format \<Rightarrow> real \<Rightarrow> real" where
  "sf_ieee f v \<equiv> ieee_round (prec_of f) (emin_of f) v"

text \<open>
  The contract of every operation that ends in round_pack: the exact result has
  sign \<open>sign\<close> and positive magnitude \<open>v\<close>, the returned number is its rounding and
  the flags record overflow, tininess before rounding and inexactness.
\<close>

definition rounds_to :: "sf_format \<Rightarrow> bool \<Rightarrow> real \<Rightarrow> sf_status \<Rightarrow> sf \<times> sf_status \<Rightarrow> bool" where
  "rounds_to f sign v st res \<longleftrightarrow>
     sf_canonical f (fst res)
     \<and> (if sf_overflows f v then sf_cls (fst res) = SF_INF \<and> sf_sign (fst res) = sign
        else sf_cls (fst res) \<in> {SF_ZERO, SF_NORMAL}
             \<and> sf_val (fst res) = (if sign then - sf_ieee f v else sf_ieee f v))
     \<and> snd res = st\<lparr>inexact := inexact st \<or> sf_overflows f v \<or> sf_ieee f v \<noteq> v,
                      overflow := overflow st \<or> sf_overflows f v,
                      underflow := underflow st \<or> v < 2 powi (emin_of f)\<rparr>"

section \<open>Correctness of round_pack\<close>

lemma round_bit_at_value:
  assumes "0 < shift" "shift \<le> 128"
  shows "round_bit_at hi lo shift \<longleftrightarrow> odd (u128v hi lo div 2 ^ (nat shift - 1))"
proof (cases "shift \<le> 64")
  case True
  define j where "j = nat (shift - 1)"
  have j: "j < 64" "nat shift - 1 = j" using assms True by (auto simp: j_def)
  have "u128v hi lo div 2 ^ j = (unat hi * 2 ^ (64 - j) * 2 ^ j + unat lo) div 2 ^ j"
    using j by (simp add: u128v_def mult.assoc flip: power_add)
  also have "\<dots> = unat hi * 2 ^ (64 - j) + unat lo div 2 ^ j"
    by simp
  finally have "odd (u128v hi lo div 2 ^ j) \<longleftrightarrow> odd (unat lo div 2 ^ j)"
    using j by simp
  then show ?thesis
    using True j u128v_odd [of 0 "drop_bit j lo"]
    by (simp add: round_bit_at_def u128v_low unat_shr flip: j_def)
next
  case False
  define j where "j = nat (shift - 65)"
  have j: "nat shift - 1 = 64 + j" using False by (auto simp: j_def)
  have "u128v hi lo div 2 ^ (64 + j) = unat hi div 2 ^ j"
    unfolding power_add div_mult2_eq u128v_div_64 ..
  then show ?thesis
    using False u128v_odd [of 0 "drop_bit j hi"]
    unfolding j by (simp add: round_bit_at_def u128v_low unat_shr flip: j_def)
qed

lemma drop_rounding_value:
  assumes "drop_rounding hi lo shift sticky = (hi', lo', rb, sticky')"
    and "0 < shift" "shift \<le> 128"
  shows "u128v hi' lo' = u128v hi lo div 2 ^ nat shift"
    and "rb \<longleftrightarrow> odd (u128v hi lo div 2 ^ (nat shift - 1))"
    and "sticky' \<longleftrightarrow> sticky \<or> u128v hi lo mod 2 ^ (nat shift - 1) \<noteq> 0"
proof -
  obtain h1 l1 s1 where 1: "u128_shr_sticky hi lo (shift - 1) = (h1, l1, s1)"
    by (metis prod_cases3)
  obtain h2 l2 s2 where 2: "u128_shr_sticky h1 l1 1 = (h2, l2, s2)"
    by (metis prod_cases3)
  have eq: "hi' = h2" "lo' = l2" "rb = round_bit_at hi lo shift" "sticky' \<longleftrightarrow> sticky \<or> s1"
    using assms(1) 1 2 by (auto simp: drop_rounding_def split: if_splits)
  have n: "nat (shift - 1) = nat shift - 1" "nat shift = Suc (nat shift - 1)"
    using assms(2) by auto
  show "u128v hi' lo' = u128v hi lo div 2 ^ nat shift"
    using u128_shr_sticky_value(1) [OF 1] u128_shr_sticky_value(1) [OF 2] eq
    by (subst n(2)) (simp add: n(1) mult.commute flip: div_mult2_eq)
  show "rb \<longleftrightarrow> odd (u128v hi lo div 2 ^ (nat shift - 1))"
    using round_bit_at_value [OF assms(2,3)] eq by simp
  show "sticky' \<longleftrightarrow> sticky \<or> u128v hi lo mod 2 ^ (nat shift - 1) \<noteq> 0"
    using u128_shr_sticky_value(2) [OF 1] eq n by simp
qed

lemma drop_rounding_residue:
  assumes "drop_rounding hi lo shift sticky = (hi', lo', rb, sticky')"
    and "0 < shift" "shift \<le> 128" "residue v (u128v hi lo) e sticky"
  shows "round_state v (u128v hi' lo') (e + shift) rb sticky'"
  using residue_drop [OF assms(4), of "nat shift"] drop_rounding_value [OF assms(1-3)] assms(2)
  by simp

lemma normalize_sig_correct:
  assumes "normalize_sig p hi lo ex sticky = (hi', lo', ex', rb, sticky')"
    and "residue v (u128v hi lo) ex sticky" and "0 < p" "p \<le> 127"
    and "sticky \<Longrightarrow> p < int (nbits (u128v hi lo))" and "0 < u128v hi lo"
  shows "round_state v (u128v hi' lo') ex' rb sticky'" "nbits (u128v hi' lo') = nat p"
proof -
  let ?n = "u128v hi lo"
  have bits: "u128_bitlen hi lo = int (nbits ?n)" by (rule u128_bitlen_eq)
  have "round_state v (u128v hi' lo') ex' rb sticky' \<and> nbits (u128v hi' lo') = nat p"
  proof (cases "p < int (nbits ?n)")
    case True
    define shift where "shift = int (nbits ?n) - p"
    have shift: "0 < shift" "shift \<le> 128"
      using True assms(3) u128_nbits_le [of hi lo] by (auto simp: shift_def)
    from assms(1) True have d: "drop_rounding hi lo shift sticky = (hi', lo', rb, sticky')" "ex' = ex + shift"
      by (auto simp: normalize_sig_def bits shift_def Let_def split: prod.splits)
    have "nbits (u128v hi' lo') = nat p"
      using drop_rounding_value(1) [OF d(1) shift] assms(3) True by (simp add: nbits_div_2p shift_def)
    with drop_rounding_residue [OF d(1) shift assms(2)] d(2) show ?thesis by simp
  next
    case False
    then have "\<not> sticky" using assms(5) by auto
    with assms(2) have exact: "\<not> sticky" "v = real ?n * 2 powi ex"
      by (simp_all add: residue_False)
    define k where "k = nat p - nbits ?n"
    have k: "p - int (nbits ?n) = int k" using False by (simp add: k_def)
    have "u128p (u128_shl hi lo (int k)) = ?n * 2 ^ k"
    proof -
      have "?n * 2 ^ k < 2 ^ nbits ?n * 2 ^ k" using lt_2_nbits by simp
      also have "\<dots> \<le> 2 ^ 128"
        unfolding power_add [symmetric] using k assms(4) by (intro power_increasing) auto
      finally show ?thesis by (simp add: u128_shl_value)
    qed
    moreover have "(hi', lo') = u128_shl hi lo (int k) \<and> ex' = ex - int k \<and> \<not> rb \<and> \<not> sticky'"
      using assms(1) False k exact
      by (cases "int (nbits ?n) < p") (auto simp: normalize_sig_def bits u128_shl_def Let_def split: prod.splits)
    ultimately have "u128v hi' lo' = ?n * 2 ^ k" "ex' = ex - int k" "\<not> rb" "\<not> sticky'"
      by (auto simp: prod_eq_iff)
    then show ?thesis
      using exact(2) nbits_mult_2p [OF assms(6), of k] k
      by (auto simp: round_state_exact powi2_diff_nat)
  qed
  then show "round_state v (u128v hi' lo') ex' rb sticky'" "nbits (u128v hi' lo') = nat p" by auto
qed

lemma round_increment_value:
  assumes "round_increment p hi lo ex up = (hi', lo', ex')"
    and "u128v hi lo < 2 ^ nat p" "2 \<le> p" "p \<le> 127"
  shows "real (u128v hi' lo') * 2 powi ex' = (real (u128v hi lo) + of_bool up) * 2 powi ex"
    and "u128v hi' lo' < 2 ^ nat p"
    and "(ex' = ex \<and> u128v hi lo \<le> u128v hi' lo') \<or> (ex' = ex + 1 \<and> u128v hi' lo' = 2 ^ nat (p - 1))"
proof -
  let ?n = "u128v hi lo"
  have p: "(2::nat) ^ nat p = 2 * 2 ^ nat (p - 1)"
    using assms(3) by (simp flip: power_Suc add: nat_diff_distrib')
  have big: "(2 :: nat) ^ nat p < 2 ^ 128"
    using assms(4) by (intro power_strict_increasing) auto
  obtain h l where hl: "u128_add hi lo 0 1 = (h, l)" by fastforce
  have n1: "u128v h l = ?n + 1"
    using u128_add_value [of hi lo 0 1] assms(2) big by (simp add: hl u128v_low)
  obtain h' l' s' where sh: "u128_shr_sticky h l 1 = (h', l', s')" by (metis prod_cases3)
  have half: "u128v h' l' = (?n + 1) div 2"
    using u128_shr_sticky_value(1) [OF sh] n1 by simp
  have wide: "u128_bitlen h l > p \<longleftrightarrow> ?n + 1 = 2 ^ nat p"
    using assms(2,3) lt_nbits_iff [of "nat p" "?n + 1"] by (simp add: u128_bitlen_eq n1) linarith
  consider "\<not> up" "hi' = hi" "lo' = lo" "ex' = ex"
    | "up" "?n + 1 = 2 ^ nat p" "u128v hi' lo' = 2 ^ nat (p - 1)" "ex' = ex + 1"
    | "up" "?n + 1 \<noteq> 2 ^ nat p" "u128v hi' lo' = ?n + 1" "ex' = ex"
    using assms(1) wide half n1 hl sh p
    by (cases up) (auto simp: round_increment_def split: if_splits)
  note cases = this
  show "real (u128v hi' lo') * 2 powi ex' = (real ?n + of_bool up) * 2 powi ex"
  proof (cases rule: cases)
    case 2
    then have "real ?n + 1 = 2 * 2 ^ nat (p - 1)"
      using p by (metis of_nat_1 of_nat_add of_nat_mult of_nat_numeral of_nat_power)
    with 2 show ?thesis by (simp add: powi2_nat [of ex 1, simplified])
  qed simp_all
  show "u128v hi' lo' < 2 ^ nat p"
    using cases assms(2) p by cases auto
  show "(ex' = ex \<and> ?n \<le> u128v hi' lo') \<or> (ex' = ex + 1 \<and> u128v hi' lo' = 2 ^ nat (p - 1))"
    using cases by cases auto
qed

text \<open>
  A canonical significand below the top exponent is a number; above it, the
  rounded value has left the format.
\<close>

lemma overflow_test:
  assumes "f \<in> sf_formats" "n < 2 ^ nat (prec_of f)"
    and "e \<noteq> emin_of f - (prec_of f - 1) \<Longrightarrow> 2 ^ nat (prec_of f - 1) \<le> n"
  shows "e + (prec_of f - 1) > emax_of f \<longleftrightarrow> 2 powi (emax_of f + 1) \<le> real n * 2 powi e"
proof
  let ?p = "prec_of f"
  note g = format_geometry [OF assms(1)]
  have pw: "(2 :: real) powi (?p - 1) = 2 ^ nat (?p - 1)" "(2 :: real) powi ?p = 2 ^ nat ?p"
    using g by (simp_all add: power_int_nonneg_exp)
  {
    assume "e + (?p - 1) > emax_of f"
    then have "2 ^ nat (?p - 1) \<le> n" using assms(3) g by auto
    then have "2 powi (?p - 1) \<le> real n"
      unfolding pw by (metis of_nat_le_iff of_nat_numeral of_nat_power)
    then have "2 powi (?p - 1) * 2 powi e \<le> real n * 2 powi e"
      by (intro mult_right_mono) simp_all
    moreover have "(2 :: real) powi (emax_of f + 1) \<le> 2 powi (?p - 1) * 2 powi e"
      using \<open>e + (?p - 1) > emax_of f\<close> by (simp flip: powi2_add)
    ultimately show "2 powi (emax_of f + 1) \<le> real n * 2 powi e" by linarith
  next
    assume le: "2 powi (emax_of f + 1) \<le> real n * 2 powi e"
    have "real n < 2 powi ?p"
      unfolding pw using assms(2) by (metis of_nat_less_iff of_nat_numeral of_nat_power)
    then have "real n * 2 powi e < 2 powi ?p * 2 powi e" by simp
    with le have "2 powi (emax_of f + 1) < (2 :: real) powi (?p + e)"
      unfolding powi2_add by linarith
    then show "e + (?p - 1) > emax_of f" by simp
  }
qed

lemma round_state_ieee:
  assumes f: "f \<in> sf_formats" and rs: "round_state v n e rb s" and v: "0 < v"
    and lt: "n < 2 ^ nat (prec_of f)" and el: "emin_of f - (prec_of f - 1) \<le> e"
    and norm: "e \<noteq> emin_of f - (prec_of f - 1) \<Longrightarrow> 2 ^ nat (prec_of f - 1) \<le> n"
  shows "sf_ieee f v = (real n + of_bool (rb \<and> (s \<or> odd n))) * 2 powi e"
    and "sf_ieee f v \<noteq> v \<longleftrightarrow> rb \<or> s"
proof -
  let ?p = "prec_of f"
  note g = format_geometry [OF f]
  have pw: "(2 :: real) powi (?p - 1) = 2 ^ nat (?p - 1)" "(2 :: real) powi ?p = 2 ^ nat ?p"
    using g by (simp_all add: power_int_nonneg_exp)
  note b = residue_bounds [OF round_state_residue [OF rs]]
  have "real n + 1 \<le> 2 powi ?p"
    unfolding pw using lt by (metis Suc_leI add.commute of_nat_Suc of_nat_le_iff of_nat_numeral of_nat_power)
  then have "(real n + 1) * 2 powi e \<le> 2 powi ?p * 2 powi e"
    by (intro mult_right_mono) simp_all
  with b(2) have up: "v < 2 powi (e + ?p)"
    unfolding powi2_add mult.commute [of "2 powi e"] by linarith
  have low: "2 powi (e + (?p - 1)) \<le> v" if "e \<noteq> emin_of f - (?p - 1)"
  proof -
    have "2 powi (?p - 1) \<le> real n"
      unfolding pw using norm [OF that] by (metis of_nat_le_iff of_nat_numeral of_nat_power)
    then have "2 powi (?p - 1) * 2 powi e \<le> real n * 2 powi e"
      by (intro mult_right_mono) simp_all
    with b(1) show ?thesis unfolding powi2_add mult.commute [of "2 powi e"] by linarith
  qed
  have e: "ulp_exp ?p (emin_of f) v = e"
    by (rule binary_format.ulp_exp_eqI [OF format_binary_format [OF f] v up el low])
  show "sf_ieee f v = (real n + of_bool (rb \<and> (s \<or> odd n))) * 2 powi e"
    by (simp add: ieee_round_def e round_state_rne [OF rs])
  show "sf_ieee f v \<noteq> v \<longleftrightarrow> rb \<or> s"
    using round_state_integral [OF rs] by (simp add: ieee_round_def e)
qed

lemma round_finish_correct:
  assumes f: "f \<in> sf_formats" and rs: "round_state v (u128v hi lo) e rb s" and v: "0 < v"
    and lt: "u128v hi lo < 2 ^ nat (prec_of f)" and el: "emin_of f - (prec_of f - 1) \<le> e"
    and norm: "e \<noteq> emin_of f - (prec_of f - 1) \<Longrightarrow> 2 ^ nat (prec_of f - 1) \<le> u128v hi lo"
    and st': "st' = st\<lparr>underflow := underflow st \<or> v < 2 powi (emin_of f)\<rparr>"
  shows "rounds_to f sign v st (round_finish f sign hi lo e rb s st')"
proof -
  let ?p = "prec_of f" and ?up = "rb \<and> (s \<or> lo AND 1 \<noteq> 0)"
  note g = format_geometry [OF f]
  obtain h l e' where inc: "round_increment ?p hi lo e ?up = (h, l, e')"
    by (metis prod_cases3)
  note val = round_increment_value [OF inc lt]
  have p: "2 \<le> ?p" "?p \<le> 127" using g by auto
  have ieee: "sf_ieee f v = real (u128v h l) * 2 powi e'" "sf_ieee f v \<noteq> v \<longleftrightarrow> rb \<or> s"
    using round_state_ieee [OF f rs v lt el norm] val(1) [OF p] by (simp_all add: u128v_odd)
  have lt': "u128v h l < 2 ^ nat ?p" by (rule val(2) [OF p])
  have norm': "2 ^ nat (?p - 1) \<le> u128v h l" if "e' \<noteq> emin_of f - (?p - 1)"
    using val(3) [OF p] norm that by auto
  have ovf: "e' + (?p - 1) > emax_of f \<longleftrightarrow> sf_overflows f v"
    unfolding sf_overflows_def ieee(1) by (rule overflow_test [OF f lt' norm'])
  have el': "emin_of f - (?p - 1) \<le> e'" using val(3) [OF p] el by auto
  have nz: "u128v h l \<noteq> 0" if "sf_overflows f v"
    using that g norm' [OF _ ] ovf by (cases "e' = emin_of f - (?p - 1)") auto
  show ?thesis
  proof (cases "sf_overflows f v")
    case True
    with nz ovf ieee st' inc show ?thesis
      by (auto simp: rounds_to_def round_finish_def Let_def sf_canonical_def sf_cleared_def)
  next
    case False
    with ovf have "e' \<le> emax_of f - (?p - 1)" by simp
    with False lt' norm' ovf ieee st' inc el' show ?thesis
      by (auto simp: rounds_to_def round_finish_def Let_def sf_canonical_def sf_cleared_def
          sf_val_def sf_mag_def)
  qed
qed

text \<open>A normalized significand fixes the binade of its real.\<close>

lemma normalized_binade:
  assumes "round_state v n e rb s" "nbits n = nat p" "2 \<le> p"
  shows "n < 2 ^ nat p" "2 ^ nat (p - 1) \<le> n" "2 powi (e + (p - 1)) \<le> v" "v < 2 powi (e + p)"
proof -
  note b = residue_bounds [OF round_state_residue [OF assms(1)]]
  show lt: "n < 2 ^ nat p" using assms(2) lt_2_nbits by metis
  show ge: "2 ^ nat (p - 1) \<le> n"
    using nbits_ge [of n] assms by (cases "n = 0") (auto simp: nat_diff_distrib')
  have "real n + 1 \<le> 2 ^ nat p"
    using lt by (metis Suc_leI add.commute of_nat_Suc of_nat_le_iff of_nat_numeral of_nat_power)
  then have "(real n + 1) * 2 powi e \<le> 2 ^ nat p * 2 powi e"
    by (intro mult_right_mono) simp_all
  moreover have "2 powi (e + p) = 2 ^ nat p * (2 :: real) powi e"
    using assms(3) powi2_nat [of e "nat p"] by simp
  ultimately show "v < 2 powi (e + p)" using b(2) by linarith
  have "2 ^ nat (p - 1) \<le> real n"
    using ge by (metis of_nat_le_iff of_nat_numeral of_nat_power)
  then have "2 ^ nat (p - 1) * 2 powi e \<le> real n * 2 powi e"
    by (intro mult_right_mono) simp_all
  moreover have "2 powi (e + (p - 1)) = 2 ^ nat (p - 1) * (2 :: real) powi e"
    using assms(3) powi2_nat [of e "nat (p - 1)"] by simp
  ultimately show "2 powi (e + (p - 1)) \<le> v" using b(1) by linarith
qed

text \<open>Less than half of the smallest subnormal rounds to zero.\<close>

lemma ieee_vanishes:
  assumes f: "f \<in> sf_formats" and v: "0 < v" "v < 2 powi (emin_of f - prec_of f)"
  shows "sf_ieee f v = 0"
proof -
  let ?el = "emin_of f - (prec_of f - 1)"
  have p: "2 \<le> prec_of f" by (rule format_geometry [OF f])
  have "v < 2 powi (?el + prec_of f)"
    using v(2) p by (smt (verit) powi2_mono_iff)
  then have e: "ulp_exp (prec_of f) (emin_of f) v = ?el"
    by (intro binary_format.ulp_exp_eqI [OF format_binary_format [OF f] v(1)]) auto
  have "2 powi ?el = 2 powi (emin_of f - prec_of f) * (2 :: real)"
    using powi2_nat [of "emin_of f - prec_of f" 1] by (simp add: algebra_simps)
  then have "v / 2 powi ?el < 1 / 2" using v by (simp add: field_simps)
  then have "rne (v / 2 powi ?el) = 0" using v(1) by (intro rne_small) simp_all
  then show ?thesis by (simp add: ieee_round_def e)
qed

lemma underflow_to_zero:
  assumes f: "f \<in> sf_formats" and v: "0 < v" "v < 2 powi (emin_of f - prec_of f)"
  shows "rounds_to f sign v st
    (sf_cleared\<lparr>sf_sign := sign, sf_cls := SF_ZERO\<rparr>, st\<lparr>underflow := True, inexact := True\<rparr>)"
proof -
  have "\<not> (2 :: real) powi (emax_of f + 1) \<le> 0" by (simp add: not_le)
  moreover have "v < 2 powi (emin_of f)"
    using v(2) format_geometry(1) [OF f] by (smt (verit) powi2_mono_iff)
  ultimately show ?thesis
    using v(1) ieee_vanishes [OF assms]
    by (simp add: rounds_to_def sf_overflows_def sf_canonical_def sf_val_def sf_cleared_def)
qed

text \<open>
  The contract of the single rounding point. The hypothesis on the sticky flag
  is the one every caller meets: a sticky significand has a round bit below its
  retained field.
\<close>

lemma round_pack_rounds:
  assumes f: "f \<in> sf_formats" and res: "residue v (u128v hi lo) ex sticky"
    and pos: "0 < u128v hi lo" and sticky: "sticky \<Longrightarrow> prec_of f < int (nbits (u128v hi lo))"
  shows "rounds_to f sign v st (round_pack sign hi lo ex sticky f st)"
proof -
  let ?p = "prec_of f" and ?el = "emin_of f - (prec_of f - 1)"
  note g = format_geometry [OF f]
  have v: "0 < v" using residue_pos [OF res] pos by blast
  obtain h l e rb s where n: "normalize_sig ?p hi lo ex sticky = (h, l, e, rb, s)"
    by (metis prod_cases5)
  have rs: "round_state v (u128v h l) e rb s" and bits: "nbits (u128v h l) = nat ?p"
    using normalize_sig_correct [OF n res _ _ sticky pos] g by auto
  note bin = normalized_binade [OF rs bits g(1)]
  have tiny: "v < 2 powi (emin_of f) \<longleftrightarrow> e < ?el"
    using bin(3,4) by (smt (verit) powi2_mono_iff)
  consider "\<not> e < ?el" | "e < ?el" "?el - e \<ge> 128" | "e < ?el" "?el - e < 128" by linarith
  then show ?thesis
  proof cases
    case 1
    then have "rounds_to f sign v st (round_finish f sign h l e rb s st)"
      using bin(2) tiny by (intro round_finish_correct [OF f rs v bin(1)]) auto
    with 1 n pos show ?thesis by (auto simp: round_pack_def Let_def)
  next
    case 2
    then have "v < 2 powi (emin_of f - ?p)"
      using bin(4) g(2) by (smt (verit) powi2_mono_iff)
    from underflow_to_zero [OF f v this] 2 n pos show ?thesis
      by (auto simp: round_pack_def Let_def)
  next
    case 3
    let ?shift = "?el - e"
    obtain h' l' rb' s' where d: "drop_rounding h l ?shift (rb \<or> s) = (h', l', rb', s')"
      by (metis prod_cases4)
    have sh: "0 < ?shift" "?shift \<le> 128" using 3 by auto
    have rs': "round_state v (u128v h' l') ?el rb' s'"
      using drop_rounding_residue [OF d sh round_state_residue [OF rs]] by (simp add: algebra_simps)
    have lt': "u128v h' l' < 2 ^ nat ?p"
      using drop_rounding_value(1) [OF d sh] bin(1) div_le_dividend order_le_less_trans by metis
    have "rounds_to f sign v st (round_finish f sign h' l' ?el rb' s' (st\<lparr>underflow := True\<rparr>))"
      using tiny 3 by (intro round_finish_correct [OF f rs' v lt']) auto
    moreover have "(if rb then True else s) = (rb \<or> s)" by simp
    ultimately show ?thesis
      using 3 n pos d by (auto simp: round_pack_def Let_def simp del: if_bool_eq_disj)
  qed
qed

end
