(* ===== verification/Sf_Add.thy ===== *)
theory Sf_Add
  imports Sf_Round
begin

text \<open>
  Integer conversion to floating point, negation, addition, subtraction and
  format conversion of src/src/util/softfp.c. The lemmas show that a finite sum
  is the correctly rounded exact sum, and give the results on zeros, infinities
  and NaNs.
\<close>

section \<open>Definitions\<close>

definition sf_from_int :: "u64 \<Rightarrow> bool \<Rightarrow> sf_format \<Rightarrow> sf_status \<Rightarrow> sf \<times> sf_status" where
  "sf_from_int v neg f st =
     (if v = 0 then (sf_cleared\<lparr>sf_cls := SF_ZERO, sf_sign := neg\<rparr>, st)
      else round_pack neg 0 v 0 False f st)"

definition sf_from_int128 :: "u64 \<Rightarrow> u64 \<Rightarrow> bool \<Rightarrow> sf_format \<Rightarrow> sf_status \<Rightarrow> sf \<times> sf_status" where
  "sf_from_int128 hi lo neg f st =
     (if hi = 0 \<and> lo = 0 then (sf_cleared\<lparr>sf_cls := SF_ZERO, sf_sign := neg\<rparr>, st)
      else round_pack neg hi lo 0 False f st)"

definition sf_neg :: "sf \<Rightarrow> sf" where
  "sf_neg a = a\<lparr>sf_sign := \<not> sf_sign a\<rparr>"

definition sf_is_zero :: "sf \<Rightarrow> bool" where
  "sf_is_zero a \<longleftrightarrow> sf_cls a = SF_ZERO"

definition make_nan :: "sf_status \<Rightarrow> sf \<times> sf_status" where
  "make_nan st = (sf_cleared\<lparr>sf_cls := SF_NAN\<rparr>, st\<lparr>invalid := True\<rparr>)"

text \<open>The headroom block: shift the operand with the larger exponent up before alignment.\<close>

definition add_headroom :: "sf \<Rightarrow> int \<Rightarrow> u64 \<times> u64 \<times> int \<times> int" where
  "add_headroom a diff =
     (let head = 126 - u128_bitlen (sf_hi a) (sf_lo a) in
      if head > 0 then
        (let up = (if head < diff then head else diff);
             (hi, lo) = u128_shl (sf_hi a) (sf_lo a) up
         in (hi, lo, sf_exp a - up, diff - up))
      else (sf_hi a, sf_lo a, sf_exp a, diff))"

text \<open>The subtraction with its correction for bits that were shifted out.\<close>

definition sub_sticky :: "u64 \<Rightarrow> u64 \<Rightarrow> u64 \<Rightarrow> u64 \<Rightarrow> bool \<Rightarrow> u64 \<times> u64" where
  "sub_sticky hi lo bhi blo sticky =
     (let (hi1, lo1) = u128_sub hi lo bhi blo in
      if sticky then (let (h, l) = u128_sub hi1 lo1 0 1 in u128_add h l 0 0) else (hi1, lo1))"

text \<open>Lines 430--485: both operands nonzero and finite, \<open>a\<close> with the larger exponent.\<close>

definition add_aligned :: "sf \<Rightarrow> sf \<Rightarrow> sf_format \<Rightarrow> sf_status \<Rightarrow> sf \<times> sf_status" where
  "add_aligned a b f st =
     (let diff = sf_exp a - sf_exp b;
          (hi, lo, ex, diff') = add_headroom a diff;
          (bhi, blo, sticky) = u128_shr_sticky (sf_hi b) (sf_lo b) diff'
      in if sf_sign a = sf_sign b then
           (let (hi', lo') = u128_add hi lo bhi blo
            in round_pack (sf_sign a) hi' lo' ex sticky f st)
         else if u128_cmp hi lo bhi blo \<ge> 0 then
           (let (hi2, lo2) = sub_sticky hi lo bhi blo sticky
            in round_pack (sf_sign a) hi2 lo2 ex sticky f st)
         else
           (let (rhi, rlo) = u128_sub bhi blo hi lo
            in round_pack (sf_sign b) rhi rlo ex sticky f st))"

definition sf_add :: "sf \<Rightarrow> sf \<Rightarrow> sf_format \<Rightarrow> sf_status \<Rightarrow> sf \<times> sf_status" where
  "sf_add a b f st =
     (if sf_cls a = SF_NAN \<or> sf_cls b = SF_NAN then (sf_cleared\<lparr>sf_cls := SF_NAN\<rparr>, st)
      else if sf_cls a = SF_INF \<or> sf_cls b = SF_INF then
        (if sf_cls a = SF_INF \<and> sf_cls b = SF_INF \<and> sf_sign a \<noteq> sf_sign b then make_nan st
         else (if sf_cls a = SF_INF then a else b, st))
      else if sf_cls a = SF_ZERO \<and> sf_cls b = SF_ZERO then
        (sf_cleared\<lparr>sf_cls := SF_ZERO, sf_sign := sf_sign a \<and> sf_sign b\<rparr>, st)
      else if sf_cls a = SF_ZERO then
        round_pack (sf_sign b) (sf_hi b) (sf_lo b) (sf_exp b) False f st
      else if sf_cls b = SF_ZERO then
        round_pack (sf_sign a) (sf_hi a) (sf_lo a) (sf_exp a) False f st
      else if sf_exp a < sf_exp b then add_aligned b a f st
      else add_aligned a b f st)"

definition sf_sub :: "sf \<Rightarrow> sf \<Rightarrow> sf_format \<Rightarrow> sf_status \<Rightarrow> sf \<times> sf_status" where
  "sf_sub a b f st = sf_add a (sf_neg b) f st"

definition sf_convert :: "sf \<Rightarrow> sf_format \<Rightarrow> sf_format \<Rightarrow> sf_status \<Rightarrow> sf \<times> sf_status" where
  "sf_convert a from to st =
     (if sf_cls a \<noteq> SF_NORMAL then (a, st)
      else round_pack (sf_sign a) (sf_hi a) (sf_lo a) (sf_exp a) False to st)"

section \<open>Operands\<close>

abbreviation sf_sig :: "sf \<Rightarrow> nat" where
  "sf_sig a \<equiv> u128v (sf_hi a) (sf_lo a)"

text \<open>What the arithmetic needs of an operand: a nonzero significand of at most 113 bits.\<close>

definition sf_operand :: "sf \<Rightarrow> bool" where
  "sf_operand a \<longleftrightarrow> (sf_cls a = SF_NORMAL \<longrightarrow> 0 < sf_sig a \<and> sf_sig a < 2 ^ 113)"

definition sf_finite :: "sf \<Rightarrow> bool" where
  "sf_finite a \<longleftrightarrow> sf_cls a = SF_ZERO \<or> sf_cls a = SF_NORMAL"

lemma canonical_operand: "f \<in> sf_formats \<Longrightarrow> sf_canonical f a \<Longrightarrow> sf_operand a"
proof -
  assume f: "f \<in> sf_formats" and c: "sf_canonical f a"
  have "(2::nat) ^ nat (prec_of f) \<le> 2 ^ 113"
    using format_geometry [OF f] by (intro power_increasing) auto
  with c show ?thesis by (auto simp: sf_canonical_def sf_operand_def Let_def)
qed

lemma sf_mag_pos: "sf_operand a \<Longrightarrow> sf_cls a = SF_NORMAL \<Longrightarrow> 0 < sf_mag a"
  by (simp add: sf_operand_def sf_mag_def)

lemma round_pack_exact:
  assumes "f \<in> sf_formats" "0 < u128v hi lo"
  shows "rounds_to f sign (real (u128v hi lo) * 2 powi ex) st (round_pack sign hi lo ex False f st)"
  using assms by (intro round_pack_rounds) (auto simp: residue_exact)

lemma round_pack_zero: "round_pack sign 0 0 ex False f st = (sf_cleared, st)"
  by (simp add: round_pack_def sf_cleared_def)

section \<open>Aligned addition\<close>

text \<open>The exact sum as a residue: dropping \<open>d\<close> bits of the smaller operand.\<close>

lemma residue_sum:
  assumes "d = int k"
  shows "residue (real n * 2 powi e + real m * 2 powi (e - d)) (n + m div 2 ^ k) e (m mod 2 ^ k \<noteq> 0)"
proof -
  define q r where "q = m div 2 ^ k" and "r = m mod 2 ^ k"
  have m: "m = q * 2 ^ k + r"
    unfolding q_def r_def by (rule div_mult_mod_eq [symmetric])
  have r: "r < 2 ^ k" by (simp add: r_def)
  then have "real r < 2 ^ k" by (metis of_nat_less_iff of_nat_numeral of_nat_power)
  then have "real m / 2 ^ k = real q + real r / 2 ^ k" "0 \<le> real r / 2 ^ k" "real r / 2 ^ k < 1"
    by (simp_all add: m field_simps)
  then show ?thesis
    unfolding residue_def q_def [symmetric] r_def [symmetric]
    by (intro exI [of _ "real r / 2 ^ k"]) (auto simp: assms powi2_diff_nat field_simps)
qed

lemma residue_difference:
  assumes "d = int k" "m mod 2 ^ k \<noteq> 0" "m div 2 ^ k < n"
  shows "residue (real n * 2 powi e - real m * 2 powi (e - d)) (n - m div 2 ^ k - 1) e True"
proof -
  define q r where "q = m div 2 ^ k" and "r = m mod 2 ^ k"
  have m: "m = q * 2 ^ k + r"
    unfolding q_def r_def by (rule div_mult_mod_eq [symmetric])
  have r: "r < 2 ^ k" "0 < r" using assms(2) by (simp_all add: r_def)
  then have "real r < 2 ^ k" by (metis of_nat_less_iff of_nat_numeral of_nat_power)
  then have x: "real m / 2 ^ k = real q + real r / 2 ^ k" "0 < real r / 2 ^ k" "real r / 2 ^ k < 1"
    using r by (simp_all add: m field_simps)
  have "real (n - q - 1) = real n - real q - 1"
    using assms(3) by (simp add: q_def [symmetric])
  then show ?thesis
    using x unfolding residue_def q_def [symmetric]
    by (intro exI [of _ "1 - real r / 2 ^ k"]) (auto simp: assms(1) powi2_diff_nat field_simps)
qed

lemma add_headroom_value:
  assumes "add_headroom a diff = (hi, lo, ex, diff')" "sf_operand a" "sf_cls a = SF_NORMAL" "0 \<le> diff"
  shows "real (u128v hi lo) * 2 powi ex = sf_mag a" "0 < u128v hi lo" "u128v hi lo < 2 ^ 126"
    "0 \<le> diff'" "ex - diff' = sf_exp a - diff" "0 < diff' \<Longrightarrow> 2 ^ 125 \<le> u128v hi lo"
proof -
  let ?n = "sf_sig a"
  have n: "0 < ?n" "nbits ?n \<le> 113"
    using assms(2,3) by (simp_all add: sf_operand_def nbits_le_iff)
  define up where "up = (if 126 - int (nbits ?n) < diff then 126 - int (nbits ?n) else diff)"
  have up: "0 \<le> up" "int (nbits ?n) + up \<le> 126" "up \<le> diff" "up < diff \<Longrightarrow> int (nbits ?n) + up = 126"
    using n assms(4) by (auto simp: up_def)
  have eq: "(hi, lo) = u128_shl (sf_hi a) (sf_lo a) up" "ex = sf_exp a - up" "diff' = diff - up"
    using assms(1) n by (auto simp: add_headroom_def up_def u128_bitlen_eq Let_def split: prod.splits)
  have bits: "nbits (?n * 2 ^ nat up) = nbits ?n + nat up" using n by (intro nbits_mult_2p)
  then have lt: "?n * 2 ^ nat up < 2 ^ 126"
    using up unfolding nbits_le_iff [symmetric] by simp
  then have val: "u128v hi lo = ?n * 2 ^ nat up"
    using u128_shl_value [of "sf_hi a" "sf_lo a" up] eq(1) by (simp add: prod_eq_iff)
  show "real (u128v hi lo) * 2 powi ex = sf_mag a"
    using up(1) powi2_diff_nat [of "sf_exp a" "nat up"] by (simp add: val eq(2) sf_mag_def)
  show "0 < u128v hi lo" "u128v hi lo < 2 ^ 126" using val n lt by simp_all
  show "0 \<le> diff'" "ex - diff' = sf_exp a - diff" using eq up by simp_all
  show "2 ^ 125 \<le> u128v hi lo" if "0 < diff'"
  proof -
    have "nbits (u128v hi lo) = 126" using that eq(3) up bits by (simp add: val)
    then show ?thesis using lt_nbits_iff [of 125 "u128v hi lo"] by simp
  qed
qed

text \<open>The three ways add_aligned ends, on the values of the limbs.\<close>

lemma rounds_sum:
  assumes f: "f \<in> sf_formats" and n: "0 < n" "n < 2 ^ 126" and m: "m < 2 ^ 113"
    and big: "0 < k \<Longrightarrow> 2 ^ 125 \<le> n"
    and hl: "u128v hi lo = n" "u128v bhi blo = m div 2 ^ k" and s: "s \<longleftrightarrow> m mod 2 ^ k \<noteq> 0"
  shows "rounds_to f sign (real n * 2 powi e + real m * 2 powi (e - int k)) st
    (round_pack sign (fst (u128_add hi lo bhi blo)) (snd (u128_add hi lo bhi blo)) e s f st)"
proof -
  let ?N = "n + m div 2 ^ k"
  have "m div 2 ^ k < 2 ^ 113" using m div_le_dividend order_le_less_trans by blast
  then have val: "u128p (u128_add hi lo bhi blo) = ?N"
    using n by (simp add: u128_add_value hl)
  have "prec_of f < int (nbits ?N)" if "s"
  proof -
    have "0 < k" using that s by (cases k) auto
    then have "125 < nbits ?N" using big by (simp only: lt_nbits_iff) simp
    then show ?thesis using format_geometry(2) [OF f] by simp
  qed
  moreover have "residue (real n * 2 powi e + real m * 2 powi (e - int k)) ?N e s"
    using residue_sum [of "int k" k n e m] s by simp
  ultimately show ?thesis
    using n(1) by (intro round_pack_rounds [OF f]) (simp_all only: val add_gr_0 simp_thms)
qed

lemma rounds_difference:
  assumes f: "f \<in> sf_formats" and n: "0 < n" "n < 2 ^ 126" and m: "m < 2 ^ 113"
    and big: "0 < k \<Longrightarrow> 2 ^ 125 \<le> n" and le: "m div 2 ^ k \<le> n"
    and x: "x = real n * 2 powi e - real m * 2 powi (e - int k)"
    and val: "u128v hi lo = (if m mod 2 ^ k \<noteq> 0 then n - m div 2 ^ k - 1 else n - m div 2 ^ k)"
    and s: "s \<longleftrightarrow> m mod 2 ^ k \<noteq> 0"
  shows "0 \<le> x" and "x = 0 \<Longrightarrow> round_pack sign hi lo e s f st = (sf_cleared, st)"
    and "x \<noteq> 0 \<Longrightarrow> rounds_to f sign x st (round_pack sign hi lo e s f st)"
proof -
  have "0 \<le> x \<and> (x = 0 \<longrightarrow> round_pack sign hi lo e s f st = (sf_cleared, st))
    \<and> (x \<noteq> 0 \<longrightarrow> rounds_to f sign x st (round_pack sign hi lo e s f st))"
  proof (cases "s")
    case True
    then have "0 < k" using s by (cases k) auto
    have "m div 2 ^ k < 2 ^ 113" using m div_le_dividend order_le_less_trans by blast
    with big [OF \<open>0 < k\<close>] have ge: "2 ^ 124 \<le> n - m div 2 ^ k - 1" by simp
    then have lt: "m div 2 ^ k < n" by simp
    have res: "residue x (u128v hi lo) e s"
      using residue_difference [of "int k" k m n e] True s lt by (simp add: x val)
    have "124 < nbits (u128v hi lo)" using ge True s by (simp add: lt_nbits_iff val)
    then have "prec_of f < int (nbits (u128v hi lo))" "0 < u128v hi lo"
      using format_geometry(2) [OF f] by (auto simp del: u128v_pos intro: gr0I)
    with round_pack_rounds [OF f res] residue_pos [OF res] show ?thesis by auto
  next
    case False
    define q where "q = m div 2 ^ k"
    have "m = q * 2 ^ k" using False s by (simp add: q_def mod_0_imp_dvd)
    then have "real m * 2 powi (e - int k) = real q * 2 powi e"
      by (simp add: powi2_diff_nat)
    then have x': "x = real (u128v hi lo) * 2 powi e"
      using False s le by (simp add: x val q_def left_diff_distrib)
    show ?thesis
    proof (cases "u128v hi lo = 0")
      case True
      then show ?thesis using False round_pack_zero by (simp add: x')
    next
      case False2: False
      then have "0 < u128v hi lo" by simp
      from round_pack_exact [OF f this] False show ?thesis
        using False2 by (auto simp: x')
    qed
  qed
  then show "0 \<le> x" "x = 0 \<Longrightarrow> round_pack sign hi lo e s f st = (sf_cleared, st)"
    "x \<noteq> 0 \<Longrightarrow> rounds_to f sign x st (round_pack sign hi lo e s f st)" by auto
qed

lemma sub_sticky_value:
  assumes "u128v bhi blo \<le> u128v hi lo" "s \<Longrightarrow> u128v bhi blo < u128v hi lo"
  shows "u128p (sub_sticky hi lo bhi blo s)
    = (if s then u128v hi lo - u128v bhi blo - 1 else u128v hi lo - u128v bhi blo)"
proof -
  obtain h l where 1: "u128_sub hi lo bhi blo = (h, l)" by fastforce
  have v1: "u128v h l = u128v hi lo - u128v bhi blo"
    using u128_sub_value [OF assms(1)] by (simp add: 1)
  show ?thesis
  proof (cases s)
    case True
    then have "u128v 0 1 \<le> u128v h l" using assms(2) by (simp add: v1 u128v_low)
    moreover have "u128v h l - 1 < 2 ^ 128" using u128v_lt [of h l] by linarith
    ultimately show ?thesis
      using True u128_sub_value [of 0 1 h l]
      by (simp add: sub_sticky_def 1 split_beta u128_add_value u128v_low v1)
  qed (simp add: sub_sticky_def 1 v1)
qed

text \<open>
  Addition of two nonzero finite numbers: exact cancellation gives \<open>+0\<close>, every
  other sum is the rounding of the exact sum.
\<close>

definition adds_exactly :: "sf_format \<Rightarrow> real \<Rightarrow> sf_status \<Rightarrow> sf \<times> sf_status \<Rightarrow> bool" where
  "adds_exactly f x st res \<longleftrightarrow>
     (if x = 0 then res = (sf_cleared, st) else rounds_to f (x < 0) \<bar>x\<bar> st res)"

lemma add_aligned_correct:
  assumes f: "f \<in> sf_formats" and a: "sf_operand a" "sf_cls a = SF_NORMAL"
    and b: "sf_operand b" "sf_cls b = SF_NORMAL" and le: "sf_exp b \<le> sf_exp a"
  shows "adds_exactly f (sf_val a + sf_val b) st (add_aligned a b f st)"
proof -
  obtain hi lo e d where h: "add_headroom a (sf_exp a - sf_exp b) = (hi, lo, e, d)"
    by (metis prod_cases4)
  obtain bhi blo s where sh: "u128_shr_sticky (sf_hi b) (sf_lo b) d = (bhi, blo, s)"
    by (metis prod_cases3)
  note hv = add_headroom_value [OF h a]
  define n m k where "n = u128v hi lo" and "m = sf_sig b" and "k = nat d"
  have d: "d = int k" "e - int k = sf_exp b" using hv(4,5) le by (auto simp: k_def)
  have n: "0 < n" "n < 2 ^ 126" "0 < k \<Longrightarrow> 2 ^ 125 \<le> n" "real n * 2 powi e = sf_mag a"
    using hv le by (auto simp: n_def k_def)
  have m: "m < 2 ^ 113" "0 < m" "real m * 2 powi (e - int k) = sf_mag b"
    using b d(2) by (auto simp: m_def sf_operand_def sf_mag_def)
  have bq: "u128v bhi blo = m div 2 ^ k" "s \<longleftrightarrow> m mod 2 ^ k \<noteq> 0"
    using u128_shr_sticky_value [OF sh] by (simp_all add: m_def k_def)
  have pos: "0 < sf_mag a" "0 < sf_mag b" using a b by (simp_all add: sf_mag_pos)
  consider "sf_sign a = sf_sign b"
    | "sf_sign a \<noteq> sf_sign b" "m div 2 ^ k \<le> n" | "sf_sign a \<noteq> sf_sign b" "n < m div 2 ^ k"
    by linarith
  then show ?thesis
  proof cases
    case 1
    have "add_aligned a b f st = round_pack (sf_sign a) (fst (u128_add hi lo bhi blo))
        (snd (u128_add hi lo bhi blo)) e s f st"
      using 1 h sh by (simp add: add_aligned_def split_beta)
    moreover have "rounds_to f (sf_sign a) (sf_mag a + sf_mag b) st \<dots>"
      unfolding n(4) [symmetric] m(3) [symmetric]
      by (rule rounds_sum [OF f n(1,2) m(1) n(3) n_def [symmetric] bq])
    ultimately show ?thesis
      using 1 a b pos by (auto simp: adds_exactly_def sf_val_def add.commute)
  next
    case 2
    have small: "m div 2 ^ k < 2 ^ 125"
      using m(1) by (intro order_le_less_trans [OF div_le_dividend]) simp
    have lt: "s \<Longrightarrow> u128v bhi blo < u128v hi lo"
      using small n(3) bq by (cases "k = 0") (auto simp: n_def)
    have val: "u128p (sub_sticky hi lo bhi blo s)
        = (if m mod 2 ^ k \<noteq> 0 then n - m div 2 ^ k - 1 else n - m div 2 ^ k)"
      using sub_sticky_value [of bhi blo hi lo s, OF _ lt] 2 bq by (simp add: n_def)
    have eq: "add_aligned a b f st = round_pack (sf_sign a) (fst (sub_sticky hi lo bhi blo s))
        (snd (sub_sticky hi lo bhi blo s)) e s f st"
      using 2 h sh bq(1) by (simp add: add_aligned_def split_beta Let_def u128_cmp_value n_def sgn_if)
    have x: "sf_mag a - sf_mag b = real n * 2 powi e - real m * 2 powi (e - int k)"
      by (simp only: n(4) m(3))
    note diff = rounds_difference [OF f n(1,2) m(1) n(3) 2(2) x val bq(2)]
    have "sf_val a + sf_val b = (if sf_sign a then - (sf_mag a - sf_mag b) else sf_mag a - sf_mag b)"
      using 2 a b by (simp add: sf_val_def)
    then show ?thesis
      using diff(1) diff(2,3) [of "sf_sign a" st] eq
      by (cases "sf_mag a - sf_mag b = 0") (auto simp: adds_exactly_def)
  next
    case 3
    have "k = 0"
      using 3 n(3) m(1) div_le_dividend [of m "2 ^ k"] by (cases "k = 0") auto
    then have nm: "n < m" "\<not> s" "u128v bhi blo = m" "sf_mag b = real m * 2 powi e"
      using 3 bq m by auto
    then have val: "u128p (u128_sub bhi blo hi lo) = m - n"
      using u128_sub_value [of hi lo bhi blo] by (simp add: n_def)
    have eq: "add_aligned a b f st = round_pack (sf_sign b) (fst (u128_sub bhi blo hi lo))
        (snd (u128_sub bhi blo hi lo)) e False f st"
      using 3 h sh nm by (simp add: add_aligned_def split_beta Let_def u128_cmp_value n_def sgn_if)
    have x: "sf_mag b - sf_mag a = real (m - n) * 2 powi e"
      using nm n(4) by (simp add: left_diff_distrib)
    have "rounds_to f (sf_sign b) (sf_mag b - sf_mag a) st (add_aligned a b f st)"
      unfolding eq x val [symmetric] using nm val by (intro round_pack_exact [OF f]) (simp only: zero_less_diff)
    moreover have "0 < sf_mag b - sf_mag a" using nm x by simp
    moreover have "sf_val a + sf_val b = (if sf_sign b then - (sf_mag b - sf_mag a) else sf_mag b - sf_mag a)"
      using 3 a b by (simp add: sf_val_def)
    ultimately show ?thesis by (auto simp: adds_exactly_def)
  qed
qed

section \<open>The operations\<close>

lemma round_pack_operand:
  assumes "f \<in> sf_formats" "sf_operand a" "sf_cls a = SF_NORMAL"
  shows "rounds_to f (sf_sign a) (sf_mag a) st
    (round_pack (sf_sign a) (sf_hi a) (sf_lo a) (sf_exp a) False f st)"
  using assms unfolding sf_mag_def sf_operand_def by (intro round_pack_exact) auto

lemma sf_val_normal:
  assumes "sf_operand a" "sf_cls a = SF_NORMAL"
  shows "sf_val a \<noteq> 0" "sf_val a < 0 \<longleftrightarrow> sf_sign a" "\<bar>sf_val a\<bar> = sf_mag a"
  using sf_mag_pos [OF assms] assms(2) by (auto simp: sf_val_def)

text \<open>The zero a finite sum returns: \<open>-0\<close> only for \<open>-0 + -0\<close>.\<close>

definition sum_zero :: "sf \<Rightarrow> sf \<Rightarrow> sf" where
  "sum_zero a b = sf_cleared\<lparr>sf_sign := sf_cls a = SF_ZERO \<and> sf_cls b = SF_ZERO \<and> sf_sign a \<and> sf_sign b\<rparr>"

lemma sf_add_finite:
  assumes f: "f \<in> sf_formats" and a: "sf_operand a" "sf_finite a" and b: "sf_operand b" "sf_finite b"
  defines "x \<equiv> sf_val a + sf_val b"
  shows "x = 0 \<Longrightarrow> sf_add a b f st = (sum_zero a b, st)"
    and "x \<noteq> 0 \<Longrightarrow> rounds_to f (x < 0) \<bar>x\<bar> st (sf_add a b f st)"
proof -
  consider (zz) "sf_cls a = SF_ZERO" "sf_cls b = SF_ZERO" | (zn) "sf_cls a = SF_ZERO" "sf_cls b = SF_NORMAL"
    | (nz) "sf_cls a = SF_NORMAL" "sf_cls b = SF_ZERO" | (nn) "sf_cls a = SF_NORMAL" "sf_cls b = SF_NORMAL"
    using a b by (auto simp: sf_finite_def)
  then have "(x = 0 \<longrightarrow> sf_add a b f st = (sum_zero a b, st))
      \<and> (x \<noteq> 0 \<longrightarrow> rounds_to f (x < 0) \<bar>x\<bar> st (sf_add a b f st))"
  proof cases
    case zz
    then show ?thesis
      by (simp add: x_def sf_add_def sum_zero_def sf_val_def sf_cleared_def)
  next
    case zn
    then show ?thesis
      using sf_val_normal [OF b(1)] round_pack_operand [OF f b(1), of st]
      by (auto simp: x_def sf_add_def sf_val_def [of a])
  next
    case nz
    then show ?thesis
      using sf_val_normal [OF a(1)] round_pack_operand [OF f a(1), of st]
      by (auto simp: x_def sf_add_def sf_val_def [of b])
  next
    case nn
    have "adds_exactly f x st (sf_add a b f st)"
    proof (cases "sf_exp a < sf_exp b")
      case True
      with nn add_aligned_correct [OF f b(1) _ a(1), of st] show ?thesis
        by (simp add: sf_add_def x_def add.commute)
    next
      case False
      with nn add_aligned_correct [OF f a(1) _ b(1), of st] show ?thesis
        by (simp add: sf_add_def x_def)
    qed
    with nn show ?thesis by (auto simp: adds_exactly_def sum_zero_def sf_cleared_def)
  qed
  then show "x = 0 \<Longrightarrow> sf_add a b f st = (sum_zero a b, st)"
    and "x \<noteq> 0 \<Longrightarrow> rounds_to f (x < 0) \<bar>x\<bar> st (sf_add a b f st)" by auto
qed

lemma sf_neg_simps [simp]:
  "sf_cls (sf_neg a) = sf_cls a" "sf_sign (sf_neg a) = (\<not> sf_sign a)" "sf_val (sf_neg a) = - sf_val a"
  "sf_operand (sf_neg a) = sf_operand a" "sf_finite (sf_neg a) = sf_finite a" "sf_neg (sf_neg a) = a"
  "sf_canonical f (sf_neg a) = sf_canonical f a"
  by (simp_all add: sf_neg_def sf_val_def sf_mag_def sf_operand_def sf_finite_def sf_canonical_def)

lemma sf_convert_rounds:
  assumes "to \<in> sf_formats" "sf_operand a" "sf_cls a = SF_NORMAL"
  shows "rounds_to to (sf_sign a) (sf_mag a) st (sf_convert a from to st)"
  using round_pack_operand [OF assms] assms by (simp add: sf_convert_def)

lemma sf_from_int_rounds:
  assumes "f \<in> sf_formats" "v \<noteq> 0"
  shows "rounds_to f neg (real (unat v)) st (sf_from_int v neg f st)"
  using round_pack_exact [of f 0 v neg 0 st] assms by (simp add: sf_from_int_def u128v_low unat_gt_0)

lemma sf_from_int128_rounds:
  assumes "f \<in> sf_formats" "u128v hi lo \<noteq> 0"
  shows "rounds_to f neg (real (u128v hi lo)) st (sf_from_int128 hi lo neg f st)"
  using round_pack_exact [of f hi lo neg 0 st] assms by (auto simp: sf_from_int128_def)

end
