(* ===== verification/Sf_Conv.thy ===== *)
theory Sf_Conv
  imports Sf_Add
begin

text \<open>
  Comparison and conversion to integers of src/src/util/softfp.c: sf_cmp,
  sf_to_int and sf_to_int128. Comparison is shown to be the order of the
  extended reals, the conversions to truncate toward zero, to accept exactly the
  values in range and to flag the rest.
\<close>

section \<open>Definitions\<close>

text \<open>The magnitude comparison at the end of sf_cmp.\<close>

definition cmp_mag :: "sf \<Rightarrow> sf \<Rightarrow> int" where
  "cmp_mag a b =
     (let abits = u128_bitlen (sf_hi a) (sf_lo a) + sf_exp a;
          bbits = u128_bitlen (sf_hi b) (sf_lo b) + sf_exp b
      in if abits \<noteq> bbits then (if abits < bbits then - 1 else 1)
         else
           (let shift = sf_exp a - sf_exp b;
                (ahi, alo) = (if shift > 0 then u128_shl (sf_hi a) (sf_lo a) shift else (sf_hi a, sf_lo a));
                (bhi, blo) = (if shift < 0 then u128_shl (sf_hi b) (sf_lo b) (- shift) else (sf_hi b, sf_lo b))
            in u128_cmp ahi alo bhi blo))"

text \<open>The result and the \<open>*unordered\<close> output.\<close>

definition sf_cmp :: "sf \<Rightarrow> sf \<Rightarrow> int \<times> bool" where
  "sf_cmp a b =
     (if sf_cls a = SF_NAN \<or> sf_cls b = SF_NAN then (0, True)
      else if sf_cls a = SF_ZERO \<and> sf_cls b = SF_ZERO then (0, False)
      else if sf_sign a \<noteq> sf_sign b then (if sf_sign a then - 1 else 1, False)
      else if sf_cls a = SF_INF \<and> sf_cls b = SF_INF then (0, False)
      else if sf_cls a = SF_INF then (if sf_sign a then - 1 else 1, False)
      else if sf_cls b = SF_INF then (if sf_sign b then 1 else - 1, False)
      else if sf_cls a = SF_ZERO then (if sf_sign b then 1 else - 1, False)
      else if sf_cls b = SF_ZERO then (if sf_sign a then - 1 else 1, False)
      else (let c = cmp_mag a b in if sf_sign a then - c else c, False))"

text \<open>
  The range check and encoding at the end of sf_to_int, on the truncated
  magnitude \<open>lo\<close>.
\<close>

definition to_int_encode :: "bool \<Rightarrow> u64 \<Rightarrow> int \<Rightarrow> bool \<Rightarrow> sf_status \<Rightarrow> u64 \<times> sf_status" where
  "to_int_encode sign lo width is_unsigned st =
     (let bad = (if is_unsigned then
                   (let limit = (if width = 64 then - 1 else push_bit (nat width) 1 - 1)
                    in (sign \<and> lo \<noteq> 0) \<or> lo > limit)
                 else
                   (let limit = push_bit (nat (width - 1)) 1
                    in (\<not> sign \<and> lo \<ge> limit) \<or> (sign \<and> lo > limit)))
      in if bad then (0, st\<lparr>invalid := True\<rparr>)
         else if \<not> sign then (lo, st)
         else (let neg = 0 - lo
               in (if width = 64 then neg else neg AND (push_bit (nat width) 1 - 1), st)))"

definition sf_to_int :: "sf \<Rightarrow> int \<Rightarrow> bool \<Rightarrow> sf_status \<Rightarrow> u64 \<times> sf_status" where
  "sf_to_int a width is_unsigned st =
     (if width < 1 \<or> width > 64 then (0, st\<lparr>invalid := True\<rparr>)
      else if sf_cls a = SF_ZERO then (0, st)
      else if sf_cls a \<noteq> SF_NORMAL then (0, st\<lparr>invalid := True\<rparr>)
      else
        (let shift = sf_exp a in
         if shift > 0 \<and> u128_bitlen (sf_hi a) (sf_lo a) + shift > 64 then (0, st\<lparr>invalid := True\<rparr>)
         else
           (let (hi, lo, st1) =
                  (if shift > 0 then
                     (let (h, l) = u128_shl (sf_hi a) (sf_lo a) shift in (h, l, st))
                   else if shift < 0 then
                     (let (h, l, lost) = u128_shr_sticky (sf_hi a) (sf_lo a) (- shift)
                      in (h, l, if lost then st\<lparr>inexact := True\<rparr> else st))
                   else (sf_hi a, sf_lo a, st))
            in if hi \<noteq> 0 then (0, st1\<lparr>invalid := True\<rparr>)
               else to_int_encode (sf_sign a) lo width is_unsigned st1)))"

text \<open>sf_to_int128 with both output pointers present, as both callers pass them.\<close>

definition sf_to_int128 :: "sf \<Rightarrow> bool \<Rightarrow> sf_status \<Rightarrow> (u64 \<times> u64) \<times> sf_status" where
  "sf_to_int128 a is_unsigned st =
     (if sf_cls a = SF_ZERO then ((0, 0), st)
      else if sf_cls a \<noteq> SF_NORMAL then ((0, 0), st\<lparr>invalid := True\<rparr>)
      else
        (let shift = sf_exp a in
         if shift > 0 \<and> u128_bitlen (sf_hi a) (sf_lo a) + shift > 128 then ((0, 0), st\<lparr>invalid := True\<rparr>)
         else
           (let (hi, lo, st1) =
                  (if shift > 0 then
                     (let (h, l) = u128_shl (sf_hi a) (sf_lo a) shift in (h, l, st))
                   else if shift < 0 then
                     (let (h, l, lost) = u128_shr_sticky (sf_hi a) (sf_lo a) (- shift)
                      in (h, l, if lost then st\<lparr>inexact := True\<rparr> else st))
                   else (sf_hi a, sf_lo a, st));
                bad = (if is_unsigned then sf_sign a \<and> (hi \<noteq> 0 \<or> lo \<noteq> 0)
                       else (\<not> sf_sign a \<and> drop_bit 63 hi \<noteq> 0)
                            \<or> (sf_sign a \<and> (hi > 0x8000000000000000
                                 \<or> (hi = 0x8000000000000000 \<and> lo \<noteq> 0))))
            in if bad then ((0, 0), st1\<lparr>invalid := True\<rparr>)
               else if sf_sign a \<and> (hi \<noteq> 0 \<or> lo \<noteq> 0) then
                 (let lo' = NOT lo + 1
                  in ((NOT hi + (if lo' = 0 then 1 else 0), lo'), st1))
               else ((hi, lo), st1))))"

section \<open>Comparison\<close>

text \<open>The extended real order: an infinity rank, then the value.\<close>

definition sf_rank :: "sf \<Rightarrow> int" where
  "sf_rank a = (if sf_cls a = SF_INF then (if sf_sign a then - 1 else 1) else 0)"

definition sf_less :: "sf \<Rightarrow> sf \<Rightarrow> bool" where
  "sf_less a b \<longleftrightarrow> sf_rank a < sf_rank b \<or> (sf_rank a = sf_rank b \<and> sf_val a < sf_val b)"

lemma sf_mag_binade:
  assumes "sf_operand a" "sf_cls a = SF_NORMAL"
  shows "2 powi (int (nbits (sf_sig a)) + sf_exp a - 1) \<le> sf_mag a"
    and "sf_mag a < 2 powi (int (nbits (sf_sig a)) + sf_exp a)"
proof -
  let ?n = "sf_sig a" and ?b = "nbits (sf_sig a)"
  have n: "0 < ?n" using assms by (simp add: sf_operand_def)
  then have b: "0 < ?b" by (simp add: nbits_pos)
  have "real (2 ^ (?b - 1)) \<le> real ?n" "real ?n < real (2 ^ ?b)"
    using nbits_ge [OF n] lt_2_nbits [of ?n] by (simp_all only: of_nat_le_iff of_nat_less_iff)
  then have "2 ^ (?b - 1) * 2 powi sf_exp a \<le> sf_mag a" "sf_mag a < 2 ^ ?b * 2 powi sf_exp a"
    by (simp_all add: sf_mag_def)
  moreover have "int ?b + sf_exp a - 1 = sf_exp a + int (?b - 1)" "int ?b + sf_exp a = sf_exp a + int ?b"
    using b by simp_all
  ultimately show "2 powi (int ?b + sf_exp a - 1) \<le> sf_mag a" "sf_mag a < 2 powi (int ?b + sf_exp a)"
    unfolding powi2_nat mult.commute [of "2 powi sf_exp a"] by (simp_all only: powi2_nat mult.commute)
qed

lemma cmp_shl_exact:
  assumes "0 \<le> k" "nbits (u128v hi lo) + nat k \<le> 128"
  shows "u128p (if k > 0 then u128_shl hi lo k else (hi, lo)) = u128v hi lo * 2 ^ nat k"
proof (cases "u128v hi lo = 0")
  case False
  then have "nbits (u128v hi lo * 2 ^ nat k) \<le> 128" using assms by (simp add: nbits_mult_2p)
  then show ?thesis using assms(1) by (auto simp: u128_shl_value nbits_le_iff)
qed (use assms in \<open>auto simp: u128_shl_def\<close>)

lemma cmp_mag_value:
  assumes a: "sf_operand a" "sf_cls a = SF_NORMAL" and b: "sf_operand b" "sf_cls b = SF_NORMAL"
  shows "cmp_mag a b = (if sf_mag a < sf_mag b then - 1 else if sf_mag b < sf_mag a then 1 else 0)"
proof -
  let ?na = "sf_sig a" and ?nb = "sf_sig b"
  note ba = sf_mag_binade [OF a] and bb = sf_mag_binade [OF b]
  have le: "nbits ?na \<le> 113" "nbits ?nb \<le> 113"
    using a b by (simp_all add: sf_operand_def nbits_le_iff)
  consider "int (nbits ?na) + sf_exp a < int (nbits ?nb) + sf_exp b"
    | "int (nbits ?na) + sf_exp a > int (nbits ?nb) + sf_exp b"
    | "int (nbits ?na) + sf_exp a = int (nbits ?nb) + sf_exp b" by linarith
  then show ?thesis
  proof cases
    case 1
    then have "(2 :: real) powi (int (nbits ?na) + sf_exp a) \<le> 2 powi (int (nbits ?nb) + sf_exp b - 1)" by simp
    with ba(2) bb(1) have "sf_mag a < sf_mag b" by linarith
    with 1 show ?thesis by (simp add: cmp_mag_def u128_bitlen_eq)
  next
    case 2
    then have "(2 :: real) powi (int (nbits ?nb) + sf_exp b) \<le> 2 powi (int (nbits ?na) + sf_exp a - 1)" by simp
    with ba(1) bb(2) have "sf_mag b < sf_mag a" by linarith
    with 2 show ?thesis by (simp add: cmp_mag_def u128_bitlen_eq)
  next
    case 3
    define sh where "sh = sf_exp a - sf_exp b"
    define A B where "A = (if sh > 0 then u128_shl (sf_hi a) (sf_lo a) sh else (sf_hi a, sf_lo a))"
      and "B = (if sh < 0 then u128_shl (sf_hi b) (sf_lo b) (- sh) else (sf_hi b, sf_lo b))"
    have c: "cmp_mag a b = sgn (int (u128p A) - int (u128p B))"
      using 3 by (simp add: cmp_mag_def u128_bitlen_eq A_def B_def sh_def Let_def split_beta u128_cmp_value)
    have "real (u128p A) * 2 powi (min (sf_exp a) (sf_exp b)) = sf_mag a"
      "real (u128p B) * 2 powi (min (sf_exp a) (sf_exp b)) = sf_mag b"
    proof -
      have "u128p A = ?na * 2 ^ nat sh"
        using cmp_shl_exact [of sh "sf_hi a" "sf_lo a"] 3 le
        by (cases "0 \<le> sh") (auto simp: A_def sh_def)
      then show "real (u128p A) * 2 powi (min (sf_exp a) (sf_exp b)) = sf_mag a"
        using powi2_nat [of "sf_exp b" "nat sh"]
        by (cases "0 \<le> sh") (auto simp: sh_def sf_mag_def min_def)
      have "u128p B = ?nb * 2 ^ nat (- sh)"
        using cmp_shl_exact [of "- sh" "sf_hi b" "sf_lo b"] 3 le
        by (cases "sh \<le> 0") (auto simp: B_def sh_def)
      then show "real (u128p B) * 2 powi (min (sf_exp a) (sf_exp b)) = sf_mag b"
        using powi2_nat [of "sf_exp a" "nat (- sh)"]
        by (cases "sh \<le> 0") (auto simp: sh_def sf_mag_def min_def)
    qed
    then have "sf_mag a < sf_mag b \<longleftrightarrow> u128p A < u128p B" "sf_mag b < sf_mag a \<longleftrightarrow> u128p B < u128p A"
      by (metis mult_less_cancel_right_pos of_nat_less_iff powi2_pos)+
    then show ?thesis by (simp add: c sgn_if)
  qed
qed

lemma sf_cmp_correct:
  assumes "sf_operand a" "sf_operand b" "sf_cls a \<noteq> SF_NAN" "sf_cls b \<noteq> SF_NAN"
  shows "sf_cmp a b = (if sf_less a b then - 1 else if sf_less b a then 1 else 0, False)"
proof -
  have pos: "sf_cls x = SF_NORMAL \<Longrightarrow> 0 < sf_mag x" if "sf_operand x" for x
    using that by (rule sf_mag_pos)
  note vals = sf_less_def sf_rank_def sf_val_def sf_cmp_def
  show ?thesis
  proof (cases "sf_cls a = SF_NORMAL \<and> sf_cls b = SF_NORMAL \<and> sf_sign a = sf_sign b")
    case True
    then show ?thesis
      using assms cmp_mag_value [of a b] by (auto simp: vals)
  next
    case False
    then show ?thesis
      using assms(3,4) pos [OF assms(1)] pos [OF assms(2)]
      by (cases "sf_cls a"; cases "sf_cls b"; cases "sf_sign a"; cases "sf_sign b")
        (auto simp: vals)
  qed
qed

section \<open>Conversion to integers\<close>

text \<open>The truncated magnitude and the signed integer it stands for.\<close>

definition sf_trunc :: "sf \<Rightarrow> nat" where
  "sf_trunc a = nat \<lfloor>sf_mag a\<rfloor>"

definition sf_int :: "sf \<Rightarrow> int" where
  "sf_int a = (if sf_sign a then - int (sf_trunc a) else int (sf_trunc a))"

lemma sf_trunc_left:
  assumes "0 \<le> sf_exp a"
  shows "sf_trunc a = sf_sig a * 2 ^ nat (sf_exp a)" "sf_mag a \<in> \<int>"
proof -
  have "sf_mag a = real (sf_sig a * 2 ^ nat (sf_exp a))"
    using assms by (simp add: sf_mag_def power_int_nonneg_exp)
  then show "sf_trunc a = sf_sig a * 2 ^ nat (sf_exp a)" "sf_mag a \<in> \<int>"
    unfolding sf_trunc_def by (simp_all del: of_nat_mult of_nat_power)
qed

lemma sf_trunc_right:
  assumes "sf_exp a < 0"
  shows "sf_trunc a = sf_sig a div 2 ^ nat (- sf_exp a)"
    and "sf_mag a \<in> \<int> \<longleftrightarrow> sf_sig a mod 2 ^ nat (- sf_exp a) = 0"
proof -
  define n k where "n = sf_sig a" and "k = nat (- sf_exp a)"
  define q r where "q = n div 2 ^ k" and "r = n mod 2 ^ k"
  have n: "n = q * 2 ^ k + r" unfolding q_def r_def by (rule div_mult_mod_eq [symmetric])
  have "r < 2 ^ k" by (simp add: r_def)
  then have r: "real r < 2 ^ k" by (metis of_nat_less_iff of_nat_numeral of_nat_power)
  have "sf_mag a = real n / 2 ^ k"
    using assms powi2_diff_nat [of 0 k] by (simp add: sf_mag_def n_def k_def)
  also have "\<dots> = real q + real r / 2 ^ k" by (simp add: n add_divide_distrib)
  finally have mag: "sf_mag a = real q + real r / 2 ^ k" .
  have fl: "\<lfloor>sf_mag a\<rfloor> = int q" unfolding mag using r by (simp add: floor_eq_iff)
  then show "sf_trunc a = sf_sig a div 2 ^ nat (- sf_exp a)"
    by (simp add: sf_trunc_def q_def n_def k_def)
  have "sf_mag a \<in> \<int> \<longleftrightarrow> r = 0"
    using fl mag r by (metis Ints_cases Ints_of_nat add_cancel_right_right divide_eq_0_iff
        floor_of_int of_int_of_nat_eq of_nat_eq_0_iff power_not_zero zero_neq_numeral)
  then show "sf_mag a \<in> \<int> \<longleftrightarrow> sf_sig a mod 2 ^ nat (- sf_exp a) = 0"
    by (simp add: r_def n_def k_def)
qed

definition int_in_range :: "int \<Rightarrow> bool \<Rightarrow> int \<Rightarrow> bool" where
  "int_in_range width is_unsigned z \<longleftrightarrow>
     (if is_unsigned then 0 \<le> z \<and> z < 2 ^ nat width
      else - (2 ^ nat (width - 1)) \<le> z \<and> z < 2 ^ nat (width - 1))"

lemma unat_bit: "n < 64 \<Longrightarrow> unat (push_bit n 1 :: u64) = 2 ^ n"
proof -
  assume "n < 64"
  then have "(2 :: nat) ^ n < 2 ^ 64" by (intro power_strict_increasing) auto
  then show ?thesis by (subst unat_shl) simp
qed

lemma unat_low_ones: "n < 64 \<Longrightarrow> unat (push_bit n 1 - 1 :: u64) = 2 ^ n - 1"
proof -
  assume n: "n < 64"
  then have "1 \<le> (push_bit n 1 :: u64)" by (simp only: word_le_nat_alt unat_bit) simp
  then show ?thesis using n by (simp only: unat_sub unat_bit) simp
qed

lemma and_low_ones: "unat (w AND (push_bit n 1 - 1) :: u64) = unat w mod 2 ^ n"
proof -
  have "push_bit n 1 - 1 = (mask n :: u64)" by (simp add: mask_eq_exp_minus_1 push_bit_eq_mult)
  then show ?thesis by (simp only: unat_low_mask)
qed

lemma uint_neg_mod:
  assumes "n \<le> 64"
  shows "int (unat (- w :: u64) mod 2 ^ n) = (- int (unat w)) mod 2 ^ n"
proof -
  have "uint (- w) = (- uint w) mod 2 ^ 64" by (simp add: uint_word_ariths)
  then have "int (unat (- w)) mod 2 ^ n = ((- int (unat w)) mod 2 ^ 64) mod 2 ^ n"
    by (simp del: power_numeral)
  also have "\<dots> = (- int (unat w)) mod 2 ^ n"
    using assms by (intro mod_mod_cancel le_imp_power_dvd)
  finally show ?thesis by (simp add: zmod_int)
qed

lemma signed_range:
  assumes "0 < P" "0 < H"
  shows "(if u then 0 \<le> (if sign then - int m else int m) \<and> (if sign then - int m else int m) < int P
      else - int H \<le> (if sign then - int m else int m) \<and> (if sign then - int m else int m) < int H)
    \<longleftrightarrow> \<not> (if u then (sign \<and> m \<noteq> 0) \<or> P \<le> m else (\<not> sign \<and> H \<le> m) \<or> (sign \<and> H < m))"
  using assms by (cases u; cases sign) auto

lemma to_int_encode_value:
  fixes sign :: bool and lo :: u64
  assumes w: "1 \<le> width" "width \<le> 64"
  defines "z \<equiv> (if sign then - int (unat lo) else int (unat lo))"
  shows "int_in_range width u z \<Longrightarrow>
      uint (fst (to_int_encode sign lo width u st)) = z mod 2 ^ nat width
      \<and> snd (to_int_encode sign lo width u st) = st"
    and "\<not> int_in_range width u z \<Longrightarrow> to_int_encode sign lo width u st = (0, st\<lparr>invalid := True\<rparr>)"
proof -
  define n where "n = nat width"
  have n: "0 < n" "n \<le> 64" "width = 64 \<longleftrightarrow> n = 64" "nat (width - 1) = n - 1"
    using w by (auto simp: n_def)
  have lo: "unat lo < 2 ^ 64" by (rule unat_u64_lt)
  define bad where "bad = (if u then (sign \<and> lo \<noteq> 0) \<or> lo > (if width = 64 then - 1 else push_bit n 1 - 1)
    else (\<not> sign \<and> lo \<ge> push_bit (n - 1) 1) \<or> (sign \<and> lo > push_bit (n - 1) 1))"
  have lim: "lo > (if width = 64 then - 1 else push_bit n 1 - 1) \<longleftrightarrow> 2 ^ n \<le> unat lo"
  proof (cases "n = 64")
    case True
    then show ?thesis using lo n(3) by (simp add: not_le [symmetric])
  next
    case False
    moreover have "2 ^ n - 1 < unat lo \<longleftrightarrow> 2 ^ n \<le> unat lo"
      by (metis Suc_le_eq Suc_pred' pos2 zero_less_power)
    ultimately show ?thesis
      using n unat_low_ones [of n] by (simp add: word_less_nat_alt del: push_bit_of_1)
  qed
  have "n - 1 < 64" using n by simp
  from unat_bit [OF this] have half: "lo \<ge> push_bit (n - 1) 1 \<longleftrightarrow> 2 ^ (n - 1) \<le> unat lo"
    "lo > push_bit (n - 1) 1 \<longleftrightarrow> 2 ^ (n - 1) < unat lo"
    by (simp_all add: word_le_nat_alt word_less_nat_alt)
  have rng: "int_in_range width u z \<longleftrightarrow> \<not> bad"
    unfolding bad_def lim half int_in_range_def n(4) n_def [symmetric] z_def unat_eq_0 [symmetric]
    by (rule signed_range [of "2 ^ n" "2 ^ (n - 1)", unfolded of_nat_power of_nat_numeral]) simp_all
  have enc: "to_int_encode sign lo width u st = (if bad then (0, st\<lparr>invalid := True\<rparr>)
      else if \<not> sign then (lo, st)
      else (if width = 64 then - lo else - lo AND (push_bit n 1 - 1), st))"
    by (simp add: to_int_encode_def Let_def bad_def n_def n(4) [unfolded n_def])
  show "to_int_encode sign lo width u st = (0, st\<lparr>invalid := True\<rparr>)" if "\<not> int_in_range width u z"
    using that rng enc by simp
  show "uint (fst (to_int_encode sign lo width u st)) = z mod 2 ^ nat width
      \<and> snd (to_int_encode sign lo width u st) = st" if r: "int_in_range width u z"
  proof (cases sign)
    case False
    have "(2 :: int) ^ (n - 1) \<le> 2 ^ n" by (intro power_increasing) auto
    moreover have "z < 2 ^ n \<or> z < 2 ^ (n - 1)"
      using r unfolding int_in_range_def n(4) n_def [symmetric] by (auto split: if_splits)
    ultimately have "z < 2 ^ n" by linarith
    then have "0 \<le> z" "z < 2 ^ n" using False by (simp_all add: z_def)
    with False r rng enc show ?thesis by (simp add: z_def n_def)
  next
    case True
    have "uint (if width = 64 then - lo else - lo AND (push_bit n 1 - 1)) = int (unat (- lo) mod 2 ^ n)"
      using n(3) unat_u64_lt [of "- lo"] by (simp add: uint_nat and_low_ones del: of_nat_unat push_bit_of_1)
    with True r rng enc uint_neg_mod [OF n(2), of lo] show ?thesis by (simp add: z_def n_def)
  qed
qed

lemma int_in_range_abs:
  assumes "1 \<le> width" "int_in_range width u z"
  shows "\<bar>z\<bar> < 2 ^ nat width"
proof -
  have "(2 :: int) ^ nat (width - 1) < 2 ^ nat width" using assms(1) by (intro power_strict_increasing) auto
  moreover have "z < 2 ^ nat width \<or> z < 2 ^ nat (width - 1)" "0 \<le> z \<or> - (2 ^ nat (width - 1)) \<le> z"
    using assms(2) by (auto simp: int_in_range_def split: if_splits)
  ultimately show ?thesis by linarith
qed

text \<open>
  The common front half of both conversions: shift the significand to the units position,
  remembering lost bits.
\<close>

lemma to_int_shift_value:
  assumes sh: "(hi, lo, st1) =
      (if sf_exp a > 0 then (let (h, l) = u128_shl (sf_hi a) (sf_lo a) (sf_exp a) in (h, l, st))
       else if sf_exp a < 0 then
         (let (h, l, lost) = u128_shr_sticky (sf_hi a) (sf_lo a) (- sf_exp a)
          in (h, l, if lost then st\<lparr>inexact := True\<rparr> else st))
       else (sf_hi a, sf_lo a, st))"
    and fits: "\<not> (sf_exp a > 0 \<and> u128_bitlen (sf_hi a) (sf_lo a) + sf_exp a > 128)"
  shows "u128v hi lo = sf_trunc a" and "st1 = st\<lparr>inexact := inexact st \<or> sf_mag a \<notin> \<int>\<rparr>"
proof -
  have "u128v hi lo = sf_trunc a \<and> st1 = st\<lparr>inexact := inexact st \<or> sf_mag a \<notin> \<int>\<rparr>"
  proof (cases "sf_exp a < 0")
    case True
    obtain h l lost where hl: "u128_shr_sticky (sf_hi a) (sf_lo a) (- sf_exp a) = (h, l, lost)"
      using prod_cases3 by blast
    note v = u128_shr_sticky_value [OF hl]
    show ?thesis
      using True sh v sf_trunc_right [OF True] by (auto simp: hl)
  next
    case False
    then have e: "0 \<le> sf_exp a" by simp
    have "nbits (u128v (sf_hi a) (sf_lo a)) + nat (sf_exp a) \<le> 128 \<or> sf_exp a = 0"
      using fits e by (auto simp: u128_bitlen_eq)
    then have "u128p (if sf_exp a > 0 then u128_shl (sf_hi a) (sf_lo a) (sf_exp a) else (sf_hi a, sf_lo a))
        = u128v (sf_hi a) (sf_lo a) * 2 ^ nat (sf_exp a)"
      using cmp_shl_exact [OF e] by auto
    then show ?thesis
      using False sh sf_trunc_left [OF e] by (auto simp: split_beta split: if_splits)
  qed
  then show "u128v hi lo = sf_trunc a" "st1 = st\<lparr>inexact := inexact st \<or> sf_mag a \<notin> \<int>\<rparr>" by auto
qed

lemma sf_trunc_ge:
  assumes "sf_exp a > 0" "u128_bitlen (sf_hi a) (sf_lo a) + sf_exp a > int w" "sf_operand a" "sf_cls a = SF_NORMAL"
  shows "2 ^ w \<le> sf_trunc a"
proof -
  have s: "0 < sf_sig a" using assms(3,4) by (simp add: sf_operand_def)
  have "w < nbits (sf_sig a * 2 ^ nat (sf_exp a))"
    using assms(1,2) s by (simp add: nbits_mult_2p u128_bitlen_eq)
  then have "\<not> sf_sig a * 2 ^ nat (sf_exp a) < 2 ^ w" by (simp add: nbits_le_iff [symmetric])
  then show ?thesis using sf_trunc_left(1) [of a] assms(1) by simp
qed

lemma sf_to_int_correct:
  assumes a: "sf_operand a" "sf_cls a = SF_NORMAL" and w: "1 \<le> width" "width \<le> 64"
  shows "int_in_range width u (sf_int a) \<Longrightarrow>
      uint (fst (sf_to_int a width u st)) = sf_int a mod 2 ^ nat width
      \<and> snd (sf_to_int a width u st) = st\<lparr>inexact := inexact st \<or> sf_mag a \<notin> \<int>\<rparr>"
    and "\<not> int_in_range width u (sf_int a) \<Longrightarrow>
      fst (sf_to_int a width u st) = 0 \<and> invalid (snd (sf_to_int a width u st))"
proof -
  have big: "\<not> int_in_range width u (sf_int a)" if "2 ^ 64 \<le> sf_trunc a"
  proof
    assume "int_in_range width u (sf_int a)"
    from int_in_range_abs [OF w(1) this] have "int (sf_trunc a) < 2 ^ nat width"
      by (simp add: sf_int_def split: if_splits)
    also have "(2 :: int) ^ nat width \<le> 2 ^ 64" using w by (intro power_increasing) auto
    finally show False using that by simp
  qed
  obtain hi lo st1 where sh: "(hi, lo, st1) =
      (if sf_exp a > 0 then (let (h, l) = u128_shl (sf_hi a) (sf_lo a) (sf_exp a) in (h, l, st))
       else if sf_exp a < 0 then
         (let (h, l, lost) = u128_shr_sticky (sf_hi a) (sf_lo a) (- sf_exp a)
          in (h, l, if lost then st\<lparr>inexact := True\<rparr> else st))
       else (sf_hi a, sf_lo a, st))"
    by (metis prod_cases3)
  define ovf where "ovf \<longleftrightarrow> sf_exp a > 0 \<and> u128_bitlen (sf_hi a) (sf_lo a) + sf_exp a > 64"
  have def: "sf_to_int a width u st = (if ovf then (0, st\<lparr>invalid := True\<rparr>)
      else if hi \<noteq> 0 then (0, st1\<lparr>invalid := True\<rparr>)
      else to_int_encode (sf_sign a) lo width u st1)"
    using a(2) w unfolding sf_to_int_def Let_def ovf_def sh [unfolded Let_def, symmetric]
    by (simp del: uint_0_iff)
  have vals: "u128v hi lo = sf_trunc a" "st1 = st\<lparr>inexact := inexact st \<or> sf_mag a \<notin> \<int>\<rparr>" if "\<not> ovf"
    using to_int_shift_value [OF sh] that by (auto simp: ovf_def)
  have ovf: "2 ^ 64 \<le> sf_trunc a" if ovf
    using that sf_trunc_ge [of a 64] a by (simp add: ovf_def)
  have hi: "2 ^ 64 \<le> sf_trunc a" if "\<not> ovf" "hi \<noteq> 0"
  proof -
    have "1 \<le> unat hi" using that(2) by (simp add: Suc_le_eq unat_gt_0)
    then show ?thesis using vals(1) [OF that(1)] by (simp add: u128v_def)
  qed
  have lo: "sf_int a = (if sf_sign a then - int (unat lo) else int (unat lo))" if "\<not> ovf" "hi = 0"
    using vals(1) [OF that(1)] that(2) by (simp add: sf_int_def u128v_def)
  note enc = to_int_encode_value [OF w, of u "sf_sign a" lo st1]
  show "fst (sf_to_int a width u st) = 0 \<and> invalid (snd (sf_to_int a width u st))"
    if "\<not> int_in_range width u (sf_int a)"
    using that enc(2) lo by (auto simp: def)
  show "uint (fst (sf_to_int a width u st)) = sf_int a mod 2 ^ nat width
      \<and> snd (sf_to_int a width u st) = st\<lparr>inexact := inexact st \<or> sf_mag a \<notin> \<int>\<rparr>"
    if r: "int_in_range width u (sf_int a)"
  proof -
    have no: "\<not> ovf" "hi = 0" using r big ovf hi by auto
    then show ?thesis using enc(1) r lo vals(2) by (simp add: def)
  qed
qed

lemma sf_to_int128_correct:
  assumes a: "sf_operand a" "sf_cls a = SF_NORMAL"
  shows "int_in_range 128 u (sf_int a) \<Longrightarrow>
      int (u128p (fst (sf_to_int128 a u st))) = sf_int a mod 2 ^ 128
      \<and> snd (sf_to_int128 a u st) = st\<lparr>inexact := inexact st \<or> sf_mag a \<notin> \<int>\<rparr>"
    and "\<not> int_in_range 128 u (sf_int a) \<Longrightarrow>
      fst (sf_to_int128 a u st) = (0, 0) \<and> invalid (snd (sf_to_int128 a u st))"
proof -
  obtain hi lo st1 where sh: "(hi, lo, st1) =
      (if sf_exp a > 0 then (let (h, l) = u128_shl (sf_hi a) (sf_lo a) (sf_exp a) in (h, l, st))
       else if sf_exp a < 0 then
         (let (h, l, lost) = u128_shr_sticky (sf_hi a) (sf_lo a) (- sf_exp a)
          in (h, l, if lost then st\<lparr>inexact := True\<rparr> else st))
       else (sf_hi a, sf_lo a, st))"
    by (metis prod_cases3)
  define ovf where "ovf \<longleftrightarrow> sf_exp a > 0 \<and> u128_bitlen (sf_hi a) (sf_lo a) + sf_exp a > 128"
  define t where "t = sf_trunc a"
  define bad where "bad = (if u then (sf_sign a \<and> t \<noteq> 0) \<or> 2 ^ 128 \<le> t
    else (\<not> sf_sign a \<and> 2 ^ 127 \<le> t) \<or> (sf_sign a \<and> 2 ^ 127 < t))"
  have rng: "int_in_range 128 u (sf_int a) \<longleftrightarrow> \<not> bad"
    unfolding int_in_range_def bad_def sf_int_def t_def [symmetric]
    using signed_range [of "2 ^ 128" "2 ^ 127" u "sf_sign a" t] by (auto split: if_splits)
  have vals: "u128v hi lo = t" "st1 = st\<lparr>inexact := inexact st \<or> sf_mag a \<notin> \<int>\<rparr>" if "\<not> ovf"
    using to_int_shift_value [OF sh] that by (auto simp: ovf_def t_def)
  have ov: "bad" if ovf
  proof -
    have "2 ^ 128 \<le> t" using that sf_trunc_ge [of a 128] a by (simp add: ovf_def t_def)
    then show ?thesis by (auto simp: bad_def)
  qed
  have hl: "drop_bit 63 hi \<noteq> 0 \<longleftrightarrow> 2 ^ 127 \<le> u128v hi lo"
    "hi > 0x8000000000000000 \<or> (hi = 0x8000000000000000 \<and> lo \<noteq> 0) \<longleftrightarrow> 2 ^ 127 < u128v hi lo"
    by (rule u128v_top_bit u128v_above_top)+
  have def: "sf_to_int128 a u st = (if ovf then ((0, 0), st\<lparr>invalid := True\<rparr>)
      else if (if u then sf_sign a \<and> (hi \<noteq> 0 \<or> lo \<noteq> 0)
               else (\<not> sf_sign a \<and> 2 ^ 127 \<le> u128v hi lo) \<or> (sf_sign a \<and> 2 ^ 127 < u128v hi lo))
      then ((0, 0), st1\<lparr>invalid := True\<rparr>)
      else if sf_sign a \<and> (hi \<noteq> 0 \<or> lo \<noteq> 0) then
        ((NOT hi + (if NOT lo + 1 = 0 then 1 else 0), NOT lo + 1), st1)
      else ((hi, lo), st1))"
    using a(2) unfolding sf_to_int128_def Let_def ovf_def sh [unfolded Let_def, symmetric] prod.case hl by simp
  have nz: "hi \<noteq> 0 \<or> lo \<noteq> 0 \<longleftrightarrow> t \<noteq> 0" "t < 2 ^ 128" if "\<not> ovf"
    using vals(1) [OF that] u128v_lt [of hi lo] by auto
  show "fst (sf_to_int128 a u st) = (0, 0) \<and> invalid (snd (sf_to_int128 a u st))"
    if "\<not> int_in_range 128 u (sf_int a)"
  proof (cases ovf)
    case False
    then show ?thesis
      using that nz [OF False] vals(1) [OF False] rng by (auto simp: def bad_def)
  qed (simp add: def)
  show "int (u128p (fst (sf_to_int128 a u st))) = sf_int a mod 2 ^ 128
      \<and> snd (sf_to_int128 a u st) = st\<lparr>inexact := inexact st \<or> sf_mag a \<notin> \<int>\<rparr>"
    if r: "int_in_range 128 u (sf_int a)"
  proof -
    have no: "\<not> ovf" "\<not> bad" using r ov rng by auto
    have "int (u128v (NOT hi + (if NOT lo + 1 = 0 then 1 else 0)) (NOT lo + 1)) = (- int t) mod 2 ^ 128"
    proof -
      have "int ((2 ^ 128 - t) mod 2 ^ 128) = (- int t) mod 2 ^ 128"
        using nz(2) [OF no(1)] by (simp add: zmod_int of_nat_diff)
      then show ?thesis
        by (simp only: u128_neg_value [OF refl refl, of hi lo] vals(1) [OF no(1)])
    qed
    then show ?thesis
      using no nz [OF no(1)] vals [OF no(1)]
      by (auto simp: def bad_def sf_int_def t_def [symmetric])
  qed
qed

end
