(* ===== verification/Sf_Bits.thy ===== *)
theory Sf_Bits
  imports Sf_Conv
begin

text \<open>
  The bit images of src/src/util/softfp.c: sf_to_bits and sf_from_bits. An image is the
  16-byte buffer of the C code, little-endian. The lemmas describe both functions bit by bit and
  show that decoding inverts encoding on canonical numbers, that every image decodes to a
  canonical number and that encoding inverts decoding on images that are not NaNs.
\<close>

type_synonym image = "u8 list"

section \<open>Encoding\<close>

text \<open>The fraction limbs and the biased exponent the switch over the class selects.\<close>

definition bits_subnormal :: "sf \<Rightarrow> int \<Rightarrow> u64 \<times> u64" where
  "bits_subnormal a target =
     (if sf_exp a > target then u128_shl (sf_hi a) (sf_lo a) (sf_exp a - target)
      else if sf_exp a < target then
        (let (h, l, _) = u128_shr_sticky (sf_hi a) (sf_lo a) (target - sf_exp a) in (h, l))
      else (sf_hi a, sf_lo a))"

definition bits_normal :: "sf \<Rightarrow> sf_format \<Rightarrow> int \<Rightarrow> u64 \<times> u64" where
  "bits_normal a f msb =
     (let want = prec_of f - 1;
          (hi, lo) =
            (if msb - 1 < want then u128_shl (sf_hi a) (sf_lo a) (want - (msb - 1))
             else if msb - 1 > want then
               (let (h, l, _) = u128_shr_sticky (sf_hi a) (sf_lo a) ((msb - 1) - want) in (h, l))
             else (sf_hi a, sf_lo a))
      in if \<not> explicit_intbit f then
           (if prec_of f - 1 \<ge> 64 then (hi AND (push_bit (nat (prec_of f - 1 - 64)) 1 - 1), lo)
            else (hi, lo AND (push_bit (nat (prec_of f - 1)) 1 - 1)))
         else (hi, lo))"

definition bits_fields :: "sf \<Rightarrow> sf_format \<Rightarrow> u64 \<times> u64 \<times> int" where
  "bits_fields a f =
     (case sf_cls a of
        SF_ZERO \<Rightarrow> (0, 0, 0)
      | SF_INF \<Rightarrow>
          (0, if explicit_intbit f then push_bit (nat (frac_bits f - 1)) 1 else 0,
           push_bit (nat (exp_bits f)) 1 - 1)
      | SF_NAN \<Rightarrow>
          (let biased = push_bit (nat (exp_bits f)) 1 - 1 in
           if explicit_intbit f then
             (0, push_bit (nat (frac_bits f - 1)) 1 OR push_bit (nat (frac_bits f - 2)) 1, biased)
           else if frac_bits f > 64 then (push_bit (nat (frac_bits f - 64 - 1)) 1, 0, biased)
           else (0, push_bit (nat (frac_bits f - 1)) 1, biased))
      | SF_NORMAL \<Rightarrow>
          (let msb = u128_bitlen (sf_hi a) (sf_lo a);
               unbiased = sf_exp a + (if msb > 0 then msb - 1 else 0)
           in if unbiased < emin_of f then
                (let (hi, lo) = bits_subnormal a (emin_of f - (prec_of f - 1)) in (hi, lo, 0))
              else (let (hi, lo) = bits_normal a f msb in (hi, lo, unbiased + emax_of f))))"

text \<open>The two byte loops, then \<open>out[bit / 8] |= 1u << (bit % 8)\<close> for exponent and sign.\<close>

definition put_fraction :: "u64 \<Rightarrow> u64 \<Rightarrow> int \<Rightarrow> image" where
  "put_fraction frac_hi frac_lo bytes =
     map (\<lambda>i. if int i < bytes
               then ucast (if i < 8 then drop_bit (i * 8) frac_lo else drop_bit ((i - 8) * 8) frac_hi)
               else 0)
       [0..<16]"

definition put_bit :: "image \<Rightarrow> nat \<Rightarrow> image" where
  "put_bit out b = out[b div 8 := (out ! (b div 8)) OR push_bit (b mod 8) 1]"

definition sf_to_bits :: "sf \<Rightarrow> sf_format \<Rightarrow> image" where
  "sf_to_bits a f =
     (let (frac_hi, frac_lo, biased) = bits_fields a f;
          total_bits = exp_bits f + frac_bits f + 1;
          out = put_fraction frac_hi frac_lo (total_bytes f);
          out = fold (\<lambda>i out. if drop_bit i biased AND 1 \<noteq> 0
                               then put_bit out (nat (frac_bits f) + i) else out)
                  [0..<nat (exp_bits f)] out
      in if sf_sign a then put_bit out (nat (total_bits - 1)) else out)"

section \<open>Decoding\<close>

definition get_limb :: "image \<Rightarrow> nat list \<Rightarrow> nat \<Rightarrow> int \<Rightarrow> u64" where
  "get_limb img is base bytes =
     fold (\<lambda>i w. if int i < bytes then w OR push_bit ((i - base) * 8) (ucast (img ! i)) else w) is 0"

definition mask_fraction :: "sf_format \<Rightarrow> u64 \<Rightarrow> u64 \<Rightarrow> u64 \<times> u64" where
  "mask_fraction f frac_hi frac_lo =
     (if frac_bits f < 64 then (0, frac_lo AND (push_bit (nat (frac_bits f)) 1 - 1))
      else if frac_bits f < 128 then
        (if frac_bits f - 64 < 64
         then (frac_hi AND (if frac_bits f = 64 then 0 else push_bit (nat (frac_bits f - 64)) 1 - 1),
               frac_lo)
         else (frac_hi, frac_lo))
      else (frac_hi, frac_lo))"

definition get_exponent :: "image \<Rightarrow> sf_format \<Rightarrow> int" where
  "get_exponent img f =
     fold (\<lambda>i biased.
             (let b = nat (frac_bits f) + i in
              if (img ! (b div 8)) AND push_bit (b mod 8) 1 \<noteq> 0 then biased OR push_bit i 1 else biased))
       [0..<nat (exp_bits f)] 0"

definition sf_from_bits :: "image \<Rightarrow> sf_format \<Rightarrow> sf" where
  "sf_from_bits img f =
     (let prec = prec_of f;
          total_bits = exp_bits f + frac_bits f + 1;
          (frac_hi, frac_lo) =
            mask_fraction f (get_limb img [8..<16] 8 (total_bytes f)) (get_limb img [0..<8] 0 (total_bytes f));
          biased = get_exponent img f;
          tb = nat (total_bits - 1);
          r = sf_cleared\<lparr>sf_sign := drop_bit (tb mod 8) (img ! (tb div 8)) AND 1 \<noteq> 0\<rparr>
      in if biased = push_bit (nat (exp_bits f)) 1 - 1 then
           (if explicit_intbit f then
              (let intbit = push_bit (nat (frac_bits f - 1)) 1
               in r\<lparr>sf_cls := if frac_hi = 0 \<and> frac_lo = intbit then SF_INF else SF_NAN\<rparr>)
            else r\<lparr>sf_cls := if frac_hi OR frac_lo \<noteq> 0 then SF_NAN else SF_INF\<rparr>)
         else if biased = 0 \<and> frac_hi OR frac_lo = 0 then r\<lparr>sf_cls := SF_ZERO\<rparr>
         else if explicit_intbit f \<and> biased \<noteq> 0 \<and> frac_lo AND push_bit (nat (frac_bits f - 1)) 1 = 0
         then r\<lparr>sf_cls := SF_NAN\<rparr>
         else if biased = 0 then
           r\<lparr>sf_cls := SF_NORMAL, sf_hi := frac_hi, sf_lo := frac_lo, sf_exp := emin_of f - (prec - 1)\<rparr>
         else
           (let (hi, lo) =
                  (if \<not> explicit_intbit f then
                     (if prec - 1 \<ge> 64 then (frac_hi OR push_bit (nat (prec - 1 - 64)) 1, frac_lo)
                      else (frac_hi, frac_lo OR push_bit (nat (prec - 1)) 1))
                   else (frac_hi, frac_lo))
            in r\<lparr>sf_cls := SF_NORMAL, sf_hi := hi, sf_lo := lo,
                   sf_exp := biased - emax_of f - (prec - 1)\<rparr>))"

section \<open>Images bit by bit\<close>

definition image_bit :: "image \<Rightarrow> nat \<Rightarrow> bool" where
  "image_bit img k \<longleftrightarrow> bit (img ! (k div 8)) (k mod 8)"

lemma put_fraction_length [simp]: "length (put_fraction h l n) = 16"
  by (simp add: put_fraction_def)

lemma put_bit_length [simp]: "length (put_bit out b) = length out"
  by (simp add: put_bit_def)

lemma image_bit_put_fraction:
  assumes "k < 128"
  shows "image_bit (put_fraction h l n) k \<longleftrightarrow>
    int (k div 8) < n \<and> (if k < 64 then bit l k else bit h (k - 64))"
proof -
  have d: "k div 8 < 16" using assms by simp
  have "(k div 8) * 8 + k mod 8 = k" by simp
  moreover have "(k div 8 - 8) * 8 + k mod 8 = k - 64" if "\<not> k div 8 < 8"
    using that div_mult_mod_eq [of k 8] by (simp add: diff_mult_distrib)
  moreover have "k div 8 < 8 \<longleftrightarrow> k < 64" by linarith
  ultimately show ?thesis
    using d by (auto simp: image_bit_def put_fraction_def bit_simps)
qed

lemma image_bit_put_bit:
  assumes "k < 128" "b < 128" "length out = 16"
  shows "image_bit (put_bit out b) k \<longleftrightarrow> k = b \<or> image_bit out k"
proof -
  have "k = b \<longleftrightarrow> k div 8 = b div 8 \<and> k mod 8 = b mod 8"
    by (metis div_mult_mod_eq)
  moreover have "b div 8 < 16" "k div 8 < 16" "k mod 8 < 8" using assms by simp_all
  ultimately show ?thesis
    using assms(3) by (auto simp: image_bit_def put_bit_def bit_simps nth_list_update)
qed

lemma image_bit_put_exponent:
  assumes "k < 128" "fb + m \<le> 128" "length out = 16"
  shows "image_bit (fold (\<lambda>i out. if drop_bit i (e :: int) AND 1 \<noteq> 0 then put_bit out (fb + i) else out)
            [0..<m] out) k
      \<longleftrightarrow> image_bit out k \<or> (fb \<le> k \<and> k < fb + m \<and> bit e (k - fb))"
    and "length (fold (\<lambda>i out. if drop_bit i (e :: int) AND 1 \<noteq> 0 then put_bit out (fb + i) else out)
            [0..<m] out) = 16"
  using assms(2)
proof (induction m)
  case (Suc m)
  {
    case 1
    with Suc show ?case
      using assms(1) by (auto simp: image_bit_put_bit bit_and_1 bit_simps less_Suc_eq)
  next
    case 2
    with Suc show ?case by simp
  }
qed (use assms(3) in auto)

lemma bit_get_limb:
  assumes "k < 64"
  shows "bit (get_limb img [base..<base + 8] base n) k \<longleftrightarrow>
    int ((k + 8 * base) div 8) < n \<and> image_bit img (k + 8 * base)"
proof -
  have gen: "bit (fold (\<lambda>i w. if int i < n then w OR push_bit ((i - base) * 8) (ucast (img ! i)) else w)
      [base..<base + m] (0 :: u64)) k
     \<longleftrightarrow> k div 8 < m \<and> int (base + k div 8) < n \<and> bit (img ! (base + k div 8)) (k mod 8)" if "m \<le> 8" for m
    using that
  proof (induction m)
    case (Suc m)
    have b: "bit (push_bit (m * 8) (ucast (img ! (base + m)) :: u64)) k
        \<longleftrightarrow> k div 8 = m \<and> bit (img ! (base + m)) (k mod 8)"
    proof (cases "k div 8 = m")
      case True
      then have "k - m * 8 = k mod 8" "m * 8 \<le> k" using div_mult_mod_eq [of k 8] by linarith+
      moreover have "k mod 8 < 64" by (rule less_trans [of _ 8]) simp_all
      ultimately show ?thesis using True assms by (simp add: bit_simps)
    next
      case False
      then have "k < m * 8 \<or> m * 8 + 8 \<le> k" by linarith
      then show ?thesis
        using False bit_imp_le_length [of "img ! (base + m)" "k - m * 8"] by (auto simp: bit_simps)
    qed
    with Suc show ?case by (auto simp: bit_or_iff less_Suc_eq)
  qed simp
  have "(k + 8 * base) div 8 = base + k div 8" "(k + 8 * base) mod 8 = k mod 8" by simp_all
  with gen [of 8] assms show ?thesis by (simp add: get_limb_def image_bit_def less_mult_imp_div_less)
qed

lemma bit_get_exponent:
  "bit (get_exponent img f) k \<longleftrightarrow> k < nat (exp_bits f) \<and> image_bit img (nat (frac_bits f) + k)"
proof -
  have b: "w AND 2 ^ n \<noteq> 0 \<longleftrightarrow> bit w n" for w :: u8 and n
    using bit_iff_and_push_bit_not_eq_0 [of w n] by simp
  have "bit (fold (\<lambda>i biased.
             (let b = nat (frac_bits f) + i in
              if (img ! (b div 8)) AND push_bit (b mod 8) 1 \<noteq> 0 then biased OR push_bit i 1 else biased))
       [0..<m] (0 :: int)) k \<longleftrightarrow> k < m \<and> image_bit img (nat (frac_bits f) + k)" for m
    by (induction m) (auto simp: b image_bit_def Let_def bit_simps less_Suc_eq)
  then show ?thesis by (simp add: get_exponent_def)
qed

text \<open>The geometry the bit positions rely on, for every supported format.\<close>

lemma format_layout:
  assumes "f \<in> sf_formats"
  shows "0 < frac_bits f" "0 < exp_bits f" "frac_bits f + exp_bits f < 128" "frac_bits f < 128"
    "frac_bits f + exp_bits f + 1 = 8 * total_bytes f" "explicit_intbit f \<longleftrightarrow> frac_bits f = 64"
    "1 < frac_bits f"
  using assms by (auto simp: sf_formats_def format_defs)

lemma bit_low_ones: "k < 64 \<Longrightarrow> bit (push_bit n 1 - 1 :: u64) k \<longleftrightarrow> k < n"
proof -
  assume "k < 64"
  moreover have "push_bit n 1 - 1 = (mask n :: u64)" by (simp add: mask_eq_exp_minus_1 push_bit_eq_mult)
  ultimately show ?thesis by (simp only: bit_mask_iff) auto
qed

lemma bit_mask_fraction:
  assumes "f \<in> sf_formats" "k < 64"
  shows "bit (fst (mask_fraction f h l)) k \<longleftrightarrow> bit h k \<and> int k + 64 < frac_bits f"
    and "bit (snd (mask_fraction f h l)) k \<longleftrightarrow> bit l k \<and> int k < frac_bits f"
  using format_layout [OF assms(1)] assms(2)
  by (auto simp: mask_fraction_def bit_and_iff bit_low_ones simp del: push_bit_of_1)

lemma image_bit_to_bits:
  assumes f: "f \<in> sf_formats" and k: "k < 128" and fields: "bits_fields a f = (h, l, e)"
  shows "image_bit (sf_to_bits a f) k \<longleftrightarrow>
      (int (k div 8) < total_bytes f \<and> (if k < 64 then bit l k else bit h (k - 64)))
      \<or> (frac_bits f \<le> int k \<and> int k < frac_bits f + exp_bits f \<and> bit e (k - nat (frac_bits f)))
      \<or> (sf_sign a \<and> int k = frac_bits f + exp_bits f)"
    and "length (sf_to_bits a f) = 16"
proof -
  let ?fb = "nat (frac_bits f)" and ?m = "nat (exp_bits f)"
  let ?put = "\<lambda>i out. if drop_bit i e AND 1 \<noteq> 0 then put_bit out (?fb + i) else out"
  note lay = format_layout [OF f]
  have le: "?fb + ?m \<le> 128" using lay by linarith
  note ex = image_bit_put_exponent [OF k le put_fraction_length [of h l "total_bytes f"], of e]
  have tb: "nat (exp_bits f + frac_bits f + 1 - 1) = ?fb + ?m" "?fb + ?m < 128"
    using lay by linarith+
  have d: "sf_to_bits a f =
      (if sf_sign a then put_bit (fold ?put [0..<?m] (put_fraction h l (total_bytes f))) (?fb + ?m)
       else fold ?put [0..<?m] (put_fraction h l (total_bytes f)))"
    unfolding sf_to_bits_def Let_def fields prod.case tb(1) ..
  have nat_int: "?fb \<le> k \<longleftrightarrow> frac_bits f \<le> int k" "k < ?fb + ?m \<longleftrightarrow> int k < frac_bits f + exp_bits f"
    "k = ?fb + ?m \<longleftrightarrow> int k = frac_bits f + exp_bits f"
    using lay by linarith+
  show "length (sf_to_bits a f) = 16" unfolding d using ex(2) by simp
  show "image_bit (sf_to_bits a f) k \<longleftrightarrow>
      (int (k div 8) < total_bytes f \<and> (if k < 64 then bit l k else bit h (k - 64)))
      \<or> (frac_bits f \<le> int k \<and> int k < frac_bits f + exp_bits f \<and> bit e (k - nat (frac_bits f)))
      \<or> (sf_sign a \<and> int k = frac_bits f + exp_bits f)"
  proof (cases "sf_sign a")
    case True
    have "image_bit (put_bit (fold ?put [0..<?m] (put_fraction h l (total_bytes f))) (?fb + ?m)) k
        \<longleftrightarrow> k = ?fb + ?m \<or> image_bit (fold ?put [0..<?m] (put_fraction h l (total_bytes f))) k"
      by (rule image_bit_put_bit [OF k tb(2) ex(2)])
    with True show ?thesis
      unfolding d if_P [OF True] ex(1) image_bit_put_fraction [OF k] nat_int by blast
  next
    case False
    then show ?thesis
      unfolding d if_not_P [OF False] ex(1) image_bit_put_fraction [OF k] nat_int by blast
  qed
qed

text \<open>Fields that fit their places: the fraction below \<open>frac_bits\<close>, the exponent in its field.\<close>

definition fields_ok :: "sf_format \<Rightarrow> u64 \<Rightarrow> u64 \<Rightarrow> int \<Rightarrow> bool" where
  "fields_ok f h l e \<longleftrightarrow> u128v h l < 2 ^ nat (frac_bits f) \<and> 0 \<le> e \<and> e < 2 ^ nat (exp_bits f)"

lemma fields_ok_bits:
  assumes "fields_ok f h l e" "k < 64"
  shows "bit h k \<Longrightarrow> int k + 64 < frac_bits f" "bit l k \<Longrightarrow> int k < frac_bits f"
proof -
  show "int k < frac_bits f" if "bit l k"
    using nat_bit_bound [of "u128v h l" "nat (frac_bits f)" k] assms that u128v_bit [of k h l]
    by (simp add: fields_ok_def)
  show "int k + 64 < frac_bits f" if "bit h k"
    using nat_bit_bound [of "u128v h l" "nat (frac_bits f)" "k + 64"] assms that u128v_bit [of "k + 64" h l]
    by (simp add: fields_ok_def)
qed

lemma decode_fields:
  assumes f: "f \<in> sf_formats" and fields: "bits_fields a f = (h, l, e)" and ok: "fields_ok f h l e"
  defines "img \<equiv> sf_to_bits a f"
  shows "mask_fraction f (get_limb img [8..<16] 8 (total_bytes f)) (get_limb img [0..<8] 0 (total_bytes f)) = (h, l)"
    and "get_exponent img f = e"
    and "image_bit img (nat (frac_bits f + exp_bits f)) = sf_sign a"
proof -
  note lay = format_layout [OF f] and ib = image_bit_to_bits(1) [OF f _ fields, folded img_def]
  note bits = fields_ok_bits [OF ok]
  let ?m = "mask_fraction f (get_limb img [8..<16] 8 (total_bytes f)) (get_limb img [0..<8] 0 (total_bytes f))"
  have hi: "get_limb img [8..<16] 8 n = get_limb img [8..<8 + 8] 8 n" for n by simp
  have lo: "get_limb img [0..<8] 0 n = get_limb img [0..<0 + 8] 0 n" for n by simp
  have "fst ?m = h"
  proof (rule bit_word_eqI)
    fix k :: nat assume "k < LENGTH(64)"
    then have k: "k < 64" by simp
    have "int ((k + 64) div 8) < total_bytes f" if "int k + 64 < frac_bits f"
      using that lay(5) lay(2) by linarith
    with k bits(1) [OF k] ib [of "k + 64"] lay show "bit (fst ?m) k \<longleftrightarrow> bit h k"
      unfolding bit_mask_fraction(1) [OF f k] hi bit_get_limb [OF k] by auto
  qed
  moreover have "snd ?m = l"
  proof (rule bit_word_eqI)
    fix k :: nat assume "k < LENGTH(64)"
    then have k: "k < 64" by simp
    have "int (k div 8) < total_bytes f" if "int k < frac_bits f"
      using that lay(5) lay(2) by linarith
    with k bits(2) [OF k] ib [of k] lay show "bit (snd ?m) k \<longleftrightarrow> bit l k"
      unfolding bit_mask_fraction(2) [OF f k] lo bit_get_limb [OF k] by auto
  qed
  ultimately show "?m = (h, l)" by (metis prod.collapse)
  have above: "\<not> (if k < 64 then bit l k else bit h (k - 64))" if "frac_bits f \<le> int k" "k < 128" for k
  proof -
    have "k - 64 < 64" using that by simp
    with that bits [of k] bits(1) [of "k - 64"] show ?thesis by (auto simp: not_less)
  qed
  show "image_bit img (nat (frac_bits f + exp_bits f)) = sf_sign a"
    using ib [of "nat (frac_bits f + exp_bits f)"] above [of "nat (frac_bits f + exp_bits f)"] lay by auto
  have e: "0 \<le> e" "e < 2 ^ nat (exp_bits f)" using ok by (simp_all add: fields_ok_def)
  have "bit e k \<Longrightarrow> k < nat (exp_bits f)" for k
    using e nat_bit_bound [of "nat e" "nat (exp_bits f)" k]
    by (metis bit_nat_iff nat_less_iff nat_power_eq nat_numeral zero_le_numeral of_nat_numeral of_nat_power)
  moreover have "image_bit img (nat (frac_bits f) + k) \<longleftrightarrow> bit e k" if "k < nat (exp_bits f)" for k
    using that ib [of "nat (frac_bits f) + k"] above [of "nat (frac_bits f) + k"] lay by auto
  ultimately show "get_exponent img f = e"
    by (intro bit_eqI) (auto simp: bit_get_exponent)
qed

section \<open>Round trips\<close>

text \<open>A number with nothing left in the fields its class does not use, as every operation returns it.\<close>

definition sf_clean :: "sf \<Rightarrow> bool" where
  "sf_clean a \<longleftrightarrow> (sf_cls a \<noteq> SF_NORMAL \<longrightarrow> sf_hi a = 0 \<and> sf_lo a = 0 \<and> sf_exp a = 0)"

lemma top_bit_restore:
  fixes w :: u64
  assumes "k < 64" "unat w < 2 ^ Suc k" "2 ^ k \<le> unat w"
  shows "(w AND (push_bit k 1 - 1)) OR push_bit k 1 = w"
proof (rule bit_word_eqI)
  fix n :: nat assume "n < LENGTH(64)"
  then have n: "n < 64" by simp
  have bw: "bit w n \<longleftrightarrow> bit (unat w) n" using n by (simp add: bit_unsigned_iff)
  have "unat w div 2 ^ k = 1" using assms(2,3) by (intro div_nat_eqI) simp_all
  then have top: "bit (unat w) k" by (simp add: bit_iff_odd)
  have "bit (unat w) n \<Longrightarrow> n < Suc k" using nat_bit_bound [OF assms(2)] .
  with top show "bit ((w AND (push_bit k 1 - 1)) OR push_bit k 1) n \<longleftrightarrow> bit w n"
    using n unfolding bw bit_or_iff bit_and_iff bit_low_ones [OF n]
    by (auto simp: bit_exp_iff less_Suc_eq)
qed

lemma u128v_small:
  assumes "u128v h l < 2 ^ p"
  shows "p \<le> 64 \<Longrightarrow> h = 0" "64 \<le> p \<Longrightarrow> unat h < 2 ^ (p - 64)"
proof -
  show "h = 0" if "p \<le> 64"
  proof -
    have "u128v h l < 2 ^ 64" using assms power_increasing [OF that, of "2::nat"] by simp
    then have "unat h = 0" using u128v_div_64 [of h l] by (simp only: div_less)
    then show ?thesis by (simp add: unat_eq_zero)
  qed
  show "unat h < 2 ^ (p - 64)" if "64 \<le> p"
    using assms that by (simp only: u128v_div_64 [symmetric, of h l] pow2_split [OF that] less_mult_imp_div_less mult.commute)
qed

text \<open>The fields of a canonical number: no shift is needed, and only the leading bit is dropped.\<close>

lemma canonical_cases:
  assumes f: "f \<in> sf_formats" and c: "sf_canonical f a" "sf_cls a = SF_NORMAL"
  obtains (sub) "sf_sig a < 2 ^ nat (prec_of f - 1)" "sf_exp a = emin_of f - (prec_of f - 1)"
      "bits_fields a f = (sf_hi a, sf_lo a, 0)" "0 < sf_sig a"
    | (norm) "2 ^ nat (prec_of f - 1) \<le> sf_sig a" "sf_sig a < 2 ^ nat (prec_of f)"
      "emin_of f \<le> sf_exp a + (prec_of f - 1)" "sf_exp a + (prec_of f - 1) \<le> emax_of f"
      "bits_fields a f =
        (let (h, l) = bits_normal a f (prec_of f) in (h, l, sf_exp a + (prec_of f - 1) + emax_of f))"
proof -
  let ?p = "prec_of f" and ?n = "sf_sig a"
  note g = format_geometry [OF f]
  have n: "0 < ?n" "?n < 2 ^ nat ?p" "emin_of f - (?p - 1) \<le> sf_exp a" "sf_exp a \<le> emax_of f - (?p - 1)"
    "sf_exp a \<noteq> emin_of f - (?p - 1) \<longrightarrow> 2 ^ nat (?p - 1) \<le> ?n"
    using c by (auto simp: sf_canonical_def Let_def)
  have b: "u128_bitlen (sf_hi a) (sf_lo a) = int (nbits ?n)" by (rule u128_bitlen_eq)
  have b0: "0 < nbits ?n" using n(1) by (simp add: nbits_pos del: u128v_pos)
  show thesis
  proof (cases "?n < 2 ^ nat (?p - 1)")
    case True
    then have e: "sf_exp a = emin_of f - (?p - 1)" using n(5) by linarith
    have "nbits ?n \<le> nat (?p - 1)" using True by (simp add: nbits_le_iff)
    then have "sf_exp a + (int (nbits ?n) - 1) < emin_of f" using e g(1) by linarith
    with b b0 e have "bits_fields a f = (sf_hi a, sf_lo a, 0)"
      by (simp add: bits_fields_def c(2) bits_subnormal_def)
    with True e n(1) sub show thesis by blast
  next
    case False
    have sp: "Suc (nat (?p - 1)) = nat ?p" using g(1) by linarith
    have "nbits ?n = Suc (nat (?p - 1))" using False n(2) by (intro nbits_eqI) (simp_all add: sp)
    then have nb: "int (nbits ?n) = ?p" using sp g(1) by linarith
    have "\<not> sf_exp a + (?p - 1) < emin_of f" using n(3) by linarith
    moreover have "0 < ?p" using g(1) by linarith
    ultimately have "bits_fields a f =
        (let (h, l) = bits_normal a f ?p in (h, l, sf_exp a + (?p - 1) + emax_of f))"
      by (simp add: bits_fields_def c(2) b nb Let_def)
    with False n norm show thesis by (simp add: not_less del: u128v_pos)
  qed
qed

lemma bits_normal_canonical:
  assumes f: "f \<in> sf_formats" and n: "2 ^ nat (prec_of f - 1) \<le> sf_sig a" "sf_sig a < 2 ^ nat (prec_of f)"
    and eq: "bits_normal a f (prec_of f) = (h, l)"
  shows "u128v h l < 2 ^ nat (frac_bits f)"
    and "(if \<not> explicit_intbit f then
            (if prec_of f - 1 \<ge> 64 then (h OR push_bit (nat (prec_of f - 1 - 64)) 1, l)
             else (h, l OR push_bit (nat (prec_of f - 1)) 1))
          else (h, l)) = (sf_hi a, sf_lo a)"
    and "explicit_intbit f \<Longrightarrow> l AND push_bit (nat (frac_bits f - 1)) 1 \<noteq> 0"
proof -
  note lay = format_layout [OF f]
  let ?p = "prec_of f"
  show "l AND push_bit (nat (frac_bits f - 1)) 1 \<noteq> 0" if x: "explicit_intbit f"
  proof -
    have p: "frac_bits f = 64" "?p = 64" using x lay by (simp_all add: prec_of_def)
    then have l: "l = sf_lo a" using eq x by (simp add: bits_normal_def)
    have "sf_hi a = 0" using u128v_small(1) [OF n(2)] p by simp
    then have "2 ^ 63 \<le> unat l" "unat l < 2 ^ Suc 63" using n p l by (simp_all add: u128v_low)
    then have "unat l div 2 ^ 63 = 1" by (intro div_nat_eqI) simp_all
    then have "bit (unat l) 63" by (simp add: bit_iff_odd)
    then have "bit l 63" by (simp add: bit_unsigned_iff)
    then show ?thesis using bit_iff_and_push_bit_not_eq_0 [of l 63] p by simp
  qed
  have "u128v h l < 2 ^ nat (frac_bits f) \<and>
      (if \<not> explicit_intbit f then
            (if prec_of f - 1 \<ge> 64 then (h OR push_bit (nat (prec_of f - 1 - 64)) 1, l)
             else (h, l OR push_bit (nat (prec_of f - 1)) 1))
          else (h, l)) = (sf_hi a, sf_lo a)"
  proof (cases "explicit_intbit f")
    case True
    then show ?thesis using eq n(2) by (auto simp: bits_normal_def prec_of_def)
  next
    case False
    then have p: "?p = frac_bits f + 1" "0 < frac_bits f" using lay by (simp_all add: prec_of_def)
    define k where "k = nat (frac_bits f)"
    have k: "nat (?p - 1) = k" "nat ?p = Suc k" "int k = frac_bits f" using p by (simp_all add: k_def)
    show ?thesis
    proof (cases "64 \<le> k")
      case True
      have hl: "h = sf_hi a AND (push_bit (k - 64) 1 - 1)" "l = sf_lo a"
        using eq False True p k by (auto simp: bits_normal_def nat_diff_distrib simp del: push_bit_of_1)
      have "unat h < 2 ^ (k - 64)" unfolding hl(1) and_low_ones by simp
      then have "u128v h l < 2 ^ (64 + (k - 64))"
        unfolding u128v_def using unat_u64_lt [of l] by (simp add: power_add) 
      moreover have "h OR push_bit (k - 64) 1 = sf_hi a"
        unfolding hl(1)
      proof (rule top_bit_restore)
        show "k - 64 < 64" using k lay True by linarith
        show "unat (sf_hi a) < 2 ^ Suc (k - 64)"
          using u128v_small(2) [OF n(2) [unfolded k(2)]] le_SucI [OF True]
          by (simp only: Suc_diff_le [OF True])
        have "2 ^ k div 2 ^ 64 \<le> sf_sig a div 2 ^ 64" using n(1) k by (intro div_le_mono) simp
        then show "2 ^ (k - 64) \<le> unat (sf_hi a)"
          using True by (simp only: u128v_div_64 power_diff [symmetric])
      qed
      ultimately show ?thesis
        using hl(2) False True p k by (auto simp: nat_diff_distrib simp del: push_bit_of_1)
    next
      case lt: False
      have hl: "h = sf_hi a" "l = sf_lo a AND (push_bit k 1 - 1)"
        using eq False lt p k by (auto simp: bits_normal_def simp del: push_bit_of_1)
      have h0: "sf_hi a = 0" using u128v_small(1) [OF n(2)] lt k by simp
      have "unat l < 2 ^ k" unfolding hl(2) and_low_ones by simp
      moreover have "l OR push_bit k 1 = sf_lo a"
        unfolding hl(2) using lt n h0 k by (intro top_bit_restore) (simp_all add: u128v_low)
      ultimately show ?thesis
        using hl(1) h0 False lt p k by (auto simp: u128v_low simp del: push_bit_of_1)
    qed
  qed
  then show "u128v h l < 2 ^ nat (frac_bits f)"
    "(if \<not> explicit_intbit f then
            (if prec_of f - 1 \<ge> 64 then (h OR push_bit (nat (prec_of f - 1 - 64)) 1, l)
             else (h, l OR push_bit (nat (prec_of f - 1)) 1))
          else (h, l)) = (sf_hi a, sf_lo a)"
    by blast+
qed

lemma format_exponent_field:
  assumes "f \<in> sf_formats"
  shows "(2 :: int) ^ nat (exp_bits f) = 2 * emax_of f + 2"
  using assms by (auto simp: sf_formats_def format_defs emax_of_def)

lemma bits_fields_ok:
  assumes f: "f \<in> sf_formats" and c: "sf_canonical f a" and eq: "bits_fields a f = (h, l, e)"
  shows "fields_ok f h l e"
proof -
  note lay = format_layout [OF f] and g = format_geometry [OF f]
  have pw: "(2 :: int) ^ nat (exp_bits f) = 2 * emax_of f + 2" by (rule format_exponent_field [OF f])
  have fb: "nat (prec_of f - 1) \<le> nat (frac_bits f)" by (simp add: prec_of_def nat_mono)
  show ?thesis
  proof (cases "sf_cls a")
    case SF_NORMAL
    from f c this show ?thesis
    proof (cases rule: canonical_cases)
      case sub
      have "(2::nat) ^ nat (prec_of f - 1) \<le> 2 ^ nat (frac_bits f)" using fb by simp
      with sub(1) have "sf_sig a < 2 ^ nat (frac_bits f)" by linarith
      then show ?thesis using sub(3) eq by (simp add: fields_ok_def)
    next
      case norm
      obtain h' l' where b: "bits_normal a f (prec_of f) = (h', l')" by fastforce
      then have "h = h'" "l = l'" "e = sf_exp a + (prec_of f - 1) + emax_of f" using norm eq by simp_all
      then show ?thesis
        using norm(3,4) g(3) bits_normal_canonical(1) [OF f norm(1,2) b] pw
        by (simp add: fields_ok_def)
    qed
  qed (use eq pw g f in \<open>auto simp: bits_fields_def fields_ok_def sf_formats_def format_defs u128v_def\<close>)
qed

lemma sf_from_to_bits:
  assumes f: "f \<in> sf_formats" and c: "sf_canonical f a" and cl: "sf_clean a"
  shows "sf_from_bits (sf_to_bits a f) f = a"
proof -
  obtain h l e where fields: "bits_fields a f = (h, l, e)" by (metis prod_cases3)
  note ok = bits_fields_ok [OF f c fields]
  note dec = decode_fields [OF f fields ok]
  note lay = format_layout [OF f] and g = format_geometry [OF f]
  have tb: "nat (exp_bits f + frac_bits f + 1 - 1) = nat (frac_bits f + exp_bits f)" by (simp add: add.commute)
  have sg: "drop_bit (k mod 8) (img ! (k div 8)) AND 1 \<noteq> 0 \<longleftrightarrow> image_bit img k" for k and img :: image
    by (simp add: image_bit_def bit_and_1 bit_drop_bit_eq)
  have top: "push_bit (nat (exp_bits f)) 1 - 1 = (2 * emax_of f + 1 :: int)"
    using format_exponent_field [OF f] by simp
  note unf = sf_from_bits_def Let_def dec prod.case tb sg top
  have rec: "sf_cleared\<lparr>sf_sign := sf_sign a, sf_cls := sf_cls a\<rparr> = a" if "sf_cls a \<noteq> SF_NORMAL"
    using that cl by (simp add: sf_clean_def sf_cleared_def)
  show ?thesis
  proof (cases "sf_cls a")
    case SF_NORMAL
    from f c this show ?thesis
    proof (cases rule: canonical_cases)
      case sub
      then have hl: "h = sf_hi a" "l = sf_lo a" "e = 0" using fields by simp_all
      moreover have "h OR l \<noteq> 0" using sub(4) hl by (simp add: or_eq_0_iff)
      moreover have "(0 :: int) \<noteq> 2 * emax_of f + 1" using g by linarith
      ultimately show ?thesis
        unfolding unf using sub(2) SF_NORMAL by (simp add: sf_cleared_def)
    next
      case norm
      obtain h' l' where b: "bits_normal a f (prec_of f) = (h', l')" by fastforce
      then have hl: "h = h'" "l = l'" "e = sf_exp a + (prec_of f - 1) + emax_of f"
        using norm fields by simp_all
      note bn = bits_normal_canonical [OF f norm(1,2) b, folded hl(1,2)]
      have "e \<noteq> 2 * emax_of f + 1" "e \<noteq> 0" using norm(3,4) g hl by linarith+
      moreover have "e - emax_of f - (prec_of f - 1) = sf_exp a" using hl(3) by linarith
      ultimately show ?thesis
        unfolding unf bn(2) using SF_NORMAL bn(3) by (cases "explicit_intbit f") (simp_all add: sf_cleared_def)
    qed
  next
    case SF_ZERO
    then have "h = 0" "l = 0" "e = 0" using fields by (simp_all add: bits_fields_def)
    moreover have "(0 :: int) \<noteq> 2 * emax_of f + 1" using g by linarith
    ultimately show ?thesis unfolding unf using rec SF_ZERO by simp
  next
    case SF_INF
    then have "h = 0" "l = (if explicit_intbit f then push_bit (nat (frac_bits f - 1)) 1 else 0)"
      "e = 2 * emax_of f + 1"
      using fields top by (simp_all add: bits_fields_def)
    then show ?thesis unfolding unf using rec SF_INF by simp
  next
    case SF_NAN
    then have "e = 2 * emax_of f + 1"
      "explicit_intbit f \<Longrightarrow> \<not> (h = 0 \<and> l = push_bit (nat (frac_bits f - 1)) 1)"
      "\<not> explicit_intbit f \<Longrightarrow> h OR l \<noteq> 0"
      using fields top f by (auto simp: bits_fields_def sf_formats_def format_defs)
    then show ?thesis unfolding unf using rec SF_NAN by (cases "explicit_intbit f") auto
  qed
qed

text \<open>Conversely, what decoding returns for an arbitrary image.\<close>

abbreviation image_frac :: "image \<Rightarrow> sf_format \<Rightarrow> u64 \<times> u64" where
  "image_frac img f \<equiv>
     mask_fraction f (get_limb img [8..<16] 8 (total_bytes f)) (get_limb img [0..<8] 0 (total_bytes f))"

lemma image_fields_ok:
  assumes f: "f \<in> sf_formats" and eq: "image_frac img f = (h, l)"
  shows "fields_ok f h l (get_exponent img f)"
proof -
  have fb: "k < nat (frac_bits f)" if "bit (u128v h l) k" for k
  proof -
    have k: "k < 128" using that nat_bit_bound [OF u128v_lt] by blast
    show ?thesis
    proof (cases "k < 64")
      case True
      then show ?thesis
        using that u128v_bit [OF k] bit_mask_fraction(2) [OF f True] eq by (metis snd_conv nat_less_iff
            of_nat_0_le_iff zless_nat_eq_int_zless)
    next
      case False
      then have "k - 64 < 64" using k by simp
      from bit_mask_fraction(1) [OF f this] show ?thesis
        using that u128v_bit [OF k] eq False by (metis fst_conv add.commute le_add_diff_inverse2
            not_less of_nat_add of_nat_numeral zless_nat_eq_int_zless)
    qed
  qed
  have "take_bit (nat (exp_bits f)) (get_exponent img f) = get_exponent img f"
    by (intro bit_eqI) (auto simp: bit_take_bit_iff bit_get_exponent)
  then have "get_exponent img f < 2 ^ nat (exp_bits f)" "0 \<le> get_exponent img f"
    by (metis take_bit_int_less_exp, metis take_bit_nonnegative)
  then show ?thesis using nat_lt_2p_bits [OF fb] by (simp add: fields_ok_def)
qed

lemma or_top_value:
  fixes w :: u64
  assumes "k < 64" "unat w < 2 ^ k"
  shows "unat (w OR push_bit k 1) = 2 ^ k + unat w"
proof -
  have "unat (push_bit k 1 OR w) = unat (push_bit k 1 :: u64) + unat w"
    using assms by (intro unat_or_disjoint [of _ k]) (simp_all add: unat_bit del: push_bit_of_1)
  then show ?thesis using assms by (simp only: unat_bit or.commute)
qed

lemma restored_value:
  assumes f: "f \<in> sf_formats" and hl: "u128v h l < 2 ^ nat (frac_bits f)" and x: "\<not> explicit_intbit f"
  shows "u128p (if prec_of f - 1 \<ge> 64 then (h OR push_bit (nat (prec_of f - 1 - 64)) 1, l)
                else (h, l OR push_bit (nat (prec_of f - 1)) 1)) = 2 ^ nat (prec_of f - 1) + u128v h l"
proof -
  define k where "k = nat (frac_bits f)"
  note lay = format_layout [OF f]
  have k: "prec_of f - 1 = int k" "k < 128" using x lay by (simp_all add: prec_of_def k_def)
  show ?thesis
  proof (cases "64 \<le> k")
    case True
    have u: "unat h < 2 ^ (k - 64)" using u128v_small(2) [OF hl] True by (simp add: k_def)
    have "k - 64 < 64" using k True by linarith
    from or_top_value [OF this u] have "u128v (h OR push_bit (k - 64) 1) l = (2 ^ (k - 64) + unat h) * 2 ^ 64 + unat l"
      by (simp only: u128v_def)
    also have "\<dots> = 2 ^ k + u128v h l"
      using True by (simp add: u128v_def pow2_split [of 64 k] algebra_simps)
    finally show ?thesis using True by (simp add: k nat_diff_distrib del: push_bit_of_1)
  next
    case False
    have "h = 0" using u128v_small(1) [OF hl] False by (simp add: k_def)
    moreover from this have "unat l < 2 ^ k" using hl by (simp add: k_def u128v_low)
    ultimately show ?thesis
      using or_top_value [of k l] False by (simp add: k u128v_low del: push_bit_of_1)
  qed
qed

text \<open>The shape of what decoding returns, from the three fields of the image.\<close>

lemma sf_from_bits_fields:
  assumes f: "f \<in> sf_formats" and eq: "image_frac img f = (h, l)"
  defines "e \<equiv> get_exponent img f" and "a \<equiv> sf_from_bits img f"
  shows "sf_clean a"
    and "sf_sign a = image_bit img (nat (frac_bits f + exp_bits f))"
    and "e = 2 * emax_of f + 1 \<Longrightarrow> sf_cls a = SF_INF \<and> h = 0 \<and> l = (if explicit_intbit f then push_bit 63 1 else 0)
           \<or> sf_cls a = SF_NAN"
    and "e = 0 \<Longrightarrow> h = 0 \<Longrightarrow> l = 0 \<Longrightarrow> sf_cls a = SF_ZERO"
    and "e = 0 \<Longrightarrow> h \<noteq> 0 \<or> l \<noteq> 0 \<Longrightarrow>
           sf_cls a = SF_NORMAL \<and> sf_hi a = h \<and> sf_lo a = l \<and> sf_exp a = emin_of f - (prec_of f - 1)"
    and "e \<noteq> 0 \<Longrightarrow> e \<noteq> 2 * emax_of f + 1 \<Longrightarrow> sf_cls a \<noteq> SF_NAN \<Longrightarrow>
           sf_cls a = SF_NORMAL \<and> sf_exp a = e - emax_of f - (prec_of f - 1)
           \<and> sf_sig a = (if explicit_intbit f then u128v h l else 2 ^ nat (prec_of f - 1) + u128v h l)
           \<and> (explicit_intbit f \<longrightarrow> bit l 63)"
proof -
  note lay = format_layout [OF f] and g = format_geometry [OF f]
  have ok: "fields_ok f h l e" unfolding e_def by (rule image_fields_ok [OF f eq])
  have tb: "nat (exp_bits f + frac_bits f + 1 - 1) = nat (frac_bits f + exp_bits f)" by (simp add: add.commute)
  have sg: "drop_bit (k mod 8) (img ! (k div 8)) AND 1 \<noteq> 0 \<longleftrightarrow> image_bit img k" for k
    by (simp add: image_bit_def bit_and_1 bit_drop_bit_eq)
  have top: "push_bit (nat (exp_bits f)) 1 - 1 = (2 * emax_of f + 1 :: int)"
    using format_exponent_field [OF f] by simp
  have ib: "l AND push_bit (nat (frac_bits f - 1)) 1 = 0 \<longleftrightarrow> \<not> bit l 63" if "explicit_intbit f"
    using that lay(6) bit_iff_and_push_bit_not_eq_0 [of l 63] by simp
  note unf = a_def sf_from_bits_def Let_def eq prod.case tb sg top e_def [symmetric]
  have ne: "(0 :: int) \<noteq> 2 * emax_of f + 1" using g by linarith
  note rv = restored_value [OF f conjunct1 [OF ok [unfolded fields_ok_def]]]
  show "sf_clean a" "sf_sign a = image_bit img (nat (frac_bits f + exp_bits f))"
    unfolding unf by (simp_all add: sf_clean_def sf_cleared_def split_beta)
  show "sf_cls a = SF_INF \<and> h = 0 \<and> l = (if explicit_intbit f then push_bit 63 1 else 0) \<or> sf_cls a = SF_NAN"
    if "e = 2 * emax_of f + 1"
    unfolding unf using that lay(6) by (auto simp: or_eq_0_iff)
  show "sf_cls a = SF_ZERO" if "e = 0" "h = 0" "l = 0"
    unfolding unf using that ne by simp
  show "sf_cls a = SF_NORMAL \<and> sf_hi a = h \<and> sf_lo a = l \<and> sf_exp a = emin_of f - (prec_of f - 1)"
    if "e = 0" "h \<noteq> 0 \<or> l \<noteq> 0"
    unfolding unf using that ne by (auto simp: or_eq_0_iff)
  show "sf_cls a = SF_NORMAL \<and> sf_exp a = e - emax_of f - (prec_of f - 1)
           \<and> sf_sig a = (if explicit_intbit f then u128v h l else 2 ^ nat (prec_of f - 1) + u128v h l)
           \<and> (explicit_intbit f \<longrightarrow> bit l 63)"
    if "e \<noteq> 0" "e \<noteq> 2 * emax_of f + 1" "sf_cls a \<noteq> SF_NAN"
  proof (cases "explicit_intbit f")
    case True
    with that(3) that(1,2) ib have "bit l 63" unfolding unf by auto
    with True show ?thesis unfolding unf using that(1,2) ib by auto
  next
    case False
    then show ?thesis unfolding unf using that(1,2) rv by (simp add: split_beta)
  qed
qed

lemma exponent_not_top:
  assumes "fields_ok f h l e" "f \<in> sf_formats" "e \<noteq> 2 * emax_of f + 1"
  shows "0 \<le> e" "e \<le> 2 * emax_of f"
  using assms format_exponent_field [OF assms(2)] by (simp_all add: fields_ok_def)

lemma sf_from_bits_canonical:
  assumes f: "f \<in> sf_formats"
  shows "sf_canonical f (sf_from_bits img f)"
proof -
  obtain h l where eq: "image_frac img f = (h, l)" by fastforce
  define e a where "e = get_exponent img f" and "a = sf_from_bits img f"
  note flds = sf_from_bits_fields [OF f eq, folded e_def a_def]
  note ok = image_fields_ok [OF f eq, folded e_def]
  note lay = format_layout [OF f] and g = format_geometry [OF f]
  have n: "u128v h l < 2 ^ nat (frac_bits f)" using ok by (simp add: fields_ok_def)
  have p: "nat (frac_bits f) \<le> nat (prec_of f)" by (simp add: prec_of_def nat_mono)
  then have "(2::nat) ^ nat (frac_bits f) \<le> 2 ^ nat (prec_of f)" by simp
  with n have np: "u128v h l < 2 ^ nat (prec_of f)" by linarith
  have sp: "(2::nat) ^ nat (prec_of f) = 2 * 2 ^ nat (prec_of f - 1)"
    using g(1) by (subst power_Suc [symmetric]) (simp add: Suc_nat_eq_nat_zadd1)
  consider "sf_cls a \<noteq> SF_NORMAL" | "sf_cls a = SF_NORMAL" "e = 0" "h \<noteq> 0 \<or> l \<noteq> 0"
    | "sf_cls a = SF_NORMAL" "e \<noteq> 0" "e \<noteq> 2 * emax_of f + 1"
    using flds(3,4) by fastforce
  then have "sf_canonical f a"
  proof cases
    case 2
    with flds(5) np g show ?thesis by (auto simp: sf_canonical_def Let_def)
  next
    case 3
    then have a: "sf_exp a = e - emax_of f - (prec_of f - 1)"
      "sf_sig a = (if explicit_intbit f then u128v h l else 2 ^ nat (prec_of f - 1) + u128v h l)"
      "explicit_intbit f \<longrightarrow> bit l 63"
      using flds(6) by auto
    have "2 ^ nat (prec_of f - 1) \<le> sf_sig a \<and> sf_sig a < 2 ^ nat (prec_of f)"
    proof (cases "explicit_intbit f")
      case True
      then have p64: "prec_of f = 64" using lay by (simp add: prec_of_def)
      have "bit (u128v h l) 63" using True a(3) u128v_bit [of 63 h l] by simp
      then have "\<not> u128v h l < 2 ^ 63" using nat_bit_bound by blast
      then show ?thesis using True np a(2) p64 by simp
    next
      case False
      then have "u128v h l < 2 ^ nat (prec_of f - 1)" using n by (simp add: prec_of_def)
      then show ?thesis using False a(2) sp by simp
    qed
    moreover have "(0::nat) < 2 ^ nat (prec_of f - 1)" by simp
    ultimately have "0 < sf_sig a \<and> 2 ^ nat (prec_of f - 1) \<le> sf_sig a \<and> sf_sig a < 2 ^ nat (prec_of f)"
      by linarith
    moreover have "0 \<le> e" "e \<le> 2 * emax_of f" using exponent_not_top [OF ok f] 3 by auto
    ultimately show ?thesis
      using 3 g a(1) unfolding sf_canonical_def Let_def by linarith
  qed (simp add: sf_canonical_def)
  then show ?thesis by (simp add: a_def)
qed

lemma sf_to_from_bits:
  assumes f: "f \<in> sf_formats" and x: "\<not> explicit_intbit f" and len: "length img = 16"
    and pad: "\<And>k. 8 * total_bytes f \<le> int k \<Longrightarrow> k < 128 \<Longrightarrow> \<not> image_bit img k"
    and nan: "sf_cls (sf_from_bits img f) \<noteq> SF_NAN"
  shows "sf_to_bits (sf_from_bits img f) f = img"
proof -
  obtain h l where eq: "image_frac img f = (h, l)" by fastforce
  define e a where "e = get_exponent img f" and "a = sf_from_bits img f"
  note flds = sf_from_bits_fields [OF f eq, folded e_def a_def]
  note ok = image_fields_ok [OF f eq, folded e_def]
  have can: "sf_canonical f a" unfolding a_def by (rule sf_from_bits_canonical [OF f])
  note lay = format_layout [OF f] and g = format_geometry [OF f]
  have n: "u128v h l < 2 ^ nat (prec_of f - 1)" using ok x by (simp add: fields_ok_def prec_of_def)
  have fld: "bits_fields a f = (h, l, e)"
  proof -
    consider "e = 2 * emax_of f + 1" | "e = 0" "h = 0" "l = 0" | "e = 0" "h \<noteq> 0 \<or> l \<noteq> 0"
      | "e \<noteq> 0" "e \<noteq> 2 * emax_of f + 1" by blast
    then show ?thesis
    proof cases
      case 1
      with flds(3) nan x show ?thesis
        using format_exponent_field [OF f] by (auto simp: a_def [symmetric] bits_fields_def)
    next
      case 2
      with flds(4) show ?thesis by (simp add: bits_fields_def)
    next
      case 3
      then have a: "sf_cls a = SF_NORMAL" "sf_hi a = h" "sf_lo a = l" using flds(5) by auto
      from f can a(1) show ?thesis
        by (cases rule: canonical_cases) (use 3 a n in auto)
    next
      case 4
      then have a: "sf_cls a = SF_NORMAL" "sf_exp a = e - emax_of f - (prec_of f - 1)"
        "sf_sig a = 2 ^ nat (prec_of f - 1) + u128v h l"
        using flds(6) nan x by (auto simp: a_def [symmetric])
      from f can a(1) show ?thesis
      proof (cases rule: canonical_cases)
        case norm
        obtain h' l' where b: "bits_normal a f (prec_of f) = (h', l')" by fastforce
        note bn = bits_normal_canonical [OF f norm(1,2) b]
        have "2 ^ nat (prec_of f - 1) + u128v h' l' = sf_sig a"
          using restored_value [OF f bn(1) x] bn(2) x by simp
        then have "h' = h" "l' = l" using a(3) by (simp_all add: u128v_inject)
        then show ?thesis using norm(5) b a(2) by simp
      qed (use a in simp)
    qed
  qed
  have same: "image_bit (sf_to_bits a f) k \<longleftrightarrow> image_bit img k" if k: "k < 128" for k
  proof -
    have lo: "bit l k \<longleftrightarrow> int (k div 8) < total_bytes f \<and> image_bit img k \<and> int k < frac_bits f" if "k < 64" for k
      using bit_mask_fraction(2) [OF f that, of "get_limb img [8..<16] 8 (total_bytes f)"
          "get_limb img [0..<8] 0 (total_bytes f)"] bit_get_limb [OF that, of img 0 "total_bytes f"]
      unfolding eq snd_conv by simp
    have hi: "bit h k \<longleftrightarrow> int ((k + 64) div 8) < total_bytes f \<and> image_bit img (k + 64) \<and> int k + 64 < frac_bits f"
      if "k < 64" for k
      using bit_mask_fraction(1) [OF f that, of "get_limb img [8..<16] 8 (total_bytes f)"
          "get_limb img [0..<8] 0 (total_bytes f)"] bit_get_limb [OF that, of img 8 "total_bytes f"]
      unfolding eq fst_conv by simp
    have fr: "(if k < 64 then bit l k else bit h (k - 64)) \<longleftrightarrow>
        int (k div 8) < total_bytes f \<and> image_bit img k \<and> int k < frac_bits f"
      using lo [of k] hi [of "k - 64"] k by auto
    have inb: "int (k div 8) < total_bytes f" if "int k < frac_bits f"
      using that lay(2,5) by linarith
    have out: "\<not> int (k div 8) < total_bytes f" if "8 * total_bytes f \<le> int k"
      using that by linarith
    have ex: "bit e (k - nat (frac_bits f)) \<longleftrightarrow> image_bit img k"
      if "frac_bits f \<le> int k" "int k < frac_bits f + exp_bits f"
      using that lay(1) by (auto simp: e_def bit_get_exponent)
    have sg: "sf_sign a \<longleftrightarrow> image_bit img k" if "int k = frac_bits f + exp_bits f"
      using flds(2) that by (metis nat_int)
    consider "int k < frac_bits f" | "frac_bits f \<le> int k" "int k < frac_bits f + exp_bits f"
      | "int k = frac_bits f + exp_bits f" | "8 * total_bytes f \<le> int k" using lay(5) by linarith
    then show ?thesis
    proof cases
      case 1
      with inb lay(2) show ?thesis unfolding image_bit_to_bits(1) [OF f k fld] fr by linarith
    next
      case 2
      with ex show ?thesis unfolding image_bit_to_bits(1) [OF f k fld] fr by linarith
    next
      case 3
      with sg lay(2) show ?thesis unfolding image_bit_to_bits(1) [OF f k fld] fr by linarith
    next
      case 4
      with pad [OF 4 k] out lay(5) show ?thesis
        unfolding image_bit_to_bits(1) [OF f k fld] fr by linarith
    qed
  qed
  show ?thesis unfolding a_def [symmetric]
  proof (rule nth_equalityI)
    show "length (sf_to_bits a f) = length img" using image_bit_to_bits(2) [OF f _ fld, of 0] len by simp
    fix i assume "i < length (sf_to_bits a f)"
    then have i: "i < 16" using image_bit_to_bits(2) [OF f _ fld, of 0] by simp
    show "sf_to_bits a f ! i = img ! i"
    proof (rule bit_word_eqI)
      fix j :: nat assume "j < LENGTH(8)"
      then have j: "j < 8" by simp
      then have "(8 * i + j) div 8 = i" "(8 * i + j) mod 8 = j" by simp_all
      with same [of "8 * i + j"] i j show "bit (sf_to_bits a f ! i) j \<longleftrightarrow> bit (img ! i) j"
        by (simp add: image_bit_def)
    qed
  qed
qed

end
