(* ===== verification/Limbs.thy ===== *)
theory Limbs
  imports Cg_Prelude
begin

text \<open>
  The natural number a little-endian list of limbs stands for, with limbs of
  \<open>w\<close> significant bits: shared by the 256-bit product of softfp.c (32-bit and
  64-bit limbs) and by the bignum of bigint.c (64-bit limbs).
\<close>

fun limbs_val :: "nat \<Rightarrow> 'a::len word list \<Rightarrow> nat" where
  "limbs_val w [] = 0"
| "limbs_val w (x # xs) = unat x + 2 ^ w * limbs_val w xs"

abbreviation limbs64 :: "u64 list \<Rightarrow> nat" where
  "limbs64 xs \<equiv> limbs_val 64 xs"

lemma limbs_val_append:
  "limbs_val w (xs @ ys) = limbs_val w xs + 2 ^ (w * length xs) * limbs_val w ys"
  by (induction xs) (simp_all add: power_add algebra_simps)

lemma limbs_val_bound:
  "\<forall>x \<in> set xs. unat x < 2 ^ w \<Longrightarrow> limbs_val w xs < 2 ^ (w * length xs)"
proof (induction xs)
  case (Cons x xs)
  then have "Suc (limbs_val w xs) \<le> 2 ^ (w * length xs)" and x: "unat x < 2 ^ w" by auto
  then have "2 ^ w * Suc (limbs_val w xs) \<le> 2 ^ w * 2 ^ (w * length xs)"
    by (intro mult_le_mono2)
  with x show ?case by (simp add: power_add)
qed simp

lemma limbs64_bound: "limbs64 xs < 2 ^ (64 * length xs)"
  by (rule limbs_val_bound) (simp add: unat_u64_lt del: power_numeral)

lemma limbs_val_replicate_0 [simp]: "limbs_val w (replicate n 0) = 0"
  by (induction n) simp_all

lemma limbs_val_update:
  "k < length xs \<Longrightarrow>
     limbs_val w (xs[k := y]) + unat (xs ! k) * 2 ^ (w * k) = limbs_val w xs + unat y * 2 ^ (w * k)"
proof (induction xs arbitrary: k)
  case (Cons x xs)
  then show ?case
  proof (cases k)
    case (Suc j)
    with Cons.prems have IH: "limbs_val w (xs[j := y]) + unat (xs ! j) * 2 ^ (w * j)
        = limbs_val w xs + unat y * 2 ^ (w * j)"
      using Cons.IH [of j] by simp
    have "2 ^ w * (limbs_val w (xs[j := y]) + unat (xs ! j) * 2 ^ (w * j))
        = 2 ^ w * (limbs_val w xs + unat y * 2 ^ (w * j))"
      by (simp only: IH)
    then show ?thesis using Suc by (simp add: power_add algebra_simps)
  qed simp
qed simp

lemma limbs_val_update_0:
  "k < length xs \<Longrightarrow> unat (xs ! k) = 0 \<Longrightarrow>
     limbs_val w (xs[k := y]) = limbs_val w xs + unat y * 2 ^ (w * k)"
  using limbs_val_update [of k xs w y] by simp

lemma limbs64_drop: "limbs64 (drop k xs) = limbs64 xs div 2 ^ (64 * k)"
proof (cases "k \<le> length xs")
  case True
  have "limbs64 xs = limbs64 (take k xs) + 2 ^ (64 * k) * limbs64 (drop k xs)"
    using limbs_val_append [of 64 "take k xs" "drop k xs"] True by (simp del: power_numeral)
  moreover have "limbs64 (take k xs) < 2 ^ (64 * k)"
    using limbs64_bound [of "take k xs"] True by (simp del: power_numeral)
  ultimately show ?thesis by simp
next
  case False
  have "limbs64 xs < 2 ^ (64 * length xs)" by (rule limbs64_bound)
  also have "\<dots> \<le> 2 ^ (64 * k)" using False by (intro power_increasing) auto
  finally show ?thesis using False by simp
qed

lemma limbs64_take: "limbs64 (take k xs) = limbs64 xs mod 2 ^ (64 * k)"
proof (cases "k \<le> length xs")
  case True
  have "limbs64 xs = limbs64 (take k xs) + 2 ^ (64 * k) * limbs64 (drop k xs)"
    using limbs_val_append [of 64 "take k xs" "drop k xs"] True by (simp del: power_numeral)
  moreover have "limbs64 (take k xs) < 2 ^ (64 * k)"
    using limbs64_bound [of "take k xs"] True by (simp del: power_numeral)
  ultimately show ?thesis by simp
next
  case False
  have "limbs64 xs < 2 ^ (64 * length xs)" by (rule limbs64_bound)
  also have "\<dots> \<le> 2 ^ (64 * k)" using False by (intro power_increasing) auto
  finally show ?thesis using False by simp
qed

lemma limbs64_eq_0_iff: "limbs64 xs = 0 \<longleftrightarrow> (\<forall>x \<in> set xs. x = 0)"
  by (induction xs) (auto simp: unat_eq_zero)

lemma limbs64_nth:
  assumes "k < length xs"
  shows "unat (xs ! k) = limbs64 xs div 2 ^ (64 * k) mod 2 ^ 64"
proof -
  have "drop k xs = xs ! k # drop (Suc k) xs" using assms by (simp add: Cons_nth_drop_Suc)
  then have "limbs64 (drop k xs) = unat (xs ! k) + 2 ^ 64 * limbs64 (drop (Suc k) xs)" by simp
  then have "limbs64 (drop k xs) mod 2 ^ 64 = unat (xs ! k)"
    using unat_u64_lt [of "xs ! k"] by simp
  then show ?thesis by (simp only: limbs64_drop)
qed

text \<open>The bit length is decided by the top nonzero limb.\<close>

lemma nbits_limbs64_top:
  assumes "x \<noteq> 0"
  shows "nbits (limbs64 (xs @ [x])) = 64 * length xs + nbits (unat x)"
proof -
  have x: "0 < unat x" using assms by (simp add: unat_gt_0)
  have val: "limbs64 (xs @ [x]) = limbs64 xs + 2 ^ (64 * length xs) * unat x"
    by (simp add: limbs_val_append)
  have "nbits (limbs64 (xs @ [x]) div 2 ^ (64 * length xs)) = nbits (unat x)"
    using limbs64_bound [of xs] by (simp add: val)
  then have "nbits (limbs64 (xs @ [x])) - 64 * length xs = nbits (unat x)"
    by (simp only: nbits_div_2p)
  moreover have "0 < nbits (unat x)" using x by (simp add: nbits_pos)
  ultimately show ?thesis by linarith
qed

section \<open>Shifting a list of limbs right by less than a limb\<close>

fun shr_limbs :: "nat \<Rightarrow> u64 list \<Rightarrow> u64 list" where
  "shr_limbs b [] = []"
| "shr_limbs b [x] = [drop_bit b x]"
| "shr_limbs b (x # y # ys) = (drop_bit b x OR push_bit (64 - b) y) # shr_limbs b (y # ys)"

lemma length_shr_limbs [simp]: "length (shr_limbs b xs) = length xs"
  by (induction b xs rule: shr_limbs.induct) simp_all

lemma shr_limbs_value:
  assumes "0 < b" "b < 64"
  shows "limbs64 (shr_limbs b xs) = limbs64 xs div 2 ^ b"
proof (induction xs rule: induct_list012)
  case (3 x y ys)
  let ?Y = "limbs64 (y # ys)"
  have split: "(2::nat) ^ 64 = 2 ^ b * 2 ^ (64 - b)" using assms by (simp flip: power_add)
  have "unat (push_bit (64 - b) y) = unat y mod 2 ^ b * 2 ^ (64 - b)"
    using assms shl_mod_eq [of "64 - b" 64 "unat y"] by (simp add: unat_shl)
  moreover have "unat (drop_bit b x) < 2 ^ (64 - b)"
    using unat_u64_lt [of x, unfolded split]
    by (simp only: unat_shr div_less_iff_less_mult mult.commute zero_less_power zero_less_numeral)
  ultimately have head: "unat (drop_bit b x OR push_bit (64 - b) y)
      = unat y mod 2 ^ b * 2 ^ (64 - b) + unat x div 2 ^ b"
    using unat_or_disjoint [of "push_bit (64 - b) y" "64 - b" "drop_bit b x"]
    by (simp add: or.commute unat_shr)
  have ymod: "unat y mod 2 ^ b = ?Y mod 2 ^ b"
    by (simp only: limbs_val.simps split mult.assoc mod_mult_self2)
  have "limbs64 (x # y # ys) div 2 ^ b = (unat x + 2 ^ b * (2 ^ (64 - b) * ?Y)) div 2 ^ b"
    by (simp only: limbs_val.simps(2) [of 64 x] split mult.assoc)
  also have "\<dots> = unat x div 2 ^ b + 2 ^ (64 - b) * ?Y" by simp
  also have "\<dots> = unat x div 2 ^ b + 2 ^ (64 - b) * (?Y mod 2 ^ b + 2 ^ b * (?Y div 2 ^ b))"
    by (simp only: mod_mult_div_eq)
  also have "\<dots> = unat x div 2 ^ b + ?Y mod 2 ^ b * 2 ^ (64 - b) + 2 ^ 64 * (?Y div 2 ^ b)"
    unfolding split by (simp only: add_mult_distrib2 mult_ac add_ac)
  finally show ?case
    using "3.IH"(2) head ymod by simp
qed (simp_all add: unat_shr)

end
