(* ===== verification/Sf_Mul.thy ===== *)
theory Sf_Mul
  imports Sf_Add Limbs
begin

text \<open>
  Multiplication of src/src/util/softfp.c: the exact 128 by 128 to 256 bit
  product in 32-bit limbs (mul_256), its bit length, low-bit test and right
  shift, and sf_mul. Arrays are lists; the loops over their indices are
  recursions over the same indices.
\<close>

section \<open>Definitions\<close>

text \<open>The inner loop over \<open>j\<close>: position \<open>k = i + j\<close>, running carry.\<close>

fun mul_row :: "u32 \<Rightarrow> u32 list \<Rightarrow> nat \<Rightarrow> u64 \<Rightarrow> u64 list \<Rightarrow> u64 \<times> u64 list" where
  "mul_row xi [] k carry acc = (carry, acc)"
| "mul_row xi (yj # ys) k carry acc =
     (let cur = acc ! k + ucast xi * ucast yj + carry
      in mul_row xi ys (Suc k) (drop_bit 32 cur) (acc[k := cur AND 0xffffffff]))"

text \<open>The outer loop over \<open>i\<close>, ending each row with \<open>acc[i + 4] += carry\<close>.\<close>

fun mul_rows :: "u32 list \<Rightarrow> u32 list \<Rightarrow> nat \<Rightarrow> u64 list \<Rightarrow> u64 list" where
  "mul_rows [] ys i acc = acc"
| "mul_rows (xi # xs) ys i acc =
     (let (carry, acc') = mul_row xi ys i 0 acc
      in mul_rows xs ys (Suc i) (acc'[i + 4 := acc' ! (i + 4) + carry]))"

definition limbs32 :: "u64 \<Rightarrow> u64 \<Rightarrow> u32 list" where
  "limbs32 hi lo = [ucast lo, ucast (drop_bit 32 lo), ucast hi, ucast (drop_bit 32 hi)]"

definition mul_256 :: "u64 \<Rightarrow> u64 \<Rightarrow> u64 \<Rightarrow> u64 \<Rightarrow> u64 list" where
  "mul_256 ahi alo bhi blo =
     (let acc = mul_rows (limbs32 ahi alo) (limbs32 bhi blo) 0 (replicate 8 0)
      in [acc ! 0 OR push_bit 32 (acc ! 1), acc ! 2 OR push_bit 32 (acc ! 3),
          acc ! 4 OR push_bit 32 (acc ! 5), acc ! 6 OR push_bit 32 (acc ! 7)])"

text \<open>The search for the top nonzero limb; \<open>n\<close> limbs are left to look at.\<close>

fun bitlen_256_from :: "nat \<Rightarrow> u64 list \<Rightarrow> int" where
  "bitlen_256_from 0 p = 0"
| "bitlen_256_from (Suc i) p =
     (if p ! i \<noteq> 0 then int i * 64 + bit_count_loop 0 (p ! i) else bitlen_256_from i p)"

definition bitlen_256 :: "u64 list \<Rightarrow> int" where
  "bitlen_256 p = bitlen_256_from 4 p"

definition low_bits_set_256 :: "u64 list \<Rightarrow> int \<Rightarrow> bool" where
  "low_bits_set_256 p d =
     (let w = nat (d div 64); b = nat (d mod 64) in
      (\<exists>x \<in> set (take w p). x \<noteq> 0)
      \<or> (b \<noteq> 0 \<and> w < 4 \<and> (p ! w AND (push_bit b 1 - 1)) \<noteq> 0))"

definition shr_256 :: "u64 list \<Rightarrow> int \<Rightarrow> u64 list" where
  "shr_256 p d =
     (let w = nat (d div 64); b = nat (d mod 64);
          p1 = (if w \<noteq> 0 then drop w p @ replicate w 0 else p)
      in if b \<noteq> 0 then shr_limbs b p1 else p1)"

definition sf_mul :: "sf \<Rightarrow> sf \<Rightarrow> sf_format \<Rightarrow> sf_status \<Rightarrow> sf \<times> sf_status" where
  "sf_mul a b f st =
     (let sign = (sf_sign a \<noteq> sf_sign b) in
      if sf_cls a = SF_NAN \<or> sf_cls b = SF_NAN then (sf_cleared\<lparr>sf_cls := SF_NAN\<rparr>, st)
      else if sf_cls a = SF_INF \<or> sf_cls b = SF_INF then
        (if sf_cls a = SF_ZERO \<or> sf_cls b = SF_ZERO then make_nan st
         else (sf_cleared\<lparr>sf_cls := SF_INF, sf_sign := sign\<rparr>, st))
      else if sf_cls a = SF_ZERO \<or> sf_cls b = SF_ZERO then
        (sf_cleared\<lparr>sf_cls := SF_ZERO, sf_sign := sign\<rparr>, st)
      else
        (let p = mul_256 (sf_hi a) (sf_lo a) (sf_hi b) (sf_lo b);
             pexp = sf_exp a + sf_exp b;
             len = bitlen_256 p;
             (p', sticky, pexp') =
               (if len > 128 then
                  (let drop = len - 128
                   in (shr_256 p drop, low_bits_set_256 p drop, pexp + drop))
                else (p, False, pexp))
         in round_pack sign (p' ! 1) (p' ! 0) pexp' sticky f st))"

section \<open>The exact product\<close>

abbreviation small32 :: "u64 list \<Rightarrow> bool" where
  "small32 xs \<equiv> \<forall>x \<in> set xs. unat x < 2 ^ 32"

lemma mul_step_value:
  fixes xi yj :: u32 and a c :: u64
  assumes "unat a < 2 ^ 32" "unat c < 2 ^ 32"
  shows "unat (a + ucast xi * ucast yj + c) = unat a + unat xi * unat yj + unat c"
proof -
  have "unat xi < 2 ^ 32" "unat yj < 2 ^ 32" using unat_lt_2p [of xi] unat_lt_2p [of yj] by simp_all
  then have "unat xi * unat yj \<le> (2 ^ 32 - 1) * (2 ^ 32 - 1)" by (intro mult_le_mono) simp_all
  moreover have "unat (ucast xi :: u64) = unat xi" "unat (ucast yj :: u64) = unat yj"
    using \<open>unat xi < 2 ^ 32\<close> \<open>unat yj < 2 ^ 32\<close>
    by (simp_all add: unsigned_ucast_eq take_bit_eq_mod)
  ultimately show ?thesis
    using assms by (simp add: unat_word_ariths)
qed

lemma mul_row_algebra:
  fixes L L1 L' :: nat
  assumes "L' + c' * Q = L1 + x * Y * (B * P) + d * (B * P)" "L1 + a * P = L + m * P"
    "d * B + m = a + x * y + c"
  shows "L' + c' * Q = L + x * (y + B * Y) * P + c * P"
proof -
  have "d * (B * P) + m * P = a * P + x * y * P + c * P"
    using arg_cong [OF assms(3), of "\<lambda>z. z * P"] by (simp add: algebra_simps)
  with assms(1,2) show ?thesis by (simp add: algebra_simps)
qed

lemma mul_row_value:
  assumes "small32 acc" "unat carry < 2 ^ 32" "k + length ys \<le> length acc"
    and "mul_row xi ys k carry acc = (carry', acc')"
  shows "limbs_val 32 acc' + unat carry' * 2 ^ (32 * (k + length ys))
           = limbs_val 32 acc + unat xi * limbs_val 32 ys * 2 ^ (32 * k) + unat carry * 2 ^ (32 * k)"
    and "small32 acc'" "unat carry' < 2 ^ 32" "length acc' = length acc"
    and "\<forall>j. k + length ys \<le> j \<longrightarrow> acc' ! j = acc ! j"
proof -
  have "limbs_val 32 acc' + unat carry' * 2 ^ (32 * (k + length ys))
           = limbs_val 32 acc + unat xi * limbs_val 32 ys * 2 ^ (32 * k) + unat carry * 2 ^ (32 * k)
      \<and> small32 acc' \<and> unat carry' < 2 ^ 32 \<and> length acc' = length acc
      \<and> (\<forall>j. k + length ys \<le> j \<longrightarrow> acc' ! j = acc ! j)"
    using assms
  proof (induction ys arbitrary: k carry acc)
    case (Cons y ys)
    define cur where "cur = acc ! k + ucast xi * ucast y + carry"
    define acc1 where "acc1 = acc[k := cur AND 0xffffffff]"
    have k: "k < length acc" using Cons.prems by simp
    have cur: "unat cur = unat (acc ! k) + unat xi * unat y + unat carry"
      unfolding cur_def using Cons.prems k by (intro mul_step_value) auto
    have mask: "unat (cur AND 0xffffffff) = unat cur mod 2 ^ 32"
      using unat_low_mask [of cur 32] by (simp add: mask_numeral)
    have small: "small32 acc1"
      unfolding acc1_def using Cons.prems(1) mask by (auto dest!: set_update_subset_insert [THEN subsetD])
    have c: "unat (drop_bit 32 cur) < 2 ^ 32"
      using unat_u64_lt [of cur] by (simp add: unat_shr)
    have run: "mul_row xi ys (Suc k) (drop_bit 32 cur) acc1 = (carry', acc')"
      using Cons.prems(4) by (simp add: cur_def acc1_def Let_def)
    have len: "Suc k + length ys \<le> length acc1" using Cons.prems(3) by (simp add: acc1_def)
    note IH = Cons.IH [OF small c len run]
    have up: "limbs_val 32 acc1 + unat (acc ! k) * 2 ^ (32 * k)
        = limbs_val 32 acc + unat cur mod 2 ^ 32 * 2 ^ (32 * k)"
      using limbs_val_update [OF k, of 32 "cur AND 0xffffffff"] by (simp only: acc1_def mask)
    have pw: "(2::nat) ^ (32 * Suc k) = 2 ^ 32 * 2 ^ (32 * k)" by (simp only: mult_Suc_right power_add)
    have "unat cur div 2 ^ 32 * 2 ^ 32 + unat cur mod 2 ^ 32 = unat (acc ! k) + unat xi * unat y + unat carry"
      using cur by (simp only: div_mult_mod_eq)
    from mul_row_algebra [OF IH [THEN conjunct1, unfolded pw unat_shr] up this] IH show ?case
      by (auto simp: acc1_def simp del: power_numeral)
  qed auto
  then show "limbs_val 32 acc' + unat carry' * 2 ^ (32 * (k + length ys))
           = limbs_val 32 acc + unat xi * limbs_val 32 ys * 2 ^ (32 * k) + unat carry * 2 ^ (32 * k)"
    "small32 acc'" "unat carry' < 2 ^ 32" "length acc' = length acc"
    "\<forall>j. k + length ys \<le> j \<longrightarrow> acc' ! j = acc ! j"
    by blast+
qed

lemma mul_rows_value:
  assumes "small32 acc" "length acc = i + 4 + length xs" "length ys = 4"
    and "\<forall>j. i + 4 \<le> j \<longrightarrow> j < length acc \<longrightarrow> acc ! j = 0"
  shows "limbs_val 32 (mul_rows xs ys i acc)
           = limbs_val 32 acc + limbs_val 32 xs * limbs_val 32 ys * 2 ^ (32 * i)
    \<and> small32 (mul_rows xs ys i acc) \<and> length (mul_rows xs ys i acc) = length acc"
  using assms
proof (induction xs arbitrary: i acc)
  case (Cons x xs)
  obtain c acc' where row: "mul_row x ys i 0 acc = (c, acc')" by fastforce
  have "unat (0 :: u64) < 2 ^ 32" "i + length ys \<le> length acc" using Cons.prems by simp_all
  note r = mul_row_value [OF Cons.prems(1) this row]
  define acc1 where "acc1 = acc'[i + 4 := acc' ! (i + 4) + c]"
  have i4: "i + 4 < length acc'" using Cons.prems r(4) by simp
  have z: "acc' ! (i + 4) = 0" using r(5) Cons.prems by simp
  have "small32 acc1"
    unfolding acc1_def using r(2,3) z by (auto dest!: set_update_subset_insert [THEN subsetD])
  moreover have "length acc1 = Suc i + 4 + length xs" using Cons.prems r(4) by (simp add: acc1_def)
  moreover have "\<forall>j. Suc i + 4 \<le> j \<longrightarrow> j < length acc1 \<longrightarrow> acc1 ! j = 0"
    using Cons.prems r(4,5) by (auto simp: acc1_def)
  ultimately have IH: "limbs_val 32 (mul_rows xs ys (Suc i) acc1)
           = limbs_val 32 acc1 + limbs_val 32 xs * limbs_val 32 ys * 2 ^ (32 * Suc i)
    \<and> small32 (mul_rows xs ys (Suc i) acc1) \<and> length (mul_rows xs ys (Suc i) acc1) = length acc1"
    using Cons.prems(3) by (intro Cons.IH)
  have "limbs_val 32 acc1 = limbs_val 32 acc' + unat c * 2 ^ (32 * (i + 4))"
    using limbs_val_update_0 [OF i4] z by (simp add: acc1_def del: power_numeral)
  also have "\<dots> = limbs_val 32 acc + unat x * limbs_val 32 ys * 2 ^ (32 * i)"
    using r(1) Cons.prems(3) by simp
  finally have v1: "limbs_val 32 acc1 = limbs_val 32 acc + unat x * limbs_val 32 ys * 2 ^ (32 * i)" .
  have run: "mul_rows (x # xs) ys i acc = mul_rows xs ys (Suc i) acc1"
    by (simp add: row acc1_def)
  have pw: "(2::nat) ^ (32 * Suc i) = 2 ^ 32 * 2 ^ (32 * i)" by (simp only: mult_Suc_right power_add)
  show ?case
    unfolding run using IH v1 r(4) by (simp add: power_add acc1_def algebra_simps)
qed simp

lemma limbs32_value: "limbs_val 32 (limbs32 hi lo) = u128v hi lo"
proof -
  have w: "unat (ucast x :: u32) = unat x mod 2 ^ 32" for x :: u64
    by (simp add: unsigned_ucast_eq take_bit_eq_mod)
  have h: "unat x div 2 ^ 32 mod 2 ^ 32 = unat x div 2 ^ 32" for x :: u64
    using unat_u64_lt [of x] by (simp add: div_less_iff_less_mult)
  have s: "unat x mod 2 ^ 32 + 2 ^ 32 * (unat x div 2 ^ 32) = unat x" for x :: u64
    by (rule mod_mult_div_eq)
  have alg: "a + B * (b + B * (c + B * d)) = (a + B * b) + B * B * (c + B * d)" for a b c d B :: nat
    by (simp add: algebra_simps)
  have "limbs_val 32 (limbs32 hi lo) = unat lo mod 2 ^ 32 + 2 ^ 32 * (unat lo div 2 ^ 32
      + 2 ^ 32 * (unat hi mod 2 ^ 32 + 2 ^ 32 * (unat hi div 2 ^ 32)))"
    by (simp only: limbs32_def limbs_val.simps w unat_shr h mult_0_right add_0_right)
  also have "\<dots> = unat lo + 2 ^ 32 * 2 ^ 32 * unat hi" by (subst alg) (simp only: s)
  finally show ?thesis by (simp add: u128v_def)
qed

lemma join32:
  assumes "unat x < 2 ^ 32" "unat y < 2 ^ 32"
  shows "unat (x OR push_bit 32 y) = unat x + 2 ^ 32 * unat (y :: u64)"
  using assms unat_or_disjoint [of "push_bit 32 y" 32 x] by (simp add: or.commute unat_shl)

lemma mul_256_value:
  "limbs64 (mul_256 ahi alo bhi blo) = u128v ahi alo * u128v bhi blo"
  "length (mul_256 ahi alo bhi blo) = 4"
proof -
  define acc where "acc = mul_rows (limbs32 ahi alo) (limbs32 bhi blo) 0 (replicate 8 0)"
  have "limbs_val 32 acc = limbs_val 32 (replicate 8 (0 :: u64))
      + limbs_val 32 (limbs32 ahi alo) * limbs_val 32 (limbs32 bhi blo) * 2 ^ (32 * 0)
      \<and> small32 acc \<and> length acc = length (replicate 8 (0 :: u64))"
    unfolding acc_def by (rule mul_rows_value) (simp_all add: limbs32_def)
  then have acc: "limbs_val 32 acc = u128v ahi alo * u128v bhi blo" "small32 acc" "length acc = 8"
    by (simp_all add: limbs32_value)
  from acc(3) obtain a0 a1 a2 a3 a4 a5 a6 a7 where 8: "acc = [a0, a1, a2, a3, a4, a5, a6, a7]"
    by (auto simp: length_Suc_conv numeral_eq_Suc)
  have "limbs64 (mul_256 ahi alo bhi blo) = limbs_val 32 acc"
    using acc(2) unfolding mul_256_def Let_def acc_def [symmetric]
    by (simp add: 8 join32)
  with acc(1) show "limbs64 (mul_256 ahi alo bhi blo) = u128v ahi alo * u128v bhi blo" by simp
  show "length (mul_256 ahi alo bhi blo) = 4" by (simp add: mul_256_def Let_def)
qed

section \<open>Folding the product to 128 bits\<close>

lemma bitlen_256_from_value:
  "n \<le> length p \<Longrightarrow> bitlen_256_from n p = int (nbits (limbs64 (take n p)))"
proof (induction n)
  case (Suc n)
  then have t: "take (Suc n) p = take n p @ [p ! n]" by (simp add: take_Suc_conv_app_nth)
  show ?case
  proof (cases "p ! n = 0")
    case True
    with Suc t show ?thesis by (simp add: limbs_val_append)
  next
    case False
    with Suc t show ?thesis
      using nbits_limbs64_top [OF False, of "take n p"] by (simp add: bit_count_loop_eq)
  qed
qed simp

lemma bitlen_256_value: "length p = 4 \<Longrightarrow> bitlen_256 p = int (nbits (limbs64 p))"
  using bitlen_256_from_value [of 4 p] by (simp add: bitlen_256_def)

lemma split_mod:
  fixes n :: nat
  shows "n mod 2 ^ (a + b) \<noteq> 0 \<longleftrightarrow> n mod 2 ^ a \<noteq> 0 \<or> n div 2 ^ a mod 2 ^ b \<noteq> 0"
  by (auto simp: power_add mod_mult2_eq)

lemma low_bits_set_256_value:
  assumes "length p = 4" "0 \<le> d" "d < 256"
  shows "low_bits_set_256 p d \<longleftrightarrow> limbs64 p mod 2 ^ nat d \<noteq> 0"
proof -
  define w b where "w = nat (d div 64)" and "b = nat (d mod 64)"
  have d: "nat d = 64 * w + b" "b < 64" "w < 4"
    using assms(2,3) by (auto simp: w_def b_def nat_less_iff nat_div_distrib nat_mod_distrib)
  have "(\<exists>x \<in> set (take w p). x \<noteq> 0) \<longleftrightarrow> limbs64 p mod 2 ^ (64 * w) \<noteq> 0"
    using limbs64_eq_0_iff [of "take w p"] limbs64_take [of w p] by auto
  moreover have "(p ! w AND (push_bit b 1 - 1)) \<noteq> 0 \<longleftrightarrow> limbs64 p div 2 ^ (64 * w) mod 2 ^ b \<noteq> 0"
  proof -
    have "push_bit b 1 - 1 = (mask b :: u64)" by (simp add: mask_eq_exp_minus_1 push_bit_eq_mult)
    then have "(p ! w AND (push_bit b 1 - 1)) \<noteq> 0 \<longleftrightarrow> unat (p ! w) mod 2 ^ b \<noteq> 0"
      by (simp add: unat_low_mask flip: unat_eq_zero)
    also have "unat (p ! w) mod 2 ^ b = limbs64 p div 2 ^ (64 * w) mod 2 ^ b"
      using limbs64_nth [of w p] assms(1) d
      by (simp add: mod_mod_cancel le_imp_power_dvd del: power_numeral)
    finally show ?thesis .
  qed
  ultimately show ?thesis
    using d(3) unfolding low_bits_set_256_def Let_def d(1) split_mod w_def [symmetric] b_def [symmetric]
    by auto
qed

lemma shr_256_value:
  assumes "length p = 4" "0 \<le> d" "d < 256"
  shows "limbs64 (shr_256 p d) = limbs64 p div 2 ^ nat d" "length (shr_256 p d) = 4"
proof -
  define w b where "w = nat (d div 64)" and "b = nat (d mod 64)"
  have d: "nat d = 64 * w + b" "b < 64" "w < 4"
    using assms(2,3) by (auto simp: w_def b_def nat_less_iff nat_div_distrib nat_mod_distrib)
  define p1 where "p1 = (if w \<noteq> 0 then drop w p @ replicate w 0 else p)"
  have p1: "limbs64 p1 = limbs64 p div 2 ^ (64 * w)" "length p1 = 4"
    using assms(1) d by (auto simp: p1_def limbs_val_append limbs64_drop)
  have eq: "shr_256 p d = (if b \<noteq> 0 then shr_limbs b p1 else p1)"
    by (simp add: shr_256_def Let_def p1_def w_def b_def)
  show "limbs64 (shr_256 p d) = limbs64 p div 2 ^ nat d"
    using p1(1) d shr_limbs_value [of b p1] by (simp add: eq power_add div_mult2_eq)
  show "length (shr_256 p d) = 4" using p1(2) by (simp add: eq)
qed

lemma low_limbs:
  assumes "length p = 4" "limbs64 p < 2 ^ 128"
  shows "u128v (p ! 1) (p ! 0) = limbs64 p"
proof -
  obtain p0 p1 p2 p3 where p: "p = [p0, p1, p2, p3]"
    using assms(1) by (auto simp: length_Suc_conv numeral_eq_Suc)
  have "limbs64 (take 2 p) = limbs64 p"
    using limbs64_take [of 2 p] assms(2) by simp
  then show ?thesis by (simp add: p u128v_def)
qed

lemma residue_div: "residue (real m * 2 powi e) (m div 2 ^ k) (e + int k) (m mod 2 ^ k \<noteq> 0)"
  using residue_sum [of "int k" k 0 "e + int k" m] by simp

text \<open>The product of two nonzero finite numbers is the rounding of the exact product.\<close>

lemma sf_mul_rounds:
  assumes f: "f \<in> sf_formats" and a: "sf_operand a" "sf_cls a = SF_NORMAL"
    and b: "sf_operand b" "sf_cls b = SF_NORMAL"
  shows "rounds_to f (sf_sign a \<noteq> sf_sign b) (sf_mag a * sf_mag b) st (sf_mul a b f st)"
proof -
  define p e m where "p = mul_256 (sf_hi a) (sf_lo a) (sf_hi b) (sf_lo b)"
    and "e = sf_exp a + sf_exp b" and "m = sf_sig a * sf_sig b"
  have p: "limbs64 p = m" "length p = 4" by (simp_all add: p_def m_def mul_256_value)
  have len: "bitlen_256 p = int (nbits m)" by (simp add: bitlen_256_value p)
  have m: "0 < m" using a b by (simp add: m_def sf_operand_def)
  have mag: "sf_mag a * sf_mag b = real m * 2 powi e"
    by (simp add: sf_mag_def m_def e_def powi2_add)
  show ?thesis
  proof (cases "nbits m \<le> 128")
    case True
    then have v: "u128v (p ! 1) (p ! 0) = m" using p low_limbs [of p] by (simp add: nbits_le_iff)
    have "sf_mul a b f st = round_pack (sf_sign a \<noteq> sf_sign b) (p ! 1) (p ! 0) e False f st"
      using a b True len by (simp add: sf_mul_def p_def e_def Let_def)
    then show ?thesis
      using round_pack_exact [OF f, of "p ! 1" "p ! 0"] m by (simp only: v mag)
  next
    case False
    define k where "k = nbits m - 128"
    define q where "q = shr_256 p (int k)"
    have "m < 2 ^ 256" using limbs64_bound [of p] p by simp
    then have k: "0 < k" "int k < 256" "nbits m = 128 + k"
      using False nbits_le_iff [of m 256] by (auto simp: k_def)
    have q: "limbs64 q = m div 2 ^ k" "length q = 4"
      using shr_256_value [of p "int k"] p k by (simp_all add: q_def)
    have nq: "nbits (m div 2 ^ k) = 128" using k by (simp add: nbits_div_2p)
    then have v: "u128v (q ! 1) (q ! 0) = m div 2 ^ k"
      using low_limbs [OF q(2)] nbits_le_iff [of "m div 2 ^ k" 128] by (simp add: q(1))
    have s: "low_bits_set_256 p (int k) \<longleftrightarrow> m mod 2 ^ k \<noteq> 0"
      using low_bits_set_256_value [of p "int k"] p k by simp
    have "sf_mul a b f st = round_pack (sf_sign a \<noteq> sf_sign b) (q ! 1) (q ! 0) (e + int k)
        (low_bits_set_256 p (int k)) f st"
      using a b False len by (simp add: sf_mul_def p_def [symmetric] q_def e_def k_def Let_def)
    moreover have "rounds_to f (sf_sign a \<noteq> sf_sign b) (sf_mag a * sf_mag b) st \<dots>"
      using nq format_geometry(2) [OF f] residue_div [of m e k]
      by (intro round_pack_rounds [OF f])
        (auto simp only: v s mag intro!: gr0I, auto)
    ultimately show ?thesis by simp
  qed
qed

end
