(* ===== verification/Sf_Div.thy ===== *)
theory Sf_Div
  imports Sf_Add
begin

text \<open>
  Division of src/src/util/softfp.c: both significands normalized to 120 bits,
  then restoring division one quotient bit at a time, the final remainder as
  the sticky flag.
\<close>

section \<open>Definitions\<close>

text \<open>Lines 698--716: bring a significand to 120 bits; the exponent moves with it.\<close>

definition div_normalize :: "sf \<Rightarrow> u64 \<times> u64 \<times> int" where
  "div_normalize a =
     (let k = 120 - u128_bitlen (sf_hi a) (sf_lo a);
          (hi, lo) =
            (if k > 0 then u128_shl (sf_hi a) (sf_lo a) k
             else if k < 0 then (let (h, l, _) = u128_shr_sticky (sf_hi a) (sf_lo a) (- k) in (h, l))
             else (sf_hi a, sf_lo a))
      in (hi, lo, sf_exp a - k))"

text \<open>
  One iteration: shift the quotient, subtract where the divisor fits. The loop has
  \<open>n\<close> iterations left; the last one does not shift the remainder.
\<close>

definition div_step :: "u64 \<Rightarrow> u64 \<Rightarrow> u64 \<Rightarrow> u64 \<Rightarrow> u64 \<Rightarrow> u64 \<Rightarrow> u64 \<times> u64 \<times> u64 \<times> u64" where
  "div_step dhi dlo qhi qlo rhi rlo =
     (let qhi1 = push_bit 1 qhi OR drop_bit 63 qlo;
          qlo1 = push_bit 1 qlo
      in if u128_cmp rhi rlo dhi dlo \<ge> 0 then
           (let (h, l) = u128_sub rhi rlo dhi dlo in (qhi1, qlo1 OR 1, h, l))
         else (qhi1, qlo1, rhi, rlo))"

fun div_loop :: "nat \<Rightarrow> u64 \<Rightarrow> u64 \<Rightarrow> u64 \<Rightarrow> u64 \<Rightarrow> u64 \<Rightarrow> u64 \<Rightarrow> u64 \<times> u64 \<times> u64 \<times> u64" where
  "div_loop 0 dhi dlo qhi qlo rhi rlo = (qhi, qlo, rhi, rlo)"
| "div_loop (Suc n) dhi dlo qhi qlo rhi rlo =
     (let (qhi1, qlo1, rhi1, rlo1) = div_step dhi dlo qhi qlo rhi rlo;
          (rhi2, rlo2) = (if n \<noteq> 0 then u128_shl rhi1 rlo1 1 else (rhi1, rlo1))
      in div_loop n dhi dlo qhi1 qlo1 rhi2 rlo2)"

definition sf_div :: "sf \<Rightarrow> sf \<Rightarrow> sf_format \<Rightarrow> sf_status \<Rightarrow> sf \<times> sf_status" where
  "sf_div a b f st =
     (let qbits = prec_of f + 2; sign = (sf_sign a \<noteq> sf_sign b) in
      if sf_cls a = SF_NAN \<or> sf_cls b = SF_NAN then (sf_cleared\<lparr>sf_cls := SF_NAN\<rparr>, st)
      else if sf_cls a = SF_INF \<and> sf_cls b = SF_INF then make_nan st
      else if sf_cls a = SF_ZERO \<and> sf_cls b = SF_ZERO then make_nan st
      else if sf_cls b = SF_ZERO then
        (sf_cleared\<lparr>sf_cls := SF_INF, sf_sign := sign\<rparr>, st\<lparr>invalid := True\<rparr>)
      else if sf_cls a = SF_ZERO \<or> sf_cls b = SF_INF then
        (sf_cleared\<lparr>sf_cls := SF_ZERO, sf_sign := sign\<rparr>, st)
      else if sf_cls a = SF_INF then (sf_cleared\<lparr>sf_cls := SF_INF, sf_sign := sign\<rparr>, st)
      else
        (let (rhi, rlo, aexp) = div_normalize a;
             (dhi, dlo, bexp) = div_normalize b;
             (qhi, qlo, rhi', rlo') = div_loop (nat qbits) dhi dlo 0 0 rhi rlo
         in round_pack sign qhi qlo (aexp - bexp - (qbits - 1)) ((rhi' OR rlo') \<noteq> 0) f st))"

section \<open>The quotient loop\<close>

lemma shl1_pair: "u128v (push_bit 1 hi OR drop_bit 63 lo) (push_bit 1 lo) = u128v hi lo * 2 mod 2 ^ 128"
  using u128_shl_value [of hi lo 1] by (simp add: u128_shl_def)

lemma set_low_bit:
  assumes "even (u128v hi lo)"
  shows "u128v hi (lo OR 1) = u128v hi lo + 1"
proof -
  have "unat lo mod 2 ^ 1 = 0" using assms by (simp add: u128v_def)
  then have "unat (lo OR 1) = unat lo + unat (1 :: u64)"
    by (rule unat_or_disjoint) simp
  then show ?thesis by (simp add: u128v_def)
qed

lemma div_step_value:
  assumes "div_step dhi dlo qhi qlo rhi rlo = (qhi', qlo', rhi', rlo')" "u128v qhi qlo < 2 ^ 127"
  defines "b \<equiv> (if u128v dhi dlo \<le> u128v rhi rlo then 1 else 0)"
  shows "u128v qhi' qlo' = 2 * u128v qhi qlo + b" "u128v rhi' rlo' = u128v rhi rlo - b * u128v dhi dlo"
proof -
  let ?q = "u128v (push_bit 1 qhi OR drop_bit 63 qlo) (push_bit 1 qlo)"
  have q: "?q = 2 * u128v qhi qlo" using assms(2) shl1_pair [of qhi qlo] by simp
  have q1: "u128v (push_bit 1 qhi OR drop_bit 63 qlo) (push_bit 1 qlo OR 1) = 2 * u128v qhi qlo + 1"
    using set_low_bit [of "push_bit 1 qhi OR drop_bit 63 qlo" "push_bit 1 qlo"] q by simp
  have c: "u128_cmp rhi rlo dhi dlo \<ge> 0 \<longleftrightarrow> u128v dhi dlo \<le> u128v rhi rlo"
    by (simp add: u128_cmp_value sgn_if)
  show "u128v qhi' qlo' = 2 * u128v qhi qlo + b"
    using assms(1) q q1 c by (auto simp: div_step_def b_def Let_def split: prod.splits if_splits)
  show "u128v rhi' rlo' = u128v rhi rlo - b * u128v dhi dlo"
    using assms(1) c u128_sub_value [of dhi dlo rhi rlo]
    by (auto simp: div_step_def b_def Let_def split: prod.splits if_splits)
qed

text \<open>The arithmetic of one restoring step, on natural numbers.\<close>

lemma quotient_step:
  fixes r d n :: nat
  assumes "r < 2 * d"
  defines "b \<equiv> (if d \<le> r then 1 else 0)"
  shows "(r * 2 ^ n) div d = b * 2 ^ n + ((r - b * d) * 2 ^ n) div d"
    and "r - b * d < d"
    and "r * 2 ^ n mod d = (r - b * d) * 2 ^ n mod d"
proof -
  have d: "0 < d" using assms(1) by (cases d) auto
  have r: "r = b * d + (r - b * d)" by (simp add: b_def)
  then have rn: "r * 2 ^ n = d * (b * 2 ^ n) + (r - b * d) * 2 ^ n"
    by (metis add_mult_distrib mult.assoc mult.commute)
  show "(r * 2 ^ n) div d = b * 2 ^ n + ((r - b * d) * 2 ^ n) div d"
    by (subst rn) (use d in simp)
  show "r - b * d < d" using assms(1) d by (auto simp: b_def)
  show "r * 2 ^ n mod d = (r - b * d) * 2 ^ n mod d" by (subst rn) simp
qed

lemma div_loop_value:
  assumes "div_loop (Suc n) dhi dlo qhi qlo rhi rlo = (qhi', qlo', rhi', rlo')"
    and "u128v rhi rlo < 2 * u128v dhi dlo" "u128v dhi dlo < 2 ^ 126"
    and "(u128v qhi qlo + 1) * 2 ^ Suc n \<le> 2 ^ 127"
  shows "u128v qhi' qlo' = u128v qhi qlo * 2 ^ Suc n + u128v rhi rlo * 2 ^ n div u128v dhi dlo
     \<and> u128v rhi' rlo' = u128v rhi rlo * 2 ^ n mod u128v dhi dlo"
  using assms
proof (induction n arbitrary: qhi qlo rhi rlo)
  case 0
  have q: "u128v qhi qlo < 2 ^ 127" using "0.prems"(4) by simp
  from 0 have st: "div_step dhi dlo qhi qlo rhi rlo = (qhi', qlo', rhi', rlo')"
    by (auto split: prod.splits)
  note v = div_step_value [OF st q] and s = quotient_step [OF "0.prems"(2)]
  show ?case using v s(1) [of 0] s(2) s(3) [of 0] by simp
next
  case (Suc n)
  obtain qh ql rh rl where st: "div_step dhi dlo qhi qlo rhi rlo = (qh, ql, rh, rl)"
    by (metis prod_cases4)
  have "(u128v qhi qlo + 1) * 1 \<le> (u128v qhi qlo + 1) * 2 ^ Suc (Suc n)"
    by (intro mult_le_mono2) simp
  then have q: "u128v qhi qlo < 2 ^ 127" using Suc.prems(4) by simp
  define b where "b = (if u128v dhi dlo \<le> u128v rhi rlo then 1 else 0 :: nat)"
  have v: "u128v qh ql = 2 * u128v qhi qlo + b" "u128v rh rl = u128v rhi rlo - b * u128v dhi dlo"
    using div_step_value [OF st q] by (simp_all add: b_def)
  have s: "(u128v rhi rlo * 2 ^ k) div u128v dhi dlo = b * 2 ^ k + (u128v rh rl * 2 ^ k) div u128v dhi dlo"
    "u128v rh rl < u128v dhi dlo" "u128v rhi rlo * 2 ^ k mod u128v dhi dlo = u128v rh rl * 2 ^ k mod u128v dhi dlo"
    for k
    using quotient_step [OF Suc.prems(2)] unfolding v(2) b_def by simp_all
  obtain h l where hl: "u128_shl rh rl 1 = (h, l)" by fastforce
  have hl': "u128v h l = 2 * u128v rh rl"
    using u128_shl_value [of rh rl 1] s(2) Suc.prems(3) by (simp add: hl)
  have run: "div_loop (Suc n) dhi dlo qh ql h l = (qhi', qlo', rhi', rlo')"
    using Suc.prems(1) st hl by simp
  have "b \<le> 1" by (simp add: b_def)
  then have "(u128v qh ql + 1) * 2 ^ Suc n \<le> (2 * u128v qhi qlo + 2) * 2 ^ Suc n"
    unfolding v(1) by (intro mult_le_mono1) simp
  also have "\<dots> \<le> 2 ^ 127" using Suc.prems(4) by (simp add: algebra_simps)
  finally have IH: "u128v qhi' qlo' = u128v qh ql * 2 ^ Suc n + u128v h l * 2 ^ n div u128v dhi dlo
     \<and> u128v rhi' rlo' = u128v h l * 2 ^ n mod u128v dhi dlo"
    using s(2) hl' Suc.prems(3) by (intro Suc.IH [OF run]) simp_all
  have shift: "u128v h l * 2 ^ n = u128v rh rl * 2 ^ Suc n" by (simp add: hl')
  show ?case
    using IH s(1,3) [of "Suc n"] unfolding shift v(1) by (simp add: algebra_simps)
qed

section \<open>Correct rounding of the quotient\<close>

lemma div_normalize_value:
  assumes "div_normalize a = (hi, lo, e)" "sf_operand a" "sf_cls a = SF_NORMAL"
  shows "2 ^ 119 \<le> u128v hi lo" "u128v hi lo < 2 ^ 120" "sf_mag a = real (u128v hi lo) * 2 powi e"
proof -
  let ?n = "sf_sig a"
  have n: "0 < ?n" "nbits ?n \<le> 113"
    using assms(2,3) by (simp_all add: sf_operand_def nbits_le_iff)
  define k where "k = 120 - nbits ?n"
  have k: "120 - int (nbits ?n) = int k" "0 < k" using n by (simp_all add: k_def)
  have bits: "nbits (?n * 2 ^ k) = 120" using n by (simp add: nbits_mult_2p k_def)
  then have lt: "?n * 2 ^ k < 2 ^ 120" using nbits_le_iff [of "?n * 2 ^ k" 120] by simp
  have eq: "(hi, lo) = u128_shl (sf_hi a) (sf_lo a) (int k)" "e = sf_exp a - int k"
    using assms(1) k by (auto simp: div_normalize_def u128_bitlen_eq Let_def split: prod.splits)
  have val: "u128v hi lo = ?n * 2 ^ k"
    using u128_shl_value [of "sf_hi a" "sf_lo a" "int k"] eq(1) lt by (simp add: prod_eq_iff)
  show "2 ^ 119 \<le> u128v hi lo" using bits lt_nbits_iff [of 119 "u128v hi lo"] by (simp add: val)
  show "u128v hi lo < 2 ^ 120" using lt by (simp add: val)
  show "sf_mag a = real (u128v hi lo) * 2 powi e"
    by (simp add: val eq(2) sf_mag_def powi2_diff_nat)
qed

lemma residue_quotient:
  assumes "0 < d"
  shows "residue (real a * 2 powi ea / (real d * 2 powi eb)) (a * 2 ^ n div d) (ea - eb - int n)
    (a * 2 ^ n mod d \<noteq> 0)"
proof -
  define q r where "q = a * 2 ^ n div d" and "r = a * 2 ^ n mod d"
  have m: "a * 2 ^ n = q * d + r"
    unfolding q_def r_def by (rule div_mult_mod_eq [symmetric])
  have m': "real a * 2 ^ n = real q * real d + real r"
    using arg_cong [OF m, of real] by simp
  have r: "real r < real d" using assms by (simp add: r_def)
  have "real a * 2 powi ea / (real d * 2 powi eb) = (real a * 2 ^ n / real d) * 2 powi (ea - eb - int n)"
    using assms by (simp add: powi2_diff_nat power_int_diff)
  also have "real a * 2 ^ n / real d = real q + real r / real d"
    using assms by (simp add: m' add_divide_distrib)
  finally show ?thesis
    unfolding residue_def q_def [symmetric] r_def [symmetric]
    using r assms by (intro exI [of _ "real r / real d"]) auto
qed

lemma quotient_wide:
  fixes a d n :: nat
  assumes "d \<le> 2 * a" "0 < d"
  shows "2 ^ n \<le> a * 2 ^ Suc n div d"
proof -
  have "d * 2 ^ n \<le> a * 2 ^ Suc n" using mult_le_mono1 [OF assms(1), of "2 ^ n"] by simp
  then show ?thesis using assms(2) by (simp add: less_eq_div_iff_mult_less_eq mult.commute)
qed

lemma sf_div_rounds:
  assumes f: "f \<in> sf_formats" and a: "sf_operand a" "sf_cls a = SF_NORMAL"
    and b: "sf_operand b" "sf_cls b = SF_NORMAL"
  shows "rounds_to f (sf_sign a \<noteq> sf_sign b) (sf_mag a / sf_mag b) st (sf_div a b f st)"
proof -
  obtain ah al ea where na: "div_normalize a = (ah, al, ea)" by (metis prod_cases3)
  obtain bh bl eb where nb: "div_normalize b = (bh, bl, eb)" by (metis prod_cases3)
  note va = div_normalize_value [OF na a] and vb = div_normalize_value [OF nb b]
  define n where "n = nat (prec_of f)"
  have n: "nat (prec_of f + 2) = Suc (Suc n)" "n \<le> 113" "prec_of f = int n"
    using format_geometry [OF f] by (auto simp: n_def)
  obtain qh ql rh rl where l: "div_loop (Suc (Suc n)) bh bl 0 0 ah al = (qh, ql, rh, rl)"
    by (metis prod_cases4)
  let ?A = "u128v ah al" and ?D = "u128v bh bl"
  have pw: "(2::nat) ^ Suc (Suc n) \<le> 2 ^ 127" using n(2) by (intro power_increasing) auto
  have D: "0 < ?D" "?D < 2 ^ 126" "?A < 2 * ?D" "?D \<le> 2 * ?A" using va(1,2) vb(1,2) by (simp_all del: u128v_pos)
  have q: "u128v qh ql = ?A * 2 ^ Suc n div ?D" "u128v rh rl = ?A * 2 ^ Suc n mod ?D"
    using div_loop_value [OF l D(3,2)] pw by simp_all
  have wide: "n < nbits (u128v qh ql)"
    using quotient_wide [OF D(4,1), of n] by (simp add: lt_nbits_iff q)
  have s: "(rh OR rl \<noteq> 0) \<longleftrightarrow> ?A * 2 ^ Suc n mod ?D \<noteq> 0"
    by (simp only: q(2) [symmetric] u128v_eq_0 or_eq_0_iff)
  have "sf_div a b f st = round_pack (sf_sign a \<noteq> sf_sign b) qh ql (ea - eb - int (Suc n)) (rh OR rl \<noteq> 0) f st"
    using a b na nb l n by (simp add: sf_div_def Let_def add.commute)
  moreover have "rounds_to f (sf_sign a \<noteq> sf_sign b) (sf_mag a / sf_mag b) st \<dots>"
  proof (rule round_pack_rounds [OF f])
    show "residue (sf_mag a / sf_mag b) (u128v qh ql) (ea - eb - int (Suc n)) (rh OR rl \<noteq> 0)"
      unfolding va(3) vb(3) s q(1) by (rule residue_quotient [OF D(1)])
    show "0 < u128v qh ql" using wide by (metis gr0I nbits_0 not_less_zero)
    show "prec_of f < int (nbits (u128v qh ql))" using wide n(3) by simp
  qed
  ultimately show ?thesis by simp
qed

end
