(* ===== verification/Int128_Rt.thy ===== *)
theory Int128_Rt
  imports U128 "HOL-Library.Signed_Division"
begin

text \<open>
  The 128-bit integer runtime of src/src/rt/int128.c: the libgcc-compatible entry points on a
  pair of 64-bit limbs. The specification of each entry point is the operation of the same
  name on the 128-bit word the pair stands for; division by zero, which the C code turns into a
  trapping division, has no result.
\<close>

record ti =
  ti_lo :: u64
  ti_hi :: u64

section \<open>Pairs\<close>

definition pair :: "u64 \<Rightarrow> u64 \<Rightarrow> ti" where
  "pair lo hi = \<lparr>ti_lo = lo, ti_hi = hi\<rparr>"

definition pair_is_zero :: "ti \<Rightarrow> bool" where
  "pair_is_zero a \<longleftrightarrow> ti_lo a = 0 \<and> ti_hi a = 0"

definition pair_cmp :: "ti \<Rightarrow> ti \<Rightarrow> int" where
  "pair_cmp a b =
     (if ti_hi a \<noteq> ti_hi b then (if ti_hi a < ti_hi b then - 1 else 1)
      else if ti_lo a \<noteq> ti_lo b then (if ti_lo a < ti_lo b then - 1 else 1)
      else 0)"

definition pair_sub :: "ti \<Rightarrow> ti \<Rightarrow> ti" where
  "pair_sub a b =
     \<lparr>ti_lo = ti_lo a - ti_lo b,
      ti_hi = ti_hi a - ti_hi b - (if ti_lo a < ti_lo b then 1 else 0)\<rparr>"

definition pair_neg :: "ti \<Rightarrow> ti" where
  "pair_neg a =
     (let lo = NOT (ti_lo a) + 1
      in \<lparr>ti_lo = lo, ti_hi = NOT (ti_hi a) + (if lo = 0 then 1 else 0)\<rparr>)"

definition pair_shl1 :: "ti \<Rightarrow> ti" where
  "pair_shl1 a = pair (push_bit 1 (ti_lo a)) (push_bit 1 (ti_hi a) OR drop_bit 63 (ti_lo a))"

definition pair_bit :: "ti \<Rightarrow> nat \<Rightarrow> u64" where
  "pair_bit a b = (if b \<ge> 64 then drop_bit (b - 64) (ti_hi a) AND 1 else drop_bit b (ti_lo a) AND 1)"

definition pair_set_bit :: "ti \<Rightarrow> nat \<Rightarrow> ti" where
  "pair_set_bit a b =
     (if b \<ge> 64 then a\<lparr>ti_hi := ti_hi a OR push_bit (b - 64) 1\<rparr>
      else a\<lparr>ti_lo := ti_lo a OR push_bit b 1\<rparr>)"

section \<open>Division\<close>

text \<open>The loop body for one bit, and the loop from bit \<open>k - 1\<close> down to bit 0.\<close>

definition udiv_step :: "ti \<Rightarrow> ti \<Rightarrow> nat \<Rightarrow> ti \<times> ti \<Rightarrow> ti \<times> ti" where
  "udiv_step n d i qr =
     (let (q, r) = qr;
          carry = drop_bit 63 (ti_hi r);
          r1 = pair_shl1 r;
          r2 = r1\<lparr>ti_lo := ti_lo r1 OR pair_bit n i\<rparr>
      in if carry \<noteq> 0 \<or> pair_cmp r2 d \<ge> 0 then (pair_set_bit q i, pair_sub r2 d) else (q, r2))"

fun udiv_loop :: "ti \<Rightarrow> ti \<Rightarrow> nat \<Rightarrow> ti \<times> ti \<Rightarrow> ti \<times> ti" where
  "udiv_loop n d 0 qr = qr"
| "udiv_loop n d (Suc i) qr = udiv_loop n d i (udiv_step n d i qr)"

definition udiv128 :: "ti \<Rightarrow> ti \<Rightarrow> (ti \<times> ti) option" where
  "udiv128 n d =
     (if pair_is_zero d then None
      else if ti_hi d = 0 \<and> ti_hi n = 0 then
        Some (pair (ti_lo n div ti_lo d) 0, pair (ti_lo n mod ti_lo d) 0)
      else Some (udiv_loop n d 128 (pair 0 0, pair 0 0)))"

definition udivti3 :: "ti \<Rightarrow> ti \<Rightarrow> ti option" where
  "udivti3 a b = map_option fst (udiv128 a b)"

definition umodti3 :: "ti \<Rightarrow> ti \<Rightarrow> ti option" where
  "umodti3 a b = map_option snd (udiv128 a b)"

definition divti3 :: "ti \<Rightarrow> ti \<Rightarrow> ti option" where
  "divti3 a b =
     (let neg = drop_bit 63 (ti_hi a XOR ti_hi b) \<noteq> 0;
          ua = (if drop_bit 63 (ti_hi a) \<noteq> 0 then pair_neg a else a);
          ub = (if drop_bit 63 (ti_hi b) \<noteq> 0 then pair_neg b else b)
      in map_option (\<lambda>(q, _). if neg then pair_neg q else q) (udiv128 ua ub))"

definition modti3 :: "ti \<Rightarrow> ti \<Rightarrow> ti option" where
  "modti3 a b =
     (let neg = drop_bit 63 (ti_hi a) \<noteq> 0;
          ua = (if neg then pair_neg a else a);
          ub = (if drop_bit 63 (ti_hi b) \<noteq> 0 then pair_neg b else b)
      in map_option (\<lambda>(_, r). if neg then pair_neg r else r) (udiv128 ua ub))"

section \<open>Multiplication and shifts\<close>

definition mul64 :: "u64 \<Rightarrow> u64 \<Rightarrow> ti" where
  "mul64 a b =
     (let m = 0xffffffff;
          a0 = ucast (ucast a :: u32) :: u64; a1 = drop_bit 32 a;
          b0 = ucast (ucast b :: u32) :: u64; b1 = drop_bit 32 b;
          t = a0 * b0; w0 = t AND m; k = drop_bit 32 t;
          t1 = a1 * b0 + k; w1 = t1 AND m; w2 = drop_bit 32 t1;
          t2 = a0 * b1 + w1; k2 = drop_bit 32 t2
      in pair (push_bit 32 t2 + w0) (a1 * b1 + w2 + k2))"

definition multi3 :: "ti \<Rightarrow> ti \<Rightarrow> ti" where
  "multi3 a b =
     (let lo = mul64 (ti_lo a) (ti_lo b)
      in lo\<lparr>ti_hi := ti_hi lo + (ti_hi a * ti_lo b + ti_lo a * ti_hi b)\<rparr>)"

definition ashlti3 :: "ti \<Rightarrow> int \<Rightarrow> ti" where
  "ashlti3 a b =
     (if b \<le> 0 then a
      else if b < 64 then
        pair (push_bit (nat b) (ti_lo a)) (push_bit (nat b) (ti_hi a) OR drop_bit (nat (64 - b)) (ti_lo a))
      else if b < 128 then pair 0 (push_bit (nat (b - 64)) (ti_lo a))
      else pair 0 0)"

definition lshrti3 :: "ti \<Rightarrow> int \<Rightarrow> ti" where
  "lshrti3 a b =
     (if b \<le> 0 then a
      else if b < 64 then
        pair (drop_bit (nat b) (ti_lo a) OR push_bit (nat (64 - b)) (ti_hi a)) (drop_bit (nat b) (ti_hi a))
      else if b < 128 then pair (drop_bit (nat (b - 64)) (ti_hi a)) 0
      else pair 0 0)"

definition ashrti3 :: "ti \<Rightarrow> int \<Rightarrow> ti" where
  "ashrti3 a b =
     (let fill = (if drop_bit 63 (ti_hi a) \<noteq> 0 then NOT 0 else 0) in
      if b \<le> 0 then a
      else if b < 64 then
        pair (drop_bit (nat b) (ti_lo a) OR push_bit (nat (64 - b)) (ti_hi a))
          (drop_bit (nat b) (ti_hi a) OR push_bit (nat (64 - b)) fill)
      else if b = 64 then pair (ti_hi a) fill
      else if b < 128 then
        pair (drop_bit (nat (b - 64)) (ti_hi a) OR push_bit (nat (128 - b)) fill) fill
      else pair fill fill)"

section \<open>Bit counts\<close>

function popcount_loop :: "u64 \<Rightarrow> int \<Rightarrow> int" where
  "popcount_loop a n = (if a = 0 then n else popcount_loop (a AND (a - 1)) (n + 1))"
  by pat_completeness auto
termination
proof (relation "measure (\<lambda>(a, n). unat a)", simp, clarsimp)
  fix a :: u64
  assume "a \<noteq> 0"
  then have "a - 1 < a" by (simp add: word_less_nat_alt unat_minus_one unat_gt_0)
  moreover have "a AND (a - 1) \<le> a - 1" by (simp add: word_and_le2 and.commute word_and_le1)
  ultimately show "unat (a AND (a - 1)) < unat a" by (simp add: word_less_nat_alt word_le_nat_alt)
qed

declare popcount_loop.simps [simp del]

definition popcountdi2 :: "u64 \<Rightarrow> int" where
  "popcountdi2 a = popcount_loop a 0"

text \<open>The two searches never end on zero, so not returning is a value of the model.\<close>

partial_function (option) clz_loop :: "u64 \<Rightarrow> int \<Rightarrow> int option" where
  "clz_loop a n =
     (if a AND 0x8000000000000000 = 0 then clz_loop (push_bit 1 a) (n + 1) else Some n)"

partial_function (option) ctz_loop :: "u64 \<Rightarrow> int \<Rightarrow> int option" where
  "ctz_loop a n = (if a AND 1 = 0 then ctz_loop (drop_bit 1 a) (n + 1) else Some n)"

definition clzdi2 :: "u64 \<Rightarrow> int option" where
  "clzdi2 a = clz_loop a 0"

definition ctzdi2 :: "u64 \<Rightarrow> int option" where
  "ctzdi2 a = ctz_loop a 0"

section \<open>The 128-bit word a pair stands for\<close>

definition ti_val :: "ti \<Rightarrow> nat" where
  "ti_val a = u128v (ti_hi a) (ti_lo a)"

definition ti_word :: "ti \<Rightarrow> 128 word" where
  "ti_word a = word_of_nat (ti_val a)"

lemma ti_val_lt: "ti_val a < 2 ^ 128"
  unfolding ti_val_def by (rule u128v_lt)

lemma unat_ti_word: "unat (ti_word a) = ti_val a"
  unfolding ti_word_def using ti_val_lt [of a] by (simp add: unsigned_of_nat take_bit_nat_eq_self)

lemma ti_word_eqI: "int (ti_val a) = k mod 2 ^ 128 \<Longrightarrow> ti_word a = word_of_int k"
  by (rule word_uint_eqI) (simp add: uint_nat unat_ti_word unsigned_of_int take_bit_eq_mod del: of_nat_unat)

lemma pair_fields [simp]: "ti_lo (pair lo hi) = lo" "ti_hi (pair lo hi) = hi"
  by (simp_all add: pair_def)

lemma ti_val_pair [simp]: "ti_val (pair lo hi) = u128v hi lo"
  by (simp add: ti_val_def pair_def)

lemma bit_ti_word: "k < 128 \<Longrightarrow> bit (ti_word a) k \<longleftrightarrow> (if k < 64 then bit (ti_lo a) k else bit (ti_hi a) (k - 64))"
  using u128v_bit [of k "ti_hi a" "ti_lo a"] bit_unsigned_iff [of "ti_word a" k, where 'a = nat]
  by (simp add: unat_ti_word ti_val_def)

lemma pair_cmp_value: "pair_cmp a b = sgn (int (ti_val a) - int (ti_val b))"
  using u128_cmp_value [of "ti_hi a" "ti_lo a" "ti_hi b" "ti_lo b"]
  by (simp add: pair_cmp_def u128_cmp_def ti_val_def)

lemma pair_is_zero_value: "pair_is_zero a \<longleftrightarrow> ti_val a = 0"
  by (auto simp: pair_is_zero_def ti_val_def)

lemma pair_neg_value: "ti_val (pair_neg a) = (2 ^ 128 - ti_val a) mod 2 ^ 128"
  using u128_neg_value [OF refl refl, of "ti_hi a" "ti_lo a"] by (simp add: pair_neg_def ti_val_def Let_def)

lemma ti_word_neg: "ti_word (pair_neg a) = - ti_word a"
proof -
  have "int (ti_val (pair_neg a)) = (- int (ti_val a)) mod 2 ^ 128"
    unfolding pair_neg_value using ti_val_lt [of a] by (simp add: zmod_int of_nat_diff)
  then have "ti_word (pair_neg a) = word_of_int (- int (ti_val a))" by (rule ti_word_eqI)
  also have "\<dots> = - ti_word a" by (simp add: ti_word_def)
  finally show ?thesis .
qed

text \<open>Subtraction borrows through the high limb, modulo \<open>2 ^ 128\<close>.\<close>

lemma pair_sub_value:
  "int (ti_val (pair_sub a b)) = (int (ti_val a) - int (ti_val b)) mod 2 ^ 128"
proof -
  let ?b = "(if ti_lo a < ti_lo b then 1 else 0) :: int"
  define H L where "H = uint (ti_hi a) - uint (ti_hi b) - ?b" and "L = uint (ti_lo a) - uint (ti_lo b) + ?b * 2 ^ 64"
  have L: "uint (ti_lo a - ti_lo b) = L" "0 \<le> L" "L < 2 ^ 64"
    using uint_sub_if' [of "ti_lo a" "ti_lo b"] unsigned_less [of "ti_lo a", where 'a = int]
      unsigned_less [of "ti_lo b", where 'a = int] uint_ge_0 [of "ti_lo a"] uint_ge_0 [of "ti_lo b"]
    by (cases "uint (ti_lo a) < uint (ti_lo b)"; simp add: L_def word_less_def; linarith)+
  have "uint (ti_hi a - ti_hi b - (if ti_lo a < ti_lo b then 1 else 0)) = H mod 2 ^ 64"
    by (simp add: H_def uint_word_ariths mod_simps)
  then have "int (ti_val (pair_sub a b)) = H mod 2 ^ 64 * 2 ^ 64 + L"
    using L(1) by (simp add: ti_val_def pair_sub_def u128v_def)
  also have "\<dots> = (H * 2 ^ 64 + L) mod (2 ^ 64 * 2 ^ 64)"
    using L(2,3) zmod_zmult2_eq [of "2 ^ 64" "H * 2 ^ 64 + L" "2 ^ 64"] by simp
  also have "H * 2 ^ 64 + L = int (ti_val a) - int (ti_val b)"
    by (simp add: H_def L_def ti_val_def u128v_def)
  finally show ?thesis by simp
qed

lemma ti_word_sub: "ti_word (pair_sub a b) = ti_word a - ti_word b"
  using ti_word_eqI [OF pair_sub_value] by (simp add: ti_word_def)

section \<open>Long division\<close>

lemma pair_shl1_value: "ti_val (pair_shl1 a) = 2 * ti_val a mod 2 ^ 128"
proof -
  have "u128p (u128_shl (ti_hi a) (ti_lo a) 1) = u128v (ti_hi a) (ti_lo a) * 2 ^ nat 1 mod 2 ^ 128"
    by (rule u128_shl_value)
  then show ?thesis by (simp add: pair_shl1_def ti_val_def pair_def u128_shl_def mult.commute)
qed

lemma pair_bit_value: "b < 128 \<Longrightarrow> unat (pair_bit a b) = ti_val a div 2 ^ b mod 2"
proof -
  assume b: "b < 128"
  have "w AND 1 = of_bool (bit w 0)" for w :: u64 by (simp add: and_one_eq bit_0 mod2_eq_if)
  then have "unat (pair_bit a b) = of_bool (bit (ti_val a) b)"
    using b by (simp add: pair_bit_def ti_val_def u128v_bit bit_drop_bit_eq)
  then show ?thesis by (simp add: bit_iff_odd mod2_eq_if)
qed

lemma pair_set_bit_value:
  assumes "b < 128" "ti_val a mod 2 ^ Suc b = 0"
  shows "ti_val (pair_set_bit a b) = ti_val a + 2 ^ b"
proof -
  have bits: "\<not> bit (ti_val a) k" if "k \<le> b" for k
  proof -
    have "take_bit (Suc b) (ti_val a) = 0" using assms(2) by (simp add: take_bit_eq_mod)
    then show ?thesis using that by (metis bit_0_eq bit_take_bit_iff bot_apply bot_bool_def less_Suc_eq_le)
  qed
  have "ti_val (pair_set_bit a b) = ti_val a OR 2 ^ b"
  proof (rule bit_eqI)
    fix k
    show "bit (ti_val (pair_set_bit a b)) k \<longleftrightarrow> bit (ti_val a OR 2 ^ b) k"
    proof (cases "k < 128")
      case True
      then show ?thesis using assms(1)
        by (auto simp: pair_set_bit_def ti_val_def u128v_bit bit_simps)
    next
      case False
      then have "\<not> bit (ti_val x) k" for x using nat_bit_bound [OF ti_val_lt] by blast
      then show ?thesis using False assms(1) by (auto simp: bit_simps)
    qed
  qed
  also have "\<dots> = ti_val a + 2 ^ b"
    using bits [of b] by (subst disjunctive_add_eq_or [symmetric]) (auto intro!: bit_eqI simp: bit_simps)
  finally show ?thesis .
qed

text \<open>
  One step keeps \<open>n div 2 ^ k = q * d + r\<close> on the bits seen so far, although the shifted remainder
  may need a 129th bit.
\<close>

lemma udiv_step_value:
  assumes d: "0 < ti_val d" and r: "ti_val r < ti_val d" and i: "i < 128"
    and q: "ti_val q mod 2 ^ Suc i = 0"
    and inv: "ti_val n div 2 ^ Suc i = ti_val q div 2 ^ Suc i * ti_val d + ti_val r"
    and step: "udiv_step n d i (q, r) = (q', r')"
  shows "ti_val r' < ti_val d" "ti_val q' mod 2 ^ i = 0"
    "ti_val n div 2 ^ i = ti_val q' div 2 ^ i * ti_val d + ti_val r'"
proof -
  define R where "R = 2 * ti_val r + ti_val n div 2 ^ i mod 2"
  define r2 where "r2 = (pair_shl1 r)\<lparr>ti_lo := ti_lo (pair_shl1 r) OR pair_bit n i\<rparr>"
  have carry: "drop_bit 63 (ti_hi r) \<noteq> 0 \<longleftrightarrow> 2 ^ 127 \<le> ti_val r"
    unfolding ti_val_def by (rule u128v_top_bit)
  have R: "R < 2 * ti_val d" using r by (simp add: R_def)
  have n: "ti_val n div 2 ^ i = 2 * (ti_val n div 2 ^ Suc i) + ti_val n div 2 ^ i mod 2"
    by (simp only: power_Suc2 div_mult2_eq mult_div_mod_eq)
  have low: "unat (pair_bit n i) < 2 ^ 1" using pair_bit_value [OF i, of n] by simp
  have ev: "unat (ti_lo (pair_shl1 r)) mod 2 ^ 1 = 0"
    unfolding pair_shl1_def pair_def ti.simps unat_shl by (simp add: mod_mod_cancel)
  have r2: "ti_val r2 = R mod 2 ^ 128"
  proof -
    have "ti_val r2 = ti_val (pair_shl1 r) + unat (pair_bit n i)"
      using unat_or_disjoint [OF ev low] by (simp add: r2_def ti_val_def u128v_def)
    also have "\<dots> = 2 * ti_val r mod 2 ^ 128 + ti_val n div 2 ^ i mod 2"
      by (simp only: pair_shl1_value pair_bit_value [OF i])
    also have "\<dots> = R mod 2 ^ 128"
      unfolding R_def using shl_add_mod [of "ti_val n div 2 ^ i mod 2" 1 128 "ti_val r"]
      by (simp add: mult.commute)
    finally show ?thesis .
  qed
  define ge where "ge \<longleftrightarrow> drop_bit 63 (ti_hi r) \<noteq> 0 \<or> pair_cmp r2 d \<ge> 0"
  have ge: "ge \<longleftrightarrow> ti_val d \<le> R"
  proof (cases "2 ^ 127 \<le> ti_val r")
    case True
    then show ?thesis using r ti_val_lt [of d] by (simp add: ge_def carry R_def)
  next
    case False
    then have "R < 2 ^ 128" by (simp add: R_def)
    with False show ?thesis by (simp add: ge_def carry pair_cmp_value r2 sgn_if)
  qed
  have st: "(q', r') = (if ge then (pair_set_bit q i, pair_sub r2 d) else (q, r2))"
    using step unfolding udiv_step_def Let_def prod.case r2_def [symmetric] ge_def [symmetric] by (rule sym)
  have two: "(2::nat) ^ Suc i = 2 * 2 ^ i" by simp
  define Q where "Q = ti_val q div 2 ^ Suc i"
  have qQ: "ti_val q = 2 * Q * 2 ^ i"
    using q div_mult_mod_eq [of "ti_val q" "2 ^ Suc i"] by (simp add: Q_def)
  have nQ: "ti_val n div 2 ^ i = 2 * Q * ti_val d + R" 
    using n unfolding inv Q_def [symmetric] R_def by (rule trans) (simp only: algebra_simps)
  show "ti_val r' < ti_val d" "ti_val q' mod 2 ^ i = 0"
    "ti_val n div 2 ^ i = ti_val q' div 2 ^ i * ti_val d + ti_val r'"
  proof (atomize (full), cases ge)
    case True
    then have le: "ti_val d \<le> R" using ge by simp
    have "int (ti_val (pair_sub r2 d)) = (int R - int (ti_val d)) mod 2 ^ 128"
      unfolding pair_sub_value r2 by (simp add: zmod_int mod_simps)
    also have "\<dots> = int (R - ti_val d)"
      using le R ti_val_lt [of d] by (subst mod_pos_pos_trivial) auto
    finally have "ti_val r' = R - ti_val d" using st True by simp
    moreover have "ti_val q' = (2 * Q + 1) * 2 ^ i"
      using st True pair_set_bit_value [OF i q] qQ by simp
    ultimately show "ti_val r' < ti_val d \<and> ti_val q' mod 2 ^ i = 0 \<and>
        ti_val n div 2 ^ i = ti_val q' div 2 ^ i * ti_val d + ti_val r'"
      using le R nQ by simp
  next
    case False
    then have "R < ti_val d" using ge by simp
    moreover from this have "ti_val r' = R" "q' = q" using st False r2 ti_val_lt [of d] by simp_all
    ultimately show "ti_val r' < ti_val d \<and> ti_val q' mod 2 ^ i = 0 \<and>
        ti_val n div 2 ^ i = ti_val q' div 2 ^ i * ti_val d + ti_val r'"
      using qQ nQ by simp
  qed
qed

lemma udiv_loop_value:
  assumes "0 < ti_val d" "ti_val r < ti_val d" "k \<le> 128" "ti_val q mod 2 ^ k = 0"
    and "ti_val n div 2 ^ k = ti_val q div 2 ^ k * ti_val d + ti_val r"
    and "udiv_loop n d k (q, r) = (q', r')"
  shows "ti_val r' < ti_val d \<and> ti_val n = ti_val q' * ti_val d + ti_val r'"
  using assms
proof (induction k arbitrary: q r)
  case (Suc i)
  obtain q1 r1 where st: "udiv_step n d i (q, r) = (q1, r1)" by fastforce
  have "i < 128" using Suc.prems(3) by simp
  note v = udiv_step_value [OF Suc.prems(1,2) this Suc.prems(4,5) st]
  show ?case using Suc.prems(6) st by (intro Suc.IH [OF Suc.prems(1) v(1) _ v(2,3)]) (use Suc.prems(3) in simp_all)
qed simp

lemma udiv128_value:
  assumes "ti_val d \<noteq> 0"
  shows "\<exists>q r. udiv128 n d = Some (q, r) \<and> ti_val q = ti_val n div ti_val d \<and> ti_val r = ti_val n mod ti_val d"
proof (cases "ti_hi d = 0 \<and> ti_hi n = 0")
  case True
  with assms show ?thesis
    by (auto simp: udiv128_def pair_is_zero_value ti_val_def u128v_low pair_def unat_div unat_mod)
next
  case False
  obtain q r where l: "udiv_loop n d 128 (pair 0 0, pair 0 0) = (q, r)" by fastforce
  have "ti_val r < ti_val d \<and> ti_val n = ti_val q * ti_val d + ti_val r"
    using assms ti_val_lt [of n] by (intro udiv_loop_value [OF _ _ _ _ _ l]) simp_all
  then have "ti_val q = ti_val n div ti_val d" "ti_val r = ti_val n mod ti_val d" by simp_all
  with False l assms show ?thesis by (auto simp: udiv128_def pair_is_zero_value)
qed

section \<open>Signed division\<close>

lemma sint_ti_word:
  "sint (ti_word a) = (if drop_bit 63 (ti_hi a) \<noteq> 0 then int (ti_val a) - 2 ^ 128 else int (ti_val a))"
proof -
  have u: "uint (ti_word a) = int (ti_val a)"
    by (simp only: uint_nat unat_ti_word)
  have "sint (ti_word a) = take_bit 128 (int (ti_val a)) - 2 ^ 128 * of_bool (bit (int (ti_val a)) 127)"
    by (simp add: sint_uint u signed_take_bit_eq_take_bit_minus)
  moreover have "take_bit 128 (int (ti_val a)) = int (ti_val a)"
    using ti_val_lt [of a] by (simp add: take_bit_eq_mod)
  moreover have "bit (int (ti_val a)) 127 \<longleftrightarrow> drop_bit 63 (ti_hi a) \<noteq> 0"
  proof -
    have "bit (int (ti_val a)) 127 \<longleftrightarrow> odd (ti_val a div 2 ^ 127)"
      unfolding bit_iff_odd by (metis even_of_nat of_nat_div of_nat_numeral of_nat_power)
    also have "\<dots> \<longleftrightarrow> 2 ^ 127 \<le> ti_val a"
      using ti_val_lt [of a] div_carry [of "ti_val a" "2 ^ 127"] by simp
    also have "\<dots> \<longleftrightarrow> drop_bit 63 (ti_hi a) \<noteq> 0"
      unfolding ti_val_def u128v_top_bit [of "ti_hi a" "ti_lo a"] ..
    finally show ?thesis .
  qed
  ultimately show ?thesis by simp
qed

lemma magnitude_value:
  "ti_val (if drop_bit 63 (ti_hi a) \<noteq> 0 then pair_neg a else a) = nat \<bar>sint (ti_word a)\<bar>"
proof -
  have "0 < ti_val a" if "drop_bit 63 (ti_hi a) \<noteq> 0"
  proof -
    have "2 ^ 127 \<le> ti_val a" using that u128v_top_bit [of "ti_hi a" "ti_lo a"] by (simp only: ti_val_def)
    then show ?thesis by (rule order_less_le_trans [rotated]) simp
  qed
  then show ?thesis
    using ti_val_lt [of a] by (auto simp: sint_ti_word pair_neg_value nat_diff_distrib)
qed

lemma sign_of_ti: "drop_bit 63 (ti_hi a) \<noteq> 0 \<longleftrightarrow> sint (ti_word a) < 0"
  using ti_val_lt [of a] by (simp add: sint_ti_word)

lemma sign_bit_63: "drop_bit 63 w \<noteq> 0 \<longleftrightarrow> bit w 63" for w :: u64
proof -
  have "drop_bit 63 w \<noteq> 0 \<longleftrightarrow> unat w div 2 ^ 63 \<noteq> 0" by (simp only: word_eq_0_iff_unat unat_shr)
  also have "\<dots> \<longleftrightarrow> odd (unat w div 2 ^ 63)"
    using unat_u64_lt [of w] div_carry [of "unat w" "2 ^ 63"] by simp
  also have "\<dots> \<longleftrightarrow> bit w 63"
    using bit_unsigned_iff [of w 63, where 'a = nat] by (simp add: bit_iff_odd)
  finally show ?thesis .
qed

lemma sign_xor: "drop_bit 63 (x XOR y) \<noteq> 0 \<longleftrightarrow> (drop_bit 63 x \<noteq> 0) \<noteq> (drop_bit 63 (y :: u64) \<noteq> 0)"
  unfolding sign_bit_63 by (simp add: bit_xor_iff)

lemma ti_word_signed:
  assumes "int (ti_val q) = \<bar>z\<bar>"
  shows "z < 0 \<Longrightarrow> ti_word (pair_neg q) = word_of_int z" "0 \<le> z \<Longrightarrow> ti_word q = word_of_int z"
proof -
  have "ti_word q = word_of_int \<bar>z\<bar>"
    unfolding ti_word_def assms [symmetric] by simp
  then show "z < 0 \<Longrightarrow> ti_word (pair_neg q) = word_of_int z" "0 \<le> z \<Longrightarrow> ti_word q = word_of_int z"
    by (simp_all add: ti_word_neg)
qed

lemma ti_word_zero: "int (ti_val q) = 0 \<Longrightarrow> ti_word q = 0 \<and> ti_word (pair_neg q) = 0"
  unfolding ti_word_neg by (simp add: ti_word_def)

lemma divti3_value:
  assumes "ti_word b \<noteq> 0"
  shows "map_option ti_word (divti3 a b) = Some (word_of_int (sint (ti_word a) sdiv sint (ti_word b)))"
    and "map_option ti_word (modti3 a b) = Some (word_of_int (sint (ti_word a) smod sint (ti_word b)))"
proof -
  let ?x = "sint (ti_word a)" and ?y = "sint (ti_word b)"
  let ?ua = "if drop_bit 63 (ti_hi a) \<noteq> 0 then pair_neg a else a"
  let ?ub = "if drop_bit 63 (ti_hi b) \<noteq> 0 then pair_neg b else b"
  have y: "?y \<noteq> 0"
    using assms signed_word_eqI [of "ti_word b" 0, where 'a = int] by auto
  then have nz: "ti_val ?ub \<noteq> 0" unfolding magnitude_value by simp
  obtain q r where qr: "udiv128 ?ua ?ub = Some (q, r)" "ti_val q = ti_val ?ua div ti_val ?ub"
      "ti_val r = ti_val ?ua mod ti_val ?ub"
    using udiv128_value [OF nz] by blast
  have q: "int (ti_val q) = \<bar>?x sdiv ?y\<bar>"
    unfolding qr(2) magnitude_value
    by (cases "?x = 0") (simp_all add: zdiv_int signed_divide_int_def abs_mult y pos_imp_zdiv_nonneg_iff abs_sgn_eq)
  have r: "int (ti_val r) = \<bar>?x smod ?y\<bar>"
    unfolding qr(3) magnitude_value
    by (cases "?x = 0") (simp_all add: zmod_int signed_modulo_int_def abs_mult y)
  have dq: "divti3 a b = Some (if (?x < 0) \<noteq> (?y < 0) then pair_neg q else q)"
    using qr(1) unfolding divti3_def Let_def sign_xor sign_of_ti by simp
  have dr: "modti3 a b = Some (if ?x < 0 then pair_neg r else r)"
    using qr(1) unfolding modti3_def Let_def sign_of_ti by simp
  have sq: "?x sdiv ?y < 0 \<longrightarrow> (?x < 0) \<noteq> (?y < 0)" "0 < ?x sdiv ?y \<longrightarrow> (?x < 0) = (?y < 0)"
    using sgn_sdiv_eq_sgn_mult [of ?x ?y] y
    by (auto simp: sgn_if mult_less_0_iff zero_less_mult_iff split: if_splits)
  define M where "M = \<bar>?x\<bar> mod \<bar>?y\<bar>"
  have M: "0 \<le> M" using y by (simp add: M_def)
  have sr: "?x smod ?y < 0 \<longrightarrow> ?x < 0" "0 < ?x smod ?y \<longrightarrow> 0 < ?x"
    unfolding signed_modulo_int_def M_def [symmetric] using M by (auto simp: sgn_if split: if_splits)
  show "map_option ti_word (divti3 a b) = Some (word_of_int (?x sdiv ?y))"
    using ti_word_signed [OF q] ti_word_zero [of q] q sq unfolding dq
    by (cases "?x sdiv ?y = 0"; cases "?x sdiv ?y < 0") auto
  show "map_option ti_word (modti3 a b) = Some (word_of_int (?x smod ?y))"
    using ti_word_signed [OF r] ti_word_zero [of r] r sr unfolding dr
    by (cases "?x smod ?y = 0"; cases "?x smod ?y < 0") auto
qed

lemma udivti3_value:
  assumes "ti_word b \<noteq> 0"
  shows "map_option ti_word (udivti3 a b) = Some (ti_word a div ti_word b)"
    and "map_option ti_word (umodti3 a b) = Some (ti_word a mod ti_word b)"
proof -
  have "ti_val b \<noteq> 0" using assms unat_ti_word [of b] by (metis unat_eq_zero)
  then obtain q r where qr: "udiv128 a b = Some (q, r)" "ti_val q = ti_val a div ti_val b"
      "ti_val r = ti_val a mod ti_val b"
    using udiv128_value [of b a] by blast
  show "map_option ti_word (udivti3 a b) = Some (ti_word a div ti_word b)"
    "map_option ti_word (umodti3 a b) = Some (ti_word a mod ti_word b)"
    by (simp_all add: udivti3_def umodti3_def qr(1) word_unat_eq_iff unat_ti_word qr(2,3) unat_div unat_mod)
qed

section \<open>Multiplication\<close>

lemma unat_mult_small: "unat a * unat b < 2 ^ 64 \<Longrightarrow> unat (a * b :: u64) = unat a * unat b"
  by (simp add: unat_word_ariths)

lemma mul64_value: "ti_val (mul64 a b) = unat a * unat b"
proof -
  let ?M = "2 ^ 32 :: nat"
  define a0 a1 b0 b1 where "a0 = unat a mod ?M" and "a1 = unat a div ?M"
    and "b0 = unat b mod ?M" and "b1 = unat b div ?M"
  have ab: "unat a = a1 * ?M + a0" "unat b = b1 * ?M + b0"
    unfolding a0_def a1_def b0_def b1_def by simp_all
  have lt: "a0 < ?M" "b0 < ?M" "a1 < ?M" "b1 < ?M"
    using unat_u64_lt [of a] unat_u64_lt [of b] by (simp_all add: a0_def b0_def a1_def b1_def less_mult_imp_div_less)
  have m: "(0xffffffff :: u64) = mask 32" by (simp add: mask_eq_exp_minus_1)
  have lo: "unat (ucast (ucast w :: u32) :: u64) = unat w mod ?M" for w :: u64
    by (simp add: unsigned_ucast_eq take_bit_eq_mod unat_mod)
  have p: "x * y \<le> (?M - 1) * (?M - 1)" if "x < ?M" "y < ?M" for x y :: nat
    using that by (intro mult_le_mono) simp_all
  define t k where "t = a0 * b0" and "k = t div ?M"
  define t1 w1 w2 where "t1 = a1 * b0 + k" and "w1 = t1 mod ?M" and "w2 = t1 div ?M"
  define t2 k2 where "t2 = a0 * b1 + w1" and "k2 = t2 div ?M"
  have bt: "t < 2 ^ 64" using p [OF lt(1,2)] by (simp add: t_def)
  then have bk: "k < ?M" by (simp add: k_def less_mult_imp_div_less)
  then have bt1: "t1 < 2 ^ 64" using p [OF lt(3,2)] by (simp add: t1_def)
  have bt2: "t2 < 2 ^ 64" using p [OF lt(1,4)] mod_less_divisor [of ?M t1] by (simp add: t2_def w1_def)
  have e1: "t = k * ?M + t mod ?M" by (simp add: k_def)
  have e2: "t1 = w2 * ?M + w1" by (simp add: w1_def w2_def)
  have e3: "t2 = k2 * ?M + t2 mod ?M" by (simp add: k2_def)
  have whole: "unat a * unat b = (a1 * b1 + w2 + k2) * 2 ^ 64 + ((t2 mod ?M) * ?M + t mod ?M)"
  proof -
    have "unat a * unat b = a1 * b1 * (?M * ?M) + (a1 * b0 + a0 * b1) * ?M + t"
      by (simp add: ab t_def algebra_simps)
    also have "\<dots> = a1 * b1 * (?M * ?M) + (t1 + a0 * b1) * ?M + t mod ?M"
      by (subst e1) (simp add: t1_def algebra_simps)
    also have "\<dots> = a1 * b1 * (?M * ?M) + (w2 * ?M + t2) * ?M + t mod ?M"
      by (subst e2) (simp add: t2_def algebra_simps)
    also have "\<dots> = (a1 * b1 + w2 + k2) * (?M * ?M) + ((t2 mod ?M) * ?M + t mod ?M)"
      by (subst e3) (simp add: algebra_simps)
    finally show ?thesis by simp
  qed
  define A0 A1 B0 B1 where "A0 = (ucast (ucast a :: u32) :: u64)" and "A1 = drop_bit 32 a"
    and "B0 = (ucast (ucast b :: u32) :: u64)" and "B1 = drop_bit 32 b"
  define T where "T = A0 * B0"
  define T1 where "T1 = A1 * B0 + drop_bit 32 T"
  define T2 where "T2 = A0 * B1 + (T1 AND mask 32)"
  have A: "unat A0 = a0" "unat A1 = a1" "unat B0 = b0" "unat B1 = b1"
    unfolding A0_def A1_def B0_def B1_def a0_def a1_def b0_def b1_def lo unat_shr by (rule refl)+
  have T: "unat T = t" using bt A unat_mult_small [of A0 B0] by (simp add: T_def t_def)
  have T1: "unat T1 = t1"
    using bt1 by (simp add: T1_def unat_word_ariths unat_shr T A k_def t1_def del: drop_bit_of_1)
  have T2: "unat T2 = t2"
    using bt2 by (simp add: T2_def unat_word_ariths unat_low_mask T1 A w1_def t2_def)
  have hb: "a1 * b1 + w2 + k2 < 2 ^ 64"
  proof -
    have "(a1 * b1 + w2 + k2) * 2 ^ 64 \<le> unat a * unat b" unfolding whole by simp
    also have "\<dots> \<le> (2 ^ 64 - 1) * (2 ^ 64 - 1)"
      using unat_u64_lt [of a] unat_u64_lt [of b] by (intro mult_le_mono) linarith+
    finally show ?thesis by simp
  qed
  have hi: "unat (A1 * B1 + drop_bit 32 T1 + drop_bit 32 T2) = a1 * b1 + w2 + k2"
    using hb unfolding w2_def k2_def T1 [symmetric] T2 [symmetric] A [symmetric]
    by (simp only: unat_word_ariths unat_shr mod_simps) simp
  have low: "unat (push_bit 32 T2 + (T AND mask 32)) = (t2 mod ?M) * ?M + t mod ?M"
  proof -
    have "unat (push_bit 32 T2) = (t2 mod ?M) * ?M"
      using shl_mod_eq [of 32 64 t2] by (simp only: unat_shl T2) simp
    moreover have "(t2 mod ?M) * ?M \<le> (?M - 1) * ?M" by (intro mult_le_mono1) (simp add: less_Suc_eq_le [symmetric])
    moreover have "t mod ?M < ?M" by simp
    ultimately show ?thesis by (simp add: unat_word_ariths unat_low_mask T)
  qed
  have "mul64 a b = pair (push_bit 32 T2 + (T AND mask 32)) (A1 * B1 + drop_bit 32 T1 + drop_bit 32 T2)"
    unfolding mul64_def Let_def m A0_def A1_def B0_def B1_def T_def T1_def T2_def ..
  then show ?thesis unfolding whole by (simp only: ti_val_pair u128v_def hi low)
qed

lemma multi3_value: "ti_word (multi3 a b) = ti_word a * ti_word b"
proof -
  define m where "m = mul64 (ti_lo a) (ti_lo b)"
  have m: "unat (ti_hi m) * 2 ^ 64 + unat (ti_lo m) = unat (ti_lo a) * unat (ti_lo b)"
    using mul64_value [of "ti_lo a" "ti_lo b"] by (simp add: m_def ti_val_def u128v_def)
  define X where "X = unat (ti_hi m) + (unat (ti_hi a) * unat (ti_lo b) + unat (ti_lo a) * unat (ti_hi b))"
  have "unat (ti_hi m + (ti_hi a * ti_lo b + ti_lo a * ti_hi b)) = X mod 2 ^ 64"
    by (simp add: X_def unat_word_ariths mod_simps)
  then have "ti_val (multi3 a b) = X mod 2 ^ 64 * 2 ^ 64 + unat (ti_lo m)"
    by (simp add: multi3_def ti_val_def u128v_def m_def [symmetric] Let_def)
  also have "\<dots> = (X * 2 ^ 64 + unat (ti_lo m)) mod 2 ^ (64 + 64)"
    by (rule two_limb_mod [symmetric]) (rule unat_u64_lt)
  also have "\<dots> = ti_val a * ti_val b mod 2 ^ 128"
  proof -
    have "ti_val a * ti_val b = unat (ti_hi a) * unat (ti_hi b) * 2 ^ 128 + (X * 2 ^ 64 + unat (ti_lo m))"
      using m by (simp add: X_def ti_val_def u128v_def algebra_simps)
    then show ?thesis by simp
  qed
  finally show ?thesis by (simp add: word_unat_eq_iff unat_word_ariths unat_ti_word)
qed

section \<open>Shifts, bit by bit\<close>

lemma ti_word_eq_bits: "(\<And>k. k < 128 \<Longrightarrow> bit (ti_word a) k \<longleftrightarrow> bit w k) \<Longrightarrow> ti_word a = w"
  by (rule bit_word_eqI) simp

lemma bit_ti_pair: "k < 128 \<Longrightarrow> bit (ti_word (pair lo hi)) k \<longleftrightarrow> (if k < 64 then bit lo k else bit hi (k - 64))"
  by (simp add: bit_ti_word pair_def)

lemma bit_ti_word_all: "bit (ti_word a) k \<longleftrightarrow> (if k < 64 then bit (ti_lo a) k else bit (ti_hi a) (k - 64))"
proof (cases "k < 128")
  case False
  then have "\<not> bit (ti_word a) k" "\<not> bit (ti_hi a) (k - 64)"
    using bit_imp_le_length [of "ti_word a" k] bit_imp_le_length [of "ti_hi a" "k - 64"] by auto
  with False show ?thesis by simp
qed (rule bit_ti_word)

lemma ashlti3_value: "ti_word (ashlti3 a b) = push_bit (nat b) (ti_word a)"
proof (cases "b \<le> 0")
  case False
  define m where "m = nat b"
  have b: "b = int m" using False by (simp add: m_def)
  show ?thesis
  proof (rule ti_word_eq_bits)
    fix k :: nat assume k: "k < 128"
    have "\<not> bit (ti_lo a) (k - m)" if "64 \<le> k - m" using that bit_imp_le_length [of "ti_lo a" "k - m"] by auto
    then show "bit (ti_word (ashlti3 a b)) k \<longleftrightarrow> bit (push_bit (nat b) (ti_word a)) k"
      using k False
      by (auto simp: ashlti3_def b bit_ti_pair bit_push_bit_iff bit_drop_bit_eq bit_or_iff bit_ti_word_all
          nat_diff_distrib nat_int algebra_simps)
  qed
qed (simp add: ashlti3_def)

lemma lshrti3_value: "ti_word (lshrti3 a b) = drop_bit (nat b) (ti_word a)"
proof (cases "b \<le> 0")
  case False
  define m where "m = nat b"
  have b: "b = int m" using False by (simp add: m_def)
  show ?thesis
  proof (rule ti_word_eq_bits)
    fix k :: nat assume k: "k < 128"
    have nb: "\<not> bit w n" if "64 \<le> n" for w :: u64 and n using that bit_imp_le_length [of w n] by auto
    consider "k < 64" "m < 64" | "64 \<le> k" "m < 64" | "k < 64" "64 \<le> m" "m < 128"
      | "64 \<le> k" "64 \<le> m" | "128 \<le> m" by linarith
    then show "bit (ti_word (lshrti3 a b)) k \<longleftrightarrow> bit (drop_bit (nat b) (ti_word a)) k"
      using k False nb [of "m + k" "ti_lo a"] nb [of "m + k - 64" "ti_hi a"]
      by cases (auto simp: lshrti3_def b bit_ti_pair bit_push_bit_iff bit_drop_bit_eq bit_or_iff bit_ti_word_all
          nat_diff_distrib add.commute)
  qed
qed (simp add: lshrti3_def)

lemma ashrti3_value: "ti_word (ashrti3 a b) = signed_drop_bit (nat b) (ti_word a)"
proof (cases "b \<le> 0")
  case False
  define m where "m = nat b"
  have b: "b = int m" "0 < m" using False by (simp_all add: m_def)
  show ?thesis
  proof (rule ti_word_eq_bits)
    fix k :: nat assume k: "k < 128"
    have nb: "\<not> bit w n" if "64 \<le> n" for w :: u64 and n using that bit_imp_le_length [of w n] by auto
    have s: "bit (signed_drop_bit (nat b) (ti_word a)) k \<longleftrightarrow>
        (if 128 \<le> m + k then bit (ti_hi a) 63
         else if m + k < 64 then bit (ti_lo a) (m + k) else bit (ti_hi a) (m + k - 64))"
      using k b by (auto simp: bit_signed_drop_bit_iff bit_ti_word_all)
    consider "k < 64" "m < 64" | "64 \<le> k" "m < 64" | "m = 64" | "k < 64" "64 < m" "m < 128"
      | "64 \<le> k" "64 < m" "m < 128" | "128 \<le> m" by linarith
    then show "bit (ti_word (ashrti3 a b)) k \<longleftrightarrow> bit (signed_drop_bit (nat b) (ti_word a)) k"
      unfolding s
      using k b nb [of "m + k" "ti_lo a"] nb [of "m + k - 64" "ti_hi a"]
      by cases (auto simp: ashrti3_def bit_ti_pair bit_push_bit_iff bit_drop_bit_eq bit_or_iff sign_bit_63
          bit_not_iff nat_diff_distrib add.commute Let_def)
  qed
qed (simp add: ashrti3_def)

section \<open>Bit counts\<close>

lemma popcount_loop_value: "popcount_loop a n = n + int (card {k. bit a k})"
proof (induction a n rule: popcount_loop.induct)
  case (1 a n)
  show ?case
  proof (cases "a = 0")
    case False
    have fin: "finite {k. bit a k}"
      by (rule finite_subset [of _ "{..<64}"]) (auto dest: bit_imp_le_length)
    have "\<exists>k. bit a k"
    proof (rule ccontr)
      assume "\<not> (\<exists>k. bit a k)"
      then have "a = 0" by (intro bit_word_eqI) simp
      with False show False ..
    qed
    then obtain j where j: "bit a j" "\<And>i. i < j \<Longrightarrow> \<not> bit a i" by (meson LeastI_ex not_less_Least)
    define rest where "rest = (a AND NOT (push_bit j 1))"
    have "j < 64" using bit_imp_le_length [OF j(1)] by simp
    have "a = rest OR push_bit j 1"
      by (rule bit_word_eqI) (use j(1) in \<open>auto simp: rest_def bit_simps\<close>)
    also have "\<dots> = rest + push_bit j 1"
      by (rule disjunctive_add_eq_or [symmetric]) (auto intro!: bit_word_eqI simp: rest_def bit_simps)
    finally have "a - 1 = rest + mask j" by (simp add: mask_eq_exp_minus_1)
    also have "\<dots> = rest OR mask j"
      by (rule disjunctive_add_eq_or) (use j(2) in \<open>auto intro!: bit_word_eqI simp: rest_def bit_simps\<close>)
    finally have dec: "bit (a - 1) k \<longleftrightarrow> (if k < j then True else if k = j then False else bit a k)" if "k < 64" for k
      using that by (auto simp: rest_def bit_simps)
    have "bit (a AND (a - 1)) k \<longleftrightarrow> bit a k \<and> k \<noteq> j" for k
    proof (cases "k < 64")
      case True
      from dec [OF this] j(2) [of k] show ?thesis unfolding bit_and_iff by (auto split: if_splits)
    next
      case False
      with bit_imp_le_length [of a k] show ?thesis unfolding bit_and_iff by auto
    qed
    then have "{k. bit (a AND (a - 1)) k} = {k. bit a k} - {j}" by auto
    then have "card {k. bit a k} = Suc (card {k. bit (a AND (a - 1)) k})"
      using card.remove [OF fin, of j] j(1) by simp
    with 1 False show ?thesis by (simp add: popcount_loop.simps [of a n])
  qed (simp add: popcount_loop.simps [of 0 n])
qed

lemma top_bit_clear: "a AND 0x8000000000000000 = 0 \<longleftrightarrow> unat (a :: u64) < 2 ^ 63"
proof -
  have "(0x8000000000000000 :: u64) = push_bit 63 1" by simp
  then have "a AND 0x8000000000000000 = 0 \<longleftrightarrow> \<not> bit a 63"
    by (simp only: bit_iff_and_push_bit_not_eq_0) simp
  also have "\<dots> \<longleftrightarrow> unat a div 2 ^ 63 = 0"
    using sign_bit_63 [of a] unfolding word_eq_0_iff_unat unat_shr by blast
  finally show ?thesis by (simp add: div_eq_0_iff)
qed

lemma clz_loop_value:
  assumes "a \<noteq> 0"
  shows "clz_loop a n = Some (n + (64 - int (nbits (unat a))))"
  using assms
proof (induction "64 - nbits (unat a)" arbitrary: a n)
  case 0
  then have "\<not> nbits (unat a) \<le> 63" by linarith
  then have "\<not> unat a < 2 ^ 63" by (simp only: nbits_le_iff not_False_eq_True)
  then have nz: "a AND 0x8000000000000000 \<noteq> 0" using top_bit_clear [of a] by blast
  have "nbits (unat a) \<le> 64" unfolding nbits_le_iff by (rule unat_u64_lt)
  with 0 have "int (nbits (unat a)) = 64" by linarith
  with nz show ?case by (simp add: clz_loop.simps [of a n])
next
  case (Suc m)
  then have "nbits (unat a) \<le> 63" by linarith
  then have lt: "unat a < 2 ^ 63" by (simp only: nbits_le_iff)
  then have z: "a AND 0x8000000000000000 = 0" using top_bit_clear [of a] by blast
  have u: "unat (push_bit 1 a) = unat a * 2 ^ 1" using lt unat_shl [of 1 a] by simp
  have pos: "0 < unat a" using Suc.prems by (simp add: unat_gt_0)
  have nb: "nbits (unat (push_bit 1 a)) = nbits (unat a) + 1"
    unfolding u by (rule nbits_mult_2p [OF pos])
  have "push_bit 1 a \<noteq> 0" using u pos by (metis unat_0 mult_is_0 less_not_refl zero_neq_numeral power_one_right)
  with Suc.hyps(1) [of "push_bit 1 a" "n + 1"] Suc.hyps(2) nb
  have "clz_loop (push_bit 1 a) (n + 1) = Some (n + (64 - int (nbits (unat a))))" by simp
  with z show ?case by (subst clz_loop.simps) simp
qed

text \<open>The number of trailing zeros, as the multiplicity of two.\<close>

lemma ctz_loop_value:
  assumes "bit a j" "\<And>i. i < j \<Longrightarrow> \<not> bit a i"
  shows "ctz_loop a n = Some (n + int j)"
  using assms
proof (induction j arbitrary: a n)
  case 0
  then show ?case using bit_and_1 [of a] by (simp add: ctz_loop.simps [of a n])
next
  case (Suc j)
  have "a AND 1 = 0" using Suc.prems(2) [of 0] bit_and_1 [of a] by simp
  moreover have "ctz_loop (drop_bit 1 a) (n + 1) = Some (n + 1 + int j)"
    using Suc.prems by (intro Suc.IH) (auto simp: bit_drop_bit_eq)
  ultimately show ?case by (subst ctz_loop.simps) simp
qed

lemma ctz_loop_nonzero: "ctz_loop a n = Some r \<Longrightarrow> a \<noteq> 0"
  by (rule ctz_loop.raw_induct [where P = "\<lambda>a n r. a \<noteq> 0"]) (fastforce split: if_splits)

lemma clz_loop_nonzero: "clz_loop a n = Some r \<Longrightarrow> a \<noteq> 0"
  by (rule clz_loop.raw_induct [where P = "\<lambda>a n r. a \<noteq> 0"]) (fastforce split: if_splits)

section \<open>Properties of the entry points\<close>

text \<open>
  C12: unsigned 128-bit division. For a nonzero divisor the entry points return the quotient and
  remainder of the 128-bit words; for a zero divisor they have no result.
\<close>

theorem unsigned_division_correct:
  "(ti_word b \<noteq> 0 \<longrightarrow> map_option ti_word (udivti3 a b) = Some (ti_word a div ti_word b)
      \<and> map_option ti_word (umodti3 a b) = Some (ti_word a mod ti_word b))
   \<and> (ti_word b = 0 \<longrightarrow> udivti3 a b = None \<and> umodti3 a b = None)"
proof -
  have "ti_word b = 0 \<Longrightarrow> pair_is_zero b"
    using unat_ti_word [of b] by (simp add: pair_is_zero_value)
  then show ?thesis using udivti3_value [of b a] by (auto simp: udivti3_def umodti3_def udiv128_def)
qed

theorem unsigned_division_correct_witness:
  "ti_word (pair 7 0) \<noteq> 0 \<and> map_option ti_word (udivti3 (pair 100 1) (pair 7 0)) = Some (ti_word (pair 100 1) div ti_word (pair 7 0))"
proof -
  have "ti_word (pair 7 0) \<noteq> 0" using unat_ti_word [of "pair 7 0"] by (auto simp: u128v_def)
  then show ?thesis using unsigned_division_correct [of "pair 7 0" "pair 100 1"] by blast
qed

text \<open>
  C20: signed 128-bit division truncates toward zero and the remainder takes the sign of the
  dividend, modulo \<open>2 ^ 128\<close>: the magnitude conversion is right for the most negative value too.
\<close>

theorem signed_division_correct:
  assumes "ti_word b \<noteq> 0"
  shows "map_option ti_word (divti3 a b) = Some (word_of_int (sint (ti_word a) sdiv sint (ti_word b)))
    \<and> map_option ti_word (modti3 a b) = Some (word_of_int (sint (ti_word a) smod sint (ti_word b)))"
  using divti3_value [OF assms] by blast

theorem signed_division_correct_witness:
  "ti_word (pair 7 0) \<noteq> 0 \<and> map_option ti_word (divti3 (pair 0 0x8000000000000000) (pair 7 0))
     = Some (word_of_int (sint (ti_word (pair 0 0x8000000000000000)) sdiv sint (ti_word (pair 7 0))))"
proof -
  have "ti_word (pair 7 0) \<noteq> 0" using unat_ti_word [of "pair 7 0"] by (auto simp: u128v_def)
  then show ?thesis using signed_division_correct [of "pair 7 0" "pair 0 0x8000000000000000"] by blast
qed

text \<open>
  C21: multiplication and the three shifts implement the operations of a 128-bit word, the shifts for
  every count (counts of 128 and more empty or fill the word, counts below one leave it alone).
\<close>

theorem multiply_and_shifts_correct:
  "ti_word (multi3 a b) = ti_word a * ti_word b
   \<and> ti_word (ashlti3 a n) = push_bit (nat n) (ti_word a)
   \<and> ti_word (lshrti3 a n) = drop_bit (nat n) (ti_word a)
   \<and> ti_word (ashrti3 a n) = signed_drop_bit (nat n) (ti_word a)"
  by (simp add: multi3_value ashlti3_value lshrti3_value ashrti3_value del: push_bit_eq_mult)

text \<open>
  The bit counts. The population count is the number of set bits; the leading and trailing zero
  counts end with the right answer on every nonzero word and never return on zero.
\<close>

theorem bit_counts_correct:
  "popcountdi2 a = int (card {k. bit a k})
   \<and> clzdi2 a = (if a = 0 then None else Some (64 - int (nbits (unat a))))
   \<and> (a = 0 \<longrightarrow> ctzdi2 a = None)
   \<and> (bit a j \<and> (\<forall>i < j. \<not> bit a i) \<longrightarrow> ctzdi2 a = Some (int j))"
proof -
  have "clz_loop 0 0 = None" "ctz_loop 0 0 = None"
    using clz_loop_nonzero [of 0 0] ctz_loop_nonzero [of 0 0] by (meson not_None_eq)+
  then show ?thesis
    using clz_loop_value [of a 0] ctz_loop_value [of a j 0]
    by (auto simp: popcountdi2_def popcount_loop_value clzdi2_def ctzdi2_def)
qed

theorem bit_counts_correct_witness:
  "ctzdi2 (0x28 :: u64) = Some 3 \<and> clzdi2 0x28 = Some 58"
proof -
  have "\<forall>i < 3. \<not> bit (0x28 :: u64) i" by (auto simp: less_Suc_eq numeral_eq_Suc)
  moreover have "nbits 40 = 6" by (simp add: nbits.simps)
  ultimately show ?thesis using bit_counts_correct [of "0x28" 3] by simp
qed

end
