(* ===== verification/Fp128_Rt.thy ===== *)
theory Fp128_Rt
  imports Sf_Bits Sf_Mul Sf_Div Int128_Rt
begin

text \<open>
  The binary128 runtime of src/src/rt/fp128.c: libgcc's soft-float entry points on 16-byte
  carriers. A \<open>cgf_tf\<close>, \<open>double\<close>, \<open>float\<close> or x87 \<open>long double\<close> is the list of its bytes, which is
  how the C code reads it through memcpy; \<open>cgf_ti\<close> is the limb pair of the 128-bit integer runtime.
  Functions whose status variable the C code leaves uninitialized take its contents as the
  argument \<open>st\<close>.
\<close>

section \<open>Carriers\<close>

definition tf_in :: "image \<Rightarrow> sf" where
  "tf_in a = sf_from_bits a SF_BINARY128"

definition tf_out :: "sf \<Rightarrow> image" where
  "tf_out v = sf_to_bits v SF_BINARY128"

definition cgf_seltf :: "int \<Rightarrow> image \<Rightarrow> image \<Rightarrow> image" where
  "cgf_seltf condition yes no = (if condition \<noteq> 0 then yes else no)"

text \<open>\<open>memset(bits, 0, 16)\<close> followed by \<open>memcpy(bits, &a, n)\<close>.\<close>

definition zero_extended :: "nat \<Rightarrow> u8 list \<Rightarrow> image" where
  "zero_extended n a = take n a @ replicate (16 - n) 0"

definition df_in :: "u8 list \<Rightarrow> sf" where
  "df_in a = sf_from_bits (zero_extended 8 a) SF_BINARY64"

definition sf_in :: "u8 list \<Rightarrow> sf" where
  "sf_in a = sf_from_bits (zero_extended 4 a) SF_BINARY32"

definition sf_out :: "sf \<Rightarrow> u8 list" where
  "sf_out v = take 4 (sf_to_bits v SF_BINARY32)"

definition df_out :: "sf \<Rightarrow> u8 list" where
  "df_out v = take 8 (sf_to_bits v SF_BINARY64)"

definition xf_in :: "image \<Rightarrow> sf" where
  "xf_in a = sf_from_bits a SF_X87_80"

definition xf_out :: "sf \<Rightarrow> image" where
  "xf_out v = sf_to_bits v SF_X87_80"

section \<open>NaN discipline\<close>

definition bits_are_nan :: "image \<Rightarrow> bool" where
  "bits_are_nan b =
     (let ex = push_bit 8 (ucast (b ! 15) AND 0x7f :: u32) OR ucast (b ! 14)
      in if ex \<noteq> 0x7fff then False else list_ex (\<lambda>i. b ! i \<noteq> 0) [0..<14])"

definition tf_default_nan :: image where
  "tf_default_nan = (replicate 16 0xff)[15 := 0x7f]"

definition quieted :: "image \<Rightarrow> image" where
  "quieted b = b[13 := (b ! 13) OR 0x80]"

definition nan_passthrough :: "image \<Rightarrow> image \<Rightarrow> image option" where
  "nan_passthrough a b =
     (if bits_are_nan a then Some (quieted a)
      else if bits_are_nan b then Some (quieted b)
      else None)"

definition finish :: "sf \<Rightarrow> image \<Rightarrow> image \<Rightarrow> image" where
  "finish v a b =
     (case nan_passthrough a b of
        Some out \<Rightarrow> out
      | None \<Rightarrow> if sf_cls v = SF_NAN then tf_default_nan else tf_out v)"

section \<open>Arithmetic\<close>

definition negtf2 :: "image \<Rightarrow> image" where
  "negtf2 a = a[15 := (a ! 15) XOR 0x80]"

definition cgf_abstf :: "image \<Rightarrow> image" where
  "cgf_abstf a = a[15 := (a ! 15) AND 0x7f]"

definition cgf_signbittf :: "image \<Rightarrow> int" where
  "cgf_signbittf a = uint (drop_bit 7 (a ! 15) AND 1)"

definition cgf_signbitxf :: "image \<Rightarrow> int" where
  "cgf_signbitxf a = uint (drop_bit 7 (a ! 9) AND 1)"

definition addtf3 :: "sf_status \<Rightarrow> image \<Rightarrow> image \<Rightarrow> image" where
  "addtf3 st a b = finish (fst (sf_add (tf_in a) (tf_in b) SF_BINARY128 st)) a b"

definition subtf3 :: "sf_status \<Rightarrow> image \<Rightarrow> image \<Rightarrow> image" where
  "subtf3 st a b = finish (fst (sf_sub (tf_in a) (tf_in b) SF_BINARY128 st)) a b"

definition multf3 :: "sf_status \<Rightarrow> image \<Rightarrow> image \<Rightarrow> image" where
  "multf3 st a b = finish (fst (sf_mul (tf_in a) (tf_in b) SF_BINARY128 st)) a b"

definition divtf3 :: "sf_status \<Rightarrow> image \<Rightarrow> image \<Rightarrow> image" where
  "divtf3 st a b = finish (fst (sf_div (tf_in a) (tf_in b) SF_BINARY128 st)) a b"

section \<open>Comparisons\<close>

definition cmp3 :: "image \<Rightarrow> image \<Rightarrow> int \<Rightarrow> int" where
  "cmp3 a b unordered_result =
     (let (r, unordered) = sf_cmp (tf_in a) (tf_in b)
      in if unordered then unordered_result else if r < 0 then - 1 else if r > 0 then 1 else 0)"

definition eqtf2 :: "image \<Rightarrow> image \<Rightarrow> int" where "eqtf2 a b = cmp3 a b 1"
definition netf2 :: "image \<Rightarrow> image \<Rightarrow> int" where "netf2 a b = cmp3 a b 1"
definition lttf2 :: "image \<Rightarrow> image \<Rightarrow> int" where "lttf2 a b = cmp3 a b 1"
definition letf2 :: "image \<Rightarrow> image \<Rightarrow> int" where "letf2 a b = cmp3 a b 1"
definition gttf2 :: "image \<Rightarrow> image \<Rightarrow> int" where "gttf2 a b = cmp3 a b (- 1)"
definition getf2 :: "image \<Rightarrow> image \<Rightarrow> int" where "getf2 a b = cmp3 a b (- 1)"

definition unordtf2 :: "image \<Rightarrow> image \<Rightarrow> int" where
  "unordtf2 a b = (let (_, unordered) = sf_cmp (tf_in a) (tf_in b) in if unordered then 1 else 0)"

section \<open>Conversions between formats\<close>

definition extenddftf2 :: "sf_status \<Rightarrow> u8 list \<Rightarrow> image" where
  "extenddftf2 st a = tf_out (fst (sf_convert (df_in a) SF_BINARY64 SF_BINARY128 st))"

definition extendsftf2 :: "sf_status \<Rightarrow> u8 list \<Rightarrow> image" where
  "extendsftf2 st a = tf_out (fst (sf_convert (sf_in a) SF_BINARY32 SF_BINARY128 st))"

definition trunctfdf2 :: "sf_status \<Rightarrow> image \<Rightarrow> u8 list" where
  "trunctfdf2 st a = take 8 (sf_to_bits (fst (sf_convert (tf_in a) SF_BINARY128 SF_BINARY64 st)) SF_BINARY64)"

definition trunctfsf2 :: "sf_status \<Rightarrow> image \<Rightarrow> u8 list" where
  "trunctfsf2 st a = take 4 (sf_to_bits (fst (sf_convert (tf_in a) SF_BINARY128 SF_BINARY32 st)) SF_BINARY32)"

section \<open>Conversions to integers\<close>

definition fix_saturating :: "image \<Rightarrow> int \<Rightarrow> bool \<Rightarrow> u64" where
  "fix_saturating a width is_unsigned =
     (let v = tf_in a; (r, st) = sf_to_int v width is_unsigned status_cleared
      in if \<not> invalid st then r
         else if sf_sign v \<and> sf_cls v \<noteq> SF_NAN then
           (if is_unsigned then 0
            else if width = 32 then ucast (- 2147483647 - 1 :: u32) else 0x8000000000000000)
         else if is_unsigned then (if width = 32 then 0xffffffff else 0xffffffffffffffff)
         else if width = 32 then 0x7fffffff else 0x7fffffffffffffff)"

text \<open>The C return type is the width and signedness at which the word is read.\<close>

definition fixtfsi :: "image \<Rightarrow> u32" where "fixtfsi a = ucast (fix_saturating a 32 False)"
definition fixtfdi :: "image \<Rightarrow> u64" where "fixtfdi a = fix_saturating a 64 False"
definition fixunstfsi :: "image \<Rightarrow> u32" where "fixunstfsi a = ucast (fix_saturating a 32 True)"
definition fixunstfdi :: "image \<Rightarrow> u64" where "fixunstfdi a = fix_saturating a 64 True"

section \<open>Conversions with 128-bit integers\<close>

definition ti_pair :: "u64 \<Rightarrow> u64 \<Rightarrow> ti" where
  "ti_pair lo hi = \<lparr>ti_lo = lo, ti_hi = hi\<rparr>"

definition ti_neg :: "ti \<Rightarrow> ti" where
  "ti_neg a =
     (let lo = NOT (ti_lo a) + 1
      in \<lparr>ti_lo = lo, ti_hi = NOT (ti_hi a) + (if lo = 0 then 1 else 0)\<rparr>)"

definition fix_ti :: "sf \<Rightarrow> bool \<Rightarrow> ti" where
  "fix_ti v is_unsigned =
     (let ((hi, lo), st) = sf_to_int128 v is_unsigned status_cleared
      in if \<not> invalid st then \<lparr>ti_lo = lo, ti_hi = hi\<rparr>
         else if sf_sign v \<and> sf_cls v \<noteq> SF_NAN then
           (if is_unsigned then ti_pair 0 0 else ti_pair 0 0x8000000000000000)
         else if is_unsigned then ti_pair (NOT 0) (NOT 0)
         else ti_pair (NOT 0) 0x7fffffffffffffff)"

definition from_ti :: "ti \<Rightarrow> bool \<Rightarrow> sf_format \<Rightarrow> sf" where
  "from_ti a is_unsigned f =
     (let negative = (\<not> is_unsigned \<and> drop_bit 63 (ti_hi a) \<noteq> 0);
          magnitude = (if negative then ti_neg a else a)
      in fst (sf_from_int128 (ti_hi magnitude) (ti_lo magnitude) negative f status_cleared))"

definition fixsfti :: "u8 list \<Rightarrow> ti" where "fixsfti a = fix_ti (sf_in a) False"
definition fixdfti :: "u8 list \<Rightarrow> ti" where "fixdfti a = fix_ti (df_in a) False"
definition fixtfti :: "image \<Rightarrow> ti" where "fixtfti a = fix_ti (tf_in a) False"
definition fixunssfti :: "u8 list \<Rightarrow> ti" where "fixunssfti a = fix_ti (sf_in a) True"
definition fixunsdfti :: "u8 list \<Rightarrow> ti" where "fixunsdfti a = fix_ti (df_in a) True"
definition fixunstfti :: "image \<Rightarrow> ti" where "fixunstfti a = fix_ti (tf_in a) True"
definition floattisf :: "ti \<Rightarrow> u8 list" where "floattisf a = sf_out (from_ti a False SF_BINARY32)"
definition floattidf :: "ti \<Rightarrow> u8 list" where "floattidf a = df_out (from_ti a False SF_BINARY64)"
definition floattitf :: "ti \<Rightarrow> image" where "floattitf a = tf_out (from_ti a False SF_BINARY128)"
definition floatuntisf :: "ti \<Rightarrow> u8 list" where "floatuntisf a = sf_out (from_ti a True SF_BINARY32)"
definition floatuntidf :: "ti \<Rightarrow> u8 list" where "floatuntidf a = df_out (from_ti a True SF_BINARY64)"
definition floatuntitf :: "ti \<Rightarrow> image" where "floatuntitf a = tf_out (from_ti a True SF_BINARY128)"
definition fixxfti :: "image \<Rightarrow> ti" where "fixxfti a = fix_ti (xf_in a) False"
definition fixunsxfti :: "image \<Rightarrow> ti" where "fixunsxfti a = fix_ti (xf_in a) True"
definition floattixf :: "ti \<Rightarrow> image" where "floattixf a = xf_out (from_ti a False SF_X87_80)"
definition floatuntixf :: "ti \<Rightarrow> image" where "floatuntixf a = xf_out (from_ti a True SF_X87_80)"

text \<open>\<open>long long\<close> arguments are 64-bit words read as signed; \<open>int\<close> sign-extends to them.\<close>

definition from_signed :: "sf_status \<Rightarrow> u64 \<Rightarrow> image" where
  "from_signed st a =
     (let mag = (if sint a < 0 then 0 - a else a)
      in tf_out (fst (sf_from_int mag (sint a < 0) SF_BINARY128 st)))"

definition floatsitf :: "sf_status \<Rightarrow> u32 \<Rightarrow> image" where "floatsitf st a = from_signed st (scast a)"
definition floatditf :: "sf_status \<Rightarrow> u64 \<Rightarrow> image" where "floatditf st a = from_signed st a"

definition floatunsitf :: "sf_status \<Rightarrow> u32 \<Rightarrow> image" where
  "floatunsitf st a = tf_out (fst (sf_from_int (ucast a) False SF_BINARY128 st))"

definition floatunditf :: "sf_status \<Rightarrow> u64 \<Rightarrow> image" where
  "floatunditf st a = tf_out (fst (sf_from_int a False SF_BINARY128 st))"

section \<open>Results are canonical carriers\<close>

lemma formats_in [simp]:
  "SF_BINARY16 \<in> sf_formats" "SF_BINARY32 \<in> sf_formats" "SF_BINARY64 \<in> sf_formats"
  "SF_X87_80 \<in> sf_formats" "SF_BINARY128 \<in> sf_formats"
  by (simp_all add: sf_formats_def)

lemma round_finish_clean: "sf_clean (fst (round_finish f sign hi lo ex rb s st))"
  by (simp add: round_finish_def Let_def split_beta sf_clean_def sf_cleared_def)

lemma round_pack_clean: "sf_clean (fst (round_pack sign hi lo ex sticky f st))"
  unfolding round_pack_def Let_def split_beta
  by (simp add: round_finish_clean) (simp add: sf_clean_def sf_cleared_def)

lemma cleared_clean [simp]:
  "sf_clean sf_cleared" "sf_clean (sf_cleared\<lparr>sf_cls := c\<rparr>)" "sf_clean (sf_cleared\<lparr>sf_cls := c, sf_sign := s\<rparr>)"
  by (simp_all add: sf_clean_def sf_cleared_def)

lemma add_aligned_clean: "sf_clean (fst (add_aligned a b f st))"
  by (simp add: add_aligned_def round_pack_clean Let_def split: prod.splits)

lemma sf_add_clean: "sf_clean a \<Longrightarrow> sf_clean b \<Longrightarrow> sf_clean (fst (sf_add a b f st))"
  by (simp add: sf_add_def add_aligned_clean make_nan_def round_pack_clean)

lemma sf_mul_clean: "sf_clean (fst (sf_mul a b f st))"
  by (simp add: sf_mul_def make_nan_def round_pack_clean Let_def split: prod.splits)

lemma sf_div_clean: "sf_clean (fst (sf_div a b f st))"
  by (simp add: sf_div_def make_nan_def round_pack_clean Let_def split: prod.splits)

lemma sf_from_bits_clean: "f \<in> sf_formats \<Longrightarrow> sf_clean (sf_from_bits img f)"
  using sf_from_bits_fields(1) [of f img] by (metis surj_pair)

lemma tf_in_props [simp]: "sf_clean (tf_in a)" "sf_canonical SF_BINARY128 (tf_in a)" "sf_operand (tf_in a)"
  using sf_from_bits_clean [of SF_BINARY128 a] sf_from_bits_canonical [of SF_BINARY128 a]
    canonical_operand [of SF_BINARY128 "tf_in a"]
  by (simp_all add: tf_in_def)

lemma tf_in_out: "sf_canonical SF_BINARY128 v \<Longrightarrow> sf_clean v \<Longrightarrow> tf_in (tf_out v) = v"
  by (simp add: tf_in_def tf_out_def sf_from_to_bits)

lemma sf_add_canonical:
  assumes f: "f \<in> sf_formats" and a: "sf_canonical f a" and b: "sf_canonical f b"
  shows "sf_canonical f (fst (sf_add a b f st))"
proof (cases "sf_finite a \<and> sf_finite b")
  case True
  have op: "sf_operand a" "sf_operand b" using canonical_operand [OF f] a b by blast+
  note s = sf_add_finite [OF f op(1) conjunct1 [OF True] op(2) conjunct2 [OF True]]
  show ?thesis
  proof (cases "sf_val a + sf_val b = 0")
    case True
    from s(1) [OF this] show ?thesis by (simp add: sum_zero_def sf_canonical_def sf_cleared_def)
  next
    case False
    from s(2) [OF this] show ?thesis by (simp add: rounds_to_def)
  qed
next
  case False
  with a b show ?thesis
    by (cases "sf_cls a"; cases "sf_cls b")
      (auto simp: sf_add_def sf_finite_def sf_canonical_def make_nan_def sf_cleared_def)
qed

lemma sf_mul_canonical:
  assumes f: "f \<in> sf_formats" and a: "sf_canonical f a" and b: "sf_canonical f b"
  shows "sf_canonical f (fst (sf_mul a b f st))"
proof (cases "sf_cls a = SF_NORMAL \<and> sf_cls b = SF_NORMAL")
  case True
  have "sf_operand a" "sf_operand b" using canonical_operand [OF f] a b by blast+
  with sf_mul_rounds [OF f] True show ?thesis by (simp add: rounds_to_def)
next
  case False
  then show ?thesis
    by (cases "sf_cls a"; cases "sf_cls b")
      (simp_all add: sf_mul_def sf_canonical_def make_nan_def sf_cleared_def)
qed

lemma sf_div_canonical:
  assumes f: "f \<in> sf_formats" and a: "sf_canonical f a" and b: "sf_canonical f b"
  shows "sf_canonical f (fst (sf_div a b f st))"
proof (cases "sf_cls a = SF_NORMAL \<and> sf_cls b = SF_NORMAL")
  case True
  have "sf_operand a" "sf_operand b" using canonical_operand [OF f] a b by blast+
  with sf_div_rounds [OF f] True show ?thesis by (simp add: rounds_to_def)
next
  case False
  then show ?thesis
    by (cases "sf_cls a"; cases "sf_cls b")
      (simp_all add: sf_div_def sf_canonical_def make_nan_def sf_cleared_def)
qed

section \<open>The NaN test on raw bytes agrees with the decoder\<close>

lemma exponent_all_ones:
  "get_exponent img f = push_bit (nat (exp_bits f)) 1 - 1
    \<longleftrightarrow> (\<forall>k < nat (exp_bits f). image_bit img (nat (frac_bits f) + k))"
proof -
  have m: "push_bit n 1 - 1 = (mask n :: int)" for n by (simp add: mask_eq_exp_minus_1 push_bit_eq_mult)
  show ?thesis unfolding m bit_eq_iff bit_get_exponent bit_mask_iff by auto
qed

lemma image_frac_zero:
  assumes f: "f \<in> sf_formats" and eq: "image_frac img f = (h, l)"
  shows "h OR l = 0 \<longleftrightarrow> (\<forall>k < nat (frac_bits f). \<not> image_bit img k)"
proof -
  note lay = format_layout [OF f]
  have inb: "int (k div 8) < total_bytes f" if "int k < frac_bits f" for k
    using that lay(2,5) by linarith
  have lo: "bit l k \<longleftrightarrow> image_bit img k \<and> int k < frac_bits f" if "k < 64" for k
    using bit_mask_fraction(2) [OF f that, of "get_limb img [8..<16] 8 (total_bytes f)"
        "get_limb img [0..<8] 0 (total_bytes f)"] bit_get_limb [OF that, of img 0 "total_bytes f"] inb [of k]
    unfolding eq snd_conv by auto
  have hi: "bit h k \<longleftrightarrow> image_bit img (k + 64) \<and> int k + 64 < frac_bits f" if "k < 64" for k
    using bit_mask_fraction(1) [OF f that, of "get_limb img [8..<16] 8 (total_bytes f)"
        "get_limb img [0..<8] 0 (total_bytes f)"] bit_get_limb [OF that, of img 8 "total_bytes f"] inb [of "k + 64"]
    unfolding eq fst_conv by auto
  have z: "w = 0 \<longleftrightarrow> (\<forall>k < 64. \<not> bit w k)" for w :: u64
    by (auto intro: bit_word_eqI)
  have "h OR l = 0 \<longleftrightarrow> (\<forall>k < 64. \<not> bit l k) \<and> (\<forall>k < 64. \<not> bit h k)"
    unfolding z bit_or_iff by auto
  also have "\<dots> \<longleftrightarrow> (\<forall>k < nat (frac_bits f). \<not> image_bit img k)"
  proof (intro iffI conjI allI impI)
    fix k assume a: "(\<forall>k < 64. \<not> bit l k) \<and> (\<forall>k < 64. \<not> bit h k)" and k: "k < nat (frac_bits f)"
    have "k < 64 \<or> (k - 64 < 64 \<and> k = (k - 64) + 64)" using k lay(4) by linarith
    then show "\<not> image_bit img k"
      using a lo [of k] hi [of "k - 64"] k by auto
  qed (use lo hi in auto)
  finally show ?thesis .
qed

lemma sf_from_bits_nan:
  assumes f: "f \<in> sf_formats" and x: "\<not> explicit_intbit f"
  shows "sf_cls (sf_from_bits img f) = SF_NAN \<longleftrightarrow>
    (\<forall>k < nat (exp_bits f). image_bit img (nat (frac_bits f) + k)) \<and> (\<exists>k < nat (frac_bits f). image_bit img k)"
proof -
  obtain h l where eq: "image_frac img f = (h, l)" by fastforce
  have "sf_cls (sf_from_bits img f) = SF_NAN \<longleftrightarrow>
      get_exponent img f = push_bit (nat (exp_bits f)) 1 - 1 \<and> h OR l \<noteq> 0"
    unfolding sf_from_bits_def Let_def eq prod.case using x by (auto simp: split_beta)
  then show ?thesis unfolding exponent_all_ones image_frac_zero [OF f eq] by simp
qed

lemma binary128_fields:
  "exp_bits SF_BINARY128 = 15" "frac_bits SF_BINARY128 = 112" "\<not> explicit_intbit SF_BINARY128"
  "total_bytes SF_BINARY128 = 16"
  by (simp_all add: SF_BINARY128_def)

lemma u8_zero_bits: "(w :: u8) = 0 \<longleftrightarrow> (\<forall>k < 8. \<not> bit w k)"
  by (auto intro: bit_word_eqI)

lemma bits_are_nan_correct:
  assumes "length a = 16"
  shows "bits_are_nan a \<longleftrightarrow> sf_cls (tf_in a) = SF_NAN"
proof -
  define ex where "ex = push_bit 8 (ucast (a ! 15) AND 0x7f :: u32) OR ucast (a ! 14)"
  have m: "(0x7f :: u32) = mask 7" "(0x7fff :: u32) = mask 15" by (simp_all add: mask_eq_exp_minus_1)
  have b: "bit ex k \<longleftrightarrow> k < 15 \<and> image_bit a (112 + k)" for k
  proof -
    have "bit ex k \<longleftrightarrow> (8 \<le> k \<and> k < 15 \<and> bit (a ! 15) (k - 8)) \<or> (k < 8 \<and> bit (a ! 14) k)"
      unfolding ex_def m using bit_imp_le_length [of "a ! 14" k] by (auto simp: bit_simps)
    moreover have "(112 + k) div 8 = 14 + k div 8" "(112 + k) mod 8 = k mod 8"
      using div_mult_self3 [of 8 14 k] mod_mult_self3 [of 14 8 k] by simp_all
    moreover have "k div 8 = 1 \<and> k mod 8 = k - 8" if "8 \<le> k" "k < 15"
      using that by (auto simp: mod_if div_nat_eqI)
    ultimately show ?thesis by (cases "k < 8") (auto simp: image_bit_def not_less)
  qed
  have "ex = 0x7fff \<longleftrightarrow> (\<forall>k < 15. image_bit a (112 + k))"
  proof
    assume "ex = 0x7fff"
    then have "bit ex k" if "k < 15" for k using that by (simp add: m bit_mask_iff)
    then show "\<forall>k < 15. image_bit a (112 + k)" unfolding b by blast
  next
    assume "\<forall>k < 15. image_bit a (112 + k)"
    then show "ex = 0x7fff" unfolding m by (intro bit_word_eqI) (auto simp: b bit_mask_iff)
  qed
  moreover have "list_ex (\<lambda>i. a ! i \<noteq> 0) [0..<14] \<longleftrightarrow> (\<exists>k < 112. image_bit a k)"
  proof -
    have "list_ex (\<lambda>i. a ! i \<noteq> 0) [0..<14] \<longleftrightarrow> (\<exists>i < 14. \<exists>j < 8. bit (a ! i) j)"
      unfolding list_ex_iff u8_zero_bits by auto
    also have "\<dots> \<longleftrightarrow> (\<exists>k < 112. image_bit a k)"
    proof
      assume "\<exists>i < 14. \<exists>j < 8. bit (a ! i) j"
      then obtain i j where "i < 14" "j < 8" "bit (a ! i) j" by blast
      then show "\<exists>k < 112. image_bit a k" by (intro exI [of _ "8 * i + j"]) (simp add: image_bit_def)
    next
      assume "\<exists>k < 112. image_bit a k"
      then obtain k where "k < 112" "bit (a ! (k div 8)) (k mod 8)" by (auto simp: image_bit_def)
      then show "\<exists>i < 14. \<exists>j < 8. bit (a ! i) j"
        by (intro exI [of _ "k div 8"] conjI exI [of _ "k mod 8"]) simp_all
    qed
    finally show ?thesis .
  qed
  moreover have "sf_cls (tf_in a) = SF_NAN \<longleftrightarrow> (\<forall>k < 15. image_bit a (112 + k)) \<and> (\<exists>k < 112. image_bit a k)"
    using sf_from_bits_nan [of SF_BINARY128 a] unfolding tf_in_def by (simp add: binary128_fields)
  ultimately show ?thesis
    unfolding bits_are_nan_def Let_def ex_def [symmetric] by simp
qed

text \<open>Without NaN operands the carrier returned decodes to what the core computed.\<close>

lemma tf_default_nan_class: "sf_cls (tf_in tf_default_nan) = SF_NAN"
  by (simp add: bits_are_nan_correct [symmetric] tf_default_nan_def) code_simp

lemma finish_value:
  assumes len: "length a = 16" "length b = 16" and n: "sf_cls (tf_in a) \<noteq> SF_NAN" "sf_cls (tf_in b) \<noteq> SF_NAN"
    and v: "sf_canonical SF_BINARY128 v" "sf_clean v"
  shows "sf_cls v \<noteq> SF_NAN \<Longrightarrow> tf_in (finish v a b) = v"
    and "sf_cls v = SF_NAN \<Longrightarrow> finish v a b = tf_default_nan"
  using n v by (simp_all add: finish_def nan_passthrough_def bits_are_nan_correct len tf_in_out)

section \<open>Exact results\<close>

lemma format_mag_lt: "format_mag p emin emax v \<Longrightarrow> 2 \<le> p \<Longrightarrow> v < 2 powi (emax + 1)"
proof -
  assume "format_mag p emin emax v" and p: "2 \<le> p"
  then obtain m e where v: "v = real m * 2 powi e" "m < 2 ^ nat p" "e \<le> emax - (p - 1)"
    by (auto simp: format_mag_def)
  have "real m < 2 ^ nat p" using v(2) by (metis of_nat_less_iff of_nat_numeral of_nat_power)
  then have "v < 2 ^ nat p * 2 powi e" by (simp add: v(1))
  also have "\<dots> = 2 powi (p + e)" using p by (simp add: powi2_add power_int_nonneg_exp)
  also have "\<dots> \<le> 2 powi (emax + 1)" using v(3) by simp
  finally show ?thesis .
qed

lemma rounds_to_exact:
  assumes f: "f \<in> sf_formats" and v: "0 < v" "format_mag (prec_of f) (emin_of f) (emax_of f) v"
    and r: "rounds_to f s v st res"
  shows "sf_cls (fst res) = SF_NORMAL" "sf_sign (fst res) = s" "sf_mag (fst res) = v"
    "sf_canonical f (fst res)"
proof -
  have un: "unbounded_mag (prec_of f) (emin_of f) v"
    using v(2) by (auto simp: unbounded_mag_def format_mag_def)
  have ex: "sf_ieee f v = v"
    by (rule binary_format.round_exact [OF format_binary_format [OF f] v(1) un])
  have no: "\<not> sf_overflows f v"
    unfolding sf_overflows_def ex using format_mag_lt [OF v(2) format_geometry(1) [OF f]] by simp
  show can: "sf_canonical f (fst res)" using r by (simp add: rounds_to_def)
  have val: "sf_val (fst res) = (if s then - v else v)" using r no ex by (simp add: rounds_to_def)
  then show n: "sf_cls (fst res) = SF_NORMAL" using v(1) by (auto simp: sf_val_def split: if_splits)
  have "0 < sf_mag (fst res)"
    using sf_mag_pos [OF canonical_operand [OF f can] n] .
  with val n v(1) show "sf_sign (fst res) = s" "sf_mag (fst res) = v"
    by (auto simp: sf_val_def split: if_splits)
qed

text \<open>A canonical number is determined by its class, sign and magnitude.\<close>

lemma canonical_mag_unique:
  assumes f: "f \<in> sf_formats" and a: "sf_canonical f a" "sf_cls a = SF_NORMAL"
    and b: "sf_canonical f b" "sf_cls b = SF_NORMAL" and eq: "sf_mag a = sf_mag b" "sf_sign a = sf_sign b"
  shows "a = b"
proof -
  let ?p = "prec_of f" and ?el = "emin_of f - (prec_of f - 1)"
  note bf = format_binary_format [OF f] and g = format_geometry [OF f]
  have u: "sf_exp x = ulp_exp ?p (emin_of f) (sf_mag x)" if x: "sf_canonical f x" "sf_cls x = SF_NORMAL" for x
  proof -
    have s: "0 < sf_sig x" "sf_sig x < 2 ^ nat ?p" "?el \<le> sf_exp x" "sf_exp x \<noteq> ?el \<longrightarrow> 2 ^ nat (?p - 1) \<le> sf_sig x"
      using x by (auto simp: sf_canonical_def Let_def)
    have up: "real (sf_sig x) < 2 ^ nat ?p" using s(2) by (metis of_nat_less_iff of_nat_numeral of_nat_power)
    have lo: "2 ^ nat (?p - 1) \<le> real (sf_sig x)" if "sf_exp x \<noteq> ?el"
      using s(4) that by (metis of_nat_le_iff of_nat_numeral of_nat_power)
    have "ulp_exp ?p (emin_of f) (sf_mag x) = sf_exp x"
    proof (rule binary_format.ulp_exp_eqI [OF bf])
      show "0 < sf_mag x" using s(1) by (simp add: sf_mag_def)
      show "sf_mag x < 2 powi (sf_exp x + ?p)"
        using up g(1) by (simp add: sf_mag_def powi2_add power_int_nonneg_exp mult.commute)
      show "2 powi (sf_exp x + (?p - 1)) \<le> sf_mag x" if "sf_exp x \<noteq> ?el"
        using lo [OF that] g(1) powi2_add [of "sf_exp x" "?p - 1"]
        by (simp add: sf_mag_def power_int_nonneg_exp mult.commute)
    qed (rule s(3))
    then show ?thesis by simp
  qed
  have e: "sf_exp a = sf_exp b" using u [OF a] u [OF b] eq by simp
  then have "real (sf_sig a) = real (sf_sig b)" using eq(1) by (simp add: sf_mag_def)
  then have "sf_hi a = sf_hi b" "sf_lo a = sf_lo b" by (simp_all add: u128v_inject)
  with e eq(2) a(2) b(2) show ?thesis by simp
qed

lemma canonical_format_mag:
  assumes "sf_canonical f a" "sf_cls a = SF_NORMAL"
  shows "format_mag (prec_of f) (emin_of f) (emax_of f) (sf_mag a)"
  using assms by (auto simp: sf_canonical_def format_mag_def sf_mag_def Let_def)

lemma sf_convert_exact:
  assumes t: "to \<in> sf_formats" and a: "sf_operand a" "sf_cls a = SF_NORMAL"
    and m: "format_mag (prec_of to) (emin_of to) (emax_of to) (sf_mag a)"
  shows "sf_cls (fst (sf_convert a from to st)) = SF_NORMAL"
    "sf_sign (fst (sf_convert a from to st)) = sf_sign a" "sf_mag (fst (sf_convert a from to st)) = sf_mag a"
    "sf_canonical to (fst (sf_convert a from to st))"
  using rounds_to_exact [OF t sf_mag_pos [OF a] m sf_convert_rounds [OF t a]] by auto

lemma sf_convert_clean: "sf_clean a \<Longrightarrow> sf_clean (fst (sf_convert a from to st))"
  by (simp add: sf_convert_def round_pack_clean)

lemma sf_convert_canonical:
  assumes "to \<in> sf_formats" "sf_operand a"
  shows "sf_canonical to (fst (sf_convert a from to st))"
  using sf_convert_rounds [OF assms(1,2)]
  by (cases "sf_cls a = SF_NORMAL") (auto simp: rounds_to_def sf_convert_def sf_canonical_def)

text \<open>Widening to binary128 and back is the identity on canonical numbers.\<close>

lemma binary128_wider:
  assumes "f \<in> {SF_BINARY16, SF_BINARY32, SF_BINARY64, SF_X87_80}" "sf_canonical f a" "sf_cls a = SF_NORMAL"
  shows "format_mag (prec_of SF_BINARY128) (emin_of SF_BINARY128) (emax_of SF_BINARY128) (sf_mag a)"
proof -
  have le: "prec_of f \<le> prec_of SF_BINARY128" "emin_of SF_BINARY128 - (prec_of SF_BINARY128 - 1) \<le> emin_of f - (prec_of f - 1)"
    "0 \<le> prec_of f"
    using assms(1) by (auto simp: format_defs geometry_defs)
  define k where "k = nat (prec_of SF_BINARY128 - prec_of f)"
  let ?n = "sf_sig a" and ?e = "sf_exp a"
  have n: "?n < 2 ^ nat (prec_of f)" "emin_of f - (prec_of f - 1) \<le> ?e" "?e \<le> emax_of f - (prec_of f - 1)"
    using assms(2,3) by (auto simp: sf_canonical_def Let_def)
  have "?n * 2 ^ k < 2 ^ nat (prec_of f) * 2 ^ k" using n(1) by simp
  also have "\<dots> = 2 ^ nat (prec_of SF_BINARY128)"
    using le by (simp add: k_def nat_add_distrib [symmetric] flip: power_add)
  finally have m: "?n * 2 ^ k < 2 ^ nat (prec_of SF_BINARY128)" .
  have v: "sf_mag a = real (?n * 2 ^ k) * 2 powi (?e - int k)"
    by (simp add: sf_mag_def powi2_diff_nat)
  have "emin_of SF_BINARY128 - (prec_of SF_BINARY128 - 1) \<le> ?e - int k" "?e - int k \<le> emax_of SF_BINARY128 - (prec_of SF_BINARY128 - 1)"
    using n(2,3) assms(1) by (auto simp: k_def format_defs geometry_defs)
  with v m show ?thesis unfolding format_mag_def by blast
qed

lemma widen_narrow:
  assumes f: "f \<in> {SF_BINARY16, SF_BINARY32, SF_BINARY64, SF_X87_80}" and a: "sf_canonical f a" "sf_clean a"
  shows "fst (sf_convert (fst (sf_convert a f SF_BINARY128 st)) SF_BINARY128 f st') = a"
proof (cases "sf_cls a = SF_NORMAL")
  case True
  have fm: "f \<in> sf_formats" using f by auto
  let ?w = "fst (sf_convert a f SF_BINARY128 st)"
  note w = sf_convert_exact [OF formats_in(5) canonical_operand [OF fm a(1)] True binary128_wider [OF f a(1) True], of f st]
  have ow: "sf_operand ?w" by (rule canonical_operand [OF formats_in(5) w(4)])
  have "format_mag (prec_of f) (emin_of f) (emax_of f) (sf_mag ?w)"
    unfolding w(3) by (rule canonical_format_mag [OF a(1) True])
  note n = sf_convert_exact [OF fm ow w(1) this, of SF_BINARY128 st']
  show ?thesis
    using n w True a by (intro canonical_mag_unique [OF fm]) simp_all
qed (simp add: sf_convert_def)

section \<open>Narrow carriers\<close>

lemma zero_extended_length [simp]: "length d = n \<Longrightarrow> n \<le> 16 \<Longrightarrow> length (zero_extended n d) = 16"
  by (simp add: zero_extended_def)

lemma zero_extended_bit:
  assumes "length d = n" "n \<le> 16" "8 * n \<le> k" "k < 128"
  shows "\<not> image_bit (zero_extended n d) k"
proof -
  have "n \<le> k div 8" "k div 8 < 16" using assms by linarith+
  then show ?thesis using assms by (simp add: image_bit_def zero_extended_def nth_append)
qed

lemma narrow_image:
  assumes f: "f \<in> sf_formats" "\<not> explicit_intbit f" and n: "length d = n" "int n = total_bytes f" "n \<le> 16"
    and nan: "sf_cls (sf_from_bits (zero_extended n d) f) \<noteq> SF_NAN"
  shows "take n (sf_to_bits (sf_from_bits (zero_extended n d) f) f) = d"
proof -
  have "sf_to_bits (sf_from_bits (zero_extended n d) f) f = zero_extended n d"
  proof (rule sf_to_from_bits [OF f _ _ nan])
    show "length (zero_extended n d) = 16" using n by simp
    show "\<not> image_bit (zero_extended n d) k" if "8 * total_bytes f \<le> int k" "k < 128" for k
      using zero_extended_bit [OF n(1,3), of k] that n(2) by simp
  qed
  then show ?thesis using n by (simp add: zero_extended_def)
qed

lemma to_bits_padding:
  assumes f: "f \<in> sf_formats" and n: "int n = total_bytes f" "n \<le> 16"
  shows "zero_extended n (take n (sf_to_bits a f)) = sf_to_bits a f"
proof (rule nth_equalityI)
  obtain h l e where fields: "bits_fields a f = (h, l, e)" by (metis prod_cases3)
  note ib = image_bit_to_bits [OF f _ fields] and lay = format_layout [OF f]
  have len: "length (sf_to_bits a f) = 16" using ib(2) [of 0] by simp
  then show "length (zero_extended n (take n (sf_to_bits a f))) = length (sf_to_bits a f)"
    using n by (simp add: zero_extended_def)
  fix i assume "i < length (zero_extended n (take n (sf_to_bits a f)))"
  then have i: "i < 16" using n len by (simp add: zero_extended_def)
  show "zero_extended n (take n (sf_to_bits a f)) ! i = sf_to_bits a f ! i"
  proof (cases "i < n")
    case True
    then show ?thesis using len n by (simp add: zero_extended_def nth_append)
  next
    case False
    have "\<not> bit (sf_to_bits a f ! i) j" if "j < 8" for j
    proof -
      have k: "(8 * i + j) div 8 = i" "(8 * i + j) mod 8 = j" "8 * i + j < 128" using that i by simp_all
      have "\<not> int i < total_bytes f" "frac_bits f + exp_bits f < int (8 * i + j)"
        using False n(1) lay(5) by linarith+
      then have "\<not> image_bit (sf_to_bits a f) (8 * i + j)"
        unfolding ib(1) [OF k(3)] k(1) by linarith
      then show ?thesis unfolding image_bit_def k .
    qed
    then have "sf_to_bits a f ! i = 0" unfolding u8_zero_bits by blast
    then show ?thesis using False len n i by (simp add: zero_extended_def nth_append)
  qed
qed

section \<open>Saturating conversions\<close>

text \<open>Truncation toward zero clamped to a range; a NaN goes to the maximum.\<close>

definition sf_saturate :: "int \<Rightarrow> int \<Rightarrow> sf \<Rightarrow> int" where
  "sf_saturate lo hi v =
     (case sf_cls v of
        SF_ZERO \<Rightarrow> 0
      | SF_NORMAL \<Rightarrow> max lo (min hi (sf_int v))
      | SF_INF \<Rightarrow> if sf_sign v then lo else hi
      | SF_NAN \<Rightarrow> hi)"

definition int_lo :: "int \<Rightarrow> bool \<Rightarrow> int" where
  "int_lo w u = (if u then 0 else - (2 ^ nat (w - 1)))"

definition int_hi :: "int \<Rightarrow> bool \<Rightarrow> int" where
  "int_hi w u = (if u then 2 ^ nat w - 1 else 2 ^ nat (w - 1) - 1)"

lemma int_in_range_iff: "int_in_range w u z \<longleftrightarrow> int_lo w u \<le> z \<and> z \<le> int_hi w u"
  by (auto simp: int_in_range_def int_lo_def int_hi_def)

lemma sf_int_sign: "sf_sign v \<Longrightarrow> sf_int v \<le> 0" "\<not> sf_sign v \<Longrightarrow> 0 \<le> sf_int v"
  by (simp_all add: sf_int_def)

lemma out_of_range_saturates:
  assumes "sf_cls v = SF_NORMAL" "\<not> int_in_range w u (sf_int v)" "int_lo w u \<le> 0" "0 \<le> int_hi w u"
  shows "sf_saturate (int_lo w u) (int_hi w u) v = (if sf_sign v then int_lo w u else int_hi w u)"
  using assms sf_int_sign [of v] by (auto simp: sf_saturate_def int_in_range_iff)

lemma fix_saturating_value:
  assumes w: "w = 32 \<or> w = 64"
  shows "uint (fix_saturating a w u) = sf_saturate (int_lo w u) (int_hi w u) (tf_in a) mod 2 ^ nat w"
proof -
  define v where "v = tf_in a"
  have lh: "int_lo w u \<le> 0" "0 \<le> int_hi w u" by (simp_all add: int_lo_def int_hi_def)
  have w1: "1 \<le> w" "w \<le> 64" using w by auto
  obtain r st where rs: "sf_to_int v w u status_cleared = (r, st)" by fastforce
  define sat where "sat = (if sf_sign v \<and> sf_cls v \<noteq> SF_NAN then
           (if u then 0 else if w = 32 then ucast (- 2147483647 - 1 :: u32) else 0x8000000000000000)
         else if u then (if w = 32 then 0xffffffff else 0xffffffffffffffff)
         else if w = 32 then 0x7fffffff else 0x7fffffffffffffff :: u64)"
  have d: "fix_saturating a w u = (if \<not> invalid st then r else sat)"
    by (simp add: fix_saturating_def v_def [symmetric] rs sat_def)
  have sat: "uint sat = (if sf_sign v \<and> sf_cls v \<noteq> SF_NAN then int_lo w u else int_hi w u) mod 2 ^ nat w"
    using w by (auto simp: sat_def int_lo_def int_hi_def)
  show ?thesis
  proof (cases "sf_cls v = SF_NORMAL")
    case True
    have ov: "sf_operand v" by (simp add: v_def)
    note c = sf_to_int_correct [OF ov True w1, of u status_cleared, unfolded rs]
    show ?thesis
    proof (cases "int_in_range w u (sf_int v)")
      case True
      then have "uint r = sf_int v mod 2 ^ nat w" "\<not> invalid st"
        using c(1) by (simp_all add: status_cleared_def)
      moreover have "sf_saturate (int_lo w u) (int_hi w u) v = sf_int v"
        using True \<open>sf_cls v = SF_NORMAL\<close> by (simp add: sf_saturate_def int_in_range_iff)
      ultimately show ?thesis by (simp add: d v_def)
    next
      case False
      then have "invalid st" using c(2) by simp
      then show ?thesis
        using sat out_of_range_saturates [OF True False lh] True by (simp add: d v_def)
    qed
  next
    case False
    then show ?thesis
      using rs w1 sat
      by (cases "sf_cls v") (auto simp: d sf_to_int_def sf_saturate_def v_def [symmetric] status_cleared_def)
  qed
qed

lemma sint_of_mod:
  fixes w :: "'a::len word"
  assumes "uint w = z mod 2 ^ LENGTH('a)" "- (2 ^ (LENGTH('a) - 1)) \<le> z" "z < 2 ^ (LENGTH('a) - 1)"
  shows "sint w = z"
proof -
  have "w = word_of_int z" using assms(1) by (intro word_uint_eqI) (simp add: unsigned_of_int take_bit_eq_mod)
  then have "sint w = signed_take_bit (LENGTH('a) - Suc 0) z" by (simp add: sint_sbintrunc')
  then show ?thesis using assms(2,3) by (simp add: signed_take_bit_int_eq_self)
qed

lemma sf_saturate_bounds:
  "lo \<le> 0 \<Longrightarrow> 0 \<le> hi \<Longrightarrow> lo \<le> sf_saturate lo hi v \<and> sf_saturate lo hi v \<le> hi"
  by (auto simp: sf_saturate_def split: sf_class.splits)

lemma uint_ucast32: "uint (ucast w :: u32) = uint (w :: u64) mod 2 ^ 32"
  by (simp add: unsigned_ucast_eq take_bit_eq_mod)

lemma fix_signed_value:
  "sint (fixtfsi a) = sf_saturate (- (2 ^ 31)) (2 ^ 31 - 1) (tf_in a)"
  "sint (fixtfdi a) = sf_saturate (- (2 ^ 63)) (2 ^ 63 - 1) (tf_in a)"
proof -
  have b: "- (2 ^ n) \<le> sf_saturate (- (2 ^ n)) (2 ^ n - 1) v" "sf_saturate (- (2 ^ n)) (2 ^ n - 1) v < 2 ^ n" for n v
    using sf_saturate_bounds [of "- (2 ^ n)" "2 ^ n - 1" v] by simp_all
  show "sint (fixtfsi a) = sf_saturate (- (2 ^ 31)) (2 ^ 31 - 1) (tf_in a)"
    using b [of 31 "tf_in a"] fix_saturating_value [of 32 a False]
    by (intro sint_of_mod) (simp_all add: fixtfsi_def uint_ucast32 int_lo_def int_hi_def)
  show "sint (fixtfdi a) = sf_saturate (- (2 ^ 63)) (2 ^ 63 - 1) (tf_in a)"
    using b [of 63 "tf_in a"] fix_saturating_value [of 64 a False]
    by (intro sint_of_mod) (simp_all add: fixtfdi_def int_lo_def int_hi_def)
qed

lemma fix_unsigned_value:
  "uint (fixunstfsi a) = sf_saturate 0 (2 ^ 32 - 1) (tf_in a)"
  "uint (fixunstfdi a) = sf_saturate 0 (2 ^ 64 - 1) (tf_in a)"
  using fix_saturating_value [of 32 a True] fix_saturating_value [of 64 a True]
    sf_saturate_bounds [of 0 "2 ^ 32 - 1" "tf_in a"] sf_saturate_bounds [of 0 "2 ^ 64 - 1" "tf_in a"]
  by (simp_all add: fixunstfsi_def fixunstfdi_def uint_ucast32 int_lo_def int_hi_def)

lemma fix_ti_value:
  assumes v: "sf_operand v"
  shows "int (ti_val (fix_ti v u)) = sf_saturate (int_lo 128 u) (int_hi 128 u) v mod 2 ^ 128"
proof -
  have lh: "int_lo 128 u \<le> 0" "0 \<le> int_hi 128 u" by (simp_all add: int_lo_def int_hi_def)
  obtain hi lo st where rs: "sf_to_int128 v u status_cleared = ((hi, lo), st)" by (metis surj_pair)
  define sat where "sat = (if sf_sign v \<and> sf_cls v \<noteq> SF_NAN then
           (if u then ti_pair 0 0 else ti_pair 0 0x8000000000000000)
         else if u then ti_pair (NOT 0) (NOT 0)
         else ti_pair (NOT 0) 0x7fffffffffffffff)"
  have d: "fix_ti v u = (if \<not> invalid st then \<lparr>ti_lo = lo, ti_hi = hi\<rparr> else sat)"
    by (simp add: fix_ti_def rs sat_def)
  have sat: "int (ti_val sat) = (if sf_sign v \<and> sf_cls v \<noteq> SF_NAN then int_lo 128 u else int_hi 128 u) mod 2 ^ 128"
    by (simp add: sat_def int_lo_def int_hi_def ti_val_def ti_pair_def u128v_def unsigned_minus_1_eq_mask mask_eq_exp_minus_1)
  show ?thesis
  proof (cases "sf_cls v = SF_NORMAL")
    case True
    note c = sf_to_int128_correct [OF v True, of u status_cleared, unfolded rs]
    show ?thesis
    proof (cases "int_in_range 128 u (sf_int v)")
      case True
      then have "int (u128v hi lo) = sf_int v mod 2 ^ 128" "\<not> invalid st"
        using c(1) by (simp_all add: status_cleared_def)
      moreover have "sf_saturate (int_lo 128 u) (int_hi 128 u) v = sf_int v"
        using True \<open>sf_cls v = SF_NORMAL\<close> by (simp add: sf_saturate_def int_in_range_iff)
      ultimately show ?thesis by (simp add: d ti_val_def)
    next
      case False
      then have "invalid st" using c(2) by simp
      then show ?thesis
        using sat out_of_range_saturates [OF True False lh] True by (simp add: d)
    qed
  next
    case False
    then show ?thesis
      using rs sat
      by (cases "sf_cls v") (auto simp: d sf_to_int128_def sf_saturate_def status_cleared_def ti_val_def)
  qed
qed

lemma fix_ti_words:
  assumes v: "sf_operand v"
  shows "sint (ti_word (fix_ti v False)) = sf_saturate (- (2 ^ 127)) (2 ^ 127 - 1) v"
    and "uint (ti_word (fix_ti v True)) = sf_saturate 0 (2 ^ 128 - 1) v"
proof -
  have u: "uint (ti_word a) = int (ti_val a)" for a by (simp only: uint_nat unat_ti_word)
  show "sint (ti_word (fix_ti v False)) = sf_saturate (- (2 ^ 127)) (2 ^ 127 - 1) v"
    using sf_saturate_bounds [of "- (2 ^ 127)" "2 ^ 127 - 1" v] fix_ti_value [OF v, of False]
    by (intro sint_of_mod) (simp_all add: u int_lo_def int_hi_def)
  show "uint (ti_word (fix_ti v True)) = sf_saturate 0 (2 ^ 128 - 1) v"
    using sf_saturate_bounds [of 0 "2 ^ 128 - 1" v] fix_ti_value [OF v, of True]
    by (simp add: u int_lo_def int_hi_def)
qed

section \<open>Conversions from integers\<close>

lemma ti_neg_eq: "ti_neg a = pair_neg a"
  by (simp add: ti_neg_def pair_neg_def)

definition ti_int :: "ti \<Rightarrow> bool \<Rightarrow> int" where
  "ti_int a is_unsigned = (if is_unsigned then uint (ti_word a) else sint (ti_word a))"

lemma from_ti_rounds:
  assumes f: "f \<in> sf_formats"
  shows "ti_int a u = 0 \<Longrightarrow> from_ti a u f = sf_cleared"
    and "ti_int a u \<noteq> 0 \<Longrightarrow> \<exists>st'. rounds_to f (ti_int a u < 0) (real_of_int \<bar>ti_int a u\<bar>) status_cleared (from_ti a u f, st')"
proof -
  define neg where "neg \<longleftrightarrow> \<not> u \<and> drop_bit 63 (ti_hi a) \<noteq> 0"
  define m where "m = (if neg then ti_neg a else a)"
  have uv: "uint (ti_word a) = int (ti_val a)" by (simp only: uint_nat unat_ti_word)
  have m: "int (ti_val m) = \<bar>ti_int a u\<bar>"
    using magnitude_value [of a] sint_ti_word [of a] uv by (auto simp: m_def neg_def ti_int_def ti_neg_eq)
  have neg: "neg \<longleftrightarrow> ti_int a u < 0" using sign_of_ti [of a] by (auto simp: neg_def ti_int_def not_less)
  have d: "from_ti a u f = fst (sf_from_int128 (ti_hi m) (ti_lo m) neg f status_cleared)"
    by (simp add: from_ti_def Let_def m_def neg_def)
  show "from_ti a u f = sf_cleared" if "ti_int a u = 0"
  proof -
    have "ti_hi m = 0 \<and> ti_lo m = 0" using m that by (simp add: ti_val_def)
    then show ?thesis using neg that by (simp add: d sf_from_int128_def sf_cleared_def)
  qed
  show "\<exists>st'. rounds_to f (ti_int a u < 0) (real_of_int \<bar>ti_int a u\<bar>) status_cleared (from_ti a u f, st')"
    if "ti_int a u \<noteq> 0"
  proof -
    have "u128v (ti_hi m) (ti_lo m) \<noteq> 0" using m that unfolding ti_val_def by linarith
    from sf_from_int128_rounds [OF f this, of neg status_cleared]
    have "rounds_to f neg (real (ti_val m)) status_cleared (sf_from_int128 (ti_hi m) (ti_lo m) neg f status_cleared)"
      by (simp only: ti_val_def)
    moreover have "real (ti_val m) = real_of_int \<bar>ti_int a u\<bar>" using m by (metis of_int_of_nat_eq)
    ultimately show ?thesis unfolding d neg by (metis prod.collapse)
  qed
qed

lemma nat_format_mag:
  assumes f: "f \<in> sf_formats" and n: "n < 2 ^ nat (prec_of f)" "prec_of f \<le> emax_of f + 1"
  shows "format_mag (prec_of f) (emin_of f) (emax_of f) (real n)"
  unfolding format_mag_def using n format_geometry [OF f] by (intro exI [of _ n] exI [of _ 0]) auto

lemma from_int_exact:
  fixes neg :: bool and st :: sf_status
  assumes "v \<noteq> 0"
  defines "x \<equiv> fst (sf_from_int v neg SF_BINARY128 st)"
  shows "sf_cls x = SF_NORMAL" "sf_sign x = neg" "sf_mag x = real (unat v)" "sf_canonical SF_BINARY128 x"
proof -
  have "format_mag (prec_of SF_BINARY128) (emin_of SF_BINARY128) (emax_of SF_BINARY128) (real (unat v))"
  proof (rule nat_format_mag [OF formats_in(5)])
    have "(2::nat) ^ 64 \<le> 2 ^ nat (prec_of SF_BINARY128)"
      by (intro power_increasing) (simp_all add: format_defs geometry_defs)
    with unat_u64_lt [of v] show "unat v < 2 ^ nat (prec_of SF_BINARY128)" by linarith
  qed (simp add: format_defs geometry_defs)
  moreover have "0 < real (unat v)" using assms(1) by (simp add: unat_gt_0 del: of_nat_unat)
  ultimately show "sf_cls x = SF_NORMAL" "sf_sign x = neg" "sf_mag x = real (unat v)" "sf_canonical SF_BINARY128 x"
    unfolding x_def using rounds_to_exact [OF formats_in(5) _ _ sf_from_int_rounds [OF formats_in(5) assms(1)]] by auto
qed

lemma from_int_clean: "sf_clean (fst (sf_from_int v neg f st))"
  by (simp add: sf_from_int_def round_pack_clean)

lemma from_int_saturate:
  assumes "lo \<le> (if neg then - uint v else uint v)" "(if neg then - uint v else uint v) \<le> hi"
  shows "sf_saturate lo hi (tf_in (tf_out (fst (sf_from_int v neg SF_BINARY128 st))))
    = (if neg then - uint v else uint v)"
proof (cases "v = 0")
  case True
  have "tf_in (tf_out (fst (sf_from_int v neg SF_BINARY128 st))) = fst (sf_from_int v neg SF_BINARY128 st)"
    using True by (intro tf_in_out from_int_clean) (simp add: sf_from_int_def sf_canonical_def sf_cleared_def)
  with True show ?thesis by (simp add: sf_from_int_def sf_saturate_def sf_cleared_def)
next
  case False
  note x = from_int_exact [OF False, of neg st]
  have t: "sf_trunc (fst (sf_from_int v neg SF_BINARY128 st)) = unat v"
    by (simp add: sf_trunc_def x del: of_nat_unat)
  have "sf_int (fst (sf_from_int v neg SF_BINARY128 st)) = (if neg then - uint v else uint v)"
    unfolding sf_int_def x(2) t by simp
  then show ?thesis
    using assms x by (simp add: tf_in_out from_int_clean sf_saturate_def)
qed

section \<open>Properties of the runtime entry points\<close>

lemma sf_neg_props: "sf_canonical f a \<Longrightarrow> sf_canonical f (sf_neg a)" "sf_clean a \<Longrightarrow> sf_clean (sf_neg a)"
  "sf_cls (sf_neg a) = sf_cls a"
  by (simp_all add: sf_neg_def sf_canonical_def sf_clean_def)

lemma finish_rounds:
  assumes "length a = 16" "length b = 16" "sf_cls (tf_in a) \<noteq> SF_NAN" "sf_cls (tf_in b) \<noteq> SF_NAN"
    and "rounds_to SF_BINARY128 s v st r" "sf_clean (fst r)"
  shows "rounds_to SF_BINARY128 s v st (tf_in (finish (fst r) a b), snd r)"
proof -
  have "sf_canonical SF_BINARY128 (fst r)" "sf_cls (fst r) \<noteq> SF_NAN"
    using assms(5) by (auto simp: rounds_to_def split: if_splits)
  with finish_value(1) [OF assms(1-4) this(1) assms(6)] assms(5) show ?thesis by simp
qed

text \<open>
  C22: the sum and difference entry points return the carrier of the correctly rounded binary128
  value of the exact sum or difference of their finite operands, whatever the uninitialized status
  variable holds; an exact zero result is a zero.
\<close>

theorem tf_sum_correct:
  assumes "length a = 16" "length b = 16" "sf_finite (tf_in a)" "sf_finite (tf_in b)"
  defines "x \<equiv> sf_val (tf_in a) + sf_val (tf_in b)" and "y \<equiv> sf_val (tf_in a) - sf_val (tf_in b)"
  shows "(x = 0 \<longrightarrow> sf_is_zero (tf_in (addtf3 st a b)))
    \<and> (x \<noteq> 0 \<longrightarrow> (\<exists>st'. rounds_to SF_BINARY128 (x < 0) \<bar>x\<bar> st (tf_in (addtf3 st a b), st')))
    \<and> (y = 0 \<longrightarrow> sf_is_zero (tf_in (subtf3 st a b)))
    \<and> (y \<noteq> 0 \<longrightarrow> (\<exists>st'. rounds_to SF_BINARY128 (y < 0) \<bar>y\<bar> st (tf_in (subtf3 st a b), st')))"
proof -
  have nan: "sf_cls (tf_in a) \<noteq> SF_NAN" "sf_cls (tf_in b) \<noteq> SF_NAN" using assms(3,4) by (auto simp: sf_finite_def)
  have core: "(sf_val (tf_in a) + sf_val c = 0 \<longrightarrow> sf_is_zero (tf_in (finish (fst (sf_add (tf_in a) c SF_BINARY128 st)) a b)))
      \<and> (sf_val (tf_in a) + sf_val c \<noteq> 0 \<longrightarrow> (\<exists>st'. rounds_to SF_BINARY128 (sf_val (tf_in a) + sf_val c < 0)
          \<bar>sf_val (tf_in a) + sf_val c\<bar> st (tf_in (finish (fst (sf_add (tf_in a) c SF_BINARY128 st)) a b), st')))"
    if c: "sf_canonical SF_BINARY128 c" "sf_clean c" "sf_finite c" for c
  proof -
    let ?r = "sf_add (tf_in a) c SF_BINARY128 st"
    have cl: "sf_clean (fst ?r)" using c by (simp add: sf_add_clean)
    have can: "sf_canonical SF_BINARY128 (fst ?r)" using c by (simp add: sf_add_canonical)
    note s = sf_add_finite [OF formats_in(5) tf_in_props(3) assms(3) canonical_operand [OF formats_in(5) c(1)] c(3), where st = st]
    have "sf_is_zero (tf_in (finish (fst ?r) a b))" if "sf_val (tf_in a) + sf_val c = 0"
      using finish_value(1) [OF assms(1,2) nan can cl] s(1) [OF that]
      by (simp add: sum_zero_def sf_is_zero_def sf_cleared_def)
    moreover have "rounds_to SF_BINARY128 (sf_val (tf_in a) + sf_val c < 0)
          \<bar>sf_val (tf_in a) + sf_val c\<bar> st (tf_in (finish (fst ?r) a b), snd ?r)"
      if "sf_val (tf_in a) + sf_val c \<noteq> 0"
      by (rule finish_rounds [OF assms(1,2) nan s(2) [OF that] cl])
    ultimately show ?thesis by blast
  qed
  have n: "sf_val (sf_neg v) = - sf_val v" for v by (simp add: sf_val_def sf_neg_def sf_mag_def)
  have "sf_finite (sf_neg (tf_in b))" using assms(4) by (simp add: sf_finite_def sf_neg_props)
  with core [of "tf_in b"] core [of "sf_neg (tf_in b)"] assms(4) show ?thesis
    unfolding x_def y_def addtf3_def subtf3_def sf_sub_def by (simp add: sf_neg_props n)
qed

text \<open>The carrier of 1.0, for the concrete instances below.\<close>

definition tf_one :: image where
  "tf_one = replicate 14 0 @ [0xff, 0x3f]"

lemma tf_one_class: "length tf_one = 16" "sf_cls (tf_in tf_one) = SF_NORMAL"
  by code_simp+

theorem tf_sum_correct_witness:
  "sf_finite (tf_in tf_one) \<and> sf_is_zero (tf_in (subtf3 status_cleared tf_one tf_one))"
  using tf_sum_correct [of tf_one tf_one status_cleared] tf_one_class by (simp add: sf_finite_def)

text \<open>
  The product and quotient entry points return the carrier of the correctly rounded binary128
  value of the exact product or quotient of two nonzero finite operands.
\<close>

theorem tf_product_correct:
  assumes "length a = 16" "length b = 16" "sf_cls (tf_in a) = SF_NORMAL" "sf_cls (tf_in b) = SF_NORMAL"
  defines "s \<equiv> sf_sign (tf_in a) \<noteq> sf_sign (tf_in b)"
  shows "(\<exists>st'. rounds_to SF_BINARY128 s (sf_mag (tf_in a) * sf_mag (tf_in b)) st (tf_in (multf3 st a b), st'))
    \<and> (\<exists>st'. rounds_to SF_BINARY128 s (sf_mag (tf_in a) / sf_mag (tf_in b)) st (tf_in (divtf3 st a b), st'))"
proof -
  have nan: "sf_cls (tf_in a) \<noteq> SF_NAN" "sf_cls (tf_in b) \<noteq> SF_NAN" using assms(3,4) by auto
  show ?thesis
    unfolding s_def multf3_def divtf3_def
    using finish_rounds [OF assms(1,2) nan sf_mul_rounds [OF formats_in(5) tf_in_props(3) assms(3) tf_in_props(3) assms(4)] sf_mul_clean]
      finish_rounds [OF assms(1,2) nan sf_div_rounds [OF formats_in(5) tf_in_props(3) assms(3) tf_in_props(3) assms(4)] sf_div_clean]
    by blast
qed

theorem tf_product_correct_witness:
  "sf_cls (tf_in tf_one) = SF_NORMAL \<and>
   (\<exists>st'. rounds_to SF_BINARY128 False (sf_mag (tf_in tf_one) * sf_mag (tf_in tf_one)) status_cleared
      (tf_in (multf3 status_cleared tf_one tf_one), st'))"
  using tf_product_correct [of tf_one tf_one status_cleared] tf_one_class by simp

text \<open>
  A NaN operand decides the result of every arithmetic entry point: the first NaN operand is
  returned with its quiet bit set and its payload otherwise unchanged. Without a NaN operand an
  invalid operation returns the default NaN, and every other result is not a NaN.
\<close>

theorem tf_nan_discipline:
  assumes "length a = 16" "length b = 16" "opn \<in> {addtf3 st, subtf3 st, multf3 st, divtf3 st}"
  shows "(sf_cls (tf_in a) = SF_NAN \<longrightarrow> opn a b = quieted a)
    \<and> (sf_cls (tf_in a) \<noteq> SF_NAN \<and> sf_cls (tf_in b) = SF_NAN \<longrightarrow> opn a b = quieted b)
    \<and> (sf_cls (tf_in a) \<noteq> SF_NAN \<and> sf_cls (tf_in b) \<noteq> SF_NAN \<and> sf_cls (tf_in (opn a b)) = SF_NAN
        \<longrightarrow> opn a b = tf_default_nan)"
proof -
  let ?core = "{fst (sf_add (tf_in a) (tf_in b) SF_BINARY128 st), fst (sf_add (tf_in a) (sf_neg (tf_in b)) SF_BINARY128 st),
    fst (sf_mul (tf_in a) (tf_in b) SF_BINARY128 st), fst (sf_div (tf_in a) (tf_in b) SF_BINARY128 st)}"
  have "\<exists>v \<in> ?core. opn a b = finish v a b"
    using assms(3) by (auto simp: addtf3_def subtf3_def multf3_def divtf3_def sf_sub_def)
  moreover have "sf_canonical SF_BINARY128 v \<and> sf_clean v" if "v \<in> ?core" for v
    using that by (auto simp: sf_add_canonical sf_add_clean sf_mul_canonical sf_mul_clean
        sf_div_canonical sf_div_clean sf_neg_props)
  ultimately obtain v where v: "sf_canonical SF_BINARY128 v" "sf_clean v" "opn a b = finish v a b" by blast
  then show ?thesis
    using finish_value [OF assms(1,2) _ _ v(1,2)]
    by (auto simp: finish_def nan_passthrough_def bits_are_nan_correct assms(1,2))
qed

theorem tf_nan_discipline_witness:
  "length tf_default_nan = 16 \<and> multf3 status_cleared tf_default_nan tf_one = quieted tf_default_nan"
  using tf_nan_discipline [of tf_default_nan tf_one "multf3 status_cleared" status_cleared] tf_one_class
    tf_default_nan_class by (simp add: tf_default_nan_def)

text \<open>
  Libgcc's comparison contract. Each three-way result compared with zero decides the
  corresponding IEEE comparison of the operands, which is false whenever one of them is a NaN, and
  the unordered entry point answers exactly that.
\<close>

theorem tf_comparisons_correct:
  defines "ord \<equiv> (\<lambda>a b. sf_cls (tf_in a) \<noteq> SF_NAN \<and> sf_cls (tf_in b) \<noteq> SF_NAN)"
  shows "(lttf2 a b < 0 \<longleftrightarrow> ord a b \<and> sf_less (tf_in a) (tf_in b))
    \<and> (letf2 a b \<le> 0 \<longleftrightarrow> ord a b \<and> \<not> sf_less (tf_in b) (tf_in a))
    \<and> (gttf2 a b > 0 \<longleftrightarrow> ord a b \<and> sf_less (tf_in b) (tf_in a))
    \<and> (getf2 a b \<ge> 0 \<longleftrightarrow> ord a b \<and> \<not> sf_less (tf_in a) (tf_in b))
    \<and> (eqtf2 a b = 0 \<longleftrightarrow> ord a b \<and> \<not> sf_less (tf_in a) (tf_in b) \<and> \<not> sf_less (tf_in b) (tf_in a))
    \<and> (netf2 a b \<noteq> 0 \<longleftrightarrow> \<not> ord a b \<or> sf_less (tf_in a) (tf_in b) \<or> sf_less (tf_in b) (tf_in a))
    \<and> (unordtf2 a b \<noteq> 0 \<longleftrightarrow> \<not> ord a b)"
proof (cases "ord a b")
  case True
  then have c: "sf_cmp (tf_in a) (tf_in b) =
      (if sf_less (tf_in a) (tf_in b) then - 1 else if sf_less (tf_in b) (tf_in a) then 1 else 0, False)"
    unfolding ord_def by (intro sf_cmp_correct tf_in_props(3)) auto
  have "\<not> (sf_less x y \<and> sf_less y x)" for x y by (auto simp: sf_less_def)
  with True show ?thesis
    by (auto simp: lttf2_def letf2_def gttf2_def getf2_def eqtf2_def netf2_def unordtf2_def cmp3_def c)
next
  case False
  then have c: "sf_cmp (tf_in a) (tf_in b) = (0, True)" unfolding ord_def by (auto simp: sf_cmp_def)
  from False show ?thesis
    by (simp add: lttf2_def letf2_def gttf2_def getf2_def eqtf2_def netf2_def unordtf2_def cmp3_def c)
qed

theorem tf_comparisons_correct_witness:
  "eqtf2 tf_one tf_one = 0 \<and> unordtf2 tf_one tf_one = 0 \<and> unordtf2 tf_default_nan tf_one \<noteq> 0"
  using tf_comparisons_correct [of tf_one tf_one] tf_comparisons_correct [of tf_default_nan tf_one]
    tf_one_class tf_default_nan_class by (simp add: sf_less_def)

text \<open>
  C23: fix conversions truncate toward zero and saturate at the bounds of the destination type; NaN
  converts to the maximum. This covers the 32-bit, 64-bit and 128-bit destinations.
\<close>

theorem tf_fix_saturates:
  "sint (fixtfsi a) = sf_saturate (- (2 ^ 31)) (2 ^ 31 - 1) (tf_in a)
   \<and> sint (fixtfdi a) = sf_saturate (- (2 ^ 63)) (2 ^ 63 - 1) (tf_in a)
   \<and> uint (fixunstfsi a) = sf_saturate 0 (2 ^ 32 - 1) (tf_in a)
   \<and> uint (fixunstfdi a) = sf_saturate 0 (2 ^ 64 - 1) (tf_in a)
   \<and> sint (ti_word (fixtfti a)) = sf_saturate (- (2 ^ 127)) (2 ^ 127 - 1) (tf_in a)
   \<and> uint (ti_word (fixunstfti a)) = sf_saturate 0 (2 ^ 128 - 1) (tf_in a)"
  using fix_signed_value [of a] fix_unsigned_value [of a] fix_ti_words [OF tf_in_props(3), of a]
  by (simp only: fixtfti_def fixunstfti_def)

lemma scast_value: "sint (scast (y :: u32) :: u64) = sint y"
proof -
  have "- (2 ^ 31) \<le> sint y" "sint y < 2 ^ 31" using sint_ge [of y] sint_lt [of y] by simp_all
  then show ?thesis by (simp add: signed_scast_eq signed_take_bit_int_eq_self)
qed

lemma signed_magnitude: "(if sint x < 0 then - uint (if sint x < 0 then 0 - x else x)
    else uint (if sint x < 0 then 0 - x else x)) = sint (x :: u64)"
proof -
  have r: "- (2 ^ 63) \<le> sint x" "sint x < 2 ^ 63" using sint_ge [of x] sint_lt [of x] by simp_all
  have x: "x = word_of_int (sint x)" by (simp add: scast_eq [symmetric])
  show ?thesis
  proof (cases "sint x < 0")
    case True
    have "0 - x = word_of_int (- sint x)" by (subst x) simp
    then have "uint (0 - x) = take_bit 64 (- sint x)"
      using unsigned_of_int [of "- sint x", where 'a = int and 'b = 64] by simp
    then have "uint (0 - x) = - sint x mod 2 ^ 64" by (simp only: take_bit_eq_mod)
    also have "\<dots> = - sint x" using r True by (intro mod_pos_pos_trivial) simp_all
    finally show ?thesis using True by simp
  next
    case False
    have "uint (word_of_int (sint x) :: u64) = take_bit 64 (sint x)"
      using unsigned_of_int [of "sint x", where 'a = int and 'b = 64] by simp
    then have "uint x = sint x mod 2 ^ 64" by (simp only: x [symmetric] take_bit_eq_mod)
    also have "\<dots> = sint x" using r False by (intro mod_pos_pos_trivial) simp_all
    finally show ?thesis using False by simp
  qed
qed

text \<open>
  Every 32-bit and 64-bit integer, signed or unsigned, survives conversion to binary128 and
  back.
\<close>

theorem tf_int_roundtrip:
  "fixtfdi (floatditf st x) = x \<and> fixunstfdi (floatunditf st x) = x
   \<and> fixtfsi (floatsitf st y) = y \<and> fixunstfsi (floatunsitf st y) = y"
proof -
  have s: "sf_saturate lo hi (tf_in (from_signed st z)) = sint z" if "lo \<le> sint z" "sint z \<le> hi" for z lo hi
    using from_int_saturate [of lo "sint z < 0" "if sint z < 0 then 0 - z else z" hi st] that
    unfolding from_signed_def Let_def signed_magnitude by blast
  have "sint (fixtfdi (floatditf st x)) = sint x"
    unfolding fix_signed_value floatditf_def using sint_ge [of x] sint_lt [of x] by (intro s) simp_all
  moreover have "sint (fixtfsi (floatsitf st y)) = sint y"
    unfolding fix_signed_value floatsitf_def scast_value [of y, symmetric]
    using sint_ge [of y] sint_lt [of y] by (intro s) (simp_all add: scast_value)
  moreover have "uint (fixunstfdi (floatunditf st x)) = uint x"
    unfolding fix_unsigned_value floatunditf_def
    using from_int_saturate [of 0 False x "2 ^ 64 - 1" st] unsigned_less [of x, where 'a = int] by simp
  moreover have "uint (fixunstfsi (floatunsitf st y)) = uint y"
    unfolding fix_unsigned_value floatunsitf_def
    using from_int_saturate [of 0 False "ucast y" "2 ^ 32 - 1" st] unsigned_less [of y, where 'a = int]
    by (simp add: unsigned_ucast_eq take_bit_eq_mod)
  ultimately show ?thesis by (simp add: signed_word_eqI word_uint_eqI)
qed

text \<open>
  Widening a float or double to binary128 and narrowing it back returns the same bytes, for
  every value that is not a NaN.
\<close>

theorem tf_widen_narrow:
  assumes "length d = 8" "sf_cls (df_in d) \<noteq> SF_NAN" "length s = 4" "sf_cls (sf_in s) \<noteq> SF_NAN"
  shows "trunctfdf2 st' (extenddftf2 st d) = d \<and> trunctfsf2 st' (extendsftf2 st s) = s"
proof -
  have wide: "tf_in (tf_out (fst (sf_convert v f SF_BINARY128 st))) = fst (sf_convert v f SF_BINARY128 st)"
    if "f \<in> sf_formats" "sf_canonical f v" "sf_clean v" for v f
    using that by (intro tf_in_out sf_convert_clean sf_convert_canonical canonical_operand [of f]) simp_all
  have d: "sf_canonical SF_BINARY64 (df_in d)" "sf_clean (df_in d)"
    and s: "sf_canonical SF_BINARY32 (sf_in s)" "sf_clean (sf_in s)"
    by (simp_all add: df_in_def sf_in_def sf_from_bits_canonical sf_from_bits_clean)
  have "take 8 (sf_to_bits (df_in d) SF_BINARY64) = d"
    using assms(1,2) unfolding df_in_def by (intro narrow_image) (simp_all add: SF_BINARY64_def [symmetric], simp_all add: SF_BINARY64_def)
  moreover have "take 4 (sf_to_bits (sf_in s) SF_BINARY32) = s"
    using assms(3,4) unfolding sf_in_def by (intro narrow_image) (simp_all add: SF_BINARY32_def [symmetric], simp_all add: SF_BINARY32_def)
  ultimately show ?thesis
    unfolding trunctfdf2_def extenddftf2_def trunctfsf2_def extendsftf2_def
      wide [OF formats_in(3) d] wide [OF formats_in(2) s]
    using widen_narrow [OF _ d, of st st'] widen_narrow [OF _ s, of st st'] by simp
qed

theorem tf_widen_narrow_witness:
  "sf_cls (df_in [1, 0, 0, 0, 0, 0, 0xf0, 0x3f]) \<noteq> SF_NAN \<and>
   trunctfdf2 status_cleared (extenddftf2 status_cleared [1, 0, 0, 0, 0, 0, 0xf0, 0x3f]) = [1, 0, 0, 0, 0, 0, 0xf0, 0x3f]"
proof -
  have "sf_cls (df_in [1, 0, 0, 0, 0, 0, 0xf0, 0x3f]) \<noteq> SF_NAN" "sf_cls (sf_in [1, 0, 0, 0]) \<noteq> SF_NAN"
    by code_simp+
  then show ?thesis
    using tf_widen_narrow [of "[1, 0, 0, 0, 0, 0, 0xf0, 0x3f]" "[1, 0, 0, 0]"] by simp
qed

lemma tf_in_sign: "sf_sign (tf_in a) = image_bit a 127"
proof -
  obtain h l where eq: "image_frac a SF_BINARY128 = (h, l)" by fastforce
  from sf_from_bits_fields(2) [OF formats_in(5) eq] show ?thesis by (simp add: tf_in_def binary128_fields)
qed

lemma tf_in_eq_sign:
  assumes "\<And>k. k < 127 \<Longrightarrow> image_bit b k = image_bit a k"
  shows "tf_in b = (tf_in a)\<lparr>sf_sign := image_bit b 127\<rparr>"
proof -
  let ?f = SF_BINARY128
  have fr: "image_frac b ?f = image_frac a ?f"
  proof (rule prod_eqI)
    show "fst (image_frac b ?f) = fst (image_frac a ?f)"
    proof (rule bit_word_eqI)
      fix k :: nat assume "k < LENGTH(64)"
      then have k: "k < 64" by simp
      show "bit (fst (image_frac b ?f)) k = bit (fst (image_frac a ?f)) k"
        using bit_get_limb [OF k, of b 8] bit_get_limb [OF k, of a 8] assms [of "k + 64"]
        unfolding bit_mask_fraction(1) [OF formats_in(5) k] by (auto simp: binary128_fields)
    qed
    show "snd (image_frac b ?f) = snd (image_frac a ?f)"
    proof (rule bit_word_eqI)
      fix k :: nat assume "k < LENGTH(64)"
      then have k: "k < 64" by simp
      show "bit (snd (image_frac b ?f)) k = bit (snd (image_frac a ?f)) k"
        using bit_get_limb [OF k, of b 0] bit_get_limb [OF k, of a 0] assms [of k] k
        unfolding bit_mask_fraction(2) [OF formats_in(5) k] by auto
    qed
  qed
  have ex: "get_exponent b ?f = get_exponent a ?f"
    by (rule bit_eqI) (auto simp: bit_get_exponent binary128_fields assms)
  define ta tb where "ta = tf_in a" and "tb = tf_in b"
  have "tb\<lparr>sf_sign := False\<rparr> = ta\<lparr>sf_sign := False\<rparr>"
    unfolding ta_def tb_def tf_in_def sf_from_bits_def Let_def fr ex by (simp add: split_beta)
  then have "tb = ta\<lparr>sf_sign := sf_sign tb\<rparr>" by (cases ta; cases tb) simp
  then show ?thesis by (simp only: ta_def tb_def tf_in_sign)
qed

text \<open>
  Negation and absolute value work on the sign bit alone: they commute with decoding, keep
  every other byte of the carrier (and so the payload of a NaN), and the sign test reads the
  decoded sign.
\<close>

theorem tf_sign_operations:
  assumes "length a = 16"
  shows "tf_in (negtf2 a) = sf_neg (tf_in a) \<and> tf_in (cgf_abstf a) = (tf_in a)\<lparr>sf_sign := False\<rparr>
    \<and> (cgf_signbittf a = 1 \<longleftrightarrow> sf_sign (tf_in a)) \<and> negtf2 (negtf2 a) = a
    \<and> take 15 (negtf2 a) = take 15 a \<and> take 15 (cgf_abstf a) = take 15 a"
proof -
  have bits: "image_bit (a[15 := w]) k = (if k div 8 = 15 then bit w (k mod 8) else image_bit a k)" if "k < 128" for k w
    using that assms by (auto simp: image_bit_def nth_list_update)
  have same: "image_bit (a[15 := w]) k = image_bit a k"
    if "k < 127" "\<And>j. j < 7 \<Longrightarrow> bit w j = bit (a ! 15) j" for k w
  proof -
    have "k mod 8 < 7" if "k div 8 = 15" using that \<open>k < 127\<close> div_mult_mod_eq [of k 8] by linarith
    then show ?thesis using bits [of k w] that by (auto simp: image_bit_def [of a])
  qed
  have m: "bit (0x80 :: u8) j \<longleftrightarrow> j = 7" "bit (0x7f :: u8) j \<longleftrightarrow> j < 7" if "j < 8" for j
  proof -
    have "j \<in> {0, 1, 2, 3, 4, 5, 6, 7}" using that by auto
    then show "bit (0x80 :: u8) j \<longleftrightarrow> j = 7" "bit (0x7f :: u8) j \<longleftrightarrow> j < 7" by auto
  qed
  have x: "bit ((a ! 15) XOR 0x80) j \<longleftrightarrow> (if j = 7 then \<not> bit (a ! 15) 7 else bit (a ! 15) j)" if "j < 8" for j
    using m [OF that] by (auto simp: bit_xor_iff bit_and_iff)
  have y: "bit ((a ! 15) AND 0x7f) j \<longleftrightarrow> j < 7 \<and> bit (a ! 15) j" if "j < 8" for j
    using m [OF that] by (auto simp: bit_xor_iff bit_and_iff)
  have sgn: "sf_sign (tf_in a) = image_bit a 127" by (rule tf_in_sign)
  have "tf_in (negtf2 a) = (tf_in a)\<lparr>sf_sign := image_bit (negtf2 a) 127\<rparr>"
    unfolding negtf2_def
    by (intro tf_in_eq_sign same) (simp_all add: x)
  moreover have "image_bit (negtf2 a) 127 \<longleftrightarrow> \<not> image_bit a 127"
    using bits [of 127] x [of 7] by (simp add: negtf2_def image_bit_def [of a])
  moreover have "tf_in (cgf_abstf a) = (tf_in a)\<lparr>sf_sign := image_bit (cgf_abstf a) 127\<rparr>"
    unfolding cgf_abstf_def
    by (intro tf_in_eq_sign same) (simp_all add: y)
  moreover have "\<not> image_bit (cgf_abstf a) 127"
    using bits [of 127] y [of 7] by (simp add: cgf_abstf_def)
  moreover have "cgf_signbittf a = 1 \<longleftrightarrow> image_bit a 127"
  proof -
    have "drop_bit 7 (a ! 15) AND 1 = of_bool (bit (a ! 15) 7)"
      by (simp add: and_one_eq mod2_eq_if bit_iff_odd drop_bit_eq_div)
    then show ?thesis by (simp add: cgf_signbittf_def image_bit_def)
  qed
  moreover have "negtf2 (negtf2 a) = a" using assms by (simp add: negtf2_def xor.assoc)
  ultimately show ?thesis
    using sgn assms by (simp add: sf_neg_def) (simp add: negtf2_def cgf_abstf_def)
qed

theorem tf_sign_operations_witness:
  "length tf_one = 16 \<and> tf_in (negtf2 tf_one) = sf_neg (tf_in tf_one)"
  using tf_sign_operations [of tf_one] tf_one_class by simp

end
