(* ===== verification/Bigint.thy ===== *)
theory Bigint
  imports Limbs U128
begin

text \<open>
  The fixed-capacity bignum of src/src/util/bigint.c. The word array is modelled by the list of
  its first \<open>len\<close> words (no function reads a word at or above \<open>len\<close>), so \<open>len\<close> is the length of
  the list. The lemmas give the value of every operation, its overflow condition, and the
  normal form (no leading zero word, at most \<open>BIGINT_WORDS\<close> words) that all of them keep.
\<close>

definition BIGINT_WORDS :: nat where
  "BIGINT_WORDS = 768"

record bigint =
  bi_w :: "u64 list"
  bi_overflow :: bool

section \<open>Operations\<close>

definition bigint_set_u64 :: "u64 \<Rightarrow> bigint" where
  "bigint_set_u64 v = \<lparr>bi_w = (if v \<noteq> 0 then [v] else []), bi_overflow = False\<rparr>"

definition bigint_is_zero :: "bigint \<Rightarrow> bool" where
  "bigint_is_zero b \<longleftrightarrow> bi_w b = []"

fun trim_words :: "u64 list \<Rightarrow> u64 list" where
  "trim_words ws = (if ws \<noteq> [] \<and> last ws = 0 then trim_words (butlast ws) else ws)"

declare trim_words.simps [simp del]

definition bigint_bitlen :: "bigint \<Rightarrow> int" where
  "bigint_bitlen b =
     (if bi_w b = [] then 0
      else (int (length (bi_w b)) - 1) * 64 + bit_count_loop 0 (last (bi_w b)))"

text \<open>The comparison loop runs from the top word down; \<open>n\<close> words are left.\<close>

fun bigint_cmp_loop :: "nat \<Rightarrow> u64 list \<Rightarrow> u64 list \<Rightarrow> int" where
  "bigint_cmp_loop 0 a b = 0"
| "bigint_cmp_loop (Suc i) a b =
     (if a ! i \<noteq> b ! i then (if a ! i < b ! i then - 1 else 1) else bigint_cmp_loop i a b)"

definition bigint_cmp :: "bigint \<Rightarrow> bigint \<Rightarrow> int" where
  "bigint_cmp a b =
     (if length (bi_w a) \<noteq> length (bi_w b) then (if length (bi_w a) < length (bi_w b) then - 1 else 1)
      else bigint_cmp_loop (length (bi_w a)) (bi_w a) (bi_w b))"

definition bigint_test_bit :: "bigint \<Rightarrow> nat \<Rightarrow> bool" where
  "bigint_test_bit b n =
     (let word = n div 64
      in if word \<ge> length (bi_w b) then False
         else drop_bit (n mod 64) (bi_w b ! word) AND 1 \<noteq> 0)"

fun shl_words :: "nat \<Rightarrow> u64 \<Rightarrow> u64 list \<Rightarrow> u64 list \<times> u64" where
  "shl_words rem carry [] = ([], carry)"
| "shl_words rem carry (v # vs) =
     (let (vs', carry') = shl_words rem (drop_bit (64 - rem) v) vs
      in ((push_bit rem v OR carry) # vs', carry'))"

definition bigint_shl :: "bigint \<Rightarrow> nat \<Rightarrow> bigint" where
  "bigint_shl b bits =
     (let words = bits div 64; rem = bits mod 64 in
      if bi_w b = [] \<or> bits = 0 then b
      else if length (bi_w b) + words + 1 > BIGINT_WORDS then b\<lparr>bi_overflow := True\<rparr>
      else
        (let w1 = (if rem \<noteq> 0
                   then (let (ws, carry) = shl_words rem 0 (bi_w b)
                         in if carry \<noteq> 0 then ws @ [carry] else ws)
                   else bi_w b);
             w2 = (if words \<noteq> 0 then replicate words 0 @ w1 else w1)
         in b\<lparr>bi_w := w2\<rparr>))"

fun mul_words :: "u64 \<Rightarrow> u64 \<Rightarrow> u64 list \<Rightarrow> u64 list \<times> u64" where
  "mul_words m carry [] = ([], carry)"
| "mul_words m carry (x # xs) =
     (let lo = (x AND 0xffffffff) * m + (carry AND 0xffffffff);
          hi = drop_bit 32 x * m + drop_bit 32 lo + drop_bit 32 carry;
          (xs', carry') = mul_words m (drop_bit 32 hi) xs
      in (((lo AND 0xffffffff) OR push_bit 32 hi) # xs', carry'))"

definition bigint_mul_small :: "bigint \<Rightarrow> u32 \<Rightarrow> bigint" where
  "bigint_mul_small b m =
     (if bi_w b = [] \<or> m = 1 then b
      else if m = 0 then b\<lparr>bi_w := []\<rparr>
      else
        (let (ws, carry) = mul_words (ucast m) 0 (bi_w b)
         in if carry \<noteq> 0 then
              (if length ws \<ge> BIGINT_WORDS then b\<lparr>bi_w := ws, bi_overflow := True\<rparr>
               else b\<lparr>bi_w := ws @ [carry]\<rparr>)
            else b\<lparr>bi_w := ws\<rparr>))"

text \<open>\<open>while (carry && i < b->len)\<close>: the words after the carry died are kept.\<close>

fun add_words :: "u64 \<Rightarrow> u64 list \<Rightarrow> u64 list \<times> u64" where
  "add_words carry [] = ([], carry)"
| "add_words carry (x # xs) =
     (if carry \<noteq> 0 then
        (let x' = x + carry; (xs', carry') = add_words (if x' < x then 1 else 0) xs
         in (x' # xs', carry'))
      else (x # xs, carry))"

definition bigint_add_small :: "bigint \<Rightarrow> u32 \<Rightarrow> bigint" where
  "bigint_add_small b v =
     (if bi_overflow b \<or> v = 0 then b
      else
        (let (ws, carry) = add_words (ucast v) (bi_w b)
         in if carry \<noteq> 0 then
              (if length ws \<ge> BIGINT_WORDS then b\<lparr>bi_w := ws, bi_overflow := True\<rparr>
               else b\<lparr>bi_w := ws @ [carry]\<rparr>)
            else b\<lparr>bi_w := ws\<rparr>))"

definition pow10_table :: "u32 list" where
  "pow10_table = [1, 10, 100, 1000, 10000, 100000, 1000000, 10000000, 100000000, 1000000000]"

fun bigint_mul_pow10 :: "bigint \<Rightarrow> nat \<Rightarrow> bigint" where
  "bigint_mul_pow10 b e =
     (if e \<ge> 9 \<and> \<not> bi_overflow b then bigint_mul_pow10 (bigint_mul_small b 1000000000) (e - 9)
      else if e > 0 \<and> \<not> bi_overflow b then bigint_mul_small b (pow10_table ! e)
      else b)"

declare bigint_mul_pow10.simps [simp del]

fun sub_words :: "u64 \<Rightarrow> u64 list \<Rightarrow> u64 list \<Rightarrow> u64 list" where
  "sub_words borrow [] bs = []"
| "sub_words borrow (av # as) bs =
     (let bv = (case bs of [] \<Rightarrow> 0 | x # _ \<Rightarrow> x);
          diff = av - bv - borrow;
          borrow' = (if av < bv + borrow \<or> bv + borrow < bv then 1 else 0)
      in diff # sub_words borrow' as (tl bs))"

definition bigint_sub :: "bigint \<Rightarrow> bigint \<Rightarrow> bigint" where
  "bigint_sub a b = a\<lparr>bi_w := trim_words (sub_words 0 (bi_w a) (bi_w b))\<rparr>"

text \<open>One iteration of the division loop at bit \<open>i\<close>, and the loop from bit \<open>n - 1\<close> down to 0.\<close>

definition divide_step :: "bigint \<Rightarrow> bigint \<Rightarrow> nat \<Rightarrow> bigint \<times> u64 \<times> u64 \<times> nat \<Rightarrow> bigint \<times> u64 \<times> u64 \<times> nat" where
  "divide_step num den i s =
     (let (rem, hi, lo, produced) = s;
          rem1 = bigint_shl rem 1;
          rem2 = (if bigint_test_bit num i
                  then (if bi_w rem1 = [] then rem1\<lparr>bi_w := [1]\<rparr>
                        else rem1\<lparr>bi_w := (hd (bi_w rem1) OR 1) # tl (bi_w rem1)\<rparr>)
                  else rem1)
      in if bigint_cmp rem2 den \<ge> 0 then
           (bigint_sub rem2 den, push_bit 1 hi OR drop_bit 63 lo, push_bit 1 lo OR 1, produced + 1)
         else if produced \<noteq> 0 then
           (rem2, push_bit 1 hi OR drop_bit 63 lo, push_bit 1 lo, produced + 1)
         else (rem2, hi, lo, produced))"

fun divide_loop :: "bigint \<Rightarrow> bigint \<Rightarrow> nat \<Rightarrow> bigint \<times> u64 \<times> u64 \<times> nat \<Rightarrow> bigint \<times> u64 \<times> u64 \<times> nat" where
  "divide_loop num den 0 s = s"
| "divide_loop num den (Suc i) s = divide_loop num den i (divide_step num den i s)"

definition bigint_divide_bits :: "bigint \<Rightarrow> bigint \<Rightarrow> u64 \<times> u64 \<times> bool" where
  "bigint_divide_bits num den =
     (let (rem, hi, lo, _) = divide_loop num den (nat (bigint_bitlen num)) (bigint_set_u64 0, 0, 0, 0)
      in (hi, lo, \<not> bigint_is_zero rem))"

section \<open>Values and the normal form\<close>

abbreviation bi_val :: "bigint \<Rightarrow> nat" where
  "bi_val b \<equiv> limbs64 (bi_w b)"

definition normal_words :: "u64 list \<Rightarrow> bool" where
  "normal_words ws \<longleftrightarrow> (ws \<noteq> [] \<longrightarrow> last ws \<noteq> 0)"

definition bi_inv :: "bigint \<Rightarrow> bool" where
  "bi_inv b \<longleftrightarrow> normal_words (bi_w b) \<and> length (bi_w b) \<le> BIGINT_WORDS"

lemma normal_words_bounds:
  assumes "normal_words ws" "ws \<noteq> []"
  shows "nbits (limbs64 ws) = 64 * (length ws - 1) + nbits (unat (last ws))"
    and "2 ^ (64 * (length ws - 1)) \<le> limbs64 ws"
proof -
  have "last ws \<noteq> 0" using assms by (simp add: normal_words_def)
  then show b: "nbits (limbs64 ws) = 64 * (length ws - 1) + nbits (unat (last ws))"
    using nbits_limbs64_top [of "last ws" "butlast ws"] assms(2) by simp
  have "0 < nbits (unat (last ws))" using \<open>last ws \<noteq> 0\<close> by (simp add: nbits_pos unat_gt_0)
  then have "64 * (length ws - 1) < nbits (limbs64 ws)" using b by linarith
  then show "2 ^ (64 * (length ws - 1)) \<le> limbs64 ws" by (simp only: lt_nbits_iff)
qed

lemma normal_words_zero: "normal_words ws \<Longrightarrow> limbs64 ws = 0 \<longleftrightarrow> ws = []"
  by (auto simp: limbs64_eq_0_iff normal_words_def dest: last_in_set)

lemma normal_words_lt:
  assumes "normal_words ws" "limbs64 ws < 2 ^ (64 * n)"
  shows "length ws \<le> n"
proof (cases "ws = []")
  case False
  from normal_words_bounds(2) [OF assms(1) this] assms(2)
  have "(2::nat) ^ (64 * (length ws - 1)) < 2 ^ (64 * n)" by linarith
  then have "length ws - 1 < n" by simp
  then show ?thesis by simp
qed simp

lemma trim_words_value: "limbs64 (trim_words ws) = limbs64 ws" "normal_words (trim_words ws)"
  "length (trim_words ws) \<le> length ws"
proof (induction ws rule: trim_words.induct)
  case (1 ws)
  {
    case 1
    then show ?case
    proof (cases "ws \<noteq> [] \<and> last ws = 0")
      case True
      have "butlast ws @ [last ws] = ws" using True by (intro append_butlast_last_id) simp
      then have "limbs64 ws = limbs64 (butlast ws @ [last ws])" by (simp only:)
      also have "\<dots> = limbs64 (butlast ws)" using True by (simp only: limbs_val_append) simp
      finally show ?thesis using True "1.IH"(1) by (simp add: trim_words.simps [of ws])
    qed (auto simp: trim_words.simps [of ws])
  next
    case 2
    then show ?case using "1.IH"(2) by (auto simp: trim_words.simps [of ws] normal_words_def)
  next
    case 3
    then show ?case using "1.IH"(3) by (auto simp: trim_words.simps [of ws])
  }
qed

lemma bigint_set_value: "bi_val (bigint_set_u64 v) = unat v" "bi_inv (bigint_set_u64 v)"
  "\<not> bi_overflow (bigint_set_u64 v)"
  by (simp_all add: bigint_set_u64_def bi_inv_def normal_words_def BIGINT_WORDS_def)

lemma bigint_is_zero_value: "bi_inv b \<Longrightarrow> bigint_is_zero b \<longleftrightarrow> bi_val b = 0"
  using normal_words_zero by (auto simp: bigint_is_zero_def bi_inv_def)

lemma bigint_bitlen_value: "bi_inv b \<Longrightarrow> bigint_bitlen b = int (nbits (bi_val b))"
  using normal_words_bounds(1) [of "bi_w b"]
  by (auto simp: bigint_bitlen_def bit_count_loop_eq bi_inv_def of_nat_diff Suc_le_eq)

lemma bigint_cmp_loop_value:
  assumes "n \<le> length a" "length b = length a"
  shows "bigint_cmp_loop n a b = sgn (int (limbs64 (take n a)) - int (limbs64 (take n b)))"
  using assms
proof (induction n)
  case (Suc n)
  have ta: "limbs64 (take (Suc n) a) = limbs64 (take n a) + 2 ^ (64 * n) * unat (a ! n)"
    and tb: "limbs64 (take (Suc n) b) = limbs64 (take n b) + 2 ^ (64 * n) * unat (b ! n)"
    using Suc.prems by (simp_all add: take_Suc_conv_app_nth limbs_val_append)
  have la: "limbs64 (take n a) < 2 ^ (64 * n)" "limbs64 (take n b) < 2 ^ (64 * n)"
    using limbs64_bound [of "take n a"] limbs64_bound [of "take n b"] Suc.prems by (simp_all del: power_numeral)
  have lt: "x + P * u < y + P * v" if "x < P" "u < v" for x y P u v :: nat
  proof -
    have "P * Suc u \<le> P * v" using that(2) by (intro mult_le_mono2) simp
    then show ?thesis using that(1) by simp
  qed
  consider "a ! n < b ! n" | "b ! n < a ! n" | "a ! n = b ! n" by (rule linorder_cases)
  then show ?case
  proof cases
    case 1
    then have "limbs64 (take (Suc n) a) < limbs64 (take (Suc n) b)"
      unfolding ta tb using lt [OF la(1)] by (simp add: word_less_nat_alt)
    with 1 show ?thesis by auto
  next
    case 2
    then have "limbs64 (take (Suc n) b) < limbs64 (take (Suc n) a)"
      unfolding ta tb using lt [OF la(2)] by (simp add: word_less_nat_alt)
    with 2 show ?thesis by auto
  next
    case 3
    with Suc show ?thesis unfolding ta tb by simp
  qed
qed simp

lemma bigint_cmp_value:
  assumes "bi_inv a" "bi_inv b"
  shows "bigint_cmp a b = sgn (int (bi_val a) - int (bi_val b))"
proof -
  have lt: "bi_val x < bi_val y" if "bi_inv y" "length (bi_w x) < length (bi_w y)" for x y
  proof -
    have "bi_val x < 2 ^ (64 * length (bi_w x))" by (rule limbs64_bound)
    also have "\<dots> \<le> 2 ^ (64 * (length (bi_w y) - 1))" using that(2) by (intro power_increasing) auto
    also have "\<dots> \<le> bi_val y" using that by (intro normal_words_bounds(2)) (auto simp: bi_inv_def)
    finally show ?thesis .
  qed
  consider "length (bi_w a) < length (bi_w b)" | "length (bi_w b) < length (bi_w a)"
    | "length (bi_w a) = length (bi_w b)" by linarith
  then show ?thesis
  proof cases
    case 1
    with lt [OF assms(2) 1] show ?thesis by (simp add: bigint_cmp_def)
  next
    case 2
    with lt [OF assms(1) 2] show ?thesis by (simp add: bigint_cmp_def)
  next
    case 3
    then have "bigint_cmp a b = bigint_cmp_loop (length (bi_w a)) (bi_w a) (bi_w b)"
      by (simp only: bigint_cmp_def simp_thms if_False)
    also have "\<dots> = sgn (int (limbs64 (take (length (bi_w a)) (bi_w a))) - int (limbs64 (take (length (bi_w a)) (bi_w b))))"
      by (rule bigint_cmp_loop_value [OF order_refl 3 [symmetric]])
    finally show ?thesis by (simp only: take_all 3 order_refl)
  qed
qed

lemma bigint_test_bit_value: "bigint_test_bit b n \<longleftrightarrow> bit (bi_val b) n"
proof (cases "n div 64 < length (bi_w b)")
  case True
  have "bit (bi_w b ! (n div 64)) (n mod 64) \<longleftrightarrow> bit (unat (bi_w b ! (n div 64))) (n mod 64)"
    by (simp add: bit_unsigned_iff)
  also have "\<dots> \<longleftrightarrow> bit (bi_val b div 2 ^ (64 * (n div 64)) mod 2 ^ 64) (n mod 64)"
    by (simp only: limbs64_nth [OF True])
  also have "\<dots> \<longleftrightarrow> bit (bi_val b) (64 * (n div 64) + n mod 64)"
    by (simp only: drop_bit_eq_div [symmetric] take_bit_eq_mod [symmetric] bit_take_bit_iff bit_drop_bit_eq) simp
  finally have "bit (bi_w b ! (n div 64)) (n mod 64) \<longleftrightarrow> bit (bi_val b) n" by (simp only: mult_div_mod_eq)
  then show ?thesis
    unfolding bigint_test_bit_def Let_def bit_and_1 bit_drop_bit_eq using True by (simp add: o_def)
next
  case False
  have "n < 64 * length (bi_w b)" if "bit (bi_val b) n"
    by (rule nat_bit_bound [OF limbs64_bound that])
  with False show ?thesis by (auto simp: bigint_test_bit_def Let_def)
qed

section \<open>Shifting\<close>

lemma limbs_carry_step:
  "limbs64 (x # xs) + 2 ^ (64 * length (y # ys)) * c = unat x + 2 ^ 64 * (limbs64 xs + 2 ^ (64 * length ys) * c)"
  by (simp add: power_add algebra_simps)

lemma shl_words_value:
  assumes "0 < r" "r < 64" "unat carry < 2 ^ r" "shl_words r carry ws = (ws', c)"
  shows "limbs64 ws' + 2 ^ (64 * length ws) * unat c = limbs64 ws * 2 ^ r + unat carry"
    "length ws' = length ws" "unat c < 2 ^ r"
proof -
  have "limbs64 ws' + 2 ^ (64 * length ws) * unat c = limbs64 ws * 2 ^ r + unat carry
      \<and> length ws' = length ws \<and> unat c < 2 ^ r"
    using assms(3,4)
  proof (induction ws arbitrary: carry ws' c)
    case (Cons v vs)
    let ?c1 = "drop_bit (64 - r) v"
    obtain vs' c' where t: "shl_words r ?c1 vs = (vs', c')" by fastforce
    have c1: "unat ?c1 < 2 ^ r"
      using unat_u64_lt [of v] assms(1,2) pow2_split [of r 64, where 'a = nat]
      by (simp only: unat_shr less_mult_imp_div_less)
    note IH = Cons.IH [OF c1 t]
    have eq: "ws' = (push_bit r v OR carry) # vs'" "c = c'" using Cons.prems(2) t by simp_all
    have sh: "unat (push_bit r v) = unat v mod 2 ^ (64 - r) * 2 ^ r"
      using shl_mod_eq [of r 64 "unat v"] assms(2) by (simp add: unat_shl)
    then have "unat (push_bit r v) mod 2 ^ r = 0" by simp
    from unat_or_disjoint [OF this Cons.prems(1)]
    have head: "unat (push_bit r v OR carry) = unat v mod 2 ^ (64 - r) * 2 ^ r + unat carry"
      by (simp only: sh)
    have split: "unat v * 2 ^ r = unat ?c1 * 2 ^ 64 + unat v mod 2 ^ (64 - r) * 2 ^ r"
      using shl_mod_split [of r 64 "unat v"] assms(2) by (simp only: unat_shr)
    have "limbs64 ws' + 2 ^ (64 * length (v # vs)) * unat c
        = unat v mod 2 ^ (64 - r) * 2 ^ r + unat carry + 2 ^ 64 * (limbs64 vs' + 2 ^ (64 * length vs) * unat c')"
      unfolding eq limbs_carry_step head ..
    also have "limbs64 vs' + 2 ^ (64 * length vs) * unat c' = limbs64 vs * 2 ^ r + unat ?c1" using IH by blast
    finally have "limbs64 ws' + 2 ^ (64 * length (v # vs)) * unat c = limbs64 (v # vs) * 2 ^ r + unat carry"
      using split by (simp only: limbs_val.simps algebra_simps)
    then show ?case using IH eq by simp
  qed simp
  then show "limbs64 ws' + 2 ^ (64 * length ws) * unat c = limbs64 ws * 2 ^ r + unat carry"
    "length ws' = length ws" "unat c < 2 ^ r" by blast+
qed

lemma normal_words_ge:
  assumes "2 ^ (64 * (length ws - 1)) \<le> limbs64 ws"
  shows "normal_words ws"
  unfolding normal_words_def
proof (intro impI notI)
  assume ne: "ws \<noteq> []" and z: "last ws = 0"
  have "butlast ws @ [last ws] = ws" using ne by (rule append_butlast_last_id)
  then have "limbs64 ws = limbs64 (butlast ws) + 2 ^ (64 * length (butlast ws)) * limbs64 [last ws]"
    using limbs_val_append [of 64 "butlast ws" "[last ws]"] by (simp only:)
  also have "\<dots> = limbs64 (butlast ws)" using z by simp
  also have "\<dots> < 2 ^ (64 * (length ws - 1))"
    using limbs64_bound [of "butlast ws"] by (simp only: length_butlast)
  finally show False using assms by simp
qed

lemma normal_append_carry:
  assumes "normal_words ws" "0 < k" "limbs64 ws' = limbs64 ws * k" "length ws' = length ws"
  shows "normal_words ws'"
proof (cases "ws = []")
  case False
  have "2 ^ (64 * (length ws - 1)) \<le> limbs64 ws" by (rule normal_words_bounds(2) [OF assms(1) False])
  also have "\<dots> \<le> limbs64 ws'" using assms(2,3) by simp
  finally show ?thesis unfolding assms(4) [symmetric] by (rule normal_words_ge)
qed (use assms(4) in \<open>simp add: normal_words_def\<close>)

lemma bigint_shl_value:
  assumes inv: "bi_inv b" and fits: "length (bi_w b) + n div 64 + 1 \<le> BIGINT_WORDS"
  shows "bi_val (bigint_shl b n) = bi_val b * 2 ^ n" "bi_inv (bigint_shl b n)"
    "bi_overflow (bigint_shl b n) = bi_overflow b"
proof -
  define w r where "w = n div 64" and "r = n mod 64"
  have n: "n = 64 * w + r" by (simp add: w_def r_def)
  have r: "r < 64" by (simp add: r_def)
  let ?ws = "bi_w b"
  have nw: "normal_words ?ws" using inv by (simp add: bi_inv_def)
  define w1 where "w1 = (if r \<noteq> 0 then (let (ws, carry) = shl_words r 0 ?ws in if carry \<noteq> 0 then ws @ [carry] else ws) else ?ws)"
  have w1: "limbs64 w1 = limbs64 ?ws * 2 ^ r \<and> normal_words w1 \<and> length w1 \<le> length ?ws + 1"
  proof (cases "r = 0")
    case False
    obtain ws c where s: "shl_words r 0 ?ws = (ws, c)" by fastforce
    have v: "limbs64 ws + 2 ^ (64 * length ?ws) * unat c = limbs64 ?ws * 2 ^ r" "length ws = length ?ws"
      using shl_words_value [OF _ r _ s] False by simp_all
    show ?thesis
    proof (cases "c = 0")
      case True
      then have "limbs64 ws = limbs64 ?ws * 2 ^ r" using v by simp
      with True False s v(2) normal_append_carry [OF nw, of "2 ^ r" ws] show ?thesis by (simp add: w1_def)
    next
      case c: False
      then show ?thesis using False s v by (simp add: w1_def limbs_val_append normal_words_def)
    qed
  qed (simp add: w1_def nw)
  have d: "bigint_shl b n = (if ?ws = [] \<or> n = 0 then b
      else b\<lparr>bi_w := (if w \<noteq> 0 then replicate w 0 @ w1 else w1)\<rparr>)"
    using fits by (auto simp: bigint_shl_def Let_def w_def r_def w1_def)
  have rep: "limbs64 (if w \<noteq> 0 then replicate w 0 @ w1 else w1) = limbs64 w1 * 2 ^ (64 * w)"
    by (simp add: limbs_val_append mult.commute)
  show "bi_val (bigint_shl b n) = bi_val b * 2 ^ n"
    unfolding d using rep w1 normal_words_zero [OF nw] by (simp add: n power_add mult_ac)
  have "w1 \<noteq> []" if "?ws \<noteq> []" using w1 normal_words_zero [OF nw] that by auto
  then show "bi_inv (bigint_shl b n)"
    using inv w1 fits by (auto simp: d bi_inv_def normal_words_def w_def [symmetric])
  show "bi_overflow (bigint_shl b n) = bi_overflow b" by (simp add: d)
qed

section \<open>Multiplication and addition of a small number\<close>

lemma regroup: "r * M + L + M * M * q = (q * M + r) * M + (L :: nat)"
  by (simp add: algebra_simps)

lemma mul_word_value:
  fixes x m carry :: u64
  assumes "unat m < 2 ^ 32" "unat carry < 2 ^ 32"
  defines "lo \<equiv> (x AND 0xffffffff) * m + (carry AND 0xffffffff)"
  defines "hi \<equiv> drop_bit 32 x * m + drop_bit 32 lo + drop_bit 32 carry"
  shows "unat ((lo AND 0xffffffff) OR push_bit 32 hi) + 2 ^ 64 * unat (drop_bit 32 hi) = unat x * unat m + unat carry"
    and "unat (drop_bit 32 hi) < 2 ^ 32"
proof -
  let ?M = "2 ^ 32 :: nat"
  have mk: "(0xffffffff :: u64) = mask 32" by (simp add: mask_eq_exp_minus_1)
  define x0 x1 where "x0 = unat x mod ?M" and "x1 = unat x div ?M"
  have x: "unat x = x1 * ?M + x0" by (simp add: x0_def x1_def)
  have lt: "x0 < ?M" "x1 < ?M" using unat_u64_lt [of x] by (simp_all add: x0_def x1_def less_mult_imp_div_less)
  have pr: "p * unat m \<le> (?M - 1) * (?M - 1)" if "p < ?M" for p
    using that assms(1) by (intro mult_le_mono) simp_all
  have lo: "unat lo = x0 * unat m + unat carry"
    using pr [OF lt(1)] assms(2) unfolding lo_def mk unat_word_ariths unat_low_mask x0_def [symmetric] by simp
  have hi: "unat hi = x1 * unat m + unat lo div ?M"
  proof -
    have "unat lo div ?M < ?M" using unat_u64_lt [of lo] by (simp add: less_mult_imp_div_less)
    moreover have "unat carry div ?M = 0" using assms(2) by simp
    ultimately show ?thesis
      using pr [OF lt(2)] unfolding hi_def unat_word_ariths unat_shr x1_def [symmetric] by simp
  qed
  show "unat (drop_bit 32 hi) < 2 ^ 32"
    unfolding unat_shr using unat_u64_lt [of hi] by (simp add: less_mult_imp_div_less)
  have "unat (push_bit 32 hi) = unat hi mod ?M * ?M" using shl_mod_eq [of 32 64 "unat hi"] by (simp add: unat_shl)
  moreover from this have "unat (push_bit 32 hi OR (lo AND mask 32)) = unat (push_bit 32 hi) + unat (lo AND mask 32)"
    by (intro unat_or_disjoint [of _ 32]) (simp_all add: unat_low_mask)
  ultimately have "unat ((lo AND 0xffffffff) OR push_bit 32 hi) = unat hi mod ?M * ?M + unat lo mod ?M"
    unfolding mk by (simp add: or.commute unat_low_mask)
  moreover have "unat hi mod ?M * ?M + unat lo mod ?M + 2 ^ 64 * (unat hi div ?M) = unat x * unat m + unat carry"
  proof -
    have "unat hi mod ?M * ?M + unat lo mod ?M + (?M * ?M) * (unat hi div ?M) = unat hi * ?M + unat lo mod ?M"
      by (simp only: regroup div_mult_mod_eq)
    also have "\<dots> = x1 * unat m * ?M + (unat lo div ?M * ?M + unat lo mod ?M)"
      by (simp add: hi algebra_simps)
    also have "unat lo div ?M * ?M + unat lo mod ?M = x0 * unat m + unat carry" by (simp only: div_mult_mod_eq lo)
    finally show ?thesis by (simp add: x algebra_simps)
  qed
  ultimately show "unat ((lo AND 0xffffffff) OR push_bit 32 hi) + 2 ^ 64 * unat (drop_bit 32 hi) = unat x * unat m + unat carry"
    by (simp only: unat_shr)
qed

lemma mul_words_value:
  assumes "unat m < 2 ^ 32" "unat carry < 2 ^ 32" "mul_words m carry ws = (ws', c)"
  shows "limbs64 ws' + 2 ^ (64 * length ws) * unat c = limbs64 ws * unat m + unat carry \<and> length ws' = length ws"
  using assms(2,3)
proof (induction ws arbitrary: carry ws' c)
  case (Cons x xs)
  define lo where "lo = (x AND 0xffffffff) * m + (carry AND 0xffffffff)"
  define hi where "hi = drop_bit 32 x * m + drop_bit 32 lo + drop_bit 32 carry"
  obtain xs' c' where t: "mul_words m (drop_bit 32 hi) xs = (xs', c')" by fastforce
  note v = mul_word_value [OF assms(1) Cons.prems(1), of x, folded lo_def, folded hi_def]
  have IH: "limbs64 xs' + 2 ^ (64 * length xs) * unat c' = limbs64 xs * unat m + unat (drop_bit 32 hi)" "length xs' = length xs"
    using Cons.IH [OF v(2) t] by blast+
  have eq: "ws' = ((lo AND 0xffffffff) OR push_bit 32 hi) # xs'" "c = c'"
    using Cons.prems(2) t by (simp_all add: Let_def lo_def hi_def)
  have "limbs64 ws' + 2 ^ (64 * length (x # xs)) * unat c
      = (unat ((lo AND 0xffffffff) OR push_bit 32 hi) + 2 ^ 64 * unat (drop_bit 32 hi)) + 2 ^ 64 * (limbs64 xs * unat m)"
    unfolding eq limbs_carry_step IH(1) by (simp only: distrib_left add_ac)
  also have "\<dots> = limbs64 (x # xs) * unat m + unat carry"
    unfolding v(1) by (simp only: limbs_val.simps algebra_simps)
  finally show ?case using IH(2) eq by simp
qed simp

lemma words_overflow_iff:
  fixes c :: u64
  assumes "limbs64 ws + 2 ^ (64 * length ws) * unat c = V" "length ws \<le> BIGINT_WORDS"
  shows "c \<noteq> 0 \<and> length ws \<ge> BIGINT_WORDS \<longleftrightarrow> 2 ^ (64 * BIGINT_WORDS) \<le> V"
proof -
  have lt: "limbs64 ws < 2 ^ (64 * length ws)" by (rule limbs64_bound)
  have c: "1 \<le> unat c" if "c \<noteq> 0" using that by (simp add: Suc_le_eq unat_gt_0)
  show ?thesis
  proof (cases "length ws = BIGINT_WORDS")
    case True
    show ?thesis
    proof (cases "c = 0")
      case False
      have "2 ^ (64 * length ws) * 1 \<le> 2 ^ (64 * length ws) * unat c" using c [OF False] by (intro mult_le_mono2)
      then have "2 ^ (64 * length ws) \<le> V" using assms(1) by linarith
      then show ?thesis using False True by simp
    qed (use assms(1) lt True in simp)
  next
    case False
    then have "Suc (length ws) \<le> BIGINT_WORDS" using assms(2) by simp
    have "V < 2 ^ (64 * length ws) * 2 ^ 64"
    proof -
      have "2 ^ (64 * length ws) * Suc (unat c) \<le> 2 ^ (64 * length ws) * 2 ^ 64"
        using unat_u64_lt [of c] by (intro mult_le_mono2) simp
      then show ?thesis using assms(1) lt by (simp only: mult_Suc_right)
    qed
    also have "\<dots> = 2 ^ (64 * Suc (length ws))" by (simp add: power_add)
    also have "\<dots> \<le> 2 ^ (64 * BIGINT_WORDS)" using \<open>Suc (length ws) \<le> BIGINT_WORDS\<close> by (intro power_increasing) auto
    finally show ?thesis using False assms(2) by simp
  qed
qed

lemma bigint_mul_small_value:
  assumes inv: "bi_inv b" and m: "m \<noteq> 0"
  shows "bi_val b * unat m < 2 ^ (64 * BIGINT_WORDS) \<Longrightarrow>
      bi_val (bigint_mul_small b m) = bi_val b * unat m \<and> bi_inv (bigint_mul_small b m)
      \<and> bi_overflow (bigint_mul_small b m) = bi_overflow b"
    and "2 ^ (64 * BIGINT_WORDS) \<le> bi_val b * unat m \<Longrightarrow> bi_overflow (bigint_mul_small b m)"
proof -
  have nw: "normal_words (bi_w b)" and len: "length (bi_w b) \<le> BIGINT_WORDS" using inv by (simp_all add: bi_inv_def)
  have bound: "bi_val b < 2 ^ (64 * BIGINT_WORDS)"
    using limbs64_bound [of "bi_w b"] len power_increasing [of "64 * length (bi_w b)" "64 * BIGINT_WORDS" "2::nat"] by linarith
  obtain ws c where mw: "mul_words (ucast m) 0 (bi_w b) = (ws, c)" by fastforce
  have um: "unat (ucast m :: u64) = unat m"
    using unat_lt_2p [of m] by (simp add: unsigned_ucast_eq take_bit_eq_mod)
  have "unat (ucast m :: u64) < 2 ^ 32" unfolding um using unat_lt_2p [of m] by simp
  from mul_words_value [OF this _ mw]
  have v: "limbs64 ws + 2 ^ (64 * length (bi_w b)) * unat c = bi_val b * unat m" "length ws = length (bi_w b)"
    by (simp_all add: um)
  note ov = words_overflow_iff [OF v(1) [folded v(2)]]
  have d: "bigint_mul_small b m = (if bi_w b = [] \<or> m = 1 then b
      else if c \<noteq> 0 then (if length ws \<ge> BIGINT_WORDS then b\<lparr>bi_w := ws, bi_overflow := True\<rparr> else b\<lparr>bi_w := ws @ [c]\<rparr>)
      else b\<lparr>bi_w := ws\<rparr>)"
    using m by (simp add: bigint_mul_small_def mw)
  have nn: "normal_words ws" if "c = 0"
    using normal_append_carry [OF nw, of "unat m" ws] v m that by (simp add: unat_gt_0)
  show "bi_val (bigint_mul_small b m) = bi_val b * unat m \<and> bi_inv (bigint_mul_small b m)
      \<and> bi_overflow (bigint_mul_small b m) = bi_overflow b" if "bi_val b * unat m < 2 ^ (64 * BIGINT_WORDS)"
  proof (cases "bi_w b = [] \<or> m = 1")
    case False
    show ?thesis
    proof (cases "c = 0")
      case True
      with False v nn len show ?thesis by (simp add: d bi_inv_def)
    next
      case c: False
      then have "length ws < BIGINT_WORDS" using ov that v(2) len by linarith
      with False c v show ?thesis
        by (simp add: d bi_inv_def limbs_val_append normal_words_def)
    qed
  qed (use inv in \<open>auto simp: d\<close>)
  show "bi_overflow (bigint_mul_small b m)" if big: "2 ^ (64 * BIGINT_WORDS) \<le> bi_val b * unat m"
  proof -
    have "\<not> (bi_w b = [] \<or> m = 1)" using big bound by auto
    moreover have "c \<noteq> 0 \<and> length ws \<ge> BIGINT_WORDS" using ov big v(2) len by simp
    ultimately show ?thesis by (simp add: d)
  qed
qed

lemma add_words_value:
  assumes "add_words carry ws = (ws', c)"
  shows "limbs64 ws' + 2 ^ (64 * length ws) * unat c = limbs64 ws + unat carry \<and> length ws' = length ws"
  using assms
proof (induction ws arbitrary: carry ws' c)
  case (Cons x xs)
  show ?case
  proof (cases "carry = 0")
    case False
    define x' k where "x' = x + carry" and "k = (if x' < x then 1 else 0 :: u64)"
    obtain xs' c' where t: "add_words k xs = (xs', c')" by fastforce
    have eq: "ws' = x' # xs'" "c = c'" using Cons.prems False t by (simp_all add: Let_def x'_def k_def)
    have IH: "limbs64 xs' + 2 ^ (64 * length xs) * unat c' = limbs64 xs + unat k" "length xs' = length xs"
      using Cons.IH [OF t] by blast+
    have "x' < x \<longleftrightarrow> 2 ^ 64 \<le> unat x + unat carry"
      using unat_u64_lt [of x] unat_u64_lt [of carry]
      by (auto simp: x'_def word_less_nat_alt unat_word_ariths mod_if)
    then have step: "unat x' + 2 ^ 64 * unat k = unat x + unat carry"
    proof -
      have "unat k = (unat x + unat carry) div 2 ^ 64"
        using \<open>x' < x \<longleftrightarrow> _\<close> div_carry [of "unat x + unat carry" "2 ^ 64"] unat_u64_lt [of x] unat_u64_lt [of carry]
        by (simp add: k_def)
      moreover have "unat x' = (unat x + unat carry) mod 2 ^ 64" by (simp add: x'_def unat_word_ariths)
      ultimately show ?thesis by (simp only: mod_mult_div_eq)
    qed
    have "limbs64 ws' + 2 ^ (64 * length (x # xs)) * unat c = (unat x' + 2 ^ 64 * unat k) + 2 ^ 64 * limbs64 xs"
      unfolding eq limbs_carry_step IH(1) by (simp only: distrib_left add_ac)
    also have "\<dots> = limbs64 (x # xs) + unat carry" unfolding step by (simp only: limbs_val.simps add_ac)
    finally show ?thesis using IH(2) eq by simp
  qed (use Cons.prems in simp)
qed simp

lemma bigint_add_small_value:
  assumes inv: "bi_inv b" and no: "\<not> bi_overflow b"
  shows "bi_val b + unat v < 2 ^ (64 * BIGINT_WORDS) \<Longrightarrow>
      bi_val (bigint_add_small b v) = bi_val b + unat v \<and> bi_inv (bigint_add_small b v)
      \<and> \<not> bi_overflow (bigint_add_small b v)"
    and "2 ^ (64 * BIGINT_WORDS) \<le> bi_val b + unat v \<Longrightarrow> bi_overflow (bigint_add_small b v)"
proof -
  have nw: "normal_words (bi_w b)" and len: "length (bi_w b) \<le> BIGINT_WORDS" using inv by (simp_all add: bi_inv_def)
  have bound: "bi_val b < 2 ^ (64 * BIGINT_WORDS)"
    using limbs64_bound [of "bi_w b"] len power_increasing [of "64 * length (bi_w b)" "64 * BIGINT_WORDS" "2::nat"] by linarith
  obtain ws c where aw: "add_words (ucast v) (bi_w b) = (ws, c)" by fastforce
  have um: "unat (ucast v :: u64) = unat v"
    using unat_lt_2p [of v] by (simp add: unsigned_ucast_eq take_bit_eq_mod)
  from add_words_value [OF aw]
  have w: "limbs64 ws + 2 ^ (64 * length (bi_w b)) * unat c = bi_val b + unat v" "length ws = length (bi_w b)"
    by (simp_all add: um)
  note ov = words_overflow_iff [OF w(1) [folded w(2)]]
  have d: "bigint_add_small b v = (if v = 0 then b
      else if c \<noteq> 0 then (if length ws \<ge> BIGINT_WORDS then b\<lparr>bi_w := ws, bi_overflow := True\<rparr> else b\<lparr>bi_w := ws @ [c]\<rparr>)
      else b\<lparr>bi_w := ws\<rparr>)"
    using no by (simp add: bigint_add_small_def aw)
  have nn: "normal_words ws" if "c = 0"
  proof (cases "bi_w b = []")
    case False
    have "2 ^ (64 * (length ws - 1)) \<le> limbs64 ws"
      using normal_words_bounds(2) [OF nw False] w that by (simp del: One_nat_def)
    then show ?thesis by (rule normal_words_ge)
  qed (use w in \<open>simp add: normal_words_def\<close>)
  show "bi_val (bigint_add_small b v) = bi_val b + unat v \<and> bi_inv (bigint_add_small b v)
      \<and> \<not> bi_overflow (bigint_add_small b v)" if "bi_val b + unat v < 2 ^ (64 * BIGINT_WORDS)"
  proof (cases "v = 0")
    case False
    show ?thesis
    proof (cases "c = 0")
      case True
      with False w nn len no show ?thesis by (simp add: d bi_inv_def)
    next
      case c: False
      then have "length ws < BIGINT_WORDS" using ov that w(2) len by linarith
      with False c w no show ?thesis
        by (simp add: d bi_inv_def limbs_val_append normal_words_def)
    qed
  qed (use inv no in \<open>auto simp: bigint_add_small_def\<close>)
  show "bi_overflow (bigint_add_small b v)" if big: "2 ^ (64 * BIGINT_WORDS) \<le> bi_val b + unat v"
  proof -
    have "v \<noteq> 0" using big bound by (auto simp: not_le)
    moreover have "c \<noteq> 0 \<and> length ws \<ge> BIGINT_WORDS" using ov big w(2) len by simp
    ultimately show ?thesis by (simp add: d)
  qed
qed

section \<open>Powers of ten\<close>

lemma pow10_table_value: "e < 10 \<Longrightarrow> unat (pow10_table ! e) = 10 ^ e"
proof -
  assume "e < 10"
  then have "e \<in> {0, 1, 2, 3, 4, 5, 6, 7, 8, 9}" by auto
  then show ?thesis by (auto simp: pow10_table_def)
qed

lemma bigint_mul_pow10_overflowed: "bi_overflow b \<Longrightarrow> bigint_mul_pow10 b e = b"
  by (simp add: bigint_mul_pow10.simps [of b e])

lemma bigint_mul_pow10_value:
  assumes "bi_inv b" "\<not> bi_overflow b"
  shows "if bi_val b * 10 ^ e < 2 ^ (64 * BIGINT_WORDS) then
      bi_val (bigint_mul_pow10 b e) = bi_val b * 10 ^ e \<and> bi_inv (bigint_mul_pow10 b e)
      \<and> \<not> bi_overflow (bigint_mul_pow10 b e)
    else bi_overflow (bigint_mul_pow10 b e)"
  using assms
proof (induction b e rule: bigint_mul_pow10.induct)
  case (1 b e)
  let ?C = "2 ^ (64 * BIGINT_WORDS) :: nat"
  note mul = bigint_mul_small_value [OF "1.prems"(1)]
  show ?case
  proof (cases "9 \<le> e")
    case True
    let ?c = "bigint_mul_small b 1000000000"
    have p: "bi_val b * 10 ^ e = bi_val b * 1000000000 * 10 ^ (e - 9)"
      using True power_add [of "10 :: nat" 9 "e - 9"] by simp
    have s: "bigint_mul_pow10 b e = bigint_mul_pow10 ?c (e - 9)"
      using True "1.prems"(2) by (simp add: bigint_mul_pow10.simps [of b e])
    show ?thesis
    proof (cases "bi_val b * 1000000000 < ?C")
      case small: True
      then have c: "bi_val ?c = bi_val b * 1000000000" "bi_inv ?c" "\<not> bi_overflow ?c"
        using mul(1) [of 1000000000] "1.prems"(2) by simp_all
      have cond: "9 \<le> e \<and> \<not> bi_overflow b" using True "1.prems"(2) by blast
      show ?thesis unfolding s p c(1) [symmetric] by (rule "1.IH" [OF cond c(2,3)])
    next
      case False
      then have "bi_overflow ?c" using mul(2) [of 1000000000] by simp
      moreover have "\<not> bi_val b * 1000000000 * 10 ^ (e - 9) < ?C"
      proof -
        have "1 \<le> (10 :: nat) ^ (e - 9)" by simp
        from mult_le_mono2 [OF this, of "bi_val b * 1000000000"] False show ?thesis by linarith
      qed
      ultimately show ?thesis unfolding s p by (simp add: bigint_mul_pow10_overflowed)
    qed
  next
    case False
    then have m: "unat (pow10_table ! e) = 10 ^ e" by (intro pow10_table_value) simp
    then have nz: "pow10_table ! e \<noteq> 0" by (metis power_not_zero unat_0 zero_neq_numeral)
    have s: "bigint_mul_pow10 b e = (if e > 0 then bigint_mul_small b (pow10_table ! e) else b)"
      using False "1.prems"(2) by (simp add: bigint_mul_pow10.simps [of b e])
    have lt: "bi_val b < ?C"
      using limbs64_bound [of "bi_w b"] "1.prems"(1) power_increasing [of "64 * length (bi_w b)" "64 * BIGINT_WORDS" "2::nat"]
      by (simp add: bi_inv_def del: power_increasing_iff)
    show ?thesis
    proof (cases "e = 0")
      case True
      then have "bigint_mul_pow10 b e = b" by (simp add: bigint_mul_pow10.simps [of b 0])
      with True "1.prems" lt show ?thesis by simp
    next
      case False
      with mul [OF nz] "1.prems"(2) show ?thesis by (auto simp: s m)
    qed
  qed
qed

section \<open>Subtraction\<close>

lemma sub_word_value:
  fixes av bv borrow :: u64
  assumes "borrow = 0 \<or> borrow = 1"
  defines "out \<equiv> (if av < bv + borrow \<or> bv + borrow < bv then 1 else 0 :: u64)"
  shows "unat (av - bv - borrow) + unat bv + unat borrow = unat av + 2 ^ 64 * unat out"
proof -
  have b: "unat borrow \<le> 1" using assms(1) by auto
  let ?s = "unat bv + unat borrow"
  have wrap: "bv + borrow < bv \<longleftrightarrow> 2 ^ 64 \<le> ?s"
    using unat_u64_lt [of bv] b by (auto simp: word_less_nat_alt unat_word_ariths mod_if)
  have out: "unat out = (if unat av < ?s then 1 else 0)"
  proof (cases "2 ^ 64 \<le> ?s")
    case True
    then show ?thesis using wrap unat_u64_lt [of av] by (simp add: out_def)
  next
    case False
    then have "unat (bv + borrow) = ?s" by (simp add: unat_word_ariths)
    then show ?thesis using False wrap by (simp add: out_def word_less_nat_alt)
  qed
  have "int (unat (av - bv - borrow)) = (int (unat av) - int (unat bv) - int (unat borrow)) mod 2 ^ 64"
    by (simp add: uint_word_ariths mod_simps)
  also have "\<dots> = int (unat av) - int ?s + 2 ^ 64 * int (unat out)"
  proof (cases "unat av < ?s")
    case True
    have "(int (unat av) - int (unat bv) - int (unat borrow)) mod 2 ^ 64 = (int (unat av) - int ?s + 2 ^ 64) mod 2 ^ 64"
      by (simp add: diff_diff_eq)
    also have "\<dots> = int (unat av) - int ?s + 2 ^ 64"
      using True b unat_u64_lt [of bv] by (intro mod_pos_pos_trivial) (simp_all del: of_nat_unat)
    finally show ?thesis using True out by simp
  next
    case False
    then show ?thesis
      using out unat_u64_lt [of av] by (simp add: mod_pos_pos_trivial del: of_nat_unat)
  qed
  finally have "int (unat (av - bv - borrow) + unat bv + unat borrow) = int (unat av + 2 ^ 64 * unat out)"
    by simp
  then show ?thesis by (simp only: of_nat_eq_iff)
qed

lemma sub_words_value:
  assumes "borrow = 0 \<or> borrow = 1" "length bs \<le> length as"
  shows "(\<exists>c. limbs64 (sub_words borrow as bs) + limbs64 bs + unat borrow = limbs64 as + c * 2 ^ (64 * length as))
    \<and> length (sub_words borrow as bs) = length as"
  using assms
proof (induction as arbitrary: borrow bs)
  case (Cons av as)
  define bv where "bv = (case bs of [] \<Rightarrow> 0 | x # _ \<Rightarrow> x)"
  define k where "k = (if av < bv + borrow \<or> bv + borrow < bv then 1 else 0 :: u64)"
  have k: "k = 0 \<or> k = 1" by (simp add: k_def)
  have "length (tl bs) \<le> length as" using Cons.prems(2) by simp
  from Cons.IH [OF k this] obtain c
    where IH: "limbs64 (sub_words k as (tl bs)) + limbs64 (tl bs) + unat k = limbs64 as + c * 2 ^ (64 * length as)"
      and len: "length (sub_words k as (tl bs)) = length as" by blast
  have bs: "limbs64 bs = unat bv + 2 ^ 64 * limbs64 (tl bs)"
    unfolding bv_def by (cases bs) simp_all
  have w: "unat (av - bv - borrow) + unat bv + unat borrow = unat av + 2 ^ 64 * unat k"
    unfolding k_def by (rule sub_word_value [OF Cons.prems(1)])
  have s: "sub_words borrow (av # as) bs = (av - bv - borrow) # sub_words k as (tl bs)"
    by (simp add: Let_def bv_def k_def)
  have "limbs64 (sub_words borrow (av # as) bs) + limbs64 bs + unat borrow
      = (unat (av - bv - borrow) + unat bv + unat borrow) + 2 ^ 64 * (limbs64 (sub_words k as (tl bs)) + limbs64 (tl bs))"
    unfolding bs s by simp
  also have "\<dots> = unat av + 2 ^ 64 * (limbs64 (sub_words k as (tl bs)) + limbs64 (tl bs) + unat k)"
    unfolding w by (simp only: distrib_left add_ac)
  also have "\<dots> = limbs64 (av # as) + c * 2 ^ (64 * length (av # as))"
    unfolding IH by (simp add: power_add algebra_simps)
  finally show ?case unfolding s using len by auto
qed simp

lemma bigint_sub_value:
  assumes inv: "bi_inv a" "bi_inv b" and le: "bi_val b \<le> bi_val a"
  shows "bi_val (bigint_sub a b) = bi_val a - bi_val b" "bi_inv (bigint_sub a b)"
    "bi_overflow (bigint_sub a b) = bi_overflow a"
proof -
  have len: "length (bi_w b) \<le> length (bi_w a)"
  proof (rule normal_words_lt)
    show "normal_words (bi_w b)" using inv by (simp add: bi_inv_def)
    show "bi_val b < 2 ^ (64 * length (bi_w a))" using limbs64_bound [of "bi_w a"] le by linarith
  qed
  let ?s = "sub_words 0 (bi_w a) (bi_w b)"
  obtain c where c: "limbs64 ?s + bi_val b = bi_val a + c * 2 ^ (64 * length (bi_w a))" "length ?s = length (bi_w a)"
    using sub_words_value [of 0 "bi_w b" "bi_w a"] len by auto
  have "limbs64 ?s < 2 ^ (64 * length (bi_w a))" using limbs64_bound [of ?s] c(2) by simp
  then have "c * 2 ^ (64 * length (bi_w a)) < 1 * 2 ^ (64 * length (bi_w a))" using c(1) le by linarith
  then have "c = 0" by simp
  then have s: "limbs64 ?s = bi_val a - bi_val b" using c(1) by simp
  then show "bi_val (bigint_sub a b) = bi_val a - bi_val b" by (simp add: bigint_sub_def trim_words_value)
  show "bi_inv (bigint_sub a b)"
    using inv(1) c(2) trim_words_value(2,3) [of ?s] by (simp add: bi_inv_def bigint_sub_def)
  show "bi_overflow (bigint_sub a b) = bi_overflow a" by (simp add: bigint_sub_def)
qed

section \<open>Long division\<close>

lemma set_low_word_bit:
  assumes "even (limbs64 (x # xs))"
  shows "limbs64 ((x OR 1) # xs) = limbs64 (x # xs) + 1"
proof -
  have "unat x mod 2 ^ 1 = 0" using assms by simp
  from unat_or_disjoint [OF this, of 1] show ?thesis by simp
qed

lemma or_1_nonzero: "x OR 1 \<noteq> (0 :: u64)"
  by (metis bit_and_1 bit_or_iff bit_1_iff bit_0_eq bot_apply bot_bool_def)

text \<open>The remainder after a bit of the dividend has been shifted in.\<close>

lemma shift_in_bit:
  fixes t :: bool
  assumes inv: "bi_inv r" and len: "length (bi_w r) < BIGINT_WORDS"
  defines "r1 \<equiv> bigint_shl r 1"
  defines "r2 \<equiv> (if t then (if bi_w r1 = [] then r1\<lparr>bi_w := [1]\<rparr>
                            else r1\<lparr>bi_w := (hd (bi_w r1) OR 1) # tl (bi_w r1)\<rparr>) else r1)"
  shows "bi_val r2 = 2 * bi_val r + of_bool t" "bi_inv r2"
proof -
  have r1: "bi_val r1 = 2 * bi_val r" "bi_inv r1"
    unfolding r1_def using bigint_shl_value [OF inv, of 1] len by simp_all
  show "bi_val r2 = 2 * bi_val r + of_bool t"
  proof (cases "t \<and> bi_w r1 \<noteq> []")
    case True
    have "bi_w r1 = hd (bi_w r1) # tl (bi_w r1)" using True by simp
    moreover have "even (limbs64 (bi_w r1))" using r1(1) by simp
    ultimately have "limbs64 ((hd (bi_w r1) OR 1) # tl (bi_w r1)) = bi_val r1 + 1"
      using set_low_word_bit [of "hd (bi_w r1)" "tl (bi_w r1)"] by metis
    with True r1(1) show ?thesis by (simp add: r2_def)
  qed (use r1(1) in \<open>auto simp: r2_def\<close>)
  show "bi_inv r2"
    using r1(2) or_1_nonzero by (cases "bi_w r1") (auto simp: r2_def bi_inv_def normal_words_def BIGINT_WORDS_def)
qed

lemma divide_step_value:
  assumes den: "bi_inv den" "0 < bi_val den" "length (bi_w den) < BIGINT_WORDS"
    and rem: "bi_inv rem" "bi_val rem = bi_val num div 2 ^ Suc i mod bi_val den"
    and q: "u128v hi lo = bi_val num div 2 ^ Suc i div bi_val den" "p = 0 \<longrightarrow> u128v hi lo = 0"
    and small: "bi_val num div bi_val den < 2 ^ 128"
    and step: "divide_step num den i (rem, hi, lo, p) = (rem', hi', lo', p')"
  shows "bi_inv rem' \<and> bi_val rem' = bi_val num div 2 ^ i mod bi_val den
    \<and> u128v hi' lo' = bi_val num div 2 ^ i div bi_val den \<and> (p' = 0 \<longrightarrow> u128v hi' lo' = 0)"
proof -
  let ?N = "bi_val num" and ?D = "bi_val den"
  define M t where "M = ?N div 2 ^ Suc i" and "t = bigint_test_bit num i"
  define Q R where "Q = M div ?D" and "R = M mod ?D"
  define r1 where "r1 = bigint_shl rem 1"
  define r2 where "r2 = (if t then (if bi_w r1 = [] then r1\<lparr>bi_w := [1]\<rparr>
                            else r1\<lparr>bi_w := (hd (bi_w r1) OR 1) # tl (bi_w r1)\<rparr>) else r1)"
  have lt: "bi_val rem < ?D" using rem(2) den(2) by simp
  have "length (bi_w rem) \<le> length (bi_w den)"
  proof (rule normal_words_lt)
    show "normal_words (bi_w rem)" using rem by (simp add: bi_inv_def)
    show "bi_val rem < 2 ^ (64 * length (bi_w den))" using limbs64_bound [of "bi_w den"] lt by linarith
  qed
  then have len: "length (bi_w rem) < BIGINT_WORDS" using den(3) by linarith
  have r2: "bi_val r2 = 2 * R + of_bool t" "bi_inv r2"
    using shift_in_bit [OF rem(1) len, of t, folded r1_def, folded r2_def] rem(2) [folded M_def, folded R_def]
    by (simp_all only:)
  have bitN: "?N div 2 ^ i = 2 * M + of_bool t"
  proof -
    have "?N div 2 ^ i = 2 * (?N div 2 ^ i div 2) + ?N div 2 ^ i mod 2" by (simp only: mult_div_mod_eq)
    moreover have "?N div 2 ^ i mod 2 = of_bool t"
      unfolding t_def bigint_test_bit_value bit_iff_odd by (simp add: mod2_eq_if)
    ultimately show ?thesis by (simp only: M_def power_Suc2 div_mult2_eq)
  qed
  have MQ: "M = Q * ?D + R" by (simp only: Q_def R_def div_mult_mod_eq)
  have N: "?N div 2 ^ i = 2 * Q * ?D + bi_val r2" unfolding bitN r2(1) by (subst MQ) (simp add: algebra_simps)
  have cmp: "bigint_cmp r2 den \<ge> 0 \<longleftrightarrow> ?D \<le> bi_val r2"
    unfolding bigint_cmp_value [OF r2(2) den(1)] by (auto simp: sgn_if)
  have r2lt: "bi_val r2 < 2 * ?D" using lt rem(2) unfolding r2(1) by (simp add: R_def M_def)
  have qsmall: "?N div 2 ^ i div ?D < 2 ^ 128"
  proof -
    have "?N div 2 ^ i div ?D \<le> ?N div ?D" by (intro div_le_mono div_le_dividend)
    then show ?thesis using small by linarith
  qed
  have sh: "u128v (push_bit 1 hi OR drop_bit 63 lo) (push_bit 1 lo) = 2 * Q mod 2 ^ 128"
    using u128_shl_value [of hi lo 1] q(1) by (simp add: u128_shl_def Q_def M_def mult.commute)
  have st: "(rem', hi', lo', p') =
      (if ?D \<le> bi_val r2 then (bigint_sub r2 den, push_bit 1 hi OR drop_bit 63 lo, push_bit 1 lo OR 1, p + 1)
       else if p \<noteq> 0 then (r2, push_bit 1 hi OR drop_bit 63 lo, push_bit 1 lo, p + 1)
       else (r2, hi, lo, p))"
    using step unfolding divide_step_def Let_def prod.case t_def [symmetric] r1_def [symmetric] r2_def [symmetric] cmp by simp
  show ?thesis
  proof (cases "?D \<le> bi_val r2")
    case True
    have "?N div 2 ^ i = (2 * Q + 1) * ?D + (bi_val r2 - ?D)" using N True by (simp add: algebra_simps)
    then have "?N div 2 ^ i div ?D = 2 * Q + 1" "?N div 2 ^ i mod ?D = bi_val r2 - ?D"
      using r2lt True den(2) by (simp_all add: div_nat_eqI mod_nat_eqI)
    moreover have "u128v hi' lo' = 2 * Q + 1"
    proof -
      have small': "2 * Q < 2 ^ 128" using qsmall calculation(1) by linarith
      have "even (u128v (push_bit 1 hi OR drop_bit 63 lo) (push_bit 1 lo))" unfolding sh using small' by simp
      then have "unat (push_bit 1 lo) mod 2 ^ 1 = 0" by (simp add: u128v_def)
      from unat_or_disjoint [OF this, of 1]
      have "u128v (push_bit 1 hi OR drop_bit 63 lo) (push_bit 1 lo OR 1)
          = u128v (push_bit 1 hi OR drop_bit 63 lo) (push_bit 1 lo) + 1" by (simp add: u128v_def)
      then show ?thesis using st True small' unfolding sh by simp
    qed
    ultimately show ?thesis using st True bigint_sub_value [OF r2(2) den(1) True] by simp
  next
    case False
    then have "?N div 2 ^ i div ?D = 2 * Q" "?N div 2 ^ i mod ?D = bi_val r2"
      using N den(2) by simp_all
    moreover have "u128v hi' lo' = 2 * Q \<and> (p' = 0 \<longrightarrow> u128v hi' lo' = 0)"
    proof (cases "p = 0")
      case True
      then show ?thesis using st False q by (simp add: Q_def M_def)
    next
      case p: False
      have "2 * Q < 2 ^ 128" using qsmall calculation(1) by linarith
      then show ?thesis using st False p sh by simp
    qed
    ultimately show ?thesis using st False r2(2) by (auto split: if_splits)
  qed
qed

lemma divide_loop_value:
  assumes den: "bi_inv den" "0 < bi_val den" "length (bi_w den) < BIGINT_WORDS"
    and small: "bi_val num div bi_val den < 2 ^ 128"
    and "bi_inv rem" "bi_val rem = bi_val num div 2 ^ n mod bi_val den"
    and "u128v hi lo = bi_val num div 2 ^ n div bi_val den" "p = 0 \<longrightarrow> u128v hi lo = 0"
    and "divide_loop num den n (rem, hi, lo, p) = (rem', hi', lo', p')"
  shows "bi_inv rem' \<and> bi_val rem' = bi_val num mod bi_val den \<and> u128v hi' lo' = bi_val num div bi_val den"
  using assms(5-)
proof (induction n arbitrary: rem hi lo p)
  case (Suc i)
  obtain r1 h1 l1 p1 where st: "divide_step num den i (rem, hi, lo, p) = (r1, h1, l1, p1)" by (metis prod_cases4)
  note v = divide_step_value [OF den Suc.prems(1-4) small st]
  show ?case
    using v Suc.prems(5) by (intro Suc.IH [of r1 h1 l1 p1]) (simp_all add: st)
qed simp

lemma bigint_divide_bits_value:
  assumes num: "bi_inv num" and den: "bi_inv den" "0 < bi_val den" "length (bi_w den) < BIGINT_WORDS"
    and small: "bi_val num div bi_val den < 2 ^ 128"
    and eq: "bigint_divide_bits num den = (hi, lo, sticky)"
  shows "u128v hi lo = bi_val num div bi_val den" "sticky \<longleftrightarrow> bi_val num mod bi_val den \<noteq> 0"
proof -
  define n where "n = nat (bigint_bitlen num)"
  obtain rem' hi' lo' p' where l: "divide_loop num den n (bigint_set_u64 0, 0, 0, 0) = (rem', hi', lo', p')"
    by (metis prod_cases4)
  have "bi_val num div 2 ^ n = 0" using lt_2_nbits [of "bi_val num"] by (simp add: n_def bigint_bitlen_value num)
  then have v: "bi_inv rem' \<and> bi_val rem' = bi_val num mod bi_val den \<and> u128v hi' lo' = bi_val num div bi_val den"
    using bigint_set_value [of 0] by (intro divide_loop_value [OF den small _ _ _ _ l]) simp_all
  have "hi = hi'" "lo = lo'" "sticky = (\<not> bigint_is_zero rem')"
    using eq l by (simp_all add: bigint_divide_bits_def n_def [symmetric])
  with v show "u128v hi lo = bi_val num div bi_val den" "sticky \<longleftrightarrow> bi_val num mod bi_val den \<noteq> 0"
    by (simp_all add: bigint_is_zero_value)
qed

end
