(* ===== verification/Sf_Decimal.thy ===== *)
theory Sf_Decimal
  imports Sf_Div Bigint
begin

text \<open>
  Conversion of literals in src/src/util/softfp.c: sf_from_decimal, which scales a bignum ratio so
  that one rounding is enough, and sf_from_hex. The digit strings are lists of characters. The
  lemmas show that the result is the correctly rounded value of the literal whenever the bignum
  cannot overflow, for which \<open>length digits + \<bar>dec_exp\<bar> \<le> 12000\<close> is enough.
\<close>

section \<open>Definitions\<close>

text \<open>\<open>(uint32_t)(digits[i] - '0')\<close>\<close>

definition digit_u32 :: "char \<Rightarrow> u32" where
  "digit_u32 c = word_of_int (of_char c - 48)"

definition bigint_of_digits :: "string \<Rightarrow> bigint" where
  "bigint_of_digits ds =
     fold (\<lambda>c b. bigint_add_small (bigint_mul_small b 10) (digit_u32 c)) ds (bigint_set_u64 0)"

definition sf_from_decimal :: "string \<Rightarrow> int \<Rightarrow> sf_format \<Rightarrow> sf_status \<Rightarrow> sf \<times> sf_status" where
  "sf_from_decimal digits dec_exp f st =
     (let qbits = prec_of f + 2;
          ds = dropWhile (\<lambda>c. c = CHR ''0'') digits
      in if ds = [] then (sf_cleared\<lparr>sf_cls := SF_ZERO\<rparr>, st)
         else
           (let num = bigint_of_digits ds;
                den = bigint_set_u64 1;
                num1 = (if dec_exp > 0 then bigint_mul_pow10 num (nat dec_exp) else num);
                den1 = (if dec_exp < 0 then bigint_mul_pow10 den (nat (- dec_exp)) else den)
            in if bi_overflow num1 \<or> bi_overflow den1 then
                 (sf_cleared\<lparr>sf_cls := SF_INF\<rparr>, st\<lparr>overflow := True, inexact := True\<rparr>)
               else
                 (let shift = qbits - (bigint_bitlen num1 - bigint_bitlen den1);
                      num2 = (if shift > 0 then bigint_shl num1 (nat shift) else num1);
                      den2 = (if shift < 0 then bigint_shl den1 (nat (- shift)) else den1)
                  in if bi_overflow num2 \<or> bi_overflow den2 then
                       (sf_cleared\<lparr>sf_cls := SF_INF\<rparr>, st\<lparr>overflow := True\<rparr>)
                     else
                       (let (qhi, qlo, sticky) = bigint_divide_bits num2 den2
                        in round_pack False qhi qlo (- shift) sticky f st))))"

definition hex_digit :: "char \<Rightarrow> u64 option" where
  "hex_digit c =
     (let n = of_char c :: int in
      if n \<ge> 48 \<and> n \<le> 57 then Some (word_of_int (n - 48))
      else if n \<ge> 97 \<and> n \<le> 102 then Some (word_of_int (n - 97 + 10))
      else if n \<ge> 65 \<and> n \<le> 70 then Some (word_of_int (n - 65 + 10))
      else None)"

text \<open>One digit of the loop: the state is significand, sticky flag and exponent.\<close>

definition hex_step :: "char \<Rightarrow> u64 \<times> u64 \<times> bool \<times> int \<Rightarrow> u64 \<times> u64 \<times> bool \<times> int" where
  "hex_step c s =
     (let (hi, lo, sticky, ex) = s in
      case hex_digit c of
        None \<Rightarrow> s
      | Some d \<Rightarrow>
          if u128_bitlen hi lo + 4 > 126 then (hi, lo, (if d \<noteq> 0 then True else sticky), ex + 4)
          else (let (h1, l1) = u128_shl hi lo 4; (h2, l2) = u128_add h1 l1 0 d
                in (h2, l2, sticky, ex)))"

definition sf_from_hex :: "string \<Rightarrow> int \<Rightarrow> sf_format \<Rightarrow> sf_status \<Rightarrow> sf \<times> sf_status" where
  "sf_from_hex hexdigits bin_exp f st =
     (let (hi, lo, sticky, ex) = fold hex_step hexdigits (0, 0, False, bin_exp)
      in if hi = 0 \<and> lo = 0 \<and> \<not> sticky then (sf_cleared\<lparr>sf_cls := SF_ZERO\<rparr>, st)
         else round_pack False hi lo ex sticky f st)"

section \<open>Digit strings\<close>

definition is_dec :: "char \<Rightarrow> bool" where
  "is_dec c \<longleftrightarrow> 48 \<le> (of_char c :: nat) \<and> (of_char c :: nat) \<le> 57"

definition dec_val :: "string \<Rightarrow> nat" where
  "dec_val ds = fold (\<lambda>c n. 10 * n + (of_char c - 48)) ds 0"

lemma dec_val_fold: "fold (\<lambda>c n. 10 * n + (of_char c - 48)) ds k = k * 10 ^ length ds + dec_val ds"
  for k :: nat
proof (induction ds arbitrary: k)
  case (Cons c ds)
  show ?case
    using Cons.IH [of "10 * k + (of_char c - 48)"] Cons.IH [of "of_char c - 48"]
    by (simp add: dec_val_def algebra_simps)
qed (simp add: dec_val_def)

lemma dec_val_Cons: "dec_val (c # ds) = (of_char c - 48) * 10 ^ length ds + dec_val ds"
  using dec_val_fold [of ds "of_char c - 48"] by (simp add: dec_val_def)

lemma is_dec_le: "is_dec c \<Longrightarrow> of_char c - 48 \<le> (9 :: nat)"
  unfolding is_dec_def by linarith

lemma dec_val_lt: "list_all is_dec ds \<Longrightarrow> dec_val ds < 10 ^ length ds"
proof (induction ds)
  case (Cons c ds)
  then have "of_char c - 48 \<le> (9 :: nat)" by (simp add: is_dec_le)
  then have "(of_char c - 48) * 10 ^ length ds \<le> 9 * (10 :: nat) ^ length ds" by (intro mult_le_mono1)
  moreover have "dec_val ds < 10 ^ length ds" using Cons by simp
  moreover have "(10 :: nat) ^ length (c # ds) = 10 * 10 ^ length ds" by simp
  ultimately show ?case unfolding dec_val_Cons by linarith
qed (simp add: dec_val_def)

lemma dec_val_dropWhile: "dec_val (dropWhile (\<lambda>c. c = CHR ''0'') ds) = dec_val ds"
  by (induction ds) (simp_all add: dec_val_Cons)

lemma digit_u32_value: "is_dec c \<Longrightarrow> unat (digit_u32 c) = of_char c - 48"
proof -
  assume c: "is_dec c"
  then have "(of_char c - 48 :: int) = int (of_char c - 48)"
    unfolding of_nat_of_char [symmetric, where ?'a = int] is_dec_def by (simp add: of_nat_diff del: of_nat_of_char)
  then have "digit_u32 c = word_of_nat (of_char c - 48)" by (simp add: digit_u32_def)
  moreover have "(of_char c :: nat) - 48 < 2 ^ 32" using is_dec_le [OF c] by simp
  ultimately show ?thesis by (simp add: unsigned_of_nat take_bit_nat_eq_self)
qed

lemma pow10_le: "(10 :: nat) ^ k \<le> 2 ^ (4 * k)"
  using power_mono [of "10 :: nat" 16 k] by (simp add: power_mult)

lemma pow10_step_fits:
  fixes m d :: nat
  assumes "m < 2 ^ n" "d \<le> 9" "n + 4 \<le> N"
  shows "m * 10 + d < 2 ^ N"
proof -
  have "m * 10 + d < 16 * 2 ^ n" using assms(1,2) by linarith
  also have "\<dots> = 2 ^ (n + 4)" by (simp add: power_add)
  also have "\<dots> \<le> 2 ^ N" using assms(3) by (intro power_increasing) auto
  finally show ?thesis .
qed

lemma dec_val_bits: "list_all is_dec ds \<Longrightarrow> dec_val ds < 2 ^ (4 * length ds)"
  using dec_val_lt [of ds] pow10_le [of "length ds"] by linarith

lemma bigint_of_digits_value:
  assumes "list_all is_dec ds" "length ds \<le> 12000"
  shows "bi_val (bigint_of_digits ds) = dec_val ds \<and> bi_inv (bigint_of_digits ds)
    \<and> \<not> bi_overflow (bigint_of_digits ds)"
  using assms
proof (induction ds rule: rev_induct)
  case (snoc c ds)
  let ?b = "bigint_of_digits ds"
  have IH: "bi_val ?b = dec_val ds" "bi_inv ?b" "\<not> bi_overflow ?b" and c: "is_dec c" using snoc by simp_all
  have d9: "unat (digit_u32 c) \<le> 9"
    unfolding digit_u32_value [OF c] by (rule is_dec_le [OF c])
  have val_lt: "dec_val ds < 2 ^ (4 * length ds)" using snoc.prems by (intro dec_val_bits) simp
  have N: "4 * length ds + 4 \<le> 64 * BIGINT_WORDS" using snoc.prems(2) by (simp add: BIGINT_WORDS_def)
  note fits = pow10_step_fits [OF val_lt]
  have cap: "dec_val ds * 10 + unat (digit_u32 c) < 2 ^ (64 * BIGINT_WORDS)" "dec_val ds * 10 < 2 ^ (64 * BIGINT_WORDS)"
    using fits [OF d9 N] fits [OF _ N, of 0] by simp_all
  have "bi_val ?b * unat (10 :: u32) < 2 ^ (64 * BIGINT_WORDS)" using IH(1) cap(2) by simp
  from bigint_mul_small_value(1) [OF IH(2) _ this]
  have m: "bi_val (bigint_mul_small ?b 10) = dec_val ds * 10" "bi_inv (bigint_mul_small ?b 10)"
    "\<not> bi_overflow (bigint_mul_small ?b 10)" using IH by simp_all
  from bigint_add_small_value(1) [OF m(2,3), of "digit_u32 c"] cap(1) m(1)
  show ?case using digit_u32_value [OF c] by (simp add: bigint_of_digits_def dec_val_def)
qed (simp add: bigint_of_digits_def dec_val_def bigint_set_value)

section \<open>Scaling the ratio\<close>

lemma bigint_length_le: "bi_inv b \<Longrightarrow> length (bi_w b) \<le> (nbits (bi_val b) + 63) div 64"
proof (rule normal_words_lt)
  have "nbits (bi_val b) \<le> 64 * ((nbits (bi_val b) + 63) div 64)" by linarith
  then show "bi_val b < 2 ^ (64 * ((nbits (bi_val b) + 63) div 64))" by (simp add: nbits_le_iff)
qed (simp add: bi_inv_def)

lemma scaled_quotient:
  fixes A D :: nat
  assumes "0 < A" "0 < D" "nbits A = nbits D + q" "0 < q"
  shows "2 ^ (q - 1) \<le> A div D" "A div D < 2 ^ (q + 1)"
proof -
  have A: "2 ^ (nbits D + (q - 1)) \<le> A" "A < 2 ^ (nbits D + q)"
    using assms(3,4) lt_nbits_iff [of "nbits D + (q - 1)" A] lt_2_nbits [of A] by simp_all
  have D: "D < 2 ^ nbits D" "2 ^ nbits D \<le> 2 * D"
  proof -
    show "D < 2 ^ nbits D" by (rule lt_2_nbits)
    obtain k where k: "nbits D = Suc k" using assms(2) by (metis nbits_pos gr0_implies_Suc)
    then have "2 ^ k \<le> D" using lt_nbits_iff [of k D] by simp
    then show "2 ^ nbits D \<le> 2 * D" by (simp add: k)
  qed
  have "2 ^ (q - 1) * D \<le> 2 ^ (q - 1) * 2 ^ nbits D" using D(1) by (intro mult_le_mono2) simp
  also have "\<dots> \<le> A" using A(1) by (simp add: power_add mult.commute)
  finally show "2 ^ (q - 1) \<le> A div D" using assms(2) by (simp add: less_eq_div_iff_mult_less_eq)
  have "A < 2 ^ q * 2 ^ nbits D" using A(2) by (simp add: power_add mult.commute)
  also have "\<dots> \<le> 2 ^ q * (2 * D)" using D(2) by (rule mult_le_mono2)
  finally show "A div D < 2 ^ (q + 1)" using assms(2) by (simp add: div_less_iff_less_mult algebra_simps)
qed

text \<open>The tail of sf_from_decimal on a ratio of bignums that leaves room for the scaling.\<close>

lemma decimal_ratio_rounds:
  assumes f: "f \<in> sf_formats"
    and N: "bi_inv num" "0 < bi_val num" "nbits (bi_val num) \<le> 48001" "\<not> bi_overflow num"
    and D: "bi_inv den" "0 < bi_val den" "nbits (bi_val den) \<le> 48001" "\<not> bi_overflow den"
    and sh: "shift = prec_of f + 2 - (bigint_bitlen num - bigint_bitlen den)"
    and num2: "num2 = (if shift > 0 then bigint_shl num (nat shift) else num)"
    and den2: "den2 = (if shift < 0 then bigint_shl den (nat (- shift)) else den)"
    and q: "bigint_divide_bits num2 den2 = (qhi, qlo, sticky)"
  shows "\<not> bi_overflow num2 \<and> \<not> bi_overflow den2
    \<and> rounds_to f False (real (bi_val num) / real (bi_val den)) st (round_pack False qhi qlo (- shift) sticky f st)"
proof -
  define k where "k = nat (prec_of f + 2)"
  have k: "prec_of f + 2 = int k" "0 < k" "k \<le> 115" using format_geometry [OF f] by (auto simp: k_def)
  let ?A = "bi_val num" and ?D = "bi_val den"
  have shift: "shift = int k - int (nbits ?A) + int (nbits ?D)"
    using sh k(1) by (simp add: bigint_bitlen_value N D)
  define s t where "s = nat shift" and "t = nat (- shift)"
  have st: "shift = int s - int t" "s = 0 \<or> t = 0" "nbits ?A + s = nbits ?D + t + k" using shift by (auto simp: s_def t_def)
  have fitN: "length (bi_w num) + s div 64 + 1 \<le> BIGINT_WORDS"
    using bigint_length_le [OF N(1)] st(2,3) N(3) D(3) k(3) unfolding BIGINT_WORDS_def by linarith
  have fitD: "length (bi_w den) + t div 64 + 1 \<le> BIGINT_WORDS"
    using bigint_length_le [OF D(1)] st(2,3) N(3) D(3) k(2) unfolding BIGINT_WORDS_def by linarith
  have n2: "bi_val num2 = ?A * 2 ^ s" "bi_inv num2" "\<not> bi_overflow num2"
    using bigint_shl_value [OF N(1) fitN] N by (auto simp: num2 s_def)
  have d2: "bi_val den2 = ?D * 2 ^ t" "bi_inv den2" "\<not> bi_overflow den2"
    using bigint_shl_value [OF D(1) fitD] D by (auto simp: den2 t_def)
  have pos: "0 < bi_val num2" "0 < bi_val den2" using N D by (simp_all add: n2 d2)
  have bits: "nbits (bi_val num2) = nbits (bi_val den2) + k"
    using st(3) N(2) D(2) by (simp add: n2 d2 nbits_mult_2p)
  note wide = scaled_quotient [OF pos bits k(2)]
  have lenD: "length (bi_w den2) < BIGINT_WORDS"
  proof -
    have "nbits (bi_val den2) \<le> 48001" using st(2,3) D(2,3) N(3) k(2) by (auto simp: d2 nbits_mult_2p)
    then show ?thesis using bigint_length_le [OF d2(2)] unfolding BIGINT_WORDS_def by linarith
  qed
  have small: "bi_val num2 div bi_val den2 < 2 ^ 128"
    using wide(2) power_increasing [of "k + 1" 128 "2 :: nat"] k(3) by linarith
  note dv = bigint_divide_bits_value [OF n2(2) d2(2) pos(2) lenD small q]
  have "real ?A / real ?D = real (bi_val num2) * 2 powi (- int s) / (real (bi_val den2) * 2 powi (- int t))"
    by (simp add: n2 d2 power_int_minus field_simps)
  moreover have "residue \<dots> (u128v qhi qlo) (- shift) sticky"
    using residue_quotient [OF pos(2), of "bi_val num2" "- int s" "- int t" 0] by (simp add: dv st(1))
  ultimately have res: "residue (real ?A / real ?D) (u128v qhi qlo) (- shift) sticky" by (simp only:)
  have "k \<le> nbits (u128v qhi qlo)"
    using wide(1) lt_nbits_iff [of "k - 1" "u128v qhi qlo"] k(2) unfolding dv(1) by linarith
  then have "0 < u128v qhi qlo" "prec_of f < int (nbits (u128v qhi qlo))"
    using k by (auto intro!: gr0I)
  with round_pack_rounds [OF f res] n2(3) d2(3) show ?thesis by blast
qed

text \<open>
  C18: a decimal literal whose digits and exponent leave the bignum room is converted with one
  rounding: the result is the correctly rounded value of \<open>digits * 10 ^ dec_exp\<close> in the format.
\<close>

theorem sf_from_decimal_correct:
  assumes f: "f \<in> sf_formats" and ds: "list_all is_dec digits" "0 < dec_val digits"
    and len: "int (length digits) + \<bar>dec_exp\<bar> \<le> 12000"
  shows "rounds_to f False (real (dec_val digits) * 10 powi dec_exp) st (sf_from_decimal digits dec_exp f st)"
proof -
  define ds where "ds = dropWhile (\<lambda>c. c = CHR ''0'') digits"
  define a b where "a = nat dec_exp" and "b = nat (- dec_exp)"
  have dsl: "length ds \<le> length digits" by (simp add: ds_def length_dropWhile_le)
  have dsd: "list_all is_dec ds" using ds(1) by (auto simp: ds_def list_all_iff dest: set_dropWhileD)
  have dsv: "dec_val ds = dec_val digits" by (simp add: ds_def dec_val_dropWhile)
  have ne: "ds \<noteq> []" using dsv ds(2) by (auto simp: dec_val_def)
  have lens: "length ds + a \<le> 12000" "b \<le> 12000" using dsl len by (auto simp: a_def b_def)
  have n: "bi_val (bigint_of_digits ds) = dec_val ds" "bi_inv (bigint_of_digits ds)" "\<not> bi_overflow (bigint_of_digits ds)"
    using bigint_of_digits_value [OF dsd] lens by auto
  define K where "K = (48001 :: nat)"
  define num where "num = bigint_mul_pow10 (bigint_of_digits ds) a"
  define den where "den = bigint_mul_pow10 (bigint_set_u64 1) b"
  have "dec_val ds * 10 ^ a < 10 ^ length ds * 10 ^ a" using dec_val_lt [OF dsd] by simp
  also have "\<dots> \<le> 2 ^ (4 * (length ds + a))" unfolding power_add [symmetric] by (rule pow10_le)
  also have "\<dots> \<le> 2 ^ K" using lens by (intro power_increasing) (auto simp: K_def)
  finally have nlt: "dec_val ds * 10 ^ a < 2 ^ K" .
  have "(10 :: nat) ^ b < 2 ^ Suc (4 * b)" using pow10_le [of b] by (simp add: order_le_less_trans)
  also have "\<dots> \<le> 2 ^ K" using lens by (intro power_increasing) (auto simp: K_def)
  finally have dlt: "(10 :: nat) ^ b < 2 ^ K" .
  have cap: "(2 :: nat) ^ K \<le> 2 ^ (64 * BIGINT_WORDS)"
    by (intro power_increasing) (simp_all add: BIGINT_WORDS_def K_def)
  have N: "bi_val num = dec_val ds * 10 ^ a" "bi_inv num" "\<not> bi_overflow num"
    using bigint_mul_pow10_value [OF n(2,3), of a] less_le_trans [OF nlt cap] unfolding n(1) num_def by simp_all
  have D: "bi_val den = 10 ^ b" "bi_inv den" "\<not> bi_overflow den"
    using bigint_mul_pow10_value [OF bigint_set_value(2,3), of 1 b] less_le_trans [OF dlt cap] unfolding bigint_set_value(1) den_def
    by simp_all
  have "real (dec_val digits) * 10 powi dec_exp = real (bi_val num) / real (bi_val den)"
    by (cases "dec_exp \<ge> 0") (auto simp: N D dsv a_def b_def power_int_def field_simps)
  moreover have "rounds_to f False \<dots> st (sf_from_decimal digits dec_exp f st)"
  proof -
    have num1: "(if dec_exp > 0 then bigint_mul_pow10 (bigint_of_digits ds) (nat dec_exp) else bigint_of_digits ds) = num"
      by (auto simp: num_def a_def bigint_mul_pow10.simps)
    have den1: "(if dec_exp < 0 then bigint_mul_pow10 (bigint_set_u64 1) (nat (- dec_exp)) else bigint_set_u64 1) = den"
      by (auto simp: den_def b_def bigint_mul_pow10.simps)
    define shift where "shift = prec_of f + 2 - (bigint_bitlen num - bigint_bitlen den)"
    define num2 where "num2 = (if shift > 0 then bigint_shl num (nat shift) else num)"
    define den2 where "den2 = (if shift < 0 then bigint_shl den (nat (- shift)) else den)"
    obtain qhi qlo sticky where q: "bigint_divide_bits num2 den2 = (qhi, qlo, sticky)" by (metis prod_cases3)
    have pos: "0 < bi_val num" "0 < bi_val den" using ds(2) dsv by (simp_all add: N D)
    have bits: "nbits (bi_val num) \<le> 48001" "nbits (bi_val den) \<le> 48001"
      unfolding nbits_le_iff N(1) D(1) using nlt dlt unfolding K_def .
    note r = decimal_ratio_rounds [OF f N(2) pos(1) bits(1) N(3) D(2) pos(2) bits(2) D(3) shift_def num2_def den2_def q, of st]
    have "sf_from_decimal digits dec_exp f st = round_pack False qhi qlo (- shift) sticky f st"
      unfolding sf_from_decimal_def Let_def ds_def [symmetric] num1 den1 shift_def [symmetric]
        num2_def [symmetric] den2_def [symmetric] q using ne N(3) D(3) r by simp
    with r show ?thesis by simp
  qed
  ultimately show ?thesis by (simp only:)
qed

theorem sf_from_decimal_correct_witness:
  "rounds_to SF_BINARY64 False (real (dec_val ''125'') * 10 powi (- 2)) status_cleared
     (sf_from_decimal ''125'' (- 2) SF_BINARY64 status_cleared)"
  by (rule sf_from_decimal_correct) (simp_all add: sf_formats_def is_dec_def dec_val_def)

lemma sf_from_decimal_zero:
  assumes "list_all is_dec digits" "dec_val digits = 0"
  shows "sf_from_decimal digits dec_exp f st = (sf_cleared\<lparr>sf_cls := SF_ZERO\<rparr>, st)"
proof -
  have "c = CHR ''0''" if "c \<in> set digits" for c
    using assms that
  proof (induction digits)
    case (Cons d ds)
    then have d: "(of_char d :: nat) \<le> 48" "48 \<le> (of_char d :: nat)" and z: "dec_val ds = 0"
      by (simp_all add: dec_val_Cons is_dec_def)
    then have "(of_char d :: nat) = of_char CHR ''0''" by simp
    then have "d = CHR ''0''" by (simp only: of_char_eq_iff)
    with Cons z show ?case by auto
  qed simp
  then have "dropWhile (\<lambda>c. c = CHR ''0'') digits = []" by (simp add: dropWhile_eq_Nil_conv)
  then show ?thesis by (simp add: sf_from_decimal_def)
qed

lemma pow10_overflows: "N \<le> 9 * k \<Longrightarrow> 3 * k \<le> b \<Longrightarrow> 2 ^ N \<le> (10 :: nat) ^ b"
proof -
  assume N: "N \<le> 9 * k" and b: "3 * k \<le> b"
  have "(2 :: nat) ^ N \<le> (2 ^ 9) ^ k" unfolding power_mult [symmetric] using N by (intro power_increasing) auto
  also have "\<dots> \<le> (10 ^ 3) ^ k" by (intro power_mono) simp_all
  also have "\<dots> \<le> 10 ^ b" unfolding power_mult [symmetric] using b by (intro power_increasing) auto
  finally show ?thesis .
qed

text \<open>
  C25: past the capacity of the bignum a tiny literal is reported like a huge one. Every nonzero
  literal with an exponent of \<open>-16386\<close> or less overflows the denominator, and the result is infinity
  with the overflow flag, in every format.
\<close>

theorem sf_from_decimal_capacity:
  assumes "list_all is_dec digits" "0 < dec_val digits" "length digits \<le> 12000" "dec_exp \<le> - 16386"
  shows "sf_from_decimal digits dec_exp f st
    = (sf_cleared\<lparr>sf_cls := SF_INF\<rparr>, st\<lparr>overflow := True, inexact := True\<rparr>)"
proof -
  define ds where "ds = dropWhile (\<lambda>c. c = CHR ''0'') digits"
  have "dec_val ds = dec_val digits" by (simp add: ds_def dec_val_dropWhile)
  then have ne: "ds \<noteq> []" using assms(2) by (auto simp: dec_val_def)
  define b where "b = nat (- dec_exp)"
  have "(2 :: nat) ^ (64 * BIGINT_WORDS) \<le> 10 ^ b"
    using assms(4) by (intro pow10_overflows [of _ 5462]) (auto simp: b_def BIGINT_WORDS_def)
  then have "bi_overflow (bigint_mul_pow10 (bigint_set_u64 1) b)"
    using bigint_mul_pow10_value [OF bigint_set_value(2,3), of 1 b] unfolding bigint_set_value(1) by simp
  then show ?thesis
    using assms(4) ne unfolding sf_from_decimal_def Let_def ds_def [symmetric] b_def [symmetric] by simp
qed

theorem sf_from_decimal_capacity_witness:
  "sf_from_decimal ''1'' (- 17000) SF_BINARY128 status_cleared
     = (sf_cleared\<lparr>sf_cls := SF_INF\<rparr>, status_cleared\<lparr>overflow := True, inexact := True\<rparr>)"
  by (rule sf_from_decimal_capacity) (simp_all add: is_dec_def dec_val_def)

section \<open>Hexadecimal literals\<close>

fun hex_val :: "string \<Rightarrow> nat" where
  "hex_val [] = 0"
| "hex_val (c # cs) =
     (case hex_digit c of None \<Rightarrow> hex_val cs
      | Some d \<Rightarrow> unat d * 16 ^ length (filter (\<lambda>c. hex_digit c \<noteq> None) cs) + hex_val cs)"

lemma hex_val_snoc:
  "hex_val (cs @ [c]) = (case hex_digit c of None \<Rightarrow> hex_val cs | Some d \<Rightarrow> hex_val cs * 16 + unat d)"
  by (induction cs) (auto split: option.split simp: algebra_simps)

lemma hex_digit_lt: "hex_digit c = Some d \<Longrightarrow> unat d < 16"
proof -
  assume h: "hex_digit c = Some d"
  obtain n :: int where n: "n = of_char c" by blast
  obtain k :: int where k: "d = word_of_int k" "0 \<le> k" "k < 16"
  proof -
    from h consider "d = word_of_int (n - 48)" "48 \<le> n" "n \<le> 57" | "d = word_of_int (n - 97 + 10)" "97 \<le> n" "n \<le> 102"
      | "d = word_of_int (n - 65 + 10)" "65 \<le> n" "n \<le> 70"
      unfolding hex_digit_def Let_def n [symmetric] by (metis option.distinct(1) option.inject)
    then show thesis
    proof cases
      case 1
      then show ?thesis by (intro that [of "n - 48"]) simp_all
    next
      case 2
      then show ?thesis by (intro that [of "n - 97 + 10"]) simp_all
    next
      case 3
      then show ?thesis by (intro that [of "n - 65 + 10"]) simp_all
    qed
  qed
  have "k mod 2 ^ 64 = k" using k by simp
  then have "uint d = k" unfolding k(1) by (simp add: uint_word_of_int_eq take_bit_eq_mod)
  then show ?thesis using k by (simp add: unat_eq_nat_uint)
qed

text \<open>
  The digits seen so far stand for \<open>hex_val\<close> units of \<open>2\<^sup>b\<^sup>i\<^sup>n\<^sup>_\<^sup>e\<^sup>x\<^sup>p\<close>; a sticky significand is full.
\<close>

lemma hex_fold_inv:
  assumes "fold hex_step cs (0, 0, False, e0) = (hi, lo, sticky, ex)"
  shows "\<exists>k. ex = e0 + 4 * int k \<and> u128v hi lo = hex_val cs div 16 ^ k
    \<and> (sticky \<longleftrightarrow> hex_val cs mod 16 ^ k \<noteq> 0) \<and> (0 < k \<longrightarrow> 122 < nbits (u128v hi lo))"
  using assms
proof (induction cs arbitrary: hi lo sticky ex rule: rev_induct)
  case (snoc c cs)
  obtain h l s e where st: "fold hex_step cs (0, 0, False, e0) = (h, l, s, e)" by (metis prod_cases4)
  from snoc.IH [OF st] obtain k where k: "e = e0 + 4 * int k" "u128v h l = hex_val cs div 16 ^ k"
    "s \<longleftrightarrow> hex_val cs mod 16 ^ k \<noteq> 0" "0 < k \<longrightarrow> 122 < nbits (u128v h l)" by blast
  have step: "hex_step c (h, l, s, e) = (hi, lo, sticky, ex)" using snoc.prems st by simp
  show ?case
  proof (cases "hex_digit c")
    case None
    then show ?thesis using step k by (intro exI [of _ k]) (simp add: hex_step_def hex_val_snoc)
  next
    case (Some d)
    let ?v = "hex_val cs" and ?d = "unat d"
    have d: "?d < 16" by (rule hex_digit_lt [OF Some])
    have hv: "hex_val (cs @ [c]) = ?v * 16 + ?d" by (simp add: hex_val_snoc Some)
    show ?thesis
    proof (cases "u128_bitlen h l + 4 > 126")
      case True
      have q: "(?v * 16 + ?d) div 16 ^ Suc k = ?v div 16 ^ k" "(?v * 16 + ?d) mod 16 ^ Suc k = ?v mod 16 ^ k * 16 + ?d"
        using d by (simp_all add: div_mult2_eq mod_mult2_eq)
      have "d \<noteq> 0 \<longleftrightarrow> ?d \<noteq> 0" by (simp add: unat_eq_0)
      with step True Some k q show ?thesis
        by (intro exI [of _ "Suc k"]) (auto simp: hex_step_def hv u128_bitlen_eq)
    next
      case False
      then have bits: "nbits (u128v h l) \<le> 122" by (simp add: u128_bitlen_eq)
      then have k0: "k = 0" using k(4) by linarith
      have lt: "u128v h l < 2 ^ 122" using bits by (simp add: nbits_le_iff)
      obtain h1 l1 where s1: "u128_shl h l 4 = (h1, l1)" by fastforce
      have v1: "u128v h1 l1 = ?v * 16" using u128_shl_value [of h l 4] lt k(2) k0 by (simp add: s1)
      have "u128v hi lo = ?v * 16 + ?d"
        using u128_add_value [of h1 l1 0 d] step False Some v1 lt d k(2) k0
        by (simp add: hex_step_def s1 u128v_low split: prod.splits)
      with step False Some k k0 show ?thesis
        by (intro exI [of _ 0]) (simp add: hex_step_def hv s1 split: prod.splits)
    qed
  qed
qed simp



lemma sf_from_hex_zero:
  assumes "hex_val cs = 0"
  shows "sf_from_hex cs bin_exp f st = (sf_cleared\<lparr>sf_cls := SF_ZERO\<rparr>, st)"
proof -
  obtain hi lo s e where st: "fold hex_step cs (0, 0, False, bin_exp) = (hi, lo, s, e)" by (metis prod_cases4)
  from hex_fold_inv [OF st] assms have "u128v hi lo = 0" "\<not> s" by auto
  then show ?thesis by (simp add: sf_from_hex_def st u128v_eq_0)
qed

end
