(* ===== verification/Probing.thy ===== *)
theory Probing
  imports Cg_Prelude
begin

text \<open>
  The interfaces of the hash tables of src/src/util. Both strmap.c and ptrmap.c are open-addressing
  tables with linear probing over a power-of-two number of slots: the locale \<open>linear_probe\<close> states
  what their probe functions have in common and proves once that probing finds a key or the free
  slot where it belongs, and that filling that slot keeps every key reachable. The locale
  \<open>pointer_map\<close> is the contract the rest of the compiler uses: a finite map in which absent keys
  read as NULL, written None.
\<close>

section \<open>Reachability of keys\<close>

text \<open>
  \<open>chained h n key\<close>: every stored key is reached from its home slot over occupied slots that hold
  other keys.
\<close>

definition chained :: "('k \<Rightarrow> nat) \<Rightarrow> nat \<Rightarrow> (nat \<Rightarrow> 'k option) \<Rightarrow> bool" where
  "chained h n key \<longleftrightarrow>
     (\<forall>i<n. \<forall>x. key i = Some x \<longrightarrow>
        (\<exists>d. i = (h x + d) mod n \<and> (\<forall>e<d. key ((h x + e) mod n) \<notin> {None, Some x})))"

lemma chainedD:
  assumes "chained h n key" "i < n" "key i = Some x"
  obtains d where "i = (h x + d) mod n" "\<forall>e<d. key ((h x + e) mod n) \<notin> {None, Some x}"
  using assms unfolding chained_def by blast

lemma chained_empty: "(\<And>i. i < n \<Longrightarrow> key i = None) \<Longrightarrow> chained h n key"
  by (simp add: chained_def)

lemma chained_unique:
  assumes "chained h n key" "i < n" "j < n" "key i = Some x" "key j = Some x"
  shows "i = j"
proof -
  obtain d where d: "i = (h x + d) mod n" "\<forall>e<d. key ((h x + e) mod n) \<notin> {None, Some x}"
    using assms unfolding chained_def by blast
  obtain d' where d': "j = (h x + d') mod n" "\<forall>e<d'. key ((h x + e) mod n) \<notin> {None, Some x}"
    using assms unfolding chained_def by blast
  show ?thesis
    using d d' assms(4,5) by (metis insertCI linorder_neqE_nat)
qed

lemma chained_cong: "(\<And>i. i < n \<Longrightarrow> key i = key' i) \<Longrightarrow> 0 < n \<Longrightarrow> chained h n key \<longleftrightarrow> chained h n key'"
  by (simp add: chained_def)

lemma chained_insert:
  assumes ch: "chained h n key" and n: "0 < n"
    and s: "s = (h k + d) mod n" "\<forall>e<d. key ((h k + e) mod n) \<notin> {None, Some k}" "key s = None"
  shows "chained h n (key(s := Some k))"
  unfolding chained_def
proof (intro allI impI)
  fix i x
  assume i: "i < n" "(key(s := Some k)) i = Some x"
  show "\<exists>d. i = (h x + d) mod n \<and> (\<forall>e<d. (key(s := Some k)) ((h x + e) mod n) \<notin> {None, Some x})"
  proof (cases "i = s")
    case True
    then have x: "x = k" using i by simp
    show ?thesis
      using s True unfolding x by (intro exI [of _ d]) (auto simp: fun_upd_apply)
  next
    case False
    then have "key i = Some x" using i by simp
    then obtain d' where d': "i = (h x + d') mod n" "\<forall>e<d'. key ((h x + e) mod n) \<notin> {None, Some x}"
      using ch i(1) unfolding chained_def by blast
    have "(key(s := Some k)) ((h x + e) mod n) \<notin> {None, Some x}" if "e < d'" for e
      using d'(2) that s(3) by (auto simp: fun_upd_apply)
    then show ?thesis using d'(1) by blast
  qed
qed

text \<open>Between a start slot and any slot of the table there are fewer than \<open>n\<close> steps.\<close>

lemma reach_slot:
  fixes n :: nat
  assumes "i < n"
  shows "\<exists>d. (a + d) mod n = i"
proof -
  have "(a + (i + (n - a mod n))) mod n = (a mod n + (i + (n - a mod n))) mod n"
    by (simp only: mod_add_left_eq)
  also have "a mod n + (i + (n - a mod n)) = i + n"
    using assms mod_less_divisor [of n a] by linarith
  finally show ?thesis using assms by auto
qed

section \<open>Linear probing\<close>

locale linear_probe =
  fixes wf :: "'t \<Rightarrow> bool" and slots :: "'t \<Rightarrow> nat" and key_at :: "'t \<Rightarrow> nat \<Rightarrow> 'k option"
    and home :: "'t \<Rightarrow> 'k \<Rightarrow> nat" and probe_from :: "'t \<Rightarrow> 'k \<Rightarrow> nat \<Rightarrow> nat option"
  assumes slots_pos: "wf t \<Longrightarrow> 0 < slots t"
    and probe_step: "wf t \<Longrightarrow> i < slots t \<Longrightarrow>
      probe_from t k i = (if key_at t i = None \<or> key_at t i = Some k then Some i
                          else probe_from t k ((i + 1) mod slots t))"
begin

lemma probe_first:
  assumes "wf t" "\<forall>e<d. key_at t ((a + e) mod slots t) \<notin> {None, Some k}"
    and "key_at t ((a + d) mod slots t) \<in> {None, Some k}"
  shows "probe_from t k (a mod slots t) = Some ((a + d) mod slots t)"
  using assms(2,3)
proof (induction d arbitrary: a)
  case 0
  then show ?case using slots_pos [OF assms(1)] probe_step [OF assms(1), of "a mod slots t" k] by auto
next
  case (Suc d)
  have "probe_from t k (a mod slots t) = probe_from t k ((a mod slots t + 1) mod slots t)"
    using slots_pos [OF assms(1)] probe_step [OF assms(1), of "a mod slots t" k] Suc.prems(1) [rule_format, of 0]
    by auto
  also have "(a mod slots t + 1) mod slots t = Suc a mod slots t" by (simp add: mod_Suc_eq)
  also have "probe_from t k \<dots> = Some ((Suc a + d) mod slots t)"
  proof (rule Suc.IH)
    show "\<forall>e<d. key_at t ((Suc a + e) mod slots t) \<notin> {None, Some k}"
      using Suc.prems(1) by (metis Suc_mono add_Suc_shift)
    show "key_at t ((Suc a + d) mod slots t) \<in> {None, Some k}"
      using Suc.prems(2) by (simp only: add_Suc_shift)
  qed
  finally show ?case by (simp only: add_Suc_shift)
qed

text \<open>
  With a free slot in the table probing returns, and it returns the first slot of the probe sequence
  that is free or holds the key.
\<close>

lemma probe_returns:
  assumes wf: "wf t" and free: "\<exists>i < slots t. key_at t i \<in> {None, Some k}"
    and home: "home t k < slots t"
  obtains d where "probe_from t k (home t k) = Some ((home t k + d) mod slots t)"
    "\<forall>e<d. key_at t ((home t k + e) mod slots t) \<notin> {None, Some k}"
    "key_at t ((home t k + d) mod slots t) \<in> {None, Some k}"
proof -
  let ?P = "\<lambda>d. key_at t ((home t k + d) mod slots t) \<in> {None, Some k}"
  obtain d0 where "?P d0" using free reach_slot by metis
  then have d: "?P (LEAST d. ?P d)" by (rule LeastI)
  have l: "\<forall>e<(LEAST d. ?P d). \<not> ?P e" using not_less_Least by blast
  from probe_first [OF wf, of _ "home t k" k] d l home show thesis
    by (intro that [of "LEAST d. ?P d"]) (simp_all add: mod_less)
qed

lemma probe_finds:
  assumes wf: "wf t" and ch: "chained (home t) (slots t) (key_at t)"
    and free: "\<exists>i < slots t. key_at t i = None" and home: "home t k < slots t"
  obtains (found) s where "probe_from t k (home t k) = Some s" "s < slots t" "key_at t s = Some k"
  | (absent) s where "probe_from t k (home t k) = Some s" "s < slots t" "key_at t s = None"
      "\<And>i. i < slots t \<Longrightarrow> key_at t i \<noteq> Some k" "chained (home t) (slots t) ((key_at t)(s := Some k))"
proof -
  have f: "\<exists>i < slots t. key_at t i \<in> {None, Some k}" using free by blast
  obtain d where d: "probe_from t k (home t k) = Some ((home t k + d) mod slots t)"
    "\<forall>e<d. key_at t ((home t k + e) mod slots t) \<notin> {None, Some k}"
    "key_at t ((home t k + d) mod slots t) \<in> {None, Some k}"
    by (rule probe_returns [OF wf f home])
  let ?s = "(home t k + d) mod slots t"
  have s: "?s < slots t" using slots_pos [OF wf] by simp
  show thesis
  proof (cases "key_at t ?s")
    case (Some x)
    then show thesis using d s found by simp
  next
    case None
    have "key_at t i \<noteq> Some k" if "i < slots t" for i
    proof
      assume "key_at t i = Some k"
      then obtain d' where d': "i = (home t k + d') mod slots t"
        "\<forall>e<d'. key_at t ((home t k + e) mod slots t) \<notin> {None, Some k}"
        using chainedD [OF ch \<open>i < slots t\<close>] by blast
      have "d' \<noteq> d" using None d'(1) \<open>key_at t i = Some k\<close> by auto
      then consider "d' < d" | "d < d'" by linarith
      then show False using d d' None \<open>key_at t i = Some k\<close> by cases auto
    qed
    with absent [OF d(1) s None] chained_insert [OF ch slots_pos [OF wf] refl d(2) None] show thesis by blast
  qed
qed

end

section \<open>The map contract\<close>

locale pointer_map =
  fixes empty :: 'm and get :: "'m \<Rightarrow> 'k \<Rightarrow> 'v option"
    and put :: "'m \<Rightarrow> 'k \<Rightarrow> 'v option \<Rightarrow> ('m \<times> 'v option) option"
    and invar :: "'m \<Rightarrow> bool" and valid_key :: "'k \<Rightarrow> bool" and room :: "'m \<Rightarrow> nat \<Rightarrow> bool"
  assumes invar_empty: "invar empty" and get_empty: "get empty k = None"
    and put_get: "invar m \<Longrightarrow> valid_key k \<Longrightarrow> room m (Suc n) \<Longrightarrow>
      \<exists>m'. put m k v = Some (m', get m k) \<and> invar m' \<and> room m' n \<and> get m' = (get m)(k := v)"
    and room_mono: "room m n \<Longrightarrow> n' \<le> n \<Longrightarrow> room m n'"
begin

text \<open>A sequence of insertions; None when one of them does not return.\<close>

primrec put_all :: "('k \<times> 'v option) list \<Rightarrow> 'm \<Rightarrow> 'm option" where
  "put_all [] m = Some m"
| "put_all (kv # kvs) m = (case put m (fst kv) (snd kv) of None \<Rightarrow> None | Some (m', _) \<Rightarrow> put_all kvs m')"

lemma put_all_get:
  assumes "invar m" "list_all (\<lambda>kv. valid_key (fst kv)) kvs" "room m (length kvs)"
  shows "\<exists>m'. put_all kvs m = Some m' \<and> invar m' \<and> get m' = fold (\<lambda>(k, v) f. f(k := v)) kvs (get m)"
  using assms
proof (induction kvs arbitrary: m)
  case (Cons kv kvs)
  obtain k v where kv: "kv = (k, v)" by fastforce
  from put_get [of m k "length kvs" v] Cons.prems kv
  obtain m' where m': "put m k v = Some (m', get m k)" "invar m'" "room m' (length kvs)" "get m' = (get m)(k := v)"
    by auto
  from Cons.IH [OF m'(2) _ m'(3)] Cons.prems(2) m' kv show ?case by auto
qed simp

end

end
