(* ===== verification/Strmap.thy ===== *)
theory Strmap
  imports Probing U128
begin

text \<open>
  src/src/util/strmap.c: the string map that iterates in insertion order. Entries live in an
  append-only list; the slots hold entry indices plus one as 32-bit words, zero meaning free. A value
  \<open>void *\<close> is an option, None being NULL; the length of a key is that of the string. The capacity of
  the entry array is kept, the memory behind it is not. \<open>probe\<close> is a loop that ends only when the
  table has a free slot or the key, so it is a partial function and every operation that probes
  returns an option.
\<close>

section \<open>Definitions\<close>

definition STRMAP_FIRST_SLOTS :: nat where
  "STRMAP_FIRST_SLOTS = 64"

record 'v strmap_entry =
  se_key :: string
  se_val :: "'v option"

record 'v strmap =
  sm_entries :: "'v strmap_entry list"
  sm_cap :: nat
  sm_slots :: "u32 list"
  sm_slot_count :: nat

definition fnv1a :: "string \<Rightarrow> u64" where
  "fnv1a s = fold (\<lambda>c h. (h XOR of_char c) * 1099511628211) s 1469598103934665603"

definition strmap_init :: "'v strmap" where
  "strmap_init = \<lparr>sm_entries = [], sm_cap = 0, sm_slots = [], sm_slot_count = 0\<rparr>"

partial_function (option) strmap_probe_from :: "'v strmap \<Rightarrow> string \<Rightarrow> nat \<Rightarrow> nat option" where
  "strmap_probe_from m key i =
     (let idx = sm_slots m ! i in
      if idx = 0 then Some i
      else if se_key (sm_entries m ! (unat idx - 1)) = key then Some i
      else strmap_probe_from m key ((i + 1) AND (sm_slot_count m - 1)))"

definition strmap_home :: "'v strmap \<Rightarrow> string \<Rightarrow> nat" where
  "strmap_home m key = unat (fnv1a key) AND (sm_slot_count m - 1)"

definition strmap_probe :: "'v strmap \<Rightarrow> string \<Rightarrow> nat option" where
  "strmap_probe m key = strmap_probe_from m key (strmap_home m key)"

text \<open>The reinsertion loop of grow_slots, \<open>i\<close> entries done and \<open>n\<close> left.\<close>

primrec strmap_reinsert :: "nat \<Rightarrow> nat \<Rightarrow> 'v strmap \<Rightarrow> 'v strmap option" where
  "strmap_reinsert 0 i m = Some m"
| "strmap_reinsert (Suc n) i m =
     (case strmap_probe m (se_key (sm_entries m ! i)) of
        None \<Rightarrow> None
      | Some s \<Rightarrow> strmap_reinsert n (i + 1) (m\<lparr>sm_slots := (sm_slots m)[s := of_nat (i + 1)]\<rparr>))"

definition grow_slots :: "'v strmap \<Rightarrow> 'v strmap option" where
  "grow_slots m =
     (let new_count = (if sm_slot_count m \<noteq> 0 then sm_slot_count m * 2 else STRMAP_FIRST_SLOTS)
      in strmap_reinsert (length (sm_entries m)) 0
           (m\<lparr>sm_slots := replicate new_count 0, sm_slot_count := new_count\<rparr>))"

definition strmap_append :: "'v strmap \<Rightarrow> nat \<Rightarrow> string \<Rightarrow> 'v option \<Rightarrow> 'v strmap" where
  "strmap_append m slot key val =
     (let m1 = (if length (sm_entries m) = sm_cap m
                then m\<lparr>sm_cap := (if sm_cap m \<noteq> 0 then sm_cap m * 2 else 16)\<rparr> else m);
          m2 = m1\<lparr>sm_entries := sm_entries m1 @ [\<lparr>se_key = key, se_val = val\<rparr>]\<rparr>
      in m2\<lparr>sm_slots := (sm_slots m2)[slot := of_nat (length (sm_entries m2))]\<rparr>)"

definition strmap_put :: "'v strmap \<Rightarrow> string \<Rightarrow> 'v option \<Rightarrow> ('v strmap \<times> 'v option) option" where
  "strmap_put m key val =
     (case (if sm_slot_count m = 0 \<or> (length (sm_entries m) + 1) * 10 \<ge> sm_slot_count m * 7
            then grow_slots m else Some m) of
        None \<Rightarrow> None
      | Some m1 \<Rightarrow>
          (case strmap_probe m1 key of
             None \<Rightarrow> None
           | Some slot \<Rightarrow>
               let idx = sm_slots m1 ! slot in
               if idx \<noteq> 0 then
                 (let e = sm_entries m1 ! (unat idx - 1)
                  in Some (m1\<lparr>sm_entries := (sm_entries m1)[unat idx - 1 := e\<lparr>se_val := val\<rparr>]\<rparr>, se_val e))
               else Some (strmap_append m1 slot key val, None)))"

text \<open>Lookup; the outer option is None when the probe does not return.\<close>

definition strmap_get :: "'v strmap \<Rightarrow> string \<Rightarrow> 'v option option" where
  "strmap_get m key =
     (if sm_slot_count m = 0 then Some None
      else case strmap_probe m key of
             None \<Rightarrow> None
           | Some s \<Rightarrow> (let idx = sm_slots m ! s
                        in Some (if idx \<noteq> 0 then se_val (sm_entries m ! (unat idx - 1)) else None)))"

definition strmap_has :: "'v strmap \<Rightarrow> string \<Rightarrow> bool option" where
  "strmap_has m key =
     (if sm_slot_count m = 0 then Some False
      else case strmap_probe m key of None \<Rightarrow> None | Some s \<Rightarrow> Some (sm_slots m ! s \<noteq> 0))"

definition strmap_len :: "'v strmap \<Rightarrow> nat" where
  "strmap_len m = length (sm_entries m)"

definition strmap_free :: "'v strmap \<Rightarrow> 'v strmap" where
  "strmap_free m = \<lparr>sm_entries = [], sm_cap = 0, sm_slots = [], sm_slot_count = 0\<rparr>"

record 'v strmap_iter =
  it_m :: "'v strmap"
  it_i :: nat

definition strmap_iter_of :: "'v strmap \<Rightarrow> 'v strmap_iter" where
  "strmap_iter_of m = \<lparr>it_m = m, it_i = 0\<rparr>"

definition strmap_iter_next :: "'v strmap_iter \<Rightarrow> (('v strmap_entry) \<times> 'v strmap_iter) option" where
  "strmap_iter_next it =
     (if it_i it \<ge> strmap_len (it_m it) then None
      else Some (sm_entries (it_m it) ! it_i it, it\<lparr>it_i := it_i it + 1\<rparr>))"

section \<open>Invariant\<close>

text \<open>The key a slot stands for.\<close>

definition strmap_key_at :: "'v strmap \<Rightarrow> nat \<Rightarrow> string option" where
  "strmap_key_at m i =
     (if sm_slots m ! i = 0 then None else Some (se_key (sm_entries m ! (unat (sm_slots m ! i) - 1))))"

definition strmap_wf :: "'v strmap \<Rightarrow> bool" where
  "strmap_wf m \<longleftrightarrow> (\<exists>k. sm_slot_count m = 2 ^ k) \<and> length (sm_slots m) = sm_slot_count m"

text \<open>The slots hold exactly the first \<open>n\<close> entries.\<close>

definition strmap_filled :: "nat \<Rightarrow> 'v strmap \<Rightarrow> bool" where
  "strmap_filled n m \<longleftrightarrow>
     strmap_wf m \<and> chained (strmap_home m) (sm_slot_count m) (strmap_key_at m)
     \<and> unat ` set (sm_slots m) - {0} = {1..n} \<and> n < sm_slot_count m"

definition strmap_inv :: "'v strmap \<Rightarrow> bool" where
  "strmap_inv m \<longleftrightarrow>
     distinct (map se_key (sm_entries m)) \<and> length (sm_entries m) \<le> sm_cap m \<and> length (sm_entries m) < 2 ^ 32
     \<and> (if sm_slot_count m = 0 then sm_entries m = [] \<and> sm_slots m = [] else strmap_filled (length (sm_entries m)) m)"

section \<open>Probing\<close>

lemma and_mask_mod: "(n :: nat) AND (2 ^ k - 1) = n mod 2 ^ k"
  by (simp only: take_bit_eq_mod [symmetric] take_bit_eq_mask mask_eq_exp_minus_1)

lemma strmap_wf_pos: "strmap_wf m \<Longrightarrow> 0 < sm_slot_count m"
  by (auto simp: strmap_wf_def)

interpretation sp: linear_probe strmap_wf sm_slot_count strmap_key_at strmap_home strmap_probe_from
proof unfold_locales
  fix m :: "'v strmap" and i k
  assume wf: "strmap_wf m"
  then have "(i + 1) AND (sm_slot_count m - 1) = (i + 1) mod sm_slot_count m"
    using and_mask_mod [of "i + 1"] by (auto simp: strmap_wf_def)
  then show "strmap_probe_from m k i = (if strmap_key_at m i = None \<or> strmap_key_at m i = Some k then Some i
      else strmap_probe_from m k ((i + 1) mod sm_slot_count m))"
    by (subst strmap_probe_from.simps) (simp add: strmap_key_at_def Let_def)
qed (rule strmap_wf_pos)

lemma strmap_home_lt: "strmap_wf m \<Longrightarrow> strmap_home m k < sm_slot_count m"
  using and_mask_mod by (auto simp: strmap_home_def strmap_wf_def)

lemma filled_slot:
  assumes "strmap_filled n m" "i < sm_slot_count m" "sm_slots m ! i \<noteq> 0"
  shows "1 \<le> unat (sm_slots m ! i)" "unat (sm_slots m ! i) \<le> n"
proof -
  have "sm_slots m ! i \<in> set (sm_slots m)" using assms by (simp add: strmap_filled_def strmap_wf_def)
  moreover have "unat (sm_slots m ! i) \<noteq> 0" using assms(3) by (simp add: unat_eq_0)
  ultimately have "unat (sm_slots m ! i) \<in> unat ` set (sm_slots m) - {0}" by blast
  then have "unat (sm_slots m ! i) \<in> {1..n}" using assms(1) by (simp only: strmap_filled_def)
  then show "1 \<le> unat (sm_slots m ! i)" "unat (sm_slots m ! i) \<le> n" by simp_all
qed

lemma filled_entry:
  assumes "strmap_filled n m" "j < n"
  obtains i where "i < sm_slot_count m" "unat (sm_slots m ! i) = Suc j" "strmap_key_at m i = Some (se_key (sm_entries m ! j))"
proof -
  have "Suc j \<in> {1..n}" using assms(2) by simp
  then have "Suc j \<in> unat ` set (sm_slots m)" using assms(1) unfolding strmap_filled_def by blast
  then obtain i where i: "i < length (sm_slots m)" "unat (sm_slots m ! i) = Suc j"
    by (auto simp: in_set_conv_nth)
  then have "sm_slots m ! i \<noteq> 0" by auto
  then have "strmap_key_at m i = Some (se_key (sm_entries m ! j))" using i by (simp add: strmap_key_at_def)
  then show thesis using i that assms(1) by (auto simp: strmap_filled_def strmap_wf_def)
qed

lemma filled_free:
  assumes "strmap_filled n m"
  shows "\<exists>i < sm_slot_count m. strmap_key_at m i = None"
proof (rule ccontr)
  assume none: "\<not> ?thesis"
  let ?f = "\<lambda>i. unat (sm_slots m ! i)"
  have nz: "sm_slots m ! i \<noteq> 0" if "i < sm_slot_count m" for i
    using none that by (auto simp: strmap_key_at_def split: if_splits)
  have "inj_on ?f {..<sm_slot_count m}"
  proof (rule inj_onI)
    fix i j
    assume "i \<in> {..<sm_slot_count m}" "j \<in> {..<sm_slot_count m}" "?f i = ?f j"
    then have "i < sm_slot_count m" "j < sm_slot_count m" "strmap_key_at m i = strmap_key_at m j"
      by (simp_all add: strmap_key_at_def unat_eq_0 [symmetric])
    moreover have "\<exists>x. strmap_key_at m i = Some x" using nz [OF calculation(1)] by (simp add: strmap_key_at_def)
    ultimately show "i = j"
      using chained_unique assms unfolding strmap_filled_def by metis
  qed
  moreover have "?f ` {..<sm_slot_count m} \<subseteq> {1..n}" using filled_slot [OF assms] nz by auto
  ultimately have "sm_slot_count m \<le> n" using card_inj_on_le [of ?f "{..<sm_slot_count m}" "{1..n}"] by simp
  then show False using assms by (simp add: strmap_filled_def)
qed

lemma filled_probe:
  assumes "strmap_filled n m"
  obtains (found) s where "strmap_probe m k = Some s" "s < sm_slot_count m" "sm_slots m ! s \<noteq> 0"
      "se_key (sm_entries m ! (unat (sm_slots m ! s) - 1)) = k" "unat (sm_slots m ! s) - 1 < n"
  | (absent) s where "strmap_probe m k = Some s" "s < sm_slot_count m" "sm_slots m ! s = 0"
      "\<And>j. j < n \<Longrightarrow> se_key (sm_entries m ! j) \<noteq> k"
      "chained (strmap_home m) (sm_slot_count m) ((strmap_key_at m)(s := Some k))"
proof -
  have wf: "strmap_wf m" and ch: "chained (strmap_home m) (sm_slot_count m) (strmap_key_at m)"
    using assms by (simp_all add: strmap_filled_def)
  show thesis
  proof (rule sp.probe_finds [OF wf ch filled_free [OF assms] strmap_home_lt [OF wf], of k])
    fix s
    assume s: "strmap_probe_from m k (strmap_home m k) = Some s" "s < sm_slot_count m" "strmap_key_at m s = Some k"
    then have "sm_slots m ! s \<noteq> 0" "se_key (sm_entries m ! (unat (sm_slots m ! s) - 1)) = k"
      by (auto simp: strmap_key_at_def split: if_splits)
    with s filled_slot [OF assms s(2)] show thesis by (intro found) (auto simp: strmap_probe_def)
  next
    fix s
    assume s: "strmap_probe_from m k (strmap_home m k) = Some s" "s < sm_slot_count m" "strmap_key_at m s = None"
      and no: "\<And>i. i < sm_slot_count m \<Longrightarrow> strmap_key_at m i \<noteq> Some k"
      and c: "chained (strmap_home m) (sm_slot_count m) ((strmap_key_at m)(s := Some k))"
    have "se_key (sm_entries m ! j) \<noteq> k" if "j < n" for j
      using filled_entry [OF assms that] no by metis
    with s c show thesis
      by (intro absent) (auto simp: strmap_probe_def strmap_key_at_def split: if_splits)
  qed
qed

text \<open>Storing the next entry in the free slot its key probes to.\<close>

lemma filled_insert:
  fixes m m' :: "'v strmap"
  assumes fl: "strmap_filled n m" and s: "s < sm_slot_count m" "sm_slots m ! s = 0"
    and ch: "chained (strmap_home m) (sm_slot_count m) ((strmap_key_at m)(s := Some k))"
    and m': "sm_slots m' = (sm_slots m)[s := of_nat (Suc n)]" "sm_slot_count m' = sm_slot_count m"
    and en: "\<And>j. j < n \<Longrightarrow> se_key (sm_entries m' ! j) = se_key (sm_entries m ! j)" "se_key (sm_entries m' ! n) = k"
    and n: "Suc n < sm_slot_count m" "Suc n < 2 ^ 32"
  shows "strmap_filled (Suc n) m'"
proof -
  have len: "length (sm_slots m) = sm_slot_count m" using fl by (simp add: strmap_filled_def strmap_wf_def)
  have un: "unat (of_nat (Suc n) :: u32) = Suc n" using n(2) by (simp add: unsigned_of_nat take_bit_nat_eq_self del: of_nat_Suc)
  then have nz: "of_nat (Suc n) \<noteq> (0 :: u32)" by (metis unat_0 nat.distinct(1))
  have wf: "strmap_wf m'" using fl m' by (simp add: strmap_filled_def strmap_wf_def)
  have key: "strmap_key_at m' i = ((strmap_key_at m)(s := Some k)) i" if "i < sm_slot_count m" for i
  proof (cases "i = s")
    case True
    have "sm_slots m' ! s = of_nat (Suc n)" using s(1) len m'(1) by simp
    then show ?thesis using True un nz en(2) by (simp add: strmap_key_at_def del: of_nat_Suc)
  next
    case False
    have "unat (sm_slots m ! i) - 1 < n" if "sm_slots m ! i \<noteq> 0"
      using filled_slot [OF fl \<open>i < sm_slot_count m\<close> that] by linarith
    then show ?thesis using False en(1) by (simp add: strmap_key_at_def m'(1))
  qed
  have home: "strmap_home m' = strmap_home m" by (rule ext) (simp add: strmap_home_def m')
  have "chained (strmap_home m') (sm_slot_count m') (strmap_key_at m')"
    using ch chained_cong [of "sm_slot_count m" "strmap_key_at m'" "(strmap_key_at m)(s := Some k)" "strmap_home m"]
      key n(1) unfolding home m'(2) by simp
  moreover have "unat ` set (sm_slots m') - {0} = {1..Suc n}"
  proof -
    have "set (sm_slots m') \<subseteq> insert (of_nat (Suc n)) (set (sm_slots m))" unfolding m'(1) by (rule set_update_subset_insert)
    then have "unat ` set (sm_slots m') - {0} \<subseteq> insert (Suc n) (unat ` set (sm_slots m) - {0})"
      using un by (auto simp del: of_nat_Suc)
    moreover have "x \<in> unat ` set (sm_slots m')" if x: "x \<in> {1..n}" for x
    proof -
      obtain i where i: "i < sm_slot_count m" "unat (sm_slots m ! i) = x"
      proof (rule filled_entry [OF fl, of "x - 1"])
        show "x - 1 < n" using x by auto
      qed (use x in auto)
      then have "i \<noteq> s" using s(2) x by auto
      then have "sm_slots m' ! i = sm_slots m ! i" "i < length (sm_slots m')" using i len by (simp_all add: m'(1))
      then show ?thesis using i by (metis imageI nth_mem)
    qed
    moreover have "Suc n \<in> unat ` set (sm_slots m')"
      using s(1) len un set_update_memI [of s "sm_slots m" "of_nat (Suc n)"] unfolding m'(1) by (metis imageI)
    moreover have "unat ` set (sm_slots m) - {0} = {1..n}" using fl by (simp add: strmap_filled_def)
    moreover have "insert (Suc n) {1..n} = {1..Suc n}" by auto
    ultimately show ?thesis by fastforce
  qed
  ultimately show ?thesis using wf n(1) by (simp add: strmap_filled_def m'(2))
qed

section \<open>Growing\<close>

lemma strmap_reinsert_filled:
  assumes "strmap_filled i m" "i + n = length (sm_entries m)" "distinct (map se_key (sm_entries m))"
    and "length (sm_entries m) < sm_slot_count m" "length (sm_entries m) < 2 ^ 32"
  shows "\<exists>m'. strmap_reinsert n i m = Some m' \<and> strmap_filled (length (sm_entries m)) m'
    \<and> sm_entries m' = sm_entries m \<and> sm_cap m' = sm_cap m \<and> sm_slot_count m' = sm_slot_count m"
  using assms
proof (induction n arbitrary: i m)
  case (Suc n)
  let ?k = "se_key (sm_entries m ! i)"
  have i: "i < length (sm_entries m)" using Suc.prems(2) by simp
  have fresh: "se_key (sm_entries m ! j) \<noteq> ?k" if "j < i" for j
    using Suc.prems(3) i that by (auto simp: distinct_conv_nth)
  show ?case
  proof (rule filled_probe [OF Suc.prems(1), of ?k])
    fix s
    assume "se_key (sm_entries m ! (unat (sm_slots m ! s) - 1)) = ?k" "unat (sm_slots m ! s) - 1 < i"
    then show ?thesis using fresh by blast
  next
    fix s
    assume s: "strmap_probe m ?k = Some s" "s < sm_slot_count m" "sm_slots m ! s = 0"
      "chained (strmap_home m) (sm_slot_count m) ((strmap_key_at m)(s := Some ?k))"
    define m1 where "m1 = m\<lparr>sm_slots := (sm_slots m)[s := of_nat (Suc i)]\<rparr>"
    have "strmap_filled (Suc i) m1"
      using i Suc.prems(4,5) by (intro filled_insert [OF Suc.prems(1) s(2-4)]) (simp_all add: m1_def del: of_nat_Suc)
    from Suc.IH [OF this] Suc.prems show ?thesis
      using s(1) by (auto simp: m1_def)
  qed
qed auto

lemma grow_slots_inv:
  assumes inv: "strmap_inv m"
  shows "\<exists>m'. grow_slots m = Some m' \<and> strmap_inv m' \<and> sm_entries m' = sm_entries m
    \<and> length (sm_entries m') + 1 < sm_slot_count m'"
proof -
  define c where "c = (if sm_slot_count m \<noteq> 0 then sm_slot_count m * 2 else STRMAP_FIRST_SLOTS)"
  define m0 where "m0 = m\<lparr>sm_slots := replicate c 0, sm_slot_count := c\<rparr>"
  let ?n = "length (sm_entries m)"
  have c: "\<exists>k. c = 2 ^ k" "?n + 1 < c"
  proof -
    show "\<exists>k. c = 2 ^ k"
    proof (cases "sm_slot_count m = 0")
      case True
      then show ?thesis by (intro exI [of _ 6]) (simp add: c_def STRMAP_FIRST_SLOTS_def)
    next
      case False
      then obtain k where "sm_slot_count m = 2 ^ k" using inv by (auto simp: strmap_inv_def strmap_filled_def strmap_wf_def)
      then show ?thesis by (intro exI [of _ "Suc k"]) (simp add: c_def)
    qed
    show "?n + 1 < c"
      using inv by (auto simp: c_def STRMAP_FIRST_SLOTS_def strmap_inv_def strmap_filled_def split: if_splits)
  qed
  have "strmap_filled 0 m0"
    using c by (auto simp: strmap_filled_def strmap_wf_def m0_def strmap_key_at_def intro!: chained_empty)
  from strmap_reinsert_filled [OF this, of ?n] inv c(2)
  obtain m' where m': "strmap_reinsert ?n 0 m0 = Some m'" "strmap_filled ?n m'" "sm_entries m' = sm_entries m"
    "sm_cap m' = sm_cap m" "sm_slot_count m' = c"
    by (auto simp: strmap_inv_def m0_def)
  have "grow_slots m = Some m'" using m'(1) by (simp add: grow_slots_def c_def m0_def Let_def)
  moreover have "strmap_inv m'" using inv m' c(2) by (simp add: strmap_inv_def)
  ultimately show ?thesis using m' c(2) by simp
qed

section \<open>The map it implements\<close>

definition strmap_lookup :: "'v strmap \<Rightarrow> string \<Rightarrow> 'v option" where
  "strmap_lookup m k = (case map_of (map (\<lambda>e. (se_key e, se_val e)) (sm_entries m)) k of None \<Rightarrow> None | Some v \<Rightarrow> v)"

lemma entries_map_of:
  assumes "distinct (map se_key es)" "j < length es"
  shows "map_of (map (\<lambda>e. (se_key e, se_val e)) es) (se_key (es ! j)) = Some (se_val (es ! j))"
  using assms by (intro map_of_is_SomeI) (auto simp: o_def intro!: image_eqI [of _ _ "es ! j"])

lemma keys_nth: "(\<And>j. j < length es \<Longrightarrow> se_key (es ! j) \<noteq> k) \<Longrightarrow> k \<notin> se_key ` set es"
  by (metis imageE in_set_conv_nth)

lemma entries_map_of_none:
  "k \<notin> se_key ` set es \<Longrightarrow> map_of (map (\<lambda>e. (se_key e, se_val e)) es) k = None"
  by (auto simp: map_of_eq_None_iff)

lemma strmap_get_lookup:
  assumes "strmap_inv m"
  shows "strmap_get m k = Some (strmap_lookup m k)" "strmap_has m k = Some (k \<in> se_key ` set (sm_entries m))"
proof -
  have "strmap_get m k = Some (strmap_lookup m k) \<and> strmap_has m k = Some (k \<in> se_key ` set (sm_entries m))"
  proof (cases "sm_slot_count m = 0")
    case True
    then show ?thesis using assms by (simp add: strmap_get_def strmap_has_def strmap_lookup_def strmap_inv_def)
  next
    case False
    then have fl: "strmap_filled (length (sm_entries m)) m" and d: "distinct (map se_key (sm_entries m))"
      using assms by (simp_all add: strmap_inv_def)
    show ?thesis
    proof (rule filled_probe [OF fl, of k])
      fix s
      assume s: "strmap_probe m k = Some s" "sm_slots m ! s \<noteq> 0"
        "se_key (sm_entries m ! (unat (sm_slots m ! s) - 1)) = k" "unat (sm_slots m ! s) - 1 < length (sm_entries m)"
      from entries_map_of [OF d s(4)] s False show ?thesis
        by (auto simp: strmap_get_def strmap_has_def strmap_lookup_def)
    next
      fix s
      assume s: "strmap_probe m k = Some s" "sm_slots m ! s = 0"
        "\<And>j. j < length (sm_entries m) \<Longrightarrow> se_key (sm_entries m ! j) \<noteq> k"
      have nk: "k \<notin> se_key ` set (sm_entries m)" using s(3) by (rule keys_nth)
      from entries_map_of_none [OF nk] nk s(1,2) False show ?thesis
        by (simp add: strmap_get_def strmap_has_def strmap_lookup_def)
    qed
  qed
  then show "strmap_get m k = Some (strmap_lookup m k)" "strmap_has m k = Some (k \<in> se_key ` set (sm_entries m))" by simp_all
qed

text \<open>Replacing a value keeps every key where it is.\<close>

lemma filled_same_keys:
  assumes "strmap_filled n m" "sm_slots m' = sm_slots m" "sm_slot_count m' = sm_slot_count m"
    and "\<And>j. j < n \<Longrightarrow> se_key (sm_entries m' ! j) = se_key (sm_entries m ! j)"
  shows "strmap_filled n m'"
proof -
  have key: "strmap_key_at m' i = strmap_key_at m i" if "i < sm_slot_count m" for i
    using filled_slot [OF assms(1) that] assms(4) by (auto simp: strmap_key_at_def assms(2))
  have home: "strmap_home m' = strmap_home m" by (rule ext) (simp add: strmap_home_def assms(3))
  show ?thesis
    using assms(1) chained_cong [of "sm_slot_count m" "strmap_key_at m'" "strmap_key_at m" "strmap_home m"]
      key strmap_wf_pos [of m]
    by (simp add: strmap_filled_def strmap_wf_def assms(2,3) home)
qed

lemma lookup_update:
  assumes "distinct (map se_key es)" "j < length es" "se_key (es ! j) = k"
  shows "map_of (map (\<lambda>e. (se_key e, se_val e)) (es[j := (es ! j)\<lparr>se_val := v\<rparr>]))
    = (map_of (map (\<lambda>e. (se_key e, se_val e)) es))(k \<mapsto> v)"
  using assms
proof (induction es arbitrary: j)
  case (Cons e es)
  show ?case
  proof (cases j)
    case (Suc i)
    with Cons.prems have "k \<in> se_key ` set es" by (metis image_eqI length_Cons nth_Cons_Suc nth_mem Suc_less_eq)
    then have "se_key e \<noteq> k" using Cons.prems(1) by auto
    then show ?thesis using Cons.IH [of i] Cons.prems Suc by (auto simp: fun_upd_twist)
  qed (use Cons.prems in auto)
qed simp

lemma strmap_put_spec:
  assumes inv: "strmap_inv m" and room: "length (sm_entries m) + 1 < 2 ^ 32"
  shows "\<exists>m'. strmap_put m k v = Some (m', strmap_lookup m k) \<and> strmap_inv m'
    \<and> strmap_lookup m' = (strmap_lookup m)(k := v)
    \<and> map se_key (sm_entries m')
        = map se_key (sm_entries m) @ (if k \<in> se_key ` set (sm_entries m) then [] else [k])"
proof -
  define g where "g = (if sm_slot_count m = 0 \<or> (length (sm_entries m) + 1) * 10 \<ge> sm_slot_count m * 7
    then grow_slots m else Some m)"
  obtain m1 where m1: "g = Some m1" "strmap_inv m1" "sm_entries m1 = sm_entries m" "length (sm_entries m) + 1 < sm_slot_count m1"
  proof (cases "sm_slot_count m = 0 \<or> (length (sm_entries m) + 1) * 10 \<ge> sm_slot_count m * 7")
    case True
    then show ?thesis using grow_slots_inv [OF inv] that by (auto simp: g_def)
  next
    case False
    then show ?thesis using that [of m] inv by (simp add: g_def)
  qed
  let ?es = "sm_entries m"
  have fl: "strmap_filled (length ?es) m1" and d: "distinct (map se_key ?es)" and cap: "length ?es \<le> sm_cap m1"
    using m1 by (auto simp: strmap_inv_def)
  have put: "strmap_put m k v = (case strmap_probe m1 k of None \<Rightarrow> None | Some slot \<Rightarrow>
      if sm_slots m1 ! slot \<noteq> 0 then
        Some (m1\<lparr>sm_entries := ?es[unat (sm_slots m1 ! slot) - 1 := (?es ! (unat (sm_slots m1 ! slot) - 1))\<lparr>se_val := v\<rparr>]\<rparr>,
              se_val (?es ! (unat (sm_slots m1 ! slot) - 1)))
      else Some (strmap_append m1 slot k v, None))"
    unfolding strmap_put_def g_def [symmetric] m1(1) option.case Let_def m1(3) ..
  show ?thesis
  proof (rule filled_probe [OF fl, of k])
    fix s
    assume s: "strmap_probe m1 k = Some s" "sm_slots m1 ! s \<noteq> 0"
      "se_key (sm_entries m1 ! (unat (sm_slots m1 ! s) - 1)) = k" "unat (sm_slots m1 ! s) - 1 < length ?es"
    define j where "j = unat (sm_slots m1 ! s) - 1"
    define m' where "m' = m1\<lparr>sm_entries := ?es[j := (?es ! j)\<lparr>se_val := v\<rparr>]\<rparr>"
    have j: "j < length ?es" "se_key (?es ! j) = k" using s(3,4) m1(3) by (simp_all add: j_def)
    have keys: "map se_key (sm_entries m') = map se_key ?es"
      by (simp add: m'_def map_update) (metis j(1) length_map list_update_id nth_map)
    have kin: "k \<in> se_key ` set ?es" using j by (metis image_eqI nth_mem)
    have "strmap_filled (length ?es) m'"
      using j by (intro filled_same_keys [OF fl]) (auto simp: m'_def m1(3) nth_list_update)
    then have "strmap_inv m'" using m1 keys by (auto simp: strmap_inv_def m'_def map_update)
    moreover have "strmap_lookup m' = (strmap_lookup m)(k := v)"
      using lookup_update [OF d j] by (auto simp: strmap_lookup_def fun_eq_iff m'_def)
    moreover have "se_val (?es ! j) = strmap_lookup m k"
      using entries_map_of [OF d j(1)] j(2) by (simp add: strmap_lookup_def)
    moreover have "strmap_put m k v = Some (m', se_val (?es ! j))" using put s(1,2) by (simp add: j_def m'_def)
    ultimately show ?thesis using keys kin by simp
  next
    fix s
    assume s: "strmap_probe m1 k = Some s" "s < sm_slot_count m1" "sm_slots m1 ! s = 0"
      "chained (strmap_home m1) (sm_slot_count m1) ((strmap_key_at m1)(s := Some k))"
      and no: "\<And>j. j < length ?es \<Longrightarrow> se_key (sm_entries m1 ! j) \<noteq> k"
    have nk: "k \<notin> se_key ` set ?es" using no m1(3) by (intro keys_nth) simp
    define m' where "m' = strmap_append m1 s k v"
    have m': "sm_entries m' = ?es @ [\<lparr>se_key = k, se_val = v\<rparr>]" "sm_slots m' = (sm_slots m1)[s := of_nat (Suc (length ?es))]"
      "sm_slot_count m' = sm_slot_count m1" "Suc (length ?es) \<le> sm_cap m'"
      using cap by (auto simp: m'_def strmap_append_def m1(3) Let_def)
    have "strmap_filled (Suc (length ?es)) m'"
      using m1(3,4) room by (intro filled_insert [OF fl s(2-4)]) (simp_all add: m' nth_append del: of_nat_Suc)
    then have "strmap_inv m'" using m' d nk room m1(4) by (auto simp: strmap_inv_def)
    moreover have "strmap_lookup m' = (strmap_lookup m)(k := v)"
      using entries_map_of_none [OF nk] by (auto simp: strmap_lookup_def fun_eq_iff m' map_add_def split: option.splits)
    moreover have "strmap_lookup m k = None" using entries_map_of_none [OF nk] by (simp add: strmap_lookup_def)
    ultimately show ?thesis using put s(1,3) nk m'(1) by (simp add: m'_def [symmetric])
  qed
qed

lemma strmap_init_inv: "strmap_inv strmap_init" "strmap_lookup strmap_init k = None"
  by (simp_all add: strmap_inv_def strmap_init_def strmap_lookup_def)

interpretation sm: pointer_map strmap_init strmap_lookup strmap_put strmap_inv "\<lambda>_. True"
    "\<lambda>m n. length (sm_entries m) + n < 2 ^ 32"
proof unfold_locales
  fix m :: "'v strmap" and k v n
  assume inv: "strmap_inv m" and room: "length (sm_entries m) + Suc n < 2 ^ 32"
  then have "length (sm_entries m) + 1 < 2 ^ 32" by linarith
  from strmap_put_spec [OF inv this, of k v]
  obtain m' where m': "strmap_put m k v = Some (m', strmap_lookup m k)" "strmap_inv m'"
    "strmap_lookup m' = (strmap_lookup m)(k := v)"
    "map se_key (sm_entries m') = map se_key (sm_entries m) @ (if k \<in> se_key ` set (sm_entries m) then [] else [k])"
    by blast
  from arg_cong [OF m'(4), of length] have "length (sm_entries m') \<le> Suc (length (sm_entries m))" by (auto split: if_splits)
  with m' room show "\<exists>m'. strmap_put m k v = Some (m', strmap_lookup m k) \<and> strmap_inv m'
      \<and> length (sm_entries m') + n < 2 ^ 32 \<and> strmap_lookup m' = (strmap_lookup m)(k := v)"
    by (intro exI [of _ m']) linarith
qed (simp_all add: strmap_init_inv)

section \<open>Iteration\<close>

function strmap_collect :: "'v strmap_iter \<Rightarrow> 'v strmap_entry list" where
  "strmap_collect it = (case strmap_iter_next it of None \<Rightarrow> [] | Some (e, it') \<Rightarrow> e # strmap_collect it')"
  by pat_completeness auto
termination
  by (relation "measure (\<lambda>it. strmap_len (it_m it) - it_i it)") (auto simp: strmap_iter_next_def split: if_splits)

declare strmap_collect.simps [simp del]

lemma strmap_collect_drop: "strmap_collect it = drop (it_i it) (sm_entries (it_m it))"
proof (induction it rule: strmap_collect.induct)
  case (1 it)
  then show ?case
    by (subst strmap_collect.simps)
      (auto simp: strmap_iter_next_def strmap_len_def Cons_nth_drop_Suc split: option.split if_splits)
qed

text \<open>Keys in the order of their first insertion.\<close>

definition first_put_order :: "string list \<Rightarrow> string list \<Rightarrow> string list" where
  "first_put_order ks acc = fold (\<lambda>k acc. if k \<in> set acc then acc else acc @ [k]) ks acc"

lemma strmap_put_all_keys:
  assumes "strmap_inv m" "length (sm_entries m) + length kvs < 2 ^ 32" "sm.put_all kvs m = Some m'"
  shows "map se_key (sm_entries m') = first_put_order (map fst kvs) (map se_key (sm_entries m))"
  using assms
proof (induction kvs arbitrary: m)
  case (Cons kv kvs)
  have "length (sm_entries m) + 1 < 2 ^ 32" using Cons.prems(2) by simp
  from strmap_put_spec [OF Cons.prems(1) this, of "fst kv" "snd kv"]
  obtain m1 where m1: "strmap_put m (fst kv) (snd kv) = Some (m1, strmap_lookup m (fst kv))" "strmap_inv m1"
    "map se_key (sm_entries m1) = map se_key (sm_entries m) @ (if fst kv \<in> se_key ` set (sm_entries m) then [] else [fst kv])"
    by blast
  have "length (sm_entries m1) + length kvs < 2 ^ 32"
    using arg_cong [OF m1(3), of length] Cons.prems(2) by (auto split: if_splits)
  from Cons.IH [OF m1(2) this] Cons.prems(3) m1 show ?case by (simp add: first_put_order_def)
qed (simp add: first_put_order_def)



end
