(* ===== verification/Arena.thy ===== *)
theory Arena
  imports U128
begin

text \<open>
  src/src/util/arena.c: the bump allocator every phase of the compiler allocates from. A block is its
  bookkeeping record; its payload is the base address aligned_alloc returned, which the model leaves
  symbolic: a pointer is the number of the block (counted from the oldest) and an offset. Sizes are
  64-bit words with C's wrap-around. Whether aligned_alloc finds memory is the parameter \<open>avail\<close>.
\<close>

unbundle bit_operations_syntax

section \<open>Definitions\<close>

record arena_block =
  ab_cap :: u64
  ab_used :: u64
  ab_align :: u64

text \<open>The list of blocks starts with the head of the C list, the newest block.\<close>

record arena =
  ar_blocks :: "arena_block list"
  ar_next_block_size :: u64
  ar_peak_bytes :: u64
  ar_reserved_bytes :: u64
  ar_requested_bytes :: u64
  ar_block_count :: u64

type_synonym arena_ptr = "nat \<times> u64"

definition ARENA_FIRST_BLOCK :: u64 where
  "ARENA_FIRST_BLOCK = 64 * 1024"

definition MAX_ALIGN :: u64 where
  "MAX_ALIGN = 16"

definition arena_init :: arena where
  "arena_init = \<lparr>ar_blocks = [], ar_next_block_size = ARENA_FIRST_BLOCK, ar_peak_bytes = 0,
     ar_reserved_bytes = 0, ar_requested_bytes = 0, ar_block_count = 0\<rparr>"

text \<open>\<open>while (cap < min_payload) cap *= 2\<close>\<close>

partial_function (option) grow_cap :: "u64 \<Rightarrow> u64 \<Rightarrow> u64 option" where
  "grow_cap min_payload cap = (if cap < min_payload then grow_cap min_payload (cap * 2) else Some cap)"

definition align_up :: "u64 \<Rightarrow> u64 \<Rightarrow> u64" where
  "align_up x align = (x + align - 1) AND NOT (align - 1)"

definition arena_new_block :: "(u64 \<Rightarrow> u64 \<Rightarrow> bool) \<Rightarrow> arena \<Rightarrow> u64 \<Rightarrow> u64 \<Rightarrow> arena outcome" where
  "arena_new_block avail a min_payload align =
     (let block_align = (if align < MAX_ALIGN then MAX_ALIGN else align) in
      bind_outcome (returning (grow_cap min_payload (ar_next_block_size a))) (\<lambda>cap.
        let alloc_size = align_up cap block_align in
        if \<not> avail block_align alloc_size then Inl (ICE ''out of memory allocating aligned arena bytes'')
        else
          (let reserved = ar_reserved_bytes a + alloc_size in
           Inr (a\<lparr>ar_blocks := \<lparr>ab_cap = alloc_size, ab_used = 0, ab_align = block_align\<rparr> # ar_blocks a,
                  ar_reserved_bytes := reserved,
                  ar_block_count := ar_block_count a + 1,
                  ar_peak_bytes := (if reserved > ar_peak_bytes a then reserved else ar_peak_bytes a),
                  ar_next_block_size := (if ar_next_block_size a < cap then cap else ar_next_block_size a) * 2\<rparr>))))"

definition arena_alloc :: "(u64 \<Rightarrow> u64 \<Rightarrow> bool) \<Rightarrow> arena \<Rightarrow> u64 \<Rightarrow> u64 \<Rightarrow> (arena \<times> arena_ptr) outcome" where
  "arena_alloc avail a0 sz align =
     (if align = 0 \<or> align AND (align - 1) \<noteq> 0 then Inl (ICE ''arena_alloc: alignment is not a power of two'')
      else
        (let a = a0\<lparr>ar_requested_bytes := ar_requested_bytes a0 + sz\<rparr>;
             fresh = bind_outcome (arena_new_block avail a sz align) (\<lambda>a'.
               let b = hd (ar_blocks a'); bs = tl (ar_blocks a')
               in Inr (a'\<lparr>ar_blocks := b\<lparr>ab_used := sz\<rparr> # bs\<rparr>, (length bs, 0)))
         in case ar_blocks a of
              [] \<Rightarrow> fresh
            | b # bs \<Rightarrow>
                if align \<le> ab_align b then
                  (let aligned = align_up (ab_used b) align in
                   if aligned \<le> ab_cap b \<and> sz \<le> ab_cap b - aligned
                   then Inr (a\<lparr>ar_blocks := b\<lparr>ab_used := aligned + sz\<rparr> # bs\<rparr>, (length bs, aligned))
                   else fresh)
                else fresh))"

text \<open>The copy, as its address and the bytes written there, the terminator included.\<close>

definition arena_strndup :: "(u64 \<Rightarrow> u64 \<Rightarrow> bool) \<Rightarrow> arena \<Rightarrow> string \<Rightarrow> (arena \<times> arena_ptr \<times> string) outcome" where
  "arena_strndup avail a s =
     bind_outcome (arena_alloc avail a (of_nat (length s) + 1) 1) (\<lambda>(a', p). Inr (a', p, s @ [CHR 0x00]))"

record arena_stats =
  st_peak_bytes :: u64
  st_reserved_bytes :: u64
  st_requested_bytes :: u64
  st_block_count :: u64

definition arena_stats_of :: "arena \<Rightarrow> arena_stats" where
  "arena_stats_of a = \<lparr>st_peak_bytes = ar_peak_bytes a, st_reserved_bytes = ar_reserved_bytes a,
     st_requested_bytes = ar_requested_bytes a, st_block_count = ar_block_count a\<rparr>"

definition arena_free_all :: "arena \<Rightarrow> arena" where
  "arena_free_all a = \<lparr>ar_blocks = [], ar_next_block_size = ARENA_FIRST_BLOCK, ar_peak_bytes = 0,
     ar_reserved_bytes = 0, ar_requested_bytes = 0, ar_block_count = 0\<rparr>"

section \<open>Alignment\<close>

lemma unat_2p: "k < 64 \<Longrightarrow> unat (2 ^ k :: u64) = 2 ^ k"
  by (rule unat_word_2p) simp

lemma align_up_value:
  assumes "k < 64" "unat x + 2 ^ k \<le> 2 ^ 64"
  shows "unat (align_up x (2 ^ k)) = (unat x + 2 ^ k - 1) div 2 ^ k * 2 ^ k"
  using word_align_up [of k x] assms by (simp add: align_up_def)

lemma align_up_bounds:
  assumes "k < 64" "unat x + 2 ^ k \<le> 2 ^ 64"
  shows "unat x \<le> unat (align_up x (2 ^ k))" "unat (align_up x (2 ^ k)) < unat x + 2 ^ k"
    "2 ^ k dvd unat (align_up x (2 ^ k))"
  unfolding align_up_value [OF assms] by (rule nat_align_up)+

text \<open>The test for a power of two.\<close>

lemma power_of_two_test:
  fixes w :: u64
  shows "w \<noteq> 0 \<and> w AND (w - 1) = 0 \<longleftrightarrow> (\<exists>k<64. w = 2 ^ k)"
proof
  assume w: "w \<noteq> 0 \<and> w AND (w - 1) = 0"
  define t where "t = nbits (unat w) - 1"
  have pos: "0 < unat w" using w by (simp add: unat_gt_0)
  have b: "2 ^ t \<le> unat w" "unat w < 2 * 2 ^ t"
    using nbits_ge [OF pos] lt_2_nbits [of "unat w"] nbits_pos [OF pos] by (simp_all add: t_def)
  have "(2 :: nat) ^ t < 2 ^ 64" using b(1) unat_u64_lt [of w] by (rule order_le_less_trans)
  then have t: "t < 64" by (rule power_less_imp_less_exp [rotated]) simp
  have top: "bit n t" if "2 ^ t \<le> n" "n < 2 * 2 ^ t" for n :: nat
  proof -
    have "n div 2 ^ t = 1" using that by (intro div_nat_eqI) simp_all
    then show ?thesis by (simp add: bit_iff_odd)
  qed
  have "unat w = 2 ^ t"
  proof (rule ccontr)
    assume "unat w \<noteq> 2 ^ t"
    then have "bit (unat w) t" "bit (unat w - 1) t" using b by (auto intro!: top)
    moreover have "unat (w - 1) = unat w - 1" using w by (simp add: unat_minus_one)
    ultimately have "bit (w AND (w - 1)) t"
      using t by (metis bit_and_iff bit_unsigned_iff)
    then show False using w by simp
  qed
  then have "w = 2 ^ t" using t by (metis unat_2p word_unat_eq_iff)
  then show "\<exists>k<64. w = 2 ^ k" using t by blast
next
  assume "\<exists>k<64. w = 2 ^ k"
  then obtain k where k: "k < 64" "w = 2 ^ k" by blast
  then show "w \<noteq> 0 \<and> w AND (w - 1) = 0" using word_2p_test [of k, where 'a = 64] by simp
qed

section \<open>Blocks\<close>

lemma grow_cap_returns:
  assumes "k \<le> K" "K < 64" "unat mp \<le> 2 ^ K"
  shows "\<exists>j. k \<le> j \<and> j \<le> K \<and> grow_cap mp (2 ^ k) = Some (2 ^ j) \<and> unat mp \<le> 2 ^ j
    \<and> (j = k \<or> 2 ^ j < 2 * unat mp)"
  using assms(1)
proof (induction k rule: inc_induct)
  case base
  then show ?case
    using assms(2,3) by (intro exI [of _ K]) (simp add: grow_cap.simps [of mp "2 ^ K"] word_less_nat_alt unat_2p)
next
  case (step k)
  show ?case
  proof (cases "(2 :: u64) ^ k < mp")
    case True
    have "grow_cap mp (2 ^ k) = grow_cap mp (2 ^ Suc k)" using True by (subst grow_cap.simps) (simp add: mult.commute)
    moreover have "2 ^ Suc k < 2 * unat mp" using True step assms(2) by (simp add: word_less_nat_alt unat_2p)
    ultimately show ?thesis using step.IH by (metis Suc_leD)
  next
    case False
    then have "unat mp \<le> 2 ^ k" using step assms(2) by (simp add: word_less_nat_alt unat_2p)
    with False step show ?thesis by (intro exI [of _ k]) (simp add: grow_cap.simps [of mp "2 ^ k"])
  qed
qed

section \<open>Invariant and ownership\<close>

definition block_inv :: "arena_block \<Rightarrow> bool" where
  "block_inv b \<longleftrightarrow> ab_used b \<le> ab_cap b \<and> unat (ab_cap b) < 2 ^ 63 \<and> (\<exists>k<63. ab_align b = 2 ^ k)"

definition arena_inv :: "arena \<Rightarrow> bool" where
  "arena_inv a \<longleftrightarrow> list_all block_inv (ar_blocks a) \<and> (\<exists>k<64. ar_next_block_size a = 2 ^ k)"

text \<open>The block with a given number, and the bytes handed out so far.\<close>

definition arena_block_at :: "arena \<Rightarrow> nat \<Rightarrow> arena_block" where
  "arena_block_at a i = rev (ar_blocks a) ! i"

definition arena_owned :: "arena \<Rightarrow> (nat \<times> nat) set" where
  "arena_owned a = {(i, x). i < length (ar_blocks a) \<and> x < unat (ab_used (arena_block_at a i))}"

definition ptr_range :: "arena_ptr \<Rightarrow> u64 \<Rightarrow> (nat \<times> nat) set" where
  "ptr_range p sz = {fst p} \<times> {unat (snd p)..<unat (snd p) + unat sz}"

lemma arena_owned_Cons:
  "ar_blocks a = b # bs \<Longrightarrow>
   arena_owned a = {(i, x). i < length bs \<and> x < unat (ab_used (rev bs ! i))} \<union> {length bs} \<times> {..<unat (ab_used b)}"
  by (auto simp: arena_owned_def arena_block_at_def nth_append less_Suc_eq)

lemma arena_owned_Nil: "ar_blocks a = [] \<Longrightarrow> arena_owned a = {}"
  by (simp add: arena_owned_def)

text \<open>
  What a successful allocation promises: blocks grow at most geometrically; the range was not handed out before, it is now, nothing
  handed out is taken back, the range ends within its block, and the offset and the block are
  aligned.
\<close>

definition alloc_ok :: "arena \<Rightarrow> u64 \<Rightarrow> u64 \<Rightarrow> arena \<Rightarrow> arena_ptr \<Rightarrow> bool" where
  "alloc_ok a sz align a' p \<longleftrightarrow>
     arena_inv a' \<and> fst p < length (ar_blocks a')
     \<and> unat (ar_next_block_size a') \<le> max (2 * unat (ar_next_block_size a)) (4 * unat sz)
     \<and> ptr_range p sz \<inter> arena_owned a = {} \<and> arena_owned a' \<supseteq> arena_owned a \<union> ptr_range p sz
     \<and> unat (snd p) + unat sz \<le> unat (ab_cap (arena_block_at a' (fst p)))
     \<and> unat align dvd unat (snd p) \<and> unat align dvd unat (ab_align (arena_block_at a' (fst p)))"

lemma alloc_okI:
  assumes "arena_inv a'" "ar_blocks a' = b' # bs" "unat (ab_used b') = unat off + unat sz"
    and "unat align dvd unat off" "unat align dvd unat (ab_align b')"
    and nx: "unat (ar_next_block_size a') \<le> max (2 * unat (ar_next_block_size a)) (4 * unat sz)"
    and old: "(\<exists>b. ar_blocks a = b # bs \<and> unat (ab_used b) \<le> unat off) \<or> ar_blocks a = bs"
  shows "alloc_ok a sz align a' (length bs, off)"
proof -
  let ?rest = "{(i, x). i < length bs \<and> x < unat (ab_used (rev bs ! i))}"
  have at: "arena_block_at a' (length bs) = b'" by (simp add: arena_block_at_def assms(2) nth_append)
  have "ab_used b' \<le> ab_cap b'" using assms(1,2) by (simp add: arena_inv_def block_inv_def)
  then have cap: "unat off + unat sz \<le> unat (ab_cap b')" using assms(3) by (simp add: word_le_nat_alt)
  have new: "arena_owned a' = ?rest \<union> {length bs} \<times> {..<unat off + unat sz}"
    unfolding arena_owned_Cons [OF assms(2)] assms(3) ..
  from old obtain u where u: "arena_owned a = ?rest \<union> {length bs} \<times> {..<u}" "u \<le> unat off"
  proof
    assume "\<exists>b. ar_blocks a = b # bs \<and> unat (ab_used b) \<le> unat off"
    then obtain b where b: "ar_blocks a = b # bs" "unat (ab_used b) \<le> unat off" by blast
    show thesis using that [OF arena_owned_Cons [OF b(1)] b(2)] .
  next
    assume "ar_blocks a = bs"
    then show thesis using that [of 0] by (simp add: arena_owned_def arena_block_at_def)
  qed
  have "ptr_range (length bs, off) sz \<inter> arena_owned a = {}" using u(2) unfolding u(1) ptr_range_def by auto
  moreover have "arena_owned a \<union> ptr_range (length bs, off) sz \<subseteq> arena_owned a'"
    using u(2) unfolding u(1) new ptr_range_def by auto
  ultimately show ?thesis using assms(1,2,4,5) nx cap by (simp add: alloc_ok_def at)
qed

lemma arena_bump_ok:
  assumes inv: "arena_inv a" and bs: "ar_blocks a = b # bs" and al: "align = 2 ^ j" "j < 63" "align \<le> ab_align b"
    and fit: "align_up (ab_used b) align \<le> ab_cap b" "sz \<le> ab_cap b - align_up (ab_used b) align"
  shows "alloc_ok a sz align (a\<lparr>ar_requested_bytes := r,
      ar_blocks := b\<lparr>ab_used := align_up (ab_used b) align + sz\<rparr> # bs\<rparr>) (length bs, align_up (ab_used b) align)"
proof -
  let ?x = "align_up (ab_used b) align" and ?b = "b\<lparr>ab_used := align_up (ab_used b) align + sz\<rparr>"
  obtain k where b: "ab_used b \<le> ab_cap b" "unat (ab_cap b) < 2 ^ 63" "k < 63" "ab_align b = 2 ^ k"
    using inv bs by (auto simp: arena_inv_def block_inv_def)
  have jk: "j \<le> k" using al b unat_2p [of j] unat_2p [of k] by (simp add: word_le_nat_alt)
  have "(2 :: nat) ^ j \<le> 2 ^ 62" using al by (intro power_increasing) simp_all
  then have room: "unat (ab_used b) + 2 ^ j \<le> 2 ^ 64" using b(1,2) by (simp add: word_le_nat_alt)
  note ub = align_up_bounds [OF _ room, folded al(1)]
  have sum: "unat (?x + sz) = unat ?x + unat sz" "unat ?x + unat sz \<le> unat (ab_cap b)"
  proof -
    have "unat (ab_cap b - ?x) = unat (ab_cap b) - unat ?x" using fit(1) by (rule unat_sub)
    then show le: "unat ?x + unat sz \<le> unat (ab_cap b)" using fit by (simp add: word_le_nat_alt)
    show "unat (?x + sz) = unat ?x + unat sz" using le b(2) by (simp add: unat_word_ariths)
  qed
  have "block_inv ?b" using sum b by (auto simp: block_inv_def word_le_nat_alt)
  then have "arena_inv (a\<lparr>ar_requested_bytes := r, ar_blocks := ?b # bs\<rparr>)" using inv bs by (simp add: arena_inv_def)
  moreover have "(2 :: nat) ^ j dvd 2 ^ k" using jk by (rule le_imp_power_dvd)
  ultimately show ?thesis
    using ub al sum b bs unat_2p [of j] unat_2p [of k] by (intro alloc_okI [where b' = ?b]) auto
qed

lemma arena_new_block_value:
  assumes inv: "arena_inv a" and nbs: "unat (ar_next_block_size a) \<le> 2 ^ 60" and mp: "unat mp \<le> 2 ^ 60"
    and al: "align = 2 ^ j" "j < 63"
  shows "arena_new_block avail a mp align = Inl (ICE ''out of memory allocating aligned arena bytes'')
    \<or> (\<exists>a' b. arena_new_block avail a mp align = Inr a' \<and> ar_blocks a' = b # ar_blocks a \<and> block_inv b
        \<and> ab_used b = 0 \<and> unat mp \<le> unat (ab_cap b) \<and> unat align dvd unat (ab_align b)
        \<and> (\<exists>k<64. ar_next_block_size a' = 2 ^ k)
        \<and> unat (ar_next_block_size a') \<le> max (2 * unat (ar_next_block_size a)) (4 * unat mp))"
proof -
  obtain n where n: "n < 64" "ar_next_block_size a = 2 ^ n" using inv by (auto simp: arena_inv_def)
  have n60: "n \<le> 60" using nbs n unat_2p [of n] by (metis one_less_numeral_iff power_le_imp_le_exp semiring_norm(76))
  obtain c where c: "n \<le> c" "c \<le> 60" "grow_cap mp (2 ^ n) = Some (2 ^ c)" "unat mp \<le> 2 ^ c"
    "c = n \<or> 2 ^ c < 2 * unat mp"
    using grow_cap_returns [OF n60 _ mp] by auto
  define m where "m = max j 4"
  have ba: "(if align < MAX_ALIGN then MAX_ALIGN else align) = 2 ^ m"
  proof -
    have M: "MAX_ALIGN = 2 ^ 4" by (simp add: MAX_ALIGN_def)
    have "align < MAX_ALIGN \<longleftrightarrow> j < 4"
      using al unat_2p [of j] unat_2p [of 4] power_strict_increasing_iff [of "2 :: nat" j 4]
      unfolding M word_less_nat_alt by (simp del: power_strict_increasing_iff)
    then show ?thesis using al M by (auto simp: m_def max_def)
  qed
  have m: "m < 63" "j \<le> m" using al by (auto simp: m_def)
  have p: "unat (2 ^ c :: u64) = 2 ^ c" using c(2) by (intro unat_2p) simp
  have c60: "(2 :: nat) ^ c \<le> 2 ^ 60" using c(2) by (intro power_increasing) simp_all
  have m62: "(2 :: nat) ^ m \<le> 2 ^ 62" using m(1) by (intro power_increasing) simp_all
  have room: "unat (2 ^ c :: u64) + 2 ^ m \<le> 2 ^ 64" unfolding p using c60 m62 by simp
  note up = align_up_bounds [OF _ room]
  define b where "b = \<lparr>ab_cap = align_up (2 ^ c) (2 ^ m), ab_used = 0, ab_align = 2 ^ m\<rparr>"
  have bc: "unat mp \<le> unat (ab_cap b)" "unat (ab_cap b) < 2 ^ 63"
    using up m c(4) c60 m62 by (simp_all add: b_def p)
  have "block_inv b" using bc m(1) unfolding block_inv_def by (auto simp: b_def)
  moreover have "unat align dvd unat (ab_align b)"
    using m al unat_2p [of m] unat_2p [of j] by (simp add: b_def le_imp_power_dvd)
  moreover have nx: "(if ar_next_block_size a < 2 ^ c then 2 ^ c else ar_next_block_size a) * 2 = 2 ^ Suc c"
  proof -
    have "ar_next_block_size a < 2 ^ c \<longleftrightarrow> n < c" using n p unat_2p [of n] by (simp add: word_less_nat_alt)
    then show ?thesis using n c(1) by (auto simp: mult.commute)
  qed
  moreover have "unat (2 ^ Suc c :: u64) \<le> max (2 * unat (ar_next_block_size a)) (4 * unat mp)"
    using c(2,5) unat_2p [of "Suc c"] unat_2p [of n] by (auto simp: n(2))
  ultimately show ?thesis
    using bc(1) c(2) unfolding arena_new_block_def Let_def ba n(2) c(3) returning_simps bind_outcome_simps
    by (auto simp: b_def n(2) [symmetric] nx intro!: exI [of _ "Suc c"])
qed

lemma arena_fresh_ok:
  assumes inv: "arena_inv a" and bs: "ar_blocks a' = b # ar_blocks a" "block_inv b" "ab_used b = 0"
    "unat sz \<le> unat (ab_cap b)" "unat align dvd unat (ab_align b)" "\<exists>k<64. ar_next_block_size a' = 2 ^ k"
    "unat (ar_next_block_size a') \<le> max (2 * unat (ar_next_block_size a)) (4 * unat sz)"
  shows "alloc_ok a sz align (a'\<lparr>ar_blocks := b\<lparr>ab_used := sz\<rparr> # ar_blocks a\<rparr>) (length (ar_blocks a), 0)"
  using assms by (intro alloc_okI [where b' = "b\<lparr>ab_used := sz\<rparr>"])
    (auto simp: arena_inv_def block_inv_def word_le_nat_alt)

lemma alloc_ok_requested: "alloc_ok (a\<lparr>ar_requested_bytes := r\<rparr>) sz align a' p = alloc_ok a sz align a' p"
  by (simp add: alloc_ok_def arena_owned_def arena_block_at_def)

lemma arena_alloc_spec:
  assumes "arena_inv a" "unat (ar_next_block_size a) \<le> 2 ^ 60" "unat sz \<le> 2 ^ 60" and j: "align = 2 ^ j" "j < 63"
  shows "arena_alloc avail a sz align = Inl (ICE ''out of memory allocating aligned arena bytes'')
    \<or> (\<exists>a' p. arena_alloc avail a sz align = Inr (a', p) \<and> alloc_ok a sz align a' p)"
proof -
  have "\<exists>k<64. align = 2 ^ k" using j by (intro exI [of _ j]) simp
  then have test: "align \<noteq> 0 \<and> align AND (align - 1) = 0" using power_of_two_test by blast
  define a1 where "a1 = a\<lparr>ar_requested_bytes := ar_requested_bytes a + sz\<rparr>"
  have inv1: "arena_inv a1" "ar_blocks a1 = ar_blocks a" "unat (ar_next_block_size a1) \<le> 2 ^ 60"
    using assms(1,2) by (simp_all add: a1_def arena_inv_def)
  define fresh where "fresh = bind_outcome (arena_new_block avail a1 sz align) (\<lambda>a'.
      let b = hd (ar_blocks a'); bs = tl (ar_blocks a')
      in Inr (a'\<lparr>ar_blocks := b\<lparr>ab_used := sz\<rparr> # bs\<rparr>, (length bs, 0 :: u64)))"
  have fr: "fresh = Inl (ICE ''out of memory allocating aligned arena bytes'')
      \<or> (\<exists>a' p. fresh = Inr (a', p) \<and> alloc_ok a sz align a' p)"
    using arena_new_block_value [OF inv1(1,3) assms(3) j, of avail]
  proof
    assume "\<exists>a' b. arena_new_block avail a1 sz align = Inr a' \<and> ar_blocks a' = b # ar_blocks a1 \<and> block_inv b
        \<and> ab_used b = 0 \<and> unat sz \<le> unat (ab_cap b) \<and> unat align dvd unat (ab_align b)
        \<and> (\<exists>k<64. ar_next_block_size a' = 2 ^ k)
        \<and> unat (ar_next_block_size a') \<le> max (2 * unat (ar_next_block_size a1)) (4 * unat sz)"
    then obtain a' b where ab: "arena_new_block avail a1 sz align = Inr a'" "ar_blocks a' = b # ar_blocks a1" "block_inv b"
      "ab_used b = 0" "unat sz \<le> unat (ab_cap b)" "unat align dvd unat (ab_align b)" "\<exists>k<64. ar_next_block_size a' = 2 ^ k"
      "unat (ar_next_block_size a') \<le> max (2 * unat (ar_next_block_size a1)) (4 * unat sz)"
      by blast
    from arena_fresh_ok [OF inv1(1) ab(2-)] show ?thesis
      unfolding a1_def alloc_ok_requested fresh_def ab(1) [unfolded a1_def]
      using ab(2) by (auto simp: Let_def a1_def)
  qed (simp add: fresh_def)
  have eq: "arena_alloc avail a sz align = (case ar_blocks a1 of [] \<Rightarrow> fresh | b # bs \<Rightarrow>
      if align \<le> ab_align b \<and> align_up (ab_used b) align \<le> ab_cap b \<and> sz \<le> ab_cap b - align_up (ab_used b) align
      then Inr (a1\<lparr>ar_blocks := b\<lparr>ab_used := align_up (ab_used b) align + sz\<rparr> # bs\<rparr>, (length bs, align_up (ab_used b) align))
      else fresh)"
    using test unfolding arena_alloc_def Let_def a1_def [symmetric] fresh_def by (auto split: list.split)
  show ?thesis
  proof (cases "ar_blocks a1")
    case Nil
    then show ?thesis using fr eq by simp
  next
    case (Cons b bs)
    then show ?thesis
      using fr eq arena_bump_ok [OF assms(1) _ j, of b bs sz "ar_requested_bytes a + sz"] inv1(2)
      by (auto simp: a1_def)
  qed
qed

text \<open>Memory that never runs out.\<close>

lemma arena_no_oom: "arena_alloc (\<lambda>_ _. True) a sz align \<noteq> Inl (ICE ''out of memory allocating aligned arena bytes'')"
  by (auto simp: arena_alloc_def arena_new_block_def bind_outcome_def Let_def returning_def
      split: option.splits list.splits if_splits)

text \<open>
  C27: the arena hands out memory safely. An alignment that is not a power of two is an internal error.
  Otherwise, while block sizes stay below \<open>2\<^sup>6\<^sup>0\<close>, an allocation returns unless the system is out of
  memory, and then the bytes it returns lie inside one block, have not been handed out before, stay
  disjoint from every later allocation, and are aligned; the invariant is kept.
\<close>

theorem arena_alloc_safe:
  assumes "arena_inv a" "unat (ar_next_block_size a) \<le> 2 ^ 60" "unat sz \<le> 2 ^ 60" "unat align < 2 ^ 63"
  shows "if \<exists>k. align = 2 ^ k \<and> k < 63
    then arena_alloc avail a sz align = Inl (ICE ''out of memory allocating aligned arena bytes'')
      \<or> (\<exists>a' p. arena_alloc avail a sz align = Inr (a', p) \<and> alloc_ok a sz align a' p)
    else arena_alloc avail a sz align = Inl (ICE ''arena_alloc: alignment is not a power of two'')"
proof (cases "\<exists>k. align = 2 ^ k \<and> k < 63")
  case False
  have "\<not> (\<exists>k<64. align = 2 ^ k)"
  proof
    assume "\<exists>k<64. align = 2 ^ k"
    then obtain k where k: "k < 64" "align = 2 ^ k" by blast
    then have "(2 :: nat) ^ k < 2 ^ 63" using assms(4) unat_2p by metis
    then have "k < 63" by (rule power_less_imp_less_exp [rotated]) simp
    with k False show False by blast
  qed
  then show ?thesis using False power_of_two_test [of align] by (auto simp: arena_alloc_def)
next
  case True
  then show ?thesis using arena_alloc_spec [OF assms(1-3), of align _ avail] by auto
qed

theorem arena_alloc_safe_witness:
  "\<exists>a' p. arena_alloc (\<lambda>_ _. True) arena_init 24 8 = Inr (a', p) \<and> alloc_ok arena_init 24 8 a' p"
proof -
  have inv: "arena_inv arena_init"
    by (auto simp: arena_inv_def arena_init_def ARENA_FIRST_BLOCK_def intro!: exI [of _ 16])
  have "\<exists>k. (8 :: u64) = 2 ^ k \<and> k < 63" by (intro exI [of _ 3]) simp
  then have "arena_alloc (\<lambda>_ _. True) arena_init 24 8 = Inl (ICE ''out of memory allocating aligned arena bytes'')
      \<or> (\<exists>a' p. arena_alloc (\<lambda>_ _. True) arena_init 24 8 = Inr (a', p) \<and> alloc_ok arena_init 24 8 a' p)"
    using arena_alloc_safe [OF inv, of 24 8 "\<lambda>_ _. True"] by (simp add: arena_init_def ARENA_FIRST_BLOCK_def)
  moreover have "arena_alloc (\<lambda>_ _. True) arena_init 24 8 \<noteq> Inl (ICE ''out of memory allocating aligned arena bytes'')"
    by (rule arena_no_oom)
  ultimately show ?thesis by blast
qed

end
