(* ===== verification/Ptrmap.thy ===== *)
theory Ptrmap
  imports Strmap Arena
begin

text \<open>
  src/src/util/ptrmap.c: the map from interned pointers, compared by identity. A pointer is its
  64-bit representation, zero being NULL; a value \<open>void *\<close> is an option. The map keeps only whether
  its arena pointer is set, and the arena itself is passed along, because other clients share it.
  \<open>avail\<close> is the memory the arena finds. size_t values are natural numbers; where the code tests for
  overflow the model tests the same bound.
\<close>

section \<open>Definitions\<close>

definition PTRMAP_FIRST_SLOTS :: nat where
  "PTRMAP_FIRST_SLOTS = 8"

definition SIZE_MAX :: nat where
  "SIZE_MAX = 2 ^ 64 - 1"

record 'v ptrmap_slot =
  ps_key :: u64
  ps_value :: "'v option"

record 'v ptrmap =
  pm_slots :: "'v ptrmap_slot list"
  pm_len :: nat
  pm_slot_count :: nat
  pm_arena :: bool

definition PTRMAP_SLOT_SIZE :: nat where
  "PTRMAP_SLOT_SIZE = 16"

definition pointer_hash :: "u64 \<Rightarrow> u64" where
  "pointer_hash key =
     (let x1 = key XOR drop_bit 33 key;
          x2 = x1 * 0xff51afd7ed558ccd;
          x3 = x2 XOR drop_bit 33 x2;
          x4 = x3 * 0xc4ceb9fe1a85ec53
      in x4 XOR drop_bit 33 x4)"

partial_function (option) ptrmap_probe_from :: "'v ptrmap \<Rightarrow> u64 \<Rightarrow> nat \<Rightarrow> nat option" where
  "ptrmap_probe_from m key slot =
     (if ps_key (pm_slots m ! slot) \<noteq> 0 \<and> ps_key (pm_slots m ! slot) \<noteq> key
      then ptrmap_probe_from m key ((slot + 1) AND (pm_slot_count m - 1)) else Some slot)"

definition ptrmap_home :: "'v ptrmap \<Rightarrow> u64 \<Rightarrow> nat" where
  "ptrmap_home m key = unat (pointer_hash key) AND (pm_slot_count m - 1)"

definition ptrmap_probe :: "'v ptrmap \<Rightarrow> u64 \<Rightarrow> nat option" where
  "ptrmap_probe m key = ptrmap_probe_from m key (ptrmap_home m key)"

primrec ptrmap_rehash :: "'v ptrmap_slot list \<Rightarrow> 'v ptrmap \<Rightarrow> 'v ptrmap option" where
  "ptrmap_rehash [] m = Some m"
| "ptrmap_rehash (s # ss) m =
     (if ps_key s \<noteq> 0 then
        (case ptrmap_probe m (ps_key s) of
           None \<Rightarrow> None
         | Some i \<Rightarrow> ptrmap_rehash ss (m\<lparr>pm_slots := (pm_slots m)[i := s]\<rparr>))
      else ptrmap_rehash ss m)"

definition ptrmap_grow :: "(u64 \<Rightarrow> u64 \<Rightarrow> bool) \<Rightarrow> 'v ptrmap \<Rightarrow> arena \<Rightarrow> ('v ptrmap \<times> arena) outcome" where
  "ptrmap_grow avail m a =
     (let old_slots = pm_slots m; old_count = pm_slot_count m in
      if old_count > SIZE_MAX div 2 then Inl (ICE ''pointer map capacity overflow'')
      else
        (let count = (if old_count \<noteq> 0 then old_count * 2 else PTRMAP_FIRST_SLOTS) in
         if count > SIZE_MAX div PTRMAP_SLOT_SIZE then Inl (ICE ''pointer map capacity overflow'')
         else
           bind_outcome (arena_alloc avail a (of_nat (count * PTRMAP_SLOT_SIZE)) 8) (\<lambda>(a', _).
             bind_outcome (returning (ptrmap_rehash old_slots
               (m\<lparr>pm_slots := replicate count \<lparr>ps_key = 0, ps_value = None\<rparr>, pm_slot_count := count\<rparr>)))
               (\<lambda>m'. Inr (m', a')))))"

definition ptrmap_init :: "bool \<Rightarrow> 'v ptrmap" where
  "ptrmap_init arena = \<lparr>pm_slots = [], pm_len = 0, pm_slot_count = 0, pm_arena = arena\<rparr>"

definition ptrmap_get :: "'v ptrmap \<Rightarrow> u64 \<Rightarrow> 'v option outcome" where
  "ptrmap_get m key =
     (if key = 0 \<or> pm_slot_count m = 0 then Inr None
      else bind_outcome (returning (ptrmap_probe m key)) (\<lambda>slot.
        Inr (if ps_key (pm_slots m ! slot) \<noteq> 0 then ps_value (pm_slots m ! slot) else None)))"

text \<open>Insertion of a key that is not in the table, from the growth test on.\<close>

definition ptrmap_insert ::
  "(u64 \<Rightarrow> u64 \<Rightarrow> bool) \<Rightarrow> 'v ptrmap \<Rightarrow> arena \<Rightarrow> u64 \<Rightarrow> 'v option \<Rightarrow> ('v ptrmap \<times> arena \<times> 'v option) outcome" where
  "ptrmap_insert avail m a key value =
     bind_outcome (if pm_slot_count m = 0 \<or> pm_len m \<ge> pm_slot_count m - pm_slot_count m div 4
                   then ptrmap_grow avail m a else Inr (m, a)) (\<lambda>(m1, a1).
     bind_outcome (returning (ptrmap_probe m1 key)) (\<lambda>slot.
       Inr (m1\<lparr>pm_slots := (pm_slots m1)[slot := \<lparr>ps_key = key, ps_value = value\<rparr>], pm_len := pm_len m1 + 1\<rparr>,
            a1, None)))"

definition ptrmap_put ::
  "(u64 \<Rightarrow> u64 \<Rightarrow> bool) \<Rightarrow> 'v ptrmap \<Rightarrow> arena \<Rightarrow> u64 \<Rightarrow> 'v option \<Rightarrow> ('v ptrmap \<times> arena \<times> 'v option) outcome" where
  "ptrmap_put avail m a key value =
     (if key = 0 then Inl (ICE ''ptrmap_put: NULL key'')
      else if \<not> pm_arena m then Inl (ICE ''ptrmap_put: uninitialized map'')
      else if pm_slot_count m \<noteq> 0 then
        bind_outcome (returning (ptrmap_probe m key)) (\<lambda>slot.
          if ps_key (pm_slots m ! slot) \<noteq> 0 then
            Inr (m\<lparr>pm_slots := (pm_slots m)[slot := (pm_slots m ! slot)\<lparr>ps_value := value\<rparr>]\<rparr>, a,
                 ps_value (pm_slots m ! slot))
          else ptrmap_insert avail m a key value)
      else ptrmap_insert avail m a key value)"

definition ptrmap_len :: "'v ptrmap \<Rightarrow> nat" where
  "ptrmap_len m = pm_len m"

section \<open>Invariant\<close>

definition ptrmap_key_at :: "'v ptrmap \<Rightarrow> nat \<Rightarrow> u64 option" where
  "ptrmap_key_at m i = (if ps_key (pm_slots m ! i) = 0 then None else Some (ps_key (pm_slots m ! i)))"

definition ptrmap_wf :: "'v ptrmap \<Rightarrow> bool" where
  "ptrmap_wf m \<longleftrightarrow> (\<exists>k. pm_slot_count m = 2 ^ k) \<and> length (pm_slots m) = pm_slot_count m"

definition ptrmap_count :: "'v ptrmap_slot list \<Rightarrow> nat" where
  "ptrmap_count ss = length (filter (\<lambda>s. ps_key s \<noteq> 0) ss)"

definition ptrmap_table :: "'v ptrmap \<Rightarrow> bool" where
  "ptrmap_table m \<longleftrightarrow> ptrmap_wf m \<and> chained (ptrmap_home m) (pm_slot_count m) (ptrmap_key_at m)
     \<and> ptrmap_count (pm_slots m) < pm_slot_count m"

definition ptrmap_inv :: "'v ptrmap \<Rightarrow> bool" where
  "ptrmap_inv m \<longleftrightarrow> pm_arena m \<and> pm_len m = ptrmap_count (pm_slots m)
     \<and> (if pm_slot_count m = 0 then pm_slots m = [] else ptrmap_table m \<and> 8 \<le> pm_slot_count m)"

text \<open>The map: the value of the slot that holds the key.\<close>

definition slots_lookup :: "'v ptrmap_slot list \<Rightarrow> u64 \<Rightarrow> 'v option" where
  "slots_lookup ss key =
     (case find (\<lambda>s. ps_key s = key \<and> key \<noteq> 0) ss of None \<Rightarrow> None | Some s \<Rightarrow> ps_value s)"

section \<open>Slot lists\<close>

text \<open>No key is stored twice.\<close>

definition keys_unique :: "'v ptrmap_slot list \<Rightarrow> bool" where
  "keys_unique ss \<longleftrightarrow> (\<forall>i<length ss. \<forall>j<length ss. ps_key (ss ! i) = ps_key (ss ! j) \<and> ps_key (ss ! i) \<noteq> 0 \<longrightarrow> i = j)"

lemma slots_lookup_at:
  assumes "keys_unique ss" "i < length ss" "ps_key (ss ! i) = k" "k \<noteq> 0"
  shows "slots_lookup ss k = ps_value (ss ! i)"
proof -
  have "find (\<lambda>s. ps_key s = k \<and> k \<noteq> 0) ss = Some (ss ! i)"
    using assms unfolding find_Some_iff keys_unique_def by (metis less_trans nat_neq_iff)
  then show ?thesis by (simp add: slots_lookup_def)
qed

lemma slots_lookup_none: "(\<And>i. i < length ss \<Longrightarrow> ps_key (ss ! i) \<noteq> k) \<Longrightarrow> slots_lookup ss k = None"
proof -
  assume "\<And>i. i < length ss \<Longrightarrow> ps_key (ss ! i) \<noteq> k"
  then have "find (\<lambda>s. ps_key s = k \<and> k \<noteq> 0) ss = None" unfolding find_None_iff by (metis in_set_conv_nth)
  then show ?thesis by (simp add: slots_lookup_def)
qed

lemma slots_lookup_0: "slots_lookup ss 0 = None"
  by (simp add: slots_lookup_def find_None_iff [THEN iffD2])

lemma slots_lookup_update:
  assumes u: "keys_unique ss" and s: "s < length ss" "ps_key (ss ! s) \<in> {0, k}" and k: "k \<noteq> 0"
    and others: "\<And>j. j < length ss \<Longrightarrow> j \<noteq> s \<Longrightarrow> ps_key (ss ! j) \<noteq> k" and x: "ps_key x = k" "ps_value x = v"
  shows "keys_unique (ss[s := x])" "slots_lookup (ss[s := x]) = (slots_lookup ss)(k := v)"
proof -
  show u': "keys_unique (ss[s := x])"
    unfolding keys_unique_def length_list_update
  proof (intro allI impI)
    fix i j
    assume ij: "i < length ss" "j < length ss" "ps_key (ss[s := x] ! i) = ps_key (ss[s := x] ! j) \<and> ps_key (ss[s := x] ! i) \<noteq> 0"
    show "i = j"
      using ij u others [OF ij(1)] others [OF ij(2)] x unfolding keys_unique_def
      by (cases "i = s"; cases "j = s") auto
  qed
  show "slots_lookup (ss[s := x]) = (slots_lookup ss)(k := v)"
  proof
    fix y
    consider "y = k" | "y \<noteq> k" "y = 0" | i where "y \<noteq> k" "y \<noteq> 0" "i < length ss" "ps_key (ss ! i) = y"
      | "y \<noteq> k" "y \<noteq> 0" "\<And>i. i < length ss \<Longrightarrow> ps_key (ss ! i) \<noteq> y" by blast
    then show "slots_lookup (ss[s := x]) y = ((slots_lookup ss)(k := v)) y"
    proof cases
      case 1
      then show ?thesis using slots_lookup_at [OF u', of s k] s x k by simp
    next
      case 2
      then show ?thesis by (simp add: slots_lookup_0)
    next
      case (3 i)
      then have "i \<noteq> s" using s(2) by auto
      with 3 show ?thesis using slots_lookup_at [OF u', of i y] slots_lookup_at [OF u, of i y] by simp
    next
      case 4
      then have "ps_key (ss[s := x] ! i) \<noteq> y" if "i < length ss" for i
        using x that by (cases "i = s") simp_all
      with 4 show ?thesis using slots_lookup_none [of ss y] slots_lookup_none [of "ss[s := x]" y] by simp
    qed
  qed
qed

definition slot_keys :: "'v ptrmap_slot list \<Rightarrow> u64 set" where
  "slot_keys ss = ps_key ` set ss - {0}"

lemma slot_keys_nth: "k \<noteq> 0 \<Longrightarrow> k \<in> slot_keys ss \<longleftrightarrow> (\<exists>i<length ss. ps_key (ss ! i) = k)"
  by (simp add: slot_keys_def image_iff) (metis in_set_conv_nth)

lemma slot_keys_update:
  assumes "s < length ss" "ps_key (ss ! s) = 0" "ps_key x \<noteq> 0"
  shows "slot_keys (ss[s := x]) = insert (ps_key x) (slot_keys ss)"
proof (rule set_eqI)
  fix k
  show "k \<in> slot_keys (ss[s := x]) \<longleftrightarrow> k \<in> insert (ps_key x) (slot_keys ss)"
  proof (cases "k = 0")
    case False
    have "(\<exists>i<length ss. ps_key (ss[s := x] ! i) = k) \<longleftrightarrow> k = ps_key x \<or> (\<exists>i<length ss. ps_key (ss ! i) = k)"
    proof
      assume "\<exists>i<length ss. ps_key (ss[s := x] ! i) = k"
      then obtain i where "i < length ss" "ps_key (ss[s := x] ! i) = k" by blast
      then show "k = ps_key x \<or> (\<exists>i<length ss. ps_key (ss ! i) = k)" by (cases "i = s") auto
    next
      assume "k = ps_key x \<or> (\<exists>i<length ss. ps_key (ss ! i) = k)"
      then show "\<exists>i<length ss. ps_key (ss[s := x] ! i) = k"
        using assms(1,2) False by (metis nth_list_update)
    qed
    then show ?thesis unfolding insert_iff slot_keys_nth [OF False] length_list_update .
  qed (use assms in \<open>simp add: slot_keys_def\<close>)
qed

lemma ptrmap_count_update:
  assumes "s < length ss"
  shows "ptrmap_count (ss[s := x]) + of_bool (ps_key (ss ! s) \<noteq> 0) = ptrmap_count ss + of_bool (ps_key x \<noteq> 0)"
  using assms
proof (induction ss arbitrary: s)
  case (Cons a ss)
  then show ?case by (cases s) (auto simp: ptrmap_count_def)
qed simp

lemma ptrmap_count_free:
  assumes "ptrmap_count ss < length ss"
  shows "\<exists>i<length ss. ps_key (ss ! i) = 0"
proof (rule ccontr)
  assume "\<not> ?thesis"
  then have "filter (\<lambda>s. ps_key s \<noteq> 0) ss = ss" by (auto simp: filter_id_conv in_set_conv_nth)
  then show False using assms by (simp add: ptrmap_count_def)
qed

section \<open>Probing\<close>

interpretation pp: linear_probe ptrmap_wf pm_slot_count ptrmap_key_at ptrmap_home ptrmap_probe_from
proof unfold_locales
  fix m :: "'v ptrmap" and i k
  assume wf: "ptrmap_wf m"
  then have "(i + 1) AND (pm_slot_count m - 1) = (i + 1) mod pm_slot_count m"
    using and_mask_mod [of "i + 1"] by (auto simp: ptrmap_wf_def)
  then show "ptrmap_probe_from m k i = (if ptrmap_key_at m i = None \<or> ptrmap_key_at m i = Some k then Some i
      else ptrmap_probe_from m k ((i + 1) mod pm_slot_count m))"
    by (subst ptrmap_probe_from.simps) (simp add: ptrmap_key_at_def)
qed (auto simp: ptrmap_wf_def)

lemma ptrmap_home_lt: "ptrmap_wf m \<Longrightarrow> ptrmap_home m k < pm_slot_count m"
  using and_mask_mod by (auto simp: ptrmap_home_def ptrmap_wf_def)

lemma table_unique: "ptrmap_table m \<Longrightarrow> keys_unique (pm_slots m)"
  unfolding keys_unique_def ptrmap_table_def ptrmap_wf_def
  using chained_unique [of "ptrmap_home m" "pm_slot_count m" "ptrmap_key_at m"] by (auto simp: ptrmap_key_at_def)

lemma table_probe:
  assumes t: "ptrmap_table m" and k: "k \<noteq> 0"
  obtains (found) s where "ptrmap_probe m k = Some s" "s < length (pm_slots m)" "ps_key (pm_slots m ! s) = k"
  | (absent) s where "ptrmap_probe m k = Some s" "s < length (pm_slots m)" "ps_key (pm_slots m ! s) = 0"
      "\<And>i. i < length (pm_slots m) \<Longrightarrow> ps_key (pm_slots m ! i) \<noteq> k"
      "chained (ptrmap_home m) (pm_slot_count m) ((ptrmap_key_at m)(s := Some k))"
proof -
  have wf: "ptrmap_wf m" and ch: "chained (ptrmap_home m) (pm_slot_count m) (ptrmap_key_at m)"
    and len: "length (pm_slots m) = pm_slot_count m" and cnt: "ptrmap_count (pm_slots m) < length (pm_slots m)"
    using t by (simp_all add: ptrmap_table_def ptrmap_wf_def)
  have free: "\<exists>i < pm_slot_count m. ptrmap_key_at m i = None"
    using ptrmap_count_free [OF cnt] by (auto simp: ptrmap_key_at_def len)
  show thesis
  proof (rule pp.probe_finds [OF wf ch free ptrmap_home_lt [OF wf], of k])
    fix s
    assume s: "ptrmap_probe_from m k (ptrmap_home m k) = Some s" "s < pm_slot_count m" "ptrmap_key_at m s = Some k"
    then show thesis by (intro found [of s]) (auto simp: ptrmap_probe_def len ptrmap_key_at_def split: if_splits)
  next
    fix s
    assume s: "ptrmap_probe_from m k (ptrmap_home m k) = Some s" "s < pm_slot_count m" "ptrmap_key_at m s = None"
      "\<And>i. i < pm_slot_count m \<Longrightarrow> ptrmap_key_at m i \<noteq> Some k"
      "chained (ptrmap_home m) (pm_slot_count m) ((ptrmap_key_at m)(s := Some k))"
    have "ps_key (pm_slots m ! i) \<noteq> k" if "i < length (pm_slots m)" for i
      using s(4) [of i] that k by (auto simp: ptrmap_key_at_def len)
    with s show thesis by (intro absent [of s]) (auto simp: ptrmap_probe_def len ptrmap_key_at_def split: if_splits)
  qed
qed

text \<open>Filling the free slot the key probes to.\<close>

lemma table_insert:
  assumes t: "ptrmap_table m" and k: "k \<noteq> 0" and s: "s < length (pm_slots m)" "ps_key (pm_slots m ! s) = 0"
    and ch: "chained (ptrmap_home m) (pm_slot_count m) ((ptrmap_key_at m)(s := Some k))"
    and x: "ps_key x = k" and room: "ptrmap_count (pm_slots m) + 1 < pm_slot_count m"
    and m': "pm_slots m' = (pm_slots m)[s := x]" "pm_slot_count m' = pm_slot_count m"
  shows "ptrmap_table m'" "ptrmap_count (pm_slots m') = ptrmap_count (pm_slots m) + 1"
proof -
  show c: "ptrmap_count (pm_slots m') = ptrmap_count (pm_slots m) + 1"
    using ptrmap_count_update [OF s(1), of x] s(2) x k by (simp add: m')
  have key: "ptrmap_key_at m' i = ((ptrmap_key_at m)(s := Some k)) i" for i
    using s(1) x k by (auto simp: ptrmap_key_at_def m' nth_list_update)
  have home: "ptrmap_home m' = ptrmap_home m" by (rule ext) (simp add: ptrmap_home_def m')
  have "ptrmap_key_at m' = (ptrmap_key_at m)(s := Some k)" using key by (rule ext)
  with c ch room t show "ptrmap_table m'" by (simp add: ptrmap_table_def ptrmap_wf_def m' home)
qed

section \<open>Growing\<close>

lemma ptrmap_rehash_table:
  assumes "ptrmap_table m" "keys_unique ss" "ptrmap_count (pm_slots m) + ptrmap_count ss < pm_slot_count m"
    and "\<And>s i. s \<in> set ss \<Longrightarrow> ps_key s \<noteq> 0 \<Longrightarrow> i < length (pm_slots m) \<Longrightarrow> ps_key (pm_slots m ! i) \<noteq> ps_key s"
  shows "\<exists>m'. ptrmap_rehash ss m = Some m' \<and> ptrmap_table m' \<and> pm_slot_count m' = pm_slot_count m
    \<and> pm_len m' = pm_len m \<and> pm_arena m' = pm_arena m
    \<and> ptrmap_count (pm_slots m') = ptrmap_count (pm_slots m) + ptrmap_count ss
    \<and> slot_keys (pm_slots m') = slot_keys ss \<union> slot_keys (pm_slots m)
    \<and> (\<forall>k. slots_lookup (pm_slots m') k
          = (if k \<noteq> 0 \<and> k \<in> ps_key ` set ss then slots_lookup ss k else slots_lookup (pm_slots m) k))"
  using assms
proof (induction ss arbitrary: m)
  case (Cons s ss)
  have u: "keys_unique ss" and fresh: "ps_key s \<noteq> 0 \<Longrightarrow> t \<in> set ss \<Longrightarrow> ps_key t \<noteq> ps_key s" for t
  proof -
    have "i = j" if "i < length ss" "j < length ss" "ps_key (ss ! i) = ps_key (ss ! j)" "ps_key (ss ! i) \<noteq> 0" for i j
      using Cons.prems(2) [unfolded keys_unique_def, rule_format, of "Suc i" "Suc j"] that by simp
    then show "keys_unique ss" unfolding keys_unique_def by blast
    show "ps_key t \<noteq> ps_key s" if "ps_key s \<noteq> 0" "t \<in> set ss"
    proof
      assume eq: "ps_key t = ps_key s"
      obtain i where "i < length ss" "ss ! i = t" using \<open>t \<in> set ss\<close> by (metis in_set_conv_nth)
      then show False using Cons.prems(2) [unfolded keys_unique_def, rule_format, of "Suc i" 0] eq that(1) by simp
    qed
  qed
  have tl: "slots_lookup (s # ss) k = (if ps_key s = k \<and> k \<noteq> 0 then ps_value s else slots_lookup ss k)" for k
    by (simp add: slots_lookup_def)
  show ?case
  proof (cases "ps_key s = 0")
    case True
    with Cons.IH [OF Cons.prems(1) u] Cons.prems(3,4) show ?thesis
      by (auto simp: ptrmap_count_def tl image_iff slot_keys_def)
  next
    case k: False
    let ?k = "ps_key s"
    show ?thesis
    proof (rule table_probe [OF Cons.prems(1) k])
      fix i
      assume "i < length (pm_slots m)" "ps_key (pm_slots m ! i) = ?k"
      then show ?thesis using Cons.prems(4) [of s i] k by simp
    next
      fix i
      assume i: "ptrmap_probe m ?k = Some i" "i < length (pm_slots m)" "ps_key (pm_slots m ! i) = 0"
        "\<And>j. j < length (pm_slots m) \<Longrightarrow> ps_key (pm_slots m ! j) \<noteq> ?k"
        "chained (ptrmap_home m) (pm_slot_count m) ((ptrmap_key_at m)(i := Some ?k))"
      define m1 where "m1 = m\<lparr>pm_slots := (pm_slots m)[i := s]\<rparr>"
      have room: "ptrmap_count (pm_slots m) + 1 < pm_slot_count m" using Cons.prems(3) k by (simp add: ptrmap_count_def)
      note t1 = table_insert [OF Cons.prems(1) k i(2,3,5) refl room, of m1]
      have t: "ptrmap_table m1" "ptrmap_count (pm_slots m1) = ptrmap_count (pm_slots m) + 1"
        by (rule t1; simp add: m1_def)+
      have lk: "slots_lookup (pm_slots m1) = (slots_lookup (pm_slots m))(?k := ps_value s)"
        using slots_lookup_update(2) [OF table_unique [OF Cons.prems(1)] i(2), of ?k s "ps_value s"] i(3,4) k
        by (simp add: m1_def)
      have dis: "ps_key (pm_slots m1 ! j) \<noteq> ps_key t" if "t \<in> set ss" "ps_key t \<noteq> 0" "j < length (pm_slots m1)" for t j
        using that Cons.prems(4) [of t j] fresh [OF k, of t] i(2) by (auto simp: m1_def nth_list_update)
      have "ptrmap_count (pm_slots m1) + ptrmap_count ss < pm_slot_count m1"
        using Cons.prems(3) k t(2) by (simp add: ptrmap_count_def m1_def)
      from Cons.IH [OF t(1) u this dis] obtain m' where m': "ptrmap_rehash ss m1 = Some m'" "ptrmap_table m'"
        "pm_slot_count m' = pm_slot_count m1" "pm_len m' = pm_len m1" "pm_arena m' = pm_arena m1"
        "ptrmap_count (pm_slots m') = ptrmap_count (pm_slots m1) + ptrmap_count ss"
        "slot_keys (pm_slots m') = slot_keys ss \<union> slot_keys (pm_slots m1)"
        "\<forall>k. slots_lookup (pm_slots m') k
          = (if k \<noteq> 0 \<and> k \<in> ps_key ` set ss then slots_lookup ss k else slots_lookup (pm_slots m1) k)" by blast
      have nk: "?k \<notin> ps_key ` set ss" using fresh [OF k] by (metis imageE)
      have "slots_lookup (pm_slots m') x
          = (if x \<noteq> 0 \<and> x \<in> ps_key ` set (s # ss) then slots_lookup (s # ss) x else slots_lookup (pm_slots m) x)" for x
        using m'(8) k nk by (auto simp: lk tl)
      moreover have "ptrmap_rehash (s # ss) m = Some m'" using i(1) k m'(1) by (simp add: m1_def)
      moreover have "ptrmap_count (s # ss) = Suc (ptrmap_count ss)" using k by (simp add: ptrmap_count_def)
      moreover have "pm_slot_count m1 = pm_slot_count m" "pm_len m1 = pm_len m" "pm_arena m1 = pm_arena m"
        by (simp_all add: m1_def)
      moreover have "slot_keys (pm_slots m') = slot_keys (s # ss) \<union> slot_keys (pm_slots m)"
        using m'(7) slot_keys_update [OF i(2,3) k] k by (auto simp: m1_def slot_keys_def)
      ultimately show ?thesis using m'(2-6) t(2) by simp
    qed
  qed
qed (simp add: ptrmap_count_def slot_keys_def)

abbreviation out_of_memory :: abort where
  "out_of_memory \<equiv> ICE ''out of memory allocating aligned arena bytes''"

text \<open>Enough room in the table and the arena for one more insertion.\<close>

definition ptr_room :: "'v ptrmap \<Rightarrow> arena \<Rightarrow> bool" where
  "ptr_room m a \<longleftrightarrow> arena_inv a \<and> unat (ar_next_block_size a) \<le> 2 ^ 60 \<and> pm_slot_count m \<le> 2 ^ 50"

lemma ptrmap_grow_spec:
  assumes inv: "ptrmap_inv m" and room: "ptr_room m a"
  shows "ptrmap_grow avail m a = Inl out_of_memory
    \<or> (\<exists>m' a'. ptrmap_grow avail m a = Inr (m', a') \<and> ptrmap_inv m' \<and> pm_len m' = pm_len m
        \<and> ptrmap_table m' \<and> slots_lookup (pm_slots m') = slots_lookup (pm_slots m)
        \<and> slot_keys (pm_slots m') = slot_keys (pm_slots m)
        \<and> pm_len m + 1 < pm_slot_count m' \<and> arena_inv a'
        \<and> pm_slot_count m' = (if pm_slot_count m = 0 then 8 else 2 * pm_slot_count m)
        \<and> unat (ar_next_block_size a') \<le> max (2 * unat (ar_next_block_size a)) (64 * pm_slot_count m'))"
proof -
  define c where "c = (if pm_slot_count m \<noteq> 0 then pm_slot_count m * 2 else PTRMAP_FIRST_SLOTS)"
  define m0 :: "'a ptrmap" where
    "m0 = m\<lparr>pm_slots := replicate c \<lparr>ps_key = 0, ps_value = None\<rparr>, pm_slot_count := c\<rparr>"
  have len: "pm_len m = ptrmap_count (pm_slots m)" and ar: "pm_arena m" using inv by (simp_all add: ptrmap_inv_def)
  have small: "pm_slot_count m \<le> 2 ^ 50" "c \<le> 2 ^ 51" using room by (simp_all add: ptr_room_def c_def PTRMAP_FIRST_SLOTS_def)
  have limits: "\<not> pm_slot_count m > SIZE_MAX div 2" "\<not> c > SIZE_MAX div PTRMAP_SLOT_SIZE"
    using small by (simp_all add: SIZE_MAX_def PTRMAP_SLOT_SIZE_def)
  have sz: "unat (of_nat (c * PTRMAP_SLOT_SIZE) :: u64) = c * 16"
    using small(2) unfolding unsigned_of_nat PTRMAP_SLOT_SIZE_def by (simp add: take_bit_nat_eq_self)
  have c2: "\<exists>k. c = 2 ^ k" "ptrmap_count (pm_slots m) + 1 < c" "keys_unique (pm_slots m)"
  proof -
    show "\<exists>k. c = 2 ^ k"
    proof (cases "pm_slot_count m = 0")
      case True
      then show ?thesis by (intro exI [of _ 3]) (simp add: c_def PTRMAP_FIRST_SLOTS_def)
    next
      case False
      then obtain k where "pm_slot_count m = 2 ^ k" using inv by (auto simp: ptrmap_inv_def ptrmap_table_def ptrmap_wf_def)
      then show ?thesis by (intro exI [of _ "Suc k"]) (simp add: c_def)
    qed
    show "ptrmap_count (pm_slots m) + 1 < c"
      using inv by (auto simp: c_def PTRMAP_FIRST_SLOTS_def ptrmap_inv_def ptrmap_table_def ptrmap_count_def split: if_splits)
    show "keys_unique (pm_slots m)"
      using inv table_unique by (auto simp: ptrmap_inv_def keys_unique_def split: if_splits)
  qed
  have empty: "ptrmap_count (pm_slots m0) = 0" "length (pm_slots m0) = c" "pm_slot_count m0 = c" "pm_slots m0 ! i = \<lparr>ps_key = 0, ps_value = None\<rparr>" if "i < c" for i
    using that by (simp_all add: m0_def ptrmap_count_def)
  have t0: "ptrmap_table m0" using c2 empty by (auto simp: ptrmap_table_def ptrmap_wf_def ptrmap_key_at_def intro!: chained_empty)
  have c0: "0 < c" using c2(2) by simp
  note e = empty(1-3) [OF c0]
  have "slots_lookup (pm_slots m0) k = None" for k
  proof (cases "k = 0")
    case False
    then show ?thesis using e(2) empty(4) by (intro slots_lookup_none) simp
  qed (simp add: slots_lookup_0)
  moreover have "slots_lookup (pm_slots m) k = None" if "k \<notin> ps_key ` set (pm_slots m)" for k
    using that by (intro slots_lookup_none) (metis image_eqI nth_mem)
  moreover from ptrmap_rehash_table [OF t0 c2(3)] e empty(4) c2(2) obtain m' where m':
    "ptrmap_rehash (pm_slots m) m0 = Some m'" "ptrmap_table m'" "pm_slot_count m' = c" "pm_len m' = pm_len m0"
    "pm_arena m' = pm_arena m0" "ptrmap_count (pm_slots m') = ptrmap_count (pm_slots m)"
    "slot_keys (pm_slots m') = slot_keys (pm_slots m) \<union> slot_keys (pm_slots m0)"
    "\<forall>k. slots_lookup (pm_slots m') k
          = (if k \<noteq> 0 \<and> k \<in> ps_key ` set (pm_slots m) then slots_lookup (pm_slots m) k else slots_lookup (pm_slots m0) k)"
    by auto
  ultimately have lk: "slots_lookup (pm_slots m') = slots_lookup (pm_slots m)"
    by (auto simp: fun_eq_iff slots_lookup_0)
  have m'2: "pm_len m' = pm_len m" "pm_arena m'" using m'(4,5) ar by (simp_all add: m0_def)
  have "8 \<le> c" using inv by (auto simp: c_def PTRMAP_FIRST_SLOTS_def ptrmap_inv_def)
  then have inv': "ptrmap_inv m'" using m' m'2 len by (simp add: ptrmap_inv_def)
  have eq: "ptrmap_grow avail m a = bind_outcome (arena_alloc avail a (of_nat (c * PTRMAP_SLOT_SIZE)) 8) (\<lambda>(a', _). Inr (m', a'))"
    unfolding ptrmap_grow_def Let_def c_def [symmetric] m0_def [symmetric] m'(1) using limits by simp
  have "arena_alloc avail a (of_nat (c * PTRMAP_SLOT_SIZE)) 8 = Inl out_of_memory
    \<or> (\<exists>a' p. arena_alloc avail a (of_nat (c * PTRMAP_SLOT_SIZE)) 8 = Inr (a', p)
        \<and> alloc_ok a (of_nat (c * PTRMAP_SLOT_SIZE)) 8 a' p)"
    using room small(2) unfolding ptr_room_def
    by (intro arena_alloc_spec [where j = 3]) (simp_all add: sz del: of_nat_mult)
  then show ?thesis
  proof
    assume "\<exists>a' p. arena_alloc avail a (of_nat (c * PTRMAP_SLOT_SIZE)) 8 = Inr (a', p)
        \<and> alloc_ok a (of_nat (c * PTRMAP_SLOT_SIZE)) 8 a' p"
    then obtain a' p where a': "arena_alloc avail a (of_nat (c * PTRMAP_SLOT_SIZE)) 8 = Inr (a', p)"
      "alloc_ok a (of_nat (c * PTRMAP_SLOT_SIZE)) 8 a' p" by blast
    have "arena_inv a'" "unat (ar_next_block_size a') \<le> max (2 * unat (ar_next_block_size a)) (64 * c)"
      using a'(2) sz unfolding alloc_ok_def by auto
    moreover have "c = (if pm_slot_count m = 0 then 8 else 2 * pm_slot_count m)" by (simp add: c_def PTRMAP_FIRST_SLOTS_def)
    moreover have "slot_keys (pm_slots m0) = {}" by (auto simp: slot_keys_def m0_def set_replicate_conv_if)
    ultimately show ?thesis using eq a'(1) inv' m'(2,3,7) m'2(1) lk len c2(2) by simp
  qed (simp add: eq)
qed

section \<open>Lookup and insertion\<close>

lemma ptrmap_get_spec:
  assumes inv: "ptrmap_inv m"
  shows "ptrmap_get m k = Inr (slots_lookup (pm_slots m) k)"
proof (cases "k = 0 \<or> pm_slot_count m = 0")
  case True
  then show ?thesis
  proof
    assume "pm_slot_count m = 0"
    then show ?thesis using inv by (simp add: ptrmap_get_def ptrmap_inv_def slots_lookup_def)
  qed (simp add: ptrmap_get_def slots_lookup_0)
next
  case False
  then have t: "ptrmap_table m" and k: "k \<noteq> 0" using inv by (auto simp: ptrmap_inv_def)
  show ?thesis
  proof (rule table_probe [OF t k])
    fix s
    assume "ptrmap_probe m k = Some s" "s < length (pm_slots m)" "ps_key (pm_slots m ! s) = k"
    then show ?thesis using False slots_lookup_at [OF table_unique [OF t], of s k] by (simp add: ptrmap_get_def)
  next
    fix s
    assume "ptrmap_probe m k = Some s" "ps_key (pm_slots m ! s) = 0"
      "\<And>i. i < length (pm_slots m) \<Longrightarrow> ps_key (pm_slots m ! i) \<noteq> k"
    then show ?thesis using False slots_lookup_none [of "pm_slots m" k] by (simp add: ptrmap_get_def)
  qed
qed

text \<open>What an insertion that returns has done.\<close>

definition ptr_put_ok :: "'v ptrmap \<Rightarrow> arena \<Rightarrow> u64 \<Rightarrow> 'v option \<Rightarrow> 'v ptrmap \<times> arena \<times> 'v option \<Rightarrow> bool" where
  "ptr_put_ok m a k v res \<longleftrightarrow>
     (case res of (m', a', old) \<Rightarrow>
        ptrmap_inv m' \<and> old = slots_lookup (pm_slots m) k \<and> slots_lookup (pm_slots m') = (slots_lookup (pm_slots m))(k := v)
        \<and> arena_inv a' \<and> pm_len m' \<le> pm_len m + 1
        \<and> (pm_slot_count m' = pm_slot_count m \<and> a' = a
           \<or> pm_slot_count m' = (if pm_slot_count m = 0 then 8 else 2 * pm_slot_count m)
             \<and> pm_len m \<ge> pm_slot_count m - pm_slot_count m div 4
             \<and> unat (ar_next_block_size a') \<le> max (2 * unat (ar_next_block_size a)) (64 * pm_slot_count m')))"

lemma ptrmap_insert_table:
  assumes inv: "ptrmap_inv m1" and t: "ptrmap_table m1" and k: "k \<noteq> 0" and room: "pm_len m1 + 1 < pm_slot_count m1"
    and absent: "k \<notin> slot_keys (pm_slots m1)"
  obtains slot m' where "ptrmap_probe m1 k = Some slot"
    "m' = m1\<lparr>pm_slots := (pm_slots m1)[slot := \<lparr>ps_key = k, ps_value = v\<rparr>], pm_len := pm_len m1 + 1\<rparr>"
    "ptrmap_inv m'" "slots_lookup (pm_slots m') = (slots_lookup (pm_slots m1))(k := v)"
proof (rule table_probe [OF t k])
  fix s
  assume "s < length (pm_slots m1)" "ps_key (pm_slots m1 ! s) = k"
  then show thesis using absent slot_keys_nth [OF k] by blast
next
  fix s
  assume s: "ptrmap_probe m1 k = Some s" "s < length (pm_slots m1)" "ps_key (pm_slots m1 ! s) = 0"
    "chained (ptrmap_home m1) (pm_slot_count m1) ((ptrmap_key_at m1)(s := Some k))"
  define m' where "m' = m1\<lparr>pm_slots := (pm_slots m1)[s := \<lparr>ps_key = k, ps_value = v\<rparr>], pm_len := pm_len m1 + 1\<rparr>"
  have len: "pm_len m1 = ptrmap_count (pm_slots m1)" "pm_arena m1" using inv by (simp_all add: ptrmap_inv_def)
  have ti: "ptrmap_table m'" "ptrmap_count (pm_slots m') = ptrmap_count (pm_slots m1) + 1"
    using room len by (intro table_insert [OF t k s(2-4), of "\<lparr>ps_key = k, ps_value = v\<rparr>"]; simp add: m'_def)+
  have "ptrmap_inv m'" using ti len room inv by (simp add: ptrmap_inv_def m'_def)
  moreover have "slots_lookup (pm_slots m') = (slots_lookup (pm_slots m1))(k := v)"
    using slots_lookup_update(2) [OF table_unique [OF t] s(2), of k "\<lparr>ps_key = k, ps_value = v\<rparr>" v] s(3) k absent
      slot_keys_nth [OF k, of "pm_slots m1"] by (auto simp: m'_def)
  ultimately show thesis using that s(1) m'_def by blast
qed

lemma ptrmap_insert_spec:
  assumes inv: "ptrmap_inv m" and room: "ptr_room m a" and k: "k \<noteq> 0" and absent: "k \<notin> slot_keys (pm_slots m)"
  shows "ptrmap_insert avail m a k v = Inl out_of_memory
    \<or> (\<exists>r. ptrmap_insert avail m a k v = Inr r \<and> ptr_put_ok m a k v r)"
proof -
  have old: "slots_lookup (pm_slots m) k = None" using absent slot_keys_nth [OF k] by (intro slots_lookup_none) blast
  define g where "g = (if pm_slot_count m = 0 \<or> pm_len m \<ge> pm_slot_count m - pm_slot_count m div 4
    then ptrmap_grow avail m a else Inr (m, a))"
  have "g = Inl out_of_memory \<or> (\<exists>m1 a1. g = Inr (m1, a1) \<and> ptrmap_inv m1 \<and> ptrmap_table m1 \<and> pm_len m1 = pm_len m
      \<and> slots_lookup (pm_slots m1) = slots_lookup (pm_slots m) \<and> slot_keys (pm_slots m1) = slot_keys (pm_slots m)
      \<and> pm_len m1 + 1 < pm_slot_count m1 \<and> arena_inv a1
      \<and> (pm_slot_count m1 = pm_slot_count m \<and> a1 = a
         \<or> pm_slot_count m1 = (if pm_slot_count m = 0 then 8 else 2 * pm_slot_count m)
           \<and> pm_len m \<ge> pm_slot_count m - pm_slot_count m div 4
           \<and> unat (ar_next_block_size a1) \<le> max (2 * unat (ar_next_block_size a)) (64 * pm_slot_count m1)))"
  proof (cases "pm_slot_count m = 0 \<or> pm_len m \<ge> pm_slot_count m - pm_slot_count m div 4")
    case True
    then have "g = ptrmap_grow avail m a" "pm_len m \<ge> pm_slot_count m - pm_slot_count m div 4" by (auto simp: g_def)
    with ptrmap_grow_spec [OF inv room, of avail] show ?thesis by auto
  next
    case False
    have "pm_len m + 1 < pm_slot_count m"
    proof -
      have "8 \<le> pm_slot_count m" using inv False by (simp add: ptrmap_inv_def)
      then show ?thesis using False by linarith
    qed
    with False inv room show ?thesis by (simp add: g_def ptrmap_inv_def ptr_room_def)
  qed
  then show ?thesis
  proof
    assume "g = Inl out_of_memory"
    then show ?thesis by (simp add: ptrmap_insert_def g_def [symmetric])
  next
    assume "\<exists>m1 a1. g = Inr (m1, a1) \<and> ptrmap_inv m1 \<and> ptrmap_table m1 \<and> pm_len m1 = pm_len m
      \<and> slots_lookup (pm_slots m1) = slots_lookup (pm_slots m) \<and> slot_keys (pm_slots m1) = slot_keys (pm_slots m)
      \<and> pm_len m1 + 1 < pm_slot_count m1 \<and> arena_inv a1
      \<and> (pm_slot_count m1 = pm_slot_count m \<and> a1 = a
         \<or> pm_slot_count m1 = (if pm_slot_count m = 0 then 8 else 2 * pm_slot_count m)
           \<and> pm_len m \<ge> pm_slot_count m - pm_slot_count m div 4
           \<and> unat (ar_next_block_size a1) \<le> max (2 * unat (ar_next_block_size a)) (64 * pm_slot_count m1))"
    then obtain m1 a1 where g: "g = Inr (m1, a1)" and m1: "ptrmap_inv m1" "ptrmap_table m1" "pm_len m1 = pm_len m"
      "slots_lookup (pm_slots m1) = slots_lookup (pm_slots m)" "slot_keys (pm_slots m1) = slot_keys (pm_slots m)"
      "pm_len m1 + 1 < pm_slot_count m1" "arena_inv a1"
      and growth: "pm_slot_count m1 = pm_slot_count m \<and> a1 = a
         \<or> pm_slot_count m1 = (if pm_slot_count m = 0 then 8 else 2 * pm_slot_count m)
           \<and> pm_len m \<ge> pm_slot_count m - pm_slot_count m div 4
           \<and> unat (ar_next_block_size a1) \<le> max (2 * unat (ar_next_block_size a)) (64 * pm_slot_count m1)"
      by blast
    have ab: "k \<notin> slot_keys (pm_slots m1)" using absent m1(5) by simp
    obtain slot m' where s: "ptrmap_probe m1 k = Some slot"
      "m' = m1\<lparr>pm_slots := (pm_slots m1)[slot := \<lparr>ps_key = k, ps_value = v\<rparr>], pm_len := pm_len m1 + 1\<rparr>"
      "ptrmap_inv m'" "slots_lookup (pm_slots m') = (slots_lookup (pm_slots m1))(k := v)"
      by (rule ptrmap_insert_table [OF m1(1,2) k m1(6) ab])
    have "ptrmap_insert avail m a k v = Inr (m', a1, None)"
      unfolding ptrmap_insert_def g_def [symmetric] g by (simp add: s(1,2))
    moreover have "ptr_put_ok m a k v (m', a1, None)"
      using s(3,4) m1(4,7) growth old m1(3) by (auto simp: ptr_put_ok_def s(2))
    ultimately show ?thesis by blast
  qed
qed

lemma ptrmap_put_spec:
  assumes inv: "ptrmap_inv m" and room: "ptr_room m a" and k: "k \<noteq> 0"
  shows "ptrmap_put avail m a k v = Inl out_of_memory
    \<or> (\<exists>r. ptrmap_put avail m a k v = Inr r \<and> ptr_put_ok m a k v r)"
proof (cases "pm_slot_count m = 0")
  case True
  then have "slot_keys (pm_slots m) = {}" using inv by (simp add: ptrmap_inv_def slot_keys_def)
  then show ?thesis
    using ptrmap_insert_spec [OF inv room k, of avail v] k True inv by (simp add: ptrmap_put_def ptrmap_inv_def)
next
  case False
  then have t: "ptrmap_table m" and ar: "pm_arena m" using inv by (simp_all add: ptrmap_inv_def)
  show ?thesis
  proof (rule table_probe [OF t k])
    fix s
    assume s: "ptrmap_probe m k = Some s" "s < length (pm_slots m)" "ps_key (pm_slots m ! s) = k"
    define x where "x = (pm_slots m ! s)\<lparr>ps_value := v\<rparr>"
    define m' where "m' = m\<lparr>pm_slots := (pm_slots m)[s := x]\<rparr>"
    have x: "ps_key x = k" "ps_value x = v" using s(3) by (simp_all add: x_def)
    have others: "ps_key (pm_slots m ! j) \<noteq> k" if "j < length (pm_slots m)" "j \<noteq> s" for j
      using table_unique [OF t] s that k by (auto simp: keys_unique_def)
    have key: "ptrmap_key_at m' = ptrmap_key_at m"
      using s x by (auto simp: fun_eq_iff ptrmap_key_at_def m'_def nth_list_update)
    have cnt: "ptrmap_count (pm_slots m') = ptrmap_count (pm_slots m)"
      using ptrmap_count_update [OF s(2), of x] s(3) x(1) by (simp add: m'_def)
    have home: "ptrmap_home m' = ptrmap_home m" by (rule ext) (simp add: ptrmap_home_def m'_def)
    have "ptrmap_table m'" using t by (simp add: ptrmap_table_def key cnt home) (simp add: ptrmap_wf_def m'_def)
    then have "ptrmap_inv m'" using inv False cnt by (simp add: ptrmap_inv_def m'_def)
    moreover have "slots_lookup (pm_slots m') = (slots_lookup (pm_slots m))(k := v)"
      using slots_lookup_update(2) [OF table_unique [OF t] s(2) _ k others x] s(3) by (simp add: m'_def)
    moreover have "ptrmap_put avail m a k v = Inr (m', a, ps_value (pm_slots m ! s))"
      using k False ar s by (simp add: ptrmap_put_def m'_def x_def)
    ultimately show ?thesis
      using room slots_lookup_at [OF table_unique [OF t] s(2,3) k] by (auto simp: ptr_put_ok_def ptr_room_def m'_def)
  next
    fix s
    assume s: "ptrmap_probe m k = Some s" "ps_key (pm_slots m ! s) = 0"
      "\<And>i. i < length (pm_slots m) \<Longrightarrow> ps_key (pm_slots m ! i) \<noteq> k"
    then have "k \<notin> slot_keys (pm_slots m)" using slot_keys_nth [OF k] by blast
    from ptrmap_insert_spec [OF inv room k this] show ?thesis using k False ar s(1,2) by (simp add: ptrmap_put_def)
  qed
qed

text \<open>
  With memory that never runs out, a client that allocates nothing else can insert about
  \<open>2\<^sup>3\<^sup>6\<close> keys: the table stays within \<open>2\<^sup>3\<^sup>8\<close> slots and the blocks of the arena grow with it.
\<close>

definition ptr_room_for :: "'v ptrmap \<times> arena \<Rightarrow> nat \<Rightarrow> bool" where
  "ptr_room_for ma n \<longleftrightarrow>
     (case ma of (m, a) \<Rightarrow> arena_inv a \<and> pm_len m + n \<le> 2 ^ 36 \<and> pm_slot_count m \<le> 2 ^ 38
        \<and> unat (ar_next_block_size a) \<le> 2 ^ 16 * max 4 (pm_slot_count m))"

lemma ptr_room_for_put:
  assumes inv: "ptrmap_inv m" and room: "ptr_room_for (m, a) (Suc n)" and ok: "ptr_put_ok m a k v (m', a', old)"
  shows "ptr_room_for (m', a') n"
proof -
  let ?c = "pm_slot_count m" and ?N = "unat (ar_next_block_size a)"
  have r: "pm_len m + Suc n \<le> 2 ^ 36" "?c \<le> 2 ^ 38" "?N \<le> 2 ^ 16 * max 4 ?c"
    using room by (simp_all add: ptr_room_for_def)
  have o: "arena_inv a'" "pm_len m' \<le> pm_len m + 1" using ok by (simp_all add: ptr_put_ok_def)
  from ok consider "pm_slot_count m' = ?c" "a' = a"
    | "pm_slot_count m' = (if ?c = 0 then 8 else 2 * ?c)" "pm_len m \<ge> ?c - ?c div 4"
      "unat (ar_next_block_size a') \<le> max (2 * ?N) (64 * pm_slot_count m')"
    unfolding ptr_put_ok_def by auto
  then show ?thesis
  proof cases
    case 1
    then show ?thesis using r o by (simp add: ptr_room_for_def)
  next
    case 2
    have "(2 :: nat) ^ 37 = 2 * 2 ^ 36" by simp
    then have "?c \<le> 2 ^ 37" using 2(2) r(1) by linarith
    then have "pm_slot_count m' \<le> 2 ^ 38" using 2(1) by auto
    moreover have "8 \<le> ?c \<or> ?c = 0" using inv by (auto simp: ptrmap_inv_def)
    then have "unat (ar_next_block_size a') \<le> 2 ^ 16 * max 4 (pm_slot_count m')"
      using 2(1,3) r(3) by (auto simp: max_def split: if_splits)
    ultimately show ?thesis using o r(1) by (simp add: ptr_room_for_def)
  qed
qed

definition ptr_put :: "'v ptrmap \<times> arena \<Rightarrow> u64 \<Rightarrow> 'v option \<Rightarrow> (('v ptrmap \<times> arena) \<times> 'v option) option" where
  "ptr_put ma k v =
     (case ptrmap_put (\<lambda>_ _. True) (fst ma) (snd ma) k v of Inl _ \<Rightarrow> None | Inr (m', a', old) \<Rightarrow> Some ((m', a'), old))"

lemma ptrmap_init_inv: "ptrmap_inv (ptrmap_init True)" "slots_lookup (pm_slots (ptrmap_init True)) k = None"
  by (simp_all add: ptrmap_inv_def ptrmap_init_def slots_lookup_def ptrmap_count_def)

lemma ptrmap_put_no_oom: "ptrmap_put (\<lambda>_ _. True) m a k v \<noteq> Inl out_of_memory"
proof -
  have "ptrmap_grow (\<lambda>_ _. True) m a \<noteq> Inl out_of_memory"
    using arena_no_oom [of a] by (auto simp: ptrmap_grow_def Let_def bind_outcome_def returning_def split: sum.splits option.splits)
  then show ?thesis
    by (auto simp: ptrmap_put_def ptrmap_insert_def bind_outcome_def returning_def split: sum.splits option.splits if_splits)
qed

interpretation pm: pointer_map "(ptrmap_init True, arena_init)" "\<lambda>ma. slots_lookup (pm_slots (fst ma))" ptr_put
    "\<lambda>ma. ptrmap_inv (fst ma)" "\<lambda>k. k \<noteq> 0" ptr_room_for
proof unfold_locales
  fix ma :: "'v ptrmap \<times> arena" and k :: u64 and n v
  obtain m a where ma: "ma = (m, a)" by fastforce
  assume "ptrmap_inv (fst ma)" "k \<noteq> 0" "ptr_room_for ma (Suc n)"
  then have inv: "ptrmap_inv m" and k: "k \<noteq> 0" and rf: "ptr_room_for (m, a) (Suc n)" by (simp_all add: ma)
  have room: "ptr_room m a" using rf by (auto simp: ptr_room_for_def ptr_room_def)
  from ptrmap_put_spec [OF inv room k, of "\<lambda>_ _. True" v] ptrmap_put_no_oom [of m a k v]
  obtain m' a' old where r: "ptrmap_put (\<lambda>_ _. True) m a k v = Inr (m', a', old)" "ptr_put_ok m a k v (m', a', old)"
    by auto
  with ptr_room_for_put [OF inv rf r(2)] show "\<exists>ma'. ptr_put ma k v = Some (ma', slots_lookup (pm_slots (fst ma)) k)
      \<and> ptrmap_inv (fst ma') \<and> ptr_room_for ma' n
      \<and> slots_lookup (pm_slots (fst ma')) = (slots_lookup (pm_slots (fst ma)))(k := v)"
    by (auto simp: ptr_put_def ma ptr_put_ok_def)
next
  show "ptr_room_for ma n'" if "ptr_room_for ma n" "n' \<le> n" for ma :: "'v ptrmap \<times> arena" and n n'
    using that by (auto simp: ptr_room_for_def)
qed (simp_all add: ptrmap_init_inv)

text \<open>
  C28: the pointer map after any sequence of insertions of non-NULL keys. With memory available, every
  insertion returns, and a lookup returns the value inserted last under the key, NULL for a key never
  inserted and for the NULL key; growing the table, in the middle of the sequence, changes nothing.
\<close>

theorem ptrmap_history:
  assumes "length kvs \<le> 2 ^ 36" "list_all (\<lambda>kv. fst kv \<noteq> 0) kvs"
  shows "\<exists>m a. pm.put_all kvs (ptrmap_init True, arena_init) = Some (m, a) \<and> ptrmap_inv m
    \<and> (\<forall>k. ptrmap_get m k = Inr (fold (\<lambda>(k, v) f. f(k := v)) kvs (\<lambda>_. None) k))"
proof -
  have "ptr_room_for (ptrmap_init True :: 'a ptrmap, arena_init) (length kvs)"
    using assms(1) by (auto simp: ptr_room_for_def ptrmap_init_def arena_inv_def arena_init_def ARENA_FIRST_BLOCK_def
        intro!: exI [of _ 16])
  moreover have "ptrmap_inv (fst (ptrmap_init True :: 'a ptrmap, arena_init))" by (simp add: ptrmap_init_inv)
  ultimately
  obtain ma where m: "pm.put_all kvs (ptrmap_init True, arena_init) = Some ma" "ptrmap_inv (fst ma)"
    "slots_lookup (pm_slots (fst ma)) = fold (\<lambda>(k, v) f. f(k := v)) kvs (slots_lookup (pm_slots (ptrmap_init True)))"
    using pm.put_all_get [OF _ assms(2)] by fastforce
  moreover have "slots_lookup (pm_slots (ptrmap_init True :: 'a ptrmap)) = (\<lambda>_. None)" by (rule ext) (rule ptrmap_init_inv)
  ultimately show ?thesis
    using ptrmap_get_spec [OF m(2)] by (intro exI [of _ "fst ma"] exI [of _ "snd ma"]) simp
qed

theorem ptrmap_history_witness:
  "\<exists>m a. pm.put_all [(4096, Some 1), (8192, Some 2), (4096, Some (3 :: nat))] (ptrmap_init True, arena_init) = Some (m, a)
    \<and> ptrmap_get m 4096 = Inr (Some 3) \<and> ptrmap_get m 16 = Inr None"
  using ptrmap_history [of "[(4096, Some 1), (8192, Some 2), (4096, Some (3 :: nat))]"] by auto

end
