(* ===== verification/Intern.thy ===== *)
theory Intern
  imports Ptrmap
begin

text \<open>
  src/src/util/intern.c: strings to stable 32-bit ids. The string map holds a pointer to the id; the
  cell it points to is never written again, so the model stores the id itself. A string of the table
  is its arena address and its bytes. The counters are 64-bit words.
\<close>

section \<open>Definitions\<close>

record interner =
  in_map :: "u32 strmap"
  in_strs :: "(arena_ptr \<times> string) option list"
  in_cap :: nat
  in_lookups :: u64
  in_hits :: u64

definition intern_init :: interner where
  "intern_init = \<lparr>in_map = strmap_init, in_strs = [None], in_cap = 64, in_lookups = 0, in_hits = 0\<rparr>"

definition intern_miss ::
  "(u64 \<Rightarrow> u64 \<Rightarrow> bool) \<Rightarrow> interner \<Rightarrow> arena \<Rightarrow> string \<Rightarrow> (interner \<times> arena \<times> u32) outcome" where
  "intern_miss avail it a s =
     (if length (in_strs it) > 0xFFFFFFFF then Inl (ICE ''interner overflow: more than 2^32 distinct strings'')
      else
        bind_outcome (arena_strndup avail a s) (\<lambda>(a1, p, bytes).
        bind_outcome (arena_alloc avail a1 4 4) (\<lambda>(a2, _).
        let ident = of_nat (length (in_strs it)) :: u32;
            cap = (if length (in_strs it) = in_cap it then in_cap it * 2 else in_cap it) in
        bind_outcome (returning (strmap_put (in_map it) s (Some ident))) (\<lambda>(map', _).
          Inr (it\<lparr>in_map := map', in_strs := in_strs it @ [Some (p, bytes)], in_cap := cap\<rparr>, a2, ident)))))"

definition intern :: "(u64 \<Rightarrow> u64 \<Rightarrow> bool) \<Rightarrow> interner \<Rightarrow> arena \<Rightarrow> string \<Rightarrow> (interner \<times> arena \<times> u32) outcome" where
  "intern avail it0 a s =
     (let it = it0\<lparr>in_lookups := in_lookups it0 + 1\<rparr> in
      bind_outcome (returning (strmap_get (in_map it) s)) (\<lambda>hit.
        case hit of
          Some ident \<Rightarrow> Inr (it\<lparr>in_hits := in_hits it + 1\<rparr>, a, ident)
        | None \<Rightarrow> intern_miss avail it a s))"

definition intern_str :: "interner \<Rightarrow> u32 \<Rightarrow> (arena_ptr \<times> string) option outcome" where
  "intern_str it ident =
     (if ident = 0 \<or> unat ident \<ge> length (in_strs it) then Inl (ICE ''intern_str: bad id'')
      else Inr (in_strs it ! unat ident))"

definition intern_count :: "interner \<Rightarrow> nat" where
  "intern_count it = length (in_strs it) - 1"

definition intern_lookups :: "interner \<Rightarrow> u64" where
  "intern_lookups it = in_lookups it"

definition intern_hits :: "interner \<Rightarrow> u64" where
  "intern_hits it = in_hits it"

definition intern_free :: "interner \<Rightarrow> interner" where
  "intern_free it = \<lparr>in_map = strmap_free (in_map it), in_strs = [], in_cap = 0, in_lookups = 0, in_hits = 0\<rparr>"

section \<open>Invariant\<close>

text \<open>
  The map and the table are inverse to each other: the string with id \<open>i\<close> is the \<open>i\<close>-th of the table,
  stored with its terminator, and the ids are those of the first insertions.
\<close>

definition intern_inv :: "interner \<Rightarrow> bool" where
  "intern_inv it \<longleftrightarrow>
     strmap_inv (in_map it) \<and> in_strs it \<noteq> [] \<and> hd (in_strs it) = None \<and> length (in_strs it) \<le> in_cap it
     \<and> length (sm_entries (in_map it)) + 1 = length (in_strs it)
     \<and> (\<forall>s \<in> se_key ` set (sm_entries (in_map it)). strmap_lookup (in_map it) s \<noteq> None)
     \<and> (\<forall>s ident. strmap_lookup (in_map it) s = Some ident \<longrightarrow>
          ident \<noteq> 0 \<and> unat ident < length (in_strs it) \<and> (\<exists>p. in_strs it ! unat ident = Some (p, s @ [CHR 0x00])))
     \<and> (\<forall>i. 0 < i \<longrightarrow> i < length (in_strs it) \<longrightarrow>
          (\<exists>p s. in_strs it ! i = Some (p, s @ [CHR 0x00]) \<and> strmap_lookup (in_map it) s = Some (of_nat i)))"

lemma intern_init_inv: "intern_inv intern_init"
  by (simp add: intern_inv_def intern_init_def strmap_init_inv) (simp add: strmap_init_def)

text \<open>Room for the two allocations of a miss.\<close>

definition intern_room :: "arena \<Rightarrow> string \<Rightarrow> bool" where
  "intern_room a s \<longleftrightarrow> arena_inv a \<and> unat (ar_next_block_size a) \<le> 2 ^ 58 \<and> length s < 2 ^ 56"

abbreviation intern_overflow :: abort where
  "intern_overflow \<equiv> ICE ''interner overflow: more than 2^32 distinct strings''"

lemma intern_alloc:
  assumes "intern_room a s"
  shows "arena_strndup avail a s = Inl out_of_memory
    \<or> (\<exists>a1 p. arena_strndup avail a s = Inr (a1, p, s @ [CHR 0x00]) \<and> arena_inv a1
        \<and> (arena_alloc avail a1 4 4 = Inl out_of_memory \<or> (\<exists>a2 q. arena_alloc avail a1 4 4 = Inr (a2, q) \<and> arena_inv a2)))"
proof -
  have r: "arena_inv a" "unat (ar_next_block_size a) \<le> 2 ^ 58" "length s < 2 ^ 56"
    using assms by (simp_all add: intern_room_def)
  let ?n = "of_nat (length s) + 1 :: u64"
  have n: "unat ?n = length s + 1"
    using r(3) by (simp add: unat_word_ariths unsigned_of_nat take_bit_nat_eq_self)
  have "arena_alloc avail a ?n 1 = Inl out_of_memory \<or> (\<exists>a' p. arena_alloc avail a ?n 1 = Inr (a', p) \<and> alloc_ok a ?n 1 a' p)"
    using r n by (intro arena_alloc_spec [where j = 0]) simp_all
  then show ?thesis
  proof
    assume "\<exists>a' p. arena_alloc avail a ?n 1 = Inr (a', p) \<and> alloc_ok a ?n 1 a' p"
    then obtain a1 p where a1: "arena_alloc avail a ?n 1 = Inr (a1, p)" "alloc_ok a ?n 1 a1 p" by blast
    have i1: "arena_inv a1" "unat (ar_next_block_size a1) \<le> 2 ^ 60"
      using a1(2) r(2,3) n unfolding alloc_ok_def by auto
    have "arena_alloc avail a1 4 4 = Inl out_of_memory \<or> (\<exists>a' p. arena_alloc avail a1 4 4 = Inr (a', p) \<and> alloc_ok a1 4 4 a' p)"
      using i1 by (intro arena_alloc_spec [where j = 2]) simp_all
    then show ?thesis using a1(1) i1(1) by (auto simp: arena_strndup_def alloc_ok_def)
  qed (simp add: arena_strndup_def)
qed

text \<open>In a consistent interner the id of a string is the only one that stands for it.\<close>

lemma intern_ids:
  assumes inv: "intern_inv it" and s: "strmap_lookup (in_map it) s = Some ident"
  shows "(\<exists>p. intern_str it x = Inr (Some (p, s @ [CHR 0x00]))) \<longleftrightarrow> x = ident"
proof
  assume "\<exists>p. intern_str it x = Inr (Some (p, s @ [CHR 0x00]))"
  then obtain p where x: "x \<noteq> 0" "unat x < length (in_strs it)" "in_strs it ! unat x = Some (p, s @ [CHR 0x00])"
    by (auto simp: intern_str_def split: if_splits)
  have "0 < unat x" using x(1) by (simp add: unat_gt_0)
  then obtain p' t where "in_strs it ! unat x = Some (p', t @ [CHR 0x00])" "strmap_lookup (in_map it) t = Some (of_nat (unat x))"
    using inv x(2) unfolding intern_inv_def by blast
  then show "x = ident" using x(3) s by simp
next
  assume "x = ident"
  moreover have "ident \<noteq> 0 \<and> unat ident < length (in_strs it) \<and> (\<exists>p. in_strs it ! unat ident = Some (p, s @ [CHR 0x00]))"
    using inv s unfolding intern_inv_def by blast
  ultimately show "\<exists>p. intern_str it x = Inr (Some (p, s @ [CHR 0x00]))" by (auto simp: intern_str_def)
qed

text \<open>A string the table does not have gets the next id; nothing else changes.\<close>

lemma intern_add_inv:
  assumes inv: "intern_inv it" and new: "strmap_lookup (in_map it) s = None"
    and le: "\<not> length (in_strs it) > 0xFFFFFFFF"
    and put: "strmap_put (in_map it) s (Some (of_nat (length (in_strs it)))) = Some (map', old)"
    and it': "it' = it\<lparr>in_map := map', in_strs := in_strs it @ [Some (p, s @ [CHR 0x00])],
        in_cap := (if length (in_strs it) = in_cap it then in_cap it * 2 else in_cap it)\<rparr>"
  shows "intern_inv it'"
proof -
  let ?n = "length (in_strs it)" and ?id = "of_nat (length (in_strs it)) :: u32"
  have sm: "strmap_inv (in_map it)" "in_strs it \<noteq> []" "hd (in_strs it) = None" "?n \<le> in_cap it"
    "length (sm_entries (in_map it)) + 1 = ?n"
    and fwd: "\<And>t i. strmap_lookup (in_map it) t = Some i \<Longrightarrow>
          i \<noteq> 0 \<and> unat i < ?n \<and> (\<exists>p. in_strs it ! unat i = Some (p, t @ [CHR 0x00]))"
    and bwd: "\<And>i. 0 < i \<Longrightarrow> i < ?n \<Longrightarrow>
          (\<exists>p t. in_strs it ! i = Some (p, t @ [CHR 0x00]) \<and> strmap_lookup (in_map it) t = Some (of_nat i))"
    using inv unfolding intern_inv_def by blast+
  have un: "unat ?id = ?n" using le by (simp add: unsigned_of_nat take_bit_nat_eq_self)
  have "length (sm_entries (in_map it)) + 1 < 2 ^ 32" using sm(5) le by simp
  from strmap_put_spec [OF sm(1) this, of s "Some ?id"] put
  have m': "strmap_inv map'" "strmap_lookup map' = (strmap_lookup (in_map it))(s := Some ?id)"
    and keys: "map se_key (sm_entries map') = map se_key (sm_entries (in_map it)) @ (if s \<in> se_key ` set (sm_entries (in_map it)) then [] else [s])"
    by auto
  have absent: "s \<notin> se_key ` set (sm_entries (in_map it))" using inv new unfolding intern_inv_def by blast
  have keyset: "se_key ` set (sm_entries map') = insert s (se_key ` set (sm_entries (in_map it)))"
    using arg_cong [OF keys, of set] absent by simp
  have len: "length (sm_entries map') = ?n" using arg_cong [OF keys, of length] absent sm(5) by simp
  have strs: "in_strs it' = in_strs it @ [Some (p, s @ [CHR 0x00])]" "in_map it' = map'" by (simp_all add: it')
  have "?id \<noteq> 0" using un sm(2) by (metis length_0_conv unat_0)
  then have fwd': "i \<noteq> 0 \<and> unat i < length (in_strs it') \<and> (\<exists>p. in_strs it' ! unat i = Some (p, t @ [CHR 0x00]))"
    if "strmap_lookup map' t = Some i" for t i
    using that fwd [of t i] un by (cases "t = s") (auto simp: m'(2) strs nth_append)
  have bwd': "\<exists>p t. in_strs it' ! i = Some (p, t @ [CHR 0x00]) \<and> strmap_lookup map' t = Some (of_nat i)"
    if i: "0 < i" "i < length (in_strs it')" for i
  proof (cases "i = ?n")
    case True
    then show ?thesis by (simp add: strs m'(2))
  next
    case False
    then have "i < ?n" using i by (simp add: strs)
    from bwd [OF i(1) this] obtain p' t where "in_strs it ! i = Some (p', t @ [CHR 0x00])" "strmap_lookup (in_map it) t = Some (of_nat i)"
      by blast
    moreover have "t \<noteq> s" using calculation(2) new by auto
    ultimately show ?thesis using \<open>i < ?n\<close> by (auto simp: strs m'(2) nth_append)
  qed
  have "0 < ?n" using sm(2) by simp
  then have "length (in_strs it') \<le> in_cap it'" using sm(4) by (auto simp: it' simp del: length_greater_0_conv)
  moreover have "\<forall>t \<in> se_key ` set (sm_entries map'). strmap_lookup map' t \<noteq> None"
    using inv unfolding intern_inv_def keyset m'(2) by auto
  moreover have "in_strs it' \<noteq> []" "hd (in_strs it') = None" using sm(2,3) by (simp_all add: strs)
  ultimately show ?thesis using m'(1) len fwd' bwd' by (simp add: intern_inv_def strs)
qed

text \<open>
  C29: interning is a bijection between strings and ids that only grows. Interning a string returns,
  unless the arena is out of memory or \<open>2\<^sup>3\<^sup>2\<close> ids are in use; the id it returns is valid and stands
  for exactly that string: every id handed out before keeps its string, and an id stands for the
  interned string if and only if it is the id returned.
\<close>

theorem intern_bijection:
  assumes inv: "intern_inv it" and room: "intern_room a s"
  shows "intern avail it a s \<in> {Inl out_of_memory, Inl intern_overflow}
    \<or> (\<exists>it' a' ident. intern avail it a s = Inr (it', a', ident) \<and> intern_inv it' \<and> arena_inv a'
        \<and> (\<forall>x r. intern_str it x = Inr r \<longrightarrow> intern_str it' x = Inr r)
        \<and> (\<forall>x. (\<exists>p. intern_str it' x = Inr (Some (p, s @ [CHR 0x00]))) \<longleftrightarrow> x = ident))"
proof -
  define it1 where "it1 = it\<lparr>in_lookups := in_lookups it + 1\<rparr>"
  have inv1: "intern_inv it1" using inv by (simp add: intern_inv_def it1_def)
  then have sm: "strmap_inv (in_map it1)" by (simp add: intern_inv_def)
  have str1: "intern_str it1 = intern_str it" by (simp add: intern_str_def it1_def fun_eq_iff)
  have eq: "intern avail it a s = (case strmap_lookup (in_map it1) s of
      Some ident \<Rightarrow> Inr (it1\<lparr>in_hits := in_hits it1 + 1\<rparr>, a, ident) | None \<Rightarrow> intern_miss avail it1 a s)"
    by (simp add: intern_def it1_def [symmetric] strmap_get_lookup(1) [OF sm] Let_def)
  show ?thesis
  proof (cases "strmap_lookup (in_map it1) s")
    case (Some ident)
    define it' where "it' = it1\<lparr>in_hits := in_hits it1 + 1\<rparr>"
    have inv': "intern_inv it'" using inv1 by (simp add: intern_inv_def it'_def)
    have "strmap_lookup (in_map it') s = Some ident" using Some by (simp add: it'_def)
    note ids = intern_ids [OF inv' this]
    have "intern_str it' = intern_str it1" by (simp add: intern_str_def it'_def fun_eq_iff)
    then have "intern_str it' = intern_str it" using str1 by simp
    with ids inv' room eq Some show ?thesis by (simp add: it'_def [symmetric] intern_room_def)
  next
    case None
    show ?thesis
    proof (cases "length (in_strs it1) > 0xFFFFFFFF")
      case True
      then show ?thesis using eq None by (simp add: intern_miss_def)
    next
      case False
      then have r: "length (sm_entries (in_map it1)) + 1 < 2 ^ 32" using inv1 by (simp add: intern_inv_def)
      let ?id = "of_nat (length (in_strs it1)) :: u32"
      from strmap_put_spec [OF sm r, of s "Some ?id"] obtain map' where
        put: "strmap_put (in_map it1) s (Some ?id) = Some (map', strmap_lookup (in_map it1) s)"
        and lk: "strmap_lookup map' = (strmap_lookup (in_map it1))(s := Some ?id)" by blast
      from intern_alloc [OF room, of avail] show ?thesis
      proof (elim disjE exE conjE)
        fix a1 p a2 q
        assume al: "arena_strndup avail a s = Inr (a1, p, s @ [CHR 0x00])" "arena_alloc avail a1 4 4 = Inr (a2, q)" "arena_inv a2"
        define it' where "it' = it1\<lparr>in_map := map', in_strs := in_strs it1 @ [Some (p, s @ [CHR 0x00])],
          in_cap := (if length (in_strs it1) = in_cap it1 then in_cap it1 * 2 else in_cap it1)\<rparr>"
        have inv': "intern_inv it'" by (rule intern_add_inv [OF inv1 None False put it'_def])
        have "strmap_lookup (in_map it') s = Some ?id" by (simp add: it'_def lk)
        note ids = intern_ids [OF inv' this]
        have "intern avail it a s = Inr (it', a2, ?id)"
          using eq None False al put by (simp add: intern_miss_def it'_def Let_def)
        moreover have "intern_str it' x = Inr r" if "intern_str it x = Inr r" for x r
          using that unfolding str1 [symmetric] by (auto simp: intern_str_def it'_def nth_append split: if_splits)
        ultimately show ?thesis using inv' ids al(3) by blast
      qed (use eq None False in \<open>simp_all add: intern_miss_def\<close>)
    qed
  qed
qed

theorem intern_bijection_witness:
  "\<exists>it' a' ident. intern (\<lambda>_ _. True) intern_init arena_init ''int'' = Inr (it', a', ident)
    \<and> (\<exists>p. intern_str it' ident = Inr (Some (p, ''int'' @ [CHR 0x00])))"
proof -
  have "arena_inv arena_init"
    by (auto simp: arena_inv_def arena_init_def ARENA_FIRST_BLOCK_def intro!: exI [of _ 16])
  then have room: "intern_room arena_init ''int''" by (simp add: intern_room_def arena_init_def ARENA_FIRST_BLOCK_def)
  have "intern (\<lambda>_ _. True) intern_init arena_init ''int'' \<notin> {Inl out_of_memory, Inl intern_overflow}"
    using intern_alloc [OF room, of "\<lambda>_ _. True"] arena_no_oom [of arena_init]
  proof (elim disjE exE conjE)
    fix a1 p
    assume "arena_alloc (\<lambda>_ _. True) a1 4 4 = Inl out_of_memory"
    then show ?thesis using arena_no_oom by blast
  qed (auto simp: intern_def intern_miss_def intern_init_def strmap_get_def strmap_init_def arena_strndup_def
        bind_outcome_def returning_def Let_def split: sum.splits option.splits)
  with intern_bijection [OF intern_init_inv room, of "\<lambda>_ _. True"] show ?thesis by blast
qed

end
