(* ===== verification/Dlev.thy ===== *)
theory Dlev
  imports Cg_Prelude
begin

text \<open>
  src/src/util/dlev.c: the edit distance behind the compiler's spelling suggestions. Rows are lists of
  unsigned numbers (all below 300, so that 32 bits cannot overflow). The specification is the
  restricted Damerau-Levenshtein distance by its recursion on prefixes; the code computes it row by
  row and gives up as soon as a whole row is above the cap.
\<close>

section \<open>Definitions\<close>

definition DLEV_MAX_LEN :: nat where
  "DLEV_MAX_LEN = 128"

text \<open>One cell of the table, from the two rows above and the row under construction.\<close>

definition dlev_cell :: "string \<Rightarrow> string \<Rightarrow> nat list \<Rightarrow> nat list \<Rightarrow> nat list \<Rightarrow> nat \<Rightarrow> nat \<Rightarrow> nat" where
  "dlev_cell a b prev2 prev cur i j =
     (let cost = (if a ! (i - 1) = b ! (j - 1) then 0 else 1);
          del = prev ! j + 1;
          ins = cur ! (j - 1) + 1;
          sub = prev ! (j - 1) + cost;
          best1 = (if del < ins then del else ins);
          best2 = (if sub < best1 then sub else best1)
      in if i > 1 \<and> j > 1 \<and> a ! (i - 1) = b ! (j - 2) \<and> a ! (i - 2) = b ! (j - 1)
         then (let trans = prev2 ! (j - 2) + 1 in if trans < best2 then trans else best2)
         else best2)"

text \<open>The inner loop: \<open>n\<close> cells are left, \<open>cur\<close> holds the cells before \<open>j\<close>.\<close>

primrec dlev_row ::
  "nat \<Rightarrow> string \<Rightarrow> string \<Rightarrow> nat list \<Rightarrow> nat list \<Rightarrow> nat \<Rightarrow> nat \<Rightarrow> nat list \<Rightarrow> nat \<Rightarrow> nat list \<times> nat" where
  "dlev_row 0 a b prev2 prev i j cur row_min = (cur, row_min)"
| "dlev_row (Suc n) a b prev2 prev i j cur row_min =
     (let best = dlev_cell a b prev2 prev cur i j
      in dlev_row n a b prev2 prev i (j + 1) (cur @ [best]) (if best < row_min then best else row_min))"

primrec dlev_rows :: "nat \<Rightarrow> string \<Rightarrow> string \<Rightarrow> nat \<Rightarrow> nat list \<Rightarrow> nat list \<Rightarrow> nat \<Rightarrow> nat" where
  "dlev_rows 0 a b cap prev2 prev i = prev ! length b"
| "dlev_rows (Suc n) a b cap prev2 prev i =
     (let (cur, row_min) = dlev_row (length b) a b prev2 prev i 1 [i] i
      in if row_min > cap then cap + 1 else dlev_rows n a b cap prev cur (i + 1))"

definition dlev_distance :: "string \<Rightarrow> string \<Rightarrow> nat \<Rightarrow> nat" where
  "dlev_distance a b cap =
     (let alen = length a; blen = length b in
      if alen > DLEV_MAX_LEN \<or> blen > DLEV_MAX_LEN then cap + 1
      else if (if alen > blen then alen - blen > cap else blen - alen > cap) then cap + 1
      else dlev_rows alen a b cap (replicate (DLEV_MAX_LEN + 1) 0) [0..<blen + 1] 1)"

text \<open>The suggestion test returns the distance when the candidate is worth showing.\<close>

definition dlev_is_suggestion :: "string \<Rightarrow> string \<Rightarrow> nat option" where
  "dlev_is_suggestion typo cand =
     (let cap = (if length typo < 4 then 1 else 2) in
      if length cand = 0 \<or> length typo = 0 then None
      else if length typo = length cand \<and> typo = cand then None
      else (let d = dlev_distance typo cand cap in if d > cap then None else Some d))"

section \<open>The distance\<close>

function osa :: "string \<Rightarrow> string \<Rightarrow> nat \<Rightarrow> nat \<Rightarrow> nat" where
  "osa a b i j =
     (if i = 0 then j else if j = 0 then i
      else
        (let d = min (osa a b (i - 1) j + 1)
                   (min (osa a b i (j - 1) + 1)
                      (osa a b (i - 1) (j - 1) + (if a ! (i - 1) = b ! (j - 1) then 0 else 1)))
         in if i > 1 \<and> j > 1 \<and> a ! (i - 1) = b ! (j - 2) \<and> a ! (i - 2) = b ! (j - 1)
            then min d (osa a b (i - 2) (j - 2) + 1) else d))"
  by pat_completeness auto
termination
  by (relation "measure (\<lambda>(a, b, i, j). i + j)") auto

declare osa.simps [simp del]

lemma osa_0 [simp]: "osa a b 0 j = j" "osa a b i 0 = i"
  by (simp_all add: osa.simps)

definition osa_row :: "string \<Rightarrow> string \<Rightarrow> nat \<Rightarrow> nat list" where
  "osa_row a b i = map (osa a b i) [0..<length b + 1]"

lemma osa_row_nth: "j \<le> length b \<Longrightarrow> osa_row a b i ! j = osa a b i j"
  by (simp add: osa_row_def del: upt_Suc)

lemma dlev_cell_osa:
  assumes "0 < i" "0 < j" "j \<le> length b" "prev = osa_row a b (i - 1)" "i > 1 \<Longrightarrow> prev2 = osa_row a b (i - 2)"
    and "cur ! (j - 1) = osa a b i (j - 1)"
  shows "dlev_cell a b prev2 prev cur i j = osa a b i j"
proof -
  have p: "prev ! j = osa a b (i - 1) j" "prev ! (j - 1) = osa a b (i - 1) (j - 1)"
    using assms(3,4) by (simp_all add: osa_row_nth)
  have p2: "prev2 ! (j - 2) = osa a b (i - 2) (j - 2)" if "i > 1" using assms(3,5) that by (simp add: osa_row_nth)
  define del ins sub where "del = osa a b (i - 1) j + 1" and "ins = osa a b i (j - 1) + 1"
    and "sub = osa a b (i - 1) (j - 1) + (if a ! (i - 1) = b ! (j - 1) then 0 else 1)"
  define T where "T \<longleftrightarrow> i > 1 \<and> j > 1 \<and> a ! (i - 1) = b ! (j - 2) \<and> a ! (i - 2) = b ! (j - 1)"
  have m: "(if sub < (if del < ins then del else ins) then sub else (if del < ins then del else ins)) = min del (min ins sub)"
    by (simp add: min_def)
  have "osa a b i j = (if T then min (min del (min ins sub)) (osa a b (i - 2) (j - 2) + 1) else min del (min ins sub))"
    using assms(1,2) unfolding T_def del_def ins_def sub_def by (subst osa.simps) (simp only: Let_def, simp)
  moreover have "dlev_cell a b prev2 prev cur i j
      = (if T then (if prev2 ! (j - 2) + 1 < min del (min ins sub) then prev2 ! (j - 2) + 1 else min del (min ins sub))
         else min del (min ins sub))"
    unfolding dlev_cell_def Let_def p assms(6) T_def [symmetric] del_def [symmetric] ins_def [symmetric] sub_def [symmetric] m ..
  moreover have "prev2 ! (j - 2) = osa a b (i - 2) (j - 2)" if T using p2 that by (simp add: T_def)
  ultimately show ?thesis by (auto simp: min_def)
qed

text \<open>The distance changes by at most one along a row's neighbours above.\<close>

lemma osa_down: "osa a b (Suc i) j \<le> osa a b i j + 1"
proof (cases "j = 0")
  case False
  then show ?thesis by (subst osa.simps) (auto simp: Let_def min_le_iff_disj)
qed simp

lemma osa_step:
  fixes a b :: string and i j :: nat
  assumes "0 < i" "0 < j"
  defines "d \<equiv> min (osa a b (i - 1) j + 1) (min (osa a b i (j - 1) + 1)
      (osa a b (i - 1) (j - 1) + (if a ! (i - 1) = b ! (j - 1) then 0 else 1)))"
  shows "osa a b i j = (if i > 1 \<and> j > 1 \<and> a ! (i - 1) = b ! (j - 2) \<and> a ! (i - 2) = b ! (j - 1)
    then min d (osa a b (i - 2) (j - 2) + 1) else d)"
  unfolding d_def using assms(1,2) by (subst osa.simps) (simp only: Let_def, simp)

lemma osa_cases:
  assumes "0 < i" "0 < j"
  obtains "osa a b i j = osa a b (i - 1) j + 1" | "osa a b i j = osa a b i (j - 1) + 1"
  | c where "c \<le> 1" "osa a b i j = osa a b (i - 1) (j - 1) + c"
  | "1 < i" "1 < j" "osa a b i j = osa a b (i - 2) (j - 2) + 1"
proof -
  define c :: nat where "c = (if a ! (i - 1) = b ! (j - 1) then 0 else 1)"
  have c: "c \<le> 1" by (simp add: c_def)
  obtain p q r where pqr: "p = osa a b (i - 1) j + 1" "q = osa a b i (j - 1) + 1" "r = osa a b (i - 1) (j - 1) + c" by blast
  have "osa a b i j \<in> {p, q, r} \<or> 1 < i \<and> 1 < j \<and> osa a b i j = osa a b (i - 2) (j - 2) + 1"
    unfolding osa_step [OF assms] c_def [symmetric] pqr [symmetric] by (auto simp: min_def)
  then show thesis using that c unfolding pqr by blast
qed

lemma osa_length: "i \<le> osa a b i j + j \<and> j \<le> osa a b i j + i"
proof (induction "i + j" arbitrary: i j rule: less_induct)
  case less
  show ?case
  proof (cases "i = 0 \<or> j = 0")
    case False
    then have ij: "0 < i" "0 < j" by simp_all
    show ?thesis
    proof (rule osa_cases [OF ij, of a b])
      assume "osa a b i j = osa a b (i - 1) j + 1"
      then show ?thesis using less [of "i - 1" j] ij by linarith
    next
      assume "osa a b i j = osa a b i (j - 1) + 1"
      then show ?thesis using less [of i "j - 1"] ij by linarith
    next
      fix c :: nat
      assume "c \<le> 1" "osa a b i j = osa a b (i - 1) (j - 1) + c"
      then show ?thesis using less [of "i - 1" "j - 1"] ij by linarith
    next
      assume "1 < i" "1 < j" "osa a b i j = osa a b (i - 2) (j - 2) + 1"
      then show ?thesis using less [of "i - 2" "j - 2"] by linarith
    qed
  qed auto
qed

text \<open>Once a row is above the cap, everything below it is.\<close>

lemma osa_rows_above:
  assumes "\<And>j. j \<le> m \<Longrightarrow> cap < osa a b i j" "i \<le> i'" "j \<le> m"
  shows "cap < osa a b i' j"
  using assms(2,3)
proof (induction i' arbitrary: j rule: dec_induct)
  case base
  then show ?case using assms(1) by simp
next
  case (step k)
  from step.prems show ?case
  proof (induction j)
    case 0
    then show ?case using assms(1) [of 0] step.hyps by simp
  next
    case (Suc j)
    have a: "cap < osa a b k (Suc j)" "cap < osa a b k j" "cap < osa a b (Suc k) j"
      using step.IH Suc by simp_all
    have t: "cap < osa a b (k - 1) (j - 1) + 1" if "0 < k"
    proof -
      have "cap < osa a b k (j - 1)" using Suc.prems by (intro step.IH) simp
      then show ?thesis using osa_down [of a b "k - 1" "j - 1"] that by simp
    qed
    show ?case by (rule osa_cases [of "Suc k" "Suc j" a b]) (use a t in simp_all)
  qed
qed

section \<open>The rows compute it\<close>

lemma dlev_row_osa:
  assumes "0 < i" "0 < j" "j + n = length b + 1" "prev = osa_row a b (i - 1)" "i > 1 \<Longrightarrow> prev2 = osa_row a b (i - 2)"
    and "cur = map (osa a b i) [0..<j]" "row_min = Min (osa a b i ` {..<j})"
  shows "dlev_row n a b prev2 prev i j cur row_min = (osa_row a b i, Min (osa a b i ` {..length b}))"
  using assms(2,3,6,7)
proof (induction n arbitrary: j cur row_min)
  case 0
  then have "j = length b + 1" by simp
  then show ?case using 0 by (simp add: osa_row_def lessThan_Suc_atMost)
next
  case (Suc n)
  have c: "dlev_cell a b prev2 prev cur i j = osa a b i j"
    using Suc.prems by (intro dlev_cell_osa [OF assms(1) _ _ assms(4,5)]) auto
  have "Min (osa a b i ` {..<Suc j}) = min (osa a b i j) (Min (osa a b i ` {..<j}))"
    unfolding lessThan_Suc image_insert using Suc.prems(1) by (intro Min_insert) auto
  then have m: "(if osa a b i j < row_min then osa a b i j else row_min) = Min (osa a b i ` {..<j + 1})"
    using Suc.prems(4) by (simp add: min_def)
  have "dlev_row n a b prev2 prev i (j + 1) (cur @ [osa a b i j]) (Min (osa a b i ` {..<j + 1}))
      = (osa_row a b i, Min (osa a b i ` {..length b}))"
    using Suc.prems by (intro Suc.IH) simp_all
  then show ?case unfolding dlev_row.simps c Let_def m .
qed

lemma dlev_rows_osa:
  assumes "i + n = length a + 1" "0 < i" "prev = osa_row a b (i - 1)" "i > 1 \<Longrightarrow> prev2 = osa_row a b (i - 2)"
  shows "dlev_rows n a b cap prev2 prev i = osa a b (length a) (length b)
    \<or> dlev_rows n a b cap prev2 prev i = cap + 1 \<and> cap < osa a b (length a) (length b)"
  using assms
proof (induction n arbitrary: i prev prev2)
  case 0
  then show ?case by (simp add: osa_row_nth)
next
  case (Suc n)
  let ?m = "Min (osa a b i ` {..length b})"
  have row: "dlev_row (length b) a b prev2 prev i 1 [i] i = (osa_row a b i, ?m)"
    using Suc.prems by (intro dlev_row_osa) (auto simp: lessThan_Suc)
  show ?case
  proof (cases "?m > cap")
    case True
    then have "cap < osa a b i j" if "j \<le> length b" for j
      using that Min_le [of "osa a b i ` {..length b}" "osa a b i j"] by (simp add: order_less_le_trans)
    then have "cap < osa a b (length a) (length b)" 
      using osa_rows_above [of "length b" cap a b i "length a" "length b"] Suc.prems(1) by simp
    then show ?thesis using True row by simp
  next
    case False
    then show ?thesis using Suc.IH [of "i + 1" "osa_row a b i" prev] Suc.prems row by auto
  qed
qed

lemma dlev_distance_osa:
  assumes "length a \<le> 128" "length b \<le> 128"
  shows "dlev_distance a b cap = osa a b (length a) (length b)
    \<or> dlev_distance a b cap = cap + 1 \<and> cap < osa a b (length a) (length b)"
proof -
  have r0: "[0..<length b + 1] = osa_row a b 0" unfolding osa_row_def by (rule map_idI [symmetric]) simp
  have gap: "cap < osa a b (length a) (length b)"
    if "if length a > length b then length a - length b > cap else length b - length a > cap"
    using osa_length [of "length a" a b "length b"] that by (auto split: if_splits)
  have "dlev_rows (length a) a b cap (replicate (DLEV_MAX_LEN + 1) 0) [0..<length b + 1] 1
      = osa a b (length a) (length b) \<or>
    dlev_rows (length a) a b cap (replicate (DLEV_MAX_LEN + 1) 0) [0..<length b + 1] 1 = cap + 1
      \<and> cap < osa a b (length a) (length b)"
    unfolding r0 by (rule dlev_rows_osa) simp_all
  then show ?thesis using gap assms by (auto simp: dlev_distance_def DLEV_MAX_LEN_def Let_def)
qed

text \<open>
  C30: spelling suggestions. For names of at most 128 characters a candidate is suggested exactly when
  both names are nonempty, they differ, and their restricted Damerau-Levenshtein distance is within
  the cap (one for names shorter than four characters, two otherwise); the distance reported is
  then the exact one. Giving up on a row above the cap never loses a suggestion.
\<close>

theorem dlev_suggestion_correct:
  assumes "length typo \<le> 128" "length cand \<le> 128"
  shows "dlev_is_suggestion typo cand = Some d \<longleftrightarrow>
    typo \<noteq> [] \<and> cand \<noteq> [] \<and> typo \<noteq> cand \<and> d = osa typo cand (length typo) (length cand)
    \<and> d \<le> (if length typo < 4 then 1 else 2)"
proof -
  define cap :: nat where "cap = (if length typo < 4 then 1 else 2)"
  have "dlev_is_suggestion typo cand = (if typo = [] \<or> cand = [] \<or> typo = cand then None
      else if dlev_distance typo cand cap > cap then None else Some (dlev_distance typo cand cap))"
    by (simp add: dlev_is_suggestion_def cap_def Let_def)
  then show ?thesis
    using dlev_distance_osa [OF assms, of cap] unfolding cap_def [symmetric] by auto
qed

theorem dlev_suggestion_correct_witness: "osa ''flie'' ''file'' 4 4 = 1"
proof -
  have "dlev_is_suggestion ''flie'' ''file'' = Some 1" by code_simp
  then show ?thesis using dlev_suggestion_correct [of "''flie''" "''file''" 1] by (simp add: eval_nat_numeral)
qed

end
