(* ===== verification/Cg_Live.thy ===== *)
theory Cg_Live
  imports Cg_Prelude "HOL-Library.Multiset"
begin

text \<open>
  src/src/cg/shared.c, first half: liveness of virtual registers over the target-neutral view of the
  machine code, and live intervals. A backend exposes its code through \<open>CgMirView\<close>; the callbacks are
  the functions of the record. Register and block numbers are natural numbers, a bit set is the list
  of its 64-bit words, and the caller-owned arrays live_in and live_out are lists with one bit set
  per block. The fixpoint loop is a partial function: its first option is None when it runs forever.
\<close>

unbundle bit_operations_syntax

section \<open>Definitions\<close>

record mir_view =
  mv_nvregs :: nat
  mv_nblocks :: nat
  mv_max_uses :: nat
  mv_block_ninsts :: "nat \<Rightarrow> nat"
  mv_inst_def :: "nat \<Rightarrow> nat \<Rightarrow> nat"
  mv_inst_uses :: "nat \<Rightarrow> nat \<Rightarrow> nat list"
  mv_inst_targets :: "nat \<Rightarrow> nat \<Rightarrow> nat list"
  mv_clobbers_call :: "(nat \<Rightarrow> nat \<Rightarrow> bool) option"

type_synonym bitset = "u64 list"

definition bs_set :: "bitset \<Rightarrow> nat \<Rightarrow> bitset" where
  "bs_set words b = words[drop_bit 6 b := words ! drop_bit 6 b OR push_bit (b AND 63) 1]"

definition bs_clear :: "bitset \<Rightarrow> nat \<Rightarrow> bitset" where
  "bs_clear words b = words[drop_bit 6 b := words ! drop_bit 6 b AND NOT (push_bit (b AND 63) 1)]"

definition bs_get :: "bitset \<Rightarrow> nat \<Rightarrow> bool" where
  "bs_get words b \<longleftrightarrow> drop_bit (b AND 63) (words ! drop_bit 6 b) AND 1 \<noteq> 0"

definition bs_or :: "bitset \<Rightarrow> bitset \<Rightarrow> bitset" where
  "bs_or dst src = map2 (OR) dst src"

definition cg_liveness_words :: "mir_view \<Rightarrow> nat" where
  "cg_liveness_words view = (mv_nvregs view + 64) div 64"

text \<open>Merging what is live at the targets of a branch into the running set and the block's live-out.\<close>

fun live_targets :: "mir_view \<Rightarrow> bitset list \<Rightarrow> nat list \<Rightarrow> bitset \<Rightarrow> bitset \<Rightarrow> (bitset \<times> bitset) outcome" where
  "live_targets view live_in [] tmp out = Inr (tmp, out)"
| "live_targets view live_in (t # ts) tmp out =
     (if t = 0 \<or> t > mv_nblocks view then Inl (ICE ''liveness: invalid block target'')
      else live_targets view live_in ts (bs_or tmp (live_in ! (t - 1))) (bs_or out (live_in ! (t - 1))))"

fun live_uses :: "mir_view \<Rightarrow> nat list \<Rightarrow> bitset \<Rightarrow> bitset outcome" where
  "live_uses view [] tmp = Inr tmp"
| "live_uses view (u # us) tmp =
     (if u > mv_nvregs view then Inl (ICE ''liveness: invalid vreg'')
      else live_uses view us (if u \<noteq> 0 then bs_set tmp u else tmp))"

definition live_inst :: "mir_view \<Rightarrow> bitset list \<Rightarrow> nat \<Rightarrow> nat \<Rightarrow> bitset \<times> bitset \<Rightarrow> (bitset \<times> bitset) outcome" where
  "live_inst view live_in bi ii s =
     bind_outcome (live_targets view live_in (mv_inst_targets view bi ii) (fst s) (snd s)) (\<lambda>(tmp, out).
       let d = mv_inst_def view bi ii in
       if d > mv_nvregs view then Inl (ICE ''liveness: invalid vreg'')
       else
         (let tmp1 = (if d \<noteq> 0 then bs_clear tmp d else tmp); us = mv_inst_uses view bi ii in
          if length us > mv_max_uses view then Inl (ICE ''liveness: MIR view use capacity exceeded'')
          else bind_outcome (live_uses view us tmp1) (\<lambda>tmp2. Inr (tmp2, out))))"

text \<open>The instructions of a block from the last one up, \<open>n\<close> left.\<close>

primrec live_insts :: "mir_view \<Rightarrow> bitset list \<Rightarrow> nat \<Rightarrow> nat \<Rightarrow> bitset \<times> bitset \<Rightarrow> (bitset \<times> bitset) outcome" where
  "live_insts view live_in bi 0 s = Inr s"
| "live_insts view live_in bi (Suc n) s = bind_outcome (live_inst view live_in bi n s) (live_insts view live_in bi n)"

text \<open>One block: the new live_in, live_out, and whether live_in of the block changed.\<close>

definition live_block ::
  "mir_view \<Rightarrow> nat \<Rightarrow> bitset list \<times> bitset list \<times> bool \<Rightarrow> (bitset list \<times> bitset list \<times> bool) outcome" where
  "live_block view bi s =
     (let (live_in, live_out, changed) = s in
      bind_outcome (live_insts view live_in bi (mv_block_ninsts view bi)
        (replicate (cg_liveness_words view) 0, live_out ! bi)) (\<lambda>(tmp, out).
          Inr (live_in[bi := tmp], live_out[bi := out], changed \<or> tmp \<noteq> live_in ! bi)))"

text \<open>The sweep over the blocks from the last one down, \<open>n\<close> left.\<close>

primrec live_sweep ::
  "mir_view \<Rightarrow> nat \<Rightarrow> bitset list \<times> bitset list \<times> bool \<Rightarrow> (bitset list \<times> bitset list \<times> bool) outcome" where
  "live_sweep view 0 s = Inr s"
| "live_sweep view (Suc n) s = bind_outcome (live_block view n s) (live_sweep view n)"

partial_function (option) cg_liveness ::
  "mir_view \<Rightarrow> bitset list \<Rightarrow> bitset list \<Rightarrow> (bitset list \<times> bitset list) outcome option" where
  "cg_liveness view live_in live_out =
     (case live_sweep view (mv_nblocks view) (live_in, live_out, False) of
        Inl e \<Rightarrow> Some (Inl e)
      | Inr (li, lo, changed) \<Rightarrow> if changed then cg_liveness view li lo else Some (Inr (li, lo)))"

section \<open>Bit sets\<close>

definition bs_elems :: "bitset \<Rightarrow> nat set" where
  "bs_elems ws = {v. v div 64 < length ws \<and> bit (ws ! (v div 64)) (v mod 64)}"

lemma and_63: "(b :: nat) AND 63 = b mod 64"
  using take_bit_eq_mask [of 6 b] by (simp add: take_bit_eq_mod mask_eq_exp_minus_1)

lemma shr_6: "drop_bit 6 (b :: nat) = b div 64"
  by (simp add: drop_bit_eq_div)

lemmas bs_index = and_63 shr_6

lemma bs_get_elems: "v div 64 < length ws \<Longrightarrow> bs_get ws v \<longleftrightarrow> v \<in> bs_elems ws"
  by (simp only: bs_get_def bs_elems_def bs_index bit_and_1 bit_drop_bit_eq mem_Collect_eq) simp

lemma length_bs [simp]: "length (bs_set ws v) = length ws" "length (bs_clear ws v) = length ws"
  "length ws' = length ws \<Longrightarrow> length (bs_or ws ws') = length ws"
  by (simp_all add: bs_set_def bs_clear_def bs_or_def)

lemma bit_index_eq: "(v :: nat) div 64 = w div 64 \<Longrightarrow> v mod 64 = w mod 64 \<Longrightarrow> v = w"
  by (metis div_mod_decomp)

lemma bit_one_shifted: "n < 64 \<Longrightarrow> bit (push_bit n 1 :: u64) m \<longleftrightarrow> m = n"
  by (auto simp: bit_push_bit_iff bit_1_iff simp del: push_bit_of_1)

lemma bs_set_elems:
  assumes "v div 64 < length ws"
  shows "bs_elems (bs_set ws v) = insert v (bs_elems ws)"
proof (rule set_eqI)
  fix x
  have "bit (bs_set ws v ! (x div 64)) (x mod 64) \<longleftrightarrow> x = v \<or> bit (ws ! (x div 64)) (x mod 64)" if "x div 64 < length ws"
  proof (cases "x div 64 = v div 64")
    case True
    then have idx: "bs_set ws v ! (x div 64) = ws ! (x div 64) OR push_bit (v mod 64) 1"
      using assms unfolding bs_set_def bs_index by (simp only: nth_list_update_eq)
    have "bit (bs_set ws v ! (x div 64)) (x mod 64) \<longleftrightarrow> bit (ws ! (x div 64)) (x mod 64) \<or> x mod 64 = v mod 64"
      unfolding idx bit_or_iff using bit_one_shifted [of "v mod 64" "x mod 64"] by (simp del: push_bit_of_1)
    moreover have "x mod 64 = v mod 64 \<longleftrightarrow> x = v" using bit_index_eq [OF True] by blast
    ultimately show ?thesis by blast
  next
    case False
    then show ?thesis by (auto simp: bs_set_def bs_index)
  qed
  then show "x \<in> bs_elems (bs_set ws v) \<longleftrightarrow> x \<in> insert v (bs_elems ws)" using assms by (auto simp: bs_elems_def)
qed

lemma bs_clear_elems:
  assumes "v div 64 < length ws"
  shows "bs_elems (bs_clear ws v) = bs_elems ws - {v}"
proof (rule set_eqI)
  fix x
  have "bit (bs_clear ws v ! (x div 64)) (x mod 64) \<longleftrightarrow> x \<noteq> v \<and> bit (ws ! (x div 64)) (x mod 64)" if "x div 64 < length ws"
  proof (cases "x div 64 = v div 64")
    case True
    then have idx: "bs_clear ws v ! (x div 64) = ws ! (x div 64) AND NOT (push_bit (v mod 64) 1)"
      using assms unfolding bs_clear_def bs_index by (simp only: nth_list_update_eq)
    have "bit (bs_clear ws v ! (x div 64)) (x mod 64) \<longleftrightarrow> bit (ws ! (x div 64)) (x mod 64) \<and> x mod 64 \<noteq> v mod 64"
      unfolding idx bit_and_iff bit_not_iff using bit_one_shifted [of "v mod 64" "x mod 64"] by (simp del: push_bit_of_1)
    moreover have "x mod 64 = v mod 64 \<longleftrightarrow> x = v" using bit_index_eq [OF True] by blast
    ultimately show ?thesis by blast
  next
    case False
    then show ?thesis by (auto simp: bs_clear_def bs_index)
  qed
  then show "x \<in> bs_elems (bs_clear ws v) \<longleftrightarrow> x \<in> bs_elems ws - {v}" using assms by (auto simp: bs_elems_def)
qed

lemma bs_or_elems: "length ws' = length ws \<Longrightarrow> bs_elems (bs_or ws ws') = bs_elems ws \<union> bs_elems ws'"
  by (auto simp: bs_elems_def bs_or_def bit_or_iff)

lemma bs_zero_elems [simp]: "bs_elems (replicate n 0) = {}"
  by (auto simp: bs_elems_def)

lemma bs_elems_inj:
  assumes "length ws = length ws'" "bs_elems ws = bs_elems ws'"
  shows "ws = ws'"
proof (rule nth_equalityI [OF assms(1)])
  fix i
  assume i: "i < length ws"
  show "ws ! i = ws' ! i"
  proof (rule bit_word_eqI)
    fix n
    assume "n < LENGTH(64)"
    then have "i * 64 + n \<in> bs_elems ws \<longleftrightarrow> bit (ws ! i) n" "i * 64 + n \<in> bs_elems ws' \<longleftrightarrow> bit (ws' ! i) n"
      using i assms(1) by (simp_all add: bs_elems_def)
    then show "bit (ws ! i) n \<longleftrightarrow> bit (ws' ! i) n" using assms(2) by simp
  qed
qed

lemma bs_elems_bound: "bs_elems ws \<subseteq> {..<64 * length ws}"
  by (auto simp: bs_elems_def div_less_iff_less_mult mult.commute)

lemma finite_bs_elems: "finite (bs_elems ws)"
  using bs_elems_bound finite_subset by blast

section \<open>Liveness\<close>

text \<open>
  The definition of liveness: \<open>live_at view b i v\<close> says that the value of \<open>v\<close> before instruction \<open>i\<close> of
  block \<open>b\<close> may be read: the instruction reads it, or it does not define it and the value is live
  before the next instruction or at the start of a block the instruction can branch to.
\<close>

inductive live_at :: "mir_view \<Rightarrow> nat \<Rightarrow> nat \<Rightarrow> nat \<Rightarrow> bool" for view where
  live_use: "i < mv_block_ninsts view b \<Longrightarrow> v \<in> set (mv_inst_uses view b i) \<Longrightarrow> v \<noteq> 0 \<Longrightarrow> live_at view b i v"
| live_next: "i < mv_block_ninsts view b \<Longrightarrow> v \<noteq> mv_inst_def view b i \<Longrightarrow> live_at view b (i + 1) v \<Longrightarrow> live_at view b i v"
| live_branch: "i < mv_block_ninsts view b \<Longrightarrow> v \<noteq> mv_inst_def view b i \<Longrightarrow> t \<in> set (mv_inst_targets view b i) \<Longrightarrow>
    live_at view (t - 1) 0 v \<Longrightarrow> live_at view b i v"

text \<open>A view whose numbers are in range, as the code checks.\<close>

definition view_ok :: "mir_view \<Rightarrow> bool" where
  "view_ok view \<longleftrightarrow>
     (\<forall>b<mv_nblocks view. \<forall>i<mv_block_ninsts view b.
        mv_inst_def view b i \<le> mv_nvregs view \<and> length (mv_inst_uses view b i) \<le> mv_max_uses view
        \<and> (\<forall>u\<in>set (mv_inst_uses view b i). u \<le> mv_nvregs view)
        \<and> (\<forall>t\<in>set (mv_inst_targets view b i). 0 < t \<and> t \<le> mv_nblocks view))"

lemma live_at_vreg: "live_at view b i v \<Longrightarrow> view_ok view \<Longrightarrow> b < mv_nblocks view \<Longrightarrow> v \<noteq> 0 \<and> v \<le> mv_nvregs view"
proof (induction rule: live_at.induct)
  case (live_branch i b v t)
  have "0 < t \<and> t \<le> mv_nblocks view" using live_branch.prems live_branch.hyps(1,3) by (auto simp: view_ok_def)
  then have "t - 1 < mv_nblocks view" by linarith
  then show ?case using live_branch by blast
qed (auto simp: view_ok_def)

lemma live_at_nonzero: "live_at view b i v \<Longrightarrow> v \<noteq> 0"
  by (induction rule: live_at.induct) auto

lemma live_at_range: "live_at view b i v \<Longrightarrow> i < mv_block_ninsts view b"
  by (induction rule: live_at.induct) auto

section \<open>The transfer function on sets\<close>

definition step_set :: "mir_view \<Rightarrow> (nat \<Rightarrow> nat set) \<Rightarrow> nat \<Rightarrow> nat \<Rightarrow> nat set \<Rightarrow> nat set" where
  "step_set view L b i T =
     (T \<union> (\<Union>t\<in>set (mv_inst_targets view b i). L (t - 1))) - ({mv_inst_def view b i} - {0}) \<union> (set (mv_inst_uses view b i) - {0})"

text \<open>What is live before instruction \<open>i\<close> when \<open>L\<close> is live at the block starts.\<close>

function flow :: "mir_view \<Rightarrow> (nat \<Rightarrow> nat set) \<Rightarrow> nat \<Rightarrow> nat \<Rightarrow> nat set" where
  "flow view L b i = (if i < mv_block_ninsts view b then step_set view L b i (flow view L b (i + 1)) else {})"
  by pat_completeness auto
termination
  by (relation "measure (\<lambda>(view, L, b, i). mv_block_ninsts view b - i)") auto

declare flow.simps [simp del]

definition branch_set :: "mir_view \<Rightarrow> (nat \<Rightarrow> nat set) \<Rightarrow> nat \<Rightarrow> nat set" where
  "branch_set view L b = (\<Union>i<mv_block_ninsts view b. \<Union>t\<in>set (mv_inst_targets view b i). L (t - 1))"

lemma flow_unfold: "i < mv_block_ninsts view b \<Longrightarrow> flow view L b i = step_set view L b i (flow view L b (i + 1))"
  by (simp add: flow.simps [of view L b i])

lemma flow_end: "mv_block_ninsts view b \<le> i \<Longrightarrow> flow view L b i = {}"
  by (simp add: flow.simps [of view L b i])

lemma step_set_mono: "T \<subseteq> T' \<Longrightarrow> (\<And>c. L c \<subseteq> L' c) \<Longrightarrow> step_set view L b i T \<subseteq> step_set view L' b i T'"
  unfolding step_set_def by (intro Un_mono Diff_mono UN_mono) auto

lemma flow_mono:
  assumes "\<And>c. L c \<subseteq> L' c"
  shows "flow view L b i \<subseteq> flow view L' b i"
proof (induction "mv_block_ninsts view b - i" arbitrary: i)
  case (Suc n)
  then have "i < mv_block_ninsts view b" "n = mv_block_ninsts view b - (i + 1)" by simp_all
  then show ?case using Suc.hyps(1) [of "i + 1"] assms by (simp add: flow_unfold step_set_mono)
qed (simp add: flow_end)

text \<open>With live sets at the block starts the flow is liveness, and a fixpoint of it contains liveness.\<close>

lemma flow_sound:
  assumes "\<And>c v. v \<in> L c \<Longrightarrow> live_at view c 0 v" and "v \<in> flow view L b i"
  shows "live_at view b i v"
  using assms(2)
proof (induction "mv_block_ninsts view b - i" arbitrary: i)
  case (Suc n)
  have i: "i < mv_block_ninsts view b" "n = mv_block_ninsts view b - (i + 1)" using Suc.hyps(2) by simp_all
  have "v \<in> step_set view L b i (flow view L b (i + 1))" using Suc.prems i by (simp add: flow_unfold)
  then consider "v \<noteq> mv_inst_def view b i \<or> v = 0" "v \<in> flow view L b (i + 1)"
    | t where "v \<noteq> mv_inst_def view b i \<or> v = 0" "t \<in> set (mv_inst_targets view b i)" "v \<in> L (t - 1)"
    | "v \<in> set (mv_inst_uses view b i)" "v \<noteq> 0"
    unfolding step_set_def by auto
  then show ?case
  proof cases
    case 1
    then have "live_at view b (i + 1) v" using Suc.hyps(1) i(2) by blast
    moreover from this have "v \<noteq> 0" by (rule live_at_nonzero)
    ultimately show ?thesis using 1 i by (blast intro: live_next)
  next
    case (2 t)
    then have "live_at view (t - 1) 0 v" using assms(1) by blast
    moreover from this have "v \<noteq> 0" by (rule live_at_nonzero)
    ultimately show ?thesis using 2 i by (blast intro: live_branch)
  next
    case 3
    then show ?thesis using i by (blast intro: live_use)
  qed
qed (simp add: flow_end)

lemma flow_complete:
  assumes "live_at view b i v" and ok: "view_ok view" and "b < mv_nblocks view"
    and fp: "\<And>c. c < mv_nblocks view \<Longrightarrow> flow view L c 0 \<subseteq> L c"
  shows "v \<in> flow view L b i"
  using assms(1,3)
proof (induction rule: live_at.induct)
  case (live_use i b v)
  then show ?case by (simp add: flow_unfold step_set_def)
next
  case (live_next i b v)
  then show ?case by (simp add: flow_unfold [of i] step_set_def)
next
  case (live_branch i b v t)
  have "0 < t \<and> t \<le> mv_nblocks view" using ok live_branch.prems live_branch.hyps(1,3) by (auto simp: view_ok_def)
  then have "t - 1 < mv_nblocks view" by linarith
  then have "v \<in> L (t - 1)" using live_branch.IH fp by blast
  then show ?case using live_branch.hyps by (auto simp: flow_unfold step_set_def)
qed

section \<open>The code computes it\<close>

text \<open>One bit set of the right length per block.\<close>

definition rows_ok :: "mir_view \<Rightarrow> bitset list \<Rightarrow> bool" where
  "rows_ok view rows \<longleftrightarrow> length rows = mv_nblocks view \<and> (\<forall>r\<in>set rows. length r = cg_liveness_words view)"

definition row_sets :: "bitset list \<Rightarrow> nat \<Rightarrow> nat set" where
  "row_sets rows b = (if b < length rows then bs_elems (rows ! b) else {})"

lemma finite_row_sets: "finite (row_sets rows b)"
  by (simp add: row_sets_def finite_bs_elems)

lemma vreg_word: "v \<le> mv_nvregs view \<Longrightarrow> v div 64 < cg_liveness_words view"
  unfolding cg_liveness_words_def by linarith

lemma row_length: "rows_ok view rows \<Longrightarrow> b < mv_nblocks view \<Longrightarrow> length (rows ! b) = cg_liveness_words view"
  by (simp add: rows_ok_def)

lemma live_targets_sets:
  assumes "rows_ok view live_in" "length tmp = cg_liveness_words view" "length out = cg_liveness_words view"
    and "\<forall>t\<in>set ts. 0 < t \<and> t \<le> mv_nblocks view"
  shows "\<exists>tmp' out'. live_targets view live_in ts tmp out = Inr (tmp', out')
    \<and> length tmp' = cg_liveness_words view \<and> length out' = cg_liveness_words view
    \<and> bs_elems tmp' = bs_elems tmp \<union> (\<Union>t\<in>set ts. row_sets live_in (t - 1))
    \<and> bs_elems out' = bs_elems out \<union> (\<Union>t\<in>set ts. row_sets live_in (t - 1))"
  using assms(2-4)
proof (induction ts arbitrary: tmp out)
  case (Cons t ts)
  have t: "0 < t" "t \<le> mv_nblocks view" "t - 1 < mv_nblocks view" using Cons.prems(3) by auto
  have len: "length (live_in ! (t - 1)) = cg_liveness_words view" by (rule row_length [OF assms(1) t(3)])
  have nb: "t - 1 < length live_in" using assms(1) t by (simp add: rows_ok_def)
  from Cons.IH [of "bs_or tmp (live_in ! (t - 1))" "bs_or out (live_in ! (t - 1))"] Cons.prems len
  show ?case using t nb by (auto simp: bs_or_elems row_sets_def)
qed simp

lemma live_uses_sets:
  assumes "length tmp = cg_liveness_words view" "\<forall>u\<in>set us. u \<le> mv_nvregs view"
  shows "\<exists>tmp'. live_uses view us tmp = Inr tmp' \<and> length tmp' = cg_liveness_words view
    \<and> bs_elems tmp' = bs_elems tmp \<union> (set us - {0})"
  using assms
proof (induction us arbitrary: tmp)
  case (Cons u us)
  have u: "u div 64 < length tmp" using Cons.prems vreg_word by simp
  from Cons.IH [of "if u \<noteq> 0 then bs_set tmp u else tmp"] Cons.prems
  show ?case by (auto simp: bs_set_elems [OF u])
qed simp

lemma live_inst_sets:
  assumes ok: "view_ok view" "b < mv_nblocks view" "i < mv_block_ninsts view b" and rows: "rows_ok view live_in"
    and len: "length tmp = cg_liveness_words view" "length out = cg_liveness_words view"
  shows "\<exists>tmp' out'. live_inst view live_in b i (tmp, out) = Inr (tmp', out')
    \<and> length tmp' = cg_liveness_words view \<and> length out' = cg_liveness_words view
    \<and> bs_elems tmp' = step_set view (row_sets live_in) b i (bs_elems tmp)
    \<and> bs_elems out' = bs_elems out \<union> (\<Union>t\<in>set (mv_inst_targets view b i). row_sets live_in (t - 1))"
proof -
  let ?d = "mv_inst_def view b i" and ?us = "mv_inst_uses view b i" and ?ts = "mv_inst_targets view b i"
  have v: "?d \<le> mv_nvregs view" "length ?us \<le> mv_max_uses view" "\<forall>u\<in>set ?us. u \<le> mv_nvregs view"
    "\<forall>t\<in>set ?ts. 0 < t \<and> t \<le> mv_nblocks view"
    using ok unfolding view_ok_def by blast+
  from live_targets_sets [OF rows len v(4)] obtain tmp1 out1 where
    1: "live_targets view live_in ?ts tmp out = Inr (tmp1, out1)" "length tmp1 = cg_liveness_words view"
    "length out1 = cg_liveness_words view" "bs_elems tmp1 = bs_elems tmp \<union> (\<Union>t\<in>set ?ts. row_sets live_in (t - 1))"
    "bs_elems out1 = bs_elems out \<union> (\<Union>t\<in>set ?ts. row_sets live_in (t - 1))" by blast
  define tmp2 where "tmp2 = (if ?d \<noteq> 0 then bs_clear tmp1 ?d else tmp1)"
  have d: "?d div 64 < length tmp1" using vreg_word [OF v(1)] 1(2) by simp
  have 2: "length tmp2 = cg_liveness_words view" "bs_elems tmp2 = bs_elems tmp1 - ({?d} - {0})"
    using 1(2) by (auto simp: tmp2_def bs_clear_elems [OF d])
  from live_uses_sets [OF 2(1) v(3)] obtain tmp3 where
    3: "live_uses view ?us tmp2 = Inr tmp3" "length tmp3 = cg_liveness_words view" "bs_elems tmp3 = bs_elems tmp2 \<union> (set ?us - {0})"
    by blast
  have "live_inst view live_in b i (tmp, out) = Inr (tmp3, out1)"
    using v(1,2) 1(1) 3(1) by (simp add: live_inst_def Let_def tmp2_def)
  then show ?thesis using 1 2 3 by (simp add: step_set_def)
qed

lemma live_insts_sets:
  assumes ok: "view_ok view" "b < mv_nblocks view" and rows: "rows_ok view live_in"
    and "length tmp = cg_liveness_words view" "length out = cg_liveness_words view"
    and "n \<le> mv_block_ninsts view b" "bs_elems tmp = flow view (row_sets live_in) b n"
  shows "\<exists>tmp' out'. live_insts view live_in b n (tmp, out) = Inr (tmp', out')
    \<and> length tmp' = cg_liveness_words view \<and> length out' = cg_liveness_words view
    \<and> bs_elems tmp' = flow view (row_sets live_in) b 0
    \<and> bs_elems out' = bs_elems out \<union> (\<Union>i<n. \<Union>t\<in>set (mv_inst_targets view b i). row_sets live_in (t - 1))"
  using assms(4-)
proof (induction n arbitrary: tmp out)
  case (Suc n)
  have n: "n < mv_block_ninsts view b" using Suc.prems(3) by simp
  from live_inst_sets [OF ok n rows Suc.prems(1,2)] obtain tmp1 out1 where
    1: "live_inst view live_in b n (tmp, out) = Inr (tmp1, out1)" "length tmp1 = cg_liveness_words view"
    "length out1 = cg_liveness_words view" "bs_elems tmp1 = step_set view (row_sets live_in) b n (bs_elems tmp)"
    "bs_elems out1 = bs_elems out \<union> (\<Union>t\<in>set (mv_inst_targets view b n). row_sets live_in (t - 1))" by blast
  have "bs_elems tmp1 = flow view (row_sets live_in) b n" using 1(4) Suc.prems(4) n by (simp add: flow_unfold [of n])
  from Suc.IH [OF 1(2,3) _ this] n obtain tmp' out' where
    2: "live_insts view live_in b n (tmp1, out1) = Inr (tmp', out')" "length tmp' = cg_liveness_words view"
    "length out' = cg_liveness_words view" "bs_elems tmp' = flow view (row_sets live_in) b 0"
    "bs_elems out' = bs_elems out1 \<union> (\<Union>i<n. \<Union>t\<in>set (mv_inst_targets view b i). row_sets live_in (t - 1))" by auto
  have "live_insts view live_in b (Suc n) (tmp, out) = Inr (tmp', out')" using 1(1) 2(1) by simp
  moreover have "bs_elems out' = bs_elems out \<union> (\<Union>i<Suc n. \<Union>t\<in>set (mv_inst_targets view b i). row_sets live_in (t - 1))"
    unfolding 2(5) 1(5) lessThan_Suc by auto
  ultimately show ?case using 2(2-4) by blast
qed simp

lemma live_block_sets:
  assumes ok: "view_ok view" "b < mv_nblocks view" and rows: "rows_ok view live_in" "rows_ok view live_out"
  shows "\<exists>tmp out. live_block view b (live_in, live_out, ch) = Inr (live_in[b := tmp], live_out[b := out], ch \<or> tmp \<noteq> live_in ! b)
    \<and> length tmp = cg_liveness_words view \<and> length out = cg_liveness_words view
    \<and> bs_elems tmp = flow view (row_sets live_in) b 0
    \<and> bs_elems out = bs_elems (live_out ! b) \<union> branch_set view (row_sets live_in) b"
proof -
  have "bs_elems (replicate (cg_liveness_words view) 0) = flow view (row_sets live_in) b (mv_block_ninsts view b)"
    by (simp add: flow_end)
  from live_insts_sets [OF ok rows(1) _ row_length [OF rows(2) ok(2)] order_refl this]
  obtain tmp out where t: "live_insts view live_in b (mv_block_ninsts view b) (replicate (cg_liveness_words view) 0, live_out ! b) = Inr (tmp, out)"
    "length tmp = cg_liveness_words view" "length out = cg_liveness_words view" "bs_elems tmp = flow view (row_sets live_in) b 0"
    "bs_elems out = bs_elems (live_out ! b) \<union> branch_set view (row_sets live_in) b"
    unfolding branch_set_def by auto
  have "live_block view b (live_in, live_out, ch) = Inr (live_in[b := tmp], live_out[b := out], ch \<or> tmp \<noteq> live_in ! b)"
    by (simp add: live_block_def t(1))
  with t(2-) show ?thesis by blast
qed

section \<open>The fixpoint\<close>

abbreviation live_in_set :: "mir_view \<Rightarrow> nat \<Rightarrow> nat set" where
  "live_in_set view b \<equiv> {v. live_at view b 0 v}"

text \<open>
  The invariant of the iteration: what is recorded is live, and every live-in set is below the value
  its block would compute now, so that sets only grow.
\<close>

definition live_inv :: "mir_view \<Rightarrow> bitset list \<Rightarrow> bitset list \<Rightarrow> bool" where
  "live_inv view li lo \<longleftrightarrow>
     rows_ok view li \<and> rows_ok view lo \<and> (\<forall>b. row_sets li b \<subseteq> live_in_set view b)
     \<and> (\<forall>b<mv_nblocks view. row_sets li b \<subseteq> flow view (row_sets li) b 0)
     \<and> (\<forall>b<mv_nblocks view. bs_elems (lo ! b) \<subseteq> branch_set view (live_in_set view) b)"

lemma branch_set_mono: "(\<And>c. L c \<subseteq> L' c) \<Longrightarrow> branch_set view L b \<subseteq> branch_set view L' b"
  unfolding branch_set_def by (intro UN_mono) auto

lemma rows_ok_update: "rows_ok view rows \<Longrightarrow> length r = cg_liveness_words view \<Longrightarrow> rows_ok view (rows[b := r])"
  unfolding rows_ok_def by (metis insertE length_list_update set_update_subset_insert subsetD)

lemma live_block_inv:
  assumes ok: "view_ok view" "b < mv_nblocks view" and inv: "live_inv view li lo"
  shows "\<exists>tmp out. live_block view b (li, lo, ch) = Inr (li[b := tmp], lo[b := out], ch \<or> tmp \<noteq> li ! b)
    \<and> live_inv view (li[b := tmp]) (lo[b := out]) \<and> (\<forall>c. row_sets li c \<subseteq> row_sets (li[b := tmp]) c)
    \<and> (tmp \<noteq> li ! b \<longrightarrow> row_sets li b \<noteq> row_sets (li[b := tmp]) b)
    \<and> row_sets (li[b := tmp]) b = flow view (row_sets li) b 0 \<and> branch_set view (row_sets li) b \<subseteq> bs_elems out"
proof -
  have i: "rows_ok view li" "rows_ok view lo" "\<And>c. row_sets li c \<subseteq> live_in_set view c"
    "\<And>c. c < mv_nblocks view \<Longrightarrow> row_sets li c \<subseteq> flow view (row_sets li) c 0"
    "\<And>c. c < mv_nblocks view \<Longrightarrow> bs_elems (lo ! c) \<subseteq> branch_set view (live_in_set view) c"
    using inv unfolding live_inv_def by blast+
  have nb: "length li = mv_nblocks view" "length lo = mv_nblocks view" using i(1,2) by (simp_all add: rows_ok_def)
  from live_block_sets [OF ok i(1,2), of ch] obtain tmp out where
    t: "live_block view b (li, lo, ch) = Inr (li[b := tmp], lo[b := out], ch \<or> tmp \<noteq> li ! b)"
    "length tmp = cg_liveness_words view" "length out = cg_liveness_words view"
    "bs_elems tmp = flow view (row_sets li) b 0" "bs_elems out = bs_elems (lo ! b) \<union> branch_set view (row_sets li) b" by blast
  have upd: "row_sets (li[b := tmp]) c = (if c = b then flow view (row_sets li) b 0 else row_sets li c)" for c
    using ok(2) nb t(4) by (simp add: row_sets_def)
  have grow: "row_sets li c \<subseteq> row_sets (li[b := tmp]) c" for c
    unfolding upd using i(4) [OF ok(2)] by (cases "c = b") simp_all
  have sound: "row_sets (li[b := tmp]) c \<subseteq> live_in_set view c" for c
  proof (cases "c = b")
    case True
    have "flow view (row_sets li) b 0 \<subseteq> live_in_set view b" using flow_sound [of "row_sets li" view _ b 0] i(3) by blast
    then show ?thesis using True by (simp add: upd)
  next
    case False
    then show ?thesis using i(3) by (simp add: upd)
  qed
  have asc: "row_sets (li[b := tmp]) c \<subseteq> flow view (row_sets (li[b := tmp])) c 0" if "c < mv_nblocks view" for c
  proof -
    have "row_sets (li[b := tmp]) c \<subseteq> flow view (row_sets li) c 0" using i(4) [OF that] by (simp only: upd) simp
    also have "\<dots> \<subseteq> flow view (row_sets (li[b := tmp])) c 0" by (rule flow_mono) (rule grow)
    finally show ?thesis .
  qed
  have "bs_elems (lo[b := out] ! c) \<subseteq> branch_set view (live_in_set view) c" if "c < mv_nblocks view" for c
    using i(5) [OF that] branch_set_mono [of "row_sets li" "live_in_set view" view b] i(3) t(5) nb ok(2)
    by (cases "c = b") auto
  then have "live_inv view (li[b := tmp]) (lo[b := out])"
    unfolding live_inv_def using sound asc t(2,3) i(1,2) rows_ok_update by blast
  moreover have "row_sets li b \<noteq> row_sets (li[b := tmp]) b" if "tmp \<noteq> li ! b"
    using that bs_elems_inj [of tmp "li ! b"] t(2) row_length [OF i(1) ok(2)] ok(2) nb by (auto simp: row_sets_def)
  moreover have "row_sets (li[b := tmp]) b = flow view (row_sets li) b 0" by (simp add: upd)
  ultimately show ?thesis using t(1,5) grow by blast
qed

lemma live_sweep_inv:
  assumes ok: "view_ok view" and "n \<le> mv_nblocks view" "live_inv view li lo"
  shows "\<exists>li' lo' ch'. live_sweep view n (li, lo, ch) = Inr (li', lo', ch') \<and> live_inv view li' lo'
    \<and> (\<forall>c. row_sets li c \<subseteq> row_sets li' c)
    \<and> (ch' \<longrightarrow> ch \<or> (\<exists>c<mv_nblocks view. row_sets li c \<noteq> row_sets li' c))
    \<and> (\<forall>c\<ge>n. lo' ! c = lo ! c)
    \<and> (\<not> ch' \<longrightarrow> \<not> ch \<and> li' = li
         \<and> (\<forall>c<n. flow view (row_sets li) c 0 = row_sets li c \<and> branch_set view (row_sets li) c \<subseteq> bs_elems (lo' ! c)))"
  using assms(2,3)
proof (induction n arbitrary: li lo ch)
  case (Suc n)
  have n: "n < mv_nblocks view" using Suc.prems(1) by simp
  from live_block_inv [OF ok n Suc.prems(2), of ch] obtain tmp out where
    b: "live_block view n (li, lo, ch) = Inr (li[n := tmp], lo[n := out], ch \<or> tmp \<noteq> li ! n)"
    "live_inv view (li[n := tmp]) (lo[n := out])" "\<And>c. row_sets li c \<subseteq> row_sets (li[n := tmp]) c"
    "tmp \<noteq> li ! n \<longrightarrow> row_sets li n \<noteq> row_sets (li[n := tmp]) n"
    "row_sets (li[n := tmp]) n = flow view (row_sets li) n 0" "branch_set view (row_sets li) n \<subseteq> bs_elems out" by blast
  have le: "n \<le> mv_nblocks view" using n by simp
  obtain li' lo' ch' where all: "live_sweep view n (li[n := tmp], lo[n := out], ch \<or> tmp \<noteq> li ! n) = Inr (li', lo', ch')
    \<and> live_inv view li' lo' \<and> (\<forall>c. row_sets (li[n := tmp]) c \<subseteq> row_sets li' c)
    \<and> (ch' \<longrightarrow> (ch \<or> tmp \<noteq> li ! n) \<or> (\<exists>c<mv_nblocks view. row_sets (li[n := tmp]) c \<noteq> row_sets li' c))
    \<and> (\<forall>c\<ge>n. lo' ! c = lo[n := out] ! c)
    \<and> (\<not> ch' \<longrightarrow> \<not> (ch \<or> tmp \<noteq> li ! n) \<and> li' = li[n := tmp]
         \<and> (\<forall>c<n. flow view (row_sets (li[n := tmp])) c 0 = row_sets (li[n := tmp]) c
              \<and> branch_set view (row_sets (li[n := tmp])) c \<subseteq> bs_elems (lo' ! c)))"
    using Suc.IH [OF le b(2), of "ch \<or> tmp \<noteq> li ! n"] by (elim exE)
  then have s: "live_sweep view n (li[n := tmp], lo[n := out], ch \<or> tmp \<noteq> li ! n) = Inr (li', lo', ch')" "live_inv view li' lo'"
    "\<And>c. row_sets (li[n := tmp]) c \<subseteq> row_sets li' c"
    "ch' \<longrightarrow> (ch \<or> tmp \<noteq> li ! n) \<or> (\<exists>c<mv_nblocks view. row_sets (li[n := tmp]) c \<noteq> row_sets li' c)"
    "\<And>c. c \<ge> n \<Longrightarrow> lo' ! c = lo[n := out] ! c"
    "\<not> ch' \<longrightarrow> \<not> (ch \<or> tmp \<noteq> li ! n) \<and> li' = li[n := tmp]
         \<and> (\<forall>c<n. flow view (row_sets (li[n := tmp])) c 0 = row_sets (li[n := tmp]) c
              \<and> branch_set view (row_sets (li[n := tmp])) c \<subseteq> bs_elems (lo' ! c))"
    by - (elim conjE; (assumption | erule spec | (drule spec, erule mp, assumption)))+
  have sweep: "live_sweep view (Suc n) (li, lo, ch) = Inr (li', lo', ch')" using b(1) s(1) by simp
  have grow: "row_sets li c \<subseteq> row_sets li' c" for c using b(3) [of c] s(3) [of c] by blast
  have changed: "ch \<or> (\<exists>c<mv_nblocks view. row_sets li c \<noteq> row_sets li' c)" if ch'
  proof -
    consider ch | "tmp \<noteq> li ! n" | c where "c < mv_nblocks view" "row_sets (li[n := tmp]) c \<noteq> row_sets li' c"
      using s(4) \<open>ch'\<close> by blast
    then show ?thesis
    proof cases
      case 2
      then have "row_sets li n \<noteq> row_sets (li[n := tmp]) n" using b(4) by blast
      then have "row_sets li n \<noteq> row_sets li' n" using b(3) [of n] s(3) [of n] by blast
      then show ?thesis using n by blast
    next
      case (3 c)
      then have "row_sets li c \<noteq> row_sets li' c" using b(3) [of c] s(3) [of c] by blast
      then show ?thesis using 3 by blast
    qed blast
  qed
  have lo_n: "lo' ! c = lo ! c" if "c \<ge> Suc n" for c using s(5) [of c] that by simp
  have len: "n < length lo" using Suc.prems(2) n by (simp add: live_inv_def rows_ok_def)
  have stable: "\<not> ch \<and> li' = li \<and> (\<forall>c<Suc n. flow view (row_sets li) c 0 = row_sets li c \<and> branch_set view (row_sets li) c \<subseteq> bs_elems (lo' ! c))"
    if "\<not> ch'"
  proof -
    have t: "\<not> ch" "tmp = li ! n" "li' = li[n := tmp]" using s(6) that by blast+
    then have same: "li[n := tmp] = li" by simp
    have "flow view (row_sets li) n 0 = row_sets li n" using b(5) unfolding same by simp
    moreover have "bs_elems (lo' ! n) = bs_elems out" using s(5) [of n] len by simp
    ultimately show ?thesis using s(6) that b(6) unfolding same by (auto simp: less_Suc_eq)
  qed
  show ?case using sweep s(2) grow changed lo_n stable by blast
qed simp

text \<open>How many bits are set; it grows with every sweep that changes something.\<close>

definition live_bits :: "mir_view \<Rightarrow> bitset list \<Rightarrow> nat" where
  "live_bits view li = (\<Sum>b<mv_nblocks view. card (row_sets li b))"

lemma live_bits_bound: "rows_ok view li \<Longrightarrow> live_bits view li \<le> mv_nblocks view * (64 * cg_liveness_words view)"
proof -
  assume ok: "rows_ok view li"
  have "card (row_sets li b) \<le> 64 * cg_liveness_words view" if "b < mv_nblocks view" for b
    using card_mono [OF _ bs_elems_bound [of "li ! b"]] row_length [OF ok that] ok that by (simp add: rows_ok_def row_sets_def)
  then have "live_bits view li \<le> (\<Sum>b<mv_nblocks view. 64 * cg_liveness_words view)"
    unfolding live_bits_def by (intro sum_mono) simp
  then show ?thesis by simp
qed

lemma live_bits_grow:
  assumes "\<And>c. row_sets li c \<subseteq> row_sets li' c" "b < mv_nblocks view" "row_sets li b \<noteq> row_sets li' b"
  shows "live_bits view li < live_bits view li'"
  unfolding live_bits_def
proof (rule sum_strict_mono_ex1)
  note fin = finite_row_sets [of li']
  show "\<forall>c\<in>{..<mv_nblocks view}. card (row_sets li c) \<le> card (row_sets li' c)" using assms(1) fin card_mono by blast
  show "\<exists>c\<in>{..<mv_nblocks view}. card (row_sets li c) < card (row_sets li' c)"
    using assms psubset_card_mono [OF fin, of "row_sets li b" b] by (intro bexI [of _ b]) (simp_all add: psubset_eq)
qed simp

lemma cg_liveness_fixpoint:
  assumes ok: "view_ok view" and inv: "live_inv view li lo"
  shows "\<exists>li' lo'. cg_liveness view li lo = Some (Inr (li', lo')) \<and> live_inv view li' lo'
    \<and> (\<forall>c<mv_nblocks view. flow view (row_sets li') c 0 = row_sets li' c \<and> branch_set view (row_sets li') c \<subseteq> bs_elems (lo' ! c))"
  using inv
proof (induction "mv_nblocks view * (64 * cg_liveness_words view) - live_bits view li" arbitrary: li lo rule: less_induct)
  case less
  from live_sweep_inv [OF ok order_refl less.prems, of False] obtain li' lo' ch' where
    s: "live_sweep view (mv_nblocks view) (li, lo, False) = Inr (li', lo', ch')" "live_inv view li' lo'"
    "\<And>c. row_sets li c \<subseteq> row_sets li' c" "ch' \<longrightarrow> (\<exists>c<mv_nblocks view. row_sets li c \<noteq> row_sets li' c)"
    "\<not> ch' \<longrightarrow> li' = li \<and> (\<forall>c<mv_nblocks view. flow view (row_sets li) c 0 = row_sets li c \<and> branch_set view (row_sets li) c \<subseteq> bs_elems (lo' ! c))"
    by blast
  show ?case
  proof (cases ch')
    case True
    then obtain c where "c < mv_nblocks view" "row_sets li c \<noteq> row_sets li' c" using s(4) by blast
    from live_bits_grow [OF s(3) this] live_bits_bound [of view li'] s(2)
    have "mv_nblocks view * (64 * cg_liveness_words view) - live_bits view li' < mv_nblocks view * (64 * cg_liveness_words view) - live_bits view li"
      unfolding live_inv_def by linarith
    from less.hyps [OF this s(2)] show ?thesis using True s(1) by (subst cg_liveness.simps) simp
  next
    case False
    then have "cg_liveness view li lo = Some (Inr (li', lo'))" using s(1) by (subst cg_liveness.simps) simp
    then show ?thesis using s(2,5) False by blast
  qed
qed

section \<open>Liveness is exact\<close>

abbreviation zero_rows :: "mir_view \<Rightarrow> bitset list" where
  "zero_rows view \<equiv> replicate (mv_nblocks view) (replicate (cg_liveness_words view) 0)"

lemma live_inv_zero: "live_inv view (zero_rows view) (zero_rows view)"
  by (auto simp: live_inv_def rows_ok_def row_sets_def)

lemma cg_liveness_zero:
  assumes ok: "view_ok view"
  obtains li lo where "cg_liveness view (zero_rows view) (zero_rows view) = Some (Inr (li, lo))"
    "rows_ok view li" "rows_ok view lo"
    "\<And>b. b < mv_nblocks view \<Longrightarrow> bs_elems (li ! b) = live_in_set view b"
    "\<And>b. b < mv_nblocks view \<Longrightarrow> bs_elems (lo ! b) = branch_set view (live_in_set view) b"
proof -
  from cg_liveness_fixpoint [OF ok live_inv_zero] obtain li lo where
    f: "cg_liveness view (zero_rows view) (zero_rows view) = Some (Inr (li, lo))" "live_inv view li lo"
    "\<And>c. c < mv_nblocks view \<Longrightarrow> flow view (row_sets li) c 0 = row_sets li c"
    "\<And>c. c < mv_nblocks view \<Longrightarrow> branch_set view (row_sets li) c \<subseteq> bs_elems (lo ! c)" by blast
  have rows: "rows_ok view li" "rows_ok view lo" using f(2) by (simp_all add: live_inv_def)
  have nb: "length li = mv_nblocks view" using rows by (simp add: rows_ok_def)
  have sets: "row_sets li b = live_in_set view b" if "b < mv_nblocks view" for b
  proof
    show "row_sets li b \<subseteq> live_in_set view b" using f(2) by (simp add: live_inv_def)
    show "live_in_set view b \<subseteq> row_sets li b"
      using flow_complete [of view b 0 _ "row_sets li"] ok that f(3) by auto
  qed
  have eq: "branch_set view (row_sets li) b = branch_set view (live_in_set view) b" if "b < mv_nblocks view" for b
  proof -
    have "row_sets li (t - 1) = live_in_set view (t - 1)"
      if "i < mv_block_ninsts view b" "t \<in> set (mv_inst_targets view b i)" for i t
    proof (rule sets)
      have "0 < t \<and> t \<le> mv_nblocks view" using ok that \<open>b < mv_nblocks view\<close> by (auto simp: view_ok_def)
      then show "t - 1 < mv_nblocks view" by linarith
    qed
    then show ?thesis unfolding branch_set_def by (intro SUP_cong refl) auto
  qed
  show thesis
  proof (rule that [OF f(1) rows])
    show "bs_elems (li ! b) = live_in_set view b" if "b < mv_nblocks view" for b
      using sets [OF that] that nb by (simp add: row_sets_def)
    show "bs_elems (lo ! b) = branch_set view (live_in_set view) b" if "b < mv_nblocks view" for b
      using f(2) f(4) [OF that] eq [OF that] that by (auto simp: live_inv_def)
  qed
qed

text \<open>
  C9: the liveness analysis of the backends. On a well-formed view the fixpoint iteration started on
  cleared bit sets returns, and a register is in the live-in set of a block exactly if its value at
  the start of the block may still be read, and in the live-out set exactly if some branch of the
  block leads to a block where it may.
\<close>

theorem cg_liveness_exact:
  assumes "view_ok view"
  shows "\<exists>li lo. cg_liveness view (zero_rows view) (zero_rows view) = Some (Inr (li, lo))
    \<and> (\<forall>b v. b < mv_nblocks view \<and> v \<le> mv_nvregs view \<longrightarrow>
         (bs_get (li ! b) v \<longleftrightarrow> live_at view b 0 v)
         \<and> (bs_get (lo ! b) v \<longleftrightarrow> (\<exists>i<mv_block_ninsts view b. \<exists>t\<in>set (mv_inst_targets view b i). live_at view (t - 1) 0 v)))"
proof (rule cg_liveness_zero [OF assms])
  fix li lo
  assume r: "cg_liveness view (zero_rows view) (zero_rows view) = Some (Inr (li, lo))" "rows_ok view li" "rows_ok view lo"
    "\<And>b. b < mv_nblocks view \<Longrightarrow> bs_elems (li ! b) = live_in_set view b"
    "\<And>b. b < mv_nblocks view \<Longrightarrow> bs_elems (lo ! b) = branch_set view (live_in_set view) b"
  have "bs_get (rows ! b) v \<longleftrightarrow> v \<in> bs_elems (rows ! b)"
    if "rows_ok view rows" "b < mv_nblocks view" "v \<le> mv_nvregs view" for rows b v
    using row_length [OF that(1,2)] vreg_word [OF that(3)] by (simp add: bs_get_elems)
  then show ?thesis using r by (auto simp: branch_set_def)
qed

text \<open>A loop: block 0 defines register 1 and falls into block 1, which reads it and branches back to itself.\<close>

definition loop_view :: mir_view where
  "loop_view = \<lparr>mv_nvregs = 1, mv_nblocks = 2, mv_max_uses = 1, mv_block_ninsts = (\<lambda>_. 1),
     mv_inst_def = (\<lambda>b _. if b = 0 then 1 else 0), mv_inst_uses = (\<lambda>b _. if b = 1 then [1] else []),
     mv_inst_targets = (\<lambda>_ _. [2]), mv_clobbers_call = None\<rparr>"

lemma loop_view_ok: "view_ok loop_view"
  by (auto simp: view_ok_def loop_view_def)

theorem cg_liveness_exact_witness:
  "\<exists>li lo. cg_liveness loop_view (zero_rows loop_view) (zero_rows loop_view) = Some (Inr (li, lo))
    \<and> bs_get (li ! 1) 1 \<and> bs_get (lo ! 0) 1"
proof -
  have "live_at loop_view 1 0 1" by (rule live_use) (simp_all add: loop_view_def)
  then have b: "live_at loop_view 1 0 1" "\<exists>i<mv_block_ninsts loop_view 0. \<exists>t\<in>set (mv_inst_targets loop_view 0 i). live_at loop_view (t - 1) 0 1"
    by (simp_all add: loop_view_def)
  obtain li lo where l: "cg_liveness loop_view (zero_rows loop_view) (zero_rows loop_view) = Some (Inr (li, lo))"
    "\<forall>b v. b < mv_nblocks loop_view \<and> v \<le> mv_nvregs loop_view \<longrightarrow>
         (bs_get (li ! b) v \<longleftrightarrow> live_at loop_view b 0 v)
         \<and> (bs_get (lo ! b) v \<longleftrightarrow> (\<exists>i<mv_block_ninsts loop_view b. \<exists>t\<in>set (mv_inst_targets loop_view b i). live_at loop_view (t - 1) 0 v))"
    using cg_liveness_exact [OF loop_view_ok] by blast
  have "bs_get (li ! 1) 1 \<and> bs_get (lo ! 0) 1"
    using l(2) [rule_format, of 1 1] l(2) [rule_format, of 0 1] b by (simp add: loop_view_def)
  with l(1) show ?thesis by blast
qed

end
