(* ===== verification/Cg_Intervals.thy ===== *)
theory Cg_Intervals
  imports Cg_Live
begin

text \<open>
  src/src/cg/shared.c: live intervals and call crossings. Instruction points are natural numbers (the
  code has 32 bits, more than the instructions of a function); a register's interval is the entry of
  the array under its number.
\<close>

section \<open>Intervals\<close>

record cg_interval =
  iv_vreg :: nat
  iv_start :: nat
  iv_end :: nat
  iv_live :: bool
  iv_live_across_call :: bool
  iv_no_spill :: bool
  iv_fixed :: u8
  iv_phys :: u8
  iv_slot :: u32

definition iv_cleared :: cg_interval where
  "iv_cleared = \<lparr>iv_vreg = 0, iv_start = 0, iv_end = 0, iv_live = False, iv_live_across_call = False,
     iv_no_spill = False, iv_fixed = 0, iv_phys = 0, iv_slot = 0\<rparr>"

definition interval_extend :: "cg_interval list \<Rightarrow> nat \<Rightarrow> nat \<Rightarrow> cg_interval list" where
  "interval_extend ivs vreg point =
     (let it = ivs ! vreg in
      ivs[vreg := (if \<not> iv_live it then it\<lparr>iv_live := True, iv_vreg := vreg, iv_start := point, iv_end := point\<rparr>
                   else it\<lparr>iv_start := (if point < iv_start it then point else iv_start it),
                           iv_end := (if point > iv_end it then point else iv_end it)\<rparr>)])"

text \<open>Call crossings: the same backward walk as liveness, with its own messages.\<close>

fun cross_targets :: "mir_view \<Rightarrow> bitset list \<Rightarrow> nat list \<Rightarrow> bitset \<Rightarrow> bitset outcome" where
  "cross_targets view live_in [] tmp = Inr tmp"
| "cross_targets view live_in (t # ts) tmp =
     (if t = 0 \<or> t > mv_nblocks view then Inl (ICE ''call crossings: invalid block target'')
      else cross_targets view live_in ts (bs_or tmp (live_in ! (t - 1))))"

fun cross_uses :: "mir_view \<Rightarrow> nat list \<Rightarrow> bitset \<Rightarrow> bitset outcome" where
  "cross_uses view [] tmp = Inr tmp"
| "cross_uses view (u # us) tmp =
     (if u > mv_nvregs view then Inl (ICE ''call crossings: invalid vreg'')
      else cross_uses view us (if u \<noteq> 0 then bs_set tmp u else tmp))"

definition mark_across :: "mir_view \<Rightarrow> bitset \<Rightarrow> cg_interval list \<Rightarrow> cg_interval list" where
  "mark_across view tmp ivs =
     fold (\<lambda>v ivs. if bs_get tmp v then ivs[v := (ivs ! v)\<lparr>iv_live_across_call := True\<rparr>] else ivs)
       [1..<mv_nvregs view + 1] ivs"

definition cross_inst ::
  "mir_view \<Rightarrow> (nat \<Rightarrow> nat \<Rightarrow> bool) \<Rightarrow> bitset list \<Rightarrow> nat \<Rightarrow> nat \<Rightarrow> bitset \<times> cg_interval list \<Rightarrow> (bitset \<times> cg_interval list) outcome" where
  "cross_inst view clobbers live_in bi ii s =
     bind_outcome (cross_targets view live_in (mv_inst_targets view bi ii) (fst s)) (\<lambda>tmp.
       let d = mv_inst_def view bi ii in
       if d > mv_nvregs view then Inl (ICE ''call crossings: invalid vreg'')
       else
         (let tmp1 = (if clobbers bi ii \<and> d \<noteq> 0 then bs_clear tmp d else tmp);
              ivs = (if clobbers bi ii then mark_across view tmp1 (snd s) else snd s);
              tmp2 = (if d \<noteq> 0 then bs_clear tmp1 d else tmp1);
              us = mv_inst_uses view bi ii in
          if length us > mv_max_uses view then Inl (ICE ''call crossings: MIR view use capacity exceeded'')
          else bind_outcome (cross_uses view us tmp2) (\<lambda>tmp3. Inr (tmp3, ivs))))"

primrec cross_insts ::
  "mir_view \<Rightarrow> (nat \<Rightarrow> nat \<Rightarrow> bool) \<Rightarrow> bitset list \<Rightarrow> nat \<Rightarrow> nat \<Rightarrow> bitset \<times> cg_interval list \<Rightarrow> (bitset \<times> cg_interval list) outcome" where
  "cross_insts view clobbers live_in bi 0 s = Inr s"
| "cross_insts view clobbers live_in bi (Suc n) s =
     bind_outcome (cross_inst view clobbers live_in bi n s) (cross_insts view clobbers live_in bi n)"

primrec cross_blocks ::
  "mir_view \<Rightarrow> (nat \<Rightarrow> nat \<Rightarrow> bool) \<Rightarrow> bitset list \<Rightarrow> nat \<Rightarrow> cg_interval list \<Rightarrow> cg_interval list outcome" where
  "cross_blocks view clobbers live_in 0 ivs = Inr ivs"
| "cross_blocks view clobbers live_in (Suc bi) ivs =
     bind_outcome (cross_insts view clobbers live_in bi (mv_block_ninsts view bi)
       (replicate (cg_liveness_words view) 0, ivs)) (\<lambda>(_, ivs'). cross_blocks view clobbers live_in bi ivs')"

definition mark_call_crossings :: "mir_view \<Rightarrow> bitset list \<Rightarrow> cg_interval list \<Rightarrow> cg_interval list outcome" where
  "mark_call_crossings view live_in ivs =
     (case mv_clobbers_call view of
        None \<Rightarrow> Inr ivs
      | Some clobbers \<Rightarrow> cross_blocks view clobbers live_in (mv_nblocks view) ivs)"

text \<open>The registers live into and out of a block extend to its first and last point.\<close>

definition extend_block_edges :: "mir_view \<Rightarrow> bitset \<Rightarrow> bitset \<Rightarrow> nat \<Rightarrow> nat \<Rightarrow> cg_interval list \<Rightarrow> cg_interval list" where
  "extend_block_edges view row_in row_out start fin ivs =
     fold (\<lambda>v ivs.
        let ivs1 = (if bs_get row_in v then interval_extend ivs v start else ivs)
        in if bs_get row_out v then interval_extend ivs1 v fin else ivs1)
       [1..<mv_nvregs view + 1] ivs"

fun extend_uses :: "mir_view \<Rightarrow> nat \<Rightarrow> nat list \<Rightarrow> cg_interval list \<Rightarrow> cg_interval list outcome" where
  "extend_uses view point [] ivs = Inr ivs"
| "extend_uses view point (u # us) ivs =
     (if u > mv_nvregs view then Inl (ICE ''intervals: invalid vreg'')
      else extend_uses view point us (if u \<noteq> 0 then interval_extend ivs u point else ivs))"

text \<open>The instructions of a block in order: instruction \<open>i\<close> at point \<open>start + i\<close>, \<open>n\<close> left.\<close>

primrec extend_insts :: "mir_view \<Rightarrow> nat \<Rightarrow> nat \<Rightarrow> nat \<Rightarrow> nat \<Rightarrow> cg_interval list \<Rightarrow> cg_interval list outcome" where
  "extend_insts view bi start 0 i ivs = Inr ivs"
| "extend_insts view bi start (Suc n) i ivs =
     (let d = mv_inst_def view bi i; us = mv_inst_uses view bi i in
      if d > mv_nvregs view then Inl (ICE ''intervals: invalid vreg'')
      else
        (let ivs1 = (if d \<noteq> 0 then interval_extend ivs d (start + i) else ivs) in
         if length us > mv_max_uses view then Inl (ICE ''intervals: MIR view use capacity exceeded'')
         else bind_outcome (extend_uses view (start + i) us ivs1) (extend_insts view bi start n (i + 1))))"

primrec extend_blocks ::
  "mir_view \<Rightarrow> bitset list \<Rightarrow> bitset list \<Rightarrow> nat \<Rightarrow> nat \<Rightarrow> nat \<Rightarrow> cg_interval list \<Rightarrow> cg_interval list outcome" where
  "extend_blocks view live_in live_out 0 bi point ivs = Inr ivs"
| "extend_blocks view live_in live_out (Suc n) bi point ivs =
     (let ninsts = mv_block_ninsts view bi;
          fin = point + (if ninsts \<noteq> 0 then ninsts - 1 else 0);
          ivs1 = extend_block_edges view (live_in ! bi) (live_out ! bi) point fin ivs
      in bind_outcome (extend_insts view bi point ninsts 0 ivs1)
           (extend_blocks view live_in live_out n (bi + 1) (fin + 1)))"

definition cg_intervals_build ::
  "mir_view \<Rightarrow> bitset list \<Rightarrow> bitset list \<Rightarrow> (bitset list \<times> bitset list \<times> cg_interval list) outcome" where
  "cg_intervals_build view live_in live_out =
     bind_outcome (case cg_liveness view live_in live_out of None \<Rightarrow> Inl No_Return | Some r \<Rightarrow> r) (\<lambda>(li, lo).
     bind_outcome (extend_blocks view li lo (mv_nblocks view) 0 0 (replicate (mv_nvregs view + 1) iv_cleared)) (\<lambda>ivs.
     bind_outcome (mark_call_crossings view li ivs) (\<lambda>ivs'. Inr (li, lo, ivs'))))"

section \<open>Intervals are spans of points\<close>

text \<open>The interval of a register that has been extended to a set of points, and the array of all.\<close>

definition span_iv :: "nat \<Rightarrow> nat set \<Rightarrow> cg_interval" where
  "span_iv v P = (if P = {} then iv_cleared
     else iv_cleared\<lparr>iv_live := True, iv_vreg := v, iv_start := Min P, iv_end := Max P\<rparr>)"

definition spans :: "nat \<Rightarrow> (nat \<Rightarrow> nat set) \<Rightarrow> cg_interval list" where
  "spans n P = map (\<lambda>v. span_iv v (P v)) [0..<n + 1]"

lemma spans_nth [simp]: "v \<le> n \<Longrightarrow> spans n P ! v = span_iv v (P v)"
  by (simp add: spans_def nth_append del: upt_Suc)

lemma length_spans [simp]: "length (spans n P) = n + 1"
  by (simp add: spans_def)

lemma spans_cong: "(\<And>v. v \<le> n \<Longrightarrow> P v = Q v) \<Longrightarrow> spans n P = spans n Q"
  by (simp add: spans_def)

lemma min_if: "(if p < m then p else m) = min p (m :: nat)"
  by (simp add: min_def)

lemma max_if: "(if m < p then p else m) = max p (m :: nat)"
  by (simp add: max_def)

lemma interval_extend_spans:
  assumes "v \<le> n" "finite (P v)"
  shows "interval_extend (spans n P) v p = spans n (P(v := insert p (P v)))"
proof (rule nth_equalityI)
  fix w
  assume "w < length (interval_extend (spans n P) v p)"
  then have "w \<le> n" by (simp add: interval_extend_def Let_def)
  then show "interval_extend (spans n P) v p ! w = spans n (P(v := insert p (P v))) ! w"
    using assms by (cases "w = v"; cases "P v = {}") (simp_all add: interval_extend_def Let_def span_iv_def iv_cleared_def min_if max_if del: Min_gr_iff Max_less_iff)
qed (simp add: interval_extend_def Let_def)

lemma fold_edges_spans:
  assumes "\<And>v. finite (P v)" "set vs \<subseteq> {..n}"
  shows "fold (\<lambda>v ivs. let ivs1 = (if a v then interval_extend ivs v s else ivs)
        in if b v then interval_extend ivs1 v f else ivs1) vs (spans n P)
      = spans n (\<lambda>v. P v \<union> (if v \<in> set vs \<and> a v then {s} else {}) \<union> (if v \<in> set vs \<and> b v then {f} else {}))"
  using assms
proof (induction vs arbitrary: P)
  case (Cons v vs)
  define Q where "Q = P(v := P v \<union> (if a v then {s} else {}) \<union> (if b v then {f} else {}))"
  define body where "body = (\<lambda>v ivs. let ivs1 = (if a v then interval_extend ivs v s else ivs)
        in if b v then interval_extend ivs1 v f else ivs1)"
  have "body v (spans n P) = spans n Q"
    using Cons.prems by (auto simp: body_def Q_def interval_extend_spans insert_commute)
  moreover have "finite (Q w)" for w using Cons.prems(1) by (simp add: Q_def)
  ultimately have "fold body (v # vs) (spans n P)
      = spans n (\<lambda>v. Q v \<union> (if v \<in> set vs \<and> a v then {s} else {}) \<union> (if v \<in> set vs \<and> b v then {f} else {}))"
    using Cons.IH [of Q] Cons.prems(2) by (simp add: body_def)
  also have "\<dots> = spans n (\<lambda>w. P w \<union> (if w \<in> set (v # vs) \<and> a w then {s} else {}) \<union> (if w \<in> set (v # vs) \<and> b w then {f} else {}))"
    by (rule spans_cong) (auto simp: Q_def)
  finally show ?case by (simp only: body_def)
qed simp

lemma extend_block_edges_spans:
  assumes "\<And>v. finite (P v)"
  shows "extend_block_edges view row_in row_out s f (spans (mv_nvregs view) P) = spans (mv_nvregs view) (\<lambda>v. P v
      \<union> (if v \<noteq> 0 \<and> bs_get row_in v then {s} else {}) \<union> (if v \<noteq> 0 \<and> bs_get row_out v then {f} else {}))"
proof -
  have "v \<in> set [1..<mv_nvregs view + 1] \<longleftrightarrow> v \<noteq> 0" if "v \<le> mv_nvregs view" for v using that by auto
  moreover have "set [1..<mv_nvregs view + 1] \<subseteq> {..mv_nvregs view}" by auto
  ultimately show ?thesis
    unfolding extend_block_edges_def by (simp only: fold_edges_spans [OF assms]) (intro spans_cong, simp only: )
qed

lemma extend_uses_spans:
  assumes "\<And>v. finite (P v)" "\<forall>u\<in>set us. u \<le> mv_nvregs view"
  shows "extend_uses view p us (spans (mv_nvregs view) P)
    = Inr (spans (mv_nvregs view) (\<lambda>v. P v \<union> (if v \<noteq> 0 \<and> v \<in> set us then {p} else {})))"
  using assms
proof (induction us arbitrary: P)
  case (Cons u us)
  define Q where "Q = P(u := P u \<union> (if u \<noteq> 0 then {p} else {}))"
  have "(if u \<noteq> 0 then interval_extend (spans (mv_nvregs view) P) u p else spans (mv_nvregs view) P) = spans (mv_nvregs view) Q"
    using Cons.prems by (simp add: interval_extend_spans Q_def)
  moreover have "finite (Q w)" for w using Cons.prems(1) by (simp add: Q_def)
  ultimately have "extend_uses view p (u # us) (spans (mv_nvregs view) P)
      = Inr (spans (mv_nvregs view) (\<lambda>v. Q v \<union> (if v \<noteq> 0 \<and> v \<in> set us then {p} else {})))"
    using Cons.IH [of Q] Cons.prems(2) by simp
  also have "(\<lambda>v. Q v \<union> (if v \<noteq> 0 \<and> v \<in> set us then {p} else {})) = (\<lambda>v. P v \<union> (if v \<noteq> 0 \<and> v \<in> set (u # us) then {p} else {}))"
    by (rule ext) (auto simp: Q_def)
  finally show ?case .
qed simp

text \<open>The points at which the instructions of a block mention a register.\<close>

definition mentions :: "mir_view \<Rightarrow> nat \<Rightarrow> nat \<Rightarrow> nat \<Rightarrow> bool" where
  "mentions view b i v \<longleftrightarrow> v \<noteq> 0 \<and> (v = mv_inst_def view b i \<or> v \<in> set (mv_inst_uses view b i))"

lemma view_inst_ok:
  assumes "view_ok view" "b < mv_nblocks view" "i < mv_block_ninsts view b"
  shows "mv_inst_def view b i \<le> mv_nvregs view" "length (mv_inst_uses view b i) \<le> mv_max_uses view"
    "\<forall>u\<in>set (mv_inst_uses view b i). u \<le> mv_nvregs view"
    "\<forall>t\<in>set (mv_inst_targets view b i). 0 < t \<and> t \<le> mv_nblocks view"
  using assms unfolding view_ok_def by blast+

lemma extend_insts_spans:
  assumes "\<And>v. finite (P v)" "view_ok view" "b < mv_nblocks view" "i + n \<le> mv_block_ninsts view b"
  shows "extend_insts view b s n i (spans (mv_nvregs view) P)
    = Inr (spans (mv_nvregs view) (\<lambda>v. P v \<union> {s + j | j. i \<le> j \<and> j < i + n \<and> mentions view b j v}))"
  using assms(1,4)
proof (induction n arbitrary: i P)
  case (Suc n)
  let ?N = "mv_nvregs view" and ?d = "mv_inst_def view b i" and ?us = "mv_inst_uses view b i"
  have ok: "?d \<le> ?N" "length ?us \<le> mv_max_uses view" "\<forall>u\<in>set ?us. u \<le> ?N"
    using assms(2,3) view_inst_ok [of view b i] Suc.prems(2) by simp_all
  let ?Q = "P(?d := P ?d \<union> (if ?d \<noteq> 0 then {s + i} else {}))"
  let ?R = "\<lambda>v. P v \<union> (if mentions view b i v then {s + i} else {})"
  have "(if ?d \<noteq> 0 then interval_extend (spans ?N P) ?d (s + i) else spans ?N P) = spans ?N ?Q"
    using Suc.prems(1) ok by (simp add: interval_extend_spans)
  moreover have "extend_uses view (s + i) ?us (spans ?N ?Q) = Inr (spans ?N ?R)"
    using Suc.prems(1) ok(3) by (subst extend_uses_spans) (auto simp: mentions_def split: if_splits intro!: spans_cong)
  ultimately have "extend_insts view b s (Suc n) i (spans ?N P) = extend_insts view b s n (i + 1) (spans ?N ?R)"
    using ok(1,2) by (simp add: Let_def)
  also have "\<dots> = Inr (spans ?N (\<lambda>v. ?R v \<union> {s + j | j. i + 1 \<le> j \<and> j < i + 1 + n \<and> mentions view b j v}))"
    using Suc.prems by (subst Suc.IH) auto
  also have "(\<lambda>v. ?R v \<union> {s + j | j. i + 1 \<le> j \<and> j < i + 1 + n \<and> mentions view b j v})
      = (\<lambda>v. P v \<union> {s + j | j. i \<le> j \<and> j < i + Suc n \<and> mentions view b j v})"
    by (rule ext) (auto simp: Suc_le_eq le_eq_less_or_eq)
  finally show ?case .
qed (auto intro!: spans_cong)

text \<open>The points of the code: a block without instructions still takes one.\<close>

primrec block_start :: "mir_view \<Rightarrow> nat \<Rightarrow> nat" where
  "block_start view 0 = 0"
| "block_start view (Suc b) = block_start view b + (mv_block_ninsts view b - 1) + 1"

definition block_last :: "mir_view \<Rightarrow> nat \<Rightarrow> nat" where
  "block_last view b = block_start view b + (mv_block_ninsts view b - 1)"

text \<open>
  The points of block \<open>b\<close> that a register touches: the first if it is live into the block, the last
  if it is live out of it, and the instructions that mention it.
\<close>

definition touched :: "mir_view \<Rightarrow> nat \<Rightarrow> nat \<Rightarrow> nat set" where
  "touched view b v = (if v \<in> live_in_set view b then {block_start view b} else {})
     \<union> (if v \<in> branch_set view (live_in_set view) b then {block_last view b} else {})
     \<union> {block_start view b + i | i. i < mv_block_ninsts view b \<and> mentions view b i v}"

definition all_touched :: "mir_view \<Rightarrow> nat \<Rightarrow> nat set" where
  "all_touched view v = (\<Union>b<mv_nblocks view. touched view b v)"

lemma finite_touched: "finite (touched view b v)"
proof -
  have "{block_start view b + i | i. i < mv_block_ninsts view b \<and> mentions view b i v}
      \<subseteq> (\<lambda>i. block_start view b + i) ` {..<mv_block_ninsts view b}" by auto
  then have "finite {block_start view b + i | i. i < mv_block_ninsts view b \<and> mentions view b i v}"
    by (rule finite_subset) simp
  then show ?thesis by (simp add: touched_def)
qed

lemma finite_all_touched: "finite (all_touched view v)"
  by (simp add: all_touched_def finite_touched)

lemma live_in_set_nonzero: "v \<in> live_in_set view b \<Longrightarrow> v \<noteq> 0"
  using live_at_nonzero by auto

lemma branch_set_nonzero: "v \<in> branch_set view (live_in_set view) b \<Longrightarrow> v \<noteq> 0"
  using live_at_nonzero by (auto simp: branch_set_def)

lemma atLeastLessThan_insert_first: "{b..<b + Suc n} = insert b {b + 1..<b + 1 + n}"
  by auto

lemma extend_blocks_spans:
  assumes "\<And>v. finite (P v)" and ok: "view_ok view" and "b + n \<le> mv_nblocks view" and rows: "rows_ok view li" "rows_ok view lo"
    and sets: "\<And>b. b < mv_nblocks view \<Longrightarrow> bs_elems (li ! b) = live_in_set view b"
      "\<And>b. b < mv_nblocks view \<Longrightarrow> bs_elems (lo ! b) = branch_set view (live_in_set view) b"
  shows "extend_blocks view li lo n b (block_start view b) (spans (mv_nvregs view) P)
    = Inr (spans (mv_nvregs view) (\<lambda>v. P v \<union> (\<Union>c\<in>{b..<b + n}. touched view c v)))"
  using assms(1,3)
proof (induction n arbitrary: b P)
  case (Suc n)
  let ?N = "mv_nvregs view"
  have b: "b < mv_nblocks view" using Suc.prems(2) by simp
  define Q where "Q v = P v \<union> (if v \<in> live_in_set view b then {block_start view b} else {})
     \<union> (if v \<in> branch_set view (live_in_set view) b then {block_last view b} else {})" for v
  have finQ: "finite (Q v)" for v using Suc.prems(1) by (simp add: Q_def)
  have mem: "bs_get (li ! b) v \<longleftrightarrow> v \<in> live_in_set view b"
    "bs_get (lo ! b) v \<longleftrightarrow> v \<in> branch_set view (live_in_set view) b" if "v \<le> ?N" for v
    using that sets [OF b] row_length [OF rows(1) b] row_length [OF rows(2) b] vreg_word [OF that] by (simp_all add: bs_get_elems)
  have last: "block_start view b + (if mv_block_ninsts view b \<noteq> 0 then mv_block_ninsts view b - 1 else 0) = block_last view b"
    by (simp add: block_last_def)
  have edges: "extend_block_edges view (li ! b) (lo ! b) (block_start view b) (block_last view b) (spans ?N P) = spans ?N Q"
    unfolding extend_block_edges_spans [OF Suc.prems(1)]
    by (rule spans_cong) (auto simp: mem Q_def dest: live_at_nonzero branch_set_nonzero)
  have "extend_insts view b (block_start view b) (mv_block_ninsts view b) 0 (spans ?N Q)
      = Inr (spans ?N (\<lambda>v. P v \<union> touched view b v))"
  proof -
    have "(\<lambda>v. Q v \<union> {block_start view b + j | j. 0 \<le> j \<and> j < 0 + mv_block_ninsts view b \<and> mentions view b j v})
        = (\<lambda>v. P v \<union> touched view b v)" by (simp add: Q_def touched_def Un_assoc fun_eq_iff)
    then show ?thesis using extend_insts_spans [where P = Q, OF finQ ok b, of 0 "mv_block_ninsts view b"] by simp
  qed
  then have "extend_blocks view li lo (Suc n) b (block_start view b) (spans ?N P)
      = extend_blocks view li lo n (b + 1) (block_start view (b + 1)) (spans ?N (\<lambda>v. P v \<union> touched view b v))"
    unfolding extend_blocks.simps Let_def last edges by (simp add: block_last_def)
  also have "\<dots> = Inr (spans ?N (\<lambda>v. (P v \<union> touched view b v) \<union> (\<Union>c\<in>{b + 1..<b + 1 + n}. touched view c v)))"
    using Suc.prems by (intro Suc.IH) (simp_all add: finite_touched)
  also have "(\<lambda>v. (P v \<union> touched view b v) \<union> (\<Union>c\<in>{b + 1..<b + 1 + n}. touched view c v))
      = (\<lambda>v. P v \<union> (\<Union>c\<in>{b..<b + Suc n}. touched view c v))"
    using atLeastLessThan_insert_first [of b n] by (simp add: Un_assoc)
  finally show ?case .
qed simp

section \<open>Call crossings\<close>

text \<open>What is live after an instruction, less what it defines: the values that cross it.\<close>

definition crossing :: "mir_view \<Rightarrow> (nat \<Rightarrow> nat set) \<Rightarrow> nat \<Rightarrow> nat \<Rightarrow> nat set" where
  "crossing view L b i =
     (flow view L b (i + 1) \<union> (\<Union>t\<in>set (mv_inst_targets view b i). L (t - 1))) - ({mv_inst_def view b i} - {0})"

definition mark_set :: "nat set \<Rightarrow> cg_interval list \<Rightarrow> cg_interval list" where
  "mark_set A ivs = map (\<lambda>v. if v \<in> A then (ivs ! v)\<lparr>iv_live_across_call := True\<rparr> else ivs ! v) [0..<length ivs]"

lemma length_mark_set [simp]: "length (mark_set A ivs) = length ivs"
  by (simp add: mark_set_def)

lemma mark_set_nth [simp]:
  "v < length ivs \<Longrightarrow> mark_set A ivs ! v = (if v \<in> A then (ivs ! v)\<lparr>iv_live_across_call := True\<rparr> else ivs ! v)"
  by (simp add: mark_set_def)

lemma mark_set_empty [simp]: "mark_set {} ivs = ivs"
  by (simp add: mark_set_def map_nth)

lemma mark_set_Un: "mark_set A (mark_set B ivs) = mark_set (A \<union> B) ivs"
  by (rule nth_equalityI) auto

lemma fold_mark_set:
  assumes "set vs \<subseteq> {..<length ivs}"
  shows "fold (\<lambda>v ivs. if a v then ivs[v := (ivs ! v)\<lparr>iv_live_across_call := True\<rparr>] else ivs) vs ivs
    = mark_set {v \<in> set vs. a v} ivs"
  using assms
proof (induction vs arbitrary: ivs)
  case (Cons v vs)
  have "(if a v then ivs[v := (ivs ! v)\<lparr>iv_live_across_call := True\<rparr>] else ivs) = mark_set (if a v then {v} else {}) ivs"
    using Cons.prems by (intro nth_equalityI) (auto simp: nth_list_update)
  moreover have "{v \<in> set vs. a v} \<union> (if a v then {v} else {}) = {w \<in> set (v # vs). a w}" by auto
  ultimately show ?case using Cons.IH [of "mark_set (if a v then {v} else {}) ivs"] Cons.prems by (simp add: mark_set_Un)
qed simp

lemma mark_across_set:
  assumes "length ivs = mv_nvregs view + 1" "length tmp = cg_liveness_words view" "0 \<notin> bs_elems tmp"
  shows "mark_across view tmp ivs = mark_set (bs_elems tmp) ivs"
proof -
  have "mark_across view tmp ivs = mark_set {v \<in> set [1..<mv_nvregs view + 1]. bs_get tmp v} ivs"
    unfolding mark_across_def by (rule fold_mark_set) (auto simp: assms(1))
  also have "\<dots> = mark_set (bs_elems tmp) ivs"
  proof (rule nth_equalityI)
    fix v
    assume "v < length (mark_set {v \<in> set [1..<mv_nvregs view + 1]. bs_get tmp v} ivs)"
    then have v: "v < length ivs" "v \<le> mv_nvregs view" using assms(1) by simp_all
    have "bs_get tmp v \<longleftrightarrow> v \<in> bs_elems tmp" using vreg_word [OF v(2)] assms(2) by (simp add: bs_get_elems)
    moreover have "v \<in> set [1..<mv_nvregs view + 1] \<longleftrightarrow> v \<noteq> 0" using v(2) by auto
    ultimately have "v \<in> {v \<in> set [1..<mv_nvregs view + 1]. bs_get tmp v} \<longleftrightarrow> v \<in> bs_elems tmp"
      using assms(3) by (metis (no_types, lifting) mem_Collect_eq)
    then show "mark_set {v \<in> set [1..<mv_nvregs view + 1]. bs_get tmp v} ivs ! v = mark_set (bs_elems tmp) ivs ! v"
      using v(1) by (simp only: mark_set_nth)
  qed simp
  finally show ?thesis .
qed

lemma cross_targets_live:
  "cross_targets view live_in ts tmp = (case live_targets view live_in ts tmp out of
     Inl e \<Rightarrow> Inl (ICE ''call crossings: invalid block target'') | Inr r \<Rightarrow> Inr (fst r))"
  by (induction view live_in ts tmp out rule: live_targets.induct) simp_all

lemma cross_uses_live:
  "cross_uses view us tmp = (case live_uses view us tmp of Inl e \<Rightarrow> Inl (ICE ''call crossings: invalid vreg'') | Inr r \<Rightarrow> Inr r)"
  by (induction view us tmp rule: live_uses.induct) simp_all

lemma bs_clear_idem:
  assumes "v div 64 < length ws"
  shows "bs_clear (bs_clear ws v) v = bs_clear ws v"
  by (rule bs_elems_inj) (auto simp: bs_clear_elems assms)

lemma cross_inst_sets:
  assumes ok: "view_ok view" "b < mv_nblocks view" "i < mv_block_ninsts view b" and rows: "rows_ok view li"
    and zero: "\<And>c. 0 \<notin> row_sets li c"
    and len: "length tmp = cg_liveness_words view" "length ivs = mv_nvregs view + 1"
    and tmp: "bs_elems tmp = flow view (row_sets li) b (i + 1)" "0 \<notin> bs_elems tmp"
  shows "\<exists>tmp'. cross_inst view clobbers li b i (tmp, ivs)
      = Inr (tmp', mark_set (if clobbers b i then crossing view (row_sets li) b i else {}) ivs)
    \<and> length tmp' = cg_liveness_words view \<and> bs_elems tmp' = flow view (row_sets li) b i \<and> 0 \<notin> bs_elems tmp'"
proof -
  let ?d = "mv_inst_def view b i" and ?us = "mv_inst_uses view b i" and ?ts = "mv_inst_targets view b i"
  note v = view_inst_ok [OF ok]
  from live_targets_sets [OF rows len(1) len(1) v(4)] obtain tmp1 out1 where
    1: "live_targets view li ?ts tmp tmp = Inr (tmp1, out1)" "length tmp1 = cg_liveness_words view"
      "bs_elems tmp1 = bs_elems tmp \<union> (\<Union>t\<in>set ?ts. row_sets li (t - 1))" by blast
  define tmp2 where "tmp2 = (if ?d \<noteq> 0 then bs_clear tmp1 ?d else tmp1)"
  have d: "?d div 64 < length tmp1" using vreg_word [OF v(1)] 1(2) by simp
  have 2: "length tmp2 = cg_liveness_words view" "bs_elems tmp2 = crossing view (row_sets li) b i" "0 \<notin> bs_elems tmp2"
    using 1(2,3) tmp zero by (auto simp: tmp2_def bs_clear_elems [OF d] crossing_def)
  from live_uses_sets [OF 2(1) v(3)] obtain tmp3 where
    3: "live_uses view ?us tmp2 = Inr tmp3" "length tmp3 = cg_liveness_words view" "bs_elems tmp3 = bs_elems tmp2 \<union> (set ?us - {0})"
    by blast
  have "bs_elems tmp3 = flow view (row_sets li) b i"
    using 3(3) 2(2) by (simp add: flow_unfold [OF ok(3)] step_set_def crossing_def)
  moreover have "cross_inst view clobbers li b i (tmp, ivs)
      = Inr (tmp3, mark_set (if clobbers b i then crossing view (row_sets li) b i else {}) ivs)"
  proof -
    have 4: "cross_targets view li ?ts tmp = Inr tmp1" using cross_targets_live [of view li ?ts tmp tmp] 1(1) by simp
    have 5: "cross_uses view ?us tmp2 = Inr tmp3" using cross_uses_live [of view ?us tmp2] 3(1) by simp
    have 6: "mark_across view tmp2 ivs = mark_set (crossing view (row_sets li) b i) ivs"
      using mark_across_set [OF len(2) 2(1,3)] 2(2) by simp
    show ?thesis
    proof (cases "?d = 0")
      case True
      then have "tmp2 = tmp1" by (simp add: tmp2_def)
      then show ?thesis using v(1,2) 4 5 6 True by (simp add: cross_inst_def Let_def)
    next
      case False
      then have "tmp2 = bs_clear tmp1 ?d" "bs_clear tmp2 ?d = tmp2" by (simp_all add: tmp2_def bs_clear_idem [OF d])
      then show ?thesis using v(1,2) 4 5 6 False by (simp add: cross_inst_def Let_def)
    qed
  qed
  ultimately show ?thesis using 3(2,3) 2(3) by auto
qed

lemma cross_insts_sets:
  assumes ok: "view_ok view" "b < mv_nblocks view" and rows: "rows_ok view li" and zero: "\<And>c. 0 \<notin> row_sets li c"
    and "length tmp = cg_liveness_words view" "length ivs = mv_nvregs view + 1" "n \<le> mv_block_ninsts view b"
      "bs_elems tmp = flow view (row_sets li) b n" "0 \<notin> bs_elems tmp"
  shows "\<exists>tmp'. cross_insts view clobbers li b n (tmp, ivs)
      = Inr (tmp', mark_set (\<Union>i\<in>{i. i < n \<and> clobbers b i}. crossing view (row_sets li) b i) ivs)"
  using assms(5-)
proof (induction n arbitrary: tmp ivs)
  case (Suc n)
  have n: "n < mv_block_ninsts view b" using Suc.prems by simp
  from cross_inst_sets [OF ok n rows zero Suc.prems(1,2) _ Suc.prems(5), of clobbers] Suc.prems(4) obtain tmp1 where
    1: "cross_inst view clobbers li b n (tmp, ivs)
      = Inr (tmp1, mark_set (if clobbers b n then crossing view (row_sets li) b n else {}) ivs)"
      "length tmp1 = cg_liveness_words view" "bs_elems tmp1 = flow view (row_sets li) b n" "0 \<notin> bs_elems tmp1" by auto
  have "(\<Union>i\<in>{i. i < n \<and> clobbers b i}. crossing view (row_sets li) b i) \<union> (if clobbers b n then crossing view (row_sets li) b n else {})
      = (\<Union>i\<in>{i. i < Suc n \<and> clobbers b i}. crossing view (row_sets li) b i)" by (auto simp: less_Suc_eq split: if_splits)
  then show ?case
    using Suc.IH [OF 1(2) _ _ 1(3,4), of "mark_set (if clobbers b n then crossing view (row_sets li) b n else {}) ivs"] Suc.prems 1(1)
    by (simp add: mark_set_Un)
qed simp

lemma cross_blocks_sets:
  assumes ok: "view_ok view" and rows: "rows_ok view li" and zero: "\<And>c. 0 \<notin> row_sets li c"
    and "length ivs = mv_nvregs view + 1" "n \<le> mv_nblocks view"
  shows "cross_blocks view clobbers li n ivs
    = Inr (mark_set (\<Union>b<n. \<Union>i\<in>{i. i < mv_block_ninsts view b \<and> clobbers b i}. crossing view (row_sets li) b i) ivs)"
  using assms(4-)
proof (induction n arbitrary: ivs)
  case (Suc n)
  have n: "n < mv_nblocks view" using Suc.prems by simp
  from cross_insts_sets [OF ok n rows zero, of "replicate (cg_liveness_words view) 0" ivs "mv_block_ninsts view n" clobbers] Suc.prems
  show ?case using Suc.IH by (auto simp: flow_end mark_set_Un lessThan_Suc Un_commute)
qed simp

section \<open>What the intervals mean\<close>

definition crosses_call :: "mir_view \<Rightarrow> nat \<Rightarrow> bool" where
  "crosses_call view v \<longleftrightarrow> (\<exists>clobbers b i. mv_clobbers_call view = Some clobbers \<and> b < mv_nblocks view \<and> i < mv_block_ninsts view b
     \<and> clobbers b i \<and> v \<noteq> mv_inst_def view b i
     \<and> (live_at view b (i + 1) v \<or> (\<exists>t\<in>set (mv_inst_targets view b i). live_at view (t - 1) 0 v)))"

lemma crossing_live:
  assumes ok: "view_ok view" "b < mv_nblocks view" "i < mv_block_ninsts view b"
    and L: "\<And>c. c < mv_nblocks view \<Longrightarrow> L c = live_in_set view c" "\<And>c. \<not> c < mv_nblocks view \<Longrightarrow> L c = {}"
  shows "v \<in> crossing view L b i \<longleftrightarrow> v \<noteq> mv_inst_def view b i
     \<and> (live_at view b (i + 1) v \<or> (\<exists>t\<in>set (mv_inst_targets view b i). live_at view (t - 1) 0 v))"
proof -
  have sound: "live_at view c 0 w" if "w \<in> L c" for c w using L [of c] that by (cases "c < mv_nblocks view") auto
  have "flow view L c 0 \<subseteq> L c" if "c < mv_nblocks view" for c
    using flow_sound [where L = L and b = c and i = 0, OF sound] L(1) [OF that] by blast
  then have "v \<in> flow view L b (i + 1) \<longleftrightarrow> live_at view b (i + 1) v"
    using flow_complete [of view b "i + 1" v L, OF _ ok(1,2)] flow_sound [where L = L and b = b and i = "i + 1", OF sound] by blast
  moreover have "v \<in> L (t - 1) \<longleftrightarrow> live_at view (t - 1) 0 v" if "t \<in> set (mv_inst_targets view b i)" for t
  proof -
    have "0 < t" "t \<le> mv_nblocks view" using view_inst_ok(4) [OF ok] that by auto
    then have "t - 1 < mv_nblocks view" by linarith
    then show ?thesis using L(1) by simp
  qed
  moreover have "v \<noteq> 0" if "live_at view b (i + 1) v \<or> (\<exists>t\<in>set (mv_inst_targets view b i). live_at view (t - 1) 0 v)"
    using that live_at_nonzero by blast
  ultimately show ?thesis unfolding crossing_def by blast
qed

lemma cg_intervals_build_spans:
  assumes ok: "view_ok view"
  obtains li lo where "cg_intervals_build view (zero_rows view) (zero_rows view)
    = Inr (li, lo, mark_set {v. crosses_call view v} (spans (mv_nvregs view) (all_touched view)))"
proof (rule cg_liveness_zero [OF ok])
  fix li lo
  assume r: "cg_liveness view (zero_rows view) (zero_rows view) = Some (Inr (li, lo))" "rows_ok view li" "rows_ok view lo"
    "\<And>b. b < mv_nblocks view \<Longrightarrow> bs_elems (li ! b) = live_in_set view b"
    "\<And>b. b < mv_nblocks view \<Longrightarrow> bs_elems (lo ! b) = branch_set view (live_in_set view) b"
  let ?ivs = "spans (mv_nvregs view) (all_touched view)"
  have start: "replicate (mv_nvregs view + 1) iv_cleared = spans (mv_nvregs view) (\<lambda>_. {})"
    by (rule nth_equalityI) (auto simp: span_iv_def less_Suc_eq_le nth_replicate simp del: replicate_Suc)
  have 1: "extend_blocks view li lo (mv_nblocks view) 0 0 (replicate (mv_nvregs view + 1) iv_cleared) = Inr ?ivs"
    unfolding start
    using extend_blocks_spans [OF _ ok _ r(2-5), of "\<lambda>_. {}" 0 "mv_nblocks view"]
    by (simp add: all_touched_def [abs_def] lessThan_atLeast0)
  have L: "row_sets li c = live_in_set view c" if "c < mv_nblocks view" for c using r(2,4) that by (simp add: row_sets_def rows_ok_def)
  have L0: "row_sets li c = {}" if "\<not> c < mv_nblocks view" for c using r(2) that by (simp add: row_sets_def rows_ok_def)
  have zero: "0 \<notin> row_sets li c" for c using L [of c] L0 [of c] live_at_nonzero [of view c 0 0] by (cases "c < mv_nblocks view") auto
  have 2: "mark_call_crossings view li ?ivs = Inr (mark_set {v. crosses_call view v} ?ivs)"
  proof (cases "mv_clobbers_call view")
    case None
    then show ?thesis by (simp add: mark_call_crossings_def crosses_call_def)
  next
    case (Some clobbers)
    have "(\<Union>b<mv_nblocks view. \<Union>i\<in>{i. i < mv_block_ninsts view b \<and> clobbers b i}. crossing view (row_sets li) b i)
        = {v. crosses_call view v}"
    proof (rule set_eqI)
      fix v
      have "v \<in> crossing view (row_sets li) b i \<longleftrightarrow> v \<noteq> mv_inst_def view b i
          \<and> (live_at view b (i + 1) v \<or> (\<exists>t\<in>set (mv_inst_targets view b i). live_at view (t - 1) 0 v))"
        if "b < mv_nblocks view" "i < mv_block_ninsts view b" for b i
        by (rule crossing_live [OF ok that L L0])
      then show "v \<in> (\<Union>b<mv_nblocks view. \<Union>i\<in>{i. i < mv_block_ninsts view b \<and> clobbers b i}. crossing view (row_sets li) b i)
          \<longleftrightarrow> v \<in> {v. crosses_call view v}"
        using Some by (simp add: crosses_call_def) blast
    qed
    then show ?thesis
      using cross_blocks_sets [OF ok r(2) zero, of ?ivs "mv_nblocks view" clobbers] Some by (simp add: mark_call_crossings_def)
  qed
  show thesis by (rule that [of li lo]) (simp only: cg_intervals_build_def r(1) option.case bind_outcome_simps prod.case 1 2)
qed

text \<open>A live register's interval contains every point at which it is live.\<close>

lemma live_point_before:
  assumes "live_at view b i v" "b < mv_nblocks view"
  shows "\<exists>p\<in>touched view b v. p \<le> block_start view b + i"
  using assms(1)
proof (induction i)
  case 0
  then show ?case by (auto simp: touched_def intro!: exI [of _ "block_start view b"])
next
  case (Suc i)
  have i: "i < mv_block_ninsts view b" "v \<noteq> 0" using live_at_range [OF Suc.prems] live_at_nonzero [OF Suc.prems] by simp_all
  show ?case
  proof (cases "v = mv_inst_def view b i")
    case True
    then have "block_start view b + i \<in> touched view b v" using i by (auto simp: touched_def mentions_def)
    then show ?thesis by (rule bexI [rotated]) simp
  next
    case False
    then have "live_at view b i v" using live_next [OF i(1) False] Suc.prems by simp
    with Suc.IH obtain p where "p \<in> touched view b v" "p \<le> block_start view b + i" by blast
    then show ?thesis by (intro bexI [of _ p]) simp_all
  qed
qed

lemma live_point_after:
  assumes "live_at view b i v"
  shows "\<exists>p\<in>touched view b v. block_start view b + i \<le> p"
  using assms
proof (induction rule: live_at.induct)
  case (live_use i b v)
  then have "block_start view b + i \<in> touched view b v" by (auto simp: touched_def mentions_def)
  then show ?case by blast
next
  case (live_next i b v)
  from live_next.IH obtain p where "p \<in> touched view b v" "block_start view b + (i + 1) \<le> p" by blast
  then show ?case by (intro bexI [of _ p]) simp_all
next
  case (live_branch i b v t)
  then have "v \<in> branch_set view (live_in_set view) b" by (auto simp: branch_set_def)
  then have "block_last view b \<in> touched view b v" by (simp add: touched_def)
  moreover have "block_start view b + i \<le> block_last view b" using live_branch.hyps(1) by (simp add: block_last_def)
  ultimately show ?case by blast
qed

text \<open>The span of an interval.\<close>

definition iv_covers :: "cg_interval \<Rightarrow> nat \<Rightarrow> bool" where
  "iv_covers it p \<longleftrightarrow> iv_live it \<and> iv_start it \<le> p \<and> p \<le> iv_end it"

lemma span_covers:
  assumes "finite P" "p \<in> P" "q \<in> P" "p \<le> x" "x \<le> q"
  shows "iv_covers (span_iv v P) x"
proof -
  have "Min P \<le> x" "x \<le> Max P" "P \<noteq> {}"
    using order_trans [OF Min_le [OF assms(1,2)] assms(4)] order_trans [OF assms(5) Max_ge [OF assms(1,3)]] assms(2) by blast+
  then show ?thesis by (simp add: iv_covers_def span_iv_def)
qed

lemma span_covers_live:
  assumes "live_at view b i v" "b < mv_nblocks view"
  shows "iv_covers (span_iv v (all_touched view v)) (block_start view b + i)"
proof -
  obtain p q where "p \<in> touched view b v" "p \<le> block_start view b + i" "q \<in> touched view b v" "block_start view b + i \<le> q"
    using live_point_before [OF assms] live_point_after [OF assms(1)] by blast
  moreover have "touched view b v \<subseteq> all_touched view v" using assms(2) by (auto simp: all_touched_def)
  ultimately show ?thesis using span_covers [OF finite_all_touched] by blast
qed

lemma span_covers_mention:
  assumes "mentions view b i v" "b < mv_nblocks view" "i < mv_block_ninsts view b"
  shows "iv_covers (span_iv v (all_touched view v)) (block_start view b + i)"
proof -
  have "block_start view b + i \<in> all_touched view v" using assms by (auto simp: all_touched_def touched_def)
  then show ?thesis using finite_all_touched by (auto intro: span_covers)
qed


definition call_view :: mir_view where
  "call_view = \<lparr>mv_nvregs = 2, mv_nblocks = 1, mv_max_uses = 1, mv_block_ninsts = (\<lambda>_. 4),
     mv_inst_def = (\<lambda>_ i. [1, 2, 0, 0] ! i), mv_inst_uses = (\<lambda>_ i. [[], [], [2], [1]] ! i),
     mv_inst_targets = (\<lambda>_ _. []), mv_clobbers_call = Some (\<lambda>_ i. i = 1)\<rparr>"


end
