(* ===== verification/Stable_Sort.thy ===== *)
theory Stable_Sort
  imports Cg_Prelude "HOL-Library.Multiset"
begin

text \<open>
  src/src/util/sort.c: the bottom-up merge sort behind every ordering of the compiler's output. An
  array is a list of elements; the element size only scales addresses, and a size of zero is kept as
  the early return it causes. The scratch array comes uninitialised from the allocator: its content is
  the parameter \<open>junk\<close>. The locale \<open>sort_order\<close> is what the sort needs of a comparison function; it
  is interpreted for the comparison functions of the compiler where they are defined.
\<close>

section \<open>Definitions\<close>

text \<open>\<open>memcpy (dst + k, src + i, n)\<close> on arrays of elements\<close>

definition copy_range :: "'a list \<Rightarrow> nat \<Rightarrow> 'a list \<Rightarrow> nat \<Rightarrow> nat \<Rightarrow> 'a list" where
  "copy_range dst k src i n = take k dst @ take n (drop i src) @ drop (k + n) dst"

function merge_loop ::
  "('a \<Rightarrow> 'a \<Rightarrow> int) \<Rightarrow> 'a list \<Rightarrow> nat \<Rightarrow> nat \<Rightarrow> nat \<Rightarrow> nat \<Rightarrow> nat \<Rightarrow> 'a list \<Rightarrow> 'a list" where
  "merge_loop cmp src mid hi i j k dst =
     (if i < mid \<and> j < hi then
        (if cmp (src ! j) (src ! i) < 0
         then merge_loop cmp src mid hi i (j + 1) (k + 1) (copy_range dst k src j 1)
         else merge_loop cmp src mid hi (i + 1) j (k + 1) (copy_range dst k src i 1))
      else if i < mid then copy_range dst k src i (mid - i)
      else if j < hi then copy_range dst k src j (hi - j)
      else dst)"
  by pat_completeness auto
termination
  by (relation "measure (\<lambda>(cmp, src, mid, hi, i, j, k, dst). (mid - i) + (hi - j))") auto

declare merge_loop.simps [simp del]

definition sort_merge :: "('a \<Rightarrow> 'a \<Rightarrow> int) \<Rightarrow> 'a list \<Rightarrow> 'a list \<Rightarrow> nat \<Rightarrow> nat \<Rightarrow> nat \<Rightarrow> 'a list" where
  "sort_merge cmp dst src lo mid hi = merge_loop cmp src mid hi lo mid lo dst"

text \<open>One pass: merge the runs of \<open>w\<close> elements pairwise from \<open>a\<close> into \<open>tmp\<close>.\<close>

function sort_pass :: "('a \<Rightarrow> 'a \<Rightarrow> int) \<Rightarrow> nat \<Rightarrow> nat \<Rightarrow> 'a list \<Rightarrow> nat \<Rightarrow> 'a list \<Rightarrow> 'a list" where
  "sort_pass cmp n w a lo tmp =
     (if lo < n \<and> 0 < w then
        (let mid = (if lo + w < n then lo + w else n);
             hi = (if lo + 2 * w < n then lo + 2 * w else n)
         in sort_pass cmp n w a (lo + 2 * w) (sort_merge cmp tmp a lo mid hi))
      else tmp)"
  by pat_completeness auto
termination
  by (relation "measure (\<lambda>(cmp, n, w, a, lo, tmp). n - lo)") auto

declare sort_pass.simps [simp del]

function sort_passes :: "('a \<Rightarrow> 'a \<Rightarrow> int) \<Rightarrow> nat \<Rightarrow> nat \<Rightarrow> 'a list \<Rightarrow> 'a list \<Rightarrow> 'a list" where
  "sort_passes cmp n w a tmp =
     (if w < n \<and> 0 < w then (let t = sort_pass cmp n w a 0 tmp in sort_passes cmp n (w * 2) t t) else a)"
  by pat_completeness auto
termination
  by (relation "measure (\<lambda>(cmp, n, w, a, tmp). n - w)") auto

declare sort_passes.simps [simp del]

definition cgf_sort_stable :: "('a \<Rightarrow> 'a \<Rightarrow> int) \<Rightarrow> nat \<Rightarrow> 'a list \<Rightarrow> 'a list \<Rightarrow> 'a list" where
  "cgf_sort_stable cmp esz junk base =
     (if length base < 2 \<or> esz = 0 then base
      else sort_passes cmp (length base) 1 base (take (length base) junk))"

section \<open>The merge on lists\<close>

fun mrg :: "('a \<Rightarrow> 'a \<Rightarrow> int) \<Rightarrow> 'a list \<Rightarrow> 'a list \<Rightarrow> 'a list" where
  "mrg cmp [] ys = ys"
| "mrg cmp (x # xs) [] = x # xs"
| "mrg cmp (x # xs) (y # ys) = (if cmp y x < 0 then y # mrg cmp (x # xs) ys else x # mrg cmp xs (y # ys))"

lemma mset_mrg: "mset (mrg cmp xs ys) = mset xs + mset ys"
  by (induction cmp xs ys rule: mrg.induct) simp_all

lemma length_mrg: "length (mrg cmp xs ys) = length xs + length ys"
  using arg_cong [OF mset_mrg [of cmp xs ys], of size] by simp

lemma set_mrg: "set (mrg cmp xs ys) = set xs \<union> set ys"
  using arg_cong [OF mset_mrg [of cmp xs ys], of set_mset] by simp

lemma mrg_Nil2 [simp]: "mrg cmp xs [] = xs"
  by (cases xs) simp_all

text \<open>The elements of an array from \<open>i\<close> up to \<open>j\<close>.\<close>

definition slice :: "'a list \<Rightarrow> nat \<Rightarrow> nat \<Rightarrow> 'a list" where
  "slice xs i j = take (j - i) (drop i xs)"

lemma slice_Cons: "i < j \<Longrightarrow> i < length xs \<Longrightarrow> slice xs i j = xs ! i # slice xs (Suc i) j"
  by (simp add: slice_def Cons_nth_drop_Suc [symmetric] take_Suc_conv_app_nth) (simp add: take_Cons' Suc_diff_Suc [symmetric])

lemma slice_empty: "j \<le> i \<Longrightarrow> slice xs i j = []"
  by (simp add: slice_def)

lemma length_copy_range: "k + n \<le> length dst \<Longrightarrow> i + n \<le> length src \<Longrightarrow> length (copy_range dst k src i n) = length dst"
  by (simp add: copy_range_def)

lemma copy_range_1:
  "k < length dst \<Longrightarrow> i < length src \<Longrightarrow>
   take (Suc k) (copy_range dst k src i 1) = take k dst @ [src ! i] \<and> drop m (copy_range dst k src i 1) = drop m dst"
  if "k < m"
  using that by (simp add: copy_range_def take_Suc_conv_app_nth [of 0] hd_drop_conv_nth drop_Cons' min_def take_Suc)

lemma merge_loop_value:
  assumes "i \<le> mid" "mid \<le> j" "j \<le> hi" "hi \<le> length src" "length dst = length src" "k + mid = i + j"
  shows "merge_loop cmp src mid hi i j k dst = take k dst @ mrg cmp (slice src i mid) (slice src j hi) @ drop hi dst"
  using assms
proof (induction cmp src mid hi i j k dst rule: merge_loop.induct)
  case (1 cmp src mid hi i j k dst)
  note p = "1.prems"
  show ?case
  proof (cases "i < mid \<and> j < hi")
    case True
    have si: "slice src i mid = src ! i # slice src (Suc i) mid" and sj: "slice src j hi = src ! j # slice src (Suc j) hi"
      using True p by (simp_all add: slice_Cons)
    show ?thesis
    proof (cases "cmp (src ! j) (src ! i) < 0")
      case lt: True
      have c: "take (Suc k) (copy_range dst k src j 1) = take k dst @ [src ! j]" "drop hi (copy_range dst k src j 1) = drop hi dst"
        "length (copy_range dst k src j 1) = length src"
        using copy_range_1 [of k hi dst j src] True p by (auto simp: length_copy_range)
      show ?thesis
        using "1.IH"(1) [OF True lt] True p c lt by (subst merge_loop.simps) (simp add: si sj)
    next
      case ge: False
      have c: "take (Suc k) (copy_range dst k src i 1) = take k dst @ [src ! i]" "drop hi (copy_range dst k src i 1) = drop hi dst"
        "length (copy_range dst k src i 1) = length src"
        using copy_range_1 [of k hi dst i src] True p by (auto simp: length_copy_range)
      show ?thesis
        using "1.IH"(2) [OF True ge] True p c ge by (subst merge_loop.simps) (simp add: si sj)
    qed
  next
    case False
    have hi: "k + (mid - i) + (hi - j) = hi" using p by linarith
    from False consider "i < mid" "j = hi" | "i = mid" "j < hi" | "i = mid" "j = hi" using p by linarith
    then show ?thesis
    proof cases
      case 1
      then show ?thesis using hi by (subst merge_loop.simps) (simp add: copy_range_def slice_def)
    next
      case 2
      then show ?thesis using hi by (subst merge_loop.simps) (simp add: copy_range_def slice_def)
    next
      case 3
      then show ?thesis using hi by (subst merge_loop.simps) (simp add: slice_def)
    qed
  qed
qed

text \<open>A pass, as a function on lists.\<close>

function pass_list :: "('a \<Rightarrow> 'a \<Rightarrow> int) \<Rightarrow> nat \<Rightarrow> 'a list \<Rightarrow> 'a list" where
  "pass_list cmp w xs =
     (if xs = [] \<or> w = 0 then [] else mrg cmp (take w xs) (take w (drop w xs)) @ pass_list cmp w (drop (2 * w) xs))"
  by pat_completeness auto
termination
  by (relation "measure (\<lambda>(cmp, w, xs). length xs)") auto

declare pass_list.simps [simp del]

lemma length_pass_list: "0 < w \<Longrightarrow> length (pass_list cmp w xs) = length xs"
proof (induction cmp w xs rule: pass_list.induct)
  case (1 cmp w xs)
  then show ?case by (subst pass_list.simps) (auto simp: length_mrg)
qed

lemma slice_take: "slice xs lo (min (lo + w) (length xs)) = take w (drop lo xs)"
  by (simp add: slice_def min_def)

lemma sort_pass_value:
  assumes "0 < w" "length tmp = length a" "n = length a"
  shows "sort_pass cmp n w a lo tmp = take lo tmp @ pass_list cmp w (drop lo a)"
  using assms
proof (induction cmp n w a lo tmp rule: sort_pass.induct)
  case (1 cmp n w a lo tmp)
  show ?case
  proof (cases "lo < n")
    case True
    define mid hi where "mid = min (lo + w) n" and "hi = min (lo + 2 * w) n"
    have bounds: "lo \<le> mid" "mid \<le> hi" "hi \<le> n" by (auto simp: mid_def hi_def True less_imp_le)
    have s1: "slice a lo mid = take w (drop lo a)" using "1.prems" by (simp add: mid_def slice_take)
    have s2: "slice a mid hi = take w (drop w (drop lo a))"
      using "1.prems" True by (auto simp: mid_def hi_def slice_def min_def add.commute)
    have m: "sort_merge cmp tmp a lo mid hi = take lo tmp @ mrg cmp (take w (drop lo a)) (take w (drop w (drop lo a))) @ drop hi tmp"
      unfolding sort_merge_def using bounds "1.prems" by (subst merge_loop_value) (simp_all add: s1 s2)
    have lm: "length (mrg cmp (take w (drop lo a)) (take w (drop w (drop lo a)))) = hi - lo"
      using "1.prems" by (auto simp: length_mrg hi_def)
    let ?t = "sort_merge cmp tmp a lo mid hi"
    have lt: "length ?t = length a" using m lm "1.prems" bounds True by simp
    have eqs: "mid = (if lo + w < n then lo + w else n)" "hi = (if lo + 2 * w < n then lo + 2 * w else n)"
      by (auto simp: mid_def hi_def)
    have "sort_pass cmp n w a lo tmp = sort_pass cmp n w a (lo + 2 * w) ?t"
      using True "1.prems" by (subst sort_pass.simps) (simp add: eqs Let_def)
    also have "\<dots> = take (lo + 2 * w) ?t @ pass_list cmp w (drop (lo + 2 * w) a)"
      using "1.IH" [OF _ eqs] True "1.prems" lt by simp
    also have "take (lo + 2 * w) ?t = take lo tmp @ mrg cmp (take w (drop lo a)) (take w (drop w (drop lo a)))"
    proof (cases "lo + 2 * w < n")
      case True
      then have "hi = lo + 2 * w" by (simp add: hi_def)
      then show ?thesis using lm "1.prems" True unfolding m by simp
    next
      case False
      then have "hi = n" by (simp add: hi_def)
      then show ?thesis using lm "1.prems" False \<open>lo < n\<close> unfolding m by simp
    qed
    finally show ?thesis
      using True "1.prems" by (subst pass_list.simps) (simp add: add.commute)
  next
    case False
    then show ?thesis using "1.prems" by (subst sort_pass.simps) (simp add: pass_list.simps)
  qed
qed

section \<open>Stability\<close>

text \<open>
  What a stable sort promises of a comparison function: the result has the same elements, no
  element is smaller than one before it, and elements that compare equal keep their order.
\<close>

definition stable_sorted :: "('a \<Rightarrow> 'a \<Rightarrow> int) \<Rightarrow> 'a list \<Rightarrow> 'a list \<Rightarrow> bool" where
  "stable_sorted cmp xs ys \<longleftrightarrow>
     mset ys = mset xs \<and> sorted_wrt (\<lambda>x y. \<not> cmp y x < 0) ys
     \<and> (\<forall>x. filter (\<lambda>y. cmp x y = 0) ys = filter (\<lambda>y. cmp x y = 0) xs)"

locale sort_order =
  fixes cmp :: "'a \<Rightarrow> 'a \<Rightarrow> int"
  assumes cmp_less_iff: "cmp x y < 0 \<longleftrightarrow> cmp y x > 0"
    and cmp_less_trans: "cmp x y < 0 \<Longrightarrow> cmp y z < 0 \<Longrightarrow> cmp x z < 0"
    and cmp_equal_trans: "cmp x y = 0 \<Longrightarrow> cmp y z = 0 \<Longrightarrow> cmp x z = 0"
begin

abbreviation run :: "'a list \<Rightarrow> bool" where
  "run \<equiv> sorted_wrt (\<lambda>x y. \<not> cmp y x < 0)"

lemma cmp_equal_sym: "cmp x y = 0 \<longleftrightarrow> cmp y x = 0"
  using cmp_less_iff [of x y] cmp_less_iff [of y x] by linarith

lemma cmp_le_less_trans:
  assumes "\<not> cmp y x < 0" "cmp y z < 0"
  shows "cmp x z < 0"
proof (cases "cmp x y < 0")
  case True
  then show ?thesis using assms(2) by (rule cmp_less_trans)
next
  case False
  then have eq: "cmp y x = 0" using assms(1) cmp_less_iff [of x y] by linarith
  show ?thesis
  proof (rule ccontr)
    assume n: "\<not> cmp x z < 0"
    show False
    proof (cases "cmp x z = 0")
      case True
      then show False using cmp_equal_trans [OF eq, of z] assms(2) by simp
    next
      case False
      then have "cmp z x < 0" using n cmp_less_iff [of z x] by linarith
      then show False using cmp_less_trans [OF assms(2)] assms(1) by blast
    qed
  qed
qed

lemma cmp_not_less_trans: "\<not> cmp y x < 0 \<Longrightarrow> \<not> cmp z y < 0 \<Longrightarrow> \<not> cmp z x < 0"
  using cmp_le_less_trans by blast

lemma run_mrg: "run xs \<Longrightarrow> run ys \<Longrightarrow> run (mrg cmp xs ys)"
proof (induction xs arbitrary: ys)
  case (Cons x xs)
  note IH = Cons.IH
  from Cons.prems(2) show ?case
  proof (induction ys)
    case (Cons y ys)
    note ys = this
    show ?case
    proof (cases "cmp y x < 0")
      case True
      have "\<not> cmp u y < 0" if "u \<in> set (x # xs)" for u
      proof -
        have "\<not> cmp u x < 0" using that \<open>run (x # xs)\<close> cmp_less_iff [of x x] by auto
        moreover have "\<not> cmp x y < 0" using True cmp_less_iff [of y x] by linarith
        ultimately show ?thesis using cmp_not_less_trans by blast
      qed
      then show ?thesis using True ys by (auto simp: set_mrg)
    next
      case False
      have "\<not> cmp u x < 0" if "u \<in> set (y # ys)" for u
        using that ys(2) False cmp_not_less_trans by (auto intro: cmp_not_less_trans [of y])
      moreover have "run (mrg cmp xs (y # ys))" using \<open>run (x # xs)\<close> \<open>run (y # ys)\<close> by (intro IH) simp_all
      ultimately show ?thesis using False \<open>run (x # xs)\<close> by (auto simp: set_mrg)
    qed
  qed (use Cons.prems in simp)
qed simp

text \<open>On a class of equal elements the merge is concatenation, left run first.\<close>

lemma filter_mrg:
  assumes "run xs" "run ys"
  shows "filter (\<lambda>y. cmp v y = 0) (mrg cmp xs ys) = filter (\<lambda>y. cmp v y = 0) xs @ filter (\<lambda>y. cmp v y = 0) ys"
  using assms
proof (induction xs arbitrary: ys)
  case (Cons x xs)
  note IH = Cons.IH
  from Cons.prems(2) show ?case
  proof (induction ys)
    case (Cons y ys)
    note ys = this
    show ?case
    proof (cases "cmp y x < 0")
      case True
      have "filter (\<lambda>y. cmp v y = 0) (x # xs) = []" if "cmp v y = 0"
      proof -
        have "cmp v u \<noteq> 0" if u: "u \<in> set (x # xs)" for u
        proof
          assume "cmp v u = 0"
          then have "cmp u y = 0" using \<open>cmp v y = 0\<close> cmp_equal_sym cmp_equal_trans by blast
          moreover have "\<not> cmp u x < 0" using u \<open>run (x # xs)\<close> cmp_less_iff [of x x] by auto
          ultimately show False
            using cmp_le_less_trans [of u y x] True cmp_not_less_trans [of x y u] cmp_less_iff [of y x] cmp_less_iff [of x y] cmp_equal_sym [of u y]
            by (metis less_irrefl cmp_le_less_trans)
        qed
        then show ?thesis by (simp add: filter_empty_conv)
      qed
      then show ?thesis using True ys by (auto simp del: filter.simps(2) simp: filter.simps(2) [of _ y])
    next
      case False
      then show ?thesis using \<open>run (x # xs)\<close> \<open>run (y # ys)\<close> IH [of "y # ys"] by simp
    qed
  qed simp
qed simp

section \<open>Passes\<close>

text \<open>Every run of \<open>w\<close> elements is sorted.\<close>

definition runs :: "nat \<Rightarrow> 'a list \<Rightarrow> bool" where
  "runs w xs \<longleftrightarrow> (\<forall>q. run (take w (drop (q * w) xs)))"

lemma runs_drop: "runs w xs \<Longrightarrow> runs w (drop (m * w) xs)"
  unfolding runs_def by (metis add_mult_distrib drop_drop)

lemma runs_one: "runs 1 xs"
  unfolding runs_def by (metis One_nat_def length_take min.cobounded2 sorted_wrt01)

lemma runs_first: "runs w xs \<Longrightarrow> run (take w xs) \<and> run (take w (drop w xs))"
  unfolding runs_def by (metis drop0 mult_0 mult_1)

lemma runs_append:
  assumes "run ys" "length ys = w \<or> zs = [] \<and> length ys \<le> w" "runs w zs" "0 < w"
  shows "runs w (ys @ zs)"
  unfolding runs_def
proof
  fix q
  show "run (take w (drop (q * w) (ys @ zs)))"
  proof (cases q)
    case 0
    then show ?thesis using assms(1,2) by auto
  next
    case (Suc p)
    have "drop (q * w) (ys @ zs) = drop (p * w) zs" using assms(2) by (auto simp: Suc)
    then show ?thesis using assms(3) by (simp add: runs_def)
  qed
qed

lemma runs_pass:
  assumes "runs w xs" "0 < w"
  shows "runs (2 * w) (pass_list cmp w xs) \<and> mset (pass_list cmp w xs) = mset xs
    \<and> (\<forall>v. filter (\<lambda>y. cmp v y = 0) (pass_list cmp w xs) = filter (\<lambda>y. cmp v y = 0) xs)"
  using assms
proof (induction "length xs" arbitrary: xs rule: less_induct)
  case less
  show ?case
  proof (cases "xs = []")
    case True
    then show ?thesis by (simp add: pass_list.simps runs_def)
  next
    case False
    define a b r where "a = take w xs" and "b = take w (drop w xs)" and "r = drop (2 * w) xs"
    have xs: "xs = a @ b @ r" by (simp add: a_def b_def r_def mult_2 flip: drop_drop)
    have eq: "pass_list cmp w xs = mrg cmp a b @ pass_list cmp w r"
      using False less.prems(2) by (subst pass_list.simps) (simp add: a_def b_def r_def)
    have ab: "run a" "run b" using runs_first [OF less.prems(1)] by (simp_all add: a_def b_def)
    have "length r < length xs" using False less.prems(2) by (simp add: r_def)
    moreover have "runs w r" using runs_drop [OF less.prems(1), of 2] by (simp add: r_def)
    ultimately have IH: "runs (2 * w) (pass_list cmp w r)" "mset (pass_list cmp w r) = mset r"
      "\<And>v. filter (\<lambda>y. cmp v y = 0) (pass_list cmp w r) = filter (\<lambda>y. cmp v y = 0) r"
      using less.hyps less.prems(2) by blast+
    have "length (mrg cmp a b) = 2 * w \<or> pass_list cmp w r = [] \<and> length (mrg cmp a b) \<le> 2 * w"
    proof (cases "2 * w \<le> length xs")
      case False
      then have "r = []" by (simp add: r_def)
      then show ?thesis by (auto simp: pass_list.simps length_mrg a_def b_def)
    qed (simp add: length_mrg a_def b_def)
    then have "runs (2 * w) (pass_list cmp w xs)"
      unfolding eq using run_mrg [OF ab] IH(1) less.prems(2) by (intro runs_append) simp_all
    moreover have "mset (pass_list cmp w xs) = mset xs" by (simp add: eq IH(2) mset_mrg) (simp add: xs)
    moreover have "filter (\<lambda>y. cmp v y = 0) (pass_list cmp w xs) = filter (\<lambda>y. cmp v y = 0) xs" for v
      by (simp add: eq IH(3) filter_mrg [OF ab]) (simp add: xs)
    ultimately show ?thesis by blast
  qed
qed

lemma sort_passes_stable:
  assumes "runs w a" "0 < w" "length tmp = length a" "n = length a"
  shows "stable_sorted cmp a (sort_passes cmp n w a tmp)"
  using assms
proof (induction "n - w" arbitrary: w a tmp rule: less_induct)
  case less
  show ?case
  proof (cases "w < n")
    case True
    define t where "t = sort_pass cmp n w a 0 tmp"
    have t: "t = pass_list cmp w a" using less.prems by (simp add: t_def sort_pass_value)
    note p = runs_pass [OF less.prems(1,2), folded t]
    have len: "length t = length a" using length_pass_list [OF less.prems(2)] by (simp add: t)
    have "runs (w * 2) t" using p by (simp add: mult.commute)
    moreover have "n - w * 2 < n - w" using True less.prems(2) by linarith
    ultimately have "stable_sorted cmp t (sort_passes cmp n (w * 2) t t)"
      using len less.prems by (intro less.hyps) simp_all
    moreover have "sort_passes cmp n w a tmp = sort_passes cmp n (w * 2) t t"
      using True less.prems(2) by (subst sort_passes.simps) (simp add: t_def Let_def)
    ultimately show ?thesis using p by (simp add: stable_sorted_def)
  next
    case False
    then have "run a" using runs_first [OF less.prems(1)] less.prems(4) by simp
    then show ?thesis using False by (subst sort_passes.simps) (simp add: stable_sorted_def)
  qed
qed

lemma cgf_sort_stable_correct:
  assumes "esz \<noteq> 0" "length base \<le> length junk"
  shows "stable_sorted cmp base (cgf_sort_stable cmp esz junk base)"
proof (cases "length base < 2")
  case True
  then have "run base" by (intro sorted_wrt01) simp
  then show ?thesis using True by (simp add: cgf_sort_stable_def stable_sorted_def)
next
  case False
  then show ?thesis
    using assms sort_passes_stable [OF runs_one, of "take (length base) junk" base "length base"]
    by (simp add: cgf_sort_stable_def)
qed

end

section \<open>Sorting the cases of a switch\<close>

text \<open>
  The comparison of src/src/lower/stmt.c: case values are signed 64-bit, the block is a payload the
  order does not look at.
\<close>

record switch_entry =
  sw_value :: "64 word"
  sw_block :: nat

definition switch_entry_cmp :: "switch_entry \<Rightarrow> switch_entry \<Rightarrow> int" where
  "switch_entry_cmp a b = (if sw_value a \<noteq> sw_value b then (if sint (sw_value a) < sint (sw_value b) then - 1 else 1) else 0)"

definition switch_entries_are_adjacent :: "switch_entry \<Rightarrow> switch_entry \<Rightarrow> bool" where
  "switch_entries_are_adjacent a b \<longleftrightarrow> sw_block a = sw_block b \<and> sw_value b = sw_value a + 1"

interpretation sw: sort_order switch_entry_cmp
  by unfold_locales (auto simp: switch_entry_cmp_def dest: signed_word_eqI split: if_splits)

text \<open>
  C17: the merge sort. For every comparison function that is a total preorder and every array, with
  scratch memory of any content, the result is a stable sort of the array: the same elements, in
  order, equal elements in their original order.
\<close>

theorem sort_stable_correct:
  assumes "sort_order cmp" "esz \<noteq> 0" "length base \<le> length junk"
  shows "stable_sorted cmp base (cgf_sort_stable cmp esz junk base)"
  by (rule sort_order.cgf_sort_stable_correct [OF assms])

theorem sort_stable_correct_witness:
  "stable_sorted switch_entry_cmp
     [\<lparr>sw_value = 3, sw_block = 1\<rparr>, \<lparr>sw_value = - 1, sw_block = 2\<rparr>, \<lparr>sw_value = 3, sw_block = 0\<rparr>]
     (cgf_sort_stable switch_entry_cmp 16 (replicate 3 \<lparr>sw_value = 0, sw_block = 0\<rparr>)
        [\<lparr>sw_value = 3, sw_block = 1\<rparr>, \<lparr>sw_value = - 1, sw_block = 2\<rparr>, \<lparr>sw_value = 3, sw_block = 0\<rparr>])"
  by (rule sort_stable_correct [OF sw.sort_order_axioms]) simp_all

end
