(* ===== verification/Cg_Scan.thy ===== *)
theory Cg_Scan
  imports Cg_Intervals Stable_Sort
begin

text \<open>
  src/src/cg/shared.c: spill slots and the linear-scan register allocator the backends share. Physical
  registers are the code's 8-bit ids plus one, zero meaning none. A pointer to an interval is the
  number of its register, the index in the array. The callbacks of the target policy are functions of
  the record.
\<close>

section \<open>Spill slots\<close>

record cg_spill_slots =
  sl_next_offset :: u32
  sl_count :: u32

text \<open>Offsets are signed 32-bit; \<open>- x\<close> on words is the code's negation of the converted value.\<close>

definition cg_spill_slot_assign :: "cg_spill_slots \<Rightarrow> u32 \<Rightarrow> u32 \<Rightarrow> (cg_spill_slots \<times> u32) outcome" where
  "cg_spill_slot_assign slots sz align =
     (if sz = 0 \<or> sz AND (sz - 1) \<noteq> 0 \<or> align = 0 \<or> align AND (align - 1) \<noteq> 0
      then Inl (ICE ''spill slot size/alignment must be powers of two'')
      else
        (let raw = - sl_next_offset slots + sz;
             raw1 = (raw + align - 1) AND NOT (align - 1);
             slots' = slots\<lparr>sl_next_offset := - raw1, sl_count := sl_count slots + 1\<rparr>
         in Inr (slots', sl_next_offset slots')))"

section \<open>Linear scan\<close>

record scan_policy =
  lp_nphys_regs :: nat
  lp_spill_all :: bool
  lp_pool :: "nat \<Rightarrow> u8 list"
  lp_same_class :: "nat \<Rightarrow> nat \<Rightarrow> bool"
  lp_reg_usable :: "nat \<Rightarrow> u8 \<Rightarrow> nat \<Rightarrow> nat \<Rightarrow> bool"
  lp_spill_size :: "nat \<Rightarrow> u32"
  lp_spill_align :: "nat \<Rightarrow> u32"

text \<open>Intervals by start point, then by register number.\<close>

definition interval_start_cmp :: "cg_interval list \<Rightarrow> nat \<Rightarrow> nat \<Rightarrow> int" where
  "interval_start_cmp ivs pa pb =
     (let a = ivs ! pa; b = ivs ! pb in
      if iv_start a \<noteq> iv_start b then (if iv_start a < iv_start b then - 1 else 1)
      else if iv_vreg a < iv_vreg b then - 1 else if iv_vreg a > iv_vreg b then 1 else 0)"

definition spill :: "scan_policy \<Rightarrow> nat \<Rightarrow> cg_interval list \<Rightarrow> cg_spill_slots \<Rightarrow> (cg_interval list \<times> cg_spill_slots) outcome" where
  "spill policy v ivs slots =
     (if iv_slot (ivs ! v) = 0 then
        bind_outcome (cg_spill_slot_assign slots (lp_spill_size policy (iv_vreg (ivs ! v))) (lp_spill_align policy (iv_vreg (ivs ! v))))
          (\<lambda>(slots', off). Inr (ivs[v := (ivs ! v)\<lparr>iv_slot := off\<rparr>], slots'))
      else Inr (ivs, slots))"

function expire :: "cg_interval list \<Rightarrow> nat \<Rightarrow> nat \<Rightarrow> nat list \<Rightarrow> nat list" where
  "expire ivs start k active =
     (if k < length active then
        (if iv_end (ivs ! (active ! k)) < start then expire ivs start k (butlast (active[k := last active]))
         else expire ivs start (k + 1) active)
      else active)"
  by pat_completeness auto
termination
  by (relation "measure (\<lambda>(ivs, start, k, active). length active - k)") auto

declare expire.simps [simp del]

fun mark_used :: "scan_policy \<Rightarrow> cg_interval list \<Rightarrow> nat list \<Rightarrow> bool list \<Rightarrow> bool list outcome" where
  "mark_used policy ivs [] used = Inr used"
| "mark_used policy ivs (v # vs) used =
     (let p = unat (iv_phys (ivs ! v)) in
      if p > lp_nphys_regs policy then Inl (ICE ''linear scan: invalid active physical register'')
      else mark_used policy ivs vs (if p \<noteq> 0 then used[p - 1 := True] else used))"

text \<open>The first free and usable register of the pool, as the id plus one; zero when there is none.\<close>

fun pick_reg :: "scan_policy \<Rightarrow> cg_interval \<Rightarrow> bool list \<Rightarrow> u8 list \<Rightarrow> u8 outcome" where
  "pick_reg policy cur used [] = Inr 0"
| "pick_reg policy cur used (reg # regs) =
     (if unat reg \<ge> lp_nphys_regs policy then Inl (ICE ''linear scan: invalid physical register'')
      else if \<not> used ! unat reg \<and> lp_reg_usable policy (iv_vreg cur) reg (iv_start cur) (iv_end cur) then Inr (reg + 1)
      else pick_reg policy cur used regs)"

text \<open>The evictable active interval that ends last, the earliest in the list among equals.\<close>

fun pick_far :: "scan_policy \<Rightarrow> cg_interval list \<Rightarrow> nat \<Rightarrow> nat list \<Rightarrow> nat option \<Rightarrow> nat option" where
  "pick_far policy ivs cur [] far = far"
| "pick_far policy ivs cur (c # cs) far =
     (let cand = ivs ! c; it = ivs ! cur; reg = iv_phys cand - 1 in
      if iv_fixed cand \<noteq> 0 \<or> iv_no_spill cand \<or> iv_phys cand = 0 \<or> \<not> lp_same_class policy (iv_vreg cand) (iv_vreg it)
         \<or> \<not> lp_reg_usable policy (iv_vreg it) reg (iv_start it) (iv_end it)
      then pick_far policy ivs cur cs far
      else pick_far policy ivs cur cs
             (case far of None \<Rightarrow> Some c | Some f \<Rightarrow> if iv_end cand > iv_end (ivs ! f) then Some c else Some f))"

fun replace_first :: "nat \<Rightarrow> nat \<Rightarrow> nat list \<Rightarrow> nat list" where
  "replace_first far cur [] = []"
| "replace_first far cur (x # xs) = (if x = far then cur # xs else x # replace_first far cur xs)"

text \<open>No register is free: evict the furthest interval, or spill the current one.\<close>

definition scan_no_reg ::
  "scan_policy \<Rightarrow> nat \<Rightarrow> cg_interval list \<Rightarrow> nat list \<Rightarrow> cg_spill_slots \<Rightarrow> (cg_interval list \<times> nat list \<times> cg_spill_slots) outcome" where
  "scan_no_reg policy cur ivs active slots =
     (case pick_far policy ivs cur active None of
        Some far \<Rightarrow>
          if iv_end (ivs ! far) > iv_end (ivs ! cur) \<or> iv_no_spill (ivs ! cur) then
            (let ivs1 = ivs[cur := (ivs ! cur)\<lparr>iv_phys := iv_phys (ivs ! far)\<rparr>];
                 ivs2 = ivs1[far := (ivs1 ! far)\<lparr>iv_phys := 0\<rparr>]
             in bind_outcome (spill policy far ivs2 slots) (\<lambda>(ivs3, slots').
                  Inr (ivs3, replace_first far cur active, slots')))
          else if iv_no_spill (ivs ! cur) then Inl (ICE ''linear scan: must be in a register and none is available'')
          else bind_outcome (spill policy cur ivs slots) (\<lambda>(ivs', slots'). Inr (ivs', active, slots'))
      | None \<Rightarrow>
          if iv_no_spill (ivs ! cur) then Inl (ICE ''linear scan: must be in a register and none is available'')
          else bind_outcome (spill policy cur ivs slots) (\<lambda>(ivs', slots'). Inr (ivs', active, slots')))"

definition scan_step ::
  "scan_policy \<Rightarrow> nat \<Rightarrow> cg_interval list \<times> nat list \<times> cg_spill_slots \<Rightarrow> (cg_interval list \<times> nat list \<times> cg_spill_slots) outcome" where
  "scan_step policy cur s =
     (let (ivs, active0, slots) = s; it = ivs ! cur; active = expire ivs (iv_start it) 0 active0 in
      if iv_fixed it \<noteq> 0 then
        (if unat (iv_fixed it) > lp_nphys_regs policy then Inl (ICE ''linear scan: invalid fixed physical register'')
         else Inr (ivs[cur := it\<lparr>iv_phys := iv_fixed it\<rparr>], active @ [cur], slots))
      else if lp_spill_all policy \<and> \<not> iv_no_spill it then
        bind_outcome (spill policy cur ivs slots) (\<lambda>(ivs', slots'). Inr (ivs', active, slots'))
      else
        bind_outcome (mark_used policy ivs active (replicate (lp_nphys_regs policy) False)) (\<lambda>used.
        bind_outcome (pick_reg policy it used (lp_pool policy (iv_vreg it))) (\<lambda>phys.
          let ivs1 = ivs[cur := it\<lparr>iv_phys := phys\<rparr>] in
          if phys = 0 then scan_no_reg policy cur ivs1 active slots
          else Inr (ivs1, active @ [cur], slots))))"

primrec scan_steps ::
  "scan_policy \<Rightarrow> nat list \<Rightarrow> cg_interval list \<times> nat list \<times> cg_spill_slots \<Rightarrow> (cg_interval list \<times> nat list \<times> cg_spill_slots) outcome" where
  "scan_steps policy [] s = Inr s"
| "scan_steps policy (cur # order) s = bind_outcome (scan_step policy cur s) (scan_steps policy order)"

text \<open>\<open>junk\<close> is the uninitialised scratch array of the sort.\<close>

definition cg_linear_scan ::
  "scan_policy \<Rightarrow> nat \<Rightarrow> nat list \<Rightarrow> cg_interval list \<Rightarrow> cg_spill_slots \<Rightarrow> (cg_interval list \<times> cg_spill_slots) outcome" where
  "cg_linear_scan policy nvregs junk ivs slots =
     (let order = cgf_sort_stable (interval_start_cmp ivs) 8 junk (filter (\<lambda>v. iv_live (ivs ! v)) [1..<nvregs + 1])
      in bind_outcome (scan_steps policy order (ivs, [], slots)) (\<lambda>(ivs', _, slots'). Inr (ivs', slots')))"

interpretation iso: sort_order "interval_start_cmp ivs" for ivs
  by unfold_locales (auto simp: interval_start_cmp_def Let_def split: if_splits)

section \<open>Spill slots\<close>

text \<open>
  Offsets are negative displacements; \<open>unat (- off)\<close> is how far below the frame base a slot starts, and
  the slot occupies the bytes from there up to its size.
\<close>

abbreviation depth :: "u32 \<Rightarrow> nat" where
  "depth off \<equiv> unat (- off)"

lemma cg_spill_slot_assign_spec:
  assumes "p < 32" "q < 32" "depth (sl_next_offset slots) + 2 ^ p + 2 ^ q < 2 ^ 32"
  obtains slots' off where "cg_spill_slot_assign slots (2 ^ p) (2 ^ q) = Inr (slots', off)" "off = sl_next_offset slots'" "off \<noteq> 0"
    "depth (sl_next_offset slots) + 2 ^ p \<le> depth off" "depth off < depth (sl_next_offset slots) + 2 ^ p + 2 ^ q" "2 ^ q dvd depth off"
proof -
  define raw :: u32 where "raw = - sl_next_offset slots + 2 ^ p"
  define raw1 :: u32 where "raw1 = (raw + 2 ^ q - 1) AND NOT (2 ^ q - 1)"
  have p: "unat (2 ^ p :: u32) = 2 ^ p" by (rule unat_word_2p) (simp add: assms(1))
  have raw: "unat raw = depth (sl_next_offset slots) + 2 ^ p"
    unfolding raw_def unat_word_ariths p using assms(3) by simp
  have r: "unat raw1 = (unat raw + 2 ^ q - 1) div 2 ^ q * 2 ^ q"
    unfolding raw1_def by (rule word_align_up) (use assms raw in simp_all)
  note b = nat_align_up [of "unat raw" q, folded r, unfolded raw]
  have nz: "raw1 \<noteq> 0" using b(1) by auto
  have dvd: "2 ^ q dvd unat raw1" unfolding r by simp
  define slots' where "slots' = slots\<lparr>sl_next_offset := - raw1, sl_count := sl_count slots + 1\<rparr>"
  have "cg_spill_slot_assign slots (2 ^ p) (2 ^ q) = Inr (slots', - raw1)"
    using word_2p_test [of p, where 'a = 32] word_2p_test [of q, where 'a = 32] assms(1,2)
    by (simp add: cg_spill_slot_assign_def Let_def slots'_def raw1_def raw_def)
  then show thesis by (rule that) (use b(1,2) nz dvd in \<open>simp_all add: slots'_def add.commute add.left_commute\<close>)
qed

text \<open>
  The slots handed out to the registers of \<open>L\<close>, in a list by register: below the part of the frame
  in use before (\<open>base\<close> bytes), aligned, pairwise disjoint, and with room for the registers without one.
\<close>

definition slot_size :: "scan_policy \<Rightarrow> nat \<Rightarrow> nat" where
  "slot_size policy v = unat (lp_spill_size policy v)"

definition slot_align :: "scan_policy \<Rightarrow> nat \<Rightarrow> nat" where
  "slot_align policy v = unat (lp_spill_align policy v)"

definition slots_ok :: "nat \<Rightarrow> scan_policy \<Rightarrow> u32 list \<Rightarrow> u32 \<Rightarrow> bool" where
  "slots_ok base policy ss nxt \<longleftrightarrow>
     (\<forall>v<length ss. ss ! v \<noteq> 0 \<longrightarrow> base + slot_size policy v \<le> depth (ss ! v) \<and> depth (ss ! v) \<le> depth nxt
        \<and> slot_align policy v dvd depth (ss ! v))
     \<and> (\<forall>v<length ss. \<forall>w<length ss. v \<noteq> w \<and> ss ! v \<noteq> 0 \<and> ss ! w \<noteq> 0 \<longrightarrow>
          depth (ss ! v) + slot_size policy w \<le> depth (ss ! w) \<or> depth (ss ! w) + slot_size policy v \<le> depth (ss ! v))
     \<and> base \<le> depth nxt"

definition slots_room :: "scan_policy \<Rightarrow> nat set \<Rightarrow> u32 list \<Rightarrow> u32 \<Rightarrow> bool" where
  "slots_room policy L ss nxt \<longleftrightarrow>
     depth nxt + (\<Sum>v\<in>{v\<in>L. v < length ss \<and> ss ! v = 0}. slot_size policy v + slot_align policy v) < 2 ^ 32"

definition powers :: "scan_policy \<Rightarrow> nat set \<Rightarrow> bool" where
  "powers policy L \<longleftrightarrow> (\<forall>v\<in>L. (\<exists>p<32. lp_spill_size policy v = 2 ^ p) \<and> (\<exists>q<32. lp_spill_align policy v = 2 ^ q))"

lemma slots_ok_push:
  assumes "slots_ok base policy ss nxt" "v < length ss" "depth nxt + slot_size policy v \<le> depth off" "slot_align policy v dvd depth off"
    "ss ! v = 0"
  shows "slots_ok base policy (ss[v := off]) off"
proof -
  have s: "base + slot_size policy w \<le> depth (ss ! w)" "depth (ss ! w) \<le> depth nxt" "slot_align policy w dvd depth (ss ! w)"
    if "w < length ss" "ss ! w \<noteq> 0" for w using assms(1) that unfolding slots_ok_def by blast+
  have b: "base \<le> depth nxt" using assms(1) by (simp add: slots_ok_def)
  have "base + slot_size policy w \<le> depth (ss[v := off] ! w) \<and> depth (ss[v := off] ! w) \<le> depth off
      \<and> slot_align policy w dvd depth (ss[v := off] ! w)" if "w < length ss" "ss[v := off] ! w \<noteq> 0" for w
  proof (cases "w = v")
    case True
    then show ?thesis using assms(2-4) b by simp
  next
    case False
    then show ?thesis using s [of w] that assms(3) by simp
  qed
  moreover have "depth (ss[v := off] ! x) + slot_size policy w \<le> depth (ss[v := off] ! w)
      \<or> depth (ss[v := off] ! w) + slot_size policy x \<le> depth (ss[v := off] ! x)"
    if "x < length ss" "w < length ss" "x \<noteq> w" "ss[v := off] ! x \<noteq> 0" "ss[v := off] ! w \<noteq> 0" for x w
  proof -
    consider "x = v" "w \<noteq> v" | "w = v" "x \<noteq> v" | "x \<noteq> v" "w \<noteq> v" using \<open>x \<noteq> w\<close> by blast
    then show ?thesis
    proof cases
      case 1
      then show ?thesis using s(2) [of w] that assms(2,3) by simp
    next
      case 2
      then show ?thesis using s(2) [of x] that assms(2,3) by simp
    next
      case 3
      then show ?thesis using assms(1) that unfolding slots_ok_def by simp
    qed
  qed
  ultimately show ?thesis using b assms(3) unfolding slots_ok_def by simp
qed

lemma slots_room_push:
  assumes "slots_room policy L ss nxt" "v \<in> L" "v < length ss" "finite L" "ss ! v = 0" "off \<noteq> 0"
    "depth off \<le> depth nxt + slot_size policy v + slot_align policy v"
  shows "slots_room policy L (ss[v := off]) off"
proof -
  let ?f = "\<lambda>v. slot_size policy v + slot_align policy v"
  let ?A = "{w\<in>L. w < length ss \<and> ss ! w = 0}" and ?B = "{w\<in>L. w < length (ss[v := off]) \<and> ss[v := off] ! w = 0}"
  have "?A = insert v ?B" "v \<notin> ?B" using assms(2,3,5,6) by (auto simp: nth_list_update)
  moreover have "finite ?B" using assms(4) by simp
  ultimately have "sum ?f ?A = ?f v + sum ?f ?B" by simp
  then show ?thesis using assms(1,7) unfolding slots_room_def by linarith
qed

lemma spill_spec:
  assumes "slots_ok base policy (map iv_slot ivs) (sl_next_offset slots)" "slots_room policy L (map iv_slot ivs) (sl_next_offset slots)"
    and "powers policy L" "finite L" "v \<in> L" "v < length ivs" "iv_vreg (ivs ! v) = v"
  obtains s slots' where "spill policy v ivs slots = Inr (ivs[v := (ivs ! v)\<lparr>iv_slot := s\<rparr>], slots')" "s \<noteq> 0"
    "slots_ok base policy (map iv_slot (ivs[v := (ivs ! v)\<lparr>iv_slot := s\<rparr>])) (sl_next_offset slots')"
    "slots_room policy L (map iv_slot (ivs[v := (ivs ! v)\<lparr>iv_slot := s\<rparr>])) (sl_next_offset slots')"
proof (cases "iv_slot (ivs ! v) = 0")
  case False
  then have "spill policy v ivs slots = Inr (ivs[v := (ivs ! v)\<lparr>iv_slot := iv_slot (ivs ! v)\<rparr>], slots)" by (simp add: spill_def)
  then show thesis by (rule that) (use False assms in simp_all)
next
  case True
  let ?ss = "map iv_slot ivs" and ?n = "sl_next_offset slots"
  obtain p q where pq: "p < 32" "lp_spill_size policy v = 2 ^ p" "q < 32" "lp_spill_align policy v = 2 ^ q"
    using assms(3,5) unfolding powers_def by blast
  have sz: "slot_size policy v = 2 ^ p" "slot_align policy v = 2 ^ q"
    unfolding slot_size_def slot_align_def pq(2,4) by (rule unat_word_2p; simp add: pq)+
  have "slot_size policy v + slot_align policy v \<le> (\<Sum>v\<in>{v\<in>L. v < length ?ss \<and> ?ss ! v = 0}. slot_size policy v + slot_align policy v)"
    using True assms(4-6) by (intro member_le_sum) auto
  then have room: "depth ?n + 2 ^ p + 2 ^ q < 2 ^ 32" using assms(2) unfolding slots_room_def sz by linarith
  from cg_spill_slot_assign_spec [OF pq(1,3) room] obtain slots' off where
    a: "cg_spill_slot_assign slots (2 ^ p) (2 ^ q) = Inr (slots', off)" "off = sl_next_offset slots'" "off \<noteq> 0"
      "depth ?n + 2 ^ p \<le> depth off" "depth off < depth ?n + 2 ^ p + 2 ^ q" "2 ^ q dvd depth off" by blast
  have eq: "map iv_slot (ivs[v := (ivs ! v)\<lparr>iv_slot := off\<rparr>]) = ?ss[v := off]" by (simp add: map_update)
  show thesis
  proof (rule that [of off slots'])
    show "spill policy v ivs slots = Inr (ivs[v := (ivs ! v)\<lparr>iv_slot := off\<rparr>], slots')"
      using True a(1) by (simp add: spill_def assms(7) pq)
    show "slots_ok base policy (map iv_slot (ivs[v := (ivs ! v)\<lparr>iv_slot := off\<rparr>])) (sl_next_offset slots')"
      unfolding eq a(2) [symmetric] using True assms(1,6) a(4,6) by (intro slots_ok_push) (simp_all add: sz)
    show "slots_room policy L (map iv_slot (ivs[v := (ivs ! v)\<lparr>iv_slot := off\<rparr>])) (sl_next_offset slots')"
      unfolding eq a(2) [symmetric] using True assms a(3) less_imp_le [OF a(5)] by (intro slots_room_push) (simp_all add: sz)
  qed (fact a(3))
qed

section \<open>Linear scan\<close>

definition iv_same :: "cg_interval \<Rightarrow> cg_interval \<Rightarrow> bool" where
  "iv_same a b \<longleftrightarrow> iv_vreg a = iv_vreg b \<and> iv_start a = iv_start b \<and> iv_end a = iv_end b \<and> iv_live a = iv_live b
     \<and> iv_no_spill a = iv_no_spill b \<and> iv_fixed a = iv_fixed b"

definition iv_overlap :: "cg_interval \<Rightarrow> cg_interval \<Rightarrow> bool" where
  "iv_overlap a b \<longleftrightarrow> iv_start a \<le> iv_end b \<and> iv_start b \<le> iv_end a"

text \<open>Two intervals in the same register at the same time, at least one of them by the allocator's choice.\<close>

definition clash :: "cg_interval \<Rightarrow> cg_interval \<Rightarrow> bool" where
  "clash a b \<longleftrightarrow> iv_overlap a b \<and> iv_phys a \<noteq> 0 \<and> iv_phys a = iv_phys b \<and> (iv_fixed a = 0 \<or> iv_fixed b = 0)"

lemma clash_sym: "clash a b \<Longrightarrow> clash b a"
  by (auto simp: clash_def iv_overlap_def)

text \<open>An interval the scan has dealt with: a legal register, or none for one that may be spilled.\<close>

definition placed :: "scan_policy \<Rightarrow> cg_interval \<Rightarrow> bool" where
  "placed policy it \<longleftrightarrow>
     (if iv_fixed it \<noteq> 0 then iv_phys it = iv_fixed it
      else iv_phys it \<noteq> 0 \<longrightarrow> lp_reg_usable policy (iv_vreg it) (iv_phys it - 1) (iv_start it) (iv_end it))
     \<and> (iv_no_spill it \<longrightarrow> iv_phys it \<noteq> 0) \<and> unat (iv_phys it) \<le> lp_nphys_regs policy"

definition scan_inv :: "scan_policy \<Rightarrow> cg_interval list \<Rightarrow> nat set \<Rightarrow> nat \<Rightarrow> cg_interval list \<Rightarrow> nat list \<Rightarrow> bool" where
  "scan_inv policy ivs0 dn now ivs active \<longleftrightarrow>
     length ivs = length ivs0 \<and> (\<forall>v<length ivs. iv_same (ivs0 ! v) (ivs ! v)) \<and> dn \<subseteq> {..<length ivs}
     \<and> distinct active \<and> set active \<subseteq> dn
     \<and> (\<forall>v\<in>dn. iv_start (ivs ! v) \<le> now \<and> (iv_phys (ivs ! v) \<noteq> 0 \<and> now \<le> iv_end (ivs ! v) \<longrightarrow> v \<in> set active))
     \<and> (\<forall>v\<in>dn. placed policy (ivs ! v))
     \<and> (\<forall>v\<in>dn. \<forall>w\<in>dn. v \<noteq> w \<longrightarrow> \<not> clash (ivs ! v) (ivs ! w))
     \<and> (\<forall>v<length ivs. v \<notin> dn \<longrightarrow> iv_phys (ivs ! v) = 0)"

text \<open>Removing by moving the last element into the gap.\<close>

lemma swap_remove:
  assumes "k < length xs"
  shows "take k (butlast (xs[k := last xs])) = take k xs" "mset (drop k (butlast (xs[k := last xs]))) = mset (drop (k + 1) xs)"
proof -
  obtain ys where xs: "xs = take k xs @ xs ! k # ys" using id_take_nth_drop [OF assms] by blast
  define as where "as = take k xs"
  define x where "x = xs ! k"
  have xs': "xs = as @ x # ys" "length as = k" using xs assms by (simp_all add: as_def x_def)
  show "take k (butlast (xs[k := last xs])) = take k xs" "mset (drop k (butlast (xs[k := last xs]))) = mset (drop (k + 1) xs)"
    unfolding xs' using xs'(2) by (cases ys rule: rev_cases; simp add: butlast_append list_update_append)+
qed

lemma expire_mset:
  "mset (expire ivs s k active) = mset (take k active) + filter_mset (\<lambda>v. s \<le> iv_end (ivs ! v)) (mset (drop k active))"
proof (induction ivs s k active rule: expire.induct)
  case (1 ivs s k active)
  show ?case
  proof (cases "k < length active")
    case True
    then have d: "drop k active = active ! k # drop (k + 1) active" by (simp add: Cons_nth_drop_Suc)
    show ?thesis
    proof (cases "iv_end (ivs ! (active ! k)) < s")
      case lt: True
      then show ?thesis
        using "1.IH"(1) [OF True lt] True d swap_remove [OF True] by (subst expire.simps) (simp del: drop_butlast)
    next
      case False
      then show ?thesis
        using "1.IH"(2) [OF True False] True d by (subst expire.simps) (simp add: take_Suc_conv_app_nth)
    qed
  qed (subst expire.simps, simp)
qed

lemma expire_set: "set (expire ivs s 0 active) = {v \<in> set active. s \<le> iv_end (ivs ! v)}"
  using arg_cong [OF expire_mset [of ivs s 0 active], of set_mset] by auto

lemma expire_distinct: "distinct active \<Longrightarrow> distinct (expire ivs s 0 active)"
  using expire_mset [of ivs s 0 active]
  by (metis append_Nil distinct_filter drop0 mset_append mset_filter mset_eq_imp_distinct_iff take0)

lemma scan_inv_expire:
  assumes "scan_inv policy ivs0 dn now ivs active" "now \<le> s"
  shows "scan_inv policy ivs0 dn s ivs (expire ivs s 0 active)"
proof -
  have "iv_start (ivs ! v) \<le> s \<and> (iv_phys (ivs ! v) \<noteq> 0 \<and> s \<le> iv_end (ivs ! v) \<longrightarrow> v \<in> set (expire ivs s 0 active))" if "v \<in> dn" for v
  proof -
    have "iv_start (ivs ! v) \<le> now \<and> (iv_phys (ivs ! v) \<noteq> 0 \<and> now \<le> iv_end (ivs ! v) \<longrightarrow> v \<in> set active)"
      using assms(1) that unfolding scan_inv_def by blast
    then show ?thesis using assms(2) by (auto simp: expire_set)
  qed
  moreover have "distinct (expire ivs s 0 active)" "set (expire ivs s 0 active) \<subseteq> dn"
    using assms(1) by (auto simp: scan_inv_def expire_distinct expire_set)
  ultimately show ?thesis using assms(1) unfolding scan_inv_def by blast
qed

text \<open>The current interval gets register \<open>p\<close> (none if zero) and joins the active ones if it got one.\<close>

lemma scan_inv_assign:
  assumes inv: "scan_inv policy ivs0 dn now ivs active" and cur: "cur < length ivs" "cur \<notin> dn" "iv_start (ivs ! cur) = now"
    and p: "placed policy ((ivs ! cur)\<lparr>iv_phys := p\<rparr>)" "\<And>v. v \<in> dn \<Longrightarrow> \<not> clash (ivs ! v) ((ivs ! cur)\<lparr>iv_phys := p\<rparr>)"
    and act: "distinct active'" "set active' = (if p = 0 then set active else insert cur (set active))"
  shows "scan_inv policy ivs0 (insert cur dn) now (ivs[cur := (ivs ! cur)\<lparr>iv_phys := p\<rparr>]) active'"
proof -
  let ?it = "(ivs ! cur)\<lparr>iv_phys := p\<rparr>"
  let ?ivs = "ivs[cur := ?it]"
  have nth: "?ivs ! v = (if v = cur then ?it else ivs ! v)" if "v < length ivs" for v using that cur(1) by (simp add: nth_list_update)
  have dn: "v < length ivs" "v \<noteq> cur" if "v \<in> dn" for v using inv that cur(2) by (auto simp: scan_inv_def)
  have "iv_same (ivs0 ! v) (?ivs ! v)" if "v < length ivs" for v
    using inv that unfolding scan_inv_def nth [OF that] by (auto simp: iv_same_def)
  moreover have "iv_start (?ivs ! v) \<le> now \<and> (iv_phys (?ivs ! v) \<noteq> 0 \<and> now \<le> iv_end (?ivs ! v) \<longrightarrow> v \<in> set active')"
    if "v \<in> insert cur dn" for v
  proof (cases "v = cur")
    case True
    then show ?thesis using cur act(2) by auto
  next
    case False
    then have "v \<in> dn" using that by blast
    then have "iv_start (ivs ! v) \<le> now \<and> (iv_phys (ivs ! v) \<noteq> 0 \<and> now \<le> iv_end (ivs ! v) \<longrightarrow> v \<in> set active)"
      using inv unfolding scan_inv_def by blast
    then show ?thesis using False act(2) by auto
  qed
  moreover have "placed policy (?ivs ! v)" if "v \<in> insert cur dn" for v
    using that inv p(1) cur(1) by (cases "v = cur") (auto simp: scan_inv_def nth_list_update_neq [of cur v])
  moreover have "\<not> clash (?ivs ! v) (?ivs ! w)" if vw: "v \<in> insert cur dn" "w \<in> insert cur dn" "v \<noteq> w" for v w
  proof -
    have no: "\<not> clash (ivs ! v) (ivs ! w)" if "v \<in> dn" "w \<in> dn" using inv that vw(3) by (auto simp: scan_inv_def)
    consider "v = cur" "w \<in> dn" | "w = cur" "v \<in> dn" | "v \<in> dn" "w \<in> dn" using vw by blast
    then show ?thesis
    proof cases
      case 1
      then show ?thesis using p(2) [of w] clash_sym dn(2) [of w] cur(1) by (auto simp: nth_list_update_neq [of cur w])
    next
      case 2
      then show ?thesis using p(2) [of v] dn(2) [of v] cur(1) by (auto simp: nth_list_update_neq [of cur v])
    next
      case 3
      then show ?thesis using no dn(2) [of v] dn(2) [of w] by (simp add: nth_list_update_neq [of cur v] nth_list_update_neq [of cur w])
    qed
  qed
  moreover have "iv_phys (?ivs ! v) = 0" if "v < length ivs" "v \<notin> insert cur dn" for v
    using inv that by (auto simp: scan_inv_def)
  moreover have "set active' \<subseteq> insert cur dn" using inv act(2) by (auto simp: scan_inv_def)
  moreover have "insert cur dn \<subseteq> {..<length ivs}" "length ivs = length ivs0" using inv cur(1) by (auto simp: scan_inv_def)
  ultimately show ?thesis using act(1) unfolding scan_inv_def length_list_update by blast
qed

text \<open>Taking the register from an active interval that may be spilled.\<close>

lemma scan_inv_evict:
  assumes inv: "scan_inv policy ivs0 dn now ivs active" and far: "far \<in> dn" "iv_fixed (ivs ! far) = 0" "\<not> iv_no_spill (ivs ! far)"
    and act: "distinct active'" "set active' = set active - {far}"
  shows "scan_inv policy ivs0 dn now (ivs[far := (ivs ! far)\<lparr>iv_phys := 0\<rparr>]) active'"
proof -
  let ?it = "(ivs ! far)\<lparr>iv_phys := 0\<rparr>"
  let ?ivs = "ivs[far := ?it]"
  have len: "v < length ivs" if "v \<in> dn" for v using inv that by (auto simp: scan_inv_def)
  have nth: "?ivs ! v = (if v = far then ?it else ivs ! v)" if "v < length ivs" for v using that by simp
  have z: "\<not> clash ?it x" "\<not> clash x ?it" for x by (simp_all add: clash_def)
  have "iv_same (ivs0 ! v) (?ivs ! v)" if "v < length ivs" for v
    using inv that unfolding scan_inv_def nth [OF that] by (auto simp: iv_same_def)
  moreover have "iv_start (?ivs ! v) \<le> now \<and> (iv_phys (?ivs ! v) \<noteq> 0 \<and> now \<le> iv_end (?ivs ! v) \<longrightarrow> v \<in> set active')" if "v \<in> dn" for v
    using inv that len [OF that] act(2) unfolding scan_inv_def by (cases "v = far") auto
  moreover have "placed policy (?ivs ! v)" if "v \<in> dn" for v
    using inv that len [OF that] far(2,3) unfolding scan_inv_def by (cases "v = far") (auto simp: placed_def)
  moreover have "\<not> clash (?ivs ! v) (?ivs ! w)" if "v \<in> dn" "w \<in> dn" "v \<noteq> w" for v w
    using inv that unfolding scan_inv_def nth [OF len [OF that(1)]] nth [OF len [OF that(2)]] by (auto simp: z)
  moreover have "iv_phys (?ivs ! v) = 0" if "v < length ivs" "v \<notin> dn" for v using inv that by (auto simp: scan_inv_def nth)
  moreover have "dn \<subseteq> {..<length ivs}" "length ivs = length ivs0" "set active' \<subseteq> dn" using inv act(2) by (auto simp: scan_inv_def)
  ultimately show ?thesis using act(1) unfolding scan_inv_def length_list_update by blast
qed

lemma clash_slot [simp]: "clash (a\<lparr>iv_slot := s\<rparr>) b = clash a b" "clash a (b\<lparr>iv_slot := s\<rparr>) = clash a b"
  by (simp_all add: clash_def iv_overlap_def)

lemma placed_slot [simp]: "placed policy (a\<lparr>iv_slot := s\<rparr>) = placed policy a"
  by (simp add: placed_def)

lemma scan_inv_slot:
  assumes "scan_inv policy ivs0 dn now ivs active" "v < length ivs"
  shows "scan_inv policy ivs0 dn now (ivs[v := (ivs ! v)\<lparr>iv_slot := s\<rparr>]) active"
proof -
  let ?ivs = "ivs[v := (ivs ! v)\<lparr>iv_slot := s\<rparr>]"
  have nth: "?ivs ! w = (if w = v then (ivs ! v)\<lparr>iv_slot := s\<rparr> else ivs ! w)" for w using assms(2) by (simp add: nth_list_update)
  have f: "iv_phys (?ivs ! w) = iv_phys (ivs ! w)" "iv_start (?ivs ! w) = iv_start (ivs ! w)" "iv_end (?ivs ! w) = iv_end (ivs ! w)"
    "placed policy (?ivs ! w) = placed policy (ivs ! w)" "clash (?ivs ! w) (?ivs ! x) = clash (ivs ! w) (ivs ! x)"
    "iv_same a (?ivs ! w) = iv_same a (ivs ! w)" for w x a by (simp_all add: nth iv_same_def)
  show ?thesis using assms(1) unfolding scan_inv_def f length_list_update .
qed

section \<open>Choosing a register\<close>

lemma mark_used_value:
  assumes "\<forall>v\<in>set vs. unat (iv_phys (ivs ! v)) \<le> lp_nphys_regs policy" "length used = lp_nphys_regs policy"
  obtains used' where "mark_used policy ivs vs used = Inr used'" "length used' = lp_nphys_regs policy"
    "\<And>r. r < lp_nphys_regs policy \<Longrightarrow> used' ! r \<longleftrightarrow> used ! r \<or> (\<exists>v\<in>set vs. unat (iv_phys (ivs ! v)) = r + 1)"
proof -
  have "\<exists>used'. mark_used policy ivs vs used = Inr used' \<and> length used' = lp_nphys_regs policy
    \<and> (\<forall>r<lp_nphys_regs policy. used' ! r \<longleftrightarrow> used ! r \<or> (\<exists>v\<in>set vs. unat (iv_phys (ivs ! v)) = r + 1))"
    using assms
  proof (induction vs arbitrary: used)
    case (Cons v vs)
    define p where "p = unat (iv_phys (ivs ! v))"
    define used1 where "used1 = (if p \<noteq> 0 then used[p - 1 := True] else used)"
    have p: "p \<le> lp_nphys_regs policy" using Cons.prems by (simp add: p_def)
    have l: "length used1 = lp_nphys_regs policy" using Cons.prems by (simp add: used1_def)
    have u: "used1 ! r \<longleftrightarrow> used ! r \<or> p = r + 1" if "r < lp_nphys_regs policy" for r
      using that Cons.prems(2) p by (cases "p = r + 1") (auto simp: used1_def nth_list_update)
    from Cons.IH [of used1] Cons.prems(1) l obtain used' where
      "mark_used policy ivs vs used1 = Inr used'" "length used' = lp_nphys_regs policy"
      "\<forall>r<lp_nphys_regs policy. used' ! r \<longleftrightarrow> used1 ! r \<or> (\<exists>v\<in>set vs. unat (iv_phys (ivs ! v)) = r + 1)" by auto
    moreover have "mark_used policy ivs (v # vs) used = mark_used policy ivs vs used1"
      using p by (simp add: Let_def p_def used1_def)
    ultimately show ?case using u by (auto simp: p_def)
  qed simp
  then show thesis using that by blast
qed

lemma pick_reg_value:
  assumes "\<forall>r\<in>set regs. unat r < lp_nphys_regs policy" "lp_nphys_regs policy \<le> 255"
  obtains (none) "pick_reg policy it used regs = Inr 0"
  | (found) r where "pick_reg policy it used regs = Inr (r + 1)" "r + 1 \<noteq> 0" "unat (r + 1) = unat r + 1" "r \<in> set regs"
      "\<not> used ! unat r" "lp_reg_usable policy (iv_vreg it) r (iv_start it) (iv_end it)"
proof -
  have w: "r + 1 \<noteq> 0" "unat (r + 1) = unat r + 1" if "unat r < lp_nphys_regs policy" for r :: u8
  proof -
    have "unat (r + 1) = unat r + 1" using that assms(2) by (simp add: unat_word_ariths)
    then show "r + 1 \<noteq> 0" "unat (r + 1) = unat r + 1" by (auto simp: unat_eq_0 [symmetric] simp del: unat_eq_zero)
  qed
  have "pick_reg policy it used regs = Inr 0 \<or> (\<exists>r\<in>set regs. pick_reg policy it used regs = Inr (r + 1)
      \<and> \<not> used ! unat r \<and> lp_reg_usable policy (iv_vreg it) r (iv_start it) (iv_end it))"
    using assms(1) by (induction policy it used regs rule: pick_reg.induct) auto
  then show thesis using w assms(1) none found by blast
qed

lemma pick_far_value:
  "pick_far policy ivs cur cs far = Some f \<Longrightarrow> far = Some f \<or> f \<in> set cs \<and> iv_fixed (ivs ! f) = 0 \<and> \<not> iv_no_spill (ivs ! f)
     \<and> iv_phys (ivs ! f) \<noteq> 0 \<and> lp_reg_usable policy (iv_vreg (ivs ! cur)) (iv_phys (ivs ! f) - 1) (iv_start (ivs ! cur)) (iv_end (ivs ! cur))"
  by (induction policy ivs cur cs far rule: pick_far.induct) (fastforce simp: Let_def split: if_splits option.splits)+

lemma replace_first_set:
  "distinct xs \<Longrightarrow> far \<in> set xs \<Longrightarrow> cur \<notin> set xs \<Longrightarrow>
     distinct (replace_first far cur xs) \<and> set (replace_first far cur xs) = insert cur (set xs - {far})"
  by (induction far cur xs rule: replace_first.induct) auto

section \<open>The scan\<close>

text \<open>
  What the backend provides: at most 255 registers, pools and fixed registers in range, spill slots
  of power-of-two size and alignment, and a \<open>reg_usable\<close> that refuses a register which an interval
  fixed to it occupies at the same time, as its contract in shared.h says.
\<close>

definition scan_input :: "scan_policy \<Rightarrow> cg_interval list \<Rightarrow> nat set \<Rightarrow> bool" where
  "scan_input policy ivs L \<longleftrightarrow>
     lp_nphys_regs policy \<le> 255 \<and> finite L \<and> powers policy L
     \<and> (\<forall>v\<in>L. v < length ivs \<and> iv_vreg (ivs ! v) = v \<and> unat (iv_fixed (ivs ! v)) \<le> lp_nphys_regs policy
          \<and> (\<forall>r\<in>set (lp_pool policy v). unat r < lp_nphys_regs policy))
     \<and> (\<forall>v\<in>L. \<forall>w\<in>L. iv_fixed (ivs ! v) = 0 \<and> iv_fixed (ivs ! w) \<noteq> 0
          \<and> lp_reg_usable policy v (iv_fixed (ivs ! w) - 1) (iv_start (ivs ! v)) (iv_end (ivs ! v))
          \<longrightarrow> \<not> iv_overlap (ivs ! v) (ivs ! w))"

definition scan_ok ::
  "nat \<Rightarrow> scan_policy \<Rightarrow> cg_interval list \<Rightarrow> nat set \<Rightarrow> nat set \<Rightarrow> nat \<Rightarrow> cg_interval list \<times> nat list \<times> cg_spill_slots \<Rightarrow> bool" where
  "scan_ok base policy ivs0 L dn now s \<longleftrightarrow>
     (case s of (ivs, active, slots) \<Rightarrow> scan_inv policy ivs0 dn now ivs active \<and> dn \<subseteq> L
        \<and> slots_ok base policy (map iv_slot ivs) (sl_next_offset slots) \<and> slots_room policy L (map iv_slot ivs) (sl_next_offset slots)
        \<and> (\<forall>v\<in>dn. iv_phys (ivs ! v) = 0 \<longrightarrow> iv_slot (ivs ! v) \<noteq> 0))"

abbreviation no_register :: abort where
  "no_register \<equiv> ICE ''linear scan: must be in a register and none is available''"

lemma scan_same:
  assumes "scan_inv policy ivs0 dn now ivs active" "v < length ivs0"
  shows "v < length ivs" "iv_vreg (ivs ! v) = iv_vreg (ivs0 ! v)" "iv_start (ivs ! v) = iv_start (ivs0 ! v)"
    "iv_end (ivs ! v) = iv_end (ivs0 ! v)" "iv_no_spill (ivs ! v) = iv_no_spill (ivs0 ! v)" "iv_fixed (ivs ! v) = iv_fixed (ivs0 ! v)"
  using assms by (auto simp: scan_inv_def iv_same_def)

lemma phys_keeps_slots: "map iv_slot (ivs[v := (ivs ! v)\<lparr>iv_phys := p\<rparr>]) = map iv_slot ivs"
  by (cases "v < length ivs") (simp_all add: map_update list_update_same_conv list_update_beyond)

lemma scan_spill_cur:
  assumes ok: "scan_ok base policy ivs0 L dn now (ivs, active, slots)" and inp: "scan_input policy ivs0 L"
    and cur: "cur \<in> L" "cur \<notin> dn" "iv_start (ivs ! cur) = now" "iv_fixed (ivs ! cur) = 0" "\<not> iv_no_spill (ivs ! cur)"
  obtains s where "bind_outcome (spill policy cur ivs slots) (\<lambda>(ivs', slots'). Inr (ivs', active, slots')) = Inr s"
    "scan_ok base policy ivs0 L (insert cur dn) now s"
proof -
  have inv: "scan_inv policy ivs0 dn now ivs active" using ok by (simp add: scan_ok_def)
  have len: "cur < length ivs0" "iv_vreg (ivs0 ! cur) = cur" using inp cur(1) by (auto simp: scan_input_def)
  note same = scan_same [OF inv len(1)]
  have z: "iv_phys (ivs ! cur) = 0" using inv cur(2) same(1) by (simp add: scan_inv_def)
  then have "ivs[cur := (ivs ! cur)\<lparr>iv_phys := 0\<rparr>] = ivs" using same(1) by (simp add: list_update_same_conv)
  moreover have "distinct active" using inv by (simp add: scan_inv_def)
  ultimately have inv1: "scan_inv policy ivs0 (insert cur dn) now ivs active"
    using scan_inv_assign [OF inv same(1) cur(2,3), of 0 active] cur(4,5) by (simp add: placed_def clash_def)
  obtain t slots' where sp: "spill policy cur ivs slots = Inr (ivs[cur := (ivs ! cur)\<lparr>iv_slot := t\<rparr>], slots')" "t \<noteq> 0"
    "slots_ok base policy (map iv_slot (ivs[cur := (ivs ! cur)\<lparr>iv_slot := t\<rparr>])) (sl_next_offset slots')"
    "slots_room policy L (map iv_slot (ivs[cur := (ivs ! cur)\<lparr>iv_slot := t\<rparr>])) (sl_next_offset slots')"
    using spill_spec [of base policy ivs slots L cur] ok inp cur(1) same(1,2) len(2) by (auto simp: scan_ok_def scan_input_def)
  have "scan_ok base policy ivs0 L (insert cur dn) now (ivs[cur := (ivs ! cur)\<lparr>iv_slot := t\<rparr>], active, slots')"
    using ok cur(1,2) sp(2-4) scan_inv_slot [OF inv1 same(1), of t] same(1) by (auto simp: scan_ok_def nth_list_update)
  then show thesis using that sp(1) by simp
qed

text \<open>No active interval that overlaps the current one holds the register.\<close>

lemma no_clash_free:
  assumes "scan_inv policy ivs0 dn now ivs active" "iv_start it = now" "v \<in> dn"
    and "\<And>w. w \<in> set active \<Longrightarrow> w \<in> dn \<Longrightarrow> w = v \<Longrightarrow> iv_phys (ivs ! w) \<noteq> 0 \<Longrightarrow> iv_phys (ivs ! w) \<noteq> iv_phys it"
  shows "\<not> clash (ivs ! v) it"
proof
  assume c: "clash (ivs ! v) it"
  then have "iv_phys (ivs ! v) \<noteq> 0" "now \<le> iv_end (ivs ! v)" using assms(2) by (auto simp: clash_def iv_overlap_def)
  then have "v \<in> set active" using assms(1,3) unfolding scan_inv_def by blast
  then show False using assms(3,4) c by (auto simp: clash_def)
qed

lemma scan_fixed:
  assumes ok: "scan_ok base policy ivs0 L dn now (ivs, active, slots)" and inp: "scan_input policy ivs0 L"
    and cur: "cur \<in> L" "cur \<notin> dn" "iv_start (ivs ! cur) = now" "iv_fixed (ivs ! cur) \<noteq> 0"
  shows "scan_ok base policy ivs0 L (insert cur dn) now (ivs[cur := (ivs ! cur)\<lparr>iv_phys := iv_fixed (ivs ! cur)\<rparr>], active @ [cur], slots)"
proof -
  have inv: "scan_inv policy ivs0 dn now ivs active" and dnL: "dn \<subseteq> L" using ok by (simp_all add: scan_ok_def)
  have len: "v < length ivs0" "iv_vreg (ivs0 ! v) = v" "unat (iv_fixed (ivs0 ! v)) \<le> lp_nphys_regs policy" if "v \<in> L" for v
    using inp that by (auto simp: scan_input_def)
  note same = scan_same [OF inv len(1) [OF cur(1)]]
  have noclash: "\<not> clash (ivs ! v) ((ivs ! cur)\<lparr>iv_phys := iv_fixed (ivs ! cur)\<rparr>)" if v: "v \<in> dn" for v
  proof
    assume c: "clash (ivs ! v) ((ivs ! cur)\<lparr>iv_phys := iv_fixed (ivs ! cur)\<rparr>)"
    have vL: "v \<in> L" using v dnL by blast
    note sv = scan_same [OF inv len(1) [OF vL]]
    have "iv_fixed (ivs ! v) = 0" "iv_phys (ivs ! v) = iv_fixed (ivs ! cur)" "iv_overlap (ivs0 ! v) (ivs0 ! cur)" "iv_phys (ivs ! v) \<noteq> 0"
      using c cur(4) sv same by (auto simp: clash_def iv_overlap_def)
    moreover have "placed policy (ivs ! v)" using inv v by (simp add: scan_inv_def)
    ultimately have "lp_reg_usable policy v (iv_fixed (ivs0 ! cur) - 1) (iv_start (ivs0 ! v)) (iv_end (ivs0 ! v))"
      using sv same(6) len(2) [OF vL] by (simp add: placed_def)
    then show False
      using inp vL cur(1,4) \<open>iv_fixed (ivs ! v) = 0\<close> \<open>iv_overlap (ivs0 ! v) (ivs0 ! cur)\<close> sv(6) same(6) unfolding scan_input_def by auto
  qed
  have "distinct (active @ [cur])" using inv cur(2) by (auto simp: scan_inv_def)
  then have "scan_inv policy ivs0 (insert cur dn) now (ivs[cur := (ivs ! cur)\<lparr>iv_phys := iv_fixed (ivs ! cur)\<rparr>]) (active @ [cur])"
    using scan_inv_assign [OF inv same(1) cur(2,3) _ noclash] cur(4) len(3) [OF cur(1)] same(6) by (simp add: placed_def)
  then show ?thesis
    using ok cur(1,4) same(1) unfolding scan_ok_def by (auto simp: phys_keeps_slots nth_list_update)
qed

lemma scan_take:
  assumes ok: "scan_ok base policy ivs0 L dn now (ivs, active, slots)" and inp: "scan_input policy ivs0 L"
    and cur: "cur \<in> L" "cur \<notin> dn" "iv_start (ivs ! cur) = now" "iv_fixed (ivs ! cur) = 0"
    and p: "p \<noteq> 0" "unat p \<le> lp_nphys_regs policy" "\<And>v. v \<in> set active \<Longrightarrow> iv_phys (ivs ! v) \<noteq> p"
      "lp_reg_usable policy (iv_vreg (ivs ! cur)) (p - 1) (iv_start (ivs ! cur)) (iv_end (ivs ! cur))"
    and act: "distinct active'" "set active' = insert cur (set active)"
  shows "scan_ok base policy ivs0 L (insert cur dn) now (ivs[cur := (ivs ! cur)\<lparr>iv_phys := p\<rparr>], active', slots)"
proof -
  have inv: "scan_inv policy ivs0 dn now ivs active" using ok by (simp add: scan_ok_def)
  have len: "cur < length ivs0" using inp cur(1) by (auto simp: scan_input_def)
  note same = scan_same [OF inv len]
  have "\<not> clash (ivs ! v) ((ivs ! cur)\<lparr>iv_phys := p\<rparr>)" if "v \<in> dn" for v
    by (rule no_clash_free [OF inv]) (use that p(3) cur(3) in simp_all)
  then have "scan_inv policy ivs0 (insert cur dn) now (ivs[cur := (ivs ! cur)\<lparr>iv_phys := p\<rparr>]) active'"
    using scan_inv_assign [OF inv same(1) cur(2,3) _ _ act(1)] cur(4) p act(2) by (simp add: placed_def)
  then show ?thesis
    using ok cur(1) p(1) same(1) unfolding scan_ok_def by (auto simp: phys_keeps_slots nth_list_update)
qed

lemma scan_evict:
  assumes ok: "scan_ok base policy ivs0 L dn now (ivs, active, slots)" and inp: "scan_input policy ivs0 L"
    and live: "\<And>v. v \<in> set active \<Longrightarrow> now \<le> iv_end (ivs ! v)"
    and cur: "cur \<in> L" "cur \<notin> dn" "iv_start (ivs ! cur) = now" "iv_fixed (ivs ! cur) = 0"
    and far: "far \<in> set active" "iv_fixed (ivs ! far) = 0" "\<not> iv_no_spill (ivs ! far)" "iv_phys (ivs ! far) \<noteq> 0"
      "lp_reg_usable policy (iv_vreg (ivs ! cur)) (iv_phys (ivs ! far) - 1) (iv_start (ivs ! cur)) (iv_end (ivs ! cur))"
  obtains ivs' slots' where
    "spill policy far ((ivs[cur := (ivs ! cur)\<lparr>iv_phys := iv_phys (ivs ! far)\<rparr>])[far := (ivs ! far)\<lparr>iv_phys := 0\<rparr>]) slots = Inr (ivs', slots')"
    "scan_ok base policy ivs0 L (insert cur dn) now (ivs', replace_first far cur active, slots')"
proof -
  have inv: "scan_inv policy ivs0 dn now ivs active" and dnL: "dn \<subseteq> L" using ok by (simp_all add: scan_ok_def)
  have farD: "far \<in> dn" using inv far(1) by (auto simp: scan_inv_def)
  have ne: "far \<noteq> cur" using farD cur(2) by blast
  have len: "v < length ivs0" "iv_vreg (ivs0 ! v) = v" if "v \<in> L" for v using inp that by (auto simp: scan_input_def)
  note sc = scan_same [OF inv len(1) [OF cur(1)]]
  have farL: "far \<in> L" using farD dnL by blast
  note sf = scan_same [OF inv len(1) [OF farL]]
  define ivs1 where "ivs1 = ivs[far := (ivs ! far)\<lparr>iv_phys := 0\<rparr>]"
  let ?rest = "filter (\<lambda>v. v \<noteq> far) active"
  have inv1: "scan_inv policy ivs0 dn now ivs1 ?rest"
    unfolding ivs1_def by (rule scan_inv_evict [OF inv farD far(2,3)]) (use inv in \<open>auto simp: scan_inv_def\<close>)
  have curfix: "ivs1 ! cur = ivs ! cur" using ne by (simp add: ivs1_def)
  have other: "iv_phys (ivs1 ! v) \<noteq> iv_phys (ivs ! far)" if "v \<in> set ?rest" for v
  proof
    assume eq: "iv_phys (ivs1 ! v) = iv_phys (ivs ! far)"
    have v: "v \<in> set active" "v \<noteq> far" "v \<in> dn" using that inv by (auto simp: scan_inv_def)
    have "iv_start (ivs ! v) \<le> now" "iv_start (ivs ! far) \<le> now" using inv v(3) farD by (auto simp: scan_inv_def)
    then have "iv_overlap (ivs ! far) (ivs ! v)" using live [OF v(1)] live [OF far(1)] by (simp add: iv_overlap_def)
    then have "clash (ivs ! far) (ivs ! v)" using eq v(2) far(2,4) by (simp add: clash_def ivs1_def)
    moreover have "\<forall>v\<in>dn. \<forall>w\<in>dn. v \<noteq> w \<longrightarrow> \<not> clash (ivs ! v) (ivs ! w)" using inv by (simp add: scan_inv_def)
    ultimately show False using v(2,3) farD by metis
  qed
  have pn: "unat (iv_phys (ivs ! far)) \<le> lp_nphys_regs policy" using inv farD by (simp add: scan_inv_def placed_def)
  define ivs2 where "ivs2 = ivs1[cur := (ivs ! cur)\<lparr>iv_phys := iv_phys (ivs ! far)\<rparr>]"
  have swap: "ivs2 = (ivs[cur := (ivs ! cur)\<lparr>iv_phys := iv_phys (ivs ! far)\<rparr>])[far := (ivs ! far)\<lparr>iv_phys := 0\<rparr>]"
    unfolding ivs2_def ivs1_def using ne by (simp add: list_update_swap)
  have slots2: "map iv_slot ivs2 = map iv_slot ivs"
    unfolding ivs2_def curfix [symmetric] phys_keeps_slots unfolding ivs1_def by (rule phys_keeps_slots)
  have rf: "distinct (replace_first far cur active)" "set (replace_first far cur active) = insert cur (set ?rest)"
    using replace_first_set [of active far cur] inv far(1) cur(2) by (auto simp: scan_inv_def)
  have noclash: "\<not> clash (ivs1 ! v) ((ivs1 ! cur)\<lparr>iv_phys := iv_phys (ivs ! far)\<rparr>)" if "v \<in> dn" for v
    by (rule no_clash_free [OF inv1]) (use that other cur(3) curfix in simp_all)
  have c1: "cur < length ivs1" "iv_start (ivs1 ! cur) = now" using sc(1) cur(3) curfix by (simp_all add: ivs1_def)
  have pl: "placed policy ((ivs1 ! cur)\<lparr>iv_phys := iv_phys (ivs ! far)\<rparr>)"
    unfolding curfix using cur(4) far(4,5) pn by (simp add: placed_def)
  have inv2: "scan_inv policy ivs0 (insert cur dn) now ivs2 (replace_first far cur active)"
    using scan_inv_assign [OF inv1 c1(1) cur(2) c1(2) pl noclash rf(1)] rf(2) far(4) by (simp add: ivs2_def curfix)
  obtain t slots' where sp: "spill policy far ivs2 slots = Inr (ivs2[far := (ivs2 ! far)\<lparr>iv_slot := t\<rparr>], slots')" "t \<noteq> 0"
    "slots_ok base policy (map iv_slot (ivs2[far := (ivs2 ! far)\<lparr>iv_slot := t\<rparr>])) (sl_next_offset slots')"
    "slots_room policy L (map iv_slot (ivs2[far := (ivs2 ! far)\<lparr>iv_slot := t\<rparr>])) (sl_next_offset slots')"
    using spill_spec [of base policy ivs2 slots L far] ok inp farL scan_same(1,2) [OF inv2 len(1) [OF farL]] len(2) [OF farL] slots2
    by (auto simp: scan_ok_def scan_input_def)
  have l2: "far < length ivs2" "length ivs2 = length ivs" using sf(1) by (simp_all add: ivs2_def ivs1_def)
  have slotted: "iv_slot ((ivs2[far := (ivs2 ! far)\<lparr>iv_slot := t\<rparr>]) ! v) \<noteq> 0"
    if "v \<in> insert cur dn" "iv_phys ((ivs2[far := (ivs2 ! far)\<lparr>iv_slot := t\<rparr>]) ! v) = 0" for v
  proof (cases "v = far")
    case True
    then show ?thesis using l2(1) sp(2) by simp
  next
    case False
    then have p0: "iv_phys (ivs2 ! v) = 0" using that(2) by simp
    then have "v \<noteq> cur" using far(4) c1(1) by (auto simp: ivs2_def)
    then have "v \<in> dn" "ivs2 ! v = ivs ! v" using that(1) False by (auto simp: ivs2_def ivs1_def)
    then show ?thesis using ok p0 False by (simp add: scan_ok_def)
  qed
  have "scan_ok base policy ivs0 L (insert cur dn) now (ivs2[far := (ivs2 ! far)\<lparr>iv_slot := t\<rparr>], replace_first far cur active, slots')"
    using scan_inv_slot [OF inv2 l2(1), of t] dnL cur(1) sp(3,4) slotted by (simp add: scan_ok_def)
  with sp(1) show thesis unfolding swap by (rule that)
qed

lemma scan_step_ok:
  assumes ok: "scan_ok base policy ivs0 L dn now s" and inp: "scan_input policy ivs0 L"
    and cur: "cur \<in> L" "cur \<notin> dn" "now \<le> iv_start (ivs0 ! cur)"
  shows "scan_step policy cur s = Inl no_register \<and> iv_no_spill (ivs0 ! cur)
    \<or> (\<exists>s'. scan_step policy cur s = Inr s' \<and> scan_ok base policy ivs0 L (insert cur dn) (iv_start (ivs0 ! cur)) s')"
proof -
  obtain ivs active0 slots where s: "s = (ivs, active0, slots)" by (cases s)
  have inv0: "scan_inv policy ivs0 dn now ivs active0" using ok by (simp add: s scan_ok_def)
  have len: "cur < length ivs0" "iv_vreg (ivs0 ! cur) = cur" "unat (iv_fixed (ivs0 ! cur)) \<le> lp_nphys_regs policy"
    "\<forall>r\<in>set (lp_pool policy cur). unat r < lp_nphys_regs policy" "lp_nphys_regs policy \<le> 255"
    using inp cur(1) by (auto simp: scan_input_def)
  note same = scan_same [OF inv0 len(1)]
  define t where "t = iv_start (ivs0 ! cur)"
  define active where "active = expire ivs t 0 active0"
  have ok1: "scan_ok base policy ivs0 L dn t (ivs, active, slots)"
    using ok scan_inv_expire [OF inv0 cur(3)] by (simp add: s scan_ok_def active_def t_def)
  have inv: "scan_inv policy ivs0 dn t ivs active" using ok1 by (simp add: scan_ok_def)
  have st: "iv_start (ivs ! cur) = t" using same(3) by (simp add: t_def)
  have live: "t \<le> iv_end (ivs ! v)" if "v \<in> set active" for v using that by (simp add: active_def expire_set)
  have z: "iv_phys (ivs ! cur) = 0" using inv0 cur(2) same(1) by (simp add: scan_inv_def)
  have id: "ivs[cur := (ivs ! cur)\<lparr>iv_phys := 0\<rparr>] = ivs" using z same(1) by (simp add: list_update_same_conv)
  note unfold = scan_step_def Let_def s prod.case active_def [symmetric] st
  show ?thesis
  proof (cases "iv_fixed (ivs ! cur) = 0")
    case False
    then show ?thesis using scan_fixed [OF ok1 inp cur(1,2) st False] len(3) same(6) by (simp add: unfold t_def [symmetric])
  next
    case free: True
    have spilled: ?thesis
      if "\<not> iv_no_spill (ivs ! cur)"
        "scan_step policy cur s = bind_outcome (spill policy cur ivs slots) (\<lambda>(ivs', slots'). Inr (ivs', active, slots'))"
      using scan_spill_cur [OF ok1 inp cur(1,2) st free that(1)] that(2) unfolding t_def by metis
    show ?thesis
    proof (cases "lp_spill_all policy \<and> \<not> iv_no_spill (ivs ! cur)")
      case True
      then show ?thesis using free by (intro spilled) (simp_all add: unfold)
    next
      case False
      have bnd: "\<forall>v\<in>set active. unat (iv_phys (ivs ! v)) \<le> lp_nphys_regs policy"
        using inv by (auto simp: scan_inv_def placed_def)
      obtain used where used: "mark_used policy ivs active (replicate (lp_nphys_regs policy) False) = Inr used"
        "\<And>r. r < lp_nphys_regs policy \<Longrightarrow> used ! r \<longleftrightarrow> (\<exists>v\<in>set active. unat (iv_phys (ivs ! v)) = r + 1)"
        by (rule mark_used_value [OF bnd, of "replicate (lp_nphys_regs policy) False"]) auto
      have pool: "lp_pool policy (iv_vreg (ivs ! cur)) = lp_pool policy cur" by (simp only: same(2) len(2))
      consider (none) "pick_reg policy (ivs ! cur) used (lp_pool policy cur) = Inr 0"
        | (found) r where "pick_reg policy (ivs ! cur) used (lp_pool policy cur) = Inr (r + 1)" "r + 1 \<noteq> 0" "unat (r + 1) = unat r + 1"
          "r \<in> set (lp_pool policy cur)" "\<not> used ! unat r"
          "lp_reg_usable policy (iv_vreg (ivs ! cur)) r (iv_start (ivs ! cur)) (iv_end (ivs ! cur))"
        by (rule pick_reg_value [OF len(4,5), of "ivs ! cur" used])
      then show ?thesis
      proof cases
        case (found r)
        have rn: "unat r < lp_nphys_regs policy" using found(4) len(4) by blast
        have "iv_phys (ivs ! v) \<noteq> r + 1" if "v \<in> set active" for v
          using used(2) [OF rn] found(3,5) that by metis
        moreover have "distinct (active @ [cur])" using inv cur(2) by (auto simp: scan_inv_def)
        ultimately have "scan_ok base policy ivs0 L (insert cur dn) t (ivs[cur := (ivs ! cur)\<lparr>iv_phys := r + 1\<rparr>], active @ [cur], slots)"
          using scan_take [OF ok1 inp cur(1,2) st free found(2)] rn found(3,6) by simp
        moreover have "scan_step policy cur s = Inr (ivs[cur := (ivs ! cur)\<lparr>iv_phys := r + 1\<rparr>], active @ [cur], slots)"
          using False free used(1) found(1,2) pool by (auto simp: unfold)
        ultimately show ?thesis by (auto simp: t_def)
      next
        case none
        have step: "scan_step policy cur s = scan_no_reg policy cur ivs active slots"
          using False free used(1) none pool by (auto simp: unfold id)
        show ?thesis
        proof (cases "\<exists>far. pick_far policy ivs cur active None = Some far \<and> (iv_end (ivs ! far) > iv_end (ivs ! cur) \<or> iv_no_spill (ivs ! cur))")
          case True
          then obtain far where far: "pick_far policy ivs cur active None = Some far"
            "iv_end (ivs ! far) > iv_end (ivs ! cur) \<or> iv_no_spill (ivs ! cur)" by blast
          from pick_far_value [OF far(1)] have f: "far \<in> set active" "iv_fixed (ivs ! far) = 0" "\<not> iv_no_spill (ivs ! far)" "iv_phys (ivs ! far) \<noteq> 0"
            "lp_reg_usable policy (iv_vreg (ivs ! cur)) (iv_phys (ivs ! far) - 1) (iv_start (ivs ! cur)) (iv_end (ivs ! cur))" by simp_all
          have ne: "far \<noteq> cur" using f(1) inv cur(2) by (auto simp: scan_inv_def)
          then have nth: "ivs[cur := (ivs ! cur)\<lparr>iv_phys := iv_phys (ivs ! far)\<rparr>] ! far = ivs ! far" by simp
          obtain ivs' slots' where e:
            "spill policy far ((ivs[cur := (ivs ! cur)\<lparr>iv_phys := iv_phys (ivs ! far)\<rparr>])[far := (ivs ! far)\<lparr>iv_phys := 0\<rparr>]) slots = Inr (ivs', slots')"
            "scan_ok base policy ivs0 L (insert cur dn) t (ivs', replace_first far cur active, slots')"
            by (rule scan_evict [OF ok1 inp live cur(1,2) st free f])
          then have "scan_step policy cur s = Inr (ivs', replace_first far cur active, slots')"
            unfolding step using far by (simp add: scan_no_reg_def Let_def nth)
          then show ?thesis using e(2) by (auto simp: t_def)
        next
          case noevict: False
          show ?thesis
          proof (cases "iv_no_spill (ivs ! cur)")
            case True
            then show ?thesis
              using noevict step same(5) by (cases "pick_far policy ivs cur active None") (simp_all add: scan_no_reg_def)
          next
            case False
            then show ?thesis
              using noevict step by (intro spilled) (cases "pick_far policy ivs cur active None"; simp add: scan_no_reg_def)+
          qed
        qed
      qed
    qed
  qed
qed

lemma scan_steps_ok:
  assumes "scan_ok base policy ivs0 L dn now s" and inp: "scan_input policy ivs0 L"
    and "set order \<subseteq> L" "distinct order" "set order \<inter> dn = {}" "sorted_wrt (\<lambda>v w. iv_start (ivs0 ! v) \<le> iv_start (ivs0 ! w)) order"
      "\<forall>v\<in>set order. now \<le> iv_start (ivs0 ! v)"
  shows "scan_steps policy order s = Inl no_register \<and> (\<exists>v\<in>L. iv_no_spill (ivs0 ! v))
    \<or> (\<exists>s' now'. scan_steps policy order s = Inr s' \<and> scan_ok base policy ivs0 L (dn \<union> set order) now' s')"
  using assms(1,3-)
proof (induction order arbitrary: dn now s)
  case Nil
  then show ?case by auto
next
  case (Cons cur order)
  have cur: "cur \<in> L" "cur \<notin> dn" "now \<le> iv_start (ivs0 ! cur)" using Cons.prems by auto
  from scan_step_ok [OF Cons.prems(1) inp cur] show ?case
  proof (elim disjE conjE exE)
    assume "scan_step policy cur s = Inl no_register" "iv_no_spill (ivs0 ! cur)"
    then show ?thesis using cur(1) by auto
  next
    fix s'
    assume s': "scan_step policy cur s = Inr s'" "scan_ok base policy ivs0 L (insert cur dn) (iv_start (ivs0 ! cur)) s'"
    have "insert cur dn \<union> set order = dn \<union> set (cur # order)" by auto
    then show ?thesis using Cons.IH [OF s'(2)] Cons.prems(2-5) s'(1) by simp
  qed
qed

section \<open>The allocator\<close>

definition live_vregs :: "cg_interval list \<Rightarrow> nat \<Rightarrow> nat set" where
  "live_vregs ivs n = {v. 1 \<le> v \<and> v \<le> n \<and> iv_live (ivs ! v)}"

text \<open>What the backend passes: intervals without a register or slot, a legal policy, and room in the frame.\<close>

definition scan_ready :: "scan_policy \<Rightarrow> nat \<Rightarrow> cg_interval list \<Rightarrow> cg_spill_slots \<Rightarrow> bool" where
  "scan_ready policy n ivs slots \<longleftrightarrow>
     length ivs = n + 1 \<and> scan_input policy ivs (live_vregs ivs n) \<and> (\<forall>it\<in>set ivs. iv_phys it = 0 \<and> iv_slot it = 0)
     \<and> depth (sl_next_offset slots) + (\<Sum>v\<in>live_vregs ivs n. slot_size policy v + slot_align policy v) < 2 ^ 32"

text \<open>An allocation: every live register has a legal register or a slot, no clash, and disjoint slots.\<close>

definition allocation :: "scan_policy \<Rightarrow> nat \<Rightarrow> cg_interval list \<Rightarrow> cg_spill_slots \<Rightarrow> cg_interval list \<Rightarrow> cg_spill_slots \<Rightarrow> bool" where
  "allocation policy n ivs slots ivs' slots' \<longleftrightarrow>
     length ivs' = length ivs \<and> (\<forall>v<length ivs. iv_same (ivs ! v) (ivs' ! v))
     \<and> (\<forall>v\<in>live_vregs ivs n. placed policy (ivs' ! v) \<and> (iv_phys (ivs' ! v) = 0 \<longrightarrow> iv_slot (ivs' ! v) \<noteq> 0))
     \<and> (\<forall>v\<in>live_vregs ivs n. \<forall>w\<in>live_vregs ivs n. v \<noteq> w \<longrightarrow> \<not> clash (ivs' ! v) (ivs' ! w))
     \<and> slots_ok (depth (sl_next_offset slots)) policy (map iv_slot ivs') (sl_next_offset slots')"

lemma cg_linear_scan_spec:
  assumes ready: "scan_ready policy n ivs slots" and junk: "n \<le> length junk"
  shows "cg_linear_scan policy n junk ivs slots = Inl no_register \<and> (\<exists>v\<in>live_vregs ivs n. iv_no_spill (ivs ! v))
    \<or> (\<exists>ivs' slots'. cg_linear_scan policy n junk ivs slots = Inr (ivs', slots') \<and> allocation policy n ivs slots ivs' slots')"
proof -
  let ?L = "live_vregs ivs n" and ?base = "depth (sl_next_offset slots)"
  define vs where "vs = filter (\<lambda>v. iv_live (ivs ! v)) [1..<n + 1]"
  define order where "order = cgf_sort_stable (interval_start_cmp ivs) 8 junk vs"
  have len: "length ivs = n + 1" and inp: "scan_input policy ivs ?L" and zero: "\<forall>it\<in>set ivs. iv_phys it = 0 \<and> iv_slot it = 0"
    and room: "?base + (\<Sum>v\<in>?L. slot_size policy v + slot_align policy v) < 2 ^ 32"
    using ready by (simp_all add: scan_ready_def)
  have "length vs \<le> n" using length_filter_le [of "\<lambda>v. iv_live (ivs ! v)" "[1..<n + 1]"] by (simp add: vs_def del: upt_Suc)
  then have "stable_sorted (interval_start_cmp ivs) vs order"
    unfolding order_def using junk by (intro iso.cgf_sort_stable_correct) simp_all
  then have perm: "mset order = mset vs" and srt: "sorted_wrt (\<lambda>v w. \<not> interval_start_cmp ivs w v < 0) order"
    by (simp_all add: stable_sorted_def)
  have set: "set order = ?L" using arg_cong [OF perm, of set_mset] by (auto simp: vs_def live_vregs_def)
  have dist: "distinct order" using perm mset_eq_imp_distinct_iff [of order vs] by (simp add: vs_def del: upt_Suc)
  have srt': "sorted_wrt (\<lambda>v w. iv_start (ivs ! v) \<le> iv_start (ivs ! w)) order"
    by (rule sorted_wrt_mono_rel [OF _ srt]) (auto simp: interval_start_cmp_def Let_def split: if_splits)
  have zs: "map iv_slot ivs = replicate (n + 1) 0" using zero len by (intro nth_equalityI) (simp_all add: nth_mem del: replicate_Suc)
  have "{v \<in> ?L. v < length (map iv_slot ivs) \<and> map iv_slot ivs ! v = 0} = ?L"
    unfolding zs by (auto simp: live_vregs_def nth_replicate simp del: replicate_Suc)
  then have rm: "slots_room policy ?L (map iv_slot ivs) (sl_next_offset slots)" using room by (simp only: slots_room_def)
  have "slots_ok ?base policy (map iv_slot ivs) (sl_next_offset slots)"
    unfolding zs slots_ok_def by (simp add: nth_replicate del: replicate_Suc)
  with rm have "scan_ok ?base policy ivs ?L {} 0 (ivs, [], slots)"
    using zero by (simp add: scan_ok_def scan_inv_def iv_same_def nth_mem)
  from scan_steps_ok [OF this inp _ dist _ srt'] have
    "scan_steps policy order (ivs, [], slots) = Inl no_register \<and> (\<exists>v\<in>?L. iv_no_spill (ivs ! v))
    \<or> (\<exists>s' now'. scan_steps policy order (ivs, [], slots) = Inr s' \<and> scan_ok ?base policy ivs ?L ?L now' s')"
    by (simp add: set)
  moreover have eq: "cg_linear_scan policy n junk ivs slots
      = bind_outcome (scan_steps policy order (ivs, [], slots)) (\<lambda>(ivs', _, slots'). Inr (ivs', slots'))"
    by (simp only: cg_linear_scan_def vs_def order_def Let_def)
  ultimately show ?thesis
  proof (elim disjE exE conjE)
    fix s' now'
    assume s': "scan_steps policy order (ivs, [], slots) = Inr s'" "scan_ok ?base policy ivs ?L ?L now' s'"
    obtain ivs' active slots' where "s' = (ivs', active, slots')" by (cases s')
    then show ?thesis
      using s' unfolding eq by (auto simp: allocation_def scan_ok_def scan_inv_def)
  qed (simp add: eq)
qed

text \<open>
  C31: the register allocator. With a legal policy and room in the frame, linear scan either returns
  an allocation or stops with the internal error for an operand that must be in a register, which
  takes an interval marked so. In the allocation every live interval is where it may be: in its fixed
  register, in a register its policy allows for its whole range, or in a spill slot; intervals that
  must not be spilled are in a register; two intervals that overlap never share a register (unless
  the backend fixed both to it); and the slots are aligned, pairwise disjoint and outside the part of
  the frame in use before.
\<close>

theorem cg_linear_scan_safe:
  assumes "scan_ready policy n ivs slots" "n \<le> length junk"
  shows "cg_linear_scan policy n junk ivs slots = Inl no_register \<and> (\<exists>v\<in>live_vregs ivs n. iv_no_spill (ivs ! v))
    \<or> (\<exists>ivs' slots'. cg_linear_scan policy n junk ivs slots = Inr (ivs', slots') \<and> allocation policy n ivs slots ivs' slots')"
  by (rule cg_linear_scan_spec [OF assms])

text \<open>Three intervals that overlap, one of them fixed to register 0, on a machine with two registers.\<close>

definition two_regs :: scan_policy where
  "two_regs = \<lparr>lp_nphys_regs = 2, lp_spill_all = False, lp_pool = (\<lambda>_. [0, 1]), lp_same_class = (\<lambda>_ _. True),
     lp_reg_usable = (\<lambda>_ r _ _. r \<noteq> 0), lp_spill_size = (\<lambda>_. 8), lp_spill_align = (\<lambda>_. 8)\<rparr>"

definition three_ivs :: "cg_interval list" where
  "three_ivs = [iv_cleared, iv_cleared\<lparr>iv_live := True, iv_vreg := 1, iv_start := 0, iv_end := 9\<rparr>,
     iv_cleared\<lparr>iv_live := True, iv_vreg := 2, iv_start := 1, iv_end := 5, iv_fixed := 1\<rparr>,
     iv_cleared\<lparr>iv_live := True, iv_vreg := 3, iv_start := 2, iv_end := 4\<rparr>]"

definition no_slots :: cg_spill_slots where
  "no_slots = \<lparr>sl_next_offset = 0, sl_count = 0\<rparr>"

lemma three_ivs_live: "live_vregs three_ivs 3 = {1, 2, 3}"
proof -
  have "v \<in> live_vregs three_ivs 3 \<longleftrightarrow> v \<in> {1, 2, 3}" for v
  proof -
    have "1 \<le> v \<and> v \<le> 3 \<longleftrightarrow> v \<in> {1, 2, 3}" by auto
    then show ?thesis by (auto simp: live_vregs_def three_ivs_def iv_cleared_def)
  qed
  then show ?thesis by blast
qed

lemma three_ivs_ready: "scan_ready two_regs 3 three_ivs no_slots"
proof -
  have p: "(8 :: u32) = 2 ^ 3" by simp
  have "powers two_regs {1, 2, 3}" unfolding powers_def two_regs_def using p by (auto intro!: exI [of _ 3])
  then have "scan_input two_regs three_ivs {1, 2, 3}"
    unfolding scan_input_def by (simp add: two_regs_def three_ivs_def iv_cleared_def)
  then show ?thesis
    unfolding scan_ready_def three_ivs_live
    by (simp add: three_ivs_def iv_cleared_def no_slots_def slot_size_def slot_align_def two_regs_def)
qed

theorem cg_linear_scan_safe_witness:
  "\<exists>ivs' slots'. cg_linear_scan two_regs 3 [0, 0, 0] three_ivs no_slots = Inr (ivs', slots')
     \<and> iv_phys (ivs' ! 2) = 1 \<and> iv_phys (ivs' ! 1) \<noteq> 1 \<and> iv_phys (ivs' ! 3) \<noteq> 1 \<and> (iv_slot (ivs' ! 1) \<noteq> 0 \<or> iv_slot (ivs' ! 3) \<noteq> 0)"
proof -
  have nos: "\<not> iv_no_spill (three_ivs ! v)" if "v \<in> live_vregs three_ivs 3" for v
    using that unfolding three_ivs_live by (auto simp: three_ivs_def iv_cleared_def)
  obtain ivs' slots' where a: "cg_linear_scan two_regs 3 [0, 0, 0] three_ivs no_slots = Inr (ivs', slots')"
    "allocation two_regs 3 three_ivs no_slots ivs' slots'"
    using cg_linear_scan_safe [OF three_ivs_ready, of "[0, 0, 0]"] nos by auto
  have same: "iv_same (three_ivs ! v) (ivs' ! v)" if "v \<in> {1, 2, 3}" for v
  proof -
    have "v < length three_ivs" using that by (auto simp: three_ivs_def)
    then show ?thesis using a(2) unfolding allocation_def by blast
  qed
  have pl: "placed two_regs (ivs' ! v)" "iv_phys (ivs' ! v) = 0 \<Longrightarrow> iv_slot (ivs' ! v) \<noteq> 0" if "v \<in> {1, 2, 3}" for v
    using a(2) that unfolding allocation_def three_ivs_live by auto
  have two: "iv_phys (ivs' ! 2) = 1" using same [of 2] pl(1) [of 2] by (simp add: iv_same_def placed_def three_ivs_def)
  have r: "iv_phys (ivs' ! v) = 0 \<or> iv_phys (ivs' ! v) = 2" if "v \<in> {1, 3}" for v
  proof -
    have "iv_fixed (ivs' ! v) = 0" using same [of v] that by (auto simp: iv_same_def three_ivs_def iv_cleared_def)
    then have "iv_phys (ivs' ! v) \<noteq> 0 \<longrightarrow> iv_phys (ivs' ! v) \<noteq> 1" "unat (iv_phys (ivs' ! v)) \<le> 2"
      using pl(1) [of v] that by (auto simp: placed_def two_regs_def)
    then have "unat (iv_phys (ivs' ! v)) = unat (0 :: u8) \<or> unat (iv_phys (ivs' ! v)) = unat (2 :: u8)"
      using word_unat_eq_iff [of "iv_phys (ivs' ! v)" 0] word_unat_eq_iff [of "iv_phys (ivs' ! v)" 1] by auto
    then show ?thesis by (simp only: word_unat_eq_iff)
  qed
  have "\<not> clash (ivs' ! 1) (ivs' ! 3)" using a(2) unfolding allocation_def three_ivs_live by auto
  then have one: "\<not> (iv_phys (ivs' ! 1) = 2 \<and> iv_phys (ivs' ! 3) = 2)"
    using same [of 1] same [of 3] by (auto simp: clash_def iv_overlap_def iv_same_def three_ivs_def iv_cleared_def)
  show ?thesis
    using a(1) two one r [of 1] r [of 3] pl(2) [of 1] pl(2) [of 3] by (intro exI [of _ ivs'] exI [of _ slots']) auto
qed

section \<open>Liveness, intervals and allocation together\<close>

text \<open>The backend decorates the intervals with its constraints between the two passes.\<close>

definition decorated :: "cg_interval list \<Rightarrow> cg_interval list \<Rightarrow> bool" where
  "decorated ivs ivs1 \<longleftrightarrow> length ivs1 = length ivs \<and>
     (\<forall>v<length ivs. \<exists>f ns. ivs1 ! v = (ivs ! v)\<lparr>iv_fixed := f, iv_no_spill := ns\<rparr>)"

lemma decorated_nth:
  assumes "decorated ivs ivs1" "v < length ivs"
  shows "iv_start (ivs1 ! v) = iv_start (ivs ! v)" "iv_end (ivs1 ! v) = iv_end (ivs ! v)" "iv_live (ivs1 ! v) = iv_live (ivs ! v)"
proof -
  obtain f ns where "ivs1 ! v = (ivs ! v)\<lparr>iv_fixed := f, iv_no_spill := ns\<rparr>" using assms by (auto simp: decorated_def)
  then show "iv_start (ivs1 ! v) = iv_start (ivs ! v)" "iv_end (ivs1 ! v) = iv_end (ivs ! v)" "iv_live (ivs1 ! v) = iv_live (ivs ! v)"
    by simp_all
qed

text \<open>
  C3: register allocation end to end. Take the intervals built for a well-formed view, with the
  constraints a backend adds, and run linear scan on them. If two different virtual registers are
  both needed at an instruction, each of them live before it or mentioned by it, then the allocation
  never puts both in the same physical register, unless the backend fixed both there; and each has a
  physical register or a spill slot.
\<close>

theorem needed_together_differ:
  assumes ok: "view_ok view" and build: "cg_intervals_build view (zero_rows view) (zero_rows view) = Inr (li, lo, ivs)"
    and dec: "decorated ivs ivs1" and ready: "scan_ready policy (mv_nvregs view) ivs1 slots" "mv_nvregs view \<le> length junk"
    and scan: "cg_linear_scan policy (mv_nvregs view) junk ivs1 slots = Inr (ivs2, slots')"
    and at: "b < mv_nblocks view" "i < mv_block_ninsts view b" "v \<noteq> w" "v \<le> mv_nvregs view" "w \<le> mv_nvregs view"
      "live_at view b i v \<or> mentions view b i v" "live_at view b i w \<or> mentions view b i w"
  shows "(iv_phys (ivs2 ! v) \<noteq> 0 \<or> iv_slot (ivs2 ! v) \<noteq> 0)
    \<and> (iv_phys (ivs2 ! v) \<noteq> 0 \<and> iv_phys (ivs2 ! v) = iv_phys (ivs2 ! w) \<longrightarrow> iv_fixed (ivs1 ! v) \<noteq> 0 \<and> iv_fixed (ivs1 ! w) \<noteq> 0)"
proof -
  have al: "allocation policy (mv_nvregs view) ivs1 slots ivs2 slots'" using cg_linear_scan_spec [OF ready] scan by auto
  have ivs: "ivs = mark_set {v. crosses_call view v} (spans (mv_nvregs view) (all_touched view))"
    using cg_intervals_build_spans [OF ok] build by (metis Inr_inject prod.inject)
  have len: "length ivs = mv_nvregs view + 1" by (simp add: ivs)
  have cov: "iv_covers (ivs1 ! x) (block_start view b + i)" "x \<in> live_vregs ivs1 (mv_nvregs view)"
    if "live_at view b i x \<or> mentions view b i x" "x \<le> mv_nvregs view" for x
  proof -
    have "iv_covers (span_iv x (all_touched view x)) (block_start view b + i)"
      using that(1) span_covers_live [OF _ at(1)] span_covers_mention [OF _ at(1,2)] by blast
    moreover have "ivs ! x = (span_iv x (all_touched view x))\<lparr>iv_live_across_call := crosses_call view x\<rparr>"
      using that(2) by (auto simp: ivs span_iv_def iv_cleared_def)
    ultimately show c: "iv_covers (ivs1 ! x) (block_start view b + i)"
      using decorated_nth [OF dec, of x] len that(2) by (simp add: iv_covers_def)
    have "x \<noteq> 0" using that(1) live_at_nonzero by (auto simp: mentions_def)
    then show "x \<in> live_vregs ivs1 (mv_nvregs view)" using c that(2) by (simp add: live_vregs_def iv_covers_def)
  qed
  note v = cov [OF at(6,4)] and w = cov [OF at(7,5)]
  have same: "iv_same (ivs1 ! x) (ivs2 ! x)" if "x \<le> mv_nvregs view" for x
    using al that len dec by (simp add: allocation_def decorated_def)
  have "iv_overlap (ivs2 ! v) (ivs2 ! w)"
    using v(1) w(1) same [OF at(4)] same [OF at(5)] unfolding iv_covers_def iv_overlap_def iv_same_def by linarith
  moreover have "\<not> clash (ivs2 ! v) (ivs2 ! w)" using al v(2) w(2) at(3) by (simp add: allocation_def)
  moreover have "iv_phys (ivs2 ! v) \<noteq> 0 \<or> iv_slot (ivs2 ! v) \<noteq> 0" using al v(2) by (auto simp: allocation_def)
  ultimately show ?thesis using same [OF at(4)] same [OF at(5)] by (auto simp: clash_def iv_same_def)
qed

definition free_regs :: scan_policy where
  "free_regs = two_regs\<lparr>lp_reg_usable := (\<lambda>_ _ _ _. True)\<rparr>"

theorem needed_together_differ_witness:
  "\<exists>li lo ivs ivs2 slots'. cg_intervals_build call_view (zero_rows call_view) (zero_rows call_view) = Inr (li, lo, ivs)
    \<and> cg_linear_scan free_regs 2 [0, 0] ivs no_slots = Inr (ivs2, slots')
    \<and> (iv_phys (ivs2 ! 1) \<noteq> 0 \<or> iv_slot (ivs2 ! 1) \<noteq> 0) \<and> \<not> (iv_phys (ivs2 ! 1) \<noteq> 0 \<and> iv_phys (ivs2 ! 1) = iv_phys (ivs2 ! 2))"
proof -
  have ok: "view_ok call_view" by (auto simp: view_ok_def call_view_def less_Suc_eq numeral_eq_Suc)
  have n: "mv_nvregs call_view = 2" by (simp add: call_view_def)
  define ivs where "ivs = mark_set {v. crosses_call call_view v} (spans 2 (all_touched call_view))"
  obtain li lo where b: "cg_intervals_build call_view (zero_rows call_view) (zero_rows call_view) = Inr (li, lo, ivs)"
    using cg_intervals_build_spans [OF ok] unfolding n ivs_def by blast
  have nth: "ivs ! v = (span_iv v (all_touched call_view v))\<lparr>iv_live_across_call := crosses_call call_view v\<rparr>" if "v \<le> 2" for v
    using that by (auto simp: ivs_def span_iv_def iv_cleared_def)
  have len: "length ivs = 3" by (simp add: ivs_def)
  have fields: "iv_fixed (ivs ! v) = 0" "\<not> iv_no_spill (ivs ! v)" "iv_phys (ivs ! v) = 0" "iv_slot (ivs ! v) = 0"
    "iv_live (ivs ! v) \<Longrightarrow> iv_vreg (ivs ! v) = v" if "v \<le> 2" for v
    unfolding nth [OF that] by (simp_all add: span_iv_def iv_cleared_def split: if_splits)
  have L: "v \<le> 2" "iv_live (ivs ! v)" if "v \<in> live_vregs ivs 2" for v using that unfolding live_vregs_def by blast+
  have L3: "v < 3" if "v \<in> live_vregs ivs 2" for v using L(1) [OF that] by linarith
  have fin: "finite (live_vregs ivs 2)" "card (live_vregs ivs 2) \<le> 2"
  proof -
    have "live_vregs ivs 2 \<subseteq> {1, 2}" by (auto simp: live_vregs_def)
    then show "finite (live_vregs ivs 2)" "card (live_vregs ivs 2) \<le> 2"
      using finite_subset card_mono [of "{1, 2 :: nat}" "live_vregs ivs 2"] by auto
  qed
  have "(8 :: u32) = 2 ^ 3" by simp
  then have "powers free_regs (live_vregs ivs 2)"
    unfolding powers_def free_regs_def two_regs_def by (auto intro!: exI [of _ 3])
  then have "scan_input free_regs ivs (live_vregs ivs 2)"
    unfolding scan_input_def using L L3 fields fin(1) len by (auto simp: free_regs_def two_regs_def)
  moreover have "\<forall>it\<in>set ivs. iv_phys it = 0 \<and> iv_slot it = 0" using fields(3,4) len by (auto simp: in_set_conv_nth)
  ultimately have ready: "scan_ready free_regs 2 ivs no_slots"
    using fin(2) len by (simp add: scan_ready_def no_slots_def slot_size_def slot_align_def free_regs_def two_regs_def)
  obtain ivs2 slots' where s: "cg_linear_scan free_regs 2 [0, 0] ivs no_slots = Inr (ivs2, slots')"
    using cg_linear_scan_spec [OF ready, of "[0, 0]"] L fields(2) by auto
  have "\<exists>f ns. it = it\<lparr>iv_fixed := f, iv_no_spill := ns\<rparr>" for it :: cg_interval
    by (rule exI [of _ "iv_fixed it"], rule exI [of _ "iv_no_spill it"]) simp
  then have dec: "decorated ivs ivs" by (simp add: decorated_def)
  have "mentions call_view 0 2 2" by (simp add: mentions_def call_view_def)
  moreover have "live_at call_view 0 (2 + 1) 1" by (rule live_use) (simp_all add: call_view_def)
  then have "live_at call_view 0 2 1" by (rule live_next [rotated 2]) (simp_all add: call_view_def)
  ultimately show ?thesis
    using needed_together_differ [OF ok _ dec, of li lo free_regs no_slots "[0, 0]" ivs2 slots' 0 2 1 2] b ready s fields(1) [of 1]
    unfolding n by (intro exI [of _ li] exI [of _ lo] exI [of _ ivs] exI [of _ ivs2] exI [of _ slots']) (auto simp: call_view_def)
qed

end
