(* ===== verification/Lex_Token.thy ===== *)
theory Lex_Token
  imports Cg_Prelude
begin

text \<open>
  The tokens of src/src/lex/lex.h and the target and language parameters the lexer reads. A spelling is
  a character list; its length is the length the code passes beside the pointer. Source locations and
  spans are opaque numbers. Diagnostics are values: severity, message format and arguments.
\<close>

section \<open>Parameters\<close>

datatype c_std = STD_C89 | STD_C99 | STD_C11 | STD_C17 | STD_GNU89 | STD_GNU99 | STD_GNU11 | STD_GNU17

datatype target_kind =
  CGF_TARGET_X86_64_LINUX_GNU | CGF_TARGET_ARM64_LINUX | CGF_TARGET_ARM64_MACOS | CGF_TARGET_X86_64_LINUX_MUSL
| CGF_TARGET_X86_64_FREEBSD

text \<open>The language options the lexer reads.\<close>

record lang_opts =
  lo_std :: c_std
  lo_gnu_mode :: bool
  lo_pedantic :: bool

record int_widths =
  iw_char_bits :: nat
  iw_short_bits :: nat
  iw_int_bits :: nat
  iw_long_bits :: nat
  iw_llong_bits :: nat
  iw_wchar_bits :: nat
  iw_char_signed :: bool

definition cgf_target_int_widths :: "target_kind \<Rightarrow> int_widths" where
  "cgf_target_int_widths t =
     \<lparr>iw_char_bits = 8, iw_short_bits = 16, iw_int_bits = 32, iw_long_bits = 64, iw_llong_bits = 64, iw_wchar_bits = 32,
      iw_char_signed = (case t of
          CGF_TARGET_X86_64_LINUX_GNU \<Rightarrow> True | CGF_TARGET_X86_64_LINUX_MUSL \<Rightarrow> True | CGF_TARGET_X86_64_FREEBSD \<Rightarrow> True
        | CGF_TARGET_ARM64_MACOS \<Rightarrow> True | CGF_TARGET_ARM64_LINUX \<Rightarrow> False)\<rparr>"

definition std_is_c99_or_later :: "c_std \<Rightarrow> bool" where
  "std_is_c99_or_later s \<longleftrightarrow> s \<noteq> STD_C89 \<and> s \<noteq> STD_GNU89"

definition std_is_c11_or_later :: "c_std \<Rightarrow> bool" where
  "std_is_c11_or_later s \<longleftrightarrow> s = STD_C11 \<or> s = STD_C17 \<or> s = STD_GNU11 \<or> s = STD_GNU17"

section \<open>Tokens\<close>

datatype token_kind = TOK_EOF | TOK_IDENT | TOK_KEYWORD | TOK_PUNCT | TOK_INT_CONST | TOK_FLOAT_CONST | TOK_CHAR_CONST | TOK_STRING

datatype enc_prefix = ENC_NONE | ENC_WIDE | ENC_U16 | ENC_U32 | ENC_U8

datatype int_const_type = ITY_INT | ITY_UINT | ITY_LONG | ITY_ULONG | ITY_LLONG | ITY_ULLONG

datatype float_const_type =
  FTY_FLOAT | FTY_DOUBLE | FTY_LDOUBLE | FTY_FLOAT32 | FTY_FLOAT64 | FTY_FLOAT32X | FTY_FLOAT64X | FTY_FLOAT128

record str_lit =
  sl_bytes :: "u8 list"
  sl_nbytes :: nat
  sl_nelems :: nat
  sl_enc :: enc_prefix

record token =
  tk_kind :: token_kind
  tk_kw :: nat
  tk_punct :: nat
  tk_int_type :: int_const_type
  tk_float_type :: float_const_type
  tk_enc :: enc_prefix
  tk_float_ext_suffix :: bool
  tk_loc :: nat
  tk_span :: nat
  tk_spelling :: string
  tk_int_val :: u64
  tk_str :: str_lit

text \<open>The zeroed token: every enumeration is at its first constant.\<close>

definition token_cleared :: token where
  "token_cleared = \<lparr>tk_kind = TOK_EOF, tk_kw = 0, tk_punct = 0, tk_int_type = ITY_INT, tk_float_type = FTY_FLOAT,
     tk_enc = ENC_NONE, tk_float_ext_suffix = False, tk_loc = 0, tk_span = 0, tk_spelling = [], tk_int_val = 0,
     tk_str = \<lparr>sl_bytes = [], sl_nbytes = 0, sl_nelems = 0, sl_enc = ENC_NONE\<rparr>\<rparr>"

datatype severity = Sev_Error | Sev_Pedwarn | Sev_Warn

datatype lex_diag = Diag severity string "string list"

definition is_error :: "lex_diag \<Rightarrow> bool" where
  "is_error d = (case d of Diag s _ _ \<Rightarrow> s = Sev_Error)"

text \<open>The code of a character.\<close>

abbreviation code :: "char \<Rightarrow> nat" where
  "code c \<equiv> of_char c"

definition is_decimal :: "char \<Rightarrow> bool" where
  "is_decimal c \<longleftrightarrow> code CHR ''0'' \<le> code c \<and> code c \<le> code CHR ''9''"

section \<open>Preprocessing tokens\<close>

datatype pp_tok_kind =
  PPTOK_IDENT | PPTOK_PPNUM | PPTOK_CHARCONST | PPTOK_STRLIT | PPTOK_PUNCT | PPTOK_HEADER_NAME | PPTOK_OTHER | PPTOK_PLACEMARKER
| PPTOK_EOF

text \<open>The fields of a preprocessing token that the later phases read.\<close>

record pp_token =
  pp_spelling :: string
  pp_loc :: nat
  pp_kind :: pp_tok_kind
  pp_punct :: nat
  pp_space :: bool

end
