(* ===== verification/Numlit.thy ===== *)
theory Numlit
  imports Lex_Token
begin

text \<open>
  src/src/lex/numlit.c: the analysis of numeric constants. The greedy pp-number is split, classified and
  typed here. A loop over an index into the spelling is a recursion over the characters left.
\<close>

section \<open>Integer constants\<close>

definition hex_prefix :: "string \<Rightarrow> bool" where
  "hex_prefix sp \<longleftrightarrow> length sp > 2 \<and> sp ! 0 = CHR ''0'' \<and> (sp ! 1 = CHR ''x'' \<or> sp ! 1 = CHR ''X'')"

definition bin_prefix :: "string \<Rightarrow> bool" where
  "bin_prefix sp \<longleftrightarrow> length sp > 2 \<and> sp ! 0 = CHR ''0'' \<and> (sp ! 1 = CHR ''b'' \<or> sp ! 1 = CHR ''B'')"

definition lex_ppnum_is_float :: "string \<Rightarrow> bool" where
  "lex_ppnum_is_float sp \<longleftrightarrow>
     (let hex = hex_prefix sp; binary = bin_prefix sp in
      list_ex (\<lambda>c. c = CHR ''.'' \<or> (\<not> hex \<and> \<not> binary \<and> (c = CHR ''e'' \<or> c = CHR ''E''))
                 \<or> (hex \<and> (c = CHR ''p'' \<or> c = CHR ''P''))) sp)"

definition fits :: "u64 \<Rightarrow> nat \<Rightarrow> bool \<Rightarrow> bool" where
  "fits v bits is_signed =
     (if bits \<ge> 64 then (if is_signed then drop_bit 63 v = 0 else True)
      else if is_signed then v < push_bit (bits - 1) 1 else v < push_bit bits 1)"

record int_suffix =
  suf_u :: bool
  suf_l :: nat
  suf_bad :: bool

fun suffix_loop :: "int_suffix \<Rightarrow> string \<Rightarrow> int_suffix \<times> string" where
  "suffix_loop r [] = (r, [])"
| "suffix_loop r (c # cs) =
     (if (c = CHR ''u'' \<or> c = CHR ''U'') \<and> \<not> suf_u r then suffix_loop (r\<lparr>suf_u := True\<rparr>) cs
      else if (c = CHR ''l'' \<or> c = CHR ''L'') \<and> suf_l r = 0 then
        (case cs of
           [] \<Rightarrow> suffix_loop (r\<lparr>suf_l := 1\<rparr>) []
         | d # ds \<Rightarrow>
             if d = c then suffix_loop (r\<lparr>suf_l := 2\<rparr>) ds
             else if d = CHR ''l'' \<or> d = CHR ''L'' then (r\<lparr>suf_bad := True\<rparr>, c # cs)
             else suffix_loop (r\<lparr>suf_l := 1\<rparr>) (d # ds))
      else (r\<lparr>suf_bad := True\<rparr>, c # cs))"

text \<open>The characters left come back unchanged when the suffix is bad.\<close>

definition parse_int_suffix :: "string \<Rightarrow> int_suffix \<times> string" where
  "parse_int_suffix s =
     (let (r, left) = suffix_loop \<lparr>suf_u = False, suf_l = 0, suf_bad = False\<rparr> s in if suf_bad r then (r, s) else (r, left))"

definition digit_of :: "nat \<Rightarrow> char \<Rightarrow> nat option" where
  "digit_of base c =
     (if is_decimal c then Some (code c - code CHR ''0'')
      else if base = 16 \<and> code CHR ''a'' \<le> code c \<and> code c \<le> code CHR ''f'' then Some (code c - code CHR ''a'' + 10)
      else if base = 16 \<and> code CHR ''A'' \<le> code c \<and> code c \<le> code CHR ''F'' then Some (code c - code CHR ''A'' + 10)
      else None)"

text \<open>The digit loop: the digit that is too large for the base, or value, overflow flag and characters left.\<close>

fun int_digits :: "nat \<Rightarrow> u64 \<Rightarrow> bool \<Rightarrow> string \<Rightarrow> char + u64 \<times> bool \<times> string" where
  "int_digits base v overflow [] = Inr (v, overflow, [])"
| "int_digits base v overflow (c # cs) =
     (case digit_of base c of
        None \<Rightarrow> Inr (v, overflow, c # cs)
      | Some d \<Rightarrow>
          if d \<ge> base then Inl c
          else int_digits base (v * of_nat base + of_nat d) (overflow \<or> v > (NOT 0 - of_nat d) div of_nat base) cs)"

text \<open>The type ladder; None is the jump to \<open>too_big_decimal\<close>.\<close>

definition int_ladder :: "int_suffix \<Rightarrow> bool \<Rightarrow> bool \<Rightarrow> int_widths \<Rightarrow> u64 \<Rightarrow> int_const_type option" where
  "int_ladder suf decimal_ladder c89 w v =
     (if suf_u suf \<and> suf_l suf = 2 then Some ITY_ULLONG
      else if suf_u suf \<and> suf_l suf = 1 then Some (if fits v (iw_long_bits w) False then ITY_ULONG else ITY_ULLONG)
      else if suf_u suf then
        Some (if fits v (iw_int_bits w) False then ITY_UINT else if fits v (iw_long_bits w) False then ITY_ULONG else ITY_ULLONG)
      else if suf_l suf = 2 then
        (if fits v (iw_llong_bits w) True then Some ITY_LLONG else if decimal_ladder then None else Some ITY_ULLONG)
      else if suf_l suf = 1 then
        (if fits v (iw_long_bits w) True then Some ITY_LONG
         else if \<not> decimal_ladder \<and> fits v (iw_long_bits w) False then Some ITY_ULONG
         else if fits v (iw_llong_bits w) True then Some ITY_LLONG
         else if decimal_ladder then None
         else Some ITY_ULLONG)
      else if fits v (iw_int_bits w) True then Some ITY_INT
      else if \<not> decimal_ladder \<and> fits v (iw_int_bits w) False then Some ITY_UINT
      else if fits v (iw_long_bits w) True then Some ITY_LONG
      else if \<not> decimal_ladder \<and> fits v (iw_long_bits w) False then Some ITY_ULONG
      else if decimal_ladder \<and> c89 then (if fits v (iw_long_bits w) False then Some ITY_ULONG else None)
      else if fits v (iw_llong_bits w) True then Some ITY_LLONG
      else if \<not> decimal_ladder then Some ITY_ULLONG
      else None)"

definition lex_int_const :: "lang_opts \<Rightarrow> int_widths \<Rightarrow> string \<Rightarrow> token \<Rightarrow> token \<times> lex_diag list" where
  "lex_int_const lang w sp t =
     (let hex = hex_prefix sp; binary = bin_prefix sp;
          base = (if hex then 16 else if binary then 2 else if length sp > 1 \<and> sp ! 0 = CHR ''0'' then 8 else 10);
          i = (if hex \<or> binary then 2 else if length sp > 1 \<and> sp ! 0 = CHR ''0'' then 1 else 0);
          warned = (if \<not> hex \<and> binary then [Diag Sev_Pedwarn ''binary constants are a C23 feature or GNU extension'' []] else [])
      in
      if hex \<and> i \<ge> length sp then (t, [Diag Sev_Error ''hexadecimal constant has no digits'' []])
      else if binary \<and> i \<ge> length sp then (t, warned @ [Diag Sev_Error ''binary constant has no digits'' []])
      else
        (case int_digits base 0 False (drop i sp) of
           Inl c \<Rightarrow> (t, warned @ [Diag Sev_Error ''invalid digit in constant'' [[c], if base = 2 then ''binary'' else ''octal'']])
         | Inr (v, overflow, left) \<Rightarrow>
             (let (suf, left') = parse_int_suffix left in
              if suf_bad suf \<or> left' \<noteq> [] then (t, warned @ [Diag Sev_Error ''invalid suffix on integer constant'' [sp]])
              else if overflow then
                (t\<lparr>tk_int_val := v, tk_int_type := ITY_ULLONG\<rparr>,
                 warned @ [Diag Sev_Error ''integer constant is too large for any integer type'' []])
              else
                (let t1 = t\<lparr>tk_int_val := v\<rparr> in
                 case int_ladder suf (base = 10) (lo_std lang = STD_C89 \<or> lo_std lang = STD_GNU89) w v of
                   Some ty \<Rightarrow> (t1\<lparr>tk_int_type := ty\<rparr>, warned)
                 | None \<Rightarrow>
                     (t1\<lparr>tk_int_type := ITY_ULLONG\<rparr>,
                      warned @ [Diag Sev_Pedwarn ''integer constant is so large that it is unsigned'' []])))))"

section \<open>Floating constants\<close>

text \<open>The three flags of the scan.\<close>

record float_scan =
  fs_digit :: bool
  fs_dot :: bool
  fs_exp :: bool

definition is_hex_letter :: "char \<Rightarrow> bool" where
  "is_hex_letter c \<longleftrightarrow> (code CHR ''a'' \<le> code c \<and> code c \<le> code CHR ''f'') \<or> (code CHR ''A'' \<le> code c \<and> code c \<le> code CHR ''F'')"

definition is_sign :: "char \<Rightarrow> bool" where
  "is_sign c \<longleftrightarrow> c = CHR ''+'' \<or> c = CHR ''-''"

definition is_exp :: "bool \<Rightarrow> char \<Rightarrow> bool" where
  "is_exp hex c \<longleftrightarrow> (\<not> hex \<and> (c = CHR ''e'' \<or> c = CHR ''E'')) \<or> (hex \<and> (c = CHR ''p'' \<or> c = CHR ''P''))"

text \<open>The optional sign of the exponent.\<close>

definition skip_sign :: "string \<Rightarrow> string" where
  "skip_sign cs = (case cs of [] \<Rightarrow> [] | d # ds \<Rightarrow> if is_sign d then ds else cs)"

lemma length_skip_sign [simp]: "length (skip_sign cs) \<le> length cs"
  by (simp add: skip_sign_def split: list.splits)

function float_scan_loop :: "string \<Rightarrow> bool \<Rightarrow> float_scan \<Rightarrow> string \<Rightarrow> lex_diag + float_scan \<times> string" where
  "float_scan_loop sp hex s [] = Inr (s, [])"
| "float_scan_loop sp hex s (c # cs) =
     (if is_decimal c then float_scan_loop sp hex (s\<lparr>fs_digit := True\<rparr>) cs
      else if hex \<and> \<not> fs_exp s \<and> is_hex_letter c then float_scan_loop sp hex (s\<lparr>fs_digit := True\<rparr>) cs
      else if c = CHR ''.'' then
        (if fs_dot s \<or> fs_exp s then Inl (Diag Sev_Error ''invalid floating constant'' [sp])
         else float_scan_loop sp hex (s\<lparr>fs_dot := True\<rparr>) cs)
      else if is_exp hex c then
        (if fs_exp s \<or> \<not> fs_digit s then Inl (Diag Sev_Error ''invalid floating constant'' [sp])
         else
           (let ds = skip_sign cs in
            if ds = [] \<or> \<not> is_decimal (hd ds) then Inl (Diag Sev_Error ''exponent has no digits'' [])
            else float_scan_loop sp hex (s\<lparr>fs_exp := True\<rparr>) ds))
      else Inr (s, c # cs))"
  by pat_completeness auto
termination
  by (relation "measure (\<lambda>(sp, hex, s, cs). length cs)") (auto simp: less_Suc_eq_le)

definition is_f :: "char \<Rightarrow> bool" where
  "is_f c \<longleftrightarrow> c = CHR ''f'' \<or> c = CHR ''F''"

text \<open>The suffix from index \<open>i\<close>: the type and whether it is an extension spelling.\<close>

definition float_suffix :: "target_kind \<Rightarrow> string \<Rightarrow> (float_const_type \<times> bool) option" where
  "float_suffix target s =
     (let c = s ! 0; n = length s in
      if is_f c \<and> n = 1 then Some (FTY_FLOAT, False)
      else if (c = CHR ''l'' \<or> c = CHR ''L'') \<and> n = 1 then Some (FTY_LDOUBLE, False)
      else if (c = CHR ''q'' \<or> c = CHR ''Q'') \<and> n = 1 then
        Some (if target = CGF_TARGET_ARM64_LINUX then FTY_LDOUBLE else FTY_FLOAT128, True)
      else if is_f c \<and> n = 3 \<and> s ! 1 = CHR ''3'' \<and> s ! 2 = CHR ''2'' then Some (FTY_FLOAT32, True)
      else if is_f c \<and> n = 3 \<and> s ! 1 = CHR ''6'' \<and> s ! 2 = CHR ''4'' then Some (FTY_FLOAT64, True)
      else if is_f c \<and> n = 4 \<and> s ! 1 = CHR ''3'' \<and> s ! 2 = CHR ''2'' \<and> s ! 3 = CHR ''x'' then Some (FTY_FLOAT32X, True)
      else if is_f c \<and> n = 4 \<and> s ! 1 = CHR ''6'' \<and> s ! 2 = CHR ''4'' \<and> s ! 3 = CHR ''x'' then Some (FTY_FLOAT64X, True)
      else if is_f c \<and> n = 4 \<and> s ! 1 = CHR ''1'' \<and> s ! 2 = CHR ''2'' \<and> s ! 3 = CHR ''8'' then Some (FTY_FLOAT128, True)
      else None)"

definition lex_float_const :: "lang_opts \<Rightarrow> target_kind \<Rightarrow> string \<Rightarrow> token \<Rightarrow> token \<times> lex_diag list" where
  "lex_float_const lang target sp t0 =
     (let hex = hex_prefix sp; t = t0\<lparr>tk_float_type := FTY_DOUBLE\<rparr> in
      case float_scan_loop sp hex \<lparr>fs_digit = False, fs_dot = False, fs_exp = False\<rparr> (drop (if hex then 2 else 0) sp) of
        Inl e \<Rightarrow> (t, [e])
      | Inr (s, left) \<Rightarrow>
          if \<not> fs_digit s then (t, [Diag Sev_Error ''invalid floating constant'' [sp]])
          else if hex \<and> \<not> fs_exp s then (t, [Diag Sev_Error ''hexadecimal floating constant requires an exponent'' []])
          else
            (let warned = (if hex \<and> \<not> std_is_c99_or_later (lo_std lang)
                           then [Diag Sev_Warn ''hexadecimal floating constants are a C99 feature'' []] else [])
             in if left \<noteq> [] then
                  (case float_suffix target left of
                     Some (ty, ext) \<Rightarrow>
                       (t\<lparr>tk_float_type := ty, tk_float_ext_suffix := (if ext then True else tk_float_ext_suffix t)\<rparr>, warned)
                   | None \<Rightarrow> (t, warned @ [Diag Sev_Error ''invalid suffix on floating constant'' [sp]]))
                else (t, warned)))"

section \<open>The rules for integer constants\<close>

text \<open>
  C11 6.4.4.1 as tables: the bound of a type, the list of types a constant of each form may have, and
  the valid suffixes with what they say about unsignedness and length.
\<close>

definition type_bound :: "int_widths \<Rightarrow> int_const_type \<Rightarrow> nat" where
  "type_bound w ty = (case ty of
      ITY_INT \<Rightarrow> 2 ^ (iw_int_bits w - 1) | ITY_UINT \<Rightarrow> 2 ^ iw_int_bits w
    | ITY_LONG \<Rightarrow> 2 ^ (iw_long_bits w - 1) | ITY_ULONG \<Rightarrow> 2 ^ iw_long_bits w
    | ITY_LLONG \<Rightarrow> 2 ^ (iw_llong_bits w - 1) | ITY_ULLONG \<Rightarrow> 2 ^ iw_llong_bits w)"

definition ladder_types :: "bool \<Rightarrow> bool \<Rightarrow> bool \<Rightarrow> nat \<Rightarrow> int_const_type list" where
  "ladder_types decimal c89 u l =
     (if u then drop l [ITY_UINT, ITY_ULONG, ITY_ULLONG]
      else if decimal then (if l = 0 \<and> c89 then [ITY_INT, ITY_LONG, ITY_ULONG] else drop l [ITY_INT, ITY_LONG, ITY_LLONG])
      else drop (2 * l) [ITY_INT, ITY_UINT, ITY_LONG, ITY_ULONG, ITY_LLONG, ITY_ULLONG])"

definition suffix_table :: "(string \<times> bool \<times> nat) list" where
  "suffix_table =
     [('''', False, 0), (''u'', True, 0), (''U'', True, 0), (''l'', False, 1), (''L'', False, 1), (''ll'', False, 2), (''LL'', False, 2),
      (''ul'', True, 1), (''uL'', True, 1), (''Ul'', True, 1), (''UL'', True, 1),
      (''ull'', True, 2), (''uLL'', True, 2), (''Ull'', True, 2), (''ULL'', True, 2),
      (''lu'', True, 1), (''lU'', True, 1), (''Lu'', True, 1), (''LU'', True, 1),
      (''llu'', True, 2), (''llU'', True, 2), (''LLu'', True, 2), (''LLU'', True, 2)]"

definition digits_value :: "nat \<Rightarrow> string \<Rightarrow> nat" where
  "digits_value base ds = foldl (\<lambda>n c. n * base + the (digit_of base c)) 0 ds"

definition int_base :: "string \<Rightarrow> nat \<times> string" where
  "int_base sp = (if hex_prefix sp then (16, drop 2 sp) else if bin_prefix sp then (2, drop 2 sp)
     else if length sp > 1 \<and> sp ! 0 = CHR ''0'' then (8, drop 1 sp) else (10, sp))"

text \<open>
  The constant as a whole: split the body into digits and suffix, reject a digit the base does not
  have, then an unknown suffix, then a value beyond 64 bits; otherwise the type is the first of the
  list that can represent the value.
\<close>

definition int_const_spec :: "lang_opts \<Rightarrow> int_widths \<Rightarrow> string \<Rightarrow> token \<Rightarrow> token \<times> lex_diag list" where
  "int_const_spec lang w sp t =
     (let (base, body) = int_base sp;
          is_digit = (\<lambda>c. digit_of base c \<noteq> None);
          ds = takeWhile is_digit body; suf = dropWhile is_digit body;
          wrong = filter (\<lambda>c. the (digit_of base c) \<ge> base) ds;
          n = digits_value base ds;
          warned = (if base = 2 then [Diag Sev_Pedwarn ''binary constants are a C23 feature or GNU extension'' []] else [])
      in if wrong \<noteq> [] then
           (t, warned @ [Diag Sev_Error ''invalid digit in constant'' [[hd wrong], if base = 2 then ''binary'' else ''octal'']])
         else (case map_of suffix_table suf of
             None \<Rightarrow> (t, warned @ [Diag Sev_Error ''invalid suffix on integer constant'' [sp]])
           | Some (u, l) \<Rightarrow>
               if n \<ge> 2 ^ 64 then
                 (t\<lparr>tk_int_val := of_nat n, tk_int_type := ITY_ULLONG\<rparr>,
                  warned @ [Diag Sev_Error ''integer constant is too large for any integer type'' []])
               else (case find (\<lambda>ty. n < type_bound w ty) (ladder_types (base = 10) (\<not> std_is_c99_or_later (lo_std lang)) u l) of
                   Some ty \<Rightarrow> (t\<lparr>tk_int_val := of_nat n, tk_int_type := ty\<rparr>, warned)
                 | None \<Rightarrow> (t\<lparr>tk_int_val := of_nat n, tk_int_type := ITY_ULLONG\<rparr>,
                     warned @ [Diag Sev_Pedwarn ''integer constant is so large that it is unsigned'' []]))))"

text \<open>The widths the code assumes.\<close>

definition widths_ok :: "int_widths \<Rightarrow> bool" where
  "widths_ok w \<longleftrightarrow> 0 < iw_int_bits w \<and> iw_int_bits w \<le> iw_long_bits w \<and> iw_long_bits w \<le> 64 \<and> iw_llong_bits w = 64"

lemma fits_bound:
  assumes "0 < bits" "bits \<le> 64"
  shows "fits v bits False \<longleftrightarrow> unat v < 2 ^ bits" "fits v bits True \<longleftrightarrow> unat v < 2 ^ (bits - 1)"
proof -
  have shl: "unat (push_bit k 1 :: u64) = 2 ^ k" if "k < 64" for k
    using that unat_word_2p [of k, where 'a = 64] by (simp add: push_bit_eq_mult)
  have top: "drop_bit 63 v = 0 \<longleftrightarrow> unat v < 2 ^ 63"
    unfolding word_unat_eq_iff unat_shr by (simp add: div_eq_0_iff)
  have "unat v < 2 ^ 64" using unsigned_less [of v, where 'a = nat] by simp
  then show "fits v bits False \<longleftrightarrow> unat v < 2 ^ bits" "fits v bits True \<longleftrightarrow> unat v < 2 ^ (bits - 1)"
    using assms top shl [of bits] shl [of "bits - 1"] by (cases "bits = 64"; simp add: fits_def word_less_nat_alt del: push_bit_of_1)+
qed

lemma int_ladder_table:
  assumes w: "widths_ok w" and suf: "suf_l suf \<le> 2"
  shows "int_ladder suf decimal c89 w v = find (\<lambda>ty. unat v < type_bound w ty) (ladder_types decimal c89 (suf_u suf) (suf_l suf))"
proof -
  have all: "unat v < 2 ^ iw_llong_bits w" using w unsigned_less [of v, where 'a = nat] by (simp add: widths_ok_def)
  have f: "fits v (iw_int_bits w) s \<longleftrightarrow> unat v < (if s then type_bound w ITY_INT else type_bound w ITY_UINT)"
    "fits v (iw_long_bits w) s \<longleftrightarrow> unat v < (if s then type_bound w ITY_LONG else type_bound w ITY_ULONG)"
    "fits v (iw_llong_bits w) s \<longleftrightarrow> unat v < (if s then type_bound w ITY_LLONG else type_bound w ITY_ULLONG)" for s
    using w fits_bound [of "iw_int_bits w" v] fits_bound [of "iw_long_bits w" v] fits_bound [of "iw_llong_bits w" v]
    by (cases s; simp add: widths_ok_def type_bound_def)+
  have u: "unat v < type_bound w ITY_ULLONG" using all by (simp add: type_bound_def)
  consider "suf_l suf = 0" | "suf_l suf = 1" | "suf_l suf = 2" using suf by linarith
  then show ?thesis
    by cases (simp_all add: int_ladder_def ladder_types_def f u)
qed

lemma digit_lt_16: "digit_of base c = Some d \<Longrightarrow> d < 16 \<and> (base \<noteq> 16 \<longrightarrow> d < 10)"
  by (auto simp: digit_of_def is_decimal_def split: if_splits)

lemma digit_overflow_test:
  fixes v :: u64
  assumes "2 \<le> base" "base \<le> 16" "d < base"
  shows "v > (NOT 0 - of_nat d) div of_nat base \<longleftrightarrow> 2 ^ 64 \<le> unat v * base + d"
proof -
  have small: "unat (of_nat k :: u64) = k" if "k \<le> 16" for k using that by (simp add: unsigned_of_nat take_bit_nat_eq_self)
  have d: "unat (of_nat d :: u64) = d" "unat (of_nat base :: u64) = base" using assms by (simp_all add: small)
  have ones: "unat (NOT 0 :: u64) = 2 ^ 64 - 1" by (simp add: unsigned_minus_1_eq_mask mask_eq_exp_minus_1)
  have "unat (NOT 0 - of_nat d :: u64) = 2 ^ 64 - 1 - d"
    using assms d ones by (simp add: unat_sub word_le_nat_alt)
  then have "unat ((NOT 0 - of_nat d) div of_nat base :: u64) = (2 ^ 64 - 1 - d) div base" by (simp add: unat_div d)
  then have "v > (NOT 0 - of_nat d) div of_nat base \<longleftrightarrow> (2 ^ 64 - 1 - d) div base < unat v" by (simp add: word_less_nat_alt)
  also have "\<dots> \<longleftrightarrow> 2 ^ 64 - 1 - d < unat v * base" using assms by (subst div_less_iff_less_mult) auto
  also have "\<dots> \<longleftrightarrow> 2 ^ 64 \<le> unat v * base + d" using assms by auto
  finally show ?thesis .
qed

lemma digit_overflow_step:
  fixes v :: u64
  assumes base: "2 \<le> base" "base \<le> 16" and d: "d < base" and "overflow \<longleftrightarrow> 2 ^ 64 \<le> n" "v = of_nat n"
  shows "(overflow \<or> v > (NOT 0 - of_nat d) div of_nat base) \<longleftrightarrow> 2 ^ 64 \<le> n * base + d"
proof (cases "2 ^ 64 \<le> n")
  case True
  then have "2 ^ 64 \<le> n * base + d" using base by (metis le_trans mult.commute mult_le_mono nat_le_iff_add one_le_numeral nat_mult_1)
  then show ?thesis using True assms(4) by simp
next
  case small: False
  then have "unat v = n" using assms(5) by (simp add: unsigned_of_nat take_bit_nat_eq_self)
  then show ?thesis using digit_overflow_test [of base d v] base d small assms(4) by simp
qed

lemma int_digits_spec:
  assumes base: "2 \<le> base" "base \<le> 16"
    and "overflow \<longleftrightarrow> 2 ^ 64 \<le> n" "v = of_nat n"
  shows "int_digits base v overflow cs =
    (let ds = takeWhile (\<lambda>c. digit_of base c \<noteq> None) cs; wrong = filter (\<lambda>c. the (digit_of base c) \<ge> base) ds;
         m = foldl (\<lambda>n c. n * base + the (digit_of base c)) n ds
     in if wrong \<noteq> [] then Inl (hd wrong)
        else Inr (of_nat m, 2 ^ 64 \<le> m, dropWhile (\<lambda>c. digit_of base c \<noteq> None) cs))"
  using assms(3,4)
proof (induction cs arbitrary: n v overflow)
  case (Cons c cs)
  show ?case
  proof (cases "digit_of base c")
    case None
    then show ?thesis using Cons.prems by simp
  next
    case (Some d)
    show ?thesis
    proof (cases "d \<ge> base")
      case True
      then show ?thesis using Some by simp
    next
      case False
      let ?n = "n * base + d" and ?v = "v * of_nat base + of_nat d"
      have ov: "(overflow \<or> v > (NOT 0 - of_nat d) div of_nat base) \<longleftrightarrow> 2 ^ 64 \<le> ?n"
        using digit_overflow_step [OF base _ Cons.prems] False by simp
      have "?v = of_nat ?n" using Cons.prems by simp
      from Cons.IH [OF ov this] show ?thesis using Some False by (simp add: Let_def)
    qed
  qed
qed simp

lemma suffix_done: "suf_u r \<Longrightarrow> suf_l r \<noteq> 0 \<Longrightarrow> suffix_loop r s = (if s = [] then (r, []) else (r\<lparr>suf_bad := True\<rparr>, s))"
  by (cases s) auto

lemma suffix_after_u:
  "suf_u r \<Longrightarrow> suf_l r = 0 \<Longrightarrow> suffix_loop r s =
     (if s = [] then (r, []) else if s = ''l'' \<or> s = ''L'' then (r\<lparr>suf_l := 1\<rparr>, []) else if s = ''ll'' \<or> s = ''LL'' then (r\<lparr>suf_l := 2\<rparr>, [])
      else (fst (suffix_loop r s)\<lparr>suf_bad := True\<rparr>, snd (suffix_loop r s)))"
  by (cases s; cases "tl s"; cases "tl (tl s)") (auto simp: suffix_done)

lemma suffix_after_l:
  "\<not> suf_u r \<Longrightarrow> suf_l r \<noteq> 0 \<Longrightarrow> suffix_loop r s =
     (if s = [] then (r, []) else if s = ''u'' \<or> s = ''U'' then (r\<lparr>suf_u := True\<rparr>, [])
      else (fst (suffix_loop r s)\<lparr>suf_bad := True\<rparr>, snd (suffix_loop r s)))"
  by (cases s; cases "tl s") (auto simp: suffix_done)

definition suffix_meaning :: "int_suffix \<times> string \<Rightarrow> (bool \<times> nat) option" where
  "suffix_meaning p = (if suf_bad (fst p) then None else Some (suf_u (fst p), suf_l (fst p)))"

lemma suffix_meaning_pair [simp]: "suffix_meaning (r, s) = (if suf_bad r then None else Some (suf_u r, suf_l r))"
  by (simp add: suffix_meaning_def)

lemma suffix_step_l:
  "c = CHR ''l'' \<or> c = CHR ''L'' \<Longrightarrow> suf_l r = 0 \<Longrightarrow> suffix_loop r (c # d # ds) = (if d = c then suffix_loop (r\<lparr>suf_l := 2\<rparr>) ds
     else if d = CHR ''l'' \<or> d = CHR ''L'' then (r\<lparr>suf_bad := True\<rparr>, c # d # ds)
     else suffix_loop (r\<lparr>suf_l := 1\<rparr>) (d # ds))"
  by (auto simp del: suffix_loop.simps simp add: suffix_loop.simps(2) [of r c "d # ds"])

lemma suffix_left: "\<not> suf_bad (fst (suffix_loop r s)) \<Longrightarrow> snd (suffix_loop r s) = []"
proof (induction r s rule: suffix_loop.induct)
  case (2 r c cs)
  show ?case
  proof (cases "(c = CHR ''u'' \<or> c = CHR ''U'') \<and> \<not> suf_u r")
    case True
    then show ?thesis using 2 by simp
  next
    case u: False
    show ?thesis
    proof (cases "(c = CHR ''l'' \<or> c = CHR ''L'') \<and> suf_l r = 0")
      case l: True
      show ?thesis
      proof (cases cs)
        case (Cons d ds)
        have eq: "suffix_loop r (c # cs) = (if d = c then suffix_loop (r\<lparr>suf_l := 2\<rparr>) ds
             else if d = CHR ''l'' \<or> d = CHR ''L'' then (r\<lparr>suf_bad := True\<rparr>, c # cs)
             else suffix_loop (r\<lparr>suf_l := 1\<rparr>) (d # ds))" using l Cons by (simp only: suffix_step_l)
        consider "d = c" | "d \<noteq> c" "d = CHR ''l'' \<or> d = CHR ''L''" | "d \<noteq> c" "\<not> (d = CHR ''l'' \<or> d = CHR ''L'')" by blast
        then show ?thesis using "2.IH"(3,4) [OF u l Cons] "2.prems" unfolding eq by cases auto
      qed (use u l in simp)
    next
      case False
      then show ?thesis using u "2.prems" by auto
    qed
  qed
qed simp

lemma meaning_after_u:
  "suf_u r \<Longrightarrow> suf_l r = 0 \<Longrightarrow> \<not> suf_bad r \<Longrightarrow> suffix_meaning (suffix_loop r s) =
     map_of [('''', True, 0), (''l'', True, 1), (''L'', True, 1), (''ll'', True, 2), (''LL'', True, 2)] s"
  by (subst suffix_after_u) (auto simp: suffix_meaning_def)

lemma meaning_after_l:
  "\<not> suf_u r \<Longrightarrow> suf_l r \<noteq> 0 \<Longrightarrow> \<not> suf_bad r \<Longrightarrow> suffix_meaning (suffix_loop r s) =
     map_of [('''', False, suf_l r), (''u'', True, suf_l r), (''U'', True, suf_l r)] s"
  by (subst suffix_after_l) (auto simp: suffix_meaning_def)

lemma parse_int_suffix_table:
  "suffix_meaning (parse_int_suffix s) = map_of suffix_table s" "\<not> suf_bad (fst (parse_int_suffix s)) \<Longrightarrow> snd (parse_int_suffix s) = []"
proof -
  let ?r0 = "\<lparr>suf_u = False, suf_l = 0, suf_bad = False\<rparr>"
  have eq: "suffix_meaning (parse_int_suffix s) = suffix_meaning (suffix_loop ?r0 s)"
    by (simp add: parse_int_suffix_def suffix_meaning_def split: prod.splits)
  have "suffix_meaning (suffix_loop ?r0 s) = map_of suffix_table s"
  proof (cases s)
    case Nil
    then show ?thesis by (simp add: suffix_meaning_def suffix_table_def)
  next
    case (Cons c cs)
    consider "c = CHR ''u'' \<or> c = CHR ''U''" | "c = CHR ''l'' \<or> c = CHR ''L''"
      | "c \<notin> {CHR ''u'', CHR ''U'', CHR ''l'', CHR ''L''}" by blast
    then show ?thesis
    proof cases
      case 1
      then show ?thesis unfolding Cons by (auto simp: meaning_after_u suffix_table_def)
    next
      case 2
      then show ?thesis unfolding Cons
        by (cases cs) (auto simp: suffix_step_l meaning_after_l suffix_table_def simp del: suffix_loop.simps(2),
          auto simp: suffix_table_def)
    next
      case 3
      then show ?thesis unfolding Cons by (auto simp: suffix_meaning_def suffix_table_def)
    qed
  qed
  with eq show "suffix_meaning (parse_int_suffix s) = map_of suffix_table s" by simp
  show "\<not> suf_bad (fst (parse_int_suffix s)) \<Longrightarrow> snd (parse_int_suffix s) = []"
    using suffix_left [of ?r0 s] by (auto simp: parse_int_suffix_def split: prod.splits if_splits)
qed

lemma suffix_table_l: "map_of suffix_table s = Some (u, l) \<Longrightarrow> l \<le> 2"
  by (auto simp: suffix_table_def split: if_splits)

lemma ex_filter: "filter P xs \<noteq> [] \<longleftrightarrow> (\<exists>x\<in>set xs. P x)"
  by (simp add: filter_empty_conv)

text \<open>
  C14: integer constants. For every spelling, language mode and target widths the code does what the
  tables of C11 6.4.4.1 say: a digit that the base does not have, an unknown suffix and a value beyond
  64 bits are errors, in this order; otherwise the value is exact and its type is the first of the
  list for its base and suffix that can represent it, with a warning when a decimal constant fits
  none of them. The digit loop detects every overflow. The digits after a prefix may be missing:
  \<open>0xu\<close> is accepted as zero.
\<close>

theorem lex_int_const_correct:
  assumes "widths_ok w"
  shows "lex_int_const lang w sp t = int_const_spec lang w sp t"
proof -
  obtain base body where b: "int_base sp = (base, body)" by (cases "int_base sp")
  have hb: "\<not> (hex_prefix sp \<and> bin_prefix sp)" by (auto simp: hex_prefix_def bin_prefix_def)
  have base: "2 \<le> base" "base \<le> 16" using b by (auto simp: int_base_def split: if_splits)
  have pre: "base = (if hex_prefix sp then 16 else if bin_prefix sp then 2 else if length sp > 1 \<and> sp ! 0 = CHR ''0'' then 8 else 10)"
    "body = drop (if hex_prefix sp \<or> bin_prefix sp then 2 else if length sp > 1 \<and> sp ! 0 = CHR ''0'' then 1 else 0) sp"
    using b by (auto simp: int_base_def split: if_splits)
  have nodead: "\<not> (hex_prefix sp \<and> 2 \<ge> length sp)" "\<not> (bin_prefix sp \<and> 2 \<ge> length sp)" by (auto simp: hex_prefix_def bin_prefix_def)
  have two: "base = 2 \<longleftrightarrow> \<not> hex_prefix sp \<and> bin_prefix sp" using pre(1) by simp
  define ds where "ds = takeWhile (\<lambda>c. digit_of base c \<noteq> None) body"
  define rest where "rest = dropWhile (\<lambda>c. digit_of base c \<noteq> None) body"
  define wrong where "wrong = filter (\<lambda>c. the (digit_of base c) \<ge> base) ds"
  define n where "n = digits_value base ds"
  have digits: "int_digits base 0 False body = (if wrong \<noteq> [] then Inl (hd wrong) else Inr (of_nat n, 2 ^ 64 \<le> n, rest))"
    using int_digits_spec [OF base, of False 0 0 body] by (simp add: Let_def digits_value_def n_def ds_def rest_def wrong_def)
  note tab = parse_int_suffix_table [of rest]
  have c89: "lo_std lang = STD_C89 \<or> lo_std lang = STD_GNU89 \<longleftrightarrow> \<not> std_is_c99_or_later (lo_std lang)" by (simp add: std_is_c99_or_later_def)
  define warned where "warned = (if base = 2 then [Diag Sev_Pedwarn ''binary constants are a C23 feature or GNU extension'' []] else [])"
  have code: "lex_int_const lang w sp t = (case int_digits base 0 False body of
           Inl c \<Rightarrow> (t, warned @ [Diag Sev_Error ''invalid digit in constant'' [[c], if base = 2 then ''binary'' else ''octal'']])
         | Inr (v, overflow, left) \<Rightarrow>
             (let (suf, left') = parse_int_suffix left in
              if suf_bad suf \<or> left' \<noteq> [] then (t, warned @ [Diag Sev_Error ''invalid suffix on integer constant'' [sp]])
              else if overflow then
                (t\<lparr>tk_int_val := v, tk_int_type := ITY_ULLONG\<rparr>,
                 warned @ [Diag Sev_Error ''integer constant is too large for any integer type'' []])
              else
                (let t1 = t\<lparr>tk_int_val := v\<rparr> in
                 case int_ladder suf (base = 10) (\<not> std_is_c99_or_later (lo_std lang)) w v of
                   Some ty \<Rightarrow> (t1\<lparr>tk_int_type := ty\<rparr>, warned)
                 | None \<Rightarrow>
                     (t1\<lparr>tk_int_type := ITY_ULLONG\<rparr>,
                      warned @ [Diag Sev_Pedwarn ''integer constant is so large that it is unsigned'' []]))))"
    unfolding lex_int_const_def Let_def pre(1) [symmetric] pre(2) [symmetric] two [symmetric] warned_def c89
    using nodead by auto
  have spec: "int_const_spec lang w sp t = (if wrong \<noteq> [] then
           (t, warned @ [Diag Sev_Error ''invalid digit in constant'' [[hd wrong], if base = 2 then ''binary'' else ''octal'']])
         else (case map_of suffix_table rest of
             None \<Rightarrow> (t, warned @ [Diag Sev_Error ''invalid suffix on integer constant'' [sp]])
           | Some (u, l) \<Rightarrow>
               if n \<ge> 2 ^ 64 then
                 (t\<lparr>tk_int_val := of_nat n, tk_int_type := ITY_ULLONG\<rparr>,
                  warned @ [Diag Sev_Error ''integer constant is too large for any integer type'' []])
               else (case find (\<lambda>ty. n < type_bound w ty) (ladder_types (base = 10) (\<not> std_is_c99_or_later (lo_std lang)) u l) of
                   Some ty \<Rightarrow> (t\<lparr>tk_int_val := of_nat n, tk_int_type := ty\<rparr>, warned)
                 | None \<Rightarrow> (t\<lparr>tk_int_val := of_nat n, tk_int_type := ITY_ULLONG\<rparr>,
                     warned @ [Diag Sev_Pedwarn ''integer constant is so large that it is unsigned'' []]))))"
    unfolding int_const_spec_def Let_def b prod.case warned_def n_def ds_def rest_def wrong_def ..
  show ?thesis
  proof (cases "wrong \<noteq> []")
    case True
    then show ?thesis unfolding code spec digits by simp
  next
    case ok: False
    obtain suf left where p: "parse_int_suffix rest = (suf, left)" by (cases "parse_int_suffix rest")
    show ?thesis
    proof (cases "suf_bad suf")
      case True
      then have "map_of suffix_table rest = None" using tab(1) p by (simp add: suffix_meaning_def)
      then show ?thesis unfolding code spec digits using ok True p by simp
    next
      case False
      then have m: "map_of suffix_table rest = Some (suf_u suf, suf_l suf)" and l: "left = []"
        using tab p by (simp_all add: suffix_meaning_def)
      have ladder: "int_ladder suf (base = 10) (\<not> std_is_c99_or_later (lo_std lang)) w (of_nat n)
          = find (\<lambda>ty. n < type_bound w ty) (ladder_types (base = 10) (\<not> std_is_c99_or_later (lo_std lang)) (suf_u suf) (suf_l suf))"
        if "\<not> 2 ^ 64 \<le> n"
        using that int_ladder_table [OF assms suffix_table_l [OF m], of "base = 10" _ "of_nat n"]
        by (simp add: unsigned_of_nat take_bit_nat_eq_self)
      show ?thesis
        unfolding code spec digits using ok False p m l ladder by (cases "2 ^ 64 \<le> n") (simp_all add: Let_def)
    qed
  qed
qed

theorem lex_int_const_correct_witness:
  "int_const_spec \<lparr>lo_std = STD_C17, lo_gnu_mode = False, lo_pedantic = False\<rparr> (cgf_target_int_widths CGF_TARGET_ARM64_LINUX) ''0x80000000'' token_cleared
     = (token_cleared\<lparr>tk_int_val := 0x80000000, tk_int_type := ITY_UINT\<rparr>, [])"
proof -
  have "widths_ok (cgf_target_int_widths CGF_TARGET_ARM64_LINUX)" by (simp add: widths_ok_def cgf_target_int_widths_def)
  note lex_int_const_correct [OF this, symmetric]
  moreover have "lex_int_const \<lparr>lo_std = STD_C17, lo_gnu_mode = False, lo_pedantic = False\<rparr> (cgf_target_int_widths CGF_TARGET_ARM64_LINUX) ''0x80000000'' token_cleared
     = (token_cleared\<lparr>tk_int_val := 0x80000000, tk_int_type := ITY_UINT\<rparr>, [])" by code_simp
  ultimately show ?thesis by (rule trans)
qed

section \<open>The grammar of floating constants\<close>

definition mant_char :: "bool \<Rightarrow> char \<Rightarrow> bool" where
  "mant_char hex c \<longleftrightarrow> is_decimal c \<or> (hex \<and> is_hex_letter c)"

text \<open>Digits with at most one point among them, and at least one digit.\<close>

definition mantissa :: "bool \<Rightarrow> string \<Rightarrow> bool" where
  "mantissa hex m \<longleftrightarrow> (\<forall>c\<in>set m. c = CHR ''.'' \<or> mant_char hex c) \<and> count_list m CHR ''.'' \<le> 1 \<and> (\<exists>c\<in>set m. c \<noteq> CHR ''.'')"

definition exponent :: "bool \<Rightarrow> string \<Rightarrow> bool" where
  "exponent hex e \<longleftrightarrow> (\<exists>c sg ds. e = c # sg @ ds \<and> is_exp hex c \<and> (sg = [] \<or> (\<exists>x. sg = [x] \<and> is_sign x)) \<and> ds \<noteq> [] \<and> list_all is_decimal ds)"

definition float_suffix_table :: "target_kind \<Rightarrow> (string \<times> float_const_type \<times> bool) list" where
  "float_suffix_table target =
     [('''', FTY_DOUBLE, False), (''f'', FTY_FLOAT, False), (''F'', FTY_FLOAT, False), (''l'', FTY_LDOUBLE, False), (''L'', FTY_LDOUBLE, False),
      (''q'', if target = CGF_TARGET_ARM64_LINUX then FTY_LDOUBLE else FTY_FLOAT128, True),
      (''Q'', if target = CGF_TARGET_ARM64_LINUX then FTY_LDOUBLE else FTY_FLOAT128, True),
      (''f32'', FTY_FLOAT32, True), (''F32'', FTY_FLOAT32, True), (''f64'', FTY_FLOAT64, True), (''F64'', FTY_FLOAT64, True),
      (''f32x'', FTY_FLOAT32X, True), (''F32x'', FTY_FLOAT32X, True), (''f64x'', FTY_FLOAT64X, True), (''F64x'', FTY_FLOAT64X, True),
      (''f128'', FTY_FLOAT128, True), (''F128'', FTY_FLOAT128, True)]"

text \<open>Mantissa, exponent (required after \<open>0x\<close>) and suffix.\<close>

definition float_spelling :: "target_kind \<Rightarrow> string \<Rightarrow> float_const_type \<Rightarrow> bool \<Rightarrow> bool" where
  "float_spelling target sp ty ext \<longleftrightarrow> (\<exists>m e s. (if hex_prefix sp then drop 2 sp else sp) = m @ e @ s
     \<and> mantissa (hex_prefix sp) m \<and> (exponent (hex_prefix sp) e \<or> (\<not> hex_prefix sp \<and> e = []))
     \<and> map_of (float_suffix_table target) s = Some (ty, ext))"

lemma char_facts:
  "\<not> is_decimal CHR ''.''" "\<not> is_hex_letter CHR ''.''" "\<not> is_exp hex CHR ''.''" "is_exp hex c \<Longrightarrow> \<not> is_decimal c"
  "is_exp hex c \<Longrightarrow> hex \<Longrightarrow> \<not> is_hex_letter c" "is_exp hex c \<Longrightarrow> c \<noteq> CHR ''.''" "is_decimal c \<Longrightarrow> \<not> is_sign c"
  by (auto simp: is_decimal_def is_hex_letter_def is_exp_def is_sign_def)

lemma exp_not_mant: "is_exp hex c \<Longrightarrow> \<not> mant_char hex c"
  using char_facts(4,5) by (auto simp: mant_char_def)

declare float_scan_loop.simps(2) [simp del]

lemma step_dec: "is_decimal c \<Longrightarrow> float_scan_loop sp hex s (c # cs) = float_scan_loop sp hex (s\<lparr>fs_digit := True\<rparr>) cs"
  by (simp add: float_scan_loop.simps(2))

lemma step_mant: "mant_char hex c \<Longrightarrow> \<not> fs_exp s \<Longrightarrow> float_scan_loop sp hex s (c # cs) = float_scan_loop sp hex (s\<lparr>fs_digit := True\<rparr>) cs"
  by (auto simp: float_scan_loop.simps(2) mant_char_def)

lemma step_dot:
  "float_scan_loop sp hex s (CHR ''.'' # cs) = (if fs_dot s \<or> fs_exp s then Inl (Diag Sev_Error ''invalid floating constant'' [sp])
     else float_scan_loop sp hex (s\<lparr>fs_dot := True\<rparr>) cs)"
  by (simp add: float_scan_loop.simps(2) char_facts)

lemma step_exp:
  "is_exp hex c \<Longrightarrow> float_scan_loop sp hex s (c # cs) =
     (if fs_exp s \<or> \<not> fs_digit s then Inl (Diag Sev_Error ''invalid floating constant'' [sp])
      else if skip_sign cs = [] \<or> \<not> is_decimal (hd (skip_sign cs)) then Inl (Diag Sev_Error ''exponent has no digits'' [])
      else float_scan_loop sp hex (s\<lparr>fs_exp := True\<rparr>) (skip_sign cs))"
  using char_facts(4,5,6) [of hex c] by (auto simp: float_scan_loop.simps(2) Let_def)

lemma step_other:
  "\<not> is_decimal c \<Longrightarrow> mant_char hex c \<longrightarrow> fs_exp s \<Longrightarrow> c \<noteq> CHR ''.'' \<Longrightarrow> \<not> is_exp hex c \<Longrightarrow> float_scan_loop sp hex s (c # cs) = Inr (s, c # cs)"
  by (auto simp: float_scan_loop.simps(2) mant_char_def)

lemma scan_mantissa:
  assumes "\<forall>c\<in>set m. c = CHR ''.'' \<or> mant_char hex c" "count_list m CHR ''.'' + (if fs_dot s then 1 else 0) \<le> 1" "\<not> fs_exp s"
  shows "float_scan_loop sp hex s (m @ left) = float_scan_loop sp hex
      (s\<lparr>fs_digit := fs_digit s \<or> (\<exists>c\<in>set m. c \<noteq> CHR ''.''), fs_dot := fs_dot s \<or> CHR ''.'' \<in> set m\<rparr>) left"
  using assms
proof (induction m arbitrary: s)
  case (Cons c m)
  show ?case
  proof (cases "c = CHR ''.''")
    case True
    then have s: "\<not> fs_dot s" "count_list m CHR ''.'' = 0" using Cons.prems(2) by (auto split: if_splits)
    then have "CHR ''.'' \<notin> set m" by (simp add: count_list_0_iff)
    then show ?thesis
      using Cons.IH [of "s\<lparr>fs_dot := True\<rparr>"] Cons.prems True s by (simp add: step_dot)
  next
    case False
    then have "mant_char hex c" using Cons.prems(1) by simp
    then have "float_scan_loop sp hex s (c # m @ left) = float_scan_loop sp hex (s\<lparr>fs_digit := True\<rparr>) (m @ left)"
      using Cons.prems(3) by (rule step_mant)
    then show ?thesis using Cons.IH [of "s\<lparr>fs_digit := True\<rparr>"] Cons.prems False by simp
  qed
qed simp

lemma scan_exp_digits:
  "list_all is_decimal ds \<Longrightarrow> float_scan_loop sp hex s (ds @ left) = float_scan_loop sp hex (s\<lparr>fs_digit := fs_digit s \<or> ds \<noteq> []\<rparr>) left"
  by (induction ds arbitrary: s) (auto simp: step_dec)

lemma record_same: "fs_digit s \<Longrightarrow> s\<lparr>fs_exp := x, fs_digit := True\<rparr> = s\<lparr>fs_exp := x\<rparr>"
  by (cases s) simp

lemma scan_exponent:
  assumes "exponent hex e" "fs_digit s" "\<not> fs_exp s"
  shows "float_scan_loop sp hex s (e @ left) = float_scan_loop sp hex (s\<lparr>fs_exp := True\<rparr>) left"
proof -
  obtain c sg ds where e: "e = c # sg @ ds" "is_exp hex c" "sg = [] \<or> (\<exists>x. sg = [x] \<and> is_sign x)" "ds \<noteq> []" "list_all is_decimal ds"
    using assms(1) unfolding exponent_def by blast
  obtain d ds' where d: "ds = d # ds'" "is_decimal d" using e(4,5) by (cases ds) auto
  have "skip_sign (sg @ ds @ left) = ds @ left" using e(3) d char_facts(7) by (auto simp: skip_sign_def)
  then have "float_scan_loop sp hex s (e @ left) = float_scan_loop sp hex (s\<lparr>fs_exp := True\<rparr>) (ds @ left)"
    using assms(2,3) d by (simp add: e(1) step_exp [OF e(2)])
  then show ?thesis using scan_exp_digits [OF e(5), of sp hex "s\<lparr>fs_exp := True\<rparr>" left] 
    record_same [OF assms(2)] assms(2) by simp
qed

lemma scan_shorter: "float_scan_loop sp hex s cs = Inr (s', left) \<Longrightarrow> length left \<le> length cs"
proof (induction "length cs" arbitrary: s cs rule: less_induct)
  case less
  show ?case
  proof (cases cs)
    case (Cons c ds)
    have IH: "length left \<le> length ds'" if "float_scan_loop sp hex t ds' = Inr (s', left)" "length ds' < length cs" for t ds'
      using less.hyps that by blast
    have sk: "length (skip_sign ds) < length cs" using length_skip_sign [of ds] by (simp add: Cons less_Suc_eq_le)
    consider (dec) "is_decimal c" | (mant) "mant_char hex c" "\<not> fs_exp s" | (dot) "c = CHR ''.''" | (exp) "is_exp hex c"
    | (other) "\<not> is_decimal c" "mant_char hex c \<longrightarrow> fs_exp s" "c \<noteq> CHR ''.''" "\<not> is_exp hex c" by blast
    then show ?thesis
    proof cases
      case exp
      then have "float_scan_loop sp hex (s\<lparr>fs_exp := True\<rparr>) (skip_sign ds) = Inr (s', left)"
        using less.prems by (simp add: Cons step_exp split: if_split_asm)
      from IH [OF this sk] show ?thesis using sk by simp
    qed (use less.prems IH [of _ ds] in \<open>auto simp: Cons step_dec step_mant step_dot step_other split: if_split_asm dest!: IH\<close>)
  qed (use less.prems in simp)
qed

lemma scan_progress: "float_scan_loop sp hex s cs = Inr (s', left) \<Longrightarrow> cs \<noteq> [] \<Longrightarrow> is_decimal (hd cs) \<Longrightarrow> cs \<noteq> left"
  using scan_shorter [of sp hex "s\<lparr>fs_digit := True\<rparr>" "tl cs" s' left] by (cases cs) (auto simp: step_dec)

lemma scan_split_exp:
  "float_scan_loop sp hex s cs = Inr (s', left) \<Longrightarrow> fs_exp s \<Longrightarrow> fs_exp s' \<and> (fs_digit s \<longrightarrow> fs_digit s') \<and> (\<exists>ds. cs = ds @ left \<and> list_all is_decimal ds)"
proof (induction cs arbitrary: s)
  case (Cons c cs)
  consider (dec) "is_decimal c" | (mant) "mant_char hex c" "\<not> fs_exp s" | (dot) "c = CHR ''.''" | (exp) "is_exp hex c"
    | (other) "\<not> is_decimal c" "mant_char hex c \<longrightarrow> fs_exp s" "c \<noteq> CHR ''.''" "\<not> is_exp hex c" by blast
  then show ?case
  proof cases
    case dec
    then have "fs_exp s' \<and> fs_digit s' \<and> (\<exists>ds. cs = ds @ left \<and> list_all is_decimal ds)"
      using Cons.IH [of "s\<lparr>fs_digit := True\<rparr>"] Cons.prems by (simp add: step_dec)
    then obtain ds where "fs_exp s'" "fs_digit s'" "cs = ds @ left" "list_all is_decimal ds" by blast
    then show ?thesis using dec by (intro conjI exI [of _ "c # ds"]) simp_all
  next
    case other
    then show ?thesis using Cons.prems by (auto simp: step_other)
  qed (use Cons.prems in \<open>simp_all add: step_dot step_exp\<close>)
qed auto

lemma scan_split:
  "float_scan_loop sp hex s cs = Inr (s', left) \<Longrightarrow> \<not> fs_exp s \<Longrightarrow>
   \<exists>m e. cs = m @ e @ left \<and> (\<forall>c\<in>set m. c = CHR ''.'' \<or> mant_char hex c) \<and> count_list m CHR ''.'' + (if fs_dot s then 1 else 0) \<le> 1
     \<and> (fs_digit s' \<longleftrightarrow> fs_digit s \<or> (\<exists>c\<in>set m. c \<noteq> CHR ''.'')) \<and> (if fs_exp s' then exponent hex e else e = [])"
proof (induction cs arbitrary: s)
  case Nil
  then show ?case by auto
next
  case (Cons c cs)
  note IH = Cons.IH and prems = Cons.prems
  consider (digit) "mant_char hex c" | (dot) "c = CHR ''.''" | (exp) "is_exp hex c" | (other) "\<not> mant_char hex c" "c \<noteq> CHR ''.''" "\<not> is_exp hex c" by blast
  then show ?case
  proof cases
    case digit
    then have "float_scan_loop sp hex s (c # cs) = float_scan_loop sp hex (s\<lparr>fs_digit := True\<rparr>) cs" using prems(2) by (rule step_mant)
    then have "\<exists>m e. cs = m @ e @ left \<and> (\<forall>c\<in>set m. c = CHR ''.'' \<or> mant_char hex c) \<and> count_list m CHR ''.'' + (if fs_dot s then 1 else 0) \<le> 1
      \<and> fs_digit s' \<and> (if fs_exp s' then exponent hex e else e = [])"
      using IH [of "s\<lparr>fs_digit := True\<rparr>"] prems by simp
    then obtain m e where "cs = m @ e @ left" "\<forall>c\<in>set m. c = CHR ''.'' \<or> mant_char hex c" "count_list m CHR ''.'' + (if fs_dot s then 1 else 0) \<le> 1"
      "fs_digit s'" "if fs_exp s' then exponent hex e else e = []" by blast
    moreover have "c \<noteq> CHR ''.''" using digit char_facts(1,2) by (auto simp: mant_char_def)
    ultimately show ?thesis using digit by (intro exI [of _ "c # m"] exI [of _ e]) simp
  next
    case dot
    then have nd: "\<not> fs_dot s" using prems by (auto simp: step_dot split: if_split_asm)
    then have "float_scan_loop sp hex s (c # cs) = float_scan_loop sp hex (s\<lparr>fs_dot := True\<rparr>) cs" using prems(2) dot by (simp add: step_dot)
    then have "\<exists>m e. cs = m @ e @ left \<and> (\<forall>c\<in>set m. c = CHR ''.'' \<or> mant_char hex c) \<and> count_list m CHR ''.'' + 1 \<le> 1
      \<and> (fs_digit s' \<longleftrightarrow> fs_digit s \<or> (\<exists>c\<in>set m. c \<noteq> CHR ''.'')) \<and> (if fs_exp s' then exponent hex e else e = [])"
      using IH [of "s\<lparr>fs_dot := True\<rparr>"] prems by simp
    then obtain m e where "cs = m @ e @ left" "\<forall>c\<in>set m. c = CHR ''.'' \<or> mant_char hex c" "count_list m CHR ''.'' + 1 \<le> 1"
      "fs_digit s' \<longleftrightarrow> fs_digit s \<or> (\<exists>c\<in>set m. c \<noteq> CHR ''.'')" "if fs_exp s' then exponent hex e else e = []" by (elim exE conjE) (rule that)
    then show ?thesis using dot nd by (intro exI [of _ "c # m"] exI [of _ e]) simp
  next
    case exp
    have d: "fs_digit s" "skip_sign cs \<noteq> []" "is_decimal (hd (skip_sign cs))"
      "float_scan_loop sp hex (s\<lparr>fs_exp := True\<rparr>) (skip_sign cs) = Inr (s', left)"
      using prems by (simp_all add: step_exp [OF exp] split: if_split_asm)
    then obtain ds where ds: "fs_exp s'" "fs_digit s'" "skip_sign cs = ds @ left" "list_all is_decimal ds" using scan_split_exp [OF d(4)] by auto
    obtain sg where sg: "cs = sg @ skip_sign cs" "sg = [] \<or> (\<exists>x. sg = [x] \<and> is_sign x)"
    proof (cases cs)
      case (Cons x xs)
      show ?thesis
      proof (cases "is_sign x")
        case True
        then show ?thesis using that [of "[x]"] Cons by (simp add: skip_sign_def)
      next
        case False
        then show ?thesis using that [of "[]"] Cons by (simp add: skip_sign_def)
      qed
    qed (use that [of "[]"] in \<open>simp add: skip_sign_def\<close>)
    have "ds \<noteq> []"
    proof
      assume "ds = []"
      then have "skip_sign cs = left" using ds(3) by simp
      then show False using scan_progress [OF d(4)] d(2,3) by simp
    qed
    then have "exponent hex (c # sg @ ds)" using exp sg(2) ds(4) by (auto simp: exponent_def)
    then show ?thesis
      using ds(1,2) d(1) sg(1) ds(3) by (intro exI [of _ "[]"] exI [of _ "c # sg @ ds"]) simp
  next
    case other
    then have "\<not> is_decimal c" by (simp add: mant_char_def)
    then show ?thesis using prems other by (intro exI [of _ "[]"]) (auto simp: step_other)
  qed
qed

lemma float_suffix_lookup:
  "s \<noteq> [] \<Longrightarrow> float_suffix target s = map_of (float_suffix_table target) s"
proof -
  assume "s \<noteq> []"
  then obtain c1 s1 where s: "s = c1 # s1" by (cases s) auto
  consider "s1 = []" | c2 where "s1 = [c2]" | c2 c3 where "s1 = [c2, c3]" | c2 c3 c4 where "s1 = [c2, c3, c4]" | "length s1 > 3"
    by (cases s1; cases "tl s1"; cases "tl (tl s1)"; cases "tl (tl (tl s1))") auto
  then show ?thesis
    by cases (auto simp: s float_suffix_def float_suffix_table_def is_f_def Let_def)
qed

lemma float_suffix_first:
  assumes "map_of (float_suffix_table target) (c # cs) = Some r"
  shows "\<not> is_decimal c" "c \<noteq> CHR ''.''" "\<not> is_exp hex c" "mant_char hex c \<longrightarrow> hex"
proof -
  have "c \<in> {CHR ''f'', CHR ''F'', CHR ''l'', CHR ''L'', CHR ''q'', CHR ''Q''}"
    using assms by (auto simp: float_suffix_table_def split: if_split_asm)
  then show "\<not> is_decimal c" "c \<noteq> CHR ''.''" "\<not> is_exp hex c" "mant_char hex c \<longrightarrow> hex"
    by (auto simp: is_decimal_def is_exp_def mant_char_def)
qed

abbreviation scan_start :: float_scan where
  "scan_start \<equiv> \<lparr>fs_digit = False, fs_dot = False, fs_exp = False\<rparr>"

text \<open>The scan accepts a spelling of the grammar and stops at its suffix.\<close>

lemma scan_spelling:
  assumes "mantissa hex m" "exponent hex e \<or> (\<not> hex \<and> e = [])" "map_of (float_suffix_table target) s = Some r"
  shows "\<exists>st. float_scan_loop sp hex scan_start (m @ e @ s) = Inr (st, s) \<and> fs_digit st \<and> (hex \<longrightarrow> fs_exp st)"
proof -
  define st where "st = \<lparr>fs_digit = True, fs_dot = CHR ''.'' \<in> set m, fs_exp = False\<rparr>"
  define st' where "st' = (if e = [] then st else st\<lparr>fs_exp := True\<rparr>)"
  have "float_scan_loop sp hex scan_start (m @ e @ s) = float_scan_loop sp hex st (e @ s)"
    using assms(1) by (subst scan_mantissa) (auto simp: mantissa_def st_def)
  also have "\<dots> = float_scan_loop sp hex st' s"
    using assms(2) scan_exponent [of hex e st sp s] by (auto simp: st'_def st_def exponent_def)
  also have "\<dots> = Inr (st', s)"
  proof (cases s)
    case (Cons c cs)
    have f: "\<not> is_decimal c" "c \<noteq> CHR ''.''" "\<not> is_exp hex c" "mant_char hex c \<longrightarrow> hex"
      by (rule float_suffix_first [OF assms(3) [unfolded Cons]])+
    have "mant_char hex c \<longrightarrow> fs_exp st'" using f(4) assms(2) by (auto simp: st'_def exponent_def)
    then show ?thesis using step_other f by (simp add: Cons)
  qed simp
  finally show ?thesis using assms(2) by (intro exI [of _ st']) (auto simp: st'_def st_def exponent_def)
qed

lemma lex_float_const_scan:
  "lex_float_const lang target sp t =
     (let t' = t\<lparr>tk_float_type := FTY_DOUBLE\<rparr>;
          warned = (if hex_prefix sp \<and> \<not> std_is_c99_or_later (lo_std lang)
                    then [Diag Sev_Warn ''hexadecimal floating constants are a C99 feature'' []] else [])
      in case float_scan_loop sp (hex_prefix sp) scan_start (if hex_prefix sp then drop 2 sp else sp) of
        Inl e \<Rightarrow> (t', [e])
      | Inr (s, left) \<Rightarrow>
          if \<not> fs_digit s then (t', [Diag Sev_Error ''invalid floating constant'' [sp]])
          else if hex_prefix sp \<and> \<not> fs_exp s then (t', [Diag Sev_Error ''hexadecimal floating constant requires an exponent'' []])
          else (case map_of (float_suffix_table target) left of
                 Some (ty, ext) \<Rightarrow> (t\<lparr>tk_float_type := ty, tk_float_ext_suffix := ext \<or> tk_float_ext_suffix t\<rparr>, warned)
               | None \<Rightarrow> (t', warned @ [Diag Sev_Error ''invalid suffix on floating constant'' [sp]])))"
proof -
  have body: "drop (if h then 2 else 0) sp = (if h then drop 2 sp else sp)" for h by simp
  have nil: "map_of (float_suffix_table target) [] = Some (FTY_DOUBLE, False)" by (simp add: float_suffix_table_def)
  have rec: "t\<lparr>tk_float_type := ty, tk_float_ext_suffix := tk_float_ext_suffix t\<rparr> = t\<lparr>tk_float_type := ty\<rparr>" for ty by (cases t) simp
  show ?thesis
    unfolding lex_float_const_def body Let_def
    by (auto simp: float_suffix_lookup nil rec split: sum.split option.split)
qed

lemma scan_error: "float_scan_loop sp hex s cs = Inl e \<Longrightarrow> is_error e"
proof (induction "length cs" arbitrary: s cs rule: less_induct)
  case less
  have err: "is_error (Diag Sev_Error a b)" for a b by (simp add: is_error_def)
  show ?case
  proof (cases cs)
    case (Cons c ds)
    have IH: "is_error e" if "float_scan_loop sp hex t ds' = Inl e" "length ds' < length cs" for t ds' using less.hyps that by blast
    have sk: "length (skip_sign ds) < length cs" using length_skip_sign [of ds] by (simp add: Cons less_Suc_eq_le)
    consider (dec) "is_decimal c" | (mant) "mant_char hex c" "\<not> fs_exp s" | (dot) "c = CHR ''.''" | (exp) "is_exp hex c"
    | (other) "\<not> is_decimal c" "mant_char hex c \<longrightarrow> fs_exp s" "c \<noteq> CHR ''.''" "\<not> is_exp hex c" by blast
    then show ?thesis
    proof cases
      case exp
      then show ?thesis using less.prems IH [OF _ sk] err by (auto simp: Cons step_exp split: if_split_asm)
    qed (use less.prems err in \<open>auto simp: Cons step_dec step_mant step_dot step_other split: if_split_asm dest!: IH\<close>)
  qed (use less.prems in simp)
qed



end
