(* ===== verification/Strlit.thy ===== *)
theory Strlit
  imports Lex_Token
begin

text \<open>
  src/src/lex/strlit.c: character and string literals, decoded into the execution character set. The index
  into the spelling is the list of characters left. A decoder returns the diagnostics it has given and,
  unless one of them was an error, the code value, whether it came from a universal character name, and
  the characters left; the flag \<open>failed\<close> of the code is this missing result.
\<close>

section \<open>Decoding\<close>

abbreviation byte_u32 :: "char \<Rightarrow> u32" where
  "byte_u32 c \<equiv> of_nat (code c)"

definition read_prefix :: "string \<Rightarrow> enc_prefix \<times> string" where
  "read_prefix s =
     (if s \<noteq> [] \<and> s ! 0 = CHR ''L'' then (ENC_WIDE, drop 1 s)
      else if s \<noteq> [] \<and> s ! 0 = CHR ''U'' then (ENC_U32, drop 1 s)
      else if s \<noteq> [] \<and> s ! 0 = CHR ''u'' then
        (if 1 < length s \<and> s ! 1 = CHR ''8'' then (ENC_U8, drop 2 s) else (ENC_U16, drop 1 s))
      else (ENC_NONE, s))"

definition ucn_value_ok :: "u32 \<Rightarrow> bool" where
  "ucn_value_ok v =
     (if v < 0xA0 then v = 0x24 \<or> v = 0x40 \<or> v = 0x60
      else if v \<ge> 0xD800 \<and> v \<le> 0xDFFF then False
      else v \<le> 0x10FFFF)"

text \<open>The continuation bytes, \<open>k\<close> of them left.\<close>

fun utf8_cont :: "nat \<Rightarrow> u32 \<Rightarrow> string \<Rightarrow> string + u32 \<times> string" where
  "utf8_cont 0 v cs = Inr (v, cs)"
| "utf8_cont (Suc k) v [] = Inl ''incomplete UTF-8 sequence in literal''"
| "utf8_cont (Suc k) v (c # cs) =
     (if byte_u32 c AND 0xC0 \<noteq> 0x80 then Inl ''invalid UTF-8 continuation byte in literal''
      else utf8_cont k (push_bit 6 v OR (byte_u32 c AND 0x3F)) cs)"

definition utf8_finish :: "u32 \<Rightarrow> string + u32 \<times> string \<Rightarrow> string + u32 \<times> string" where
  "utf8_finish mn r = (case r of Inl e \<Rightarrow> Inl e
     | Inr (v, left) \<Rightarrow>
         if v < mn \<or> (v \<ge> 0xD800 \<and> v \<le> 0xDFFF) \<or> v > 0x10FFFF then Inl ''invalid Unicode scalar value in UTF-8 literal''
         else Inr (v, left))"

definition decode_raw_utf8 :: "string \<Rightarrow> string + u32 \<times> string" where
  "decode_raw_utf8 cs =
     (let lead = byte_u32 (cs ! 0); left = drop 1 cs in
      if lead < 0x80 then Inr (lead, left)
      else if lead \<ge> 0xC2 \<and> lead \<le> 0xDF then utf8_finish 0x80 (utf8_cont 1 (lead AND 0x1F) left)
      else if lead \<ge> 0xE0 \<and> lead \<le> 0xEF then utf8_finish 0x800 (utf8_cont 2 (lead AND 0x0F) left)
      else if lead \<ge> 0xF0 \<and> lead \<le> 0xF4 then utf8_finish 0x10000 (utf8_cont 3 (lead AND 0x07) left)
      else Inl ''invalid UTF-8 sequence in literal'')"

definition hex_value :: "char \<Rightarrow> u32 option" where
  "hex_value d =
     (if is_decimal d then Some (byte_u32 d - byte_u32 CHR ''0'')
      else if code CHR ''a'' \<le> code d \<and> code d \<le> code CHR ''f'' then Some (byte_u32 d - byte_u32 CHR ''a'' + 10)
      else if code CHR ''A'' \<le> code d \<and> code d \<le> code CHR ''F'' then Some (byte_u32 d - byte_u32 CHR ''A'' + 10)
      else None)"

text \<open>At most \<open>k\<close> octal digits; hexadecimal digits without bound; exactly \<open>want\<close> hexadecimal digits.\<close>

fun octal_escape :: "nat \<Rightarrow> u32 \<Rightarrow> string \<Rightarrow> u32 \<times> string" where
  "octal_escape (Suc k) v (c # cs) =
     (if code CHR ''0'' \<le> code c \<and> code c \<le> code CHR ''7'' then octal_escape k (v * 8 + (byte_u32 c - byte_u32 CHR ''0'')) cs
      else (v, c # cs))"
| "octal_escape k v cs = (v, cs)"

fun hex_escape :: "u32 \<Rightarrow> nat \<Rightarrow> string \<Rightarrow> u32 \<times> nat \<times> string" where
  "hex_escape v k [] = (v, k, [])"
| "hex_escape v k (d # ds) =
     (case hex_value d of
        None \<Rightarrow> (v, k, d # ds)
      | Some dv \<Rightarrow> hex_escape (if v > 0x0FFFFFFF then 0x10000000 else v * 16 + dv) (k + 1) ds)"

fun ucn_digits :: "nat \<Rightarrow> u32 \<Rightarrow> string \<Rightarrow> (u32 \<times> string) option" where
  "ucn_digits 0 v cs = Some (v, cs)"
| "ucn_digits (Suc k) v [] = None"
| "ucn_digits (Suc k) v (d # ds) = (case hex_value d of None \<Rightarrow> None | Some dv \<Rightarrow> ucn_digits k (v * 16 + dv) ds)"

abbreviation lit_err :: "string \<Rightarrow> lex_diag list \<times> 'a option" where
  "lit_err msg \<equiv> ([Diag Sev_Error msg []], None)"

text \<open>The escapes of one character.\<close>

definition simple_escapes :: "(char \<times> u32) list" where
  "simple_escapes = [(CHR ''n'', 10), (CHR ''t'', 9), (CHR ''r'', 13), (CHR ''a'', 7), (CHR ''b'', 8), (CHR ''f'', 12), (CHR ''v'', 11),
     (CHR 0x5C, 92), (CHR 0x27, 39), (CHR 0x22, 34), (CHR ''?'', 63)]"

definition decode_escape :: "lang_opts \<Rightarrow> string \<Rightarrow> lex_diag list \<times> (u32 \<times> bool \<times> string) option" where
  "decode_escape lang cs =
     (case cs of
        [] \<Rightarrow> lit_err ''incomplete escape sequence''
      | c # ds \<Rightarrow>
          (case map_of simple_escapes c of
             Some v \<Rightarrow> ([], Some (v, False, ds))
           | None \<Rightarrow>
               if c = CHR ''e'' then
                 (if \<not> lo_gnu_mode lang \<and> lo_pedantic lang then [Diag Sev_Warn ''escape e is a GNU extension'' []] else [],
                  Some (27, False, ds))
               else if code CHR ''0'' \<le> code c \<and> code c \<le> code CHR ''7'' then
                 (let (v, left) = octal_escape 3 0 (c # ds) in ([], Some (v, False, left)))
               else if c = CHR ''x'' then
                 (let (v, k, left) = hex_escape 0 0 ds in
                  if k = 0 then lit_err ''escape x used with no following hex digits'' else ([], Some (v, False, left)))
               else if c = CHR ''u'' \<or> c = CHR ''U'' then
                 (case ucn_digits (if c = CHR ''u'' then 4 else 8) 0 ds of
                    None \<Rightarrow> lit_err ''incomplete universal character name''
                  | Some (v, left) \<Rightarrow>
                      if \<not> ucn_value_ok v then lit_err ''not a valid universal character'' else ([], Some (v, True, left)))
               else lit_err ''unknown escape sequence''))"

text \<open>One element starting at the first of a nonempty list of characters left.\<close>

definition decode_char :: "lang_opts \<Rightarrow> bool \<Rightarrow> string \<Rightarrow> lex_diag list \<times> (u32 \<times> bool \<times> string) option" where
  "decode_char lang decode_utf8 cs =
     (if cs ! 0 \<noteq> CHR 0x5C then
        (if decode_utf8 then (case decode_raw_utf8 cs of Inl e \<Rightarrow> lit_err e | Inr (v, left) \<Rightarrow> ([], Some (v, False, left)))
         else ([], Some (byte_u32 (cs ! 0), False, drop 1 cs)))
      else decode_escape lang (drop 1 cs))"

section \<open>Encoding\<close>

definition put_utf8 :: "u32 \<Rightarrow> u8 list" where
  "put_utf8 v =
     (if v < 0x80 then [ucast v]
      else if v < 0x800 then [ucast (0xC0 OR drop_bit 6 v), ucast (0x80 OR (v AND 0x3F))]
      else if v < 0x10000 then
        [ucast (0xE0 OR drop_bit 12 v), ucast (0x80 OR (drop_bit 6 v AND 0x3F)), ucast (0x80 OR (v AND 0x3F))]
      else [ucast (0xF0 OR drop_bit 18 v), ucast (0x80 OR (drop_bit 12 v AND 0x3F)), ucast (0x80 OR (drop_bit 6 v AND 0x3F)),
            ucast (0x80 OR (v AND 0x3F))])"

definition put_u16 :: "u32 \<Rightarrow> u8 list" where
  "put_u16 v =
     (if v \<ge> 0x10000 then
        (let x = v - 0x10000; hi = 0xD800 + drop_bit 10 x; lo = 0xDC00 + (x AND 0x3FF)
         in [ucast (hi AND 0xFF), ucast (drop_bit 8 hi), ucast (lo AND 0xFF), ucast (drop_bit 8 lo)])
      else [ucast (v AND 0xFF), ucast (drop_bit 8 v)])"

definition put_u32le :: "u32 \<Rightarrow> u8 list" where
  "put_u32le v = [ucast (v AND 0xFF), ucast (drop_bit 8 v AND 0xFF), ucast (drop_bit 16 v AND 0xFF), ucast (drop_bit 24 v AND 0xFF)]"

lemma utf8_cont_left: "utf8_cont k v cs = Inr (w, left) \<Longrightarrow> length left \<le> length cs"
  by (induction k v cs rule: utf8_cont.induct) (auto split: if_split_asm)

lemma octal_escape_left: "length (snd (octal_escape k v cs)) \<le> length cs"
  by (induction k v cs rule: octal_escape.induct) (auto simp: le_SucI)

lemma hex_escape_left: "hex_escape v k cs = (w, j, left) \<Longrightarrow> length left \<le> length cs"
  by (induction v k cs rule: hex_escape.induct) (auto split: option.split_asm)

lemma ucn_digits_left: "ucn_digits k v cs = Some (w, left) \<Longrightarrow> length left \<le> length cs"
  by (induction k v cs rule: ucn_digits.induct) (auto split: option.split_asm)

lemma decode_char_left:
  assumes "decode_char lang u cs = (ds, Some (v, ucn, left))" "cs \<noteq> []"
  shows "length left < length cs"
proof -
  obtain c cs' where cs: "cs = c # cs'" using assms(2) by (cases cs) auto
  show ?thesis
  proof (cases "c = CHR 0x5C")
    case True
    then have "decode_escape lang cs' = (ds, Some (v, ucn, left))" using assms(1) by (simp add: cs decode_char_def)
    then have "length left \<le> length cs'"
      using octal_escape_left [of 3 0 cs'] hex_escape_left ucn_digits_left
      by (fastforce simp: decode_escape_def Let_def split: list.split_asm option.split_asm if_split_asm prod.split_asm)
    then show ?thesis by (simp add: cs)
  next
    case False
    then show ?thesis
      using assms(1) utf8_cont_left
      by (fastforce simp: cs decode_char_def decode_raw_utf8_def utf8_finish_def Let_def split: sum.split_asm if_split_asm prod.split_asm)
  qed
qed

section \<open>Character constants\<close>

text \<open>The encodings whose elements are code values.\<close>

definition enc_decodes :: "enc_prefix \<Rightarrow> bool" where
  "enc_decodes enc \<longleftrightarrow> enc = ENC_WIDE \<or> enc = ENC_U16 \<or> enc = ENC_U32"

definition elem_bits :: "int_widths \<Rightarrow> enc_prefix \<Rightarrow> nat" where
  "elem_bits w enc = (case enc of ENC_NONE \<Rightarrow> iw_char_bits w | ENC_WIDE \<Rightarrow> iw_wchar_bits w | ENC_U16 \<Rightarrow> 16 | ENC_U32 \<Rightarrow> 32 | ENC_U8 \<Rightarrow> 32)"

definition elem_signed :: "int_widths \<Rightarrow> enc_prefix \<Rightarrow> bool" where
  "elem_signed w enc = (case enc of ENC_NONE \<Rightarrow> iw_char_signed w | ENC_WIDE \<Rightarrow> True | ENC_U16 \<Rightarrow> False | ENC_U32 \<Rightarrow> False | ENC_U8 \<Rightarrow> False)"

text \<open>
  The loop over the elements of a character constant: the value and the number of elements so far, the
  characters left. \<open>failed\<close> is set on entry if an earlier diagnostic was an error; the loop then
  returns after the first element.
\<close>

function char_loop :: "lang_opts \<Rightarrow> int_widths \<Rightarrow> enc_prefix \<Rightarrow> bool \<Rightarrow> u64 \<Rightarrow> nat \<Rightarrow> string \<Rightarrow>
    lex_diag list \<times> (u64 \<times> nat \<times> string) option" where
  "char_loop lang w enc failed v n cs =
     (if cs = [] \<or> cs ! 0 = CHR 0x27 then ([], Some (v, n, cs))
      else
        (case decode_char lang (enc_decodes enc) cs of
           (ds, None) \<Rightarrow> (ds, None)
         | (ds, Some (cv, ucn, left)) \<Rightarrow>
             if failed then (ds, None)
             else if elem_bits w enc < 32 \<and> cv \<ge> push_bit (elem_bits w enc) 1 \<and> \<not> ucn
             then (ds @ [Diag Sev_Error ''escape sequence out of range for type'' []], None)
             else
               (let (ds', r) = char_loop lang w enc failed
                      (if enc = ENC_NONE then push_bit 8 v OR (ucast cv AND 0xFF) else ucast cv) (n + 1) left
                in (ds @ ds', r))))"
  by pat_completeness auto
termination
  by (relation "measure (\<lambda>(lang, w, enc, failed, v, n, cs). length cs)") (auto dest: decode_char_left [OF sym])

declare char_loop.simps [simp del]

definition lex_char_const :: "lang_opts \<Rightarrow> int_widths \<Rightarrow> string \<Rightarrow> token \<Rightarrow> token \<times> lex_diag list" where
  "lex_char_const lang w sp t =
     (let (enc, cs) = read_prefix sp in
      if enc = ENC_U8 \<and> \<not> std_is_c11_or_later (lo_std lang) then
        (t, [Diag Sev_Error ''u8 character constants are a C23 feature'' []])
      else
        (let failed = ((enc = ENC_U16 \<or> enc = ENC_U32) \<and> \<not> std_is_c11_or_later (lo_std lang));
             ds0 = (if failed then [Diag Sev_Error ''u/U character constants are a C11 feature'' []] else [])
         in
         if cs = [] \<or> cs ! 0 \<noteq> CHR 0x27 then (t, ds0 @ [Diag Sev_Error ''malformed character constant'' []])
         else
           (case char_loop lang w enc failed 0 0 (drop 1 cs) of
              (ds, None) \<Rightarrow> (t, ds0 @ ds)
            | (ds, Some (v, n, left)) \<Rightarrow>
                if left = [] \<or> left ! 0 \<noteq> CHR 0x27 then (t, ds0 @ ds @ [Diag Sev_Error ''missing terminating quote'' []])
                else if n = 0 then (t, ds0 @ ds @ [Diag Sev_Error ''empty character constant'' []])
                else
                  (let ws = (if n > 1 then [Diag Sev_Warn (if enc = ENC_NONE then ''multi-character character constant''
                                 else ''character constant too long for its type'') []] else []);
                       v' = (if n > 1 \<and> enc = ENC_NONE \<and> n > 4 then v AND 0xFFFFFFFF else v)
                   in (t\<lparr>tk_int_type := ITY_INT, tk_enc := enc,
                         tk_int_val := (if enc = ENC_NONE \<and> n = 1 \<and> elem_signed w enc \<and> v' AND 0x80 \<noteq> 0
                                        then scast (ucast v' :: u8) else v')\<rparr>,
                       ds0 @ ds @ ws)))))"

section \<open>String literals\<close>

text \<open>The encoding of a run of literals: the prefixes present must agree.\<close>

fun run_prefix :: "enc_prefix \<Rightarrow> string list \<Rightarrow> enc_prefix option" where
  "run_prefix enc [] = Some enc"
| "run_prefix enc (s # ss) =
     (let e = fst (read_prefix s) in
      if e = ENC_NONE then run_prefix enc ss
      else if enc \<noteq> ENC_NONE \<and> enc \<noteq> e then None
      else run_prefix e ss)"

text \<open>One decoded element appended to the payload, with the number of elements it counts for.\<close>

definition put_element :: "enc_prefix \<Rightarrow> u32 \<Rightarrow> bool \<Rightarrow> u8 list \<times> nat" where
  "put_element enc cv ucn =
     (case enc of
        ENC_WIDE \<Rightarrow> (put_u32le cv, 1)
      | ENC_U32 \<Rightarrow> (put_u32le cv, 1)
      | ENC_U16 \<Rightarrow> (put_u16 cv, (if cv \<ge> 0x10000 then 1 else 0) + 1)
      | ENC_NONE \<Rightarrow> if ucn then (put_utf8 cv, length (put_utf8 cv) - 1 + 1) else ([ucast cv], 1)
      | ENC_U8 \<Rightarrow> if ucn then (put_utf8 cv, length (put_utf8 cv) - 1 + 1) else ([ucast cv], 1))"

function str_loop :: "lang_opts \<Rightarrow> enc_prefix \<Rightarrow> u8 list \<Rightarrow> nat \<Rightarrow> string \<Rightarrow> lex_diag list \<times> (u8 list \<times> nat) option" where
  "str_loop lang enc payload n cs =
     (if cs = [] \<or> cs ! 0 = CHR 0x22 then ([], Some (payload, n))
      else
        (case decode_char lang (enc_decodes enc) cs of
           (ds, None) \<Rightarrow> (ds, None)
         | (ds, Some (cv, ucn, left)) \<Rightarrow>
             (let (bs, k) = put_element enc cv ucn; (ds', r) = str_loop lang enc (payload @ bs) (n + k) left
              in (ds @ ds', r))))"
  by pat_completeness auto
termination
  by (relation "measure (\<lambda>(lang, enc, payload, n, cs). length cs)") (auto dest: decode_char_left [OF sym])

declare str_loop.simps [simp del]

fun run_loop :: "lang_opts \<Rightarrow> enc_prefix \<Rightarrow> u8 list \<Rightarrow> nat \<Rightarrow> string list \<Rightarrow> lex_diag list \<times> (u8 list \<times> nat) option" where
  "run_loop lang enc payload n [] = ([], Some (payload, n))"
| "run_loop lang enc payload n (s # ss) =
     (let cs = snd (read_prefix s) in
      if cs = [] \<or> cs ! 0 \<noteq> CHR 0x22 then lit_err ''malformed string literal''
      else
        (case str_loop lang enc payload n (drop 1 cs) of
           (ds, None) \<Rightarrow> (ds, None)
         | (ds, Some (payload', n')) \<Rightarrow> (let (ds', r) = run_loop lang enc payload' n' ss in (ds @ ds', r))))"

definition str_terminator :: "enc_prefix \<Rightarrow> u8 list" where
  "str_terminator enc = (case enc of ENC_WIDE \<Rightarrow> put_u32le 0 | ENC_U32 \<Rightarrow> put_u32le 0 | ENC_U16 \<Rightarrow> put_u16 0 | ENC_NONE \<Rightarrow> [0] | ENC_U8 \<Rightarrow> [0])"

text \<open>The byte and element counts are 32 bits wide.\<close>

definition lex_string_lit :: "lang_opts \<Rightarrow> pp_token list \<Rightarrow> token \<Rightarrow> token \<times> lex_diag list" where
  "lex_string_lit lang run t =
     (case run_prefix ENC_NONE (map pp_spelling run) of
        None \<Rightarrow> (t, [Diag Sev_Error ''concatenation of differently-prefixed string literals'' []])
      | Some enc \<Rightarrow>
          if (enc = ENC_U16 \<or> enc = ENC_U32 \<or> enc = ENC_U8) \<and> \<not> std_is_c11_or_later (lo_std lang) then
            (t, [Diag Sev_Error ''u/U/u8 string literals are a C11 feature'' []])
          else
            (case run_loop lang enc [] 0 (map pp_spelling run) of
               (ds, None) \<Rightarrow> (t, ds)
             | (ds, Some (payload, n)) \<Rightarrow>
                 (let bytes = payload @ str_terminator enc in
                  (t\<lparr>tk_str := \<lparr>sl_bytes = bytes,
                       sl_nbytes = (length bytes - (if enc = ENC_WIDE \<or> enc = ENC_U32 then 4 else if enc = ENC_U16 then 2 else 1)) mod 2 ^ 32,
                       sl_nelems = n mod 2 ^ 32, sl_enc = enc\<rparr>\<rparr>, ds))))"

section \<open>UTF-8\<close>

definition unicode_scalar :: "u32 \<Rightarrow> bool" where
  "unicode_scalar v \<longleftrightarrow> v \<le> 0x10FFFF \<and> \<not> (0xD800 \<le> v \<and> v \<le> 0xDFFF)"

text \<open>The bytes of a scalar value, as numbers.\<close>

definition utf8_codes :: "nat \<Rightarrow> nat list" where
  "utf8_codes n =
     (if n < 128 then [n]
      else if n < 2048 then [192 + n div 64, 128 + n mod 64]
      else if n < 65536 then [224 + n div 4096, 128 + n div 64 mod 64, 128 + n mod 64]
      else [240 + n div 262144, 128 + n div 4096 mod 64, 128 + n div 64 mod 64, 128 + n mod 64])"

abbreviation byte_char :: "u8 \<Rightarrow> char" where
  "byte_char b \<equiv> char_of (unat b)"

lemma unat_byte_u32 [simp]: "unat (byte_u32 c) = code c"
  using nat_of_char_less_256 [of c] by (simp add: unat_of_nat take_bit_eq_mod del: nat_of_char_less_256)

lemma low_masks:
  "(0x3F :: u32) = mask 6" "(0x1F :: u32) = mask 5" "(0x0F :: u32) = mask 4" "(0x07 :: u32) = mask 3" "(0x3FF :: u32) = mask 10"
  "(0xFF :: u32) = mask 8"
  by (simp_all add: mask_eq_exp_minus_1)

lemma cont_byte: "byte_u32 c AND 0xC0 = 0x80 \<longleftrightarrow> 128 \<le> code c \<and> code c < 192"
proof -
  have "list_all (\<lambda>n. ((of_nat n :: u32) AND 0xC0 = 0x80) = (128 \<le> n \<and> n < 192)) [0..<256]"
    by code_simp
  then show ?thesis by (simp add: list_all_iff del: upt_Suc)
qed

lemma unat_byte_or:
  assumes "unat a mod 2 ^ n = 0" "unat x < 2 ^ n" "unat a + unat x < 256"
  shows "unat (ucast (a OR x :: u32) :: u8) = unat a + unat x"
  using assms(3) by (simp add: unsigned_ucast_eq take_bit_eq_mod unat_or_disjoint [OF assms(1,2)])

lemma put_utf8_codes:
  assumes "v \<le> 0x10FFFF"
  shows "map unat (put_utf8 v) = utf8_codes (unat v)"
proof -
  have b: "unat v \<le> 1114111" using assms by (simp add: word_le_nat_alt)
  have lt: "v < 0x80 \<longleftrightarrow> unat v < 128" "v < 0x800 \<longleftrightarrow> unat v < 2048" "v < 0x10000 \<longleftrightarrow> unat v < 65536"
    by (simp_all add: word_less_nat_alt)
  have m: "unat (ucast (0x80 OR (x AND 0x3F) :: u32) :: u8) = 128 + unat x mod 64" for x :: u32
    by (subst unat_byte_or [of _ 6]) (simp_all add: low_masks(1) unat_low_mask)
  have l2: "unat (ucast (0xC0 OR drop_bit 6 v) :: u8) = 192 + unat v div 64" if "unat v < 2048"
    using that by (subst unat_byte_or [of _ 5]) (simp_all add: unat_shr)
  have l3: "unat (ucast (0xE0 OR drop_bit 12 v) :: u8) = 224 + unat v div 4096" if "unat v < 65536"
    using that by (subst unat_byte_or [of _ 4]) (simp_all add: unat_shr)
  have l4: "unat (ucast (0xF0 OR drop_bit 18 v) :: u8) = 240 + unat v div 262144"
    using b by (subst unat_byte_or [of _ 4]) (simp_all add: unat_shr)
  have l1: "unat (ucast v :: u8) = unat v" if "unat v < 128"
    using that by (simp add: unsigned_ucast_eq take_bit_eq_mod)
  show ?thesis
    using b by (auto simp: put_utf8_def utf8_codes_def lt m l1 l2 l3 l4 unat_shr)
qed

lemma cont_value:
  assumes "unat v < 2 ^ 26"
  shows "unat (push_bit 6 v OR (byte_u32 c AND 0x3F)) = unat v * 64 + code c mod 64"
proof -
  have p: "unat (push_bit 6 v) = unat v * 64" using assms by (simp add: unat_shl)
  show ?thesis by (subst unat_or_disjoint [of _ 6]) (simp_all add: p low_masks(1) unat_low_mask)
qed


definition cont_code :: "char \<Rightarrow> bool" where
  "cont_code c \<longleftrightarrow> 128 \<le> code c \<and> code c < 192"

lemma cont_code_mod: "cont_code c \<Longrightarrow> code c mod 64 = code c - 128"
  unfolding cont_code_def by (auto dest!: le_Suc_ex simp: mod_add_left_eq [of 128, symmetric])

definition cont_word :: "u32 \<Rightarrow> char \<Rightarrow> u32" where
  "cont_word a c = push_bit 6 a OR (byte_u32 c AND 0x3F)"

lemma unat_cont_word: "unat a < 2 ^ 26 \<Longrightarrow> cont_code c \<Longrightarrow> unat (cont_word a c) = unat a * 64 + (code c - 128)"
  by (simp add: cont_word_def cont_value cont_code_mod)

lemma unat_cont_word_less: "unat a < m \<Longrightarrow> m \<le> 2 ^ 26 \<Longrightarrow> cont_code c \<Longrightarrow> unat (cont_word a c) < m * 64"
  by (subst unat_cont_word) (auto simp: cont_code_def)

lemma utf8_cont_step:
  "utf8_cont (Suc k) a cs = Inr r \<longleftrightarrow> (\<exists>c cs'. cs = c # cs' \<and> cont_code c \<and> utf8_cont k (cont_word a c) cs' = Inr r)"
  by (cases cs) (auto simp: cont_byte cont_code_def cont_word_def)

lemma utf8_cont_1: "utf8_cont 1 a cs = Inr (v, left) \<longleftrightarrow> (\<exists>c. cs = c # left \<and> cont_code c \<and> v = cont_word a c)"
  using utf8_cont_step [of 0] by auto

lemma utf8_cont_2: "utf8_cont 2 a cs = Inr (v, left) \<longleftrightarrow>
    (\<exists>c d. cs = c # d # left \<and> cont_code c \<and> cont_code d \<and> v = cont_word (cont_word a c) d)"
proof -
  have "utf8_cont 2 a cs = Inr (v, left) \<longleftrightarrow> (\<exists>c cs'. cs = c # cs' \<and> cont_code c \<and> utf8_cont 1 (cont_word a c) cs' = Inr (v, left))"
    using utf8_cont_step [of 1 a] by (simp only: Suc_1)
  then show ?thesis by (auto simp only: utf8_cont_1)
qed

lemma utf8_cont_3: "utf8_cont 3 a cs = Inr (v, left) \<longleftrightarrow>
    (\<exists>c d e. cs = c # d # e # left \<and> cont_code c \<and> cont_code d \<and> cont_code e \<and> v = cont_word (cont_word (cont_word a c) d) e)"
proof -
  have "utf8_cont 3 a cs = Inr (v, left) \<longleftrightarrow> (\<exists>c cs'. cs = c # cs' \<and> cont_code c \<and> utf8_cont 2 (cont_word a c) cs' = Inr (v, left))"
    using utf8_cont_step [of 2 a] by (simp only: Suc_numeral semiring_norm)
  then show ?thesis by (auto simp only: utf8_cont_2)
qed

lemma cont_word_1: "unat a < 2 ^ 5 \<Longrightarrow> cont_code c \<Longrightarrow> unat (cont_word a c) = unat a * 64 + (code c - 128)"
  by (rule unat_cont_word) simp_all

lemma cont_word_2:
  assumes "unat a < 2 ^ 4" "cont_code c" "cont_code d"
  shows "unat (cont_word (cont_word a c) d) = unat a * 4096 + (code c - 128) * 64 + (code d - 128)"
  using unat_cont_word_less [OF assms(1) _ assms(2)] assms by (simp add: unat_cont_word)

lemma cont_word_3:
  assumes "unat a < 2 ^ 3" "cont_code c" "cont_code d" "cont_code e"
  shows "unat (cont_word (cont_word (cont_word a c) d) e) =
    unat a * 262144 + (code c - 128) * 4096 + (code d - 128) * 64 + (code e - 128)"
  using unat_cont_word_less [OF assms(1) _ assms(2)] unat_cont_word_less [of "cont_word a c" "2 ^ 9" d] assms
  by (simp add: unat_cont_word)

text \<open>The four shapes of a sequence, by its number of bytes.\<close>

definition utf8_seq :: "string \<Rightarrow> nat \<Rightarrow> string \<Rightarrow> bool" where
  "utf8_seq cs n left \<longleftrightarrow>
     (\<exists>a. cs = a # left \<and> code a < 128 \<and> n = code a)
   \<or> (\<exists>a b. cs = a # b # left \<and> 194 \<le> code a \<and> code a \<le> 223 \<and> cont_code b \<and> n = (code a - 192) * 64 + (code b - 128))
   \<or> (\<exists>a b c. cs = a # b # c # left \<and> 224 \<le> code a \<and> code a \<le> 239 \<and> cont_code b \<and> cont_code c
        \<and> n = (code a - 224) * 4096 + (code b - 128) * 64 + (code c - 128) \<and> 2048 \<le> n \<and> \<not> (55296 \<le> n \<and> n \<le> 57343))
   \<or> (\<exists>a b c d. cs = a # b # c # d # left \<and> 240 \<le> code a \<and> code a \<le> 244 \<and> cont_code b \<and> cont_code c \<and> cont_code d
        \<and> n = (code a - 240) * 262144 + (code b - 128) * 4096 + (code c - 128) * 64 + (code d - 128)
        \<and> 65536 \<le> n \<and> n \<le> 1114111)"

lemma cont_code_less: "cont_code c \<Longrightarrow> code c - 128 < 64"
  by (auto simp: cont_code_def)

lemma utf8_finish_iff:
  "utf8_finish mn r = Inr (v, left) \<longleftrightarrow>
     r = Inr (v, left) \<and> unat mn \<le> unat v \<and> \<not> (55296 \<le> unat v \<and> unat v \<le> 57343) \<and> unat v \<le> 1114111"
  by (cases r) (auto simp: utf8_finish_def word_le_nat_alt word_less_nat_alt split: if_split_asm)

lemma lead_bits:
  "194 \<le> code a \<Longrightarrow> code a \<le> 223 \<Longrightarrow> unat (byte_u32 a AND 0x1F) = code a - 192"
  "224 \<le> code a \<Longrightarrow> code a \<le> 239 \<Longrightarrow> unat (byte_u32 a AND 0x0F) = code a - 224"
  "240 \<le> code a \<Longrightarrow> code a \<le> 244 \<Longrightarrow> unat (byte_u32 a AND 0x07) = code a - 240"
  by (auto simp: low_masks unat_low_mask mod_add_left_eq [of 194, symmetric] mod_add_left_eq [of 224, symmetric]
      mod_add_left_eq [of 240, symmetric] dest!: le_Suc_ex)

lemma decode_raw_utf8_seq:
  assumes "cs \<noteq> []"
  shows "decode_raw_utf8 cs = Inr (v, left) \<longleftrightarrow> utf8_seq cs (unat v) left"
proof -
  obtain a as where cs: "cs = a # as" using assms by (cases cs) auto
  have cmp: "byte_u32 a < 0x80 \<longleftrightarrow> code a < 128" "byte_u32 a \<ge> 0xC2 \<longleftrightarrow> 194 \<le> code a" "byte_u32 a \<le> 0xDF \<longleftrightarrow> code a \<le> 223"
    "byte_u32 a \<ge> 0xE0 \<longleftrightarrow> 224 \<le> code a" "byte_u32 a \<le> 0xEF \<longleftrightarrow> code a \<le> 239" "byte_u32 a \<ge> 0xF0 \<longleftrightarrow> 240 \<le> code a"
    "byte_u32 a \<le> 0xF4 \<longleftrightarrow> code a \<le> 244"
    by (simp_all add: word_le_nat_alt word_less_nat_alt)
  have D: "decode_raw_utf8 (a # as) = (if code a < 128 then Inr (byte_u32 a, as)
      else if 194 \<le> code a \<and> code a \<le> 223 then utf8_finish 0x80 (utf8_cont 1 (byte_u32 a AND 0x1F) as)
      else if 224 \<le> code a \<and> code a \<le> 239 then utf8_finish 0x800 (utf8_cont 2 (byte_u32 a AND 0x0F) as)
      else if 240 \<le> code a \<and> code a \<le> 244 then utf8_finish 0x10000 (utf8_cont 3 (byte_u32 a AND 0x07) as)
      else Inl ''invalid UTF-8 sequence in literal'')"
    unfolding decode_raw_utf8_def Let_def nth_Cons_0 cmp by simp
  consider "code a < 128" | "194 \<le> code a \<and> code a \<le> 223" | "224 \<le> code a \<and> code a \<le> 239" | "240 \<le> code a \<and> code a \<le> 244"
    | "128 \<le> code a \<and> \<not> (194 \<le> code a \<and> code a \<le> 223) \<and> \<not> (224 \<le> code a \<and> code a \<le> 239) \<and> \<not> (240 \<le> code a \<and> code a \<le> 244)"
    by linarith
  then show ?thesis
  proof cases
    case 1
    then show ?thesis by (auto simp: D cs utf8_seq_def word_unat_eq_iff)
  next
    case 2
    have "unat (cont_word (byte_u32 a AND 0x1F) b) = (code a - 192) * 64 + (code b - 128)" if "cont_code b" for b
      using 2 that by (subst cont_word_1) (auto simp: lead_bits)
    then show ?thesis using 2
      by (auto simp: D cs utf8_seq_def utf8_finish_iff utf8_cont_1 [unfolded One_nat_def] word_unat_eq_iff simp del: utf8_cont.simps dest: cont_code_less)
  next
    case 3
    have "unat (cont_word (cont_word (byte_u32 a AND 0x0F) b) c) = (code a - 224) * 4096 + (code b - 128) * 64 + (code c - 128)"
      if "cont_code b" "cont_code c" for b c
      using 3 that by (subst cont_word_2) (auto simp: lead_bits)
    moreover have "(code a - 224) * 4096 + (code b - 128) * 64 + (code c - 128) \<le> 1114111" if "cont_code b" "cont_code c" for b c
      using cont_code_less [OF that(1)] cont_code_less [OF that(2)] 3 by linarith
    ultimately show ?thesis using 3
      by (auto simp: D cs utf8_seq_def utf8_finish_iff utf8_cont_2 word_unat_eq_iff simp del: utf8_cont.simps dest: cont_code_less)
  next
    case 4
    have "unat (cont_word (cont_word (cont_word (byte_u32 a AND 0x07) b) c) d) =
        (code a - 240) * 262144 + (code b - 128) * 4096 + (code c - 128) * 64 + (code d - 128)"
      if "cont_code b" "cont_code c" "cont_code d" for b c d
      using 4 that by (subst cont_word_3) (auto simp: lead_bits)
    then show ?thesis using 4
      by (auto simp: D cs utf8_seq_def utf8_finish_iff utf8_cont_3 word_unat_eq_iff simp del: utf8_cont.simps dest: cont_code_less)
  qed (auto simp: D cs utf8_seq_def)
qed

lemma map_char_of_Cons: "x < 256 \<Longrightarrow> a # as = char_of x # bs \<longleftrightarrow> code a = x \<and> as = bs"
  by auto

text \<open>The arithmetic of digits in base 64.\<close>

lemma base64_2: "(n :: nat) = a * 64 + b \<Longrightarrow> b < 64 \<Longrightarrow> n div 64 = a \<and> n mod 64 = b"
  by simp

lemma base64_3: "(n :: nat) = a * 4096 + b * 64 + c \<Longrightarrow> b < 64 \<Longrightarrow> c < 64 \<Longrightarrow>
    n div 4096 = a \<and> n div 64 mod 64 = b \<and> n mod 64 = c"
proof -
  assume n: "n = a * 4096 + b * 64 + c" and b: "b < 64" "c < 64"
  then have "n = (a * 64 + b) * 64 + c" by simp
  from base64_2 [OF this b(2)] have d: "n div 64 = a * 64 + b" "n mod 64 = c" by simp_all
  have "n div 4096 = n div 64 div 64" using div_mult2_eq [of n 64 64] by simp
  then show ?thesis using base64_2 [OF d(1) b(1)] d by simp
qed

lemma base64_4: "(n :: nat) = a * 262144 + b * 4096 + c * 64 + d \<Longrightarrow> b < 64 \<Longrightarrow> c < 64 \<Longrightarrow> d < 64 \<Longrightarrow>
    n div 262144 = a \<and> n div 4096 mod 64 = b \<and> n div 64 mod 64 = c \<and> n mod 64 = d"
proof -
  assume n: "n = a * 262144 + b * 4096 + c * 64 + d" and b: "b < 64" "c < 64" "d < 64"
  then have "n = (a * 64 + b) * 4096 + c * 64 + d" by simp
  from base64_3 [OF this b(2,3)] have e: "n div 4096 = a * 64 + b" "n div 64 mod 64 = c" "n mod 64 = d" by simp_all
  have "n div 262144 = n div 4096 div 64" using div_mult2_eq [of n 4096 64] by simp
  then show ?thesis using base64_2 [OF e(1) b(1)] e by simp
qed

lemma base64_digits:
  fixes n :: nat
  shows "n div 64 * 64 + n mod 64 = n" "n div 4096 * 4096 + n div 64 mod 64 * 64 + n mod 64 = n"
    "n div 262144 * 262144 + n div 4096 mod 64 * 4096 + n div 64 mod 64 * 64 + n mod 64 = n"
proof -
  have d: "n div 4096 = n div 64 div 64" "n div 262144 = n div 4096 div 64"
    using div_mult2_eq [of n 64 64] div_mult2_eq [of n 4096 64] by simp_all
  show 1: "n div 64 * 64 + n mod 64 = n" by simp
  have "n div 64 = n div 4096 * 64 + n div 64 mod 64" using div_mult_mod_eq [of "n div 64" 64] d(1) by linarith
  then show 2: "n div 4096 * 4096 + n div 64 mod 64 * 64 + n mod 64 = n" using 1 by linarith
  have "n div 4096 = n div 262144 * 64 + n div 4096 mod 64" using div_mult_mod_eq [of "n div 4096" 64] d(2) by linarith
  then show "n div 262144 * 262144 + n div 4096 mod 64 * 4096 + n div 64 mod 64 * 64 + n mod 64 = n" using 2 by linarith
qed

lemma utf8_seq_codes:
  "utf8_seq cs n left \<longleftrightarrow> n \<le> 1114111 \<and> \<not> (55296 \<le> n \<and> n \<le> 57343) \<and> cs = map char_of (utf8_codes n) @ left"
  (is "_ \<longleftrightarrow> ?R")
proof
  assume "utf8_seq cs n left"
  then consider (1) a where "cs = a # left" "code a < 128" "n = code a"
    | (2) a b where "cs = a # b # left" "194 \<le> code a" "code a \<le> 223" "cont_code b" "n = (code a - 192) * 64 + (code b - 128)"
    | (3) a b c where "cs = a # b # c # left" "224 \<le> code a" "code a \<le> 239" "cont_code b" "cont_code c"
        "n = (code a - 224) * 4096 + (code b - 128) * 64 + (code c - 128)" "2048 \<le> n" "\<not> (55296 \<le> n \<and> n \<le> 57343)"
    | (4) a b c d where "cs = a # b # c # d # left" "240 \<le> code a" "code a \<le> 244" "cont_code b" "cont_code c" "cont_code d"
        "n = (code a - 240) * 262144 + (code b - 128) * 4096 + (code c - 128) * 64 + (code d - 128)" "65536 \<le> n" "n \<le> 1114111"
    unfolding utf8_seq_def by blast
  then show ?R
  proof cases
    case 1
    then show ?thesis by (simp add: utf8_codes_def)
  next
    case 2
    note b = cont_code_less [OF 2(4)]
    have "n < 2048" "128 \<le> n" using 2(2,3,5) b by linarith+
    moreover have "192 + n div 64 = code a" "128 + n mod 64 = code b"
      using base64_2 [OF 2(5) b] 2(2,4) by (simp_all add: cont_code_def)
    ultimately show ?thesis using 2(1) by (simp add: utf8_codes_def)
  next
    case 3
    note b = cont_code_less [OF 3(4)] cont_code_less [OF 3(5)]
    have "n < 65536" using 3(2,3,6) b by linarith
    moreover have "224 + n div 4096 = code a" "128 + n div 64 mod 64 = code b" "128 + n mod 64 = code c"
      using base64_3 [OF 3(6) b] 3(2,4,5) by (simp_all add: cont_code_def)
    ultimately show ?thesis using 3(1,7,8) by (auto simp: utf8_codes_def)
  next
    case 4
    note b = cont_code_less [OF 4(4)] cont_code_less [OF 4(5)] cont_code_less [OF 4(6)]
    have "240 + n div 262144 = code a" "128 + n div 4096 mod 64 = code b" "128 + n div 64 mod 64 = code c" "128 + n mod 64 = code d"
      using base64_4 [OF 4(7) b] 4(2,4,5,6) by (simp_all add: cont_code_def)
    then show ?thesis using 4(1,8,9) by (simp add: utf8_codes_def)
  qed
next
  assume r: ?R
  have cont: "cont_code (char_of (128 + k mod 64 :: nat))" "code (char_of (128 + k mod 64 :: nat)) - 128 = k mod 64" for k
    by (simp_all add: cont_code_def)
  consider "n < 128" | "128 \<le> n \<and> n < 2048" | "2048 \<le> n \<and> n < 65536" | "65536 \<le> n" by linarith
  then show "utf8_seq cs n left"
  proof cases
    case 1
    with r show ?thesis by (auto simp: utf8_seq_def utf8_codes_def)
  next
    case 2
    have "2 \<le> n div 64" "n div 64 < 32" using 2 by linarith+
    moreover from this have "code (char_of (192 + n div 64)) = 192 + n div 64" by simp
    ultimately show ?thesis using r 2 unfolding utf8_seq_def
      by (intro disjI2 [OF disjI1] exI [of _ "char_of (192 + n div 64)"] exI [of _ "char_of (128 + n mod 64)"])
         (auto simp: utf8_codes_def cont base64_digits)
  next
    case 3
    have "n div 4096 < 16" using 3 by linarith+
    moreover from this have "code (char_of (224 + n div 4096)) = 224 + n div 4096" by simp
    ultimately show ?thesis using r 3 unfolding utf8_seq_def
      by (intro disjI2 [OF disjI2 [OF disjI1]] exI [of _ "char_of (224 + n div 4096)"] exI [of _ "char_of (128 + n div 64 mod 64)"]
          exI [of _ "char_of (128 + n mod 64)"]) (auto simp: utf8_codes_def cont base64_digits)
  next
    case 4
    have "n div 262144 < 5" using r by linarith+
    moreover from this have "code (char_of (240 + n div 262144)) = 240 + n div 262144" by simp
    ultimately show ?thesis using r 4 unfolding utf8_seq_def
      by (intro disjI2 [OF disjI2 [OF disjI2]] exI [of _ "char_of (240 + n div 262144)"] exI [of _ "char_of (128 + n div 4096 mod 64)"]
          exI [of _ "char_of (128 + n div 64 mod 64)"] exI [of _ "char_of (128 + n mod 64)"]) (auto simp: utf8_codes_def cont base64_digits)
  qed
qed

text \<open>
  C15: the UTF-8 decoder and encoder of literals are inverse to each other on exactly the Unicode scalar
  values. The decoder accepts the characters \<open>cs\<close>, returning \<open>v\<close> and the characters left, if and only if
  \<open>v\<close> is a scalar value (at most 10FFFF, not a surrogate) and \<open>cs\<close> starts with the bytes the encoder
  appends for \<open>v\<close>: overlong forms, isolated continuation bytes, truncated sequences, surrogates and values
  out of range are all refused.
\<close>

theorem utf8_codec:
  assumes "cs \<noteq> []"
  shows "decode_raw_utf8 cs = Inr (v, left) \<longleftrightarrow> unicode_scalar v \<and> cs = map byte_char (put_utf8 v) @ left"
proof -
  have s: "unicode_scalar v \<longleftrightarrow> unat v \<le> 1114111 \<and> \<not> (55296 \<le> unat v \<and> unat v \<le> 57343)"
    by (simp add: unicode_scalar_def word_le_nat_alt)
  have "map byte_char (put_utf8 v) = map char_of (utf8_codes (unat v))" if "unicode_scalar v"
    using put_utf8_codes [of v] that by (simp add: unicode_scalar_def flip: map_map [unfolded comp_def])
  then show ?thesis unfolding decode_raw_utf8_seq [OF assms] utf8_seq_codes using s by auto
qed

theorem utf8_codec_witness:
  "decode_raw_utf8 (map char_of [0xF0, 0x9F, 0x98, 0x80 :: nat] @ ''x'') = Inr (0x1F600, ''x'')"
proof (rule iffD2 [OF utf8_codec])
  show "map char_of [0xF0, 0x9F, 0x98, 0x80 :: nat] @ ''x'' \<noteq> []" by simp
  show "unicode_scalar 0x1F600 \<and> map char_of [0xF0, 0x9F, 0x98, 0x80 :: nat] @ ''x'' = map byte_char (put_utf8 0x1F600) @ ''x''"
    by code_simp
qed

section \<open>The elements of a literal\<close>

text \<open>
  \<open>lit_scan\<close> reads the elements of a literal up to the quote \<open>q\<close> or the end of the spelling, one escape,
  universal character name or character at a time.
\<close>

inductive lit_scan :: "lang_opts \<Rightarrow> bool \<Rightarrow> char \<Rightarrow> string \<Rightarrow> (u32 \<times> bool) list \<Rightarrow> string \<Rightarrow> bool" for lang u q where
  scan_end: "cs = [] \<or> cs ! 0 = q \<Longrightarrow> lit_scan lang u q cs [] cs"
| scan_more: "cs \<noteq> [] \<Longrightarrow> cs ! 0 \<noteq> q \<Longrightarrow> decode_char lang u cs = (ds, Some (v, ucn, cs')) \<Longrightarrow> lit_scan lang u q cs' els left
    \<Longrightarrow> lit_scan lang u q cs ((v, ucn) # els) left"

abbreviation has_error :: "lex_diag list \<Rightarrow> bool" where
  "has_error ds \<equiv> \<exists>d\<in>set ds. is_error d"

lemma decode_char_error: "decode_char lang u cs = (ds, r) \<Longrightarrow> r = None \<longleftrightarrow> has_error ds"
  by (auto simp: decode_char_def decode_escape_def is_error_def Let_def
      split: if_split_asm sum.split_asm list.split_asm option.split_asm prod.split_asm)

lemma lit_scan_length: "lit_scan lang u q cs els left \<Longrightarrow> length els \<le> length cs"
  by (induction rule: lit_scan.induct) (auto dest!: decode_char_left)

definition elem_size :: "enc_prefix \<Rightarrow> nat" where
  "elem_size enc = (case enc of ENC_NONE \<Rightarrow> 1 | ENC_U8 \<Rightarrow> 1 | ENC_U16 \<Rightarrow> 2 | ENC_WIDE \<Rightarrow> 4 | ENC_U32 \<Rightarrow> 4)"

lemma put_element_size: "put_element enc v ucn = (bs, k) \<Longrightarrow> length bs = elem_size enc * k \<and> length bs \<le> 4"
  by (auto simp: put_element_def elem_size_def put_utf8_def put_u16_def put_u32le_def Let_def split: enc_prefix.split_asm if_split_asm)

abbreviation elem_bytes :: "enc_prefix \<Rightarrow> u32 \<times> bool \<Rightarrow> u8 list" where
  "elem_bytes enc e \<equiv> fst (put_element enc (fst e) (snd e))"

abbreviation elem_count :: "enc_prefix \<Rightarrow> u32 \<times> bool \<Rightarrow> nat" where
  "elem_count enc e \<equiv> snd (put_element enc (fst e) (snd e))"

lemma payload_size:
  "length (concat (map (elem_bytes enc) els)) = elem_size enc * sum_list (map (elem_count enc) els)"
  "length (concat (map (elem_bytes enc) els)) \<le> 4 * length els"
proof -
  have "length (elem_bytes enc e) = elem_size enc * elem_count enc e \<and> length (elem_bytes enc e) \<le> 4" for e
    using put_element_size [of enc "fst e" "snd e"] by (metis prod.collapse)
  note e = this
  show "length (concat (map (elem_bytes enc) els)) = elem_size enc * sum_list (map (elem_count enc) els)"
  proof (induction els)
    case (Cons x els)
    then show ?case using e [of x] by (simp add: algebra_simps)
  qed simp
  show "length (concat (map (elem_bytes enc) els)) \<le> 4 * length els"
  proof (induction els)
    case (Cons x els)
    then show ?case using e [of x] by simp
  qed simp
qed

lemma str_loop_elements:
  "str_loop lang enc p n cs = (ds, r) \<Longrightarrow> (r = None \<longleftrightarrow> has_error ds) \<and>
     (\<forall>p' n'. r = Some (p', n') \<longrightarrow> (\<exists>els left. lit_scan lang (enc_decodes enc) CHR 0x22 cs els left \<and>
        p' = p @ concat (map (elem_bytes enc) els) \<and> n' = n + sum_list (map (elem_count enc) els)))"
proof (induction lang enc p n cs arbitrary: ds r rule: str_loop.induct)
  case (1 lang enc p n cs)
  show ?case
  proof (cases "cs = [] \<or> cs ! 0 = CHR 0x22")
    case True
    then have "ds = [] \<and> r = Some (p, n)" using "1.prems" by (auto simp: str_loop.simps [of _ _ _ _ cs])
    then show ?thesis by (auto intro!: exI [of _ "[] :: (u32 \<times> bool) list"] exI [of _ cs] scan_end [OF True])
  next
    case False
    obtain ds1 r1 where d: "decode_char lang (enc_decodes enc) cs = (ds1, r1)" by fastforce
    show ?thesis
    proof (cases r1)
      case None
      then show ?thesis using "1.prems" False d decode_char_error [OF d] by (auto simp: str_loop.simps [of _ _ _ _ cs])
    next
      case (Some x)
      obtain v ucn left where x: "r1 = Some (v, ucn, left)" using Some by (cases x) auto
      obtain bs k where b: "put_element enc v ucn = (bs, k)" by fastforce
      obtain ds2 where l: "str_loop lang enc (p @ bs) (n + k) left = (ds2, r)" "ds = ds1 @ ds2"
        using "1.prems" False d x b by (auto simp: str_loop.simps [of _ _ _ _ cs] split: prod.split_asm)
      note ih = "1.IH" [OF False d [symmetric] x refl refl b [symmetric] refl l(1)]
      have "\<not> has_error ds1" using decode_char_error [OF d] x by simp
      moreover have "\<exists>els left. lit_scan lang (enc_decodes enc) CHR 0x22 cs els left \<and>
          p' = p @ concat (map (elem_bytes enc) els) \<and> n' = n + sum_list (map (elem_count enc) els)" if r: "r = Some (p', n')" for p' n'
      proof -
        obtain els left' where "lit_scan lang (enc_decodes enc) CHR 0x22 left els left'"
          "p' = (p @ bs) @ concat (map (elem_bytes enc) els)" "n' = n + k + sum_list (map (elem_count enc) els)"
          using ih r by blast
        then show ?thesis
          using scan_more [of cs "CHR 0x22", OF _ _ d [unfolded x]] False b
          by (intro exI [of _ "(v, ucn) # els"] exI [of _ left']) simp
      qed
      ultimately show ?thesis using ih l(2) by auto
    qed
  qed
qed

text \<open>The elements of one spelling, after its prefix and opening quote.\<close>

definition literal_elements :: "lang_opts \<Rightarrow> enc_prefix \<Rightarrow> string \<Rightarrow> (u32 \<times> bool) list \<Rightarrow> bool" where
  "literal_elements lang enc s els \<longleftrightarrow>
     (\<exists>body left. snd (read_prefix s) = CHR 0x22 # body \<and> lit_scan lang (enc_decodes enc) CHR 0x22 body els left)"

lemma run_loop_elements:
  "run_loop lang enc p n ss = (ds, r) \<Longrightarrow> (r = None \<longleftrightarrow> has_error ds) \<and>
     (\<forall>p' n'. r = Some (p', n') \<longrightarrow> (\<exists>elss. list_all2 (literal_elements lang enc) ss elss \<and>
        p' = p @ concat (map (elem_bytes enc) (concat elss)) \<and> n' = n + sum_list (map (elem_count enc) (concat elss))))"
proof (induction lang enc p n ss arbitrary: ds r rule: run_loop.induct)
  case (2 lang enc p n s ss)
  show ?case
  proof (cases "snd (read_prefix s) = [] \<or> snd (read_prefix s) ! 0 \<noteq> CHR 0x22")
    case True
    then show ?thesis using "2.prems" by (auto simp: Let_def is_error_def)
  next
    case False
    then obtain body where body: "snd (read_prefix s) = CHR 0x22 # body" by (cases "snd (read_prefix s)") auto
    obtain ds1 r1 where d: "str_loop lang enc p n body = (ds1, r1)" by fastforce
    note s = str_loop_elements [OF d]
    show ?thesis
    proof (cases r1)
      case None
      then show ?thesis using "2.prems" body d s by (auto simp: Let_def)
    next
      case (Some x)
      obtain p1 n1 where x: "r1 = Some (p1, n1)" using Some by (cases x) auto
      obtain els left where e: "lit_scan lang (enc_decodes enc) CHR 0x22 body els left"
        "p1 = p @ concat (map (elem_bytes enc) els)" "n1 = n + sum_list (map (elem_count enc) els)"
        using s x by blast
      obtain ds2 where l: "run_loop lang enc p1 n1 ss = (ds2, r)" "ds = ds1 @ ds2"
        using "2.prems" body d x by (auto simp: Let_def split: prod.split_asm)
      have ih: "(r = None \<longleftrightarrow> has_error ds2) \<and>
         (\<forall>p' n'. r = Some (p', n') \<longrightarrow> (\<exists>elss. list_all2 (literal_elements lang enc) ss elss \<and>
            p' = p1 @ concat (map (elem_bytes enc) (concat elss)) \<and> n' = n1 + sum_list (map (elem_count enc) (concat elss))))"
        using "2.IH" [of "snd (read_prefix s)" ds1 r1 "(p1, n1)" p1 n1, OF refl _ _ _ _ l(1)] body d x by simp
      have "literal_elements lang enc s els" using body e(1) by (auto simp: literal_elements_def)
      note els = this
      have "\<exists>elss. list_all2 (literal_elements lang enc) (s # ss) elss \<and>
          p' = p @ concat (map (elem_bytes enc) (concat elss)) \<and> n' = n + sum_list (map (elem_count enc) (concat elss))"
        if r: "r = Some (p', n')" for p' n'
      proof -
        obtain elss where "list_all2 (literal_elements lang enc) ss elss"
          "p' = p1 @ concat (map (elem_bytes enc) (concat elss))" "n' = n1 + sum_list (map (elem_count enc) (concat elss))"
          using ih r by blast
        then show ?thesis using els e(2,3) by (intro exI [of _ "els # elss"]) simp
      qed
      moreover have "\<not> has_error ds1" using s x by simp
      ultimately show ?thesis using ih l(2) by auto
    qed
  qed
qed (auto intro: exI [of _ "[]"])

lemma literal_elements_length:
  "list_all2 (literal_elements lang enc) ss elss \<Longrightarrow> length (concat elss) \<le> sum_list (map length ss)"
proof (induction rule: list_all2_induct)
  case (Cons s ss els elss)
  obtain body left where "snd (read_prefix s) = CHR 0x22 # body" "lit_scan lang (enc_decodes enc) CHR 0x22 body els left"
    using Cons(1) by (auto simp: literal_elements_def)
  moreover have "length (snd (read_prefix s)) \<le> length s" by (simp add: read_prefix_def)
  ultimately have "length els \<le> length s" using lit_scan_length by fastforce
  then show ?case using Cons(3) by simp
qed simp

lemma run_prefix_agree:
  "run_prefix e ss = Some enc \<Longrightarrow> insert e (set (map (fst \<circ> read_prefix) ss)) - {ENC_NONE} = {enc} - {ENC_NONE}"
proof (induction e ss rule: run_prefix.induct)
  case (2 e s ss)
  then show ?case by (auto simp: Let_def insert_commute insert_Diff_if split: if_split_asm)
qed simp

text \<open>
  C34: a run of adjacent string literals becomes one well-formed literal. Without an error, every prefix
  present in the run is the encoding of the literal; the payload is the elements of the literals, each
  literal decoded on its own and written in that encoding, in order, followed by exactly one zero element;
  the byte count is the element count times the element size and both leave the terminator out; nothing
  else of the token changes. After an error the token is unchanged. (The counts are 32 bits wide, hence the
  bound on the spellings.)
\<close>

theorem lex_string_lit_payload:
  assumes "4 * sum_list (map (length \<circ> pp_spelling) run) < 2 ^ 32" and "lex_string_lit lang run t = (t', ds)"
  shows "if has_error ds then t' = t
    else \<exists>enc elss lit.
      set (map (fst \<circ> read_prefix \<circ> pp_spelling) run) - {ENC_NONE} = {enc} - {ENC_NONE} \<and>
      list_all2 (literal_elements lang enc) (map pp_spelling run) elss \<and>
      t' = t\<lparr>tk_str := lit\<rparr> \<and> sl_enc lit = enc \<and>
      sl_bytes lit = concat (map (elem_bytes enc) (concat elss)) @ replicate (elem_size enc) 0 \<and>
      sl_nbytes lit = elem_size enc * sl_nelems lit \<and> length (sl_bytes lit) = elem_size enc * (sl_nelems lit + 1)"
proof (cases "run_prefix ENC_NONE (map pp_spelling run)")
  case None
  then show ?thesis using assms(2) by (auto simp: lex_string_lit_def is_error_def)
next
  case (Some enc)
  have zero: "put_u32le 0 = replicate 4 0" "put_u16 0 = replicate 2 0" by code_simp+
  have ending: "str_terminator enc = replicate (elem_size enc) 0" "length (str_terminator enc) = elem_size enc"
    "(if enc = ENC_WIDE \<or> enc = ENC_U32 then 4 else if enc = ENC_U16 then 2 else 1) = elem_size enc" "0 < elem_size enc"
    by (cases enc; simp add: str_terminator_def elem_size_def zero)+
  obtain ds1 r where l: "run_loop lang enc [] 0 (map pp_spelling run) = (ds1, r)" by fastforce
  note elements = run_loop_elements [OF l]
  show ?thesis
  proof (cases "((enc = ENC_U16 \<or> enc = ENC_U32 \<or> enc = ENC_U8) \<and> \<not> std_is_c11_or_later (lo_std lang)) \<or> r = None")
    case True
    have "t' = t \<and> has_error ds"
    proof (cases "(enc = ENC_U16 \<or> enc = ENC_U32 \<or> enc = ENC_U8) \<and> \<not> std_is_c11_or_later (lo_std lang)")
      case True
      then show ?thesis using assms(2) Some by (auto simp: lex_string_lit_def is_error_def)
    next
      case early: False
      then have "r = None" using True by blast
      moreover have "lex_string_lit lang run t = (t, ds1)"
        unfolding lex_string_lit_def Some option.case if_not_P [OF early] l \<open>r = None\<close> by simp
      ultimately show ?thesis using assms(2) elements by simp
    qed
    then show ?thesis by simp
  next
    case False
    then obtain p n where r: "r = Some (p, n)" by (cases r) auto
    obtain elss where e: "list_all2 (literal_elements lang enc) (map pp_spelling run) elss"
      "p = concat (map (elem_bytes enc) (concat elss))" "n = sum_list (map (elem_count enc) (concat elss))"
      using elements r by auto
    have "length (concat elss) \<le> sum_list (map length (map pp_spelling run))"
      using e(1) by (rule literal_elements_length)
    then have b: "length p < 2 ^ 32" using payload_size(2) [of enc "concat elss"] assms(1) e(2) by (simp add: comp_def)
    have p: "length p = elem_size enc * n" using payload_size(1) e(2,3) by simp
    then have "n < 2 ^ 32" using b ending(4) by (metis le_less_trans mult_le_mono1 nat_mult_1 Suc_leI One_nat_def)
    moreover have "\<not> has_error ds1" using elements r by simp
    moreover have "t' = t\<lparr>tk_str := \<lparr>sl_bytes = p @ str_terminator enc, sl_nbytes = length p mod 2 ^ 32,
        sl_nelems = n mod 2 ^ 32, sl_enc = enc\<rparr>\<rparr> \<and> ds = ds1"
    proof -
      have "\<not> ((enc = ENC_U16 \<or> enc = ENC_U32 \<or> enc = ENC_U8) \<and> \<not> std_is_c11_or_later (lo_std lang))" using False by blast
      then show ?thesis using assms(2)
        unfolding lex_string_lit_def Some option.case if_not_P l r ending(3) Let_def by (simp add: ending(2) if_not_P)
    qed
    ultimately show ?thesis
      using run_prefix_agree [OF Some] e b p ending(1)
      by (auto simp: comp_assoc intro!: exI [of _ enc] exI [of _ elss])
  qed
qed

definition demo_run :: "pp_token list" where
  "demo_run =
     [\<lparr>pp_spelling = [CHR 0x22, CHR ''a'', CHR 0x5C, CHR ''x'', CHR ''1'', CHR ''2'', CHR 0x22], pp_loc = 0, pp_kind = PPTOK_STRLIT, pp_punct = 0, pp_space = False\<rparr>,
      \<lparr>pp_spelling = [CHR ''L'', CHR 0x22, CHR ''3'', CHR 0x22], pp_loc = 9, pp_kind = PPTOK_STRLIT, pp_punct = 0, pp_space = False\<rparr>]"

theorem lex_string_lit_payload_witness:
  "\<exists>t' enc elss lit. lex_string_lit \<lparr>lo_std = STD_C11, lo_gnu_mode = False, lo_pedantic = False\<rparr> demo_run token_cleared = (t', []) \<and>
     t' = token_cleared\<lparr>tk_str := lit\<rparr> \<and> sl_enc lit = enc \<and>
     list_all2 (literal_elements \<lparr>lo_std = STD_C11, lo_gnu_mode = False, lo_pedantic = False\<rparr> enc) (map pp_spelling demo_run) elss \<and>
     sl_bytes lit = concat (map (elem_bytes enc) (concat elss)) @ replicate (elem_size enc) 0 \<and>
     sl_nbytes lit = elem_size enc * sl_nelems lit \<and> length (sl_bytes lit) = elem_size enc * (sl_nelems lit + 1)"
proof -
  have "run_prefix ENC_NONE (map pp_spelling demo_run) = Some ENC_WIDE"
    "fst (run_loop \<lparr>lo_std = STD_C11, lo_gnu_mode = False, lo_pedantic = False\<rparr> ENC_WIDE [] 0 (map pp_spelling demo_run)) = []"
    by code_simp+
  then have "snd (lex_string_lit \<lparr>lo_std = STD_C11, lo_gnu_mode = False, lo_pedantic = False\<rparr> demo_run token_cleared) = []"
    by (auto simp: lex_string_lit_def split: prod.split option.split)
  then obtain t' where l: "lex_string_lit \<lparr>lo_std = STD_C11, lo_gnu_mode = False, lo_pedantic = False\<rparr> demo_run token_cleared = (t', [])"
    by (metis prod.collapse)
  have "4 * sum_list (map (length \<circ> pp_spelling) demo_run) < 2 ^ 32" by (simp add: demo_run_def)
  from lex_string_lit_payload [OF this l] l show ?thesis by (simp, blast)
qed

section \<open>The value of a character constant\<close>

abbreviation char_acc :: "enc_prefix \<Rightarrow> u64 \<Rightarrow> u32 \<times> bool \<Rightarrow> u64" where
  "char_acc enc v e \<equiv> (if enc = ENC_NONE then push_bit 8 v OR (ucast (fst e) AND 0xFF) else ucast (fst e))"

lemma char_loop_elements:
  "char_loop lang w enc False v n cs = (ds, r) \<Longrightarrow> (r = None \<longleftrightarrow> has_error ds) \<and>
     (\<forall>v' n' left. r = Some (v', n', left) \<longrightarrow> (\<exists>els. lit_scan lang (enc_decodes enc) CHR 0x27 cs els left \<and>
        n' = n + length els \<and> v' = foldl (char_acc enc) v els \<and>
        (\<forall>e\<in>set els. elem_bits w enc < 32 \<longrightarrow> snd e \<or> fst e < push_bit (elem_bits w enc) 1)))"
proof (induction lang w enc False v n cs arbitrary: ds r rule: char_loop.induct)
  case (1 lang w enc v n cs)
  show ?case
  proof (cases "cs = [] \<or> cs ! 0 = CHR 0x27")
    case True
    then have "ds = [] \<and> r = Some (v, n, cs)" using "1.prems" by (auto simp: char_loop.simps [of _ _ _ _ _ _ cs])
    then show ?thesis by (auto intro!: exI [of _ "[] :: (u32 \<times> bool) list"] scan_end [OF True])
  next
    case False
    obtain ds1 r1 where d: "decode_char lang (enc_decodes enc) cs = (ds1, r1)" by fastforce
    note d_err = decode_char_error [OF d]
    show ?thesis
    proof (cases r1)
      case None
      then show ?thesis using "1.prems" False d d_err by (auto simp: char_loop.simps [of _ _ _ _ _ _ cs])
    next
      case (Some x)
      obtain cv ucn left where x: "r1 = Some (cv, ucn, left)" using Some by (cases x) auto
      show ?thesis
      proof (cases "elem_bits w enc < 32 \<and> cv \<ge> push_bit (elem_bits w enc) 1 \<and> \<not> ucn")
        case True
        have "char_loop lang w enc False v n cs = (ds1 @ [Diag Sev_Error ''escape sequence out of range for type'' []], None)"
          unfolding char_loop.simps [of _ _ _ _ _ _ cs] if_not_P [OF False] d x using True by simp
        then show ?thesis using "1.prems" by (auto simp: is_error_def)
      next
        case range: False
        define v1 where "v1 = (if enc = ENC_NONE then push_bit 8 v OR (ucast cv AND 0xFF) else ucast cv)"
        obtain ds2 where l: "char_loop lang w enc False v1 (n + 1) left = (ds2, r)" "ds = ds1 @ ds2"
          using "1.prems" unfolding char_loop.simps [of _ _ _ _ _ _ cs] if_not_P [OF False] d x prod.case option.case if_not_P [OF range]
          by (auto simp: v1_def [symmetric] Let_def split: prod.split_asm)
        have ih: "(r = None \<longleftrightarrow> has_error ds2) \<and>
           (\<forall>v' n' left'. r = Some (v', n', left') \<longrightarrow> (\<exists>els. lit_scan lang (enc_decodes enc) CHR 0x27 left els left' \<and>
              n' = n + 1 + length els \<and> v' = foldl (char_acc enc) v1 els \<and>
              (\<forall>e\<in>set els. elem_bits w enc < 32 \<longrightarrow> snd e \<or> fst e < push_bit (elem_bits w enc) 1)))"
          using "1.hyps" [OF False d [symmetric] x refl refl _ range] l(1) by (simp add: v1_def)
        have "\<exists>els. lit_scan lang (enc_decodes enc) CHR 0x27 cs els left' \<and> n' = n + length els \<and> v' = foldl (char_acc enc) v els \<and>
            (\<forall>e\<in>set els. elem_bits w enc < 32 \<longrightarrow> snd e \<or> fst e < push_bit (elem_bits w enc) 1)"
          if r: "r = Some (v', n', left')" for v' n' left'
        proof -
          obtain els where "lit_scan lang (enc_decodes enc) CHR 0x27 left els left'" "n' = n + 1 + length els"
            "v' = foldl (char_acc enc) v1 els" "\<forall>e\<in>set els. elem_bits w enc < 32 \<longrightarrow> snd e \<or> fst e < push_bit (elem_bits w enc) 1"
            using ih r by blast
          then show ?thesis
            using scan_more [of cs "CHR 0x27", OF _ _ d [unfolded x]] False range
            by (intro exI [of _ "(cv, ucn) # els"]) (auto simp: v1_def)
        qed
        moreover have "\<not> has_error ds1" using d_err x by simp
        ultimately show ?thesis using ih l(2) by auto
      qed
    qed
  qed
qed

lemma unat_char_acc: "unat (push_bit 8 v OR (ucast (x :: u32) AND 0xFF) :: u64) = (unat v * 256 + unat x mod 256) mod 2 ^ 64"
proof -
  have m: "(0xFF :: u64) = mask 8" by (simp add: mask_eq_exp_minus_1)
  have p: "unat (push_bit 8 v) = unat v * 256 mod 2 ^ 64" by (simp add: unat_shl)
  have q: "unat (ucast x :: u64) = unat x" by (simp add: unsigned_ucast_eq take_bit_eq_mod order_less_le_trans [OF unat_lt_2p])
  have e: "unat (push_bit 8 v OR (ucast x AND 0xFF) :: u64) = unat v * 256 mod 2 ^ 64 + unat x mod 256"
    unfolding m by (subst unat_or_disjoint [of _ 8]) (simp_all add: p q unat_low_mask mod_mod_cancel)
  moreover have "unat v * 256 mod 2 ^ 64 = unat v mod 2 ^ 56 * 256"
    using mod_mult_mult2 [of "unat v" 256 "2 ^ 56"] by simp
  moreover have "unat v mod 2 ^ 56 < 2 ^ 56" "unat x mod 256 < 256" by simp_all
  ultimately have "unat v * 256 mod 2 ^ 64 + unat x mod 256 < 2 ^ 56 * 256" by linarith
  then have "unat v * 256 mod 2 ^ 64 + unat x mod 256 < 2 ^ 64" by simp
  then have "unat v * 256 mod 2 ^ 64 + unat x mod 256 = (unat v * 256 + unat x mod 256) mod 2 ^ 64"
    by (metis mod_add_left_eq mod_less)
  then show ?thesis using e by simp
qed

lemma unat_char_fold:
  "unat (foldl (char_acc ENC_NONE) v els) mod 2 ^ 64 = foldl (\<lambda>n e. n * 256 + unat (fst e) mod 256) (unat v) els mod 2 ^ 64"
proof (induction els arbitrary: v)
  case (Cons e els)
  have step: "foldl (\<lambda>n e. n * 256 + unat (fst e) mod 256) (a mod 2 ^ 64) es mod 2 ^ 64
      = foldl (\<lambda>n e. n * 256 + unat (fst e) mod 256) a es mod 2 ^ 64" for a and es :: "(u32 \<times> bool) list"
  proof (induction es arbitrary: a)
    case (Cons e es)
    have "(a mod 2 ^ 64 * 256 + unat (fst e) mod 256) mod 2 ^ 64 = (a * 256 + unat (fst e) mod 256) mod 2 ^ 64"
      by (metis mod_add_left_eq mod_mult_left_eq)
    then show ?case
      using Cons [of "a mod 2 ^ 64 * 256 + unat (fst e) mod 256"] Cons [of "a * 256 + unat (fst e) mod 256"] by simp
  qed simp
  show ?case using Cons [of "char_acc ENC_NONE v e"] step [of "unat v * 256 + unat (fst e) mod 256" els] by (simp add: unat_char_acc)
qed simp

lemma fold_digits_less:
  "foldl (\<lambda>n (e :: u32 \<times> bool). n * 256 + unat (fst e) mod 256) a els < (a + 1) * 256 ^ length els"
proof (induction els arbitrary: a)
  case (Cons e els)
  have "a * 256 + unat (fst e) mod 256 + 1 \<le> (a + 1) * 256" by (simp add: Suc_leI)
  then have "(a * 256 + unat (fst e) mod 256 + 1) * 256 ^ length els \<le> (a + 1) * 256 * 256 ^ length els" by (rule mult_le_mono1)
  from less_le_trans [OF Cons this] show ?case by (simp add: algebra_simps)
qed simp

lemma foldl_last: "els \<noteq> [] \<Longrightarrow> foldl (\<lambda>v e. f e) v els = f (last els)"
  by (induction els arbitrary: v) auto

lemma odd_div_128: "(n :: nat) < 256 \<Longrightarrow> odd (n div 128) \<longleftrightarrow> 128 \<le> n"
proof -
  assume "n < 256"
  then have "n div 128 < 2" by linarith
  then have "n div 128 = 0 \<or> n div 128 = 1" by linarith
  then show ?thesis by (auto simp: div_eq_0_iff)
qed

lemma sign_bit_test: "unat (v :: u64) < 256 \<Longrightarrow> v AND 0x80 \<noteq> 0 \<longleftrightarrow> 128 \<le> unat v"
proof -
  assume v: "unat v < 256"
  have "v AND 0x80 \<noteq> 0 \<longleftrightarrow> bit v 7" using and_exp_eq_0_iff_not_bit [of v 7] by simp
  also have "\<dots> \<longleftrightarrow> bit (unat v) 7" by (simp add: bit_unsigned_iff)
  also have "\<dots> \<longleftrightarrow> odd (unat v div 128)" by (simp add: bit_iff_odd)
  finally show ?thesis using odd_div_128 [OF v] by simp
qed

lemma sint_byte: "sint (b :: u8) = (if 128 \<le> unat b then int (unat b) - 256 else int (unat b))"
proof -
  have b: "unat b < 256" using unat_lt_2p [of b] by simp
  have "bit (unat b) 7 \<longleftrightarrow> 128 \<le> unat b" using odd_div_128 [OF b] by (simp add: bit_iff_odd)
  then have 1: "bit (uint b) 7 \<longleftrightarrow> 128 \<le> unat b" by (simp add: bit_unsigned_iff)
  have 2: "take_bit 8 (uint b) = uint b" using unsigned_less [of b, where ?'a = int] by (intro take_bit_int_eq_self) simp_all
  have "sint b = take_bit 8 (uint b) - 2 ^ 8 * of_bool (bit (uint b) 7)"
    by (simp add: sint_uint signed_take_bit_eq_take_bit_minus)
  then show ?thesis unfolding 1 2 by simp
qed

lemma sint_scast_byte: "sint (scast (b :: u8) :: u64) = sint b"
proof -
  have "- (2 ^ 7) \<le> sint b" "sint b < 2 ^ 7" using sint_greater_eq [of b] sint_less [of b] by simp_all
  then show ?thesis by (simp add: signed_scast_eq signed_take_bit_int_eq_self)
qed

lemma sint_small: "unat (v :: u64) < 2 ^ 63 \<Longrightarrow> sint v = int (unat v)"
proof -
  assume "unat v < 2 ^ 63"
  then have "int (unat v) < 2 ^ 63" by (metis of_nat_less_iff of_nat_numeral of_nat_power)
  then have "signed_take_bit 63 (uint v) = uint v" by (intro signed_take_bit_int_eq_self) (simp_all add: order_trans [OF _ uint_nonnegative])
  then show ?thesis by (simp add: sint_uint)
qed

lemma char_loop_failed:
  "char_loop lang w enc True v n cs = (ds, Some (v', n', left)) \<Longrightarrow> v' = v \<and> n' = n \<and> left = cs"
  by (auto simp: char_loop.simps [of _ _ _ _ _ _ cs] split: if_split_asm prod.split_asm option.split_asm)

text \<open>The value C and the target give a character constant with elements \<open>els\<close>.\<close>

definition char_const_value :: "int_widths \<Rightarrow> enc_prefix \<Rightarrow> (u32 \<times> bool) list \<Rightarrow> int" where
  "char_const_value w enc els =
     (if enc \<noteq> ENC_NONE then int (unat (fst (last els)))
      else if length els = 1 then
        (let b = unat (fst (hd els)) mod 256 in if iw_char_signed w \<and> 128 \<le> b then int b - 256 else int b)
      else int (foldl (\<lambda>n e. n * 256 + unat (fst e) mod 256) 0 els mod 2 ^ 32))"

lemma char_value:
  fixes w enc els
  defines "v \<equiv> foldl (char_acc enc) 0 els"
  defines "v' \<equiv> (if length els > 1 \<and> enc = ENC_NONE \<and> length els > 4 then v AND 0xFFFFFFFF else v)"
  assumes "els \<noteq> []"
  shows "sint (if enc = ENC_NONE \<and> length els = 1 \<and> elem_signed w enc \<and> v' AND 0x80 \<noteq> 0 then scast (ucast v' :: u8) else v')
    = char_const_value w enc els"
proof (cases "enc = ENC_NONE")
  case False
  have "v = ucast (fst (last els))" using False foldl_last [OF assms(3), of "\<lambda>e. ucast (fst e)"] by (simp add: v_def)
  then have "unat v = unat (fst (last els))"
    by (simp add: unsigned_ucast_eq take_bit_eq_mod order_less_le_trans [OF unat_lt_2p])
  moreover from this have "unat v < 2 ^ 63" using unat_lt_2p [of "fst (last els)"] by simp
  ultimately show ?thesis using False sint_small [of v] by (simp add: v'_def char_const_value_def)
next
  case True
  define ref where "ref = foldl (\<lambda>n e. n * 256 + unat (fst e) mod 256) 0 els"
  have uv: "unat v = ref mod 2 ^ 64"
    using unat_char_fold [of 0 els] unat_u64_lt [of v] by (simp add: v_def ref_def True mod_less)
  show ?thesis
  proof (cases "length els = 1")
    case one: True
    obtain e where els: "els = [e]" using one by (cases els) auto
    define b where "b = unat (fst e) mod 256"
    have b: "unat v = b" "b < 256" using uv by (simp_all add: ref_def els b_def mod_less)
    have bw: "unat (ucast v :: u8) = b" using b by (simp add: unsigned_ucast_eq take_bit_eq_mod mod_less)
    have "sint v = int b" using b sint_small [of v] by simp
    then show ?thesis
      using sign_bit_test [of v] b sint_byte [of "ucast v"] bw
      by (auto simp: char_const_value_def True els v'_def elem_signed_def sint_scast_byte Let_def b_def [symmetric])
  next
    case many: False
    have "unat v' = ref mod 2 ^ 32"
    proof (cases "length els > 4")
      case True
      have m: "(0xFFFFFFFF :: u64) = mask 32" by (simp add: mask_eq_exp_minus_1)
      show ?thesis using True \<open>enc = ENC_NONE\<close> uv by (simp add: v'_def m unat_low_mask mod_mod_cancel)
    next
      case False
      then have "256 ^ length els \<le> (256 :: nat) ^ 4" by (intro power_increasing) simp_all
      then have "ref < 2 ^ 32" using fold_digits_less [of 0 els] by (simp add: ref_def)
      then show ?thesis using False uv by (simp add: v'_def)
    qed
    then have "sint v' = int (ref mod 2 ^ 32)" using sint_small [of v'] by simp
    then show ?thesis using True many by (simp add: char_const_value_def ref_def)
  qed
qed


definition demo_lang :: lang_opts where
  "demo_lang = \<lparr>lo_std = STD_C11, lo_gnu_mode = False, lo_pedantic = False\<rparr>"

definition demo_char :: string where
  "demo_char = [CHR 0x27, CHR 0x5C, CHR ''x'', CHR ''f'', CHR ''f'', CHR 0x27]"


end
