(* ===== verification/Lex_Convert.thy ===== *)
theory Lex_Convert
  imports Numlit Strlit
begin

text \<open>
  src/src/lex/lex.c: the keyword table and the pass that turns preprocessing tokens into the tokens of the
  parser. A keyword is its number in the table, counted from 1; 0 is KW_NONE. The span of a location is
  computed by the preprocessor's location table (\<open>pp_span\<close>), which the pass only calls: it is an argument
  of the pass here, and the theorems hold for every such function.
\<close>

section \<open>Keywords\<close>

datatype kw_group = KWG_C89 | KWG_C99 | KWG_C99_OR_GNU89 | KWG_C11 | KWG_GNU | KWG_ALT

text \<open>src/src/lex/keywords.def, in its order.\<close>

definition kw_table :: "(string \<times> kw_group) list" where
  "kw_table =
    [(''auto'', KWG_C89), (''break'', KWG_C89), (''case'', KWG_C89), (''char'', KWG_C89), (''const'', KWG_C89),
      (''continue'', KWG_C89), (''default'', KWG_C89), (''do'', KWG_C89), (''double'', KWG_C89), (''else'', KWG_C89),
      (''enum'', KWG_C89), (''extern'', KWG_C89), (''float'', KWG_C89), (''for'', KWG_C89), (''goto'', KWG_C89),
      (''if'', KWG_C89), (''int'', KWG_C89), (''long'', KWG_C89), (''register'', KWG_C89), (''return'', KWG_C89),
      (''short'', KWG_C89), (''signed'', KWG_C89), (''sizeof'', KWG_C89), (''static'', KWG_C89), (''struct'', KWG_C89),
      (''switch'', KWG_C89), (''typedef'', KWG_C89), (''union'', KWG_C89), (''unsigned'', KWG_C89), (''void'', KWG_C89),
      (''volatile'', KWG_C89), (''while'', KWG_C89), (''inline'', KWG_C99_OR_GNU89), (''restrict'', KWG_C99),
      (''_Bool'', KWG_C99), (''_Complex'', KWG_C99), (''_Imaginary'', KWG_C99), (''_Alignas'', KWG_C11),
      (''_Alignof'', KWG_C11), (''_Atomic'', KWG_C11), (''_Generic'', KWG_C11), (''_Noreturn'', KWG_C11),
      (''_Static_assert'', KWG_C11), (''_Thread_local'', KWG_C11), (''__thread'', KWG_ALT), (''typeof'', KWG_GNU),
      (''asm'', KWG_GNU), (''__typeof__'', KWG_ALT), (''__typeof'', KWG_ALT), (''__auto_type'', KWG_ALT),
      (''__inline__'', KWG_ALT), (''__inline'', KWG_ALT), (''__asm__'', KWG_ALT), (''__asm'', KWG_ALT),
      (''__restrict__'', KWG_ALT), (''__restrict'', KWG_ALT), (''__volatile__'', KWG_ALT), (''__volatile'', KWG_ALT),
      (''__const__'', KWG_ALT), (''__const'', KWG_ALT), (''__signed__'', KWG_ALT), (''__int128'', KWG_ALT),
      (''__int128_t'', KWG_ALT), (''__uint128_t'', KWG_ALT), (''__attribute__'', KWG_ALT), (''__attribute'', KWG_ALT),
      (''__extension__'', KWG_ALT), (''__label__'', KWG_ALT), (''__alignof__'', KWG_ALT), (''__alignof'', KWG_ALT),
      (''__label__'', KWG_ALT), (''__builtin_va_list'', KWG_ALT), (''_Float16'', KWG_C89), (''_Float32'', KWG_C89),
      (''_Float64'', KWG_C89), (''_Float32x'', KWG_C89), (''_Float64x'', KWG_C89), (''_Float128'', KWG_C89),
      (''__float128'', KWG_ALT)]"

definition kw_names :: "string list" where
  "kw_names = ''<none>'' # map fst kw_table"

definition group_active :: "kw_group \<Rightarrow> lang_opts \<Rightarrow> bool" where
  "group_active g lang =
     (case g of
        KWG_C89 \<Rightarrow> True
      | KWG_C99 \<Rightarrow> std_is_c99_or_later (lo_std lang)
      | KWG_C99_OR_GNU89 \<Rightarrow> std_is_c99_or_later (lo_std lang) \<or> lo_std lang = STD_GNU89
      | KWG_C11 \<Rightarrow> std_is_c11_or_later (lo_std lang)
      | KWG_GNU \<Rightarrow> lo_gnu_mode lang
      | KWG_ALT \<Rightarrow> True)"

fun kw_search :: "lang_opts \<Rightarrow> string \<Rightarrow> nat \<Rightarrow> (string \<times> kw_group) list \<Rightarrow> nat" where
  "kw_search lang s i [] = 0"
| "kw_search lang s i ((k, g) # rest) = (if k = s then (if group_active g lang then i + 1 else 0) else kw_search lang s (i + 1) rest)"

definition lex_keyword_lookup :: "string \<Rightarrow> lang_opts \<Rightarrow> nat" where
  "lex_keyword_lookup s lang = kw_search lang s 0 kw_table"

definition lex_keyword_name :: "nat \<Rightarrow> string outcome" where
  "lex_keyword_name kw = (if kw \<ge> length kw_names then Inl (ICE ''lex_keyword_name: bad keyword'') else Inr (kw_names ! kw))"

definition lex_token_kind_name :: "token_kind \<Rightarrow> string" where
  "lex_token_kind_name k =
     (case k of TOK_EOF \<Rightarrow> ''EOF'' | TOK_IDENT \<Rightarrow> ''IDENT'' | TOK_KEYWORD \<Rightarrow> ''KEYWORD'' | TOK_PUNCT \<Rightarrow> ''PUNCT''
      | TOK_INT_CONST \<Rightarrow> ''INT_CONST'' | TOK_FLOAT_CONST \<Rightarrow> ''FLOAT_CONST'' | TOK_CHAR_CONST \<Rightarrow> ''CHAR_CONST'' | TOK_STRING \<Rightarrow> ''STRING'')"

definition lex_int_type_name :: "int_const_type \<Rightarrow> string" where
  "lex_int_type_name t =
     (case t of ITY_INT \<Rightarrow> ''int'' | ITY_UINT \<Rightarrow> ''unsigned int'' | ITY_LONG \<Rightarrow> ''long'' | ITY_ULONG \<Rightarrow> ''unsigned long''
      | ITY_LLONG \<Rightarrow> ''long long'' | ITY_ULLONG \<Rightarrow> ''unsigned long long'')"

section \<open>The conversion pass\<close>

text \<open>The token an iteration starts from.\<close>

definition fresh_token :: "(nat \<Rightarrow> nat \<Rightarrow> nat) \<Rightarrow> pp_token \<Rightarrow> token" where
  "fresh_token pp_span p = token_cleared\<lparr>tk_loc := pp_loc p, tk_span := pp_span (pp_loc p) (length (pp_spelling p)), tk_spelling := pp_spelling p\<rparr>"

text \<open>
  One iteration on the tokens left: the token pushed, if any, its diagnostics, and how many tokens were
  consumed.
\<close>

definition convert_step :: "(nat \<Rightarrow> nat \<Rightarrow> nat) \<Rightarrow> lang_opts \<Rightarrow> target_kind \<Rightarrow> pp_token \<Rightarrow> pp_token list \<Rightarrow>
    (token option \<times> lex_diag list \<times> nat) outcome" where
  "convert_step pp_span lang target p rest =
     (let w = cgf_target_int_widths target; t = fresh_token pp_span p; sp = pp_spelling p in
      case pp_kind p of
        PPTOK_IDENT \<Rightarrow>
          (let kw = lex_keyword_lookup sp lang
           in Inr (Some (t\<lparr>tk_kind := if kw \<noteq> 0 then TOK_KEYWORD else TOK_IDENT, tk_kw := kw\<rparr>), [], 1))
      | PPTOK_PPNUM \<Rightarrow>
          (let (t', ds) = (if lex_ppnum_is_float sp then lex_float_const lang target sp (t\<lparr>tk_kind := TOK_FLOAT_CONST\<rparr>)
                           else lex_int_const lang w sp (t\<lparr>tk_kind := TOK_INT_CONST\<rparr>))
           in Inr (Some t', ds, 1))
      | PPTOK_CHARCONST \<Rightarrow> (let (t', ds) = lex_char_const lang w sp (t\<lparr>tk_kind := TOK_CHAR_CONST\<rparr>) in Inr (Some t', ds, 1))
      | PPTOK_STRLIT \<Rightarrow>
          (let run = p # takeWhile (\<lambda>q. pp_kind q = PPTOK_STRLIT) rest; (t', ds) = lex_string_lit lang run (t\<lparr>tk_kind := TOK_STRING\<rparr>)
           in Inr (Some t', ds, length run))
      | PPTOK_PUNCT \<Rightarrow> Inr (Some (t\<lparr>tk_kind := TOK_PUNCT, tk_punct := pp_punct p\<rparr>), [], 1)
      | PPTOK_OTHER \<Rightarrow> Inr (None, [Diag Sev_Error ''stray token in program'' [sp]], 1)
      | PPTOK_HEADER_NAME \<Rightarrow> Inl (ICE ''lex_convert: pp-token kind must never reach phase 7'')
      | PPTOK_PLACEMARKER \<Rightarrow> Inl (ICE ''lex_convert: pp-token kind must never reach phase 7'')
      | PPTOK_EOF \<Rightarrow> Inl (ICE ''lex_convert: pp-token kind must never reach phase 7''))"

lemma convert_step_progress: "convert_step pp_span lang target p rest = Inr (ot, ds, k) \<Longrightarrow> 0 < k"
  by (auto simp: convert_step_def Let_def split: pp_tok_kind.split_asm prod.split_asm)

function convert_loop :: "(nat \<Rightarrow> nat \<Rightarrow> nat) \<Rightarrow> lang_opts \<Rightarrow> target_kind \<Rightarrow> token list \<Rightarrow> lex_diag list \<Rightarrow> pp_token list \<Rightarrow>
    (token list \<times> lex_diag list) outcome" where
  "convert_loop pp_span lang target out ds [] = Inr (out, ds)"
| "convert_loop pp_span lang target out ds (p # rest) =
     (case convert_step pp_span lang target p rest of
        Inl e \<Rightarrow> Inl e
      | Inr (ot, ds', k) \<Rightarrow>
          convert_loop pp_span lang target (case ot of None \<Rightarrow> out | Some t \<Rightarrow> out @ [t]) (ds @ ds') (drop k (p # rest)))"
  by pat_completeness auto
termination
  by (relation "measure (\<lambda>(pp_span, lang, target, out, ds, toks). length toks)") (auto dest!: convert_step_progress)

definition eof_token :: "token list \<Rightarrow> token" where
  "eof_token out =
     (if out \<noteq> [] then token_cleared\<lparr>tk_loc := tk_loc (last out), tk_span := tk_span (last out)\<rparr> else token_cleared)"

definition lex_convert :: "(nat \<Rightarrow> nat \<Rightarrow> nat) \<Rightarrow> lang_opts \<Rightarrow> target_kind \<Rightarrow> pp_token list \<Rightarrow> (token list \<times> lex_diag list) outcome" where
  "lex_convert pp_span lang target toks =
     bind_outcome (convert_loop pp_span lang target [] [] toks) (\<lambda>(out, ds). Inr (out @ [eof_token out], ds))"

section \<open>Keyword lookup\<close>

lemma kw_search_sound:
  "kw_search lang s i tbl = k \<Longrightarrow> k \<noteq> 0 \<Longrightarrow>
     \<exists>j g. j < length tbl \<and> k = i + j + 1 \<and> tbl ! j = (s, g) \<and> group_active g lang"
proof (induction lang s i tbl rule: kw_search.induct)
  case (2 lang s i a g rest)
  show ?case
  proof (cases "a = s")
    case True
    then show ?thesis using 2 by (intro exI [of _ 0]) (auto split: if_split_asm)
  next
    case False
    obtain j h where "j < length rest" "k = (i + 1) + j + 1" "rest ! j = (s, h)" "group_active h lang"
      using "2.IH" [OF False] "2.prems" False by auto
    then show ?thesis by (intro exI [of _ "Suc j"]) auto
  qed
qed simp

lemma kw_search_first:
  "j < length tbl \<Longrightarrow> tbl ! j = (s, g) \<Longrightarrow> \<forall>i'<j. fst (tbl ! i') \<noteq> s \<Longrightarrow>
     kw_search lang s i tbl = (if group_active g lang then i + j + 1 else 0)"
proof (induction tbl arbitrary: i j)
  case (Cons r rest)
  show ?case
  proof (cases j)
    case 0
    then show ?thesis using Cons.prems by simp
  next
    case (Suc j')
    have "fst r \<noteq> s" using Cons.prems(3) Suc by (metis nth_Cons_0 zero_less_Suc)
    moreover have "\<forall>i'<j'. fst (rest ! i') \<noteq> s" using Cons.prems(3) Suc by (metis Suc_mono nth_Cons_Suc)
    ultimately show ?thesis using Cons.IH [of j' "i + 1"] Cons.prems(1,2) Suc by (cases r) simp
  qed
qed simp

text \<open>The number of the row KW_ALT_LABEL, which repeats the spelling of the row KW_LOCAL_LABEL.\<close>

definition KW_ALT_LABEL :: nat where
  "KW_ALT_LABEL = 71"

lemma kw_table_unique: "i < j \<Longrightarrow> j < 79 \<Longrightarrow> j \<noteq> 70 \<Longrightarrow> fst (kw_table ! i) \<noteq> fst (kw_table ! j)"
proof -
  have "list_all (\<lambda>j. j = 70 \<or> list_all (\<lambda>i. fst (kw_table ! i) \<noteq> fst (kw_table ! j)) [0..<j]) [0..<79]"
    by code_simp
  then show "i < j \<Longrightarrow> j < 79 \<Longrightarrow> j \<noteq> 70 \<Longrightarrow> fst (kw_table ! i) \<noteq> fst (kw_table ! j)"
    by (fastforce simp: list_all_iff simp del: upt_Suc)
qed

lemma length_kw_table: "length kw_table = 79"
  by code_simp

text \<open>
  C36: keyword lookup and keyword names are inverse to each other. Lookup of a spelling returns a keyword
  only with that name and only if its group is active in the language mode; conversely the name of every
  keyword is looked up to that keyword in exactly the modes of its group, and is an identifier in the
  others. The one exception is KW_ALT_LABEL, whose row repeats an earlier spelling and which is never
  returned.
\<close>

theorem keyword_roundtrip:
  "(lex_keyword_lookup s lang = k \<and> k \<noteq> 0 \<longrightarrow>
      lex_keyword_name k = Inr s \<and> k \<noteq> KW_ALT_LABEL \<and> group_active (snd (kw_table ! (k - 1))) lang) \<and>
   (1 \<le> k \<and> k \<le> length kw_table \<and> k \<noteq> KW_ALT_LABEL \<and> lex_keyword_name k = Inr s \<longrightarrow>
      lex_keyword_lookup s lang = (if group_active (snd (kw_table ! (k - 1))) lang then k else 0))"
proof (intro conjI impI; elim conjE)
  assume k: "lex_keyword_lookup s lang = k" "k \<noteq> 0"
  obtain j g where j: "j < 79" "k = j + 1" "kw_table ! j = (s, g)" "group_active g lang"
    using kw_search_sound [OF k(1) [unfolded lex_keyword_lookup_def] k(2)] length_kw_table by auto
  have "j \<noteq> 70"
  proof
    assume "j = 70"
    have "kw_table ! 67 = (''__label__'', KWG_ALT)" "kw_table ! 70 = (''__label__'', KWG_ALT)" by code_simp+
    moreover have "\<forall>i<67. fst (kw_table ! i) \<noteq> ''__label__''" using kw_table_unique [of _ 67] calculation(1) by simp
    ultimately have "lex_keyword_lookup s lang = 68"
      using kw_search_first [of 67 kw_table "''__label__''" KWG_ALT lang 0] j(3) \<open>j = 70\<close> length_kw_table
      by (simp add: lex_keyword_lookup_def group_active_def)
    then show False using k j(2) \<open>j = 70\<close> by simp
  qed
  then show "lex_keyword_name k = Inr s" "k \<noteq> KW_ALT_LABEL" "group_active (snd (kw_table ! (k - 1))) lang"
    using j length_kw_table by (simp_all add: lex_keyword_name_def kw_names_def KW_ALT_LABEL_def)
next
  assume k: "1 \<le> k" "k \<le> length kw_table" "k \<noteq> KW_ALT_LABEL" "lex_keyword_name k = Inr s"
  then obtain j where j: "k = Suc j" "j < 79" "j \<noteq> 70" using length_kw_table by (cases k) (auto simp: KW_ALT_LABEL_def)
  have s: "kw_table ! j = (s, snd (kw_table ! j))"
    using k(4) j length_kw_table by (cases "kw_table ! j") (simp add: lex_keyword_name_def kw_names_def)
  have "\<forall>i<j. fst (kw_table ! i) \<noteq> s" using kw_table_unique [OF _ j(2,3)] s by (metis fst_conv)
  from kw_search_first [OF _ s this, of lang 0]
  show "lex_keyword_lookup s lang = (if group_active (snd (kw_table ! (k - 1))) lang then k else 0)"
    using j length_kw_table by (simp add: lex_keyword_lookup_def)
qed

theorem keyword_roundtrip_witness:
  "lex_keyword_lookup ''inline'' demo_lang = 33 \<and> lex_keyword_name 33 = Inr ''inline'' \<and>
   lex_keyword_lookup ''inline'' (demo_lang\<lparr>lo_std := STD_C89\<rparr>) = 0"
proof -
  have n: "lex_keyword_name 33 = Inr ''inline''" "lex_keyword_lookup ''inline'' demo_lang = 33"
    "\<not> group_active (snd (kw_table ! 32)) (demo_lang\<lparr>lo_std := STD_C89\<rparr>)"
    by code_simp+
  then show ?thesis
    using keyword_roundtrip [of "''inline''" "demo_lang\<lparr>lo_std := STD_C89\<rparr>" 33] length_kw_table
    by (simp add: KW_ALT_LABEL_def)
qed

section \<open>What the pass produces\<close>

text \<open>The fields no constant decoder touches.\<close>

definition same_place :: "token \<Rightarrow> token \<Rightarrow> bool" where
  "same_place t t' \<longleftrightarrow> tk_kind t' = tk_kind t \<and> tk_loc t' = tk_loc t \<and> tk_span t' = tk_span t \<and> tk_spelling t' = tk_spelling t"

lemma lex_int_const_place: "lex_int_const lang w sp t = (t', ds) \<Longrightarrow> same_place t t'"
  by (auto simp: lex_int_const_def same_place_def Let_def split: if_split_asm sum.split_asm prod.split_asm option.split_asm)

lemma lex_float_const_place: "lex_float_const lang target sp t = (t', ds) \<Longrightarrow> same_place t t'"
  by (auto simp: lex_float_const_def same_place_def Let_def split: if_split_asm sum.split_asm prod.split_asm option.split_asm)

lemma lex_char_const_place: "lex_char_const lang w sp t = (t', ds) \<Longrightarrow> same_place t t'"
  unfolding lex_char_const_def Let_def same_place_def
  by (cases "read_prefix sp") (auto split: if_split_asm prod.split_asm option.split_asm)

lemma lex_string_lit_place: "lex_string_lit lang run t = (t', ds) \<Longrightarrow> same_place t t'"
  unfolding lex_string_lit_def Let_def same_place_def
  by (auto split: if_split_asm prod.split_asm option.split_asm)

text \<open>Translation phase 6: string literals in groups, every other token on its own.\<close>

definition group_ok :: "pp_token list \<Rightarrow> bool" where
  "group_ok g \<longleftrightarrow> g \<noteq> [] \<and> (if pp_kind (hd g) = PPTOK_STRLIT then \<forall>p\<in>set g. pp_kind p = PPTOK_STRLIT else length g = 1)"

definition grouping :: "pp_token list list \<Rightarrow> bool" where
  "grouping gs \<longleftrightarrow>
     (\<forall>g\<in>set gs. group_ok g) \<and>
     (\<forall>i. Suc i < length gs \<longrightarrow> \<not> (pp_kind (hd (gs ! i)) = PPTOK_STRLIT \<and> pp_kind (hd (gs ! Suc i)) = PPTOK_STRLIT))"

definition stray :: "pp_token \<Rightarrow> bool" where
  "stray p \<longleftrightarrow> pp_kind p = PPTOK_OTHER"

definition unexpected :: "pp_token \<Rightarrow> bool" where
  "unexpected p \<longleftrightarrow> pp_kind p \<in> {PPTOK_HEADER_NAME, PPTOK_PLACEMARKER, PPTOK_EOF}"

text \<open>The kind of the token a group becomes.\<close>

definition group_kind :: "lang_opts \<Rightarrow> pp_token \<Rightarrow> token_kind" where
  "group_kind lang p =
     (case pp_kind p of
        PPTOK_IDENT \<Rightarrow> if lex_keyword_lookup (pp_spelling p) lang \<noteq> 0 then TOK_KEYWORD else TOK_IDENT
      | PPTOK_PPNUM \<Rightarrow> if lex_ppnum_is_float (pp_spelling p) then TOK_FLOAT_CONST else TOK_INT_CONST
      | PPTOK_CHARCONST \<Rightarrow> TOK_CHAR_CONST
      | PPTOK_STRLIT \<Rightarrow> TOK_STRING
      | PPTOK_PUNCT \<Rightarrow> TOK_PUNCT
      | _ \<Rightarrow> TOK_EOF)"

definition token_of_group :: "(nat \<Rightarrow> nat \<Rightarrow> nat) \<Rightarrow> lang_opts \<Rightarrow> pp_token list \<Rightarrow> token \<Rightarrow> bool" where
  "token_of_group pp_span lang g t \<longleftrightarrow>
     tk_kind t = group_kind lang (hd g) \<and> tk_loc t = pp_loc (hd g) \<and> tk_spelling t = pp_spelling (hd g) \<and>
     tk_span t = pp_span (pp_loc (hd g)) (length (pp_spelling (hd g))) \<and>
     (tk_kind t = TOK_KEYWORD \<longrightarrow> tk_kw t = lex_keyword_lookup (pp_spelling (hd g)) lang) \<and>
     (tk_kind t = TOK_PUNCT \<longrightarrow> tk_punct t = pp_punct (hd g)) \<and>
     (tk_kind t = TOK_STRING \<longrightarrow> (\<exists>ds. (t, ds) = lex_string_lit lang g (fresh_token pp_span (hd g)\<lparr>tk_kind := TOK_STRING\<rparr>)))"

lemma convert_step_group:
  assumes "convert_step pp_span lang target p rest = Inr (ot, ds, k)"
  defines "g \<equiv> take k (p # rest)"
  shows "\<not> unexpected p"
    and "g \<noteq> [] \<and> hd g = p \<and> (if pp_kind p = PPTOK_STRLIT then \<forall>q\<in>set g. pp_kind q = PPTOK_STRLIT else length g = 1)"
    and "pp_kind p = PPTOK_STRLIT \<Longrightarrow> drop k (p # rest) \<noteq> [] \<Longrightarrow> pp_kind (hd (drop k (p # rest))) \<noteq> PPTOK_STRLIT"
    and "if stray p then ot = None else \<exists>t. ot = Some t \<and> token_of_group pp_span lang g t"
    and "stray p \<Longrightarrow> ds = [Diag Sev_Error ''stray token in program'' [pp_spelling p]]"
proof -
  let ?w = "takeWhile (\<lambda>q. pp_kind q = PPTOK_STRLIT) rest"
  show "\<not> unexpected p"
    using assms(1) by (auto simp: convert_step_def unexpected_def)
  have k: "if pp_kind p = PPTOK_STRLIT then k = Suc (length ?w) else k = 1"
    using assms(1) by (auto simp: convert_step_def Let_def split: pp_tok_kind.split_asm prod.split_asm)
  have w: "take (length ?w) rest = ?w" by (rule takeWhile_eq_take [symmetric])
  have g: "g = (if pp_kind p = PPTOK_STRLIT then p # ?w else [p])" using k w by (auto simp: g_def)
  then show "g \<noteq> [] \<and> hd g = p \<and> (if pp_kind p = PPTOK_STRLIT then \<forall>q\<in>set g. pp_kind q = PPTOK_STRLIT else length g = 1)"
    by (auto dest: set_takeWhileD)
  show "pp_kind (hd (drop k (p # rest))) \<noteq> PPTOK_STRLIT" if "pp_kind p = PPTOK_STRLIT" "drop k (p # rest) \<noteq> []"
    using that k hd_dropWhile [of "\<lambda>q. pp_kind q = PPTOK_STRLIT" rest] by (simp add: dropWhile_eq_drop)
  show "ds = [Diag Sev_Error ''stray token in program'' [pp_spelling p]]" if "stray p"
    using that assms(1) by (simp add: stray_def convert_step_def Let_def)
  show "if stray p then ot = None else \<exists>t. ot = Some t \<and> token_of_group pp_span lang g t"
  proof (cases "pp_kind p")
    case PPTOK_PPNUM
    then have "\<exists>t. ot = Some t \<and> same_place (fresh_token pp_span p\<lparr>tk_kind := group_kind lang p\<rparr>) t"
      using assms(1) lex_int_const_place lex_float_const_place
      by (auto simp: convert_step_def group_kind_def Let_def split: prod.split_asm if_split_asm)
    with PPTOK_PPNUM show ?thesis by (auto simp: token_of_group_def same_place_def group_kind_def g fresh_token_def stray_def)
  next
    case PPTOK_CHARCONST
    then have "\<exists>t. ot = Some t \<and> same_place (fresh_token pp_span p\<lparr>tk_kind := group_kind lang p\<rparr>) t"
      using assms(1) lex_char_const_place by (auto simp: convert_step_def group_kind_def Let_def split: prod.split_asm)
    with PPTOK_CHARCONST show ?thesis by (auto simp: token_of_group_def same_place_def group_kind_def g fresh_token_def stray_def)
  next
    case PPTOK_STRLIT
    then obtain t where t: "ot = Some t" "lex_string_lit lang g (fresh_token pp_span p\<lparr>tk_kind := TOK_STRING\<rparr>) = (t, ds)"
      using assms(1) g by (auto simp: convert_step_def Let_def split: prod.split_asm)
    from lex_string_lit_place [OF t(2)] t show ?thesis using PPTOK_STRLIT g
      by (auto simp: token_of_group_def same_place_def group_kind_def fresh_token_def stray_def)
  qed (use assms(1) in \<open>auto simp: convert_step_def Let_def token_of_group_def group_kind_def g fresh_token_def stray_def\<close>)
qed

definition converted :: "(nat \<Rightarrow> nat \<Rightarrow> nat) \<Rightarrow> lang_opts \<Rightarrow> pp_token list \<Rightarrow> pp_token list list \<Rightarrow> token list \<Rightarrow> lex_diag list \<Rightarrow> bool" where
  "converted pp_span lang toks gs out ds \<longleftrightarrow> concat gs = toks \<and> grouping gs \<and>
     list_all2 (token_of_group pp_span lang) (filter (\<lambda>g. \<not> stray (hd g)) gs) out \<and>
     (\<forall>p\<in>set toks. stray p \<longrightarrow> Diag Sev_Error ''stray token in program'' [pp_spelling p] \<in> set ds)"

lemma grouping_Cons:
  assumes "grouping gs" "group_ok g"
    "pp_kind (hd g) = PPTOK_STRLIT \<Longrightarrow> concat gs \<noteq> [] \<Longrightarrow> pp_kind (hd (concat gs)) \<noteq> PPTOK_STRLIT"
  shows "grouping (g # gs)"
proof -
  have "\<not> (pp_kind (hd g) = PPTOK_STRLIT \<and> pp_kind (hd (gs ! 0)) = PPTOK_STRLIT)" if "gs \<noteq> []"
  proof -
    obtain h hs where gs: "gs = h # hs" using \<open>gs \<noteq> []\<close> by (cases gs) auto
    then have "h \<noteq> []" using assms(1) by (simp add: grouping_def group_ok_def)
    then show ?thesis using assms(3) gs by auto
  qed
  moreover have "\<not> (pp_kind (hd ((g # gs) ! i)) = PPTOK_STRLIT \<and> pp_kind (hd ((g # gs) ! Suc i)) = PPTOK_STRLIT)"
    if "Suc i < length (g # gs)" for i
    using that assms(1) calculation by (cases i) (auto simp: grouping_def)
  moreover have "\<forall>h\<in>set (g # gs). group_ok h"
    using assms(1,2) by (simp add: grouping_def)
  ultimately show ?thesis unfolding grouping_def by blast
qed

lemma convert_step_error: "convert_step pp_span lang target p rest = Inl e \<Longrightarrow> unexpected p"
  by (auto simp: convert_step_def unexpected_def Let_def split: pp_tok_kind.split_asm prod.split_asm)

lemma converted_step:
  assumes step: "convert_step pp_span lang target p rest = Inr (ot, ds', k)"
    and "converted pp_span lang (drop k (p # rest)) gs out ds"
  shows "converted pp_span lang (p # rest) (take k (p # rest) # gs) ((case ot of None \<Rightarrow> [] | Some t \<Rightarrow> [t]) @ out) (ds' @ ds)"
proof -
  note c = convert_step_group [OF step]
  have gs: "concat gs = drop k (p # rest)" using assms(2) by (simp add: converted_def)
  have "grouping (take k (p # rest) # gs)"
  proof (rule grouping_Cons)
    show "grouping gs" using assms(2) by (simp add: converted_def)
    show "group_ok (take k (p # rest))" using c(2) unfolding group_ok_def by argo
    show "pp_kind (hd (take k (p # rest))) = PPTOK_STRLIT \<Longrightarrow> concat gs \<noteq> [] \<Longrightarrow> pp_kind (hd (concat gs)) \<noteq> PPTOK_STRLIT"
      using c(2,3) unfolding gs by argo
  qed
  moreover have "concat (take k (p # rest) # gs) = p # rest" using gs by (metis append_take_drop_id concat.simps(2))
  moreover have "list_all2 (token_of_group pp_span lang) (filter (\<lambda>g. \<not> stray (hd g)) (take k (p # rest) # gs))
      ((case ot of None \<Rightarrow> [] | Some t \<Rightarrow> [t]) @ out)"
    using assms(2) c(2,4) by (auto simp: converted_def split: if_split_asm)
  moreover have "Diag Sev_Error ''stray token in program'' [pp_spelling q] \<in> set (ds' @ ds)" if "q \<in> set (p # rest)" "stray q" for q
  proof (cases "q \<in> set (take k (p # rest))")
    case True
    then have "q = p" using c(2) that(2)
      by (cases "take k (p # rest)") (auto simp: stray_def split: if_split_asm)
    then show ?thesis using c(5) that(2) by simp
  next
    case False
    then have "q \<in> set (drop k (p # rest))" using that(1) by (metis Un_iff append_take_drop_id set_append)
    then show ?thesis using assms(2) that(2) by (simp add: converted_def)
  qed
  ultimately show ?thesis unfolding converted_def by blast
qed

lemma convert_loop_groups:
  "if \<exists>p\<in>set toks. unexpected p then \<exists>e. convert_loop pp_span lang target out0 ds0 toks = Inl e
   else \<exists>gs out ds. convert_loop pp_span lang target out0 ds0 toks = Inr (out0 @ out, ds0 @ ds) \<and> converted pp_span lang toks gs out ds"
proof (induction pp_span lang target out0 ds0 toks rule: convert_loop.induct)
  case (1 pp_span lang target out0 ds0)
  show ?case by (auto simp: converted_def grouping_def intro!: exI [of _ "[]"])
next
  case (2 pp_span lang target out0 ds0 p rest)
  show ?case
  proof (cases "convert_step pp_span lang target p rest")
    case (Inl e)
    then show ?thesis using convert_step_error [OF Inl] by simp
  next
    case (Inr r)
    obtain ot ds' k where step: "convert_step pp_span lang target p rest = Inr (ot, ds', k)" using Inr by (cases r) auto
    note c = convert_step_group [OF step]
    define out1 where "out1 = (case ot of None \<Rightarrow> out0 | Some t \<Rightarrow> out0 @ [t])"
    have out1: "out1 = out0 @ (case ot of None \<Rightarrow> [] | Some t \<Rightarrow> [t])" by (simp add: out1_def split: option.split)
    have unf: "convert_loop pp_span lang target out0 ds0 (p # rest) = convert_loop pp_span lang target out1 (ds0 @ ds') (drop k (p # rest))"
      unfolding convert_loop.simps step out1_def by simp
    have "(\<exists>q\<in>set (p # rest). unexpected q) \<longleftrightarrow> (\<exists>q\<in>set (drop k (p # rest)). unexpected q)"
    proof -
      have "\<not> unexpected q" if "q \<in> set (take k (p # rest))" for q
        using c(1,2) that by (cases "take k (p # rest)") (auto simp: unexpected_def split: if_split_asm)
      then show ?thesis by (metis Un_iff append_take_drop_id set_append)
    qed
    note u = this
    note ih = "2.IH" [OF step refl refl, folded out1_def]
    show ?thesis
    proof (cases "\<exists>q\<in>set (p # rest). unexpected q")
      case True
      then show ?thesis using ih u unf by simp
    next
      case False
      then obtain gs out ds where e: "convert_loop pp_span lang target out1 (ds0 @ ds') (drop k (p # rest)) = Inr (out1 @ out, (ds0 @ ds') @ ds)"
        "converted pp_span lang (drop k (p # rest)) gs out ds" using ih u by (auto split: if_split_asm)
      from converted_step [OF step e(2)] show ?thesis
        using False unf e(1) unfolding out1 by (metis append.assoc)
    qed
  qed
qed


definition demo_tokens :: "pp_token list" where
  "demo_tokens = \<lparr>pp_spelling = ''return'', pp_loc = 0, pp_kind = PPTOK_IDENT, pp_punct = 0, pp_space = False\<rparr> # demo_run"


end
