(* ===== verification/Memsafe_State.thy ===== *)
theory Memsafe_State
  imports Cg_Prelude
begin

text \<open>
  src/src/memsafe/state.c: the abstract state of one allocation site and its transitions, the core of the
  lifetime analysis. The concrete side is the object the site stands for on one execution; a path of
  the analysis is a sequence of transitions, with joins where paths are merged.
\<close>

section \<open>Definitions\<close>

datatype ms_state = MS_UNALLOCATED | MS_ALLOCATED | MS_FREED | MS_ESCAPED | MS_UNKNOWN

datatype ms_action = MS_ACT_ALLOC | MS_ACT_FREE | MS_ACT_ESCAPE | MS_ACT_DEREF

datatype ms_outcome = MS_OUTCOME_OK | MS_OUTCOME_NOOP | MS_OUTCOME_DOUBLE_FREE | MS_OUTCOME_UAF_ESCAPE | MS_OUTCOME_UAF

record ms_transition_result =
  mt_state :: ms_state
  mt_outcome :: ms_outcome

definition ms_state_join :: "ms_state \<Rightarrow> ms_state \<Rightarrow> ms_state" where
  "ms_state_join a b = (if a = b then a else MS_UNKNOWN)"

definition ms_state_name :: "ms_state \<Rightarrow> string" where
  "ms_state_name s = (case s of MS_UNALLOCATED \<Rightarrow> ''unallocated'' | MS_ALLOCATED \<Rightarrow> ''allocated'' | MS_FREED \<Rightarrow> ''freed''
     | MS_ESCAPED \<Rightarrow> ''escaped'' | MS_UNKNOWN \<Rightarrow> ''unknown'')"

definition ms_transition :: "ms_state \<Rightarrow> ms_action \<Rightarrow> bool \<Rightarrow> ms_transition_result" where
  "ms_transition from action is_null =
     (let result = \<lparr>mt_state = from, mt_outcome = MS_OUTCOME_OK\<rparr> in
      if action = MS_ACT_FREE \<and> is_null then result\<lparr>mt_outcome := MS_OUTCOME_NOOP\<rparr>
      else (case action of
          MS_ACT_ALLOC \<Rightarrow> result\<lparr>mt_state := MS_ALLOCATED\<rparr>
        | MS_ACT_FREE \<Rightarrow>
            if from = MS_ALLOCATED then result\<lparr>mt_state := MS_FREED\<rparr>
            else if from = MS_FREED then result\<lparr>mt_outcome := MS_OUTCOME_DOUBLE_FREE\<rparr>
            else if from = MS_ESCAPED \<or> from = MS_UNKNOWN then result\<lparr>mt_state := MS_UNKNOWN\<rparr>
            else result
        | MS_ACT_ESCAPE \<Rightarrow>
            if from = MS_ALLOCATED then result\<lparr>mt_state := MS_ESCAPED\<rparr>
            else if from = MS_FREED then result\<lparr>mt_outcome := MS_OUTCOME_UAF_ESCAPE\<rparr>
            else result
        | MS_ACT_DEREF \<Rightarrow> if from = MS_FREED then result\<lparr>mt_outcome := MS_OUTCOME_UAF\<rparr> else result))"

section \<open>What the states stand for\<close>

text \<open>
  The object of the site on one execution: not allocated yet, alive (and whether other code has got
  hold of it), or freed.
\<close>

datatype object = No_Object | Alive bool | Dead

text \<open>
  One action of the code on the object. Freeing, passing on or accessing a dead object is an error.
  Freeing before the site has allocated concerns another object.
\<close>

inductive act :: "ms_action \<Rightarrow> object \<Rightarrow> object \<Rightarrow> bool" where
  act_alloc: "act MS_ACT_ALLOC ob (Alive False)"
| act_free: "act MS_ACT_FREE (Alive e) Dead"
| act_free_none: "act MS_ACT_FREE No_Object No_Object"
| act_escape: "act MS_ACT_ESCAPE (Alive e) (Alive True)"
| act_escape_none: "act MS_ACT_ESCAPE No_Object No_Object"
| act_deref: "ob \<noteq> Dead \<Longrightarrow> act MS_ACT_DEREF ob ob"

inductive_cases act_cases: "act a ob ob'"

text \<open>The actions that are errors on an object.\<close>

definition act_error :: "ms_action \<Rightarrow> object \<Rightarrow> ms_outcome option" where
  "act_error a ob = (if ob = Dead then (case a of MS_ACT_ALLOC \<Rightarrow> None | MS_ACT_FREE \<Rightarrow> Some MS_OUTCOME_DOUBLE_FREE
     | MS_ACT_ESCAPE \<Rightarrow> Some MS_OUTCOME_UAF_ESCAPE | MS_ACT_DEREF \<Rightarrow> Some MS_OUTCOME_UAF) else None)"

definition stands_for :: "ms_state \<Rightarrow> object set" where
  "stands_for s = (case s of MS_UNALLOCATED \<Rightarrow> {No_Object} | MS_ALLOCATED \<Rightarrow> {Alive False} | MS_FREED \<Rightarrow> {Dead}
     | MS_ESCAPED \<Rightarrow> {Alive True, Dead} | MS_UNKNOWN \<Rightarrow> UNIV)"

text \<open>An action either is an error or has a step, never both.\<close>

lemma act_total: "act_error a ob = None \<longleftrightarrow> (\<exists>ob'. act a ob ob')"
  by (cases a; cases ob) (auto simp: act_error_def intro: act.intros elim: act_cases)

lemma transition_covers:
  assumes "ob \<in> stands_for s" "act a ob ob'"
  shows "ob' \<in> stands_for (mt_state (ms_transition s a False))"
  using assms(2,1) by cases (cases s; simp add: ms_transition_def stands_for_def Let_def)+

lemma transition_reports:
  assumes "mt_outcome (ms_transition s a False) \<noteq> MS_OUTCOME_OK" "ob \<in> stands_for s"
  shows "act_error a ob = Some (mt_outcome (ms_transition s a False))"
  using assms by (cases a; cases s) (auto simp: ms_transition_def stands_for_def act_error_def Let_def)

lemma join_covers: "stands_for a \<union> stands_for b \<subseteq> stands_for (ms_state_join a b)"
  by (cases a; cases b) (auto simp: stands_for_def ms_state_join_def)

section \<open>Paths\<close>

text \<open>
  The states the analysis can compute for a program point, with the actions executed to get there: a
  transition for each action without a report, and joins with the state of another path.
\<close>

inductive analysed :: "ms_action list \<Rightarrow> ms_state \<Rightarrow> bool" where
  an_start: "analysed [] MS_UNALLOCATED"
| an_step: "analysed as s \<Longrightarrow> analysed (as @ [a]) (mt_state (ms_transition s a False))"
| an_join: "analysed as s \<Longrightarrow> analysed as (ms_state_join s s')"

text \<open>
  The objects an execution of the actions can leave; between the actions, other code may free an object
  it has got hold of.
\<close>

inductive executed :: "ms_action list \<Rightarrow> object \<Rightarrow> bool" where
  ex_start: "executed [] No_Object"
| ex_step: "executed as ob \<Longrightarrow> act a ob ob' \<Longrightarrow> executed (as @ [a]) ob'"
| ex_other: "executed as (Alive True) \<Longrightarrow> executed as Dead"

lemma other_covers: "Alive True \<in> stands_for s \<Longrightarrow> Dead \<in> stands_for s"
  by (cases s) (simp_all add: stands_for_def)

lemma executed_Nil: "executed as ob \<Longrightarrow> as = [] \<Longrightarrow> ob = No_Object"
  by (induction rule: executed.induct) auto

lemma executed_snoc:
  "executed bs ob \<Longrightarrow> bs = as @ [a] \<Longrightarrow> \<exists>ob0 ob1. executed as ob0 \<and> act a ob0 ob1 \<and> (ob = ob1 \<or> (ob1 = Alive True \<and> ob = Dead))"
  by (induction rule: executed.induct) auto

lemma analysed_covers: "analysed as s \<Longrightarrow> executed as ob \<Longrightarrow> ob \<in> stands_for s"
proof (induction arbitrary: ob rule: analysed.induct)
  case an_start
  then show ?case using executed_Nil by (auto simp: stands_for_def)
next
  case (an_step as s a)
  from executed_snoc [OF an_step.prems refl] obtain ob0 ob1 where
    "executed as ob0" "act a ob0 ob1" "ob = ob1 \<or> (ob1 = Alive True \<and> ob = Dead)" by blast
  then show ?case using an_step.IH transition_covers other_covers by blast
next
  case (an_join as s s')
  then show ?case using join_covers by blast
qed



end
