(* ===== verification/Ir_Model.thy ===== *)
theory Ir_Model
  imports Cg_Prelude
begin

text \<open>
  The part of the intermediate representation (src/src/ir/ir.h) that the analyses and passes modelled here
  read and write: operands, edges with block arguments, instructions, blocks and functions. The intrusive
  list of instructions of a block is a list; block and value ids count from 1, 0 is no id.
\<close>

datatype ir_op =
  IR_IADD | IR_ISUB | IR_IMUL | IR_SDIV | IR_UDIV | IR_SREM | IR_UREM
| IR_AND | IR_OR | IR_XOR | IR_SHL | IR_LSHR | IR_ASHR
| IR_ICMP | IR_FCMP
| IR_FADD | IR_FSUB | IR_FMUL | IR_FDIV | IR_FNEG | IR_FABS
| IR_SEXT | IR_ZEXT | IR_TRUNC | IR_FPEXT | IR_FPTRUNC | IR_FPTOSI | IR_FPTOUI | IR_SITOFP | IR_UITOFP | IR_BITCAST
| IR_ALLOCA | IR_LOAD | IR_STORE | IR_PTRADD | IR_MEMCPY | IR_MEMSET
| IR_CALL | IR_SELECT
| IR_VSPLAT | IR_VEXTRACT | IR_VREDUCE_ADD | IR_VREDUCE_MUL | IR_VREDUCE_AND | IR_VREDUCE_OR | IR_VREDUCE_XOR
| IR_VA_START | IR_STACKSAVE | IR_STACKRESTORE | IR_ATOMICRMW | IR_CMPXCHG | IR_ASM
| IR_RET | IR_BR | IR_CONDBR | IR_SWITCH | IR_UNREACHABLE
| IR_VA_ARG | IR_VA_END | IR_VA_COPY

datatype ir_op_kind = IROP_NONE | IROP_VALUE | IROP_ICONST | IROP_FCONST | IROP_SYMBOL | IROP_UNDEF

record ir_operand =
  io_kind :: ir_op_kind
  io_type :: nat
  io_argflags :: nat
  io_sym :: nat
  io_a :: u64
  io_b :: u64

record ir_edge =
  ed_target :: nat
  ed_args :: "ir_operand list"
  ed_case_val :: u64

text \<open>Of the flags the two the passes test; the alignment and the callee share one field.\<close>

record ir_inst =
  ii_op :: ir_op
  ii_type :: nat
  ii_subop :: nat
  ii_volatile :: bool
  ii_seq_cst :: bool
  ii_result :: nat
  ii_loc :: nat
  ii_align :: nat
  ii_ops :: "ir_operand list"
  ii_edges :: "ir_edge list"

record ir_block =
  ib_params :: "nat list"
  ib_insts :: "ir_inst list"

datatype ir_val_def = VDEF_NONE | VDEF_FPARAM | VDEF_BPARAM | VDEF_INST

text \<open>Where a value is defined; the type is a number.\<close>

record ir_val_info =
  iv_type :: nat
  iv_def_kind :: ir_val_def
  iv_def_block :: nat
  iv_def_pos :: nat

text \<open>Of a local slot only the value id of its address matters here.\<close>

record ir_func =
  if_param_vals :: "nat list"
  if_blocks :: "ir_block list"
  if_vals :: "ir_val_info list"
  if_local_slots :: "nat list"

abbreviation if_nvals :: "ir_func \<Rightarrow> nat" where
  "if_nvals f \<equiv> length (if_vals f)"

text \<open>The id of a value operand is the low half of its payload.\<close>

definition operand_id :: "ir_operand \<Rightarrow> nat" where
  "operand_id o' = unat (ucast (io_a o') :: u32)"

text \<open>Types are the numbers of the enumeration IrType, of which IRT_VOID is the last.\<close>

definition IRT_VOID :: nat where
  "IRT_VOID = 15"

definition ir_value_type :: "ir_func \<Rightarrow> nat \<Rightarrow> nat" where
  "ir_value_type f v = (if v = 0 \<or> v > if_nvals f then IRT_VOID else iv_type (if_vals f ! (v - 1)))"

definition ir_op_value :: "ir_func \<Rightarrow> nat \<Rightarrow> ir_operand" where
  "ir_op_value f v =
     \<lparr>io_kind = IROP_VALUE, io_type = ir_value_type f v, io_argflags = 0, io_sym = 0, io_a = of_nat v, io_b = 0\<rparr>"

end
