(* ===== verification/Dominance.thy ===== *)
theory Dominance
  imports Cg_Prelude
begin

text \<open>
  Dominance in a rooted graph and the data-flow core of its computation by Cooper, Harvey and Kennedy. A map
  sends every node processed so far to its current candidate, a node with a smaller number; the candidates
  of a node form its chain up to the root. The locale \<open>numbered_graph\<close> states what the algorithm needs of
  the numbering: the root has number 0 and every other node a predecessor with a smaller number. Proved
  inside it: one step of a pass, one pass, and the fixpoint; every chain only ever shrinks, which bounds the
  number of passes, and never loses a dominator.
\<close>

section \<open>Walks, dominators, chains\<close>

text \<open>The nodes of a walk from the root 0, last one first.\<close>

inductive walk :: "(nat \<Rightarrow> nat \<Rightarrow> bool) \<Rightarrow> nat list \<Rightarrow> bool" for E where
  walk_root: "walk E [0]"
| walk_edge: "walk E (j # ps) \<Longrightarrow> E j b \<Longrightarrow> walk E (b # j # ps)"

definition reaches :: "(nat \<Rightarrow> nat \<Rightarrow> bool) \<Rightarrow> nat \<Rightarrow> bool" where
  "reaches E b \<longleftrightarrow> (\<exists>ps. walk E (b # ps))"

definition dominates :: "(nat \<Rightarrow> nat \<Rightarrow> bool) \<Rightarrow> nat \<Rightarrow> nat \<Rightarrow> bool" where
  "dominates E a b \<longleftrightarrow> (\<forall>ps. walk E (b # ps) \<longrightarrow> a \<in> set (b # ps))"

text \<open>The immediate dominator: the strict dominator that every strict dominator dominates.\<close>

definition immediate_dominator :: "(nat \<Rightarrow> nat \<Rightarrow> bool) \<Rightarrow> nat \<Rightarrow> nat \<Rightarrow> bool" where
  "immediate_dominator E a b \<longleftrightarrow> dominates E a b \<and> a \<noteq> b \<and> (\<forall>c. dominates E c b \<and> c \<noteq> b \<longrightarrow> dominates E c a)"

inductive_cases walk_ConsE: "walk E (b # ps)"

lemma reaches_root: "reaches E 0"
  unfolding reaches_def by (blast intro: walk_root)

lemma reaches_edge: "reaches E j \<Longrightarrow> E j b \<Longrightarrow> reaches E b"
  unfolding reaches_def by (blast intro: walk_edge)

lemma reaches_induct [consumes 1, case_names root edge]:
  assumes "reaches E b" "P 0" "\<And>j b. reaches E j \<Longrightarrow> P j \<Longrightarrow> E j b \<Longrightarrow> P b"
  shows "P b"
proof -
  have "walk E qs \<Longrightarrow> P (hd qs)" for qs
  proof (induction rule: walk.induct)
    case (walk_edge j ps b)
    then show ?case using assms(3) [of j b] by (auto simp: reaches_def)
  qed (use assms(2) in simp)
  then show ?thesis using assms(1) by (force simp: reaches_def)
qed

lemma dominates_refl: "dominates E b b"
  by (simp add: dominates_def)

lemma dominates_root: "dominates E a 0 \<Longrightarrow> a = 0"
  using walk_root by (fastforce simp: dominates_def)

lemma dominates_pred: "dominates E a b \<Longrightarrow> a \<noteq> b \<Longrightarrow> E j b \<Longrightarrow> dominates E a j"
  unfolding dominates_def using walk_edge by fastforce

text \<open>The chain of a node under a candidate map.\<close>

inductive anc :: "(nat \<rightharpoonup> nat) \<Rightarrow> nat \<Rightarrow> nat \<Rightarrow> bool" for d where
  anc_self: "anc d x x"
| anc_up: "x \<noteq> 0 \<Longrightarrow> d x = Some c \<Longrightarrow> anc d c y \<Longrightarrow> anc d x y"

definition chain :: "(nat \<rightharpoonup> nat) \<Rightarrow> nat \<Rightarrow> nat set" where
  "chain d x = {y. anc d x y}"

inductive_cases ancE: "anc d x y"

lemma chain_self [simp]: "x \<in> chain d x"
  by (simp add: chain_def anc_self)

lemma chain_root [simp]: "chain d 0 = {0}"
  by (auto simp: chain_def anc_self elim: ancE)

lemma chain_up: "x \<noteq> 0 \<Longrightarrow> d x = Some c \<Longrightarrow> chain d x = insert x (chain d c)"
  by (auto simp: chain_def intro: anc.intros elim: ancE)

section \<open>Numbered graphs\<close>

locale numbered_graph =
  fixes E :: "nat \<Rightarrow> nat \<Rightarrow> bool" and num :: "nat \<Rightarrow> nat"
  assumes finite_nodes: "finite {b. reaches E b}"
    and num_inj: "reaches E a \<Longrightarrow> reaches E b \<Longrightarrow> num a = num b \<Longrightarrow> a = b"
    and num_root: "num 0 = 0"
    and forward_pred: "reaches E b \<Longrightarrow> b \<noteq> 0 \<Longrightarrow> \<exists>j. reaches E j \<and> E j b \<and> num j < num b"
begin

text \<open>A candidate map: the root is its own candidate, every other processed node has a smaller one.\<close>

definition cand :: "(nat \<rightharpoonup> nat) \<Rightarrow> bool" where
  "cand d \<longleftrightarrow> d 0 = Some 0 \<and> dom d \<subseteq> {b. reaches E b} \<and> (\<forall>x c. d x = Some c \<longrightarrow> x \<noteq> 0 \<longrightarrow> c \<in> dom d \<and> num c < num x)"

lemma cand_root: "cand d \<Longrightarrow> 0 \<in> dom d"
  by (auto simp: cand_def)

lemma cand_reaches: "cand d \<Longrightarrow> x \<in> dom d \<Longrightarrow> reaches E x"
  by (auto simp: cand_def)

lemma cand_step:
  assumes "cand d" "x \<in> dom d" "x \<noteq> 0"
  obtains c where "d x = Some c" "c \<in> dom d" "num c < num x"
  using assms unfolding cand_def by blast

lemma chain_props:
  assumes "cand d" "x \<in> dom d"
  shows "0 \<in> chain d x" "chain d x \<subseteq> dom d" "y \<in> chain d x \<Longrightarrow> num y \<le> num x \<and> (num y = num x \<longrightarrow> y = x)"
proof -
  have "0 \<in> chain d x \<and> chain d x \<subseteq> dom d \<and> (\<forall>y\<in>chain d x. num y \<le> num x \<and> (num y = num x \<longrightarrow> y = x))"
    using assms(2)
  proof (induction "num x" arbitrary: x rule: less_induct)
    case less
    show ?case
    proof (cases "x = 0")
      case True
      then show ?thesis using less.prems by simp
    next
      case False
      obtain c where c: "d x = Some c" "c \<in> dom d" "num c < num x" using cand_step [OF assms(1) less.prems False] .
      show ?thesis using less.hyps [OF c(3,2)] c(3) less.prems chain_up [of x d, OF False c(1)] by fastforce
    qed
  qed
  then show "0 \<in> chain d x" "chain d x \<subseteq> dom d" "y \<in> chain d x \<Longrightarrow> num y \<le> num x \<and> (num y = num x \<longrightarrow> y = x)"
    by auto
qed

lemma chain_linear:
  assumes "cand d" "x \<in> dom d" "y \<in> chain d x" "z \<in> chain d x" "num y \<le> num z"
  shows "y \<in> chain d z"
  using assms(2-)
proof (induction "num x" arbitrary: x rule: less_induct)
  case less
  show ?case
  proof (cases "x = 0 \<or> z = x")
    case True
    then show ?thesis using less.prems by auto
  next
    case False
    then obtain c where c: "d x = Some c" "c \<in> dom d" "num c < num x" using cand_step [OF assms(1) less.prems(1)] by blast
    have "chain d x = insert x (chain d c)" using False c(1) by (intro chain_up) simp_all
    then have z: "z \<in> chain d c" using less.prems(3) False by simp
    have "num z \<le> num c" using chain_props(3) [OF assms(1) c(2) z] by simp
    then have "y \<in> chain d c" using less.prems(2,4) c(3) \<open>chain d x = insert x (chain d c)\<close> by auto
    then show ?thesis using less.hyps [OF c(3,2) _ z less.prems(4)] by simp
  qed
qed

lemma chain_sub: "cand d \<Longrightarrow> x \<in> dom d \<Longrightarrow> y \<in> chain d x \<Longrightarrow> chain d y \<subseteq> chain d x"
proof -
  have "anc d x y \<Longrightarrow> anc d y z \<Longrightarrow> anc d x z" for z
    by (induction rule: anc.induct) (auto intro: anc_up)
  then show "y \<in> chain d x \<Longrightarrow> chain d y \<subseteq> chain d x" by (auto simp: chain_def)
qed

lemma chain_inj: "cand d \<Longrightarrow> x \<in> dom d \<Longrightarrow> y \<in> dom d \<Longrightarrow> chain d x = chain d y \<Longrightarrow> x = y"
  by (metis chain_props(3) chain_self le_antisym)

text \<open>Giving the node \<open>b\<close> the candidate \<open>n\<close>: chains of smaller nodes do not change.\<close>

lemma chain_below:
  assumes "cand d" "x \<in> dom d" "num x < num b"
  shows "chain (d(b \<mapsto> n)) x = chain d x"
  using assms(2,3)
proof (induction "num x" arbitrary: x rule: less_induct)
  case less
  show ?case
  proof (cases "x = 0")
    case False
    obtain c where c: "d x = Some c" "c \<in> dom d" "num c < num x" using cand_step [OF assms(1) less.prems(1) False] .
    have "(d(b \<mapsto> n)) x = Some c" using c(1) less.prems(2) by auto
    then have "chain (d(b \<mapsto> n)) x = insert x (chain (d(b \<mapsto> n)) c)" "chain d x = insert x (chain d c)"
      using False c(1) by (simp_all add: chain_up)
    then show ?thesis using less.hyps [OF c(3,2)] c(3) less.prems(2) by simp
  qed simp
qed

lemma cand_update:
  assumes "cand d" "reaches E b" "b \<noteq> 0" "n \<in> dom d" "num n < num b"
  shows "cand (d(b \<mapsto> n))" "chain (d(b \<mapsto> n)) b = insert b (chain d n)"
proof -
  show "cand (d(b \<mapsto> n))" using assms unfolding cand_def by (auto simp: dom_def)
  have "chain (d(b \<mapsto> n)) b = insert b (chain (d(b \<mapsto> n)) n)" using assms(3) by (intro chain_up) simp_all
  then show "chain (d(b \<mapsto> n)) b = insert b (chain d n)" using chain_below [OF assms(1,4,5)] by simp
qed

text \<open>The processed predecessors of a node and what a step computes from them.\<close>

definition preds :: "(nat \<rightharpoonup> nat) \<Rightarrow> nat \<Rightarrow> nat set" where
  "preds d b = {j \<in> dom d. E j b}"

definition meets :: "(nat \<rightharpoonup> nat) \<Rightarrow> nat \<Rightarrow> nat \<Rightarrow> bool" where
  "meets d b n \<longleftrightarrow> n \<in> dom d \<and> chain d n = (\<Inter>j\<in>preds d b. chain d j)"

lemma meets_below:
  assumes "cand d" "meets d b n" "j \<in> preds d b" "num j < num b"
  shows "num n < num b"
proof -
  have "n \<in> chain d j" using assms(2,3) chain_self [of n d] by (auto simp: meets_def)
  then show ?thesis using chain_props(3) [OF assms(1)] assms(3,4) by (fastforce simp: preds_def)
qed

text \<open>Chains never lose a dominator.\<close>

definition keeps_dominators :: "(nat \<rightharpoonup> nat) \<Rightarrow> bool" where
  "keeps_dominators d \<longleftrightarrow> (\<forall>x c z. d x = Some c \<longrightarrow> x \<noteq> 0 \<longrightarrow> dominates E z x \<longrightarrow> z \<noteq> x \<longrightarrow> dominates E z c)"

lemma dominators_in_chain:
  assumes "cand d" "keeps_dominators d" "j \<in> dom d" "dominates E z j"
  shows "z \<in> chain d j" "y \<in> chain d j \<Longrightarrow> num z \<le> num y \<Longrightarrow> dominates E z y"
proof -
  have "z \<in> chain d j \<and> (\<forall>y\<in>chain d j. num z \<le> num y \<longrightarrow> dominates E z y)"
    using assms(3,4)
  proof (induction "num j" arbitrary: j rule: less_induct)
    case less
    show ?case
    proof (cases "z = j")
      case True
      then show ?thesis using chain_props(3) [OF assms(1) less.prems(1)] dominates_refl by fastforce
    next
      case False
      then have j: "j \<noteq> 0" using dominates_root [of E z] less.prems(2) by (cases "j = 0") simp_all
      obtain c where c: "d j = Some c" "c \<in> dom d" "num c < num j" using cand_step [OF assms(1) less.prems(1) j] .
      have "dominates E z c" using assms(2) c(1) j less.prems(2) False by (auto simp: keeps_dominators_def)
      from less.hyps [OF c(3,2) this] show ?thesis using chain_up [of j d, OF j c(1)] less.prems(2) by auto
    qed
  qed
  then show "z \<in> chain d j" "y \<in> chain d j \<Longrightarrow> num z \<le> num y \<Longrightarrow> dominates E z y" by auto
qed

lemma keeps_dominators_update:
  assumes "cand d" "keeps_dominators d" "meets d b n" "preds d b \<noteq> {}"
  shows "keeps_dominators (d(b \<mapsto> n))"
proof -
  have "dominates E z n" if z: "dominates E z b" "z \<noteq> b" for z
  proof -
    have p: "dominates E z j" "j \<in> dom d" if "j \<in> preds d b" for j
      using that dominates_pred [OF z] by (auto simp: preds_def)
    then have "z \<in> chain d j" if "j \<in> preds d b" for j using dominators_in_chain(1) [OF assms(1,2)] that by blast
    then have zn: "z \<in> chain d n" using assms(3) by (auto simp: meets_def)
    have "n \<in> dom d" using assms(3) by (simp add: meets_def)
    then have le: "num z \<le> num n" using chain_props(3) [OF assms(1) _ zn] by blast
    obtain j where j: "j \<in> preds d b" using assms(4) by blast
    then have "n \<in> chain d j" using assms(3) chain_self [of n d] by (auto simp: meets_def)
    then show ?thesis using dominators_in_chain(2) [OF assms(1,2) p(2,1) [OF j]] le by blast
  qed
  then show ?thesis using assms(2) by (auto simp: keeps_dominators_def)
qed

section \<open>A pass\<close>

text \<open>
  Between two passes: along a forward edge chains are nested, and what all predecessors have in their
  chains is in the chain of the node.
\<close>

definition nested :: "(nat \<rightharpoonup> nat) \<Rightarrow> nat \<Rightarrow> bool" where
  "nested d x \<longleftrightarrow> (\<forall>j\<in>preds d x. num j < num x \<longrightarrow> chain d x - {x} \<subseteq> chain d j)"

definition settled :: "(nat \<rightharpoonup> nat) \<Rightarrow> bool" where
  "settled d \<longleftrightarrow> cand d \<and> keeps_dominators d \<and> dom d = {b. reaches E b} \<and>
     (\<forall>x. reaches E x \<longrightarrow> x \<noteq> 0 \<longrightarrow> nested d x \<and> (\<Inter>j\<in>preds d x. chain d j) \<subseteq> chain d x)"

text \<open>The highest node below \<open>i\<close> on the chain of \<open>j\<close>.\<close>

definition top_below :: "(nat \<rightharpoonup> nat) \<Rightarrow> nat \<Rightarrow> nat \<Rightarrow> nat \<Rightarrow> bool" where
  "top_below p j i a \<longleftrightarrow> a \<in> chain p j \<and> num a < i \<and> (\<forall>z\<in>chain p j. num z < i \<longrightarrow> num z \<le> num a)"

text \<open>
  In a pass that started from \<open>p\<close> and has processed the numbers below \<open>i\<close>: chains below \<open>i\<close> are nested, have
  only shrunk, and contain what the predecessors showed when the node was processed.
\<close>

definition handled :: "(nat \<rightharpoonup> nat) \<Rightarrow> (nat \<rightharpoonup> nat) \<Rightarrow> nat \<Rightarrow> bool" where
  "handled p d x \<longleftrightarrow> chain d x \<subseteq> chain p x \<and> (x \<noteq> 0 \<longrightarrow> nested d x \<and>
     (\<forall>y. (\<forall>j\<in>preds d x. num j < num x \<longrightarrow> y \<in> chain d j) \<longrightarrow>
          (\<forall>j\<in>preds d x. num x \<le> num j \<longrightarrow> (\<exists>a. top_below p j (num x) a \<and> y \<in> chain d a)) \<longrightarrow> y \<in> chain d x))"

definition in_pass :: "(nat \<rightharpoonup> nat) \<Rightarrow> (nat \<rightharpoonup> nat) \<Rightarrow> nat \<Rightarrow> bool" where
  "in_pass p d i \<longleftrightarrow> settled p \<and> cand d \<and> keeps_dominators d \<and> dom d = {b. reaches E b} \<and>
     (\<forall>x. reaches E x \<longrightarrow> i \<le> num x \<longrightarrow> d x = p x) \<and> (\<forall>x. reaches E x \<longrightarrow> num x < i \<longrightarrow> handled p d x)"

lemma preds_reaches: "dom d = {b. reaches E b} \<Longrightarrow> preds d x = {j. reaches E j \<and> E j x}"
  by (auto simp: preds_def)

lemma num_zero: "reaches E x \<Longrightarrow> num x = 0 \<Longrightarrow> x = 0"
  using num_inj [of x 0] reaches_root num_root by metis

lemma in_pass_start: "settled p \<Longrightarrow> in_pass p p 1"
  unfolding in_pass_def handled_def using num_zero by (auto simp: settled_def)

lemma top_below_exists:
  assumes "in_pass p d i" "reaches E j" "i \<le> num j" "0 < i"
  shows "\<exists>a. top_below p j i a \<and> reaches E a \<and> (\<forall>y. num y < i \<longrightarrow> (y \<in> chain d j \<longleftrightarrow> y \<in> chain d a))"
  using assms(2,3)
proof (induction "num j" arbitrary: j rule: less_induct)
  case less
  have p: "settled p" "cand p" "dom p = {b. reaches E b}" and d: "d j = p j"
    using assms(1) less.prems by (auto simp: in_pass_def settled_def)
  have j: "j \<noteq> 0" using less.prems(2) assms(4) num_root by (cases "j = 0") simp_all
  obtain c where c: "p j = Some c" "c \<in> dom p" "num c < num j" using cand_step [OF p(2) _ j] less.prems(1) p(3) by blast
  have rc: "reaches E c" using c(2) p(3) by auto
  have up: "chain p j = insert j (chain p c)" "chain d j = insert j (chain d c)"
    using chain_up [of j p, OF j c(1)] chain_up [of j d c, OF j] c(1) d by simp_all
  show ?case
  proof (cases "num c < i")
    case True
    have "top_below p j i c"
      unfolding top_below_def up using True less.prems(2) chain_props(3) [OF p(2) c(2)] by auto
    then show ?thesis using rc up(2) less.prems(2) by (intro exI [of _ c]) auto
  next
    case False
    then obtain a where a: "top_below p c i a" "reaches E a" "\<forall>y. num y < i \<longrightarrow> (y \<in> chain d c \<longleftrightarrow> y \<in> chain d a)"
      using less.hyps [OF c(3) rc] by auto
    have "top_below p j i a" using a(1) less.prems(2) by (auto simp: top_below_def up)
    then show ?thesis using a(2,3) up(2) less.prems(2) by (intro exI [of _ a]) auto
  qed
qed

text \<open>A chain node lies on every forward walk: other chain nodes below it are found by following one.\<close>

lemma follow_forward:
  assumes p: "cand p" "dom p = {b. reaches E b}" "\<And>x. reaches E x \<Longrightarrow> x \<noteq> 0 \<Longrightarrow> nested p x"
    and d: "cand d" "dom d = {b. reaches E b}" "\<And>x. reaches E x \<Longrightarrow> x \<noteq> 0 \<Longrightarrow> nested d x"
    and "reaches E j" "a \<in> chain p j" "y \<in> chain d j" "num y \<le> num a"
  shows "y \<in> chain d a"
  using assms(7-10)
proof (induction "num j" arbitrary: j rule: less_induct)
  case less
  show ?case
  proof (cases "a = j \<or> j = 0")
    case True
    then show ?thesis using less.prems by auto
  next
    case False
    then have j: "j \<noteq> 0" "a \<noteq> j" by auto
    obtain k where k: "reaches E k" "E k j" "num k < num j" using forward_pred [OF less.prems(1) j(1)] by blast
    then have kp: "k \<in> preds p j" "k \<in> preds d j" using p(2) d(2) by (auto simp: preds_def)
    have "a \<in> chain p k" using p(3) [OF less.prems(1) j(1)] kp(1) k(3) less.prems(2) j(2) by (auto simp: nested_def)
    moreover have "num a < num j" using chain_props(3) [OF p(1) _ less.prems(2)] p(2) less.prems(1) j(2) by fastforce
    then have "y \<noteq> j" using less.prems(4) by auto
    then have "y \<in> chain d k" using d(3) [OF less.prems(1) j(1)] kp(2) k(3) less.prems(3) by (auto simp: nested_def)
    ultimately show ?thesis using less.hyps [OF k(3,1)] less.prems(4) by blast
  qed
qed

lemma handled_update:
  assumes "cand d" "dom d = {b. reaches E b}" "cand p" "dom p = {b. reaches E b}" "reaches E b" "b \<noteq> 0" "n \<in> dom d"
    "num x < num b" "reaches E x" "handled p d x"
  shows "handled p (d(b \<mapsto> n)) x"
proof -
  let ?d = "d(b \<mapsto> n)"
  have same: "chain ?d y = chain d y" if "reaches E y" "num y \<le> num x" for y
    using chain_below [OF assms(1), of y b n] that assms(2,8) by auto
  have pr: "preds ?d x = preds d x" using assms(2,5) by (auto simp: preds_def)
  have top: "reaches E a" if "top_below p j i a" "reaches E j" for j i a
    using that chain_props(2) [OF assms(3), of j] assms(4) by (auto simp: top_below_def)
  have r: "reaches E j" if "j \<in> preds d x" for j using that assms(2) by (auto simp: preds_def)
  have "chain ?d a = chain d a" if "top_below p j (num x) a" "j \<in> preds d x" for j a
    using same [of a] top that r by (auto simp: top_below_def)
  moreover have "chain ?d j = chain d j" if "j \<in> preds d x" "num j < num x" for j using same that r by simp
  moreover have "chain ?d x = chain d x" using same assms(9) by simp
  ultimately show ?thesis using assms(10) unfolding handled_def nested_def pr by (metis (no_types, lifting))
qed

lemma in_pass_step:
  assumes "in_pass p d i" "reaches E b" "b \<noteq> 0" "num b = i" "meets d b n"
  shows "in_pass p (d(b \<mapsto> n)) (Suc i)"
proof -
  let ?d = "d(b \<mapsto> n)"
  have p: "settled p" "cand p" "dom p = {b. reaches E b}" and d: "cand d" "keeps_dominators d" "dom d = {b. reaches E b}"
    and old: "\<And>x. reaches E x \<Longrightarrow> i \<le> num x \<Longrightarrow> d x = p x" and hd: "\<And>x. reaches E x \<Longrightarrow> num x < i \<Longrightarrow> handled p d x"
    using assms(1) by (auto simp: in_pass_def settled_def)
  have i0: "0 < i" using assms(2,3,4) num_zero by fastforce
  obtain f where f: "f \<in> preds d b" "num f < i" "reaches E f"
    using forward_pred [OF assms(2,3)] assms(4) d(3) by (auto simp: preds_def)
  have n: "num n < num b" "n \<in> dom d" and meet: "chain d n = (\<Inter>j\<in>preds d b. chain d j)"
    using meets_below [OF d(1) assms(5) f(1)] f(2) assms(4,5) by (auto simp: meets_def)
  note cu = cand_update [OF d(1) assms(2,3) n(2,1)]
  have below: "chain ?d x = chain d x" if "reaches E x" "num x < i" for x
    using chain_below [OF d(1), of x b n] that d(3) assms(4) by auto
  have small: "num y < i" if "y \<in> chain d n" for y
    using that n chain_props(3) [OF d(1) n(2)] assms(4) by fastforce
  have pr: "preds ?d b = preds d b" "preds p b = preds d b" using assms(2) d(3) p(3) by (auto simp: preds_def)
  have rj: "reaches E j" if "j \<in> preds d b" for j using that d(3) by (auto simp: preds_def)
  have "handled p ?d b"
    unfolding handled_def
  proof (intro conjI impI allI)
    show "nested ?d b" using cu(2) meet pr(1) below rj assms(4) by (auto simp: nested_def)
    have "y \<in> chain p j" if y: "y \<in> chain d n" and j: "j \<in> preds d b" for y j
    proof (cases "num j < i")
      case True
      then show ?thesis using hd [OF rj [OF j]] y j meet by (auto simp: handled_def)
    next
      case False
      then obtain a where a: "top_below p j i a" "reaches E a" "y \<in> chain d j \<longleftrightarrow> y \<in> chain d a"
        using top_below_exists [OF assms(1) rj [OF j] _ i0] small [OF y] by (metis not_le)
      have "y \<in> chain p a" using hd [OF a(2)] a y j meet by (auto simp: handled_def top_below_def)
      then show ?thesis using chain_sub [OF p(2), of j a] rj [OF j] p(3) a(1) by (auto simp: top_below_def)
    qed
    then have "chain d n \<subseteq> (\<Inter>j\<in>preds p b. chain p j)" by (auto simp: pr)
    also have "\<dots> \<subseteq> chain p b" using p(1) assms(2,3) by (auto simp: settled_def)
    finally show "chain ?d b \<subseteq> chain p b" using cu(2) by auto
  next
    fix y assume fwd: "\<forall>j\<in>preds ?d b. num j < num b \<longrightarrow> y \<in> chain ?d j"
      and retr: "\<forall>j\<in>preds ?d b. num b \<le> num j \<longrightarrow> (\<exists>a. top_below p j (num b) a \<and> y \<in> chain ?d a)"
    have yi: "num y < i"
      using fwd f pr below [OF f(3)] chain_props(3) [OF d(1), of f y] d(3) assms(4) by fastforce
    have "y \<in> chain d j" if j: "j \<in> preds d b" for j
    proof (cases "num j < i")
      case True
      then show ?thesis using fwd j pr below [OF rj [OF j]] assms(4) by auto
    next
      case False
      obtain a where a: "top_below p j i a" "reaches E a" "y \<in> chain d j \<longleftrightarrow> y \<in> chain d a"
        using top_below_exists [OF assms(1) rj [OF j] _ i0] False yi by (metis not_le)
      obtain a' where a': "top_below p j i a'" "y \<in> chain ?d a'" using retr j pr False assms(4) by auto
      have ra': "reaches E a'" using a'(1) chain_props(2) [OF p(2), of j] rj [OF j] p(3) by (auto simp: top_below_def)
      have "num a' = num a" using a(1) a'(1) by (auto simp: top_below_def intro: le_antisym)
      then have "a' = a" using num_inj ra' a(2) by blast
      then show ?thesis using a a' below [OF a(2)] by (auto simp: top_below_def)
    qed
    then show "y \<in> chain ?d b" using cu(2) meet by auto
  qed
  moreover have "handled p ?d x" if "reaches E x" "num x < i" for x
    using handled_update [OF d(1,3) p(2,3) assms(2,3) n(2)] that hd assms(4) by blast
  moreover have "?d x = p x" if "reaches E x" "Suc i \<le> num x" for x using old that assms(4) by auto
  moreover have "keeps_dominators ?d" using keeps_dominators_update [OF d(1,2) assms(5)] f(1) by blast
  moreover have "dom ?d = {b. reaches E b}" using d(3) assms(2) by auto
  ultimately show ?thesis
    unfolding in_pass_def using p(1) cu(1) num_inj [OF _ assms(2)] assms(4) by (auto simp: less_Suc_eq)
qed

lemma in_pass_end:
  assumes "in_pass p d i" "\<And>x. reaches E x \<Longrightarrow> num x < i"
  shows "settled d" "\<And>x. reaches E x \<Longrightarrow> chain d x \<subseteq> chain p x"
proof -
  have p: "settled p" "cand p" "dom p = {b. reaches E b}" and d: "cand d" "keeps_dominators d" "dom d = {b. reaches E b}"
    and hd: "\<And>x. reaches E x \<Longrightarrow> handled p d x"
    using assms by (auto simp: in_pass_def settled_def)
  show sub: "chain d x \<subseteq> chain p x" if "reaches E x" for x using hd [OF that] by (simp add: handled_def)
  have nest: "nested d x" "nested p x" if "reaches E x" "x \<noteq> 0" for x
    using hd [OF that(1)] that p(1) by (auto simp: handled_def settled_def)
  have "y \<in> chain d x" if x: "reaches E x" "x \<noteq> 0" and y: "\<And>j. j \<in> preds d x \<Longrightarrow> y \<in> chain d j" for x y
  proof -
    obtain f where f: "f \<in> preds d x" "num f < num x" "reaches E f" using forward_pred [OF x] d(3) by (auto simp: preds_def)
    have yx: "num y < num x" using y [OF f(1)] chain_props(3) [OF d(1), of f y] f d(3) by fastforce
    have "\<exists>a. top_below p j (num x) a \<and> y \<in> chain d a" if j: "j \<in> preds d x" "num x \<le> num j" for j
    proof -
      have rj: "reaches E j" using j(1) d(3) by (auto simp: preds_def)
      have "in_pass p p 1" using in_pass_start [OF p(1)] .
      have "\<exists>a. top_below p j (num x) a"
      proof -
        define S where "S = {z \<in> chain p j. num z < num x}"
        have "0 \<in> S" using chain_props(1) [OF p(2)] rj p(3) yx num_root by (auto simp: S_def)
        moreover have "finite S" using finite_subset [OF _ finite_nodes, of S] chain_props(2) [OF p(2), of j] rj p(3) by (auto simp: S_def)
        ultimately have "Max (num ` S) \<in> num ` S" "\<forall>z\<in>S. num z \<le> Max (num ` S)" by (auto intro!: Max_in)
        then show ?thesis unfolding top_below_def S_def by fastforce
      qed
      then obtain a where a: "top_below p j (num x) a" by blast
      have "y \<in> chain p j" using sub [OF rj] y [OF j(1)] by blast
      then have "num y \<le> num a" using a yx by (auto simp: top_below_def)
      then have "y \<in> chain d a"
        using follow_forward [OF p(2,3) nest(2) d(1,3) nest(1) rj _ y [OF j(1)]] a by (auto simp: top_below_def)
      then show ?thesis using a by blast
    qed
    then show ?thesis using hd [OF x(1)] x(2) y by (auto simp: handled_def)
  qed
  then show "settled d" using d nest by (auto simp: settled_def)
qed

text \<open>How far the candidates are from the root: no pass raises it and a pass that changes a candidate lowers it.\<close>

definition height :: "(nat \<rightharpoonup> nat) \<Rightarrow> nat" where
  "height d = (\<Sum>x\<in>{b. reaches E b}. num (the (d x)))"

lemma in_pass_height:
  assumes "in_pass p d i" "\<And>x. reaches E x \<Longrightarrow> num x < i" "d \<noteq> p"
  shows "height d < height p"
proof -
  have p: "cand p" "dom p = {b. reaches E b}" and d: "cand d" "dom d = {b. reaches E b}"
    using assms(1) by (auto simp: in_pass_def settled_def)
  have le: "num (the (d x)) \<le> num (the (p x)) \<and> (num (the (d x)) = num (the (p x)) \<longrightarrow> d x = p x)" if x: "reaches E x" for x
  proof (cases "x = 0")
    case True
    then show ?thesis using p(1) d(1) by (simp add: cand_def)
  next
    case False
    obtain c where c: "d x = Some c" "c \<in> dom d" "num c < num x" using cand_step [OF d(1) _ False] x d(2) by blast
    obtain e where e: "p x = Some e" "e \<in> dom p" "num e < num x" using cand_step [OF p(1) _ False] x p(2) by blast
    have "c \<in> chain p x" using in_pass_end(2) [OF assms(1,2) x] chain_up [of x d, OF False c(1)] by auto
    then have "c \<in> chain p e" using chain_up [of x p, OF False e(1)] c(3) by auto
    then show ?thesis using chain_props(3) [OF p(1) e(2)] c(1) e(1) by auto
  qed
  obtain x where x: "d x \<noteq> p x" using assms(3) by blast
  then have "reaches E x" using p(2) d(2) by (metis domIff mem_Collect_eq)
  then show ?thesis unfolding height_def
    using le x by (intro sum_strict_mono_ex1 [OF finite_nodes]) (auto intro!: bexI [of _ x] simp: le_less)
qed

section \<open>The first pass\<close>

definition first_pass :: "(nat \<rightharpoonup> nat) \<Rightarrow> nat \<Rightarrow> bool" where
  "first_pass d i \<longleftrightarrow> cand d \<and> keeps_dominators d \<and> dom d = {b. reaches E b \<and> num b < i} \<and>
     (\<forall>x\<in>dom d. x \<noteq> 0 \<longrightarrow> chain d x = insert x (\<Inter>j\<in>{j. reaches E j \<and> E j x \<and> num j < num x}. chain d j))"

lemma first_pass_start: "first_pass [0 \<mapsto> 0] 1"
proof -
  have "{b. reaches E b \<and> num b < 1} = {0}" using num_zero num_root reaches_root by auto
  then show ?thesis by (auto simp: first_pass_def cand_def keeps_dominators_def reaches_root split: if_split_asm)
qed

lemma first_pass_step:
  assumes "first_pass d i" "reaches E b" "b \<noteq> 0" "num b = i" "meets d b n"
  shows "first_pass (d(b \<mapsto> n)) (Suc i)"
proof -
  let ?d = "d(b \<mapsto> n)"
  have d: "cand d" "keeps_dominators d" "dom d = {b. reaches E b \<and> num b < i}"
    and ch: "\<And>x. x \<in> dom d \<Longrightarrow> x \<noteq> 0 \<Longrightarrow> chain d x = insert x (\<Inter>j\<in>{j. reaches E j \<and> E j x \<and> num j < num x}. chain d j)"
    using assms(1) by (auto simp: first_pass_def)
  have pr: "preds d b = {j. reaches E j \<and> E j b \<and> num j < num b}" using d(3) assms(4) by (auto simp: preds_def)
  obtain f where f: "f \<in> preds d b" using forward_pred [OF assms(2,3)] pr by auto
  have n: "num n < num b" "n \<in> dom d" and meet: "chain d n = (\<Inter>j\<in>preds d b. chain d j)"
    using meets_below [OF d(1) assms(5) f] f pr assms(5) by (auto simp: meets_def)
  note cu = cand_update [OF d(1) assms(2,3) n(2,1)]
  have below: "chain ?d x = chain d x" if "reaches E x" "num x < i" for x
    using chain_below [OF d(1), of x b n] that d(3) assms(4) by auto
  have "reaches E x \<and> num x = i \<longleftrightarrow> x = b" for x
  proof
    show "reaches E x \<and> num x = i \<Longrightarrow> x = b" using num_inj [of x b] assms(2,4) by simp
    show "x = b \<Longrightarrow> reaches E x \<and> num x = i" using assms(2,4) by simp
  qed
  then have "{x. reaches E x \<and> num x = i} = {b}" by (simp only: singleton_conv)
  then have "{x. reaches E x \<and> num x < Suc i} = insert b (dom d)" unfolding d(3) less_Suc_eq by blast
  then have dm: "dom ?d = {x. reaches E x \<and> num x < Suc i}" by simp
  have "chain ?d x = insert x (\<Inter>j\<in>{j. reaches E j \<and> E j x \<and> num j < num x}. chain ?d j)" if x: "x \<in> dom ?d" "x \<noteq> 0" for x
  proof (cases "x = b")
    case True
    then show ?thesis using cu(2) meet pr below assms(4) by auto
  next
    case False
    then have "x \<in> dom d" "num x < i" "reaches E x" using x(1) d(3) by auto
    then show ?thesis using ch [OF _ x(2)] below by auto
  qed
  then show ?thesis
    unfolding first_pass_def using cu(1) dm keeps_dominators_update [OF d(1,2) assms(5)] f by blast
qed

lemma first_pass_end:
  assumes "first_pass d i" "\<And>x. reaches E x \<Longrightarrow> num x < i"
  shows "settled d"
proof -
  have d: "cand d" "keeps_dominators d" "dom d = {b. reaches E b}"
    and ch: "\<And>x. reaches E x \<Longrightarrow> x \<noteq> 0 \<Longrightarrow> chain d x = insert x (\<Inter>j\<in>{j. reaches E j \<and> E j x \<and> num j < num x}. chain d j)"
    using assms by (auto simp: first_pass_def)
  have "nested d x \<and> (\<Inter>j\<in>preds d x. chain d j) \<subseteq> chain d x" if x: "reaches E x" "x \<noteq> 0" for x
    unfolding nested_def preds_reaches [OF d(3)] ch [OF x] by auto
  then show ?thesis using d by (simp add: settled_def)
qed

section \<open>The fixpoint\<close>

lemma fixpoint_exact:
  assumes "settled d" "\<And>b. reaches E b \<Longrightarrow> b \<noteq> 0 \<Longrightarrow> meets d b (the (d b))" "reaches E b"
  shows "chain d b = {a. dominates E a b}"
proof -
  have d: "cand d" "keeps_dominators d" "dom d = {b. reaches E b}" using assms(1) by (auto simp: settled_def)
  have "walk E qs \<Longrightarrow> chain d (hd qs) \<subseteq> set qs" for qs
  proof (induction rule: walk.induct)
    case (walk_edge j ps b)
    have r: "reaches E j" "reaches E b" using walk_edge by (auto simp: reaches_def intro: walk.walk_edge)
    show ?case
    proof (cases "b = 0")
      case False
      obtain c where c: "d b = Some c" using cand_step [OF d(1) _ False] r(2) d(3) by blast
      have "chain d c \<subseteq> chain d j" using assms(2) [OF r(2) False] c r(1) walk_edge.hyps(2) d(3) by (auto simp: meets_def preds_def)
      then show ?thesis using walk_edge.IH chain_up [of b d, OF False c] by auto
    qed simp
  qed simp
  then have "chain d b \<subseteq> {a. dominates E a b}" by (force simp: dominates_def)
  moreover have "{a. dominates E a b} \<subseteq> chain d b" using dominators_in_chain(1) [OF d(1,2)] assms(3) d(3) by auto
  ultimately show ?thesis by blast
qed

lemma fixpoint_idom:
  assumes "settled d" "\<And>b. reaches E b \<Longrightarrow> b \<noteq> 0 \<Longrightarrow> meets d b (the (d b))" "reaches E b" "b \<noteq> 0" "d b = Some c"
  shows "immediate_dominator E c b"
proof -
  have d: "cand d" "keeps_dominators d" using assms(1) by (auto simp: settled_def)
  have "c \<in> chain d b" using chain_up [of b d, OF assms(4,5)] by simp
  then have "dominates E c b" using fixpoint_exact [OF assms(1-3)] by simp
  moreover have "c \<noteq> b" using d(1) assms(4,5) by (auto simp: cand_def)
  ultimately show ?thesis using d(2) assms(4,5) by (auto simp: immediate_dominator_def keeps_dominators_def)
qed

end

end
