(* ===== verification/Ir_Dom.thy ===== *)
theory Ir_Dom
  imports Ir_Model Dominance
begin

text \<open>
  src/src/ir/dom.c: the dominator tree. Block indices are block ids minus 1; the sentinels IDOM_NONE and
  RPO_NONE are \<open>None\<close>. The loops are partial functions: \<open>None\<close> is a loop that never ends, or an array read
  outside its bounds, and the theorems show that neither happens.
\<close>

section \<open>Depth-first search\<close>

record ir_domtree =
  dt_nblocks :: nat
  dt_entry :: nat
  dt_idom :: "nat option list"
  dt_rpo :: "nat option list"

text \<open>The next valid edge after a cursor: the instructions from the current one on and the position of the edge.\<close>

function next_edge :: "nat \<Rightarrow> ir_inst list \<Rightarrow> nat \<Rightarrow> nat option \<times> ir_inst list \<times> nat" where
  "next_edge n [] k = (None, [], k)"
| "next_edge n (i # is) k =
     (if k < length (ii_edges i) then
        (let t = ed_target (ii_edges i ! k) in
         if t = 0 \<or> t > n then next_edge n (i # is) (k + 1) else (Some (t - 1), i # is, k + 1))
      else next_edge n is 0)"
  by pat_completeness auto
termination
  by (relation "measures [\<lambda>(n, is, k). length is, \<lambda>(n, is, k). case is of [] \<Rightarrow> 0 | i # _ \<Rightarrow> length (ii_edges i) - k]") auto

type_synonym dfs_frame = "nat \<times> ir_inst list \<times> nat"

partial_function (option) dfs_loop :: "ir_func \<Rightarrow> dfs_frame list \<Rightarrow> bool list \<Rightarrow> nat list \<Rightarrow> nat list option" where
  "dfs_loop f stack seen post =
     (case stack of
        [] \<Rightarrow> Some post
      | (b, is, k) # rest \<Rightarrow>
          (case next_edge (length (if_blocks f)) is k of
             (None, _, _) \<Rightarrow> dfs_loop f rest seen (post @ [b])
           | (Some s, is', k') \<Rightarrow>
               if \<not> seen ! s then
                 dfs_loop f ((s, ib_insts (if_blocks f ! s), 0) # (b, is', k') # rest) (seen[s := True]) post
               else dfs_loop f ((b, is', k') # rest) seen post))"

definition dfs :: "ir_func \<Rightarrow> nat list option" where
  "dfs f = dfs_loop f [(0, ib_insts (if_blocks f ! 0), 0)] ((replicate (length (if_blocks f)) False)[0 := True]) []"

definition rpo_numbers :: "nat \<Rightarrow> nat list \<Rightarrow> nat option list" where
  "rpo_numbers n post = foldl (\<lambda>r i. r[post ! i := Some (length post - 1 - i)]) (replicate n None) [0..<length post]"

section \<open>Cooper, Harvey, Kennedy\<close>

definition is_pred :: "ir_func \<Rightarrow> nat \<Rightarrow> nat \<Rightarrow> bool" where
  "is_pred f j b = list_ex (\<lambda>i. list_ex (\<lambda>e. ed_target e = b + 1) (ii_edges i)) (ib_insts (if_blocks f ! j))"

text \<open>The comparison of two numbers; RPO_NONE is the largest 32-bit number.\<close>

definition rpo_val :: "nat option list \<Rightarrow> nat \<Rightarrow> nat" where
  "rpo_val rpo b = (case rpo ! b of None \<Rightarrow> 0xFFFFFFFF | Some k \<Rightarrow> k)"

partial_function (option) climb :: "nat option list \<Rightarrow> nat option list \<Rightarrow> nat \<Rightarrow> nat \<Rightarrow> nat option" where
  "climb rpo idom x y =
     (if rpo_val rpo x > rpo_val rpo y then (case idom ! x of None \<Rightarrow> None | Some x' \<Rightarrow> climb rpo idom x' y) else Some x)"

partial_function (option) intersect :: "nat option list \<Rightarrow> nat option list \<Rightarrow> nat \<Rightarrow> nat \<Rightarrow> nat option" where
  "intersect rpo idom f1 f2 =
     (if f1 = f2 then Some f1
      else
        (case climb rpo idom f1 f2 of
           None \<Rightarrow> None
         | Some f1' \<Rightarrow>
             (case climb rpo idom f2 f1' of None \<Rightarrow> None | Some f2' \<Rightarrow> intersect rpo idom f1' f2')))"

fun pred_loop :: "ir_func \<Rightarrow> nat option list \<Rightarrow> nat option list \<Rightarrow> nat \<Rightarrow> nat list \<Rightarrow> nat option \<Rightarrow> nat option option" where
  "pred_loop f rpo idom b [] new_idom = Some new_idom"
| "pred_loop f rpo idom b (j # js) new_idom =
     (if rpo ! j = None \<or> idom ! j = None then pred_loop f rpo idom b js new_idom
      else if \<not> is_pred f j b then pred_loop f rpo idom b js new_idom
      else
        (case new_idom of
           None \<Rightarrow> pred_loop f rpo idom b js (Some j)
         | Some a \<Rightarrow>
             (case intersect rpo idom a j of None \<Rightarrow> None | Some x \<Rightarrow> pred_loop f rpo idom b js (Some x))))"

fun pass_loop :: "ir_func \<Rightarrow> nat option list \<Rightarrow> nat list \<Rightarrow> nat option list \<Rightarrow> bool \<Rightarrow> (nat option list \<times> bool) option" where
  "pass_loop f rpo [] idom changed = Some (idom, changed)"
| "pass_loop f rpo (b # bs) idom changed =
     (if b = 0 then pass_loop f rpo bs idom changed
      else
        (case pred_loop f rpo idom b [0..<length (if_blocks f)] None of
           None \<Rightarrow> None
         | Some new_idom \<Rightarrow>
             if new_idom \<noteq> None \<and> idom ! b \<noteq> new_idom then pass_loop f rpo bs (idom[b := new_idom]) True
             else pass_loop f rpo bs idom changed))"

partial_function (option) fix_loop :: "ir_func \<Rightarrow> nat option list \<Rightarrow> nat list \<Rightarrow> nat option list \<Rightarrow> nat option list option" where
  "fix_loop f rpo post idom =
     (case pass_loop f rpo (rev post) idom False of
        None \<Rightarrow> None
      | Some (idom', changed) \<Rightarrow> if changed then fix_loop f rpo post idom' else Some idom')"

definition ir_domtree_build :: "ir_func \<Rightarrow> ir_domtree option" where
  "ir_domtree_build f =
     (let n = length (if_blocks f) in
      if n = 0 then Some \<lparr>dt_nblocks = 0, dt_entry = 0, dt_idom = [], dt_rpo = []\<rparr>
      else
        (case dfs f of
           None \<Rightarrow> None
         | Some post \<Rightarrow>
             (let rpo = rpo_numbers n post in
              case fix_loop f rpo post ((replicate n None)[0 := Some 0]) of
                None \<Rightarrow> None
              | Some idom \<Rightarrow> Some \<lparr>dt_nblocks = n, dt_entry = 0, dt_idom = idom[0 := None], dt_rpo = rpo\<rparr>)))"

section \<open>Queries\<close>

definition ir_idom :: "ir_domtree \<Rightarrow> nat \<Rightarrow> nat" where
  "ir_idom t b =
     (if b = 0 \<or> b > dt_nblocks t then 0
      else (case dt_idom t ! (b - 1) of None \<Rightarrow> 0 | Some c \<Rightarrow> c + 1))"

partial_function (option) dominates_loop :: "ir_domtree \<Rightarrow> nat \<Rightarrow> nat \<Rightarrow> bool option" where
  "dominates_loop t a cur =
     (case dt_idom t ! cur of
        None \<Rightarrow> Some False
      | Some c \<Rightarrow> if c = a - 1 then Some True else if c = dt_entry t then Some False else dominates_loop t a c)"

definition ir_dominates :: "ir_domtree \<Rightarrow> nat \<Rightarrow> nat \<Rightarrow> bool option" where
  "ir_dominates t a b =
     (if a = 0 \<or> b = 0 \<or> a > dt_nblocks t \<or> b > dt_nblocks t then Some False
      else if a = b then Some True
      else if dt_rpo t ! (b - 1) = None then Some False
      else dominates_loop t a (b - 1))"

section \<open>The depth-first search visits the reachable blocks\<close>

abbreviation nblocks :: "ir_func \<Rightarrow> nat" where
  "nblocks f \<equiv> length (if_blocks f)"

definition edge :: "ir_func \<Rightarrow> nat \<Rightarrow> nat \<Rightarrow> bool" where
  "edge f j b \<longleftrightarrow> j < nblocks f \<and> b < nblocks f \<and> is_pred f j b"

fun pending :: "ir_inst list \<Rightarrow> nat \<Rightarrow> nat list" where
  "pending [] k = []"
| "pending (i # is) k = drop k (map ed_target (ii_edges i)) @ concat (map (\<lambda>i. map ed_target (ii_edges i)) is)"

lemma pending_0: "pending is 0 = concat (map (\<lambda>i. map ed_target (ii_edges i)) is)"
  by (cases "is") simp_all

lemma pending_next: "length (ii_edges i) \<le> k \<Longrightarrow> pending (i # is) k = pending is 0"
  by (simp add: pending_0)

definition targets_left :: "nat \<Rightarrow> ir_inst list \<Rightarrow> nat \<Rightarrow> nat list" where
  "targets_left n is k = map (\<lambda>t. t - 1) (filter (\<lambda>t. t \<noteq> 0 \<and> t \<le> n) (pending is k))"

lemma next_edge_targets:
  "next_edge n is k = (r, is', k') \<Longrightarrow>
     (case r of None \<Rightarrow> targets_left n is k = [] | Some s \<Rightarrow> targets_left n is k = s # targets_left n is' k' \<and> s < n)"
proof (induction n "is" k rule: next_edge.induct)
  case (2 n i "is" k)
  show ?case
  proof (cases "k < length (ii_edges i)")
    case True
    have d: "drop k (map ed_target (ii_edges i)) = ed_target (ii_edges i ! k) # drop (k + 1) (map ed_target (ii_edges i))"
      using True Cons_nth_drop_Suc [of k "map ed_target (ii_edges i)"] by simp
    show ?thesis
    proof (cases "ed_target (ii_edges i ! k) = 0 \<or> ed_target (ii_edges i ! k) > n")
      case bad: True
      then have "next_edge n (i # is) (k + 1) = (r, is', k')" using "2.prems" True by (simp add: Let_def)
      from "2.IH"(1) [OF True refl bad this] show ?thesis using bad by (auto simp: targets_left_def d split: option.split)
    next
      case False
      then show ?thesis using "2.prems" True by (auto simp: Let_def targets_left_def d)
    qed
  next
    case False
    then have "next_edge n is 0 = (r, is', k')" using "2.prems" by simp
    note ih = "2.IH"(2) [OF False this]
    have "targets_left n (i # is) k = targets_left n is 0" using pending_next [of i k "is"] False by (simp only: targets_left_def not_less)
    then show ?thesis using ih by (simp only:)
  qed
qed (simp add: targets_left_def)

lemma edge_targets: "j < nblocks f \<Longrightarrow> edge f j b \<longleftrightarrow> b \<in> set (targets_left (nblocks f) (ib_insts (if_blocks f ! j)) 0)"
proof -
  assume j: "j < nblocks f"
  have "set (pending is 0) = (\<Union>i\<in>set is. ed_target ` set (ii_edges i))" for "is"
    by (auto simp: pending_0)
  then have "b \<in> set (targets_left (nblocks f) (ib_insts (if_blocks f ! j)) 0) \<longleftrightarrow>
      (\<exists>i\<in>set (ib_insts (if_blocks f ! j)). \<exists>e\<in>set (ii_edges i). ed_target e \<noteq> 0 \<and> ed_target e \<le> nblocks f \<and> b = ed_target e - 1)"
    by (auto simp: targets_left_def)
  moreover have "ed_target e \<noteq> 0 \<and> ed_target e \<le> nblocks f \<and> b = ed_target e - 1 \<longleftrightarrow> b < nblocks f \<and> ed_target e = b + 1" for e
    by auto
  ultimately show ?thesis using j by (auto simp: edge_def is_pred_def list_ex_iff)
qed

text \<open>The state of the search: stack (top first), marks, postorder so far.\<close>

definition dfs_marks :: "ir_func \<Rightarrow> dfs_frame list \<Rightarrow> bool list \<Rightarrow> nat list \<Rightarrow> bool" where
  "dfs_marks f stack seen post \<longleftrightarrow>
     length seen = nblocks f \<and> distinct (map fst stack @ post) \<and> set (map fst stack @ post) = {b. b < nblocks f \<and> seen ! b}"

definition dfs_tree :: "ir_func \<Rightarrow> dfs_frame list \<Rightarrow> nat list \<Rightarrow> bool" where
  "dfs_tree f stack post \<longleftrightarrow>
     successively (\<lambda>x y. edge f y x) (map fst stack) \<and> (if stack = [] then post \<noteq> [] \<and> last post = 0 else fst (last stack) = 0) \<and>
     (\<forall>b\<in>set (map fst stack @ post). reaches (edge f) b)"

text \<open>Every block of the postorder has a predecessor on the stack or later in the postorder.\<close>

definition dfs_parents :: "ir_func \<Rightarrow> nat set \<Rightarrow> nat list \<Rightarrow> bool" where
  "dfs_parents f S post \<longleftrightarrow>
     (\<forall>i<length post. post ! i \<noteq> 0 \<longrightarrow>
        (\<exists>j\<in>S. edge f j (post ! i)) \<or> (\<exists>i'. i < i' \<and> i' < length post \<and> edge f (post ! i') (post ! i)))"

definition dfs_covered :: "ir_func \<Rightarrow> dfs_frame list \<Rightarrow> bool list \<Rightarrow> nat list \<Rightarrow> bool" where
  "dfs_covered f stack seen post \<longleftrightarrow>
     (\<forall>(b, is, k)\<in>set stack. (\<forall>s. edge f b s \<longrightarrow> s \<in> set (targets_left (nblocks f) is k) \<or> seen ! s) \<and>
        (\<forall>s\<in>set (targets_left (nblocks f) is k). edge f b s)) \<and>
     (\<forall>b\<in>set post. \<forall>s. edge f b s \<longrightarrow> seen ! s)"

definition dfs_inv :: "ir_func \<Rightarrow> dfs_frame list \<Rightarrow> bool list \<Rightarrow> nat list \<Rightarrow> bool" where
  "dfs_inv f stack seen post \<longleftrightarrow>
     dfs_marks f stack seen post \<and> dfs_tree f stack post \<and> dfs_parents f (fst ` set stack) post \<and> dfs_covered f stack seen post"

definition postorder :: "ir_func \<Rightarrow> nat list \<Rightarrow> bool" where
  "postorder f post \<longleftrightarrow> distinct post \<and> set post = {b. reaches (edge f) b} \<and> set post \<subseteq> {..<nblocks f} \<and> post \<noteq> [] \<and> last post = 0 \<and>
     dfs_parents f {} post"

lemma dfs_inv_end: "dfs_inv f [] seen post \<Longrightarrow> postorder f post"
proof -
  assume inv: "dfs_inv f [] seen post"
  have s: "set post = {b. b < nblocks f \<and> seen ! b}" and r: "\<forall>b\<in>set post. reaches (edge f) b" and l: "post \<noteq> []" "last post = 0"
    and c: "\<forall>b\<in>set post. \<forall>s. edge f b s \<longrightarrow> seen ! s"
    using inv unfolding dfs_inv_def dfs_marks_def dfs_tree_def dfs_covered_def list.map append_Nil by (blast, blast, simp, simp, blast)
  have "b \<in> set post" if "reaches (edge f) b" for b
    using that
  proof (induction rule: reaches_induct)
    case root
    show ?case using l last_in_set by metis
  next
    case (edge j b)
    then have "seen ! b" "b < nblocks f" using c by (auto simp: edge_def)
    then show ?case using s by simp
  qed
  then have "set post = {b. reaches (edge f) b}" using r by auto
  moreover have "distinct post" "dfs_parents f {} post" using inv by (simp_all add: dfs_inv_def dfs_marks_def)
  moreover have "set post \<subseteq> {..<nblocks f}" using s by auto
  ultimately show ?thesis using l unfolding postorder_def by blast
qed

lemma dfs_parents_mono: "dfs_parents f S post \<Longrightarrow> S \<subseteq> T \<Longrightarrow> dfs_parents f T post"
  unfolding dfs_parents_def by blast

lemma dfs_inv_pop:
  assumes "dfs_inv f ((b, is, k) # rest) seen post" "targets_left (nblocks f) is k = []"
  shows "dfs_inv f rest seen (post @ [b])"
proof -
  have m: "dfs_marks f ((b, is, k) # rest) seen post" and t: "dfs_tree f ((b, is, k) # rest) post"
    and p: "dfs_parents f (insert b (fst ` set rest)) post" and c: "dfs_covered f ((b, is, k) # rest) seen post"
    using assms(1) by (simp_all add: dfs_inv_def)
  have "dfs_marks f rest seen (post @ [b])" using m by (auto simp: dfs_marks_def)
  moreover have "dfs_tree f rest (post @ [b])" using t by (auto simp: dfs_tree_def successively_Cons split: if_split_asm)
  moreover have "dfs_parents f (fst ` set rest) (post @ [b])"
    unfolding dfs_parents_def
  proof (intro allI impI)
    fix i assume i: "i < length (post @ [b])" "(post @ [b]) ! i \<noteq> 0"
    show "(\<exists>j\<in>fst ` set rest. edge f j ((post @ [b]) ! i)) \<or>
        (\<exists>i'. i < i' \<and> i' < length (post @ [b]) \<and> edge f ((post @ [b]) ! i') ((post @ [b]) ! i))"
    proof (cases "i < length post")
      case True
      then have "post ! i \<noteq> 0" using i(2) by (simp add: nth_append)
      then consider "\<exists>j\<in>fst ` set rest. edge f j (post ! i)" | "edge f b (post ! i)"
        | i' where "i < i'" "i' < length post" "edge f (post ! i') (post ! i)"
        using p True unfolding dfs_parents_def by blast
      then show ?thesis
      proof cases
        case 2
        then show ?thesis using True by (intro disjI2 exI [of _ "length post"]) (simp add: nth_append)
      next
        case 3
        then show ?thesis using True by (intro disjI2 exI [of _ i']) (simp add: nth_append)
      qed (use True in \<open>simp add: nth_append\<close>)
    next
      case False
      then have "(post @ [b]) ! i = b" using i(1) by (simp add: nth_append)
      moreover from this have "rest \<noteq> []" using t i(2) by (auto simp: dfs_tree_def)
      moreover have "edge f (fst (hd rest)) b" if "rest \<noteq> []" using t that by (cases rest) (auto simp: dfs_tree_def)
      ultimately show ?thesis by (intro disjI1 bexI [of _ "fst (hd rest)"]) auto
    qed
  qed
  moreover have "dfs_covered f rest seen (post @ [b])" using c assms(2) by (auto simp: dfs_covered_def)
  ultimately show ?thesis by (simp add: dfs_inv_def)
qed

lemma dfs_inv_seen:
  assumes "dfs_inv f ((b, is, k) # rest) seen post" "targets_left (nblocks f) is k = s # targets_left (nblocks f) is' k'" "seen ! s"
  shows "dfs_inv f ((b, is', k') # rest) seen post"
  using assms(1,2,3) by (auto simp: dfs_inv_def dfs_marks_def dfs_tree_def dfs_covered_def)

lemma dfs_inv_push:
  assumes inv: "dfs_inv f ((b, is, k) # rest) seen post"
    and t: "targets_left (nblocks f) is k = s # targets_left (nblocks f) is' k'" "s < nblocks f" "\<not> seen ! s" "edge f b s"
  shows "dfs_inv f ((s, ib_insts (if_blocks f ! s), 0) # (b, is', k') # rest) (seen[s := True]) post"
proof -
  have m: "dfs_marks f ((b, is, k) # rest) seen post" and tr: "dfs_tree f ((b, is, k) # rest) post"
    and p: "dfs_parents f (insert b (fst ` set rest)) post" and c: "dfs_covered f ((b, is, k) # rest) seen post"
    using inv by (simp_all add: dfs_inv_def)
  have len: "length seen = nblocks f" using m by (simp add: dfs_marks_def)
  have mono: "seen[s := True] ! x" if "seen ! x" for x using that by (metis nth_list_update_eq nth_list_update_neq list_update_beyond not_le)
  have "s \<notin> set (map fst ((b, is, k) # rest) @ post)" using m t(3) by (auto simp: dfs_marks_def)
  moreover have "{x. x < nblocks f \<and> seen[s := True] ! x} = insert s {x. x < nblocks f \<and> seen ! x}"
    using t(2) len by (auto simp: nth_list_update)
  ultimately have "dfs_marks f ((s, ib_insts (if_blocks f ! s), 0) # (b, is', k') # rest) (seen[s := True]) post"
    using m by (auto simp: dfs_marks_def)
  moreover have "reaches (edge f) s" using reaches_edge [of "edge f" b s] t(4) tr by (simp add: dfs_tree_def)
  then have "dfs_tree f ((s, ib_insts (if_blocks f ! s), 0) # (b, is', k') # rest) post"
    using tr t(4) by (auto simp: dfs_tree_def)
  moreover have "dfs_parents f (fst ` set ((s, ib_insts (if_blocks f ! s), 0) # (b, is', k') # rest)) post"
    by (rule dfs_parents_mono [OF p]) auto
  moreover have "dfs_covered f ((s, ib_insts (if_blocks f ! s), 0) # (b, is', k') # rest) (seen[s := True]) post"
    using c mono edge_targets [OF t(2)] t(1,2) len unfolding dfs_covered_def by fastforce
  ultimately show ?thesis by (simp add: dfs_inv_def)
qed

definition frames_left :: "ir_func \<Rightarrow> dfs_frame list \<Rightarrow> nat" where
  "frames_left f stack = sum_list (map (\<lambda>(b, is, k). Suc (length (targets_left (nblocks f) is k))) stack)"

definition unseen :: "bool list \<Rightarrow> nat" where
  "unseen seen = length (filter Not seen)"

lemma unseen_mark: "s < length seen \<Longrightarrow> \<not> seen ! s \<Longrightarrow> unseen (seen[s := True]) < unseen seen"
proof (induction seen arbitrary: s)
  case (Cons a seen)
  then show ?case by (cases s) (auto simp: unseen_def)
qed simp

lemma dfs_loop_ends:
  "dfs_inv f stack seen post \<Longrightarrow> \<exists>post'. dfs_loop f stack seen post = Some post' \<and> postorder f post'"
proof (induction "(unseen seen, frames_left f stack)" arbitrary: stack seen post rule: wf_induct_rule [OF wf_lex_prod [OF wf_less_than wf_less_than]])
  case (1 stack seen post)
  show ?case
  proof (cases stack)
    case Nil
    then show ?thesis using dfs_inv_end [of f seen post] 1(2) by (simp add: dfs_loop.simps)
  next
    case (Cons fr rest)
    obtain b "is" k where fr: "stack = (b, is, k) # rest" using Cons by (cases fr) auto
    obtain r is' k' where e: "next_edge (nblocks f) is k = (r, is', k')" by (metis prod_cases3)
    note t = next_edge_targets [OF e]
    show ?thesis
    proof (cases r)
      case None
      have "((unseen seen, frames_left f rest), (unseen seen, frames_left f stack)) \<in> less_than <*lex*> less_than"
        by (simp add: fr frames_left_def)
      from 1(1) [OF this] dfs_inv_pop [OF 1(2) [unfolded fr]] t
      show ?thesis using None by (simp add: fr dfs_loop.simps [of f "_ # _"] e)
    next
      case (Some s)
      then have ts: "targets_left (nblocks f) is k = s # targets_left (nblocks f) is' k'" "s < nblocks f" using t by simp_all
      show ?thesis
      proof (cases "seen ! s")
        case True
        have "((unseen seen, frames_left f ((b, is', k') # rest)), (unseen seen, frames_left f stack)) \<in> less_than <*lex*> less_than"
          by (simp add: fr frames_left_def ts(1))
        from 1(1) [OF this] dfs_inv_seen [OF 1(2) [unfolded fr] ts(1) True]
        show ?thesis using Some True by (simp add: fr dfs_loop.simps [of f "_ # _"] e)
      next
        case False
        have len: "length seen = nblocks f" using 1(2) by (simp add: dfs_inv_def dfs_marks_def)
        have "((unseen (seen[s := True]), frames_left f ((s, ib_insts (if_blocks f ! s), 0) # (b, is', k') # rest)), (unseen seen, frames_left f stack))
            \<in> less_than <*lex*> less_than"
          using unseen_mark [of s seen] ts(2) False len by simp
        note ih = 1(1) [OF this]
        have "edge f b s" using 1(2) ts(1) by (simp add: fr dfs_inv_def dfs_covered_def)
        from ih dfs_inv_push [OF 1(2) [unfolded fr] ts False this]
        show ?thesis using Some False by (simp add: fr dfs_loop.simps [of f "_ # _"] e)
      qed
    qed
  qed
qed

lemma dfs_postorder:
  assumes "0 < nblocks f"
  shows "\<exists>post. dfs f = Some post \<and> postorder f post"
proof -
  let ?seen = "(replicate (nblocks f) False)[0 := True]"
  have "{b. b < nblocks f \<and> ?seen ! b} = {0}" using assms by (auto simp: nth_list_update split: if_split_asm)
  moreover have "reaches (edge f) 0" by (rule reaches_root)
  ultimately have "dfs_inv f [(0, ib_insts (if_blocks f ! 0), 0)] ?seen []"
    using edge_targets [OF assms] by (auto simp: dfs_inv_def dfs_marks_def dfs_tree_def dfs_parents_def dfs_covered_def)
  from dfs_loop_ends [OF this] show ?thesis by (simp add: dfs_def)
qed

lemma rpo_numbers_nth:
  assumes "distinct post" "set post \<subseteq> {..<n}"
  shows "i < length post \<Longrightarrow> rpo_numbers n post ! (post ! i) = Some (length post - 1 - i)"
    and "b < n \<Longrightarrow> b \<notin> set post \<Longrightarrow> rpo_numbers n post ! b = None"
    and "length (rpo_numbers n post) = n"
proof -
  define r where "r m = foldl (\<lambda>r i. r[post ! i := Some (length post - 1 - i)]) (replicate n None) [0..<m]" for m
  have "length (r m) = n \<and> (\<forall>i<m. r m ! (post ! i) = Some (length post - 1 - i)) \<and> (\<forall>b<n. b \<notin> set (take m post) \<longrightarrow> r m ! b = None)"
    if "m \<le> length post" for m
    using that
  proof (induction m)
    case (Suc m)
    have step: "r (Suc m) = (r m)[post ! m := Some (length post - 1 - m)]" by (simp add: r_def)
    have tk: "take (Suc m) post = take m post @ [post ! m]" using Suc.prems by (simp add: take_Suc_conv_app_nth)
    have ne: "post ! m \<noteq> post ! i" if "i < m" for i using assms(1) Suc.prems that by (simp add: nth_eq_iff_index_eq)
    have "post ! m < n" using assms(2) Suc.prems by (meson Suc_le_lessD lessThan_iff nth_mem subsetD)
    then show ?case using Suc ne unfolding step tk by (auto simp: less_Suc_eq)
  qed (simp add: r_def)
  from this [of "length post"] show "i < length post \<Longrightarrow> rpo_numbers n post ! (post ! i) = Some (length post - 1 - i)"
    "b < n \<Longrightarrow> b \<notin> set post \<Longrightarrow> rpo_numbers n post ! b = None" "length (rpo_numbers n post) = n"
    by (simp_all add: r_def rpo_numbers_def)
qed

text \<open>The number of a block in reverse postorder.\<close>

definition rpo_num :: "ir_func \<Rightarrow> nat \<Rightarrow> nat" where
  "rpo_num f b = (if 0 < nblocks f \<and> b < nblocks f then rpo_val (rpo_numbers (nblocks f) (the (dfs f))) b else 0)"

lemma rpo_num_index:
  assumes "0 < nblocks f" "i < length (the (dfs f))"
  shows "rpo_num f (the (dfs f) ! i) = length (the (dfs f)) - 1 - i"
proof -
  obtain post where p: "dfs f = Some post" "postorder f post" using dfs_postorder [OF assms(1)] by blast
  have ds: "distinct post" "set post \<subseteq> {..<nblocks f}" using p(2) unfolding postorder_def by blast+
  have "post ! i < nblocks f" using p assms(2) unfolding postorder_def by (metis lessThan_iff nth_mem option.sel subsetD)
  then show ?thesis
    using p assms rpo_numbers_nth(1) [OF ds] by (simp add: rpo_num_def rpo_val_def)
qed

lemma reaches_empty: "reaches (edge f) b \<Longrightarrow> nblocks f = 0 \<Longrightarrow> b = 0"
  by (induction rule: reaches_induct) (auto simp: edge_def)

lemma reached_index:
  assumes "0 < nblocks f" "reaches (edge f) b"
  obtains i where "i < length (the (dfs f))" "the (dfs f) ! i = b"
  using dfs_postorder [OF assms(1)] assms(2) unfolding postorder_def by (metis in_set_conv_nth mem_Collect_eq option.sel)

interpretation chk: numbered_graph "edge f" "rpo_num f" for f
proof (unfold_locales)
  show "finite {b. reaches (edge f) b}"
  proof (cases "nblocks f = 0")
    case True
    then show ?thesis using reaches_empty by (auto intro: finite_subset [of _ "{0}"])
  next
    case False
    then show ?thesis using dfs_postorder [of f] unfolding postorder_def by (metis List.finite_set neq0_conv)
  qed
  show "a = b" if r: "reaches (edge f) a" "reaches (edge f) b" and e: "rpo_num f a = rpo_num f b" for a b
  proof (cases "nblocks f = 0")
    case True
    then show ?thesis using r reaches_empty by metis
  next
    case False
    then have n: "0 < nblocks f" by simp
    obtain i where i: "i < length (the (dfs f))" "the (dfs f) ! i = a" using reached_index [OF n r(1)] .
    obtain j where j: "j < length (the (dfs f))" "the (dfs f) ! j = b" using reached_index [OF n r(2)] .
    have "i = j" using rpo_num_index [OF n i(1)] rpo_num_index [OF n j(1)] i j e by simp
    then show ?thesis using i j by simp
  qed
  show root: "rpo_num f 0 = 0"
  proof (cases "nblocks f = 0")
    case False
    then have n: "0 < nblocks f" by simp
    have "the (dfs f) \<noteq> []" "last (the (dfs f)) = 0" using dfs_postorder [OF n] by (auto simp: postorder_def)
    then show ?thesis using rpo_num_index [OF n, of "length (the (dfs f)) - 1"] by (simp add: last_conv_nth)
  qed (simp add: rpo_num_def)
  show "\<exists>j. reaches (edge f) j \<and> edge f j b \<and> rpo_num f j < rpo_num f b" if b: "reaches (edge f) b" "b \<noteq> 0" for b
  proof -
    have n: "0 < nblocks f" using reaches_empty b by blast
    obtain post where p: "dfs f = Some post" "postorder f post" using dfs_postorder [OF n] by blast
    obtain i where i: "i < length post" "post ! i = b" using reached_index [OF n b(1)] p(1) by auto
    then obtain i' where i': "i < i'" "i' < length post" "edge f (post ! i') b"
      using p(2) b(2) by (auto simp: postorder_def dfs_parents_def)
    then have "reaches (edge f) (post ! i')" using p(2) nth_mem [OF i'(2)] by (auto simp: postorder_def)
    moreover have "rpo_num f (post ! i') < rpo_num f b"
      using rpo_num_index [OF n, of i] rpo_num_index [OF n, of i'] i i' p(1) by simp
    ultimately show ?thesis using i'(3) by blast
  qed
qed

section \<open>The loops compute what a pass needs\<close>

definition amap :: "nat option list \<Rightarrow> nat \<rightharpoonup> nat" where
  "amap idom b = (if b < length idom then idom ! b else None)"

lemma amap_update: "b < length idom \<Longrightarrow> amap (idom[b := Some c]) = (amap idom)(b \<mapsto> c)"
  by (auto simp: amap_def fun_eq_iff nth_list_update)

text \<open>The arrays of the construction: the numbers are those of the search.\<close>

definition rpo_ok :: "ir_func \<Rightarrow> nat option list \<Rightarrow> bool" where
  "rpo_ok f rpo \<longleftrightarrow> length rpo = nblocks f \<and> (\<forall>x<nblocks f. rpo ! x = (if reaches (edge f) x then Some (rpo_num f x) else None))"

lemma rpo_ok_build:
  assumes "0 < nblocks f" "dfs f = Some post"
  shows "rpo_ok f (rpo_numbers (nblocks f) post)"
proof -
  have p: "postorder f post" using dfs_postorder [OF assms(1)] assms(2) by simp
  then have ds: "distinct post" "set post \<subseteq> {..<nblocks f}" and r: "set post = {b. reaches (edge f) b}"
    unfolding postorder_def by blast+
  have "rpo_numbers (nblocks f) post ! x = (if reaches (edge f) x then Some (rpo_num f x) else None)" if x: "x < nblocks f" for x
  proof (cases "reaches (edge f) x")
    case True
    then obtain i where i: "i < length post" "post ! i = x" using r by (metis in_set_conv_nth mem_Collect_eq)
    then show ?thesis using rpo_numbers_nth(1) [OF ds i(1)] rpo_num_index [OF assms(1), of i] assms(2) True by simp
  next
    case False
    then show ?thesis using rpo_numbers_nth(2) [OF ds x] r by auto
  qed
  then show ?thesis using rpo_numbers_nth(3) [OF ds] by (simp add: rpo_ok_def)
qed

lemma reached_bound: "0 < nblocks f \<Longrightarrow> reaches (edge f) x \<Longrightarrow> x < nblocks f"
  using dfs_postorder [of f] unfolding postorder_def by auto

lemma rpo_val_num: "rpo_ok f rpo \<Longrightarrow> 0 < nblocks f \<Longrightarrow> reaches (edge f) x \<Longrightarrow> rpo_val rpo x = rpo_num f x"
  using reached_bound [of f x] by (simp add: rpo_ok_def rpo_val_def)

definition arrays :: "ir_func \<Rightarrow> nat option list \<Rightarrow> nat option list \<Rightarrow> bool" where
  "arrays f rpo idom \<longleftrightarrow> 0 < nblocks f \<and> rpo_ok f rpo \<and> length idom = nblocks f \<and> chk.cand f (amap idom)"

lemma arrays_cand: "arrays f rpo idom \<Longrightarrow> chk.cand f (amap idom)"
  by (simp add: arrays_def)

lemma arrays_node: "arrays f rpo idom \<Longrightarrow> x \<in> dom (amap idom) \<Longrightarrow> reaches (edge f) x \<and> rpo_val rpo x = rpo_num f x"
  using chk.cand_reaches [of f "amap idom"] rpo_val_num [of f rpo] unfolding arrays_def by blast

lemma climb_spec:
  assumes a: "arrays f rpo idom" and "x \<in> dom (amap idom)" "y \<in> dom (amap idom)"
  shows "\<exists>x'. climb rpo idom x y = Some x' \<and> x' \<in> dom (amap idom) \<and> rpo_num f x' \<le> rpo_num f y \<and> rpo_num f x' \<le> rpo_num f x \<and>
    chain (amap idom) x' \<inter> chain (amap idom) y = chain (amap idom) x \<inter> chain (amap idom) y"
  using assms(2)
proof (induction "rpo_num f x" arbitrary: x rule: less_induct)
  case less
  note cand = arrays_cand [OF a] and node = arrays_node [OF a]
  show ?case
  proof (cases "rpo_num f x > rpo_num f y")
    case True
    then have x0: "x \<noteq> 0" using chk.num_root [of f] by (cases "x = 0") simp_all
    obtain c where c: "amap idom x = Some c" "c \<in> dom (amap idom)" "rpo_num f c < rpo_num f x"
      using chk.cand_step [OF cand less.prems x0] .
    obtain x' where x': "climb rpo idom c y = Some x'" "x' \<in> dom (amap idom)" "rpo_num f x' \<le> rpo_num f y" "rpo_num f x' \<le> rpo_num f c"
      "chain (amap idom) x' \<inter> chain (amap idom) y = chain (amap idom) c \<inter> chain (amap idom) y"
      using less.hyps [OF c(3,2)] by blast
    have "x \<notin> chain (amap idom) y" using chk.chain_props(3) [OF cand assms(3), of x] True by auto
    then have "chain (amap idom) x \<inter> chain (amap idom) y = chain (amap idom) c \<inter> chain (amap idom) y"
      using chain_up [of x "amap idom", OF x0 c(1)] by auto
    moreover have "climb rpo idom x y = climb rpo idom c y"
      using True c(1) node less.prems assms(3) by (subst climb.simps) (simp add: amap_def split: if_split_asm)
    ultimately show ?thesis using x' c(3) by (intro exI [of _ x']) auto
  next
    case False
    then have "climb rpo idom x y = Some x" using node less.prems assms(3) by (subst climb.simps) simp
    then show ?thesis using False less.prems by auto
  qed
qed

lemma intersect_spec:
  assumes a: "arrays f rpo idom" and "x \<in> dom (amap idom)" "y \<in> dom (amap idom)"
  shows "\<exists>z. intersect rpo idom x y = Some z \<and> z \<in> dom (amap idom) \<and> chain (amap idom) z = chain (amap idom) x \<inter> chain (amap idom) y"
  using assms(2,3)
proof (induction "rpo_num f x + rpo_num f y" arbitrary: x y rule: less_induct)
  case less
  show ?case
  proof (cases "x = y")
    case True
    then show ?thesis using less.prems by (simp add: intersect.simps)
  next
    case False
    have ne: "rpo_num f x \<noteq> rpo_num f y" using chk.num_inj [of f x y] arrays_node [OF a] less.prems False by blast
    obtain x' where x': "climb rpo idom x y = Some x'" "x' \<in> dom (amap idom)" "rpo_num f x' \<le> rpo_num f y" "rpo_num f x' \<le> rpo_num f x"
      "chain (amap idom) x' \<inter> chain (amap idom) y = chain (amap idom) x \<inter> chain (amap idom) y"
      using climb_spec [OF a less.prems] by blast
    obtain y' where y': "climb rpo idom y x' = Some y'" "y' \<in> dom (amap idom)" "rpo_num f y' \<le> rpo_num f x'" "rpo_num f y' \<le> rpo_num f y"
      "chain (amap idom) y' \<inter> chain (amap idom) x' = chain (amap idom) y \<inter> chain (amap idom) x'"
      using climb_spec [OF a less.prems(2) x'(2)] by blast
    have "rpo_num f x' + rpo_num f y' < rpo_num f x + rpo_num f y" using x'(3,4) y'(3,4) ne by linarith
    from less.hyps [OF this x'(2) y'(2)] obtain z where z: "intersect rpo idom x' y' = Some z" "z \<in> dom (amap idom)"
      "chain (amap idom) z = chain (amap idom) x' \<inter> chain (amap idom) y'" by blast
    have "chain (amap idom) z = chain (amap idom) x \<inter> chain (amap idom) y" using z(3) x'(5) y'(5) by blast
    then show ?thesis using z x'(1) y'(1) False by (subst intersect.simps) simp
  qed
qed

lemma pred_loop_spec:
  assumes a: "arrays f rpo idom" and "b < nblocks f" "set js \<subseteq> {..<nblocks f}"
    and "case acc of None \<Rightarrow> P = {} | Some x \<Rightarrow> P \<noteq> {} \<and> x \<in> dom (amap idom) \<and> chain (amap idom) x = (\<Inter>j\<in>P. chain (amap idom) j)"
    and "P \<subseteq> dom (amap idom)"
  shows "\<exists>r. pred_loop f rpo idom b js acc = Some r \<and>
    (let Q = P \<union> (chk.preds f (amap idom) b \<inter> set js) in
     case r of None \<Rightarrow> Q = {} | Some x \<Rightarrow> Q \<noteq> {} \<and> x \<in> dom (amap idom) \<and> chain (amap idom) x = (\<Inter>j\<in>Q. chain (amap idom) j))"
  using assms(3-)
proof (induction js arbitrary: acc P)
  case (Cons j js)
  have j: "j < nblocks f" using Cons.prems(1) by simp
  have len: "length idom = nblocks f" and rp: "rpo_ok f rpo" using a by (auto simp: arrays_def)
  have "rpo ! j = None \<or> idom ! j = None \<longleftrightarrow> j \<notin> dom (amap idom)"
    using j len rp chk.cand_reaches [OF arrays_cand [OF a], of j] by (auto simp: rpo_ok_def amap_def split: if_split_asm)
  moreover have "is_pred f j b \<longleftrightarrow> edge f j b" using j assms(2) by (simp add: edge_def)
  ultimately have pr: "\<not> (rpo ! j = None \<or> idom ! j = None) \<and> is_pred f j b \<longleftrightarrow> j \<in> chk.preds f (amap idom) b"
    by (auto simp: chk.preds_def)
  show ?case
  proof (cases "j \<in> chk.preds f (amap idom) b")
    case False
    then have "pred_loop f rpo idom b (j # js) acc = pred_loop f rpo idom b js acc" using pr by auto
    moreover have "chk.preds f (amap idom) b \<inter> set (j # js) = chk.preds f (amap idom) b \<inter> set js" using False by auto
    ultimately show ?thesis using Cons.IH [OF _ Cons.prems(2,3)] Cons.prems(1) by simp
  next
    case True
    then have dj: "j \<in> dom (amap idom)" by (simp add: chk.preds_def)
    obtain acc' where acc': "pred_loop f rpo idom b (j # js) acc = pred_loop f rpo idom b js (Some acc')" "acc' \<in> dom (amap idom)"
      "chain (amap idom) acc' = (\<Inter>k\<in>insert j P. chain (amap idom) k)"
    proof (cases acc)
      case None
      then show ?thesis using that [of j] pr True Cons.prems(2) dj by auto
    next
      case (Some x)
      then have x: "x \<in> dom (amap idom)" "chain (amap idom) x = (\<Inter>k\<in>P. chain (amap idom) k)" using Cons.prems(2) by auto
      obtain z where z: "intersect rpo idom x j = Some z" "z \<in> dom (amap idom)" "chain (amap idom) z = chain (amap idom) x \<inter> chain (amap idom) j"
        using intersect_spec [OF a x(1) dj] by blast
      show ?thesis using that [of z] pr True Some z x(2) by (auto simp: Int_commute)
    qed
    have "insert j P \<union> (chk.preds f (amap idom) b \<inter> set js) = P \<union> (chk.preds f (amap idom) b \<inter> set (j # js))" using True by auto
    moreover have "case Some acc' of None \<Rightarrow> insert j P = {} | Some x \<Rightarrow> insert j P \<noteq> {} \<and> x \<in> dom (amap idom) \<and>
        chain (amap idom) x = (\<Inter>k\<in>insert j P. chain (amap idom) k)" using acc'(2,3) by simp
    ultimately show ?thesis using Cons.IH [of "insert j P" "Some acc'"] Cons.prems(1,3) dj acc'(1) by simp
  qed
qed auto

lemma pred_loop_meets:
  assumes a: "arrays f rpo idom" and b: "reaches (edge f) b" "b \<noteq> 0"
    and fwd: "\<And>j. reaches (edge f) j \<Longrightarrow> rpo_num f j < rpo_num f b \<Longrightarrow> j \<in> dom (amap idom)"
  obtains x where "pred_loop f rpo idom b [0..<nblocks f] None = Some (Some x)" "chk.meets f (amap idom) b x"
proof -
  have n: "0 < nblocks f" and len: "length idom = nblocks f" using a by (auto simp: arrays_def)
  obtain r where r: "pred_loop f rpo idom b [0..<nblocks f] None = Some r"
    "let Q = {} \<union> (chk.preds f (amap idom) b \<inter> set [0..<nblocks f]) in
     case r of None \<Rightarrow> Q = {} | Some x \<Rightarrow> Q \<noteq> {} \<and> x \<in> dom (amap idom) \<and> chain (amap idom) x = (\<Inter>j\<in>Q. chain (amap idom) j)"
    using pred_loop_spec [OF a reached_bound [OF n b(1)], where js = "[0..<nblocks f]" and acc = None and P = "{}"] by (auto simp: atLeast0LessThan)
  have Q: "chk.preds f (amap idom) b \<inter> set [0..<nblocks f] = chk.preds f (amap idom) b"
    using len by (auto simp: chk.preds_def amap_def split: if_split_asm)
  obtain j where "reaches (edge f) j" "edge f j b" "rpo_num f j < rpo_num f b" using chk.forward_pred [OF b] by blast
  then have "j \<in> chk.preds f (amap idom) b" using fwd by (simp add: chk.preds_def)
  then show ?thesis using that r Q by (auto simp: chk.meets_def Let_def split: option.split_asm)
qed

lemma rev_post_nth:
  assumes "0 < nblocks f" "dfs f = Some post" "i < length post"
  shows "reaches (edge f) (rev post ! i)" "rpo_num f (rev post ! i) = i"
proof -
  have p: "set post = {b. reaches (edge f) b}" using dfs_postorder [OF assms(1)] assms(2) unfolding postorder_def by auto
  have "rev post ! i = post ! (length post - 1 - i)" using assms(3) by (simp add: rev_nth)
  moreover have "length post - 1 - i < length post" using assms(3) by simp
  ultimately show "reaches (edge f) (rev post ! i)" "rpo_num f (rev post ! i) = i"
    using nth_mem [of "length post - 1 - i" post] p rpo_num_index [OF assms(1), of "length post - 1 - i"] assms(2,3) by auto
qed

lemma rpo_num_less:
  assumes "0 < nblocks f" "dfs f = Some post" "reaches (edge f) b"
  shows "rpo_num f b < length post"
proof -
  obtain i where "i < length post" "post ! i = b" using reached_index [OF assms(1,3)] assms(2) by auto
  then show ?thesis using rpo_num_index [OF assms(1), of i] assms(2) by simp
qed

definition pass_invariant :: "ir_func \<Rightarrow> ((nat \<rightharpoonup> nat) \<Rightarrow> nat \<Rightarrow> bool) \<Rightarrow> bool" where
  "pass_invariant f I \<longleftrightarrow>
     (\<forall>d i b n. I d i \<longrightarrow> reaches (edge f) b \<longrightarrow> b \<noteq> 0 \<longrightarrow> rpo_num f b = i \<longrightarrow> chk.meets f d b n \<longrightarrow> I (d(b \<mapsto> n)) (Suc i)) \<and>
     (\<forall>d i. I d i \<longrightarrow> chk.cand f d) \<and> (\<forall>d i j. I d i \<longrightarrow> reaches (edge f) j \<longrightarrow> rpo_num f j < i \<longrightarrow> j \<in> dom d)"

text \<open>
  A pass from number \<open>i\<close> on, for any invariant of the candidate map that a step keeps: it ends, entries below
  \<open>i\<close> stay, and unless it reports a change every candidate was already what the step computes.
\<close>

lemma pass_loop_spec:
  assumes env: "0 < nblocks f" "rpo_ok f rpo" "dfs f = Some post"
    and inv: "pass_invariant f I"
  shows "I (amap idom) i \<Longrightarrow> length idom = nblocks f \<Longrightarrow> 0 < i \<Longrightarrow> i \<le> length post \<Longrightarrow>
    \<exists>idom' ch'. pass_loop f rpo (drop i (rev post)) idom changed = Some (idom', ch') \<and> length idom' = nblocks f \<and>
      I (amap idom') (length post) \<and> (\<forall>x. reaches (edge f) x \<longrightarrow> rpo_num f x < i \<longrightarrow> amap idom' x = amap idom x) \<and>
      (if ch' then changed \<or> amap idom' \<noteq> amap idom
       else \<not> changed \<and> idom' = idom \<and> (\<forall>b. reaches (edge f) b \<longrightarrow> i \<le> rpo_num f b \<longrightarrow> chk.meets f (amap idom) b (the (amap idom b))))"
proof (induction "length post - i" arbitrary: i idom changed)
  case 0
  then have i: "i = length post" by simp
  have "\<not> i \<le> rpo_num f b" if "reaches (edge f) b" for b using rpo_num_less [OF env(1,3) that] i by simp
  then show ?case using 0 i by simp
next
  case (Suc m)
  have step: "\<And>d i b n. I d i \<Longrightarrow> reaches (edge f) b \<Longrightarrow> b \<noteq> 0 \<Longrightarrow> rpo_num f b = i \<Longrightarrow> chk.meets f d b n \<Longrightarrow> I (d(b \<mapsto> n)) (Suc i)"
    and cand: "\<And>d i. I d i \<Longrightarrow> chk.cand f d" and fwd: "\<And>d i j. I d i \<Longrightarrow> reaches (edge f) j \<Longrightarrow> rpo_num f j < i \<Longrightarrow> j \<in> dom d"
    using inv unfolding pass_invariant_def by blast+
  have i: "i < length post" using Suc.hyps(2) by simp
  define b where "b = rev post ! i"
  have b: "reaches (edge f) b" "rpo_num f b = i" using rev_post_nth [OF env(1,3) i] by (simp_all add: b_def)
  have b0: "b \<noteq> 0" using b(2) Suc.prems(3) chk.num_root [of f] by (cases "b = 0") simp_all
  have drop: "drop i (rev post) = b # drop (Suc i) (rev post)" using i by (simp add: b_def Cons_nth_drop_Suc)
  have a: "arrays f rpo idom" using env cand [OF Suc.prems(1)] Suc.prems(2) by (simp add: arrays_def)
  obtain x where x: "pred_loop f rpo idom b [0..<nblocks f] None = Some (Some x)" "chk.meets f (amap idom) b x"
    using pred_loop_meets [OF a b(1) b0] fwd [OF Suc.prems(1)] b(2) by blast
  have bl: "b < length idom" using reached_bound [OF env(1) b(1)] Suc.prems(2) by simp
  define idom1 where "idom1 = idom[b := Some x]"
  have I1: "I (amap idom1) (Suc i)" "length idom1 = nblocks f" "amap idom1 = (amap idom)(b \<mapsto> x)"
    using step [OF Suc.prems(1) b(1) b0 b(2) x(2)] Suc.prems(2) amap_update [OF bl] by (simp_all add: idom1_def)
  have m: "m = length post - Suc i" using Suc.hyps(2) by simp
  note ih = Suc.hyps(1) [OF m I1(1,2) zero_less_Suc Suc_leI [OF i]]
  show ?case
  proof (cases "idom ! b = Some x")
    case True
    then have same: "idom1 = idom" using list_update_id [of idom b] by (simp add: idom1_def)
    have "pass_loop f rpo (drop i (rev post)) idom changed = pass_loop f rpo (drop (Suc i) (rev post)) idom changed"
      unfolding drop using b0 x(1) True by simp
    moreover have "chk.meets f (amap idom) c (the (amap idom c))"
      if "reaches (edge f) c" "i \<le> rpo_num f c"
        "\<forall>b. reaches (edge f) b \<longrightarrow> Suc i \<le> rpo_num f b \<longrightarrow> chk.meets f (amap idom) b (the (amap idom b))" for c
    proof (cases "rpo_num f c = i")
      case True
      then have "c = b" using chk.num_inj [OF that(1) b(1)] b(2) by simp
      then show ?thesis using x(2) bl \<open>idom ! b = Some x\<close> by (simp add: amap_def)
    qed (use that in simp)
    ultimately show ?thesis using ih [of changed] unfolding same by (fastforce split: if_split_asm)
  next
    case False
    have "pass_loop f rpo (drop i (rev post)) idom changed = pass_loop f rpo (drop (Suc i) (rev post)) idom1 True"
      unfolding drop using b0 x(1) False by (simp add: idom1_def)
    moreover obtain idom' ch' where r: "pass_loop f rpo (drop (Suc i) (rev post)) idom1 True = Some (idom', ch')" "length idom' = nblocks f"
      "I (amap idom') (length post)" "\<forall>x. reaches (edge f) x \<longrightarrow> rpo_num f x < Suc i \<longrightarrow> amap idom' x = amap idom1 x" "ch'"
      using ih [of True] by (auto split: if_split_asm)
    have "amap idom' b \<noteq> amap idom b" using r(4) b I1(3) bl False by (simp add: amap_def)
    then have "amap idom' \<noteq> amap idom" by auto
    moreover have "amap idom' y = amap idom y" if "reaches (edge f) y" "rpo_num f y < i" for y
      using r(4) that I1(3) b(2) by auto
    ultimately show ?thesis using r by auto
  qed
qed

text \<open>A whole pass over the reverse postorder skips the entry and starts at number 1.\<close>

lemma pass_skips_entry:
  assumes "0 < nblocks f" "dfs f = Some post"
  shows "pass_loop f rpo (rev post) idom changed = pass_loop f rpo (drop 1 (rev post)) idom changed" "1 \<le> length post"
proof -
  have "post \<noteq> []" using dfs_postorder [OF assms(1)] assms(2) by (auto simp: postorder_def)
  then show l: "1 \<le> length post" by (cases post) auto
  then have l0: "0 < length post" by linarith
  from rev_post_nth [OF assms l0] have "rev post ! 0 = 0" by (rule chk.num_zero)
  then have "rev post = 0 # drop 1 (rev post)" using l0 by (metis Cons_nth_drop_Suc One_nat_def drop_0 length_rev)
  then show "pass_loop f rpo (rev post) idom changed = pass_loop f rpo (drop 1 (rev post)) idom changed"
    by (metis pass_loop.simps(2))
qed

definition at_fixpoint :: "ir_func \<Rightarrow> (nat \<rightharpoonup> nat) \<Rightarrow> bool" where
  "at_fixpoint f d \<longleftrightarrow> chk.settled f d \<and> (\<forall>b. reaches (edge f) b \<longrightarrow> b \<noteq> 0 \<longrightarrow> chk.meets f d b (the (d b)))"

lemma number_pos: "reaches (edge f) b \<Longrightarrow> b \<noteq> 0 \<Longrightarrow> 1 \<le> rpo_num f b"
  using chk.num_zero [of f b] by (cases "rpo_num f b") auto

lemma later_pass:
  assumes env: "0 < nblocks f" "rpo_ok f rpo" "dfs f = Some post" and "chk.settled f (amap idom)" "length idom = nblocks f"
  obtains idom' ch where "pass_loop f rpo (rev post) idom False = Some (idom', ch)" "length idom' = nblocks f" "chk.settled f (amap idom')"
    "ch \<Longrightarrow> chk.height f (amap idom') < chk.height f (amap idom)" "\<not> ch \<Longrightarrow> at_fixpoint f (amap idom')"
proof -
  let ?I = "chk.in_pass f (amap idom)"
  have inv: "pass_invariant f ?I"
    unfolding pass_invariant_def
  proof (intro conjI allI impI)
    show "?I (d(b \<mapsto> n)) (Suc i)" if "?I d i" "reaches (edge f) b" "b \<noteq> 0" "rpo_num f b = i" "chk.meets f d b n" for d i b n
      using chk.in_pass_step [OF that] .
    show "chk.cand f d" if "?I d i" for d i using that unfolding chk.in_pass_def by (elim conjE)
    show "j \<in> dom d" if "?I d i" "reaches (edge f) j" "rpo_num f j < i" for d i j
      using that unfolding chk.in_pass_def by (elim conjE) simp
  qed
  from pass_loop_spec [where I = ?I and idom = idom and i = 1 and changed = False, OF env inv chk.in_pass_start [OF assms(4)] assms(5) zero_less_one pass_skips_entry(2) [OF env(1,3)]]
  obtain idom' ch where r: "pass_loop f rpo (drop 1 (rev post)) idom False = Some (idom', ch)" "length idom' = nblocks f"
      "?I (amap idom') (length post)"
      "if ch then False \<or> amap idom' \<noteq> amap idom
       else \<not> False \<and> idom' = idom \<and> (\<forall>b. reaches (edge f) b \<longrightarrow> 1 \<le> rpo_num f b \<longrightarrow> chk.meets f (amap idom) b (the (amap idom b)))"
    by (elim exE conjE) (rule that)
  note less = rpo_num_less [OF env(1,3)]
  have s: "chk.settled f (amap idom')" using chk.in_pass_end(1) [OF r(3) less] .
  show ?thesis
  proof (rule that [of idom' ch])
    show "pass_loop f rpo (rev post) idom False = Some (idom', ch)" using r(1) pass_skips_entry(1) [OF env(1,3)] by simp
    show "ch \<Longrightarrow> chk.height f (amap idom') < chk.height f (amap idom)" using chk.in_pass_height [OF r(3) less] r(4) by simp
    show "\<not> ch \<Longrightarrow> at_fixpoint f (amap idom')" using r(4) s number_pos by (auto simp: at_fixpoint_def)
  qed (use r s in simp_all)
qed

lemma fix_loop_later:
  assumes env: "0 < nblocks f" "rpo_ok f rpo" "dfs f = Some post"
  shows "chk.settled f (amap idom) \<Longrightarrow> length idom = nblocks f \<Longrightarrow>
    \<exists>idom'. fix_loop f rpo post idom = Some idom' \<and> length idom' = nblocks f \<and> at_fixpoint f (amap idom')"
proof (induction "chk.height f (amap idom)" arbitrary: idom rule: less_induct)
  case less
  obtain idom' ch where r: "pass_loop f rpo (rev post) idom False = Some (idom', ch)" "length idom' = nblocks f" "chk.settled f (amap idom')"
    "ch \<Longrightarrow> chk.height f (amap idom') < chk.height f (amap idom)" "\<not> ch \<Longrightarrow> at_fixpoint f (amap idom')"
    using later_pass [OF env less.prems] by blast
  show ?case
  proof (cases ch)
    case True
    then show ?thesis using less.hyps [OF r(4) [OF True] r(3,2)] r(1) by (simp add: fix_loop.simps [of _ _ _ idom])
  next
    case False
    then show ?thesis using r by (simp add: fix_loop.simps [of _ _ _ idom])
  qed
qed

lemma fix_loop_first:
  assumes env: "0 < nblocks f" "rpo_ok f rpo" "dfs f = Some post"
  shows "\<exists>idom'. fix_loop f rpo post ((replicate (nblocks f) None)[0 := Some 0]) = Some idom' \<and> length idom' = nblocks f \<and>
    at_fixpoint f (amap idom')"
proof -
  let ?idom = "(replicate (nblocks f) None)[0 := Some 0]"
  let ?I = "chk.first_pass f"
  have am: "amap ?idom = [0 \<mapsto> 0]" using env(1) by (auto simp: amap_def fun_eq_iff nth_list_update)
  have len0: "length ?idom = nblocks f" by simp
  have inv: "pass_invariant f ?I"
    unfolding pass_invariant_def
  proof (intro conjI allI impI)
    show "?I (d(b \<mapsto> n)) (Suc i)" if "?I d i" "reaches (edge f) b" "b \<noteq> 0" "rpo_num f b = i" "chk.meets f d b n" for d i b n
      using chk.first_pass_step [OF that] .
    show "chk.cand f d" if "?I d i" for d i using that unfolding chk.first_pass_def by (elim conjE)
    show "j \<in> dom d" if "?I d i" "reaches (edge f) j" "rpo_num f j < i" for d i j
      using that unfolding chk.first_pass_def by (elim conjE) simp
  qed
  from pass_loop_spec [where I = ?I and idom = ?idom and i = 1 and changed = False, OF env inv chk.first_pass_start [folded am] len0 zero_less_one pass_skips_entry(2) [OF env(1,3)]]
  obtain idom' ch where r: "pass_loop f rpo (drop 1 (rev post)) ?idom False = Some (idom', ch)" "length idom' = nblocks f"
      "?I (amap idom') (length post)"
      "if ch then False \<or> amap idom' \<noteq> amap ?idom
       else \<not> False \<and> idom' = ?idom \<and> (\<forall>b. reaches (edge f) b \<longrightarrow> 1 \<le> rpo_num f b \<longrightarrow> chk.meets f (amap ?idom) b (the (amap ?idom b)))"
    by (elim exE conjE) (rule that)
  have s: "chk.settled f (amap idom')" using chk.first_pass_end [OF r(3) rpo_num_less [OF env(1,3)]] .
  have p: "pass_loop f rpo (rev post) ?idom False = Some (idom', ch)" using r(1) pass_skips_entry(1) [OF env(1,3)] by simp
  show ?thesis
  proof (cases ch)
    case True
    then show ?thesis using fix_loop_later [OF env s r(2)] p by (simp add: fix_loop.simps [of _ _ _ ?idom])
  next
    case False
    then have "at_fixpoint f (amap idom')" using r(4) s number_pos by (auto simp: at_fixpoint_def)
    then show ?thesis using False p r(2) by (simp add: fix_loop.simps [of _ _ _ ?idom])
  qed
qed

section \<open>The queries\<close>

lemma dominates_loop_spec:
  assumes "0 < nblocks f" "length idom = nblocks f" "at_fixpoint f (amap idom)" "reaches (edge f) cur" "1 \<le> a"
  shows "dominates_loop \<lparr>dt_nblocks = nblocks f, dt_entry = 0, dt_idom = idom[0 := None], dt_rpo = rpo\<rparr> a cur
    = Some (a - 1 \<in> chain (amap idom) cur - {cur})" (is "dominates_loop ?t a cur = _")
  using assms(4)
proof (induction "rpo_num f cur" arbitrary: cur rule: less_induct)
  case less
  have s: "chk.cand f (amap idom)" "dom (amap idom) = {b. reaches (edge f) b}"
    using assms(3) by (auto simp: at_fixpoint_def chk.settled_def)
  have bound: "cur < nblocks f" using reached_bound [OF assms(1) less.prems] .
  show ?case
  proof (cases "cur = 0")
    case True
    then show ?thesis using assms(1,2) by (subst dominates_loop.simps) simp
  next
    case False
    obtain c where c: "amap idom cur = Some c" "c \<in> dom (amap idom)" "rpo_num f c < rpo_num f cur"
      using chk.cand_step [OF s(1) _ False] less.prems s(2) by blast
    have ch: "chain (amap idom) cur = insert cur (chain (amap idom) c)" using chain_up [of cur "amap idom", OF False c(1)] .
    have "cur \<notin> chain (amap idom) c" using chk.chain_props(3) [OF s(1) c(2), of cur] c(3) by auto
    then have eq: "chain (amap idom) cur - {cur} = chain (amap idom) c" using ch by auto
    have r: "dt_idom ?t ! cur = Some c" using c(1) False bound assms(2) by (simp add: amap_def)
    have rc: "reaches (edge f) c" using c(2) s(2) by auto
    note ih = less.hyps [OF c(3) rc]
    consider "c = a - 1" | "c \<noteq> a - 1" "c = 0" | "c \<noteq> a - 1" "c \<noteq> 0" by blast
    then show ?thesis
    proof cases
      case 1
      then show ?thesis using r unfolding eq by (subst dominates_loop.simps) simp
    next
      case 2
      then show ?thesis using r unfolding eq by (subst dominates_loop.simps) simp
    next
      case 3
      have "dominates_loop ?t a cur = dominates_loop ?t a c" using r 3 by (subst dominates_loop.simps) simp
      then show ?thesis using ih 3(1) unfolding eq by auto
    qed
  qed
qed

text \<open>
  C6: the dominator tree is built, for every function, and answers exactly. The construction returns; a block
  dominates another in the tree exactly if they are the same, or the second is reachable and every walk from
  the entry to it passes the first; the parent of a reachable block other than the entry is its immediate
  dominator, and the entry and unreachable blocks have none; every query returns.
\<close>

theorem ir_domtree_exact:
  "\<exists>t. ir_domtree_build f = Some t \<and>
     (\<forall>a b. ir_dominates t a b =
        Some (1 \<le> a \<and> a \<le> nblocks f \<and> 1 \<le> b \<and> b \<le> nblocks f \<and>
          (a = b \<or> (reaches (edge f) (b - 1) \<and> dominates (edge f) (a - 1) (b - 1))))) \<and>
     (\<forall>b. 1 \<le> b \<and> b \<le> nblocks f \<longrightarrow>
        (if b = 1 \<or> \<not> reaches (edge f) (b - 1) then ir_idom t b = 0
         else 1 \<le> ir_idom t b \<and> immediate_dominator (edge f) (ir_idom t b - 1) (b - 1)))"
proof (cases "nblocks f = 0")
  case True
  then show ?thesis by (auto simp: ir_domtree_build_def ir_dominates_def)
next
  case False
  then have n: "0 < nblocks f" by simp
  obtain post where d: "dfs f = Some post" using dfs_postorder [OF n] by blast
  define rpo where "rpo = rpo_numbers (nblocks f) post"
  have ok: "rpo_ok f rpo" unfolding rpo_def by (rule rpo_ok_build [OF n d])
  obtain idom where x: "fix_loop f rpo post ((replicate (nblocks f) None)[0 := Some 0]) = Some idom" "length idom = nblocks f"
    "at_fixpoint f (amap idom)"
    using fix_loop_first [OF n ok d] by blast
  define t where "t = \<lparr>dt_nblocks = nblocks f, dt_entry = 0, dt_idom = idom[0 := None], dt_rpo = rpo\<rparr>"
  have build: "ir_domtree_build f = Some t"
    unfolding ir_domtree_build_def Let_def using False d x(1) by (simp add: t_def rpo_def [symmetric])
  have st: "chk.settled f (amap idom)" and mt: "\<And>b. reaches (edge f) b \<Longrightarrow> b \<noteq> 0 \<Longrightarrow> chk.meets f (amap idom) b (the (amap idom b))"
    using x(3) by (auto simp: at_fixpoint_def)
  have ch: "chain (amap idom) b = {a. dominates (edge f) a b}" if "reaches (edge f) b" for b
    using chk.fixpoint_exact [OF st mt that] .
  have rp: "rpo ! b = None \<longleftrightarrow> \<not> reaches (edge f) b" if "b < nblocks f" for b using ok that by (simp add: rpo_ok_def)
  have dm: "dom (amap idom) = {b. reaches (edge f) b}" using st by (simp add: chk.settled_def)
  have "ir_dominates t a b = Some (1 \<le> a \<and> a \<le> nblocks f \<and> 1 \<le> b \<and> b \<le> nblocks f \<and>
      (a = b \<or> (reaches (edge f) (b - 1) \<and> dominates (edge f) (a - 1) (b - 1))))" for a b
  proof (cases "1 \<le> a \<and> a \<le> nblocks f \<and> 1 \<le> b \<and> b \<le> nblocks f \<and> a \<noteq> b \<and> reaches (edge f) (b - 1)")
    case True
    then have "a - 1 \<noteq> b - 1" "b - 1 < nblocks f" by linarith+
    then show ?thesis
      using True dominates_loop_spec [OF n x(2,3), of "b - 1" a rpo] ch [of "b - 1"] rp [of "b - 1"]
      by (auto simp: ir_dominates_def t_def)
  next
    case False
    have "b - 1 < nblocks f" if "1 \<le> b" "b \<le> nblocks f" using that by linarith
    then show ?thesis using False rp [of "b - 1"] by (auto simp: ir_dominates_def t_def)
  qed
  moreover have "if b = 1 \<or> \<not> reaches (edge f) (b - 1) then ir_idom t b = 0
      else 1 \<le> ir_idom t b \<and> immediate_dominator (edge f) (ir_idom t b - 1) (b - 1)" if b: "1 \<le> b" "b \<le> nblocks f" for b
  proof (cases "b = 1 \<or> \<not> reaches (edge f) (b - 1)")
    case True
    have "dt_idom t ! (b - 1) = None"
    proof (cases "b = 1")
      case False
      then have "b - 1 \<notin> dom (amap idom)" using True dm by simp
      then show ?thesis using False b x(2) by (auto simp: t_def amap_def)
    qed (use n x(2) in \<open>simp add: t_def\<close>)
    then show ?thesis using True by (simp add: ir_idom_def)
  next
    case False
    then have b0: "b - 1 \<noteq> 0" "reaches (edge f) (b - 1)" using b by auto
    obtain c where c: "amap idom (b - 1) = Some c" using dm b0(2) by blast
    have "ir_idom t b = Suc c" using c b0(1) b x(2) by (simp add: ir_idom_def t_def amap_def split: if_split_asm)
    then show ?thesis using chk.fixpoint_idom [OF st mt b0(2,1) c] False by simp
  qed
  ultimately show ?thesis using build by blast
qed

definition demo_ir :: ir_func where
  "demo_ir = \<lparr>if_param_vals = [], if_blocks =
     [\<lparr>ib_params = [], ib_insts = [\<lparr>ii_op = IR_BR, ii_type = 0, ii_subop = 0, ii_volatile = False, ii_seq_cst = False, ii_result = 0, ii_loc = 0, ii_align = 0, ii_ops = [],
         ii_edges = [\<lparr>ed_target = 2, ed_args = [], ed_case_val = 0\<rparr>]\<rparr>]\<rparr>,
      \<lparr>ib_params = [], ib_insts = [\<lparr>ii_op = IR_RET, ii_type = 0, ii_subop = 0, ii_volatile = False, ii_seq_cst = False, ii_result = 0, ii_loc = 0, ii_align = 0, ii_ops = [],
         ii_edges = []\<rparr>]\<rparr>], if_vals = [], if_local_slots = []\<rparr>"

theorem ir_domtree_exact_witness:
  "\<exists>t. ir_domtree_build demo_ir = Some t \<and> ir_dominates t 2 1 = Some (dominates (edge demo_ir) 1 0) \<and>
     immediate_dominator (edge demo_ir) (ir_idom t 2 - 1) 1"
proof -
  have n: "nblocks demo_ir = 2" by (simp add: demo_ir_def)
  have e: "edge demo_ir 0 1" by (simp add: demo_ir_def edge_def is_pred_def)
  have r: "reaches (edge demo_ir) 0" "reaches (edge demo_ir) 1" using reaches_root reaches_edge [of "edge demo_ir" 0 1] e by auto
  obtain t where t: "ir_domtree_build demo_ir = Some t"
    "\<forall>a b. ir_dominates t a b =
        Some (1 \<le> a \<and> a \<le> nblocks demo_ir \<and> 1 \<le> b \<and> b \<le> nblocks demo_ir \<and>
          (a = b \<or> (reaches (edge demo_ir) (b - 1) \<and> dominates (edge demo_ir) (a - 1) (b - 1))))"
    "\<forall>b. 1 \<le> b \<and> b \<le> nblocks demo_ir \<longrightarrow>
        (if b = 1 \<or> \<not> reaches (edge demo_ir) (b - 1) then ir_idom t b = 0
         else 1 \<le> ir_idom t b \<and> immediate_dominator (edge demo_ir) (ir_idom t b - 1) (b - 1))"
    using ir_domtree_exact [of demo_ir] by (elim exE conjE) (rule that)
  have "ir_dominates t 2 1 = Some (dominates (edge demo_ir) 1 0)" using t(2) [rule_format, of 2 1] n r by simp
  moreover have "immediate_dominator (edge demo_ir) (ir_idom t 2 - 1) 1" using t(3) [rule_format, of 2] n r by (simp add: numeral_2_eq_2)
  ultimately show ?thesis using t(1) by blast
qed

end
