(* ===== verification/Ir_Renumber.thy ===== *)
theory Ir_Renumber
  imports Ir_Model
begin

text \<open>
  ir_func_renumber of src/src/ir/ir.c: value ids become 1, 2, ... in document order (function parameters,
  then block by block the block parameters and the results of the instructions), the value table is rebuilt
  and every use is rewritten. The map from old to new ids is an array with 0 for no id.
\<close>

section \<open>The pass\<close>

text \<open>Pass 1: one definition gets the next id.\<close>

definition renumber_assign :: "nat \<Rightarrow> nat list \<times> nat \<Rightarrow> nat list \<times> nat" where
  "renumber_assign v s = (case s of (m, next') \<Rightarrow> if v \<noteq> 0 then (m[v := next' + 1], next' + 1) else (m, next'))"

definition renumber_assign_block :: "ir_block \<Rightarrow> nat list \<times> nat \<Rightarrow> nat list \<times> nat" where
  "renumber_assign_block blk s = fold renumber_assign (map ii_result (ib_insts blk)) (fold renumber_assign (ib_params blk) s)"

definition renumber_map :: "ir_func \<Rightarrow> nat list \<times> nat" where
  "renumber_map f = fold renumber_assign_block (if_blocks f) (fold renumber_assign (if_param_vals f) (replicate (if_nvals f + 1) 0, 0))"

text \<open>Pass 2: the value table; an entry keeps the type of the old value.\<close>

definition renumber_def :: "ir_func \<Rightarrow> nat list \<Rightarrow> ir_val_def \<Rightarrow> nat \<Rightarrow> nat \<Rightarrow> nat \<Rightarrow> ir_val_info list \<Rightarrow> ir_val_info list" where
  "renumber_def f m kind block pos old nv =
     (let nid = (if old \<noteq> 0 then m ! old else 0) in
      if nid = 0 then nv
      else nv[nid - 1 := (nv ! (nid - 1))\<lparr>iv_type := iv_type (if_vals f ! (old - 1)), iv_def_kind := kind, iv_def_block := block, iv_def_pos := pos\<rparr>])"

definition renumber_id :: "nat list \<Rightarrow> nat \<Rightarrow> nat" where
  "renumber_id m old = (if old \<noteq> 0 \<and> m ! old \<noteq> 0 then m ! old else old)"

text \<open>Parameters and block parameters have position 0, the initial value.\<close>

definition renumber_block_defs :: "ir_func \<Rightarrow> nat list \<Rightarrow> nat \<times> ir_block \<Rightarrow> ir_val_info list \<Rightarrow> ir_val_info list" where
  "renumber_block_defs f m ib nv =
     (case ib of (bi, blk) \<Rightarrow>
        fold (\<lambda>(pos, i) nv. renumber_def f m VDEF_INST (bi + 1) pos (ii_result i) nv) (enumerate 0 (ib_insts blk))
          (fold (\<lambda>v nv. renumber_def f m VDEF_BPARAM (bi + 1) 0 v nv) (ib_params blk) nv))"

text \<open>Pass 3: uses.\<close>

definition renumber_operand :: "nat list \<Rightarrow> nat \<Rightarrow> ir_operand \<Rightarrow> ir_operand" where
  "renumber_operand m nold o' =
     (if io_kind o' = IROP_VALUE then
        (let id = operand_id o' in o'\<lparr>io_a := if 1 \<le> id \<and> id \<le> nold then of_nat (m ! id) else 0\<rparr>)
      else o')"

definition renumber_inst :: "nat list \<Rightarrow> nat \<Rightarrow> ir_inst \<Rightarrow> ir_inst" where
  "renumber_inst m nold i =
     i\<lparr>ii_result := renumber_id m (ii_result i), ii_ops := map (renumber_operand m nold) (ii_ops i),
       ii_edges := map (\<lambda>e. e\<lparr>ed_args := map (renumber_operand m nold) (ed_args e)\<rparr>) (ii_edges i)\<rparr>"

definition renumber_block :: "nat list \<Rightarrow> nat \<Rightarrow> ir_block \<Rightarrow> ir_block" where
  "renumber_block m nold blk = blk\<lparr>ib_params := map (renumber_id m) (ib_params blk), ib_insts := map (renumber_inst m nold) (ib_insts blk)\<rparr>"

definition val_info_cleared :: ir_val_info where
  "val_info_cleared = \<lparr>iv_type = 0, iv_def_kind = VDEF_NONE, iv_def_block = 0, iv_def_pos = 0\<rparr>"

definition ir_func_renumber :: "ir_func \<Rightarrow> ir_func" where
  "ir_func_renumber f =
     (let nold = if_nvals f; (m, next') = renumber_map f;
          nv = fold (renumber_block_defs f m) (enumerate 0 (if_blocks f))
                 (fold (\<lambda>v nv. renumber_def f m VDEF_FPARAM 1 0 v nv) (if_param_vals f) (replicate next' val_info_cleared))
      in f\<lparr>if_param_vals := map (renumber_id m) (if_param_vals f), if_blocks := map (renumber_block m nold) (if_blocks f),
           if_vals := nv, if_local_slots := map (\<lambda>v. if 1 \<le> v \<and> v \<le> nold then m ! v else 0) (if_local_slots f)\<rparr>)"

section \<open>What it computes\<close>

text \<open>The definitions of a function in document order, each with the coordinates the value table records.\<close>

definition block_sites :: "nat \<times> ir_block \<Rightarrow> (nat \<times> ir_val_def \<times> nat \<times> nat) list" where
  "block_sites ib = (case ib of (bi, blk) \<Rightarrow>
     map (\<lambda>v. (v, VDEF_BPARAM, bi + 1, 0)) (ib_params blk) @ map (\<lambda>(pos, i). (ii_result i, VDEF_INST, bi + 1, pos)) (enumerate 0 (ib_insts blk)))"

definition all_sites :: "ir_func \<Rightarrow> (nat \<times> ir_val_def \<times> nat \<times> nat) list" where
  "all_sites f = map (\<lambda>v. (v, VDEF_FPARAM, 1, 0)) (if_param_vals f) @ concat (map block_sites (enumerate 0 (if_blocks f)))"

definition sites :: "ir_func \<Rightarrow> (nat \<times> ir_val_def \<times> nat \<times> nat) list" where
  "sites f = filter (\<lambda>s. fst s \<noteq> 0) (all_sites f)"

definition value_defs :: "ir_func \<Rightarrow> nat list" where
  "value_defs f = map fst (sites f)"

definition inst_uses :: "ir_inst \<Rightarrow> ir_operand list" where
  "inst_uses i = filter (\<lambda>o'. io_kind o' = IROP_VALUE) (ii_ops i @ concat (map ed_args (ii_edges i)))"

definition value_uses :: "ir_func \<Rightarrow> nat list" where
  "value_uses f = map operand_id (concat (map (\<lambda>b. concat (map inst_uses (ib_insts b))) (if_blocks f)))"

text \<open>The new id of a value: its place among the definitions, 0 for a value without one.\<close>

definition new_id :: "ir_func \<Rightarrow> nat \<Rightarrow> nat" where
  "new_id f v = (case find (\<lambda>k. value_defs f ! k = v) [0..<length (value_defs f)] of None \<Rightarrow> 0 | Some k \<Rightarrow> k + 1)"

lemma map_enumerate_results: "map (\<lambda>x. ii_result (snd x)) (enumerate k is) = map ii_result is"
  by (induction "is" arbitrary: k) simp_all

lemma fold_concat_map: "fold (\<lambda>x s. fold g (h x) s) xs s = fold g (concat (map h xs)) s"
  by (induction xs arbitrary: s) simp_all

lemma fold_skip: "(\<And>x s. x \<in> set xs \<Longrightarrow> \<not> P x \<Longrightarrow> g x s = s) \<Longrightarrow> fold g xs s = fold g (filter P xs) s"
  by (induction xs arbitrary: s) auto

lemma value_defs_filter: "value_defs f = filter (\<lambda>v. v \<noteq> 0) (map fst (all_sites f))"
  by (simp add: value_defs_def sites_def filter_map comp_def)

lemma value_defs_pos: "v \<in> set (value_defs f) \<Longrightarrow> 0 < v"
  by (simp add: value_defs_filter)

lemma renumber_map_sites:
  "renumber_map f = fold renumber_assign (value_defs f) (replicate (if_nvals f + 1) 0, 0)"
proof -
  have "renumber_assign_block blk s = fold renumber_assign (map fst (block_sites (bi, blk))) s" for bi blk s
    by (simp add: renumber_assign_block_def block_sites_def comp_def map_enumerate_results split_beta')
  then have "fold renumber_assign_block bs s = fold (\<lambda>ib s. fold renumber_assign (map fst (block_sites ib)) s) (enumerate k bs) s" for bs k s
    by (induction bs arbitrary: k s) simp_all
  note blocks = this [unfolded fold_concat_map]
  have "renumber_map f = fold renumber_assign (map fst (all_sites f)) (replicate (if_nvals f + 1) 0, 0)"
    unfolding renumber_map_def all_sites_def blocks [of _ _ 0] by (simp add: map_concat comp_def)
  also have "\<dots> = fold renumber_assign (value_defs f) (replicate (if_nvals f + 1) 0, 0)"
    unfolding value_defs_filter by (rule fold_skip) (auto simp: renumber_assign_def)
  finally show ?thesis .
qed

lemma assign_all:
  "distinct ds \<Longrightarrow> (\<And>v. v \<in> set ds \<Longrightarrow> 0 < v \<and> v < length m) \<Longrightarrow>
     \<exists>m'. fold renumber_assign ds (m, k) = (m', k + length ds) \<and> length m' = length m \<and>
       (\<forall>i<length ds. m' ! (ds ! i) = k + i + 1) \<and> (\<forall>v. v \<notin> set ds \<longrightarrow> m' ! v = m ! v)"
proof (induction ds arbitrary: m k)
  case (Cons v ds)
  have v: "0 < v" "v < length m" "v \<notin> set ds" "distinct ds" using Cons.prems by auto
  obtain m' where m': "fold renumber_assign ds (m[v := k + 1], k + 1) = (m', k + 1 + length ds)" "length m' = length m"
    "\<forall>i<length ds. m' ! (ds ! i) = k + 1 + i + 1" "\<forall>w. w \<notin> set ds \<longrightarrow> m' ! w = m[v := k + 1] ! w"
    using Cons.IH [OF v(4), of "m[v := k + 1]" "k + 1"] Cons.prems(2) by auto
  have "m' ! ((v # ds) ! i) = k + i + 1" if "i < length (v # ds)" for i
    using that m'(3,4) v by (cases i) auto
  moreover have "m' ! w = m ! w" if "w \<notin> set (v # ds)" for w using that m'(4) by auto
  moreover have "fold renumber_assign (v # ds) (m, k) = (m', k + length (v # ds))"
    using m'(1) v(1) by (simp add: renumber_assign_def)
  ultimately show ?case using m'(2) by blast
qed simp

text \<open>Functions whose values are defined once, with ids in range.\<close>

definition defs_ok :: "ir_func \<Rightarrow> bool" where
  "defs_ok f \<longleftrightarrow> distinct (value_defs f) \<and> (\<forall>v\<in>set (value_defs f). v \<le> if_nvals f) \<and> if_nvals f < 2 ^ 32"

lemma new_id_nth: "distinct (value_defs f) \<Longrightarrow> k < length (value_defs f) \<Longrightarrow> new_id f (value_defs f ! k) = k + 1"
proof -
  assume d: "distinct (value_defs f)" "k < length (value_defs f)"
  then have "find (\<lambda>j. value_defs f ! j = value_defs f ! k) [0..<length (value_defs f)] = Some k"
    unfolding find_Some_iff by (intro exI [of _ k]) (auto simp: nth_eq_iff_index_eq)
  then show ?thesis by (simp add: new_id_def)
qed

lemma new_id_none: "v \<notin> set (value_defs f) \<Longrightarrow> new_id f v = 0"
proof -
  assume "v \<notin> set (value_defs f)"
  then have "find (\<lambda>k. value_defs f ! k = v) [0..<length (value_defs f)] = None" by (auto simp: find_None_iff)
  then show ?thesis by (simp add: new_id_def)
qed

lemma renumber_map_new_id:
  assumes "defs_ok f"
  obtains m where "renumber_map f = (m, length (value_defs f))" "length m = if_nvals f + 1" "\<And>v. v \<le> if_nvals f \<Longrightarrow> m ! v = new_id f v"
proof -
  have d: "distinct (value_defs f)" "\<And>v. v \<in> set (value_defs f) \<Longrightarrow> 0 < v \<and> v < length (replicate (if_nvals f + 1) (0 :: nat))"
    using assms value_defs_pos by (auto simp: defs_ok_def less_Suc_eq_le)
  obtain m where m: "fold renumber_assign (value_defs f) (replicate (if_nvals f + 1) 0, 0) = (m, 0 + length (value_defs f))"
    "length m = length (replicate (if_nvals f + 1) (0 :: nat))" "\<forall>i<length (value_defs f). m ! (value_defs f ! i) = 0 + i + 1"
    "\<forall>v. v \<notin> set (value_defs f) \<longrightarrow> m ! v = replicate (if_nvals f + 1) 0 ! v"
    using assign_all [of "value_defs f" "replicate (if_nvals f + 1) 0" 0] d by blast
  have "m ! v = new_id f v" if "v \<le> if_nvals f" for v
  proof (cases "v \<in> set (value_defs f)")
    case True
    then obtain k where "k < length (value_defs f)" "value_defs f ! k = v" by (auto simp: in_set_conv_nth)
    then show ?thesis using m(3) new_id_nth [OF d(1)] by auto
  next
    case False
    have "m ! v = replicate (if_nvals f + 1) 0 ! v" using m(4) False by blast
    then show ?thesis using that new_id_none [OF False] by (simp del: replicate_Suc)
  qed
  then show ?thesis using that [of m] m(1,2) by (simp add: renumber_map_sites)
qed

text \<open>The table entry of a definition.\<close>

definition site_info :: "ir_func \<Rightarrow> nat \<times> ir_val_def \<times> nat \<times> nat \<Rightarrow> ir_val_info" where
  "site_info f s = (case s of (v, kind, block, pos) \<Rightarrow>
     \<lparr>iv_type = iv_type (if_vals f ! (v - 1)), iv_def_kind = kind, iv_def_block = block, iv_def_pos = pos\<rparr>)"

abbreviation table_step :: "ir_func \<Rightarrow> nat list \<Rightarrow> nat \<times> ir_val_def \<times> nat \<times> nat \<Rightarrow> ir_val_info list \<Rightarrow> ir_val_info list" where
  "table_step f m s nv \<equiv> (case s of (v, kind, block, pos) \<Rightarrow> renumber_def f m kind block pos v nv)"

lemma table_step_entry:
  assumes "fst s \<noteq> 0" "m ! fst s = k + 1" "k < length nv"
  shows "table_step f m s nv = nv[k := site_info f s]"
proof -
  obtain v kd b p where s: "s = (v, kd, b, p)" by (cases s) auto
  show ?thesis using assms by (cases "nv ! k") (simp add: s renumber_def_def site_info_def Let_def)
qed

lemma table_fill:
  "(\<And>s. s \<in> set ss \<Longrightarrow> fst s \<noteq> 0) \<Longrightarrow> (\<And>i. i < length ss \<Longrightarrow> m ! fst (ss ! i) = k + i + 1) \<Longrightarrow> k + length ss \<le> length nv \<Longrightarrow>
     fold (table_step f m) ss nv = take k nv @ map (site_info f) ss @ drop (k + length ss) nv"
proof (induction ss arbitrary: k nv)
  case (Cons s ss)
  have k: "k < length nv" using Cons.prems(3) by simp
  have step: "table_step f m s nv = nv[k := site_info f s]" using Cons.prems(1) [of s] Cons.prems(2) [of 0] k by (intro table_step_entry) auto
  have "fold (table_step f m) ss (nv[k := site_info f s])
      = take (Suc k) (nv[k := site_info f s]) @ map (site_info f) ss @ drop (Suc k + length ss) (nv[k := site_info f s])"
    using Cons.prems Cons.prems(2) [of "Suc _"] by (intro Cons.IH) auto
  then show ?case using step k by (simp add: take_Suc_conv_app_nth drop_update_cancel)
qed simp

lemma table_sites:
  "fold (renumber_block_defs f m) (enumerate 0 (if_blocks f))
     (fold (\<lambda>v nv. renumber_def f m VDEF_FPARAM 1 0 v nv) (if_param_vals f) nv) = fold (table_step f m) (sites f) nv"
proof -
  have "renumber_block_defs f m ib nv = fold (table_step f m) (block_sites ib) nv" for ib nv
    by (cases ib) (simp add: renumber_block_defs_def block_sites_def fold_map comp_def split_beta')
  then have "fold (renumber_block_defs f m) ibs nv = fold (table_step f m) (concat (map block_sites ibs)) nv" for ibs nv
    by (induction ibs arbitrary: nv) simp_all
  then have "fold (renumber_block_defs f m) (enumerate 0 (if_blocks f))
     (fold (\<lambda>v nv. renumber_def f m VDEF_FPARAM 1 0 v nv) (if_param_vals f) nv) = fold (table_step f m) (all_sites f) nv"
    by (simp add: all_sites_def fold_map comp_def)
  also have "\<dots> = fold (table_step f m) (sites f) nv"
    unfolding sites_def by (rule fold_skip) (auto simp: renumber_def_def)
  finally show ?thesis .
qed

lemma enumerate_map: "enumerate k (map g xs) = map (\<lambda>(p, x). (p, g x)) (enumerate k xs)"
  by (induction xs arbitrary: k) simp_all

lemma sites_renamed:
  assumes "if_param_vals g = map h (if_param_vals f)" "if_blocks g = map (renumber_block m n) (if_blocks f)" "h = renumber_id m"
  shows "all_sites g = map (\<lambda>(v, s). (h v, s)) (all_sites f)"
proof -
  have b: "block_sites (bi, renumber_block m n blk) = map (\<lambda>(v, s). (h v, s)) (block_sites (bi, blk))" for bi blk
    by (simp add: block_sites_def renumber_block_def renumber_inst_def assms(3) comp_def split_beta' enumerate_map)
  have "map block_sites (enumerate k (map (renumber_block m n) bs)) = map (map (\<lambda>(v, s). (h v, s)) \<circ> block_sites) (enumerate k bs)" for k bs
    using b by (simp add: enumerate_map split_beta' comp_def)
  then show ?thesis using assms(1,2) by (simp add: all_sites_def map_concat)
qed

lemma value_defs_length: "defs_ok f \<Longrightarrow> length (value_defs f) \<le> if_nvals f"
proof -
  assume d: "defs_ok f"
  have "set (value_defs f) \<subseteq> {1..if_nvals f}" using d value_defs_pos by (fastforce simp: defs_ok_def)
  then have "card (set (value_defs f)) \<le> if_nvals f" using card_mono [of "{1..if_nvals f}"] by fastforce
  then show ?thesis using d by (simp add: defs_ok_def distinct_card)
qed

lemma new_id_bound: "defs_ok f \<Longrightarrow> new_id f v \<le> if_nvals f"
proof (cases "v \<in> set (value_defs f)")
  case True
  assume d: "defs_ok f"
  obtain k where "k < length (value_defs f)" "value_defs f ! k = v" using True by (auto simp: in_set_conv_nth)
  then show ?thesis using new_id_nth [of f k] value_defs_length [OF d] d by (auto simp: defs_ok_def)
qed (simp add: new_id_none)

lemma new_id_outside: "defs_ok f \<Longrightarrow> v = 0 \<or> v > if_nvals f \<Longrightarrow> new_id f v = 0"
  using new_id_none [of v f] value_defs_pos [of v f] by (force simp: defs_ok_def)

text \<open>The result is the function with one renaming applied everywhere.\<close>

lemma renumber_renames:
  assumes "defs_ok f"
  obtains m where "renumber_map f = (m, length (value_defs f))"
    "\<And>v. v \<le> if_nvals f \<Longrightarrow> m ! v = new_id f v"
    "if_param_vals (ir_func_renumber f) = map (renumber_id m) (if_param_vals f)"
    "if_blocks (ir_func_renumber f) = map (renumber_block m (if_nvals f)) (if_blocks f)"
    "\<And>v. v \<in> set (value_defs f) \<Longrightarrow> renumber_id m v = new_id f v"
    "\<And>o'. io_kind o' = IROP_VALUE \<Longrightarrow> operand_id (renumber_operand m (if_nvals f) o') = new_id f (operand_id o')"
proof -
  obtain m where m: "renumber_map f = (m, length (value_defs f))" "length m = if_nvals f + 1"
    "\<And>v. v \<le> if_nvals f \<Longrightarrow> m ! v = new_id f v" using renumber_map_new_id [OF assms] by blast
  have d: "distinct (value_defs f)" and bound: "\<And>v. v \<in> set (value_defs f) \<Longrightarrow> 0 < v \<and> v \<le> if_nvals f"
    using assms value_defs_pos by (auto simp: defs_ok_def)
  have g: "if_param_vals (ir_func_renumber f) = map (renumber_id m) (if_param_vals f)"
    "if_blocks (ir_func_renumber f) = map (renumber_block m (if_nvals f)) (if_blocks f)"
    by (simp_all add: ir_func_renumber_def m(1) Let_def)
  have rid: "renumber_id m v = new_id f v" if "v \<in> set (value_defs f)" for v
  proof -
    obtain k where "k < length (value_defs f)" "value_defs f ! k = v" using \<open>v \<in> set (value_defs f)\<close> by (auto simp: in_set_conv_nth)
    then have "new_id f v \<noteq> 0" using new_id_nth [OF d] by auto
    then show ?thesis using m(3) bound [OF that] by (simp add: renumber_id_def)
  qed
  have op: "operand_id (renumber_operand m (if_nvals f) o') = new_id f (operand_id o')" if "io_kind o' = IROP_VALUE" for o'
  proof -
    have "m ! operand_id o' < 2 ^ 32" if "operand_id o' \<le> if_nvals f"
      using m(3) [OF that] new_id_bound [OF assms, of "operand_id o'"] assms by (simp add: defs_ok_def)
    then show ?thesis using that m(3) [of "operand_id o'"] new_id_outside [OF assms, of "operand_id o'"]
      by (auto simp: renumber_operand_def Let_def operand_id_def unsigned_ucast_eq take_bit_eq_mod unsigned_of_nat)
  qed
  show ?thesis by (rule that [OF m(1,3) g rid op])
qed

lemma renumber_result:
  assumes "defs_ok f"
  shows "value_defs (ir_func_renumber f) = [1..<length (value_defs f) + 1] \<and>
    value_uses (ir_func_renumber f) = map (new_id f) (value_uses f) \<and>
    if_vals (ir_func_renumber f) = map (site_info f) (sites f) \<and>
    if_local_slots (ir_func_renumber f) = map (new_id f) (if_local_slots f)"
proof -
  obtain m where m: "renumber_map f = (m, length (value_defs f))" "\<And>v. v \<le> if_nvals f \<Longrightarrow> m ! v = new_id f v"
    and g: "if_param_vals (ir_func_renumber f) = map (renumber_id m) (if_param_vals f)"
      "if_blocks (ir_func_renumber f) = map (renumber_block m (if_nvals f)) (if_blocks f)"
    and rid: "\<And>v. v \<in> set (value_defs f) \<Longrightarrow> renumber_id m v = new_id f v"
    and op: "\<And>o'. io_kind o' = IROP_VALUE \<Longrightarrow> operand_id (renumber_operand m (if_nvals f) o') = new_id f (operand_id o')"
    using renumber_renames [OF assms] by blast
  have d: "distinct (value_defs f)" and bound: "\<And>v. v \<in> set (value_defs f) \<Longrightarrow> 0 < v \<and> v \<le> if_nvals f"
    using assms value_defs_pos by (auto simp: defs_ok_def)
  let ?g = "ir_func_renumber f"
  have g': "if_vals ?g = fold (table_step f m) (sites f) (replicate (length (value_defs f)) val_info_cleared)"
    "if_local_slots ?g = map (\<lambda>v. if 1 \<le> v \<and> v \<le> if_nvals f then m ! v else 0) (if_local_slots f)"
    by (simp_all add: ir_func_renumber_def m(1) table_sites [symmetric] Let_def)
  have idx: "new_id f (value_defs f ! i) = i + 1" if "i < length (value_defs f)" for i using new_id_nth [OF d that] .
  have z: "0 < renumber_id m v \<longleftrightarrow> 0 < v" for v by (simp add: renumber_id_def)
  have "value_defs ?g = map (renumber_id m) (value_defs f)"
    unfolding value_defs_filter sites_renamed [OF g(1,2) refl] by (simp add: filter_map comp_def split_beta' z)
  also have "\<dots> = map (new_id f) (value_defs f)" using rid by simp
  also have "\<dots> = [1..<length (value_defs f) + 1]" by (rule nth_equalityI) (simp_all add: idx del: upt_Suc)
  finally have 1: "value_defs ?g = [1..<length (value_defs f) + 1]" .
  have len: "length (sites f) = length (value_defs f)" by (simp add: value_defs_def)
  have "fold (table_step f m) (sites f) (replicate (length (value_defs f)) val_info_cleared) = map (site_info f) (sites f)"
  proof -
    have "m ! fst (sites f ! i) = 0 + i + 1" if i: "i < length (sites f)" for i
    proof -
      have v: "fst (sites f ! i) = value_defs f ! i" "i < length (value_defs f)" using i by (simp_all add: value_defs_def)
      then have "m ! (value_defs f ! i) = new_id f (value_defs f ! i)" using m(2) bound [OF nth_mem [OF v(2)]] by blast
      then show ?thesis using idx [OF v(2)] v(1) by simp
    qed
    moreover have "fst s \<noteq> 0" if "s \<in> set (sites f)" for s using that by (simp add: sites_def)
    ultimately show ?thesis
      using table_fill [of "sites f" m 0 "replicate (length (value_defs f)) val_info_cleared" f] len by simp
  qed
  then have 2: "if_vals ?g = map (site_info f) (sites f)" using g'(1) by simp
  have kind: "io_kind (renumber_operand m k o') = io_kind o'" for k o' by (simp add: renumber_operand_def Let_def)
  have iu: "map operand_id (inst_uses (renumber_inst m (if_nvals f) i)) = map (new_id f) (map operand_id (inst_uses i))" for i
    using op by (auto simp: inst_uses_def renumber_inst_def filter_map comp_def kind map_concat filter_concat intro!: arg_cong [where f = concat])
  then have 3: "value_uses ?g = map (new_id f) (value_uses f)"
    unfolding value_uses_def g(2) by (simp add: renumber_block_def map_concat comp_def)
  have "if_local_slots ?g = map (new_id f) (if_local_slots f)" using g'(2) m(2) new_id_outside [OF assms] by (auto simp: not_le)
  then show ?thesis using 1 2 3 by blast
qed

text \<open>
  C37: renumbering is a renaming to canonical ids. For a function whose values are defined once, the
  definitions of the result are 1, 2, ... in document order; every use of a value now names the new id of
  its definition, and a use of an undefined value names no value; the value table has for every id the type
  of the old value and the place of its definition; the addresses of local slots follow their values.
\<close>

theorem ir_func_renumber_canonical:
  assumes "defs_ok f"
  shows "value_defs (ir_func_renumber f) = [1..<length (value_defs f) + 1] \<and>
    value_uses (ir_func_renumber f) = map (new_id f) (value_uses f) \<and>
    if_vals (ir_func_renumber f) = map (site_info f) (sites f) \<and>
    if_local_slots (ir_func_renumber f) = map (new_id f) (if_local_slots f)"
  by (rule renumber_result [OF assms])

definition demo_use :: ir_operand where
  "demo_use = \<lparr>io_kind = IROP_VALUE, io_type = 0, io_argflags = 0, io_sym = 0, io_a = 3, io_b = 0\<rparr>"

text \<open>A function with parameter 3 and an addition defining 5, both uses of 3.\<close>

definition demo_add :: ir_func where
  "demo_add = \<lparr>if_param_vals = [3], if_blocks =
     [\<lparr>ib_params = [], ib_insts = [\<lparr>ii_op = IR_IADD, ii_type = 0, ii_subop = 0, ii_volatile = False, ii_seq_cst = False, ii_result = 5, ii_loc = 0, ii_align = 0,
         ii_ops = [demo_use, demo_use], ii_edges = []\<rparr>]\<rparr>],
     if_vals = replicate 5 val_info_cleared, if_local_slots = []\<rparr>"

theorem ir_func_renumber_canonical_witness:
  "value_defs demo_add = [3, 5] \<and> value_defs (ir_func_renumber demo_add) = [1, 2] \<and> value_uses (ir_func_renumber demo_add) = map (new_id demo_add) [3, 3]"
proof -
  have d: "value_defs demo_add = [3, 5]" "value_uses demo_add = [3, 3]" "if_nvals demo_add = 5" by code_simp+
  then have "defs_ok demo_add" by (simp add: defs_ok_def)
  from ir_func_renumber_canonical [OF this] show ?thesis unfolding d by (simp add: upt_rec)
qed

end
