(* ===== verification/Ir_Sem.thy ===== *)
theory Ir_Sem
  imports Ir_Renumber
begin

text \<open>
  What it means that a pass of the optimiser preserves behaviour. A machine says what an instruction does
  with the values of its operands and with the world (memory, input and output), and which edge a terminator
  takes; it sees an instruction without the numbers of values and blocks, which passes may change. A
  function then runs block by block, and what can be observed of a run is the world after every block and
  the values the last instruction ends the run with.
\<close>

section \<open>Machines and runs\<close>

record ('v, 'w) ir_machine =
  im_const :: "ir_operand \<Rightarrow> 'v"
  im_undef :: 'v
  im_exec :: "ir_inst \<Rightarrow> 'v list \<Rightarrow> 'w \<Rightarrow> 'v \<times> 'w"
  im_branch :: "ir_inst \<Rightarrow> 'v list \<Rightarrow> nat option"

text \<open>An instruction without numbers.\<close>

definition operand_shape :: "ir_operand \<Rightarrow> ir_operand" where
  "operand_shape o' = (if io_kind o' = IROP_VALUE then o'\<lparr>io_a := 0\<rparr> else o')"

definition inst_shape :: "ir_inst \<Rightarrow> ir_inst" where
  "inst_shape i = i\<lparr>ii_result := 0, ii_ops := map operand_shape (ii_ops i),
     ii_edges := map (\<lambda>e. e\<lparr>ed_target := 0, ed_args := []\<rparr>) (ii_edges i)\<rparr>"

type_synonym 'v env = "nat \<Rightarrow> 'v"

definition operand_val :: "('v, 'w) ir_machine \<Rightarrow> 'v env \<Rightarrow> ir_operand \<Rightarrow> 'v" where
  "operand_val M env o' = (if io_kind o' = IROP_VALUE then env (operand_id o') else im_const M o')"

definition set_val :: "nat \<Rightarrow> 'v \<Rightarrow> 'v env \<Rightarrow> 'v env" where
  "set_val v x env = (if v = 0 then env else env(v := x))"

fun bind_vals :: "nat list \<Rightarrow> 'v list \<Rightarrow> 'v env \<Rightarrow> 'v env" where
  "bind_vals (p # ps) (x # xs) env = bind_vals ps xs (set_val p x env)"
| "bind_vals ps xs env = env"

definition exec_inst :: "('v, 'w) ir_machine \<Rightarrow> ir_inst \<Rightarrow> 'v env \<times> 'w \<Rightarrow> 'v env \<times> 'w" where
  "exec_inst M i s =
     (case s of (env, w) \<Rightarrow>
        (case im_exec M (inst_shape i) (map (operand_val M env) (ii_ops i)) w of (x, w') \<Rightarrow> (set_val (ii_result i) x env, w')))"

definition block_params :: "ir_func \<Rightarrow> nat \<Rightarrow> nat list" where
  "block_params f b = (if 1 \<le> b \<and> b \<le> length (if_blocks f) then ib_params (if_blocks f ! (b - 1)) else [])"

text \<open>The end of a block: the run ends, or goes on in another block whose parameters get the arguments of the edge.\<close>

definition block_exit :: "('v, 'w) ir_machine \<Rightarrow> ir_func \<Rightarrow> ir_inst list \<Rightarrow> 'v env \<times> 'w \<Rightarrow> ('w \<times> 'v list) + (nat \<times> 'v env \<times> 'w)" where
  "block_exit M f is s =
     (case s of (env, w) \<Rightarrow>
        if is = [] then Inl (w, [])
        else (let t = last is; xs = map (operand_val M env) (ii_ops t) in
          case im_branch M (inst_shape t) xs of
            None \<Rightarrow> Inl (w, xs)
          | Some k \<Rightarrow>
              if k < length (ii_edges t) then
                (let e = ii_edges t ! k in Inr (ed_target e, bind_vals (block_params f (ed_target e)) (map (operand_val M env) (ed_args e)) env, w))
              else Inl (w, xs)))"

definition block_step :: "('v, 'w) ir_machine \<Rightarrow> ir_func \<Rightarrow> nat \<times> 'v env \<times> 'w \<Rightarrow> ('w \<times> 'v list) + (nat \<times> 'v env \<times> 'w)" where
  "block_step M f s =
     (case s of (b, env, w) \<Rightarrow>
        if 1 \<le> b \<and> b \<le> length (if_blocks f) then
          (let is = ib_insts (if_blocks f ! (b - 1)) in block_exit M f is (fold (exec_inst M) is (env, w)))
        else Inl (w, []))"

lemma block_step_in:
  "1 \<le> b \<Longrightarrow> b \<le> length (if_blocks f) \<Longrightarrow> ib_insts (if_blocks f ! (b - 1)) = is \<Longrightarrow> fold (exec_inst M) is (env, w) = s \<Longrightarrow>
     block_step M f (b, env, w) = block_exit M f is s"
  by (auto simp: block_step_def Let_def)

fun run_blocks :: "('v, 'w) ir_machine \<Rightarrow> ir_func \<Rightarrow> nat \<Rightarrow> nat \<times> 'v env \<times> 'w \<Rightarrow> ('w \<times> 'v list) + (nat \<times> 'v env \<times> 'w)" where
  "run_blocks M f 0 s = Inr s"
| "run_blocks M f (Suc k) s = (case block_step M f s of Inl r \<Rightarrow> Inl r | Inr s' \<Rightarrow> run_blocks M f k s')"

text \<open>What is seen of \<open>k\<close> blocks of a call with the given arguments.\<close>

definition behaviour :: "('v, 'w) ir_machine \<Rightarrow> ir_func \<Rightarrow> 'v list \<Rightarrow> 'w \<Rightarrow> nat \<Rightarrow> ('w \<times> 'v list) + 'w" where
  "behaviour M f args w k =
     map_sum id (\<lambda>(b, env, w). w) (run_blocks M f k (1, bind_vals (if_param_vals f) args (\<lambda>_. im_undef M), w))"

section \<open>Lockstep simulation\<close>

text \<open>Two functions whose blocks keep a relation between their states behave the same.\<close>

definition step_rel :: "(nat \<times> 'v env \<times> 'w \<Rightarrow> nat \<times> 'v env \<times> 'w \<Rightarrow> bool) \<Rightarrow>
    ('w \<times> 'v list) + (nat \<times> 'v env \<times> 'w) \<Rightarrow> ('w \<times> 'v list) + (nat \<times> 'v env \<times> 'w) \<Rightarrow> bool" where
  "step_rel R = rel_sum (=) R"

locale lockstep =
  fixes f g :: ir_func
    and R :: "('v, 'w) ir_machine \<Rightarrow> nat \<times> 'v env \<times> 'w \<Rightarrow> nat \<times> 'v env \<times> 'w \<Rightarrow> bool"
    and ok :: "('v, 'w) ir_machine \<Rightarrow> bool"
  assumes same_world: "ok M \<Longrightarrow> R M (b, env, w) (b', env', w') \<Longrightarrow> w' = w"
    and start: "ok M \<Longrightarrow> R M (1, bind_vals (if_param_vals f) args (\<lambda>_. im_undef M), w) (1, bind_vals (if_param_vals g) args (\<lambda>_. im_undef M), w)"
    and step: "ok M \<Longrightarrow> R M s t \<Longrightarrow> step_rel (R M) (block_step M f s) (block_step M g t)"
begin

lemma run_related: "ok M \<Longrightarrow> R M s t \<Longrightarrow> step_rel (R M) (run_blocks M f k s) (run_blocks M g k t)"
proof (induction k arbitrary: s t)
  case (Suc k)
  from step [OF Suc.prems] have "rel_sum (=) (R M) (block_step M f s) (block_step M g t)" by (simp add: step_rel_def)
  then show ?case using Suc.IH [OF Suc.prems(1)] by (cases rule: rel_sum.cases) (auto simp: step_rel_def)
qed (simp add: step_rel_def)

lemma behaviour_same: "ok M \<Longrightarrow> behaviour M g args w k = behaviour M f args w k"
proof -
  assume ok: "ok M"
  from run_related [OF ok start [OF ok], of k args w]
  show ?thesis unfolding behaviour_def step_rel_def by (cases rule: rel_sum.cases) (auto dest: same_world [OF ok])
qed

end

end
