(* ===== verification/Worklist.thy ===== *)
theory Worklist
  imports Main
begin

text \<open>
  Marking worklists, the loop that several parts of the optimiser share: an array of marks and a stack of
  marked nodes whose successors have still to be looked at. A node is pushed when it is marked, so it is
  pushed once. The locale has the shape of the loop, its lemma says that the loop ends and marks exactly what
  can be reached.
\<close>

definition marked :: "bool list \<Rightarrow> nat set" where
  "marked live = {v. v < length live \<and> live ! v}"

text \<open>Mark a node and push it, unless it is marked already.\<close>

definition mark :: "nat \<Rightarrow> bool list \<times> nat list \<Rightarrow> bool list \<times> nat list" where
  "mark u s = (case s of (live, work) \<Rightarrow> if live ! u then (live, work) else (live[u := True], u # work))"

lemma finite_marked [simp]: "finite (marked live)"
  by (simp add: marked_def)

lemma marked_update: "u < length live \<Longrightarrow> marked (live[u := True]) = insert u (marked live)"
  by (auto simp: marked_def nth_list_update)

lemma marked_none: "marked (replicate n False) = {}"
  by (auto simp: marked_def)

lemma fold_mark:
  assumes "\<forall>u\<in>set us. u < length live"
  shows "\<exists>live' new. fold mark us (live, work) = (live', new @ work) \<and> length live' = length live \<and>
    marked live' = marked live \<union> set us \<and> set new = set us - marked live \<and> length new = card (set us - marked live)"
  using assms
proof (induction us arbitrary: live work)
  case (Cons u us)
  show ?case
  proof (cases "live ! u")
    case True
    have "insert u (set us) - marked live = set us - marked live" using True Cons.prems by (auto simp: marked_def)
    moreover have "u \<in> marked live" using True Cons.prems by (simp add: marked_def)
    ultimately show ?thesis using Cons.IH [of live work] Cons.prems True by (auto simp: mark_def)
  next
    case False
    let ?l = "live[u := True]"
    have u: "u < length live" "u \<notin> marked live" using Cons.prems False by (auto simp: marked_def)
    obtain l new where n: "fold mark us (?l, u # work) = (l, new @ u # work)" "length l = length live"
      "marked l = insert u (marked live) \<union> set us" "set new = set us - insert u (marked live)" "length new = card (set us - insert u (marked live))"
      using Cons.IH [of ?l "u # work"] Cons.prems marked_update [OF u(1)] by auto
    have eq: "insert u (set us) - marked live = insert u (set us - insert u (marked live))" using u(2) by auto
    have "fold mark (u # us) (live, work) = (l, (new @ [u]) @ work)" using n(1) False by (simp add: mark_def)
    moreover have "length (new @ [u]) = card (insert u (set us) - marked live)" unfolding eq using n(5) by simp
    moreover have "set (new @ [u]) = set (u # us) - marked live" using n(4) u(2) by auto
    ultimately show ?thesis using n(2,3) by (intro exI [of _ l] exI [of _ "new @ [u]"]) auto
  qed
qed simp

locale mark_worklist =
  fixes n :: nat
    and succs :: "nat \<Rightarrow> nat list"
    and ok :: bool
    and ret :: "bool list \<Rightarrow> 'r"
    and loop :: "bool list \<times> nat list \<Rightarrow> 'r"
  assumes loop_empty: "loop (live, []) = ret live"
    and loop_visit: "ok \<Longrightarrow> length live = n \<Longrightarrow> v < n \<Longrightarrow> loop (live, v # work) = loop (fold mark (succs v) (live, work))"
    and succs_range: "ok \<Longrightarrow> v < n \<Longrightarrow> u \<in> set (succs v) \<Longrightarrow> u < n"
begin

definition next_node :: "nat \<Rightarrow> nat \<Rightarrow> bool" where
  "next_node v u \<longleftrightarrow> v < n \<and> u \<in> set (succs v)"

definition closure :: "nat set \<Rightarrow> nat set" where
  "closure S = {v. \<exists>s\<in>S. next_node\<^sup>*\<^sup>* s v}"

lemma closure_mono: "S \<subseteq> T \<Longrightarrow> closure S \<subseteq> closure T"
  by (auto simp: closure_def)

lemma closure_step: "v \<in> closure S \<Longrightarrow> next_node v u \<Longrightarrow> u \<in> closure S"
  unfolding closure_def by (blast intro: rtranclp.rtrancl_into_rtrancl)

lemma closure_extend: "T \<subseteq> closure S \<Longrightarrow> closure T \<subseteq> closure S"
  unfolding closure_def by (blast intro: rtranclp_trans)

lemma closure_refl: "S \<subseteq> closure S"
  by (auto simp: closure_def)

lemma closed_closure: "(\<And>v u. v \<in> S \<Longrightarrow> next_node v u \<Longrightarrow> u \<in> S) \<Longrightarrow> closure S = S"
proof -
  assume step: "\<And>v u. v \<in> S \<Longrightarrow> next_node v u \<Longrightarrow> u \<in> S"
  have "u \<in> S" if "next_node\<^sup>*\<^sup>* s u" "s \<in> S" for s u using that by (induction rule: rtranclp_induct) (auto intro: step)
  then show ?thesis by (auto simp: closure_def)
qed

text \<open>Marked nodes that are not on the stack have marked successors.\<close>

definition worklist_inv :: "bool list \<Rightarrow> nat list \<Rightarrow> bool" where
  "worklist_inv live work \<longleftrightarrow> length live = n \<and> set work \<subseteq> marked live \<and>
     (\<forall>v u. v \<in> marked live - set work \<longrightarrow> next_node v u \<longrightarrow> u \<in> marked live)"

lemma loop_marks:
  assumes ok and "worklist_inv live work"
  shows "\<exists>live'. loop (live, work) = ret live' \<and> length live' = n \<and> marked live' = closure (marked live)"
  using assms(2)
proof (induction "(n - card (marked live), length work)" arbitrary: live work rule: wf_induct_rule [OF wf_lex_prod [OF wf_less_than wf_less_than]])
  case (1 live work)
  note inv = "1.prems" [unfolded worklist_inv_def]
  show ?case
  proof (cases work)
    case Nil
    have "closure (marked live) = marked live" by (rule closed_closure) (use inv Nil in auto)
    then show ?thesis using inv Nil loop_empty by auto
  next
    case (Cons v rest)
    have v: "v < n" "v \<in> marked live" using inv Cons by (auto simp: marked_def)
    obtain live' new where m: "fold mark (succs v) (live, rest) = (live', new @ rest)" "length live' = n"
      "marked live' = marked live \<union> set (succs v)" "set new = set (succs v) - marked live" "length new = card (set (succs v) - marked live)"
      using fold_mark [of "succs v" live rest] succs_range [OF \<open>ok\<close> v(1)] inv by auto
    have step: "loop (live, work) = loop (live', new @ rest)" using loop_visit [OF \<open>ok\<close> _ v(1)] inv Cons m(1) by simp
    have "worklist_inv live' (new @ rest)" unfolding worklist_inv_def
    proof (intro conjI allI impI)
      fix x u
      assume x: "x \<in> marked live' - set (new @ rest)" "next_node x u"
      show "u \<in> marked live'"
      proof (cases "x = v")
        case False
        then have "x \<in> marked live - set work" using x(1) m(3,4) Cons by auto
        then show ?thesis using inv x(2) m(3) by blast
      qed (use x(2) m(3) in \<open>simp add: next_node_def\<close>)
    qed (use m inv Cons in auto)
    moreover have "((n - card (marked live'), length (new @ rest)), (n - card (marked live), length work)) \<in> less_than <*lex*> less_than"
    proof (cases "new = []")
      case True
      then have "marked live' = marked live" using m(3,4) by auto
      then show ?thesis using True Cons by simp
    next
      case False
      then obtain x where "x \<in> set new" by (cases new) auto
      then have "x \<in> marked live'" "x \<notin> marked live" using m(3,4) by auto
      then have "marked live \<subset> marked live'" using m(3) by blast
      then have "card (marked live) < card (marked live')" by (simp add: psubset_card_mono)
      moreover have "card (marked live') \<le> n" using m(2) card_mono [of "{..<n}" "marked live'"] by (auto simp: marked_def)
      ultimately show ?thesis by auto
    qed
    ultimately obtain l where l: "loop (live', new @ rest) = ret l" "length l = n" "marked l = closure (marked live')"
      using "1.hyps" [of live' "new @ rest"] by blast
    have "marked live' \<subseteq> closure (marked live)"
      using v closure_step [of v "marked live"] closure_refl [of "marked live"] by (auto simp: m(3) next_node_def)
    then have "closure (marked live') = closure (marked live)"
      using closure_extend closure_mono [of "marked live" "marked live'"] m(3) by blast
    then show ?thesis using step l by auto
  qed
qed

end

end
