(* ===== verification/Ir_Cfg.thy ===== *)
theory Ir_Cfg
  imports Ir_Dom Ir_Sem Worklist
begin

text \<open>
  Reachable blocks and their cleanup: ir_func_block_reachable, ir_func_remove_unreachable and
  ir_func_remove_unreachable_with_log of src/src/ir/ir.c. The stack of blocks to visit is a list with the
  top at its head; the log of removed blocks is the list of block numbers handed to log_removed_block.
\<close>

section \<open>The code\<close>

definition reach_target :: "nat \<Rightarrow> nat \<Rightarrow> bool list \<times> nat list \<Rightarrow> bool list \<times> nat list" where
  "reach_target n t s =
     (case s of (reach, work) \<Rightarrow> if 1 \<le> t \<and> t \<le> n \<and> \<not> reach ! (t - 1) then (reach[t - 1 := True], (t - 1) # work) else (reach, work))"

definition reach_block :: "ir_func \<Rightarrow> nat \<Rightarrow> bool list \<times> nat list \<Rightarrow> bool list \<times> nat list" where
  "reach_block f b s = fold (\<lambda>i. fold (reach_target (nblocks f)) (map ed_target (ii_edges i))) (ib_insts (if_blocks f ! b)) s"

partial_function (option) reach_loop :: "ir_func \<Rightarrow> bool list \<times> nat list \<Rightarrow> bool list option" where
  "reach_loop f s =
     (case s of (reach, work) \<Rightarrow>
        (case work of [] \<Rightarrow> Some reach | b # work' \<Rightarrow> reach_loop f (reach_block f b (reach, work'))))"

declare reach_loop.simps [code]

definition reach_start :: "ir_func \<Rightarrow> bool list \<times> nat list" where
  "reach_start f = ((replicate (nblocks f) False)[0 := True], [0])"

definition ir_func_block_reachable :: "ir_func \<Rightarrow> nat \<Rightarrow> bool option" where
  "ir_func_block_reachable f b =
     (if b = 0 \<or> b > nblocks f then Some False
      else case reach_loop f (reach_start f) of None \<Rightarrow> None | Some reach \<Rightarrow> Some (reach ! (b - 1)))"

text \<open>The new numbers of the blocks; a dead block has none, its entry is not read.\<close>

fun remap_loop :: "nat \<Rightarrow> bool list \<Rightarrow> nat list" where
  "remap_loop next' [] = []"
| "remap_loop next' (r # rs) = (if r then next' # remap_loop (next' + 1) rs else 0 # remap_loop next' rs)"

text \<open>The dead blocks that are reported: those no dead terminator leads to, or the first one.\<close>

definition dead_pred :: "ir_func \<Rightarrow> bool list \<Rightarrow> nat \<Rightarrow> bool" where
  "dead_pred f reach i =
     list_ex (\<lambda>from'. \<not> reach ! from' \<and> ib_insts (if_blocks f ! from') \<noteq> [] \<and>
        list_ex (\<lambda>e. ed_target e = i + 1) (ii_edges (last (ib_insts (if_blocks f ! from'))))) [0..<nblocks f]"

definition dead_log :: "ir_func \<Rightarrow> bool list \<Rightarrow> nat list" where
  "dead_log f reach =
     (let roots = filter (\<lambda>i. \<not> reach ! i \<and> \<not> dead_pred f reach i) [0..<nblocks f] in
      if roots \<noteq> [] then roots else take 1 (filter (\<lambda>i. \<not> reach ! i) [0..<nblocks f]))"

definition cut_val :: "nat \<Rightarrow> bool list \<Rightarrow> nat list \<Rightarrow> ir_val_info \<Rightarrow> ir_val_info" where
  "cut_val n reach remap vi =
     (let db = iv_def_block vi in
      if 1 \<le> db \<and> db \<le> n then
        if \<not> reach ! (db - 1) then vi\<lparr>iv_def_block := 0, iv_def_kind := VDEF_NONE\<rparr>
        else vi\<lparr>iv_def_block := remap ! (db - 1) + 1\<rparr>
      else vi)"

definition retarget :: "nat \<Rightarrow> nat list \<Rightarrow> nat \<Rightarrow> nat" where
  "retarget n remap t = (if 1 \<le> t \<and> t \<le> n then remap ! (t - 1) + 1 else t)"

definition retarget_inst :: "nat \<Rightarrow> nat list \<Rightarrow> ir_inst \<Rightarrow> ir_inst" where
  "retarget_inst n remap i = i\<lparr>ii_edges := map (\<lambda>e. e\<lparr>ed_target := retarget n remap (ed_target e)\<rparr>) (ii_edges i)\<rparr>"

definition retarget_block :: "nat \<Rightarrow> nat list \<Rightarrow> ir_block \<Rightarrow> ir_block" where
  "retarget_block n remap blk = blk\<lparr>ib_insts := map (retarget_inst n remap) (ib_insts blk)\<rparr>"

text \<open>Blocks move to their new places in the same array, in order.\<close>

definition compact_block :: "nat \<Rightarrow> bool list \<Rightarrow> nat list \<Rightarrow> nat \<Rightarrow> ir_block list \<Rightarrow> ir_block list" where
  "compact_block n reach remap i bs = (if reach ! i then bs[remap ! i := retarget_block n remap (bs ! i)] else bs)"

definition remove_unreachable :: "ir_func \<Rightarrow> bool \<Rightarrow> (ir_func \<times> nat list) option" where
  "remove_unreachable f retain_provenance =
     (if nblocks f = 0 then Some (f, [])
      else case reach_loop f (reach_start f) of
        None \<Rightarrow> None
      | Some reach \<Rightarrow>
          if list_all id reach then Some (f, [])
          else (let n = nblocks f; remap = remap_loop 0 reach; next' = length (filter id reach) in
            Some (f\<lparr>if_vals := map (cut_val n reach remap) (if_vals f),
                     if_blocks := take next' (fold (compact_block n reach remap) [0..<n] (if_blocks f))\<rparr>,
                  if retain_provenance then dead_log f reach else [])))"

definition ir_func_remove_unreachable :: "ir_func \<Rightarrow> ir_func option" where
  "ir_func_remove_unreachable f = map_option fst (remove_unreachable f False)"

definition ir_func_remove_unreachable_with_log :: "ir_func \<Rightarrow> (ir_func \<times> nat list) option" where
  "ir_func_remove_unreachable_with_log f = remove_unreachable f True"

section \<open>The marked blocks are the reachable ones\<close>

definition succ_ids :: "ir_func \<Rightarrow> nat \<Rightarrow> nat list" where
  "succ_ids f b = map (\<lambda>t. t - 1) (filter (\<lambda>t. 1 \<le> t \<and> t \<le> nblocks f) (concat (map (\<lambda>i. map ed_target (ii_edges i)) (ib_insts (if_blocks f ! b)))))"

lemma reach_block_mark: "reach_block f b s = fold mark (succ_ids f b) s"
proof -
  have t: "reach_target n t s = (if 1 \<le> t \<and> t \<le> n then mark (t - 1) s else s)" for n t s
    by (cases s) (simp add: reach_target_def mark_def)
  have "fold (reach_target n) ts s = fold mark (map (\<lambda>t. t - 1) (filter (\<lambda>t. 1 \<le> t \<and> t \<le> n) ts)) s" for n ts s
    by (induction ts arbitrary: s) (simp_all add: t)
  then show ?thesis unfolding reach_block_def succ_ids_def fold_concat_map by simp
qed

lemma succ_ids_edge: "b < nblocks f \<Longrightarrow> u \<in> set (succ_ids f b) \<longleftrightarrow> edge f b u"
  by (force simp: succ_ids_def edge_def is_pred_def list_ex_iff image_iff)

interpretation reach: mark_worklist "nblocks f" "succ_ids f" True Some "reach_loop f" for f
proof unfold_locales
  show "reach_loop f (live, []) = Some live" for live by (subst reach_loop.simps) simp
  show "reach_loop f (live, v # work) = reach_loop f (fold mark (succ_ids f v) (live, work))" for live v work
    by (subst reach_loop.simps) (simp add: reach_block_mark)
qed (simp add: succ_ids_edge edge_def)

lemma reach_closure: "0 < nblocks f \<Longrightarrow> reach.closure f {0} = {b. reaches (edge f) b}"
proof -
  have n: "reach.next_node f = edge f" by (intro ext) (auto simp: reach.next_node_def succ_ids_edge edge_def)
  have "(edge f)\<^sup>*\<^sup>* 0 b \<longleftrightarrow> reaches (edge f) b" for b
  proof
    show "reaches (edge f) b" if "(edge f)\<^sup>*\<^sup>* 0 b" using that by (induction rule: rtranclp_induct) (auto intro: reaches_root reaches_edge)
    show "(edge f)\<^sup>*\<^sup>* 0 b" if "reaches (edge f) b" using that by (induction rule: reaches_induct) auto
  qed
  then show ?thesis by (simp add: reach.closure_def n)
qed

lemma reaches_block: "reaches (edge f) b \<Longrightarrow> 0 < nblocks f \<Longrightarrow> b < nblocks f"
  by (induction rule: reaches_induct) (auto simp: edge_def)

lemma reach_loop_exact:
  assumes "0 < nblocks f"
  shows "\<exists>r. reach_loop f (reach_start f) = Some r \<and> length r = nblocks f \<and> (\<forall>b<nblocks f. r ! b \<longleftrightarrow> reaches (edge f) b)"
proof -
  have m: "marked ((replicate (nblocks f) False)[0 := True]) = {0}" using assms by (simp add: marked_update marked_none)
  then have "reach.worklist_inv f ((replicate (nblocks f) False)[0 := True]) [0]" by (simp add: reach.worklist_inv_def)
  from reach.loop_marks [OF TrueI this] obtain r where r: "reach_loop f (reach_start f) = Some r" "length r = nblocks f"
    "marked r = {b. reaches (edge f) b}" unfolding reach_start_def m reach_closure [OF assms] by blast
  then have "r ! b \<longleftrightarrow> reaches (edge f) b" if "b < nblocks f" for b using that by (auto simp: marked_def)
  then show ?thesis using r by blast
qed

section \<open>Compaction\<close>

text \<open>The place of a reachable block among the reachable ones.\<close>

definition rank :: "bool list \<Rightarrow> nat \<Rightarrow> nat" where
  "rank r i = length (filter id (take i r))"

lemma rank_le: "rank r i \<le> i"
  unfolding rank_def by (rule order_trans [OF length_filter_le]) simp

lemma rank_Suc: "i < length r \<Longrightarrow> rank r (Suc i) = rank r i + of_bool (r ! i)"
  by (simp add: rank_def take_Suc_conv_app_nth)

lemma rank_mono: "i \<le> j \<Longrightarrow> rank r i \<le> rank r j"
proof -
  assume "i \<le> j"
  then obtain d where "take j r = take i r @ d" by (metis add_diff_inverse_nat not_less take_add)
  then show ?thesis by (simp add: rank_def)
qed

lemma rank_less: "i < j \<Longrightarrow> i < length r \<Longrightarrow> r ! i \<Longrightarrow> rank r i < rank r j"
  using rank_mono [of "Suc i" j r] rank_Suc [of i r] by simp

lemma rank_inj: "i < length r \<Longrightarrow> j < length r \<Longrightarrow> r ! i \<Longrightarrow> r ! j \<Longrightarrow> rank r i = rank r j \<Longrightarrow> i = j"
  by (metis less_irrefl linorder_neqE_nat rank_less)

lemma remap_rank: "i < length r \<Longrightarrow> r ! i \<Longrightarrow> remap_loop k r ! i = k + rank r i"
proof (induction r arbitrary: i k)
  case (Cons b r)
  then show ?case by (cases i) (auto simp: rank_def)
qed simp

lemma rank_onto: "k < length (filter id r) \<Longrightarrow> \<exists>i<length r. r ! i \<and> rank r i = k"
proof (induction r arbitrary: k)
  case (Cons b r)
  show ?case
  proof (cases "b \<and> k = 0")
    case True
    then show ?thesis by (intro exI [of _ 0]) (simp add: rank_def)
  next
    case False
    have "(if b then k - 1 else k) < length (filter id r)" using False Cons.prems by (cases k) (auto simp: id_def split: if_splits)
    then obtain i where "i < length r" "r ! i" "rank r i = (if b then k - 1 else k)" using Cons.IH by blast
    then show ?thesis using False by (intro exI [of _ "Suc i"]) (auto simp: rank_def split: if_splits)
  qed
qed simp

lemma compact_fold:
  assumes "length bs = n" "length r = n" "j \<le> n"
  shows "length (fold (compact_block n r (remap_loop 0 r)) [0..<j] bs) = n \<and>
    (\<forall>i<j. r ! i \<longrightarrow> fold (compact_block n r (remap_loop 0 r)) [0..<j] bs ! rank r i = retarget_block n (remap_loop 0 r) (bs ! i)) \<and>
    (\<forall>i. j \<le> i \<longrightarrow> fold (compact_block n r (remap_loop 0 r)) [0..<j] bs ! i = bs ! i)"
  using assms(3)
proof (induction j)
  case (Suc j)
  define ys where "ys = fold (compact_block n r (remap_loop 0 r)) [0..<j] bs"
  have ih: "length ys = n" "\<forall>i<j. r ! i \<longrightarrow> ys ! rank r i = retarget_block n (remap_loop 0 r) (bs ! i)" "\<forall>i. j \<le> i \<longrightarrow> ys ! i = bs ! i"
    using Suc unfolding ys_def by auto
  have step: "fold (compact_block n r (remap_loop 0 r)) [0..<Suc j] bs = compact_block n r (remap_loop 0 r) j ys" by (simp add: ys_def)
  have j: "j < length r" "rank r j < n" "rank r j \<le> j" using Suc.prems assms(2) rank_le [of r j] by auto
  show ?case
  proof (cases "r ! j")
    case True
    then have c: "compact_block n r (remap_loop 0 r) j ys = ys[rank r j := retarget_block n (remap_loop 0 r) (bs ! j)]"
      using remap_rank [OF j(1) True, of 0] ih(3) by (simp add: compact_block_def)
    have "rank r i \<noteq> rank r j" if "i < j" "r ! i" for i using rank_less [of i j r] that j(1) by simp
    then have ne: "ys[rank r j := x] ! rank r i = ys ! rank r i" if "i < j" "r ! i" for i x using that by (metis nth_list_update_neq)
    show ?thesis unfolding step c
    proof (intro conjI allI impI)
      fix i
      show "ys[rank r j := retarget_block n (remap_loop 0 r) (bs ! j)] ! rank r i = retarget_block n (remap_loop 0 r) (bs ! i)" if "i < Suc j" "r ! i"
        using that ne ih(1,2) j(2) by (cases "i = j") simp_all
      show "ys[rank r j := retarget_block n (remap_loop 0 r) (bs ! j)] ! i = bs ! i" if "Suc j \<le> i" using that j(3) ih(3) by simp
    qed (use ih(1) in simp)
  next
    case False
    then show ?thesis unfolding step using ih by (auto simp: compact_block_def less_Suc_eq)
  qed
qed (use assms in simp)

text \<open>The result of the cleanup, block by block.\<close>

definition cut_of :: "ir_func \<Rightarrow> bool list \<Rightarrow> ir_func \<Rightarrow> bool" where
  "cut_of f r g \<longleftrightarrow> length r = nblocks f \<and> if_param_vals g = if_param_vals f \<and> nblocks g = length (filter id r) \<and>
     (\<forall>i<nblocks f. r ! i \<longrightarrow> if_blocks g ! rank r i = retarget_block (nblocks f) (remap_loop 0 r) (if_blocks f ! i))"

lemma rank_bound: "i < length r \<Longrightarrow> r ! i \<Longrightarrow> rank r i < length (filter id r)"
  using rank_less [of i "length r" r] by (simp add: rank_def)

lemma compact_cut:
  assumes "length r = nblocks f"
  shows "cut_of f r (f\<lparr>if_vals := vs, if_blocks := take (length (filter id r)) (fold (compact_block (nblocks f) r (remap_loop 0 r)) [0..<nblocks f] (if_blocks f))\<rparr>)"
proof -
  have le: "length (filter id r) \<le> nblocks f" using length_filter_le [of id r] assms by simp
  show ?thesis using compact_fold [of "if_blocks f" "nblocks f" r "nblocks f"] assms le rank_bound [of _ r] by (simp add: cut_of_def)
qed

section \<open>The cleanup keeps behaviour and leaves only reachable blocks\<close>

lemma edge_range: "edge f a b \<Longrightarrow> a < nblocks f \<and> b < nblocks f"
  by (simp add: edge_def)

lemma edge_iff: "edge f a b \<longleftrightarrow> a < nblocks f \<and> b < nblocks f \<and> b + 1 \<in> ed_target ` (\<Union>i\<in>set (ib_insts (if_blocks f ! a)). set (ii_edges i))"
  by (force simp: edge_def is_pred_def list_ex_iff)

lemma cut_edge:
  assumes cut: "cut_of f r g" and r: "\<forall>b<nblocks f. r ! b \<longleftrightarrow> reaches (edge f) b" and "edge f a b" "reaches (edge f) a"
  shows "edge g (rank r a) (rank r b)"
proof -
  have ab: "a < nblocks f" "b < nblocks f" "r ! a" "r ! b" using assms(3,4) r reaches_edge [OF assms(4,3)] edge_range [OF assms(3)] by auto
  obtain i e where i: "i \<in> set (ib_insts (if_blocks f ! a))" "e \<in> set (ii_edges i)" "ed_target e = b + 1" using assms(3) by (auto simp: edge_iff)
  have len: "length r = nblocks f" "nblocks g = length (filter id r)" using cut by (simp_all add: cut_of_def)
  have t: "retarget (nblocks f) (remap_loop 0 r) (b + 1) = rank r b + 1" using ab len(1) remap_rank [of b r 0] by (simp add: retarget_def)
  have blk: "if_blocks g ! rank r a = retarget_block (nblocks f) (remap_loop 0 r) (if_blocks f ! a)" using cut ab by (simp add: cut_of_def)
  have "rank r a < nblocks g" "rank r b < nblocks g" using rank_bound [of _ r] ab len by auto
  moreover have "rank r b + 1 \<in> ed_target ` (\<Union>i\<in>set (ib_insts (if_blocks g ! rank r a)). set (ii_edges i))"
    using i t by (force simp: blk retarget_block_def retarget_inst_def)
  ultimately show ?thesis by (simp add: edge_iff)
qed

lemma cut_reaches:
  assumes cut: "cut_of f r g" and r: "\<forall>b<nblocks f. r ! b \<longleftrightarrow> reaches (edge f) b" and "reaches (edge f) b"
  shows "reaches (edge g) (rank r b)"
  using assms(3)
proof (induction rule: reaches_induct)
  case root
  then show ?case by (simp add: rank_def reaches_root)
next
  case (edge j b)
  then show ?case using reaches_edge [OF edge.IH cut_edge [OF cut r edge.hyps(2,1)]] by simp
qed

lemma cut_all_reachable:
  assumes cut: "cut_of f r g" and r: "\<forall>b<nblocks f. r ! b \<longleftrightarrow> reaches (edge f) b" and "k < nblocks g"
  shows "reaches (edge g) k"
proof -
  have "k < length (filter id r)" "length r = nblocks f" using assms by (simp_all add: cut_of_def)
  then obtain i where "i < length r" "r ! i" "rank r i = k" using rank_onto by blast
  then show ?thesis using cut_reaches [OF cut r, of i] r \<open>length r = nblocks f\<close> by simp
qed

definition cut_rel :: "ir_func \<Rightarrow> bool list \<Rightarrow> nat \<times> 'v env \<times> 'w \<Rightarrow> nat \<times> 'v env \<times> 'w \<Rightarrow> bool" where
  "cut_rel f r s t = (case (s, t) of ((b, env, w), (b', env', w')) \<Rightarrow> w' = w \<and> env' = env \<and>
     (if 1 \<le> b \<and> b \<le> nblocks f then r ! (b - 1) \<and> b' = rank r (b - 1) + 1 else b' = b))"

lemma retarget_inst_simps:
  "ii_ops (retarget_inst n m i) = ii_ops i" "ii_result (retarget_inst n m i) = ii_result i" "length (ii_edges (retarget_inst n m i)) = length (ii_edges i)"
  "inst_shape (retarget_inst n m i) = inst_shape i" "exec_inst M (retarget_inst n m i) = exec_inst M i"
  "k < length (ii_edges i) \<Longrightarrow> ed_target (ii_edges (retarget_inst n m i) ! k) = retarget n m (ed_target (ii_edges i ! k))"
  "k < length (ii_edges i) \<Longrightarrow> ed_args (ii_edges (retarget_inst n m i) ! k) = ed_args (ii_edges i ! k)"
  by (simp_all add: retarget_inst_def exec_inst_def inst_shape_def comp_def fun_eq_iff)

lemma cut_params:
  assumes "cut_of f r g"
  shows "(1 \<le> t \<and> t \<le> nblocks f \<Longrightarrow> r ! (t - 1)) \<Longrightarrow> block_params g (retarget (nblocks f) (remap_loop 0 r) t) = block_params f t"
proof (cases "1 \<le> t \<and> t \<le> nblocks f")
  case True
  assume "1 \<le> t \<and> t \<le> nblocks f \<Longrightarrow> r ! (t - 1)"
  then have t: "r ! (t - 1)" "t - 1 < length r" "t - 1 < nblocks f" using True assms by (auto simp: cut_of_def)
  have "retarget (nblocks f) (remap_loop 0 r) t = rank r (t - 1) + 1" using True remap_rank [OF t(2,1), of 0] by (simp add: retarget_def)
  then show ?thesis using True assms t rank_bound [OF t(2,1)] by (simp add: block_params_def cut_of_def retarget_block_def)
next
  case False
  have "nblocks g \<le> nblocks f" using assms length_filter_le [of id r] by (simp add: cut_of_def)
  moreover have "retarget (nblocks f) (remap_loop 0 r) t = t" using False by (auto simp: retarget_def)
  ultimately show ?thesis using False by (auto simp: block_params_def)
qed

lemma cut_step:
  assumes cut: "cut_of f r g" and r: "\<forall>b<nblocks f. r ! b \<longleftrightarrow> reaches (edge f) b" and rel: "cut_rel f r s t"
  shows "step_rel (cut_rel f r) (block_step M f s) (block_step M g t)"
proof -
  obtain b env w b' where s: "s = (b, env, w)" "t = (b', env, w)" and b': "if 1 \<le> b \<and> b \<le> nblocks f then r ! (b - 1) \<and> b' = rank r (b - 1) + 1 else b' = b"
    using rel by (cases s; cases t) (auto simp: cut_rel_def)
  have len: "length r = nblocks f" "nblocks g = length (filter id r)" using cut by (simp_all add: cut_of_def)
  let ?R = "retarget_inst (nblocks f) (remap_loop 0 r)"
  show ?thesis
  proof (cases "1 \<le> b \<and> b \<le> nblocks f")
    case True
    then have b: "b - 1 < nblocks f" "r ! (b - 1)" "b' = rank r (b - 1) + 1" using b' by auto
    define "is" where "is = ib_insts (if_blocks f ! (b - 1))"
    obtain e v where fin: "fold (exec_inst M) is (env, w) = (e, v)" by fastforce
    have "ib_insts (if_blocks g ! (b' - 1)) = map ?R is" using cut b by (simp add: cut_of_def retarget_block_def is_def)
    moreover have "fold (exec_inst M) (map ?R is) (env, w) = (e, v)" using fin by (simp add: fold_map comp_def retarget_inst_simps)
    ultimately have stg: "block_step M g t = block_exit M g (map ?R is) (e, v)"
      unfolding s using b rank_bound [of "b - 1" r] len by (intro block_step_in) simp_all
    have stf: "block_step M f s = block_exit M f is (e, v)" unfolding s using True fin by (intro block_step_in) (simp_all add: is_def)
    show ?thesis
    proof (cases "is = []")
      case False
      define l where "l = last is"
      have l: "l \<in> set is" "last (map ?R is) = ?R l" using False by (simp_all add: l_def last_map)
      have tgt: "r ! (ed_target (ii_edges l ! k) - 1)" if "k < length (ii_edges l)" "1 \<le> ed_target (ii_edges l ! k) \<and> ed_target (ii_edges l ! k) \<le> nblocks f" for k
      proof -
        have "edge f (b - 1) (ed_target (ii_edges l ! k) - 1)" unfolding edge_iff using that b(1) l(1) nth_mem [OF that(1)] by (force simp: is_def)
        then show ?thesis using reaches_edge r b edge_range by blast
      qed
      have "cut_rel f r (ed_target (ii_edges l ! k), en, v) (retarget (nblocks f) (remap_loop 0 r) (ed_target (ii_edges l ! k)), en, v)"
        if "k < length (ii_edges l)" for k and en :: "'a env"
        using tgt [OF that] remap_rank [of "ed_target (ii_edges l ! k) - 1" r 0] len(1) by (auto simp: cut_rel_def retarget_def)
      then show ?thesis unfolding stg stf using False cut_params [OF cut tgt]
        by (auto simp: block_exit_def l(2) l_def [symmetric] retarget_inst_simps Let_def step_rel_def split: option.splits)
    qed (simp add: stg stf block_exit_def step_rel_def)
  next
    case False
    have "nblocks g \<le> nblocks f" using len length_filter_le [of id r] by simp
    then show ?thesis using False b' by (auto simp: block_step_def s step_rel_def)
  qed
qed

lemma cut_start:
  assumes "cut_of f r g" "0 < nblocks f" "\<forall>b<nblocks f. r ! b \<longleftrightarrow> reaches (edge f) b"
  shows "cut_rel f r (1, bind_vals (if_param_vals f) args e, w) (1, bind_vals (if_param_vals g) args e, w)"
proof -
  have "rank r 0 = 0" "r ! 0" using assms reaches_root by (auto simp: rank_def)
  then show ?thesis using assms(1,2) by (simp add: cut_rel_def cut_of_def)
qed

interpretation cleanup: lockstep f g "\<lambda>M. cut_rel f r" "\<lambda>M. cut_of f r g \<and> 0 < nblocks f \<and> (\<forall>b<nblocks f. r ! b \<longleftrightarrow> reaches (edge f) b)" for f g r
  by unfold_locales (simp add: cut_rel_def, blast intro: cut_start, blast intro: cut_step)

text \<open>
  C10: the cleanup of unreachable blocks is complete and safe. It ends for every function; the blocks of
  the result are as many as the function has reachable ones, and every one of them is reachable in the
  result; on every machine the result behaves as the function does.
\<close>

theorem ir_func_remove_unreachable_correct:
  assumes "0 < nblocks f"
  shows "\<exists>g. ir_func_remove_unreachable f = Some g \<and> nblocks g = card {b. reaches (edge f) b} \<and>
    (\<forall>b<nblocks g. reaches (edge g) b) \<and> (\<forall>(M :: ('v, 'w) ir_machine) args w k. behaviour M g args w k = behaviour M f args w k)"
proof -
  obtain r where r: "reach_loop f (reach_start f) = Some r" "length r = nblocks f" "\<forall>b<nblocks f. r ! b \<longleftrightarrow> reaches (edge f) b"
    using reach_loop_exact [OF assms] by blast
  have set: "{b. reaches (edge f) b} = {b. b < length r \<and> r ! b}" using r reaches_block [OF _ assms] by auto
  have card: "card {b. reaches (edge f) b} = length (filter id r)" unfolding set using length_filter_conv_card [of id r] by simp
  show ?thesis
  proof (cases "list_all id r")
    case True
    then have "\<forall>b<nblocks f. r ! b" using r(2) by (simp add: list_all_length)
    then have "\<forall>b<nblocks f. reaches (edge f) b" using r(3) by blast
    moreover have "filter id r = r" using True by (simp add: list_all_iff)
    moreover have "ir_func_remove_unreachable f = Some f" using assms r(1) True by (simp add: ir_func_remove_unreachable_def remove_unreachable_def)
    ultimately show ?thesis using card r(2) by simp
  next
    case False
    define g where "g = f\<lparr>if_vals := map (cut_val (nblocks f) r (remap_loop 0 r)) (if_vals f),
      if_blocks := take (length (filter id r)) (fold (compact_block (nblocks f) r (remap_loop 0 r)) [0..<nblocks f] (if_blocks f))\<rparr>"
    have cut: "cut_of f r g" unfolding g_def by (rule compact_cut [OF r(2)])
    have "ir_func_remove_unreachable f = Some g" using assms r(1) False by (simp add: ir_func_remove_unreachable_def remove_unreachable_def g_def Let_def)
    moreover have "nblocks g = card {b. reaches (edge f) b}" using cut card by (simp add: cut_of_def)
    moreover have "behaviour M g args w k = behaviour M f args w k" for M :: "('v, 'w) ir_machine" and args w k
      by (rule cleanup.behaviour_same) (use cut assms r(3) in blast)
    ultimately show ?thesis using cut_all_reachable [OF cut r(3)] by blast
  qed
qed

definition demo_jump :: "nat \<Rightarrow> ir_block" where
  "demo_jump t = \<lparr>ib_params = [], ib_insts = [\<lparr>ii_op = IR_BR, ii_type = 0, ii_subop = 0, ii_volatile = False, ii_seq_cst = False,
     ii_result = 0, ii_loc = 0, ii_align = 0, ii_ops = [], ii_edges = [\<lparr>ed_target = t, ed_args = [], ed_case_val = 0\<rparr>]\<rparr>]\<rparr>"

text \<open>The second block is dead.\<close>

definition demo_dead :: ir_func where
  "demo_dead = \<lparr>if_param_vals = [], if_blocks = [demo_jump 3, demo_jump 3, demo_jump 1], if_vals = [], if_local_slots = []\<rparr>"

theorem ir_func_remove_unreachable_correct_witness:
  "ir_func_remove_unreachable demo_dead = Some (demo_dead\<lparr>if_blocks := [demo_jump 2, demo_jump 1]\<rparr>) \<and>
   card {b. reaches (edge demo_dead) b} = 2 \<and>
   (\<forall>(M :: (nat, nat) ir_machine) w k. behaviour M (demo_dead\<lparr>if_blocks := [demo_jump 2, demo_jump 1]\<rparr>) [] w k = behaviour M demo_dead [] w k)"
proof -
  have "ir_func_remove_unreachable demo_dead = Some (demo_dead\<lparr>if_blocks := [demo_jump 2, demo_jump 1]\<rparr>)" by code_simp
  moreover have "0 < nblocks demo_dead" by (simp add: demo_dead_def)
  note ir_func_remove_unreachable_correct [OF this, where ?'v = nat and ?'w = nat]
  ultimately show ?thesis by auto
qed

text \<open>
  C39: the reachability query ends and answers whether the block exists and a walk from the entry leads to it.
\<close>

theorem ir_func_block_reachable_exact:
  "ir_func_block_reachable f b = Some (1 \<le> b \<and> b \<le> nblocks f \<and> reaches (edge f) (b - 1))"
proof (cases "b = 0 \<or> b > nblocks f")
  case False
  then have "0 < nblocks f" "b - 1 < nblocks f" by auto
  then show ?thesis using reach_loop_exact [of f] False by (auto simp: ir_func_block_reachable_def)
qed (auto simp: ir_func_block_reachable_def)

text \<open>
  A dead cycle that no dead block outside it leads to is reported only if no other dead block is: here
  block 3 jumps to itself, block 2 is dead too, and the log has block 2 alone.
\<close>

lemma dead_cycle_not_logged:
  "map_option snd (ir_func_remove_unreachable_with_log
     \<lparr>if_param_vals = [], if_blocks = [demo_jump 1, demo_jump 1, demo_jump 3], if_vals = [], if_local_slots = []\<rparr>) = Some [1]"
  by code_simp

end
