(* ===== verification/Ir_Renumber_Sem.thy ===== *)
theory Ir_Renumber_Sem
  imports Ir_Sem
begin

text \<open>
  Renumbering does not change what a function does: ir_func_renumber of src/src/ir/ir.c on the machines of
  the theory of runs.
\<close>

text \<open>Every use names a value that is defined.\<close>

definition uses_defined :: "ir_func \<Rightarrow> bool" where
  "uses_defined f \<longleftrightarrow> (\<forall>v\<in>set (value_uses f). v \<in> set (value_defs f))"

definition env_renamed :: "ir_func \<Rightarrow> 'v env \<Rightarrow> 'v env \<Rightarrow> bool" where
  "env_renamed f env env' \<longleftrightarrow> (\<forall>v\<in>set (value_defs f). env' (new_id f v) = env v)"

lemma new_id_inj: "distinct (value_defs f) \<Longrightarrow> v \<in> set (value_defs f) \<Longrightarrow> v' \<in> set (value_defs f) \<Longrightarrow> new_id f v = new_id f v' \<longleftrightarrow> v = v'"
  using new_id_nth [of f] by (auto simp: in_set_conv_nth)

lemma new_id_pos: "distinct (value_defs f) \<Longrightarrow> v \<in> set (value_defs f) \<Longrightarrow> 0 < new_id f v"
  using new_id_nth [of f] by (auto simp: in_set_conv_nth)

lemma inst_in_uses: "b < length (if_blocks f) \<Longrightarrow> i \<in> set (ib_insts (if_blocks f ! b)) \<Longrightarrow> u \<in> set (inst_uses i) \<Longrightarrow> operand_id u \<in> set (value_uses f)"
  by (force simp: value_uses_def)

lemma value_defs_set:
  "set (value_defs f) = (set (if_param_vals f) \<union> (\<Union>b\<in>set (if_blocks f). set (ib_params b) \<union> ii_result ` set (ib_insts b))) - {0}"
proof -
  have b: "set (map fst (block_sites (k, blk))) = set (ib_params blk) \<union> ii_result ` set (ib_insts blk)" for k blk
    by (simp add: block_sites_def comp_def split_beta' map_enumerate_results del: set_map) (simp add: image_Un)
  have "set (map fst (concat (map block_sites (enumerate k bs)))) = (\<Union>b\<in>set bs. set (ib_params b) \<union> ii_result ` set (ib_insts b))" for k bs
    by (induction bs arbitrary: k) (simp_all add: b image_Un del: set_map)
  then have "set (map fst (all_sites f)) = set (if_param_vals f) \<union> (\<Union>b\<in>set (if_blocks f). set (ib_params b) \<union> ii_result ` set (ib_insts b))"
    by (simp add: all_sites_def image_Un comp_def del: set_concat)
  then show ?thesis by (auto simp: value_defs_filter)
qed

lemma result_defined: "blk \<in> set (if_blocks f) \<Longrightarrow> i \<in> set (ib_insts blk) \<Longrightarrow> ii_result i \<noteq> 0 \<Longrightarrow> ii_result i \<in> set (value_defs f)"
  by (auto simp: value_defs_set)

lemma set_val_renamed:
  assumes "distinct (value_defs f)" "env_renamed f env env'" "v \<in> set (value_defs f)" "v \<noteq> 0"
  shows "env_renamed f (set_val v x env) (set_val (new_id f v) x env')"
  using assms new_id_inj [OF assms(1)] new_id_pos [OF assms(1,3)] by (auto simp: env_renamed_def set_val_def)

lemma bind_vals_renamed:
  assumes "distinct (value_defs f)" "env_renamed f env env'" "\<And>p. p \<in> set ps \<Longrightarrow> p = 0 \<or> p \<in> set (value_defs f)"
    "\<And>p. p \<in> set (value_defs f) \<Longrightarrow> r p = new_id f p" "r 0 = 0"
  shows "env_renamed f (bind_vals ps xs env) (bind_vals (map r ps) xs env')"
  using assms(2,3)
proof (induction ps xs env arbitrary: env' rule: bind_vals.induct)
  case (1 p ps x xs env)
  have "env_renamed f (set_val p x env) (set_val (r p) x env')"
  proof (cases "p = 0")
    case True
    then show ?thesis using "1.prems"(1) assms(5) by (simp add: set_val_def)
  next
    case False
    then have "p \<in> set (value_defs f)" using "1.prems"(2) [of p] by simp
    then show ?thesis using set_val_renamed [OF assms(1) "1.prems"(1)] assms(4) False by simp
  qed
  then show ?case using "1.IH" "1.prems"(2) by simp
qed simp_all

lemma shape_renumber: "inst_shape (renumber_inst m n i) = inst_shape i"
proof -
  have "operand_shape (renumber_operand m n o') = operand_shape o'" for o' by (simp add: operand_shape_def renumber_operand_def Let_def)
  then show ?thesis by (simp add: inst_shape_def renumber_inst_def comp_def)
qed

text \<open>What a map of the pass does to the ids of a function, and that every value an instruction mentions is defined.\<close>

definition renames :: "ir_func \<Rightarrow> nat list \<Rightarrow> bool" where
  "renames f m \<longleftrightarrow> distinct (value_defs f) \<and> (\<forall>v\<in>set (value_defs f). renumber_id m v = new_id f v) \<and>
     (\<forall>o'. io_kind o' = IROP_VALUE \<longrightarrow> operand_id (renumber_operand m (if_nvals f) o') = new_id f (operand_id o'))"

definition inst_defined :: "ir_func \<Rightarrow> ir_inst \<Rightarrow> bool" where
  "inst_defined f i \<longleftrightarrow> (ii_result i \<noteq> 0 \<longrightarrow> ii_result i \<in> set (value_defs f)) \<and> (\<forall>u\<in>set (inst_uses i). operand_id u \<in> set (value_defs f))"

lemma inst_definedI:
  "uses_defined f \<Longrightarrow> b < length (if_blocks f) \<Longrightarrow> i \<in> set (ib_insts (if_blocks f ! b)) \<Longrightarrow> inst_defined f i"
  using inst_in_uses [of b f i] result_defined [OF nth_mem] by (auto simp: inst_defined_def uses_defined_def)

lemma operand_val_renamed:
  assumes "renames f m" "env_renamed f env env'" "io_kind o' = IROP_VALUE \<Longrightarrow> operand_id o' \<in> set (value_defs f)"
  shows "operand_val M env' (renumber_operand m (if_nvals f) o') = operand_val M env o'"
proof -
  have "renumber_operand m (if_nvals f) o' = o'" if "io_kind o' \<noteq> IROP_VALUE" using that by (simp add: renumber_operand_def)
  moreover have "io_kind (renumber_operand m (if_nvals f) o') = io_kind o'" by (simp add: renumber_operand_def Let_def)
  ultimately show ?thesis using assms by (auto simp: operand_val_def env_renamed_def renames_def)
qed

lemma operand_vals_renamed:
  assumes "renames f m" "env_renamed f env env'" "inst_defined f i" "us = ii_ops i \<or> (\<exists>e\<in>set (ii_edges i). us = ed_args e)"
  shows "map (operand_val M env') (map (renumber_operand m (if_nvals f)) us) = map (operand_val M env) us"
proof -
  have "operand_id u \<in> set (value_defs f)" if "u \<in> set us" "io_kind u = IROP_VALUE" for u
    using that assms(3,4) by (auto simp: inst_defined_def inst_uses_def)
  then show ?thesis using operand_val_renamed [OF assms(1,2)] by auto
qed

definition ren_rel :: "ir_func \<Rightarrow> nat \<times> 'v env \<times> 'w \<Rightarrow> nat \<times> 'v env \<times> 'w \<Rightarrow> bool" where
  "ren_rel f s t = (case (s, t) of ((b, env, w), (b', env', w')) \<Rightarrow> b' = b \<and> w' = w \<and> env_renamed f env env')"

lemma exec_renamed:
  assumes "renames f m" "env_renamed f e e'" "\<forall>i\<in>set is. inst_defined f i" "fold (exec_inst M) is (e, w) = (e1, w1)"
  shows "\<exists>e1'. fold (exec_inst M) (map (renumber_inst m (if_nvals f)) is) (e', w) = (e1', w1) \<and> env_renamed f e1 e1'"
  using assms(2-)
proof (induction "is" arbitrary: e e' w)
  case (Cons i "is")
  let ?i = "renumber_inst m (if_nvals f) i"
  have i: "inst_defined f i" using Cons.prems by simp
  have ops: "map (operand_val M e') (ii_ops ?i) = map (operand_val M e) (ii_ops i)"
    using operand_vals_renamed [OF assms(1) Cons.prems(1) i, of "ii_ops i"] by (simp add: renumber_inst_def)
  have res: "ii_result ?i = renumber_id m (ii_result i)" by (simp add: renumber_inst_def)
  obtain x w' where x: "im_exec M (inst_shape i) (map (operand_val M e) (ii_ops i)) w = (x, w')" by fastforce
  have "env_renamed f (set_val (ii_result i) x e) (set_val (renumber_id m (ii_result i)) x e')"
  proof (cases "ii_result i = 0")
    case False
    then have "ii_result i \<in> set (value_defs f)" using i by (simp add: inst_defined_def)
    then show ?thesis using set_val_renamed [OF _ Cons.prems(1)] assms(1) False by (simp add: renames_def)
  qed (use Cons.prems in \<open>simp add: set_val_def renumber_id_def\<close>)
  moreover have "exec_inst M ?i (e', w) = (set_val (renumber_id m (ii_result i)) x e', w')"
    by (simp only: exec_inst_def shape_renumber ops res x prod.case)
  moreover have "exec_inst M i (e, w) = (set_val (ii_result i) x e, w')" using x by (simp add: exec_inst_def)
  ultimately show ?case using Cons.IH Cons.prems(2,3) by simp
qed simp

lemma exit_renamed:
  assumes "renames f m" "env_renamed f e e'" "\<forall>i\<in>set is. inst_defined f i"
    and params: "\<And>k. block_params g k = map (renumber_id m) (block_params f k)"
  shows "step_rel (ren_rel f) (block_exit M f is (e, w)) (block_exit M g (map (renumber_inst m (if_nvals f)) is) (e', w))"
proof (cases "is = []")
  case False
  define t where "t = last is"
  let ?t = "renumber_inst m (if_nvals f) t"
  have t: "inst_defined f t" "last (map (renumber_inst m (if_nvals f)) is) = ?t" using False assms(3) by (simp_all add: t_def last_map)
  have ops: "map (operand_val M e') (ii_ops ?t) = map (operand_val M e) (ii_ops t)"
    using operand_vals_renamed [OF assms(1,2) t(1), of "ii_ops t"] by (simp add: renumber_inst_def)
  have args: "map (operand_val M e') (ed_args (ii_edges ?t ! k)) = map (operand_val M e) (ed_args (ii_edges t ! k))"
    "ed_target (ii_edges ?t ! k) = ed_target (ii_edges t ! k)" if "k < length (ii_edges t)" for k
    using operand_vals_renamed [OF assms(1,2) t(1) disjI2 [OF bexI [OF refl nth_mem [OF that]]], of M] that by (simp_all add: renumber_inst_def)
  have bpd: "p = 0 \<or> p \<in> set (value_defs f)" if "p \<in> set (block_params f k)" for p k
  proof -
    have "if_blocks f ! (k - 1) \<in> set (if_blocks f)" if "1 \<le> k" "k \<le> length (if_blocks f)" using that by simp
    then show ?thesis using \<open>p \<in> set (block_params f k)\<close> by (auto simp: block_params_def value_defs_set split: if_splits)
  qed
  have "env_renamed f (bind_vals (block_params f k) xs e) (bind_vals (map (renumber_id m) (block_params f k)) xs e')" for k xs
    by (rule bind_vals_renamed [OF _ assms(2) bpd]) (use assms(1) in \<open>simp_all add: renames_def renumber_id_def [of _ 0]\<close>)
  moreover have "length (ii_edges ?t) = length (ii_edges t)" by (simp add: renumber_inst_def)
  ultimately show ?thesis using False args
    by (auto simp: block_exit_def t(2) t_def [symmetric] ops shape_renumber params Let_def step_rel_def ren_rel_def split: option.splits)
qed (simp add: block_exit_def step_rel_def)

lemma renumber_step:
  assumes ok: "defs_ok f" "uses_defined f" and rel: "ren_rel f s t"
  shows "step_rel (ren_rel f) (block_step M f s) (block_step M (ir_func_renumber f) t)"
proof -
  obtain m where g: "if_blocks (ir_func_renumber f) = map (renumber_block m (if_nvals f)) (if_blocks f)" and ren: "renames f m"
    by (rule renumber_renames [OF ok(1)]) (rule that, assumption, use ok(1) in \<open>simp add: renames_def defs_ok_def\<close>)
  obtain b env w env' where s: "s = (b, env, w)" "t = (b, env', w)" and env: "env_renamed f env env'"
    using rel by (cases s; cases t) (auto simp: ren_rel_def)
  show ?thesis
  proof (cases "1 \<le> b \<and> b \<le> length (if_blocks f)")
    case True
    define "is" where "is = ib_insts (if_blocks f ! (b - 1))"
    have b: "b - 1 < length (if_blocks f)" using True by auto
    have df: "\<forall>i\<in>set is. inst_defined f i" using inst_definedI [OF ok(2) b] by (simp add: is_def)
    have params: "block_params (ir_func_renumber f) k = map (renumber_id m) (block_params f k)" for k
      by (cases k) (simp_all add: block_params_def g renumber_block_def)
    obtain e v where fin: "fold (exec_inst M) is (env, w) = (e, v)" by fastforce
    obtain e' where fin': "fold (exec_inst M) (map (renumber_inst m (if_nvals f)) is) (env', w) = (e', v)" "env_renamed f e e'"
      using exec_renamed [OF ren env df fin] by blast
    have "ib_insts (if_blocks (ir_func_renumber f) ! (b - 1)) = map (renumber_inst m (if_nvals f)) is" using b by (simp add: g is_def renumber_block_def)
    then have "block_step M (ir_func_renumber f) t = block_exit M (ir_func_renumber f) (map (renumber_inst m (if_nvals f)) is) (e', v)"
      using True fin'(1) unfolding s by (intro block_step_in) (simp_all add: g)
    moreover have "block_step M f s = block_exit M f is (e, v)" using True fin unfolding s by (intro block_step_in) (simp_all add: is_def)
    ultimately show ?thesis using exit_renamed [OF ren fin'(2) df params] by simp
  next
    case False
    then show ?thesis by (auto simp: block_step_def s g step_rel_def)
  qed
qed

lemma renumber_start:
  assumes "defs_ok f"
  shows "ren_rel f (1, bind_vals (if_param_vals f) args (\<lambda>_. u), w) (1, bind_vals (if_param_vals (ir_func_renumber f)) args (\<lambda>_. u), w)"
proof -
  obtain m where g: "if_param_vals (ir_func_renumber f) = map (renumber_id m) (if_param_vals f)"
    and rid: "\<And>v. v \<in> set (value_defs f) \<Longrightarrow> renumber_id m v = new_id f v" by (rule renumber_renames [OF assms]) (rule that)
  have d: "distinct (value_defs f)" using assms by (simp add: defs_ok_def)
  have e: "env_renamed f (\<lambda>_. u) (\<lambda>_. u)" by (simp add: env_renamed_def)
  have "env_renamed f (bind_vals (if_param_vals f) args (\<lambda>_. u)) (bind_vals (map (renumber_id m) (if_param_vals f)) args (\<lambda>_. u))"
  proof (rule bind_vals_renamed [OF d e])
    show "p = 0 \<or> p \<in> set (value_defs f)" if "p \<in> set (if_param_vals f)" for p using that by (auto simp: value_defs_set)
  qed (use rid in \<open>simp_all add: renumber_id_def\<close>)
  then show ?thesis by (simp add: ren_rel_def g)
qed

interpretation renumbering: lockstep f "ir_func_renumber f" "\<lambda>M. ren_rel f" "\<lambda>M. defs_ok f \<and> uses_defined f" for f
  by unfold_locales (simp add: ren_rel_def, blast intro: renumber_start, blast intro: renumber_step)

lemma renumber_wf:
  assumes "defs_ok f" "uses_defined f"
  shows "defs_ok (ir_func_renumber f) \<and> uses_defined (ir_func_renumber f)"
proof -
  note r = renumber_result [OF assms(1)]
  have len: "if_nvals (ir_func_renumber f) = length (value_defs f)" using r by (simp add: value_defs_def)
  have "length (value_defs f) < 2 ^ 32" using value_defs_length [OF assms(1)] assms(1) by (simp add: defs_ok_def)
  then have "defs_ok (ir_func_renumber f)" using r len by (simp add: defs_ok_def del: upt_Suc)
  moreover have "new_id f v \<in> {1..<length (value_defs f) + 1}" if "v \<in> set (value_defs f)" for v
    using that new_id_nth [of f] assms(1) by (auto simp: in_set_conv_nth defs_ok_def)
  then have "uses_defined (ir_func_renumber f)" using r assms(2) by (auto simp: uses_defined_def simp del: upt_Suc)
  ultimately show ?thesis by blast
qed

end
