(* ===== verification/Ir_Dce.thy ===== *)
theory Ir_Dce
  imports Ir_Renumber_Sem Worklist "HOL-Library.Sublist"
begin

text \<open>
  Dead code elimination, src/src/opt/dce.c: instructions with effects are roots, a worklist marks the values
  they need, instructions whose result is not marked are removed, and the function is renumbered. The array
  of defining instructions holds the instructions themselves; the stack of values is a list with the top
  at its head.
\<close>

section \<open>The code\<close>

definition dce_root :: "ir_inst \<Rightarrow> bool" where
  "dce_root i =
     (if ii_volatile i \<or> ii_seq_cst i then True
      else case ii_op i of
        IR_STORE \<Rightarrow> True | IR_MEMCPY \<Rightarrow> True | IR_MEMSET \<Rightarrow> True | IR_CALL \<Rightarrow> True | IR_VA_START \<Rightarrow> True | IR_STACKSAVE \<Rightarrow> True
      | IR_STACKRESTORE \<Rightarrow> True | IR_ATOMICRMW \<Rightarrow> True | IR_CMPXCHG \<Rightarrow> True | IR_ASM \<Rightarrow> True | IR_RET \<Rightarrow> True | IR_BR \<Rightarrow> True
      | IR_CONDBR \<Rightarrow> True | IR_SWITCH \<Rightarrow> True | IR_UNREACHABLE \<Rightarrow> True | _ \<Rightarrow> False)"

type_synonym marks = "bool list \<times> nat list"

definition enqueue_operand :: "nat \<Rightarrow> ir_operand \<Rightarrow> marks \<Rightarrow> marks outcome" where
  "enqueue_operand nvals o' s =
     (case s of (live, work) \<Rightarrow>
        if io_kind o' \<noteq> IROP_VALUE then Inr s
        else (let v = operand_id o' in
          if v < 1 \<or> v > nvals then Inl (ICE ''dce: operand references invalid value'')
          else if \<not> live ! v then Inr (live[v := True], v # work)
          else Inr s))"

fun enqueue_operands :: "nat \<Rightarrow> ir_operand list \<Rightarrow> marks \<Rightarrow> marks outcome" where
  "enqueue_operands nvals [] s = Inr s"
| "enqueue_operands nvals (o' # os) s = bind_outcome (enqueue_operand nvals o' s) (enqueue_operands nvals os)"

definition enqueue_inst_uses :: "nat \<Rightarrow> ir_inst \<Rightarrow> marks \<Rightarrow> marks outcome" where
  "enqueue_inst_uses nvals i s =
     bind_outcome (enqueue_operands nvals (ii_ops i) s) (enqueue_operands nvals (concat (map ed_args (ii_edges i))))"

text \<open>The arrays the first scan fills; the flag says that the remark on calls has been made.\<close>

record dce_state =
  dc_defs :: "ir_inst option list"
  dc_bp_block :: "nat list"
  dc_bp_index :: "nat list"
  dc_marks :: marks
  dc_call_bailed :: bool

fun scan_params :: "nat \<Rightarrow> nat \<Rightarrow> nat list \<Rightarrow> dce_state \<Rightarrow> dce_state" where
  "scan_params bi idx [] d = d"
| "scan_params bi idx (v # vs) d =
     scan_params bi (idx + 1) vs
       (if v \<noteq> 0 then d\<lparr>dc_bp_block := (dc_bp_block d)[v := bi + 1], dc_bp_index := (dc_bp_index d)[v := idx]\<rparr> else d)"

definition scan_inst :: "ir_func \<Rightarrow> ir_inst \<Rightarrow> dce_state \<Rightarrow> dce_state outcome" where
  "scan_inst f i d =
     (let r = ii_result i;
          d1 = (if r \<noteq> 0 then d\<lparr>dc_defs := (dc_defs d)[r := Some i]\<rparr> else d) in
      if \<not> dce_root i then Inr d1
      else
        let d2 = (if ii_op i = IR_CALL \<and> \<not> dc_call_bailed d1 then d1\<lparr>dc_call_bailed := True\<rparr> else d1) in
        bind_outcome (if r \<noteq> 0 then enqueue_operand (if_nvals f) (ir_op_value f r) (dc_marks d2)
                      else enqueue_inst_uses (if_nvals f) i (dc_marks d2))
          (\<lambda>s. Inr (d2\<lparr>dc_marks := s\<rparr>)))"

fun scan_insts :: "ir_func \<Rightarrow> ir_inst list \<Rightarrow> dce_state \<Rightarrow> dce_state outcome" where
  "scan_insts f [] d = Inr d"
| "scan_insts f (i # is) d = bind_outcome (scan_inst f i d) (scan_insts f is)"

fun scan_blocks :: "ir_func \<Rightarrow> nat \<Rightarrow> ir_block list \<Rightarrow> dce_state \<Rightarrow> dce_state outcome" where
  "scan_blocks f bi [] d = Inr d"
| "scan_blocks f bi (blk # bs) d = bind_outcome (scan_insts f (ib_insts blk) (scan_params bi 0 (ib_params blk) d)) (scan_blocks f (bi + 1) bs)"

text \<open>The arguments the terminators pass to one parameter of one block.\<close>

definition param_args :: "ir_func \<Rightarrow> nat \<Rightarrow> nat \<Rightarrow> ir_operand list" where
  "param_args f want_block want_index =
     concat (map (\<lambda>blk. if ib_insts blk = [] then []
        else map (\<lambda>e. ed_args e ! want_index)
               (filter (\<lambda>e. ed_target e = want_block \<and> want_index < length (ed_args e)) (ii_edges (last (ib_insts blk))))) (if_blocks f))"

definition dce_visit :: "ir_func \<Rightarrow> dce_state \<Rightarrow> nat \<Rightarrow> marks \<Rightarrow> marks outcome" where
  "dce_visit f d v s =
     (case dc_defs d ! v of
        Some def \<Rightarrow> enqueue_inst_uses (if_nvals f) def s
      | None \<Rightarrow>
          if dc_bp_block d ! v \<noteq> 0 then enqueue_operands (if_nvals f) (param_args f (dc_bp_block d ! v) (dc_bp_index d ! v)) s
          else Inr s)"

partial_function (option) dce_loop :: "ir_func \<Rightarrow> dce_state \<Rightarrow> marks \<Rightarrow> bool list outcome option" where
  "dce_loop f d s =
     (case s of (live, work) \<Rightarrow>
        (case work of
           [] \<Rightarrow> Some (Inr live)
         | v # work' \<Rightarrow> (case dce_visit f d v (live, work') of Inl e \<Rightarrow> Some (Inl e) | Inr s' \<Rightarrow> dce_loop f d s')))"

declare dce_loop.simps [code]

text \<open>Removal: the instructions kept and whether one was removed.\<close>

fun sweep_insts :: "bool list \<Rightarrow> ir_inst list \<Rightarrow> ir_inst list \<times> bool" where
  "sweep_insts live [] = ([], False)"
| "sweep_insts live (i # is) =
     (case sweep_insts live is of (kept, changed) \<Rightarrow>
        if ii_result i \<noteq> 0 \<and> \<not> live ! ii_result i then (kept, True) else (i # kept, changed))"

fun sweep_blocks :: "bool list \<Rightarrow> ir_block list \<Rightarrow> ir_block list \<times> bool" where
  "sweep_blocks live [] = ([], False)"
| "sweep_blocks live (blk # bs) =
     (case sweep_insts live (ib_insts blk) of (kept, changed) \<Rightarrow>
        (case sweep_blocks live bs of (bs', changed') \<Rightarrow> (blk\<lparr>ib_insts := kept\<rparr> # bs', changed \<or> changed')))"

definition dce_init :: "ir_func \<Rightarrow> dce_state" where
  "dce_init f = \<lparr>dc_defs = replicate (if_nvals f + 1) None, dc_bp_block = replicate (if_nvals f + 1) 0,
     dc_bp_index = replicate (if_nvals f + 1) 0, dc_marks = (replicate (if_nvals f + 1) False, []), dc_call_bailed = False\<rparr>"

definition dce_func :: "ir_func \<Rightarrow> (ir_func \<times> bool) outcome" where
  "dce_func f =
     bind_outcome (scan_blocks f 0 (if_blocks f) (dce_init f)) (\<lambda>d.
       case dce_loop f d (dc_marks d) of
         None \<Rightarrow> Inl No_Return
       | Some r \<Rightarrow> bind_outcome r (\<lambda>live.
           case sweep_blocks live (if_blocks f) of (bs, changed) \<Rightarrow>
             let g = f\<lparr>if_blocks := bs\<rparr> in Inr (if changed then ir_func_renumber g else g, changed)))"

fun opt_dce :: "ir_func list \<Rightarrow> (ir_func list \<times> bool) outcome" where
  "opt_dce [] = Inr ([], False)"
| "opt_dce (f # fs) =
     bind_outcome (dce_func f) (\<lambda>(g, changed). bind_outcome (opt_dce fs) (\<lambda>(gs, changed'). Inr (g # gs, changed \<or> changed')))"

section \<open>Enqueueing\<close>

definition value_ids :: "ir_operand list \<Rightarrow> nat list" where
  "value_ids os = map operand_id (filter (\<lambda>o'. io_kind o' = IROP_VALUE) os)"

definition ids_ok :: "nat \<Rightarrow> ir_operand list \<Rightarrow> bool" where
  "ids_ok n os \<longleftrightarrow> (\<forall>v\<in>set (value_ids os). 1 \<le> v \<and> v \<le> n)"

lemma enqueue_operands_mark:
  "ids_ok n os \<Longrightarrow> enqueue_operands n os s = Inr (fold mark (value_ids os) s)"
proof (induction os arbitrary: s)
  case (Cons o' os)
  have "enqueue_operand n o' s = Inr (if io_kind o' = IROP_VALUE then mark (operand_id o') s else s)"
    using Cons.prems by (cases s) (auto simp: enqueue_operand_def mark_def Let_def ids_ok_def value_ids_def)
  then show ?case using Cons.IH Cons.prems by (auto simp: ids_ok_def value_ids_def)
qed (simp add: value_ids_def)

lemma inst_uses_ids: "map operand_id (inst_uses i) = value_ids (ii_ops i @ concat (map ed_args (ii_edges i)))"
  by (simp add: inst_uses_def value_ids_def)

lemma enqueue_inst_uses_mark:
  "ids_ok n (ii_ops i @ concat (map ed_args (ii_edges i))) \<Longrightarrow> enqueue_inst_uses n i s = Inr (fold mark (map operand_id (inst_uses i)) s)"
proof -
  assume ok: "ids_ok n (ii_ops i @ concat (map ed_args (ii_edges i)))"
  then have "ids_ok n (ii_ops i)" "ids_ok n (concat (map ed_args (ii_edges i)))" by (auto simp: ids_ok_def value_ids_def)
  then show ?thesis by (simp add: enqueue_inst_uses_def inst_uses_ids enqueue_operands_mark) (simp add: value_ids_def)
qed

section \<open>The first scan\<close>

text \<open>A list of writes to an array; index 0 is no value.\<close>

definition stores :: "(nat \<times> 'a) list \<Rightarrow> 'a list \<Rightarrow> 'a list" where
  "stores kvs a = fold (\<lambda>(k, x) a. if k \<noteq> 0 then a[k := x] else a) kvs a"

lemma stores_append [simp]: "stores (kvs @ kvs') a = stores kvs' (stores kvs a)"
  by (simp add: stores_def)

lemma stores_Nil [simp]: "stores [] a = a"
  by (simp add: stores_def)

lemma stores_Cons [simp]: "stores ((k, x) # kvs) a = stores kvs (if k \<noteq> 0 then a[k := x] else a)"
  by (simp add: stores_def)

lemma length_stores [simp]: "length (stores kvs a) = length a"
  by (induction kvs arbitrary: a) auto

lemma stores_miss: "k \<notin> fst ` set kvs \<Longrightarrow> stores kvs a ! k = a ! k"
  by (induction kvs arbitrary: a) auto

lemma stores_hit:
  "(k, x) \<in> set kvs \<Longrightarrow> k \<noteq> 0 \<Longrightarrow> k < length a \<Longrightarrow> distinct (filter (\<lambda>k. k \<noteq> 0) (map fst kvs)) \<Longrightarrow> stores kvs a ! k = x"
proof (induction kvs arbitrary: a)
  case (Cons kx kvs)
  obtain k' x' where kx: "kx = (k', x')" by fastforce
  show ?case
  proof (cases "(k, x) \<in> set kvs")
    case False
    then have k: "k' = k" "x' = x" using Cons.prems(1) kx by auto
    then have "k \<notin> fst ` set kvs" using Cons.prems(2,4) kx by auto
    then show ?thesis using k kx Cons.prems(2,3) stores_miss [of k kvs] by simp
  qed (use Cons kx in auto)
qed simp

definition root_ids :: "ir_inst \<Rightarrow> nat list" where
  "root_ids i = (if \<not> dce_root i then [] else if ii_result i \<noteq> 0 then [ii_result i] else map operand_id (inst_uses i))"

definition all_insts :: "ir_func \<Rightarrow> ir_inst list" where
  "all_insts f = concat (map ib_insts (if_blocks f))"

text \<open>The ids an instruction mentions are those of values.\<close>

definition inst_ids_ok :: "ir_func \<Rightarrow> ir_inst \<Rightarrow> bool" where
  "inst_ids_ok f i \<longleftrightarrow> ii_result i \<le> if_nvals f \<and> if_nvals f < 2 ^ 32 \<and> ids_ok (if_nvals f) (ii_ops i @ concat (map ed_args (ii_edges i)))"

lemma enqueue_result: "v \<noteq> 0 \<Longrightarrow> v \<le> if_nvals f \<Longrightarrow> if_nvals f < 2 ^ 32 \<Longrightarrow> enqueue_operand (if_nvals f) (ir_op_value f v) s = Inr (mark v s)"
proof -
  assume v: "v \<noteq> 0" "v \<le> if_nvals f" "if_nvals f < 2 ^ 32"
  then have "v < 2 ^ 32" by linarith
  then have "operand_id (ir_op_value f v) = v"
    by (simp add: operand_id_def ir_op_value_def unsigned_ucast_eq unsigned_of_nat take_bit_eq_mod)
  moreover have "io_kind (ir_op_value f v) = IROP_VALUE" by (simp add: ir_op_value_def)
  ultimately show ?thesis using v by (cases s) (simp add: enqueue_operand_def mark_def)
qed

lemma scan_inst_eq:
  "inst_ids_ok f i \<Longrightarrow> scan_inst f i d =
     Inr (d\<lparr>dc_defs := stores [(ii_result i, Some i)] (dc_defs d), dc_marks := fold mark (root_ids i) (dc_marks d),
            dc_call_bailed := dc_call_bailed d \<or> ii_op i = IR_CALL\<rparr>)"
proof -
  assume ok: "inst_ids_ok f i"
  have call: "ii_op i = IR_CALL \<Longrightarrow> dce_root i" by (simp add: dce_root_def)
  have r: "enqueue_operand (if_nvals f) (ir_op_value f (ii_result i)) s = Inr (mark (ii_result i) s)" if "ii_result i \<noteq> 0" for s
    using enqueue_result [OF that] ok by (simp add: inst_ids_ok_def)
  have u: "enqueue_inst_uses (if_nvals f) i s = Inr (fold mark (map operand_id (inst_uses i)) s)" for s
    using ok by (simp add: inst_ids_ok_def enqueue_inst_uses_mark del: fold_map map_append)
  show ?thesis
  proof (cases "dce_root i")
    case True
    then show ?thesis by (cases d; cases "ii_result i = 0") (auto simp: scan_inst_def root_ids_def Let_def r u)
  next
    case False
    then show ?thesis using call by (cases d; cases "ii_result i = 0") (auto simp: scan_inst_def root_ids_def Let_def)
  qed
qed

lemma scan_insts_eq:
  "\<forall>i\<in>set is. inst_ids_ok f i \<Longrightarrow> scan_insts f is d =
     Inr (d\<lparr>dc_defs := stores (map (\<lambda>i. (ii_result i, Some i)) is) (dc_defs d), dc_marks := fold mark (concat (map root_ids is)) (dc_marks d),
            dc_call_bailed := dc_call_bailed d \<or> (\<exists>i\<in>set is. ii_op i = IR_CALL)\<rparr>)"
proof (induction "is" arbitrary: d)
  case (Cons i "is")
  then show ?case by (simp add: scan_inst_eq disj_assoc)
qed simp

definition param_sites :: "nat \<Rightarrow> ir_block list \<Rightarrow> (nat \<times> nat \<times> nat) list" where
  "param_sites bi bs = concat (map (\<lambda>(b, blk). map (\<lambda>(k, v). (v, b + 1, k)) (enumerate 0 (ib_params blk))) (enumerate bi bs))"

lemma scan_params_eq:
  "scan_params bi k vs d = d\<lparr>dc_bp_block := stores (map (\<lambda>(k, v). (v, bi + 1)) (enumerate k vs)) (dc_bp_block d),
     dc_bp_index := stores (map (\<lambda>(k, v). (v, k)) (enumerate k vs)) (dc_bp_index d)\<rparr>"
  by (induction vs arbitrary: k d) simp_all

lemma scan_blocks_eq:
  "\<forall>i\<in>set (concat (map ib_insts bs)). inst_ids_ok f i \<Longrightarrow> scan_blocks f bi bs d =
     Inr (d\<lparr>dc_defs := stores (map (\<lambda>i. (ii_result i, Some i)) (concat (map ib_insts bs))) (dc_defs d),
            dc_bp_block := stores (map (\<lambda>(v, b, k). (v, b)) (param_sites bi bs)) (dc_bp_block d),
            dc_bp_index := stores (map (\<lambda>(v, b, k). (v, k)) (param_sites bi bs)) (dc_bp_index d),
            dc_marks := fold mark (concat (map root_ids (concat (map ib_insts bs)))) (dc_marks d),
            dc_call_bailed := dc_call_bailed d \<or> (\<exists>i\<in>set (concat (map ib_insts bs)). ii_op i = IR_CALL)\<rparr>)"
proof (induction bs arbitrary: bi d)
  case (Cons blk bs)
  have "scan_insts f (ib_insts blk) (scan_params bi 0 (ib_params blk) d) = Inr ((scan_params bi 0 (ib_params blk) d)\<lparr>
      dc_defs := stores (map (\<lambda>i. (ii_result i, Some i)) (ib_insts blk)) (dc_defs d), dc_marks := fold mark (concat (map root_ids (ib_insts blk))) (dc_marks d),
      dc_call_bailed := dc_call_bailed d \<or> (\<exists>i\<in>set (ib_insts blk). ii_op i = IR_CALL)\<rparr>)"
    using Cons.prems by (subst scan_insts_eq) (auto simp: scan_params_eq)
  moreover have "param_sites bi (blk # bs) = map (\<lambda>(k, v). (v, bi + 1, k)) (enumerate 0 (ib_params blk)) @ param_sites (bi + 1) bs"
    by (simp add: param_sites_def)
  ultimately show ?case using Cons by (simp add: scan_params_eq split_beta' comp_def disj_assoc bex_Un)
qed (simp add: param_sites_def)

section \<open>The values that are needed\<close>

text \<open>
  What the pass means to keep: the results and the operands of instructions with effects, the operands of
  instructions whose result is needed, and the arguments passed for a block parameter that is needed.
\<close>

inductive needed :: "ir_func \<Rightarrow> nat \<Rightarrow> bool" for f where
  need_root: "i \<in> set (all_insts f) \<Longrightarrow> dce_root i \<Longrightarrow> ii_result i \<noteq> 0 \<Longrightarrow> needed f (ii_result i)"
| need_effect: "i \<in> set (all_insts f) \<Longrightarrow> dce_root i \<Longrightarrow> ii_result i = 0 \<Longrightarrow> u \<in> set (inst_uses i) \<Longrightarrow> needed f (operand_id u)"
| need_operand: "needed f (ii_result i) \<Longrightarrow> i \<in> set (all_insts f) \<Longrightarrow> ii_result i \<noteq> 0 \<Longrightarrow> u \<in> set (inst_uses i) \<Longrightarrow> needed f (operand_id u)"
| need_arg: "needed f v \<Longrightarrow> (v, b, k) \<in> set (param_sites 0 (if_blocks f)) \<Longrightarrow> v \<noteq> 0 \<Longrightarrow> u \<in> set (param_args f b k) \<Longrightarrow> io_kind u = IROP_VALUE \<Longrightarrow>
    needed f (operand_id u)"

definition uses_in_range :: "ir_func \<Rightarrow> bool" where
  "uses_in_range f \<longleftrightarrow> (\<forall>v\<in>set (value_uses f). 1 \<le> v \<and> v \<le> if_nvals f)"

definition dce_succs :: "ir_func \<Rightarrow> dce_state \<Rightarrow> nat \<Rightarrow> nat list" where
  "dce_succs f d v =
     (case dc_defs d ! v of
        Some i \<Rightarrow> map operand_id (inst_uses i)
      | None \<Rightarrow> if dc_bp_block d ! v \<noteq> 0 then value_ids (param_args f (dc_bp_block d ! v) (dc_bp_index d ! v)) else [])"

text \<open>The state after the first scan of a function in single assignment form.\<close>

definition scanned :: "ir_func \<Rightarrow> dce_state \<Rightarrow> bool" where
  "scanned f d \<longleftrightarrow>
     uses_in_range f \<and>
     (\<forall>v\<le>if_nvals f. \<forall>i. dc_defs d ! v = Some i \<longleftrightarrow> i \<in> set (all_insts f) \<and> ii_result i = v \<and> v \<noteq> 0) \<and>
     (\<forall>v\<le>if_nvals f. \<forall>b k. dc_bp_block d ! v = b \<and> dc_bp_index d ! v = k \<and> b \<noteq> 0 \<longleftrightarrow> (v, b, k) \<in> set (param_sites 0 (if_blocks f)) \<and> v \<noteq> 0) \<and>
     dc_marks d = fold mark (concat (map root_ids (all_insts f))) (replicate (if_nvals f + 1) False, [])"

lemma scanned_def_at: "scanned f d \<Longrightarrow> v \<le> if_nvals f \<Longrightarrow> dc_defs d ! v = Some i \<longleftrightarrow> i \<in> set (all_insts f) \<and> ii_result i = v \<and> v \<noteq> 0"
  unfolding scanned_def by blast

lemma scanned_param_at:
  "scanned f d \<Longrightarrow> v \<le> if_nvals f \<Longrightarrow>
     dc_bp_block d ! v = b \<and> dc_bp_index d ! v = k \<and> b \<noteq> 0 \<longleftrightarrow> (v, b, k) \<in> set (param_sites 0 (if_blocks f)) \<and> v \<noteq> 0"
  unfolding scanned_def by blast

lemma all_insts_uses: "i \<in> set (all_insts f) \<Longrightarrow> u \<in> set (inst_uses i) \<Longrightarrow> operand_id u \<in> set (value_uses f)"
  by (force simp: all_insts_def value_uses_def)

lemma param_args_uses:
  assumes "u \<in> set (param_args f b k)" "io_kind u = IROP_VALUE"
  shows "operand_id u \<in> set (value_uses f)"
proof -
  obtain blk e where e: "blk \<in> set (if_blocks f)" "ib_insts blk \<noteq> []" "e \<in> set (ii_edges (last (ib_insts blk)))" "k < length (ed_args e)" "u = ed_args e ! k"
    using assms(1) by (auto simp: param_args_def split: if_splits)
  then have "last (ib_insts blk) \<in> set (all_insts f)" "u \<in> set (inst_uses (last (ib_insts blk)))"
    using assms(2) last_in_set [OF e(2)] nth_mem [OF e(4)] unfolding all_insts_def inst_uses_def by (simp_all, blast+)
  then show ?thesis by (rule all_insts_uses)
qed

lemma ids_ok_args: "uses_in_range f \<Longrightarrow> ids_ok (if_nvals f) (param_args f b k)"
  using param_args_uses [of _ f b k] by (auto simp: ids_ok_def value_ids_def uses_in_range_def)

lemma ids_ok_inst: "uses_in_range f \<Longrightarrow> i \<in> set (all_insts f) \<Longrightarrow> ids_ok (if_nvals f) (ii_ops i @ concat (map ed_args (ii_edges i)))"
  using all_insts_uses [of i f] unfolding ids_ok_def inst_uses_ids [symmetric] by (auto simp: uses_in_range_def)

lemma dce_visit_mark:
  "scanned f d \<Longrightarrow> v \<le> if_nvals f \<Longrightarrow> dce_visit f d v s = Inr (fold mark (dce_succs f d v) s)"
proof -
  assume d: "scanned f d" "v \<le> if_nvals f"
  then have u: "uses_in_range f" by (simp add: scanned_def)
  show ?thesis
  proof (cases "dc_defs d ! v")
    case None
    then show ?thesis by (simp add: dce_visit_def dce_succs_def enqueue_operands_mark [OF ids_ok_args [OF u]])
  next
    case (Some i)
    then have "i \<in> set (all_insts f)" using d by (simp add: scanned_def)
    then show ?thesis by (simp add: Some dce_visit_def dce_succs_def enqueue_inst_uses_mark [OF ids_ok_inst [OF u]] del: fold_map)
  qed
qed

lemma dce_succs_range: "scanned f d \<Longrightarrow> v \<le> if_nvals f \<Longrightarrow> u \<in> set (dce_succs f d v) \<Longrightarrow> 1 \<le> u \<and> u \<le> if_nvals f"
proof -
  assume d: "scanned f d" "v \<le> if_nvals f" "u \<in> set (dce_succs f d v)"
  then have r: "uses_in_range f" by (simp add: scanned_def)
  show ?thesis
  proof (cases "dc_defs d ! v")
    case None
    then show ?thesis using d(3) ids_ok_args [OF r] by (auto simp: dce_succs_def ids_ok_def split: if_splits)
  next
    case (Some i)
    then have "i \<in> set (all_insts f)" using d by (simp add: scanned_def)
    then show ?thesis using Some d(3) all_insts_uses [of i f] r by (auto simp: dce_succs_def uses_in_range_def)
  qed
qed

interpretation dce: mark_worklist "Suc (if_nvals f)" "dce_succs f d" "scanned f d" "\<lambda>live. Some (Inr live)" "dce_loop f d" for f d
proof unfold_locales
  show "dce_loop f d (live, []) = Some (Inr live)" for live by (subst dce_loop.simps) simp
  show "dce_loop f d (live, v # work) = dce_loop f d (fold mark (dce_succs f d v) (live, work))" if "scanned f d" "v < Suc (if_nvals f)" for live v work
    using that by (subst dce_loop.simps) (simp add: dce_visit_mark)
  show "u < Suc (if_nvals f)" if "scanned f d" "v < Suc (if_nvals f)" "u \<in> set (dce_succs f d v)" for v u
    using dce_succs_range [of f d v u] that by simp
qed

lemma next_node_needed:
  assumes "scanned f d" "needed f v" "dce.next_node f d v u"
  shows "needed f u"
proof -
  have v: "v \<le> if_nvals f" "u \<in> set (dce_succs f d v)" using assms(3) by (auto simp: dce.next_node_def)
  show ?thesis
  proof (cases "dc_defs d ! v")
    case None
    then have u: "dc_bp_block d ! v \<noteq> 0" "u \<in> set (value_ids (param_args f (dc_bp_block d ! v) (dc_bp_index d ! v)))"
      using v(2) by (auto simp: dce_succs_def split: if_splits)
    then have "(v, dc_bp_block d ! v, dc_bp_index d ! v) \<in> set (param_sites 0 (if_blocks f)) \<and> v \<noteq> 0" using scanned_param_at [OF assms(1) v(1)] by blast
    then show ?thesis using need_arg [OF assms(2)] u(2) by (auto simp: value_ids_def)
  next
    case (Some i)
    then have i: "i \<in> set (all_insts f)" "ii_result i = v" "v \<noteq> 0" using assms(1) v(1) by (auto simp: scanned_def)
    obtain x where "x \<in> set (inst_uses i)" "u = operand_id x" using Some v(2) by (auto simp: dce_succs_def)
    then show ?thesis using need_operand [of f i x] assms(2) i by simp
  qed
qed

section \<open>Single assignment\<close>

lemma value_defs_blocks:
  "value_defs f = filter (\<lambda>v. v \<noteq> 0) (if_param_vals f @ concat (map (\<lambda>b. ib_params b @ map ii_result (ib_insts b)) (if_blocks f)))"
proof -
  have "map fst (block_sites (k, blk)) = ib_params blk @ map ii_result (ib_insts blk)" for k blk
    by (simp add: block_sites_def comp_def split_beta' map_enumerate_results)
  then have "map fst (concat (map block_sites (enumerate k bs))) = concat (map (\<lambda>b. ib_params b @ map ii_result (ib_insts b)) bs)" for k bs
    by (induction bs arbitrary: k) simp_all
  then show ?thesis by (simp add: value_defs_filter all_sites_def comp_def)
qed

lemma distinct_block_defs:
  "distinct (filter P (concat (map (\<lambda>b. g b @ h b) bs))) \<Longrightarrow>
     distinct (filter P (concat (map g bs))) \<and> distinct (filter P (concat (map h bs))) \<and>
     (\<forall>x. x \<in> set (concat (map g bs)) \<and> x \<in> set (concat (map h bs)) \<longrightarrow> \<not> P x)"
proof (induction bs)
  case (Cons b bs)
  let ?r = "concat (map (\<lambda>b. g b @ h b) bs)"
  have d: "distinct (filter P ?r)" "distinct (filter P (g b))" "distinct (filter P (h b))"
    "\<And>x. P x \<Longrightarrow> x \<in> set (g b) \<Longrightarrow> x \<notin> set (h b) \<and> x \<notin> set ?r" "\<And>x. P x \<Longrightarrow> x \<in> set (h b) \<Longrightarrow> x \<notin> set ?r"
    using Cons.prems by (simp_all, blast+)
  note ih = Cons.IH [OF d(1)]
  have s: "set (concat (map g bs)) \<subseteq> set ?r" "set (concat (map h bs)) \<subseteq> set ?r" by auto
  have "distinct (filter P (concat (map g (b # bs))))" using d(2,4) ih s(1) by (simp only: list.map concat.simps filter_append distinct_append set_filter) blast
  moreover have "distinct (filter P (concat (map h (b # bs))))" using d(3,5) ih s(2) by (simp only: list.map concat.simps filter_append distinct_append set_filter) blast
  moreover have "\<not> P x" if "x \<in> set (g b) \<or> x \<in> set (concat (map g bs))" "x \<in> set (h b) \<or> x \<in> set (concat (map h bs))" for x
    using that d(4) [of x] d(5) [of x] ih s by blast
  ultimately show ?case by simp
qed simp

lemma param_sites_values: "map fst (param_sites k bs) = concat (map ib_params bs)"
proof (induction bs arbitrary: k)
  case (Cons blk bs)
  have "map (fst \<circ> (\<lambda>(j, v). (v, k + 1, j))) (enumerate m vs) = vs" for m and vs :: "nat list"
    by (induction vs arbitrary: m) simp_all
  then show ?case using Cons by (simp add: param_sites_def comp_def)
qed (simp add: param_sites_def)

lemma param_sites_block: "(v, b, k) \<in> set (param_sites n bs) \<Longrightarrow> b \<noteq> 0"
  by (auto simp: param_sites_def)

lemma ssa_facts:
  assumes "defs_ok f"
  shows "distinct (filter (\<lambda>v. v \<noteq> 0) (map ii_result (all_insts f)))"
    and "distinct (filter (\<lambda>v. v \<noteq> 0) (map fst (param_sites 0 (if_blocks f))))"
    and "v \<in> fst ` set (param_sites 0 (if_blocks f)) \<Longrightarrow> v \<in> ii_result ` set (all_insts f) \<Longrightarrow> v = 0"
    and "i \<in> set (all_insts f) \<Longrightarrow> ii_result i \<le> if_nvals f"
    and "v \<in> fst ` set (param_sites 0 (if_blocks f)) \<Longrightarrow> v \<le> if_nvals f"
proof -
  have d: "distinct (value_defs f)" "\<forall>v\<in>set (value_defs f). v \<le> if_nvals f" using assms by (simp_all add: defs_ok_def)
  have res: "map ii_result (all_insts f) = concat (map (\<lambda>b. map ii_result (ib_insts b)) (if_blocks f))" by (simp add: all_insts_def map_concat comp_def)
  have par: "fst ` set (param_sites 0 (if_blocks f)) = set (concat (map ib_params (if_blocks f)))"
    by (metis list.set_map param_sites_values)
  have b: "distinct (filter (\<lambda>v. v \<noteq> 0) (concat (map (\<lambda>b. ib_params b @ map ii_result (ib_insts b)) (if_blocks f))))"
    using d(1) by (simp add: value_defs_blocks)
  note f = distinct_block_defs [OF b]
  show "distinct (filter (\<lambda>v. v \<noteq> 0) (map ii_result (all_insts f)))" unfolding res using f by blast
  show "distinct (filter (\<lambda>v. v \<noteq> 0) (map fst (param_sites 0 (if_blocks f))))" unfolding param_sites_values using f by blast
  show "v = 0" if "v \<in> fst ` set (param_sites 0 (if_blocks f))" "v \<in> ii_result ` set (all_insts f)"
    using f that par res by (metis list.set_map)
  show "ii_result i \<le> if_nvals f" if "i \<in> set (all_insts f)"
    using that bspec [OF d(2), of "ii_result i"] by (cases "ii_result i = 0") (auto simp: value_defs_set all_insts_def)
  show "v \<le> if_nvals f" if "v \<in> fst ` set (param_sites 0 (if_blocks f))"
    using that bspec [OF d(2), of v] unfolding par by (cases "v = 0") (auto simp: value_defs_set)
qed

lemma map_projections:
  "map fst (map (\<lambda>(v, b, k). (v, b)) xs) = map fst xs" "map fst (map (\<lambda>(v, b, k). (v, k)) xs) = map fst xs"
  by (induction xs) auto

lemma stores_zero: "stores kvs a ! 0 = a ! 0"
  by (induction kvs arbitrary: a) auto

lemma defs_array:
  assumes "defs_ok f" "v \<le> if_nvals f"
  shows "stores (map (\<lambda>i. (ii_result i, Some i)) (all_insts f)) (replicate (if_nvals f + 1) None) ! v = Some i \<longleftrightarrow>
    i \<in> set (all_insts f) \<and> ii_result i = v \<and> v \<noteq> 0"
proof (cases "v \<noteq> 0 \<and> (\<exists>j\<in>set (all_insts f). ii_result j = v)")
  case True
  then obtain j where j: "j \<in> set (all_insts f)" "ii_result j = v" "v \<noteq> 0" by blast
  let ?kvs = "map (\<lambda>i. (ii_result i, Some i)) (all_insts f)"
  have "map fst ?kvs = map ii_result (all_insts f)" by (simp add: comp_def)
  then have ssa: "distinct (filter (\<lambda>k. k \<noteq> 0) (map fst ?kvs))" using ssa_facts(1) [OF assms(1)] by (simp only:)
  have hit: "stores ?kvs (replicate (if_nvals f + 1) None) ! v = Some k" if "k \<in> set (all_insts f)" "ii_result k = v" for k
    using that j(3) assms(2) ssa by (intro stores_hit) auto
  show ?thesis
  proof
    assume "stores ?kvs (replicate (if_nvals f + 1) None) ! v = Some i"
    then have "i = j" using hit [OF j(1,2)] by simp
    then show "i \<in> set (all_insts f) \<and> ii_result i = v \<and> v \<noteq> 0" using j by simp
  qed (use hit in blast)
next
  case False
  have "stores (map (\<lambda>i. (ii_result i, Some i)) (all_insts f)) (replicate (if_nvals f + 1) None) ! v = None"
  proof (cases "v = 0")
    case nz: False
    then have "v \<notin> fst ` set (map (\<lambda>i. (ii_result i, Some i)) (all_insts f))" using False by force
    from stores_miss [OF this] show ?thesis using assms(2) by (simp del: replicate_Suc)
  qed (simp add: stores_zero)
  then show ?thesis using False by auto
qed

lemma params_array:
  assumes "defs_ok f" "v \<le> if_nvals f"
  shows "stores (map (\<lambda>(v, b, k). (v, b)) (param_sites 0 (if_blocks f))) (replicate (if_nvals f + 1) 0) ! v = b \<and>
      stores (map (\<lambda>(v, b, k). (v, k)) (param_sites 0 (if_blocks f))) (replicate (if_nvals f + 1) 0) ! v = k \<and> b \<noteq> 0
    \<longleftrightarrow> (v, b, k) \<in> set (param_sites 0 (if_blocks f)) \<and> v \<noteq> 0"
proof -
  let ?ps = "param_sites 0 (if_blocks f)" and ?z = "replicate (if_nvals f + 1) 0"
  let ?b = "map (\<lambda>(v, b, k). (v, b)) ?ps" and ?k = "map (\<lambda>(v, b, k). (v, k)) ?ps"
  have ssa: "distinct (filter (\<lambda>k. k \<noteq> 0) (map fst ?b))" "distinct (filter (\<lambda>k. k \<noteq> 0) (map fst ?k))"
    using ssa_facts(2) [OF assms(1)] unfolding map_projections by simp_all
  have hit: "stores ?b ?z ! v = b' \<and> stores ?k ?z ! v = k' \<and> b' \<noteq> 0" if "(v, b', k') \<in> set ?ps" "v \<noteq> 0" for b' k'
  proof -
    have "(v, b') \<in> set ?b" "(v, k') \<in> set ?k" using that by force+
    then have "stores ?b ?z ! v = b'" "stores ?k ?z ! v = k'" using that(2) assms(2) by (simp_all add: stores_hit [OF _ _ _ ssa(1)] stores_hit [OF _ _ _ ssa(2)])
    then show ?thesis using param_sites_block [OF that(1)] by blast
  qed
  show ?thesis
  proof (cases "v \<noteq> 0 \<and> v \<in> fst ` set ?ps")
    case True
    then obtain b' k' where s: "(v, b', k') \<in> set ?ps" "v \<noteq> 0" by force
    show ?thesis using hit [OF s] s hit [of b k] by metis
  next
    case False
    then have "v = 0 \<or> v \<notin> fst ` set ?b" by force
    then have "stores ?b ?z ! v = 0" using assms(2) by (auto simp: stores_zero stores_miss simp del: replicate_Suc set_map)
    then show ?thesis using False by force
  qed
qed

lemma scan_gives:
  assumes "defs_ok f" "uses_in_range f"
  shows "\<exists>d. scan_blocks f 0 (if_blocks f) (dce_init f) = Inr d \<and> scanned f d"
proof -
  have ok: "\<forall>i\<in>set (concat (map ib_insts (if_blocks f))). inst_ids_ok f i"
    using ssa_facts(4) [OF assms(1)] ids_ok_inst [OF assms(2)] assms(1) unfolding inst_ids_ok_def defs_ok_def all_insts_def by blast
  define d where "d = \<lparr>dc_defs = stores (map (\<lambda>i. (ii_result i, Some i)) (all_insts f)) (replicate (if_nvals f + 1) None),
    dc_bp_block = stores (map (\<lambda>(v, b, k). (v, b)) (param_sites 0 (if_blocks f))) (replicate (if_nvals f + 1) 0),
    dc_bp_index = stores (map (\<lambda>(v, b, k). (v, k)) (param_sites 0 (if_blocks f))) (replicate (if_nvals f + 1) 0),
    dc_marks = fold mark (concat (map root_ids (all_insts f))) (replicate (if_nvals f + 1) False, []),
    dc_call_bailed = (\<exists>i\<in>set (all_insts f). ii_op i = IR_CALL)\<rparr>"
  have "scan_blocks f 0 (if_blocks f) (dce_init f) = Inr d"
    unfolding scan_blocks_eq [OF ok, folded all_insts_def] by (simp add: d_def dce_init_def)
  moreover have "scanned f d"
    unfolding scanned_def d_def dce_state.simps using assms(2) defs_array [OF assms(1)] params_array [OF assms(1)] by blast
  ultimately show ?thesis by blast
qed

section \<open>The live set and the removal\<close>

lemma root_ids_needed: "u \<in> set (concat (map root_ids (all_insts f))) \<Longrightarrow> needed f u"
  by (auto simp: root_ids_def intro: need_root need_effect split: if_splits)

lemma root_ids_range:
  assumes "defs_ok f" "uses_in_range f" "u \<in> set (concat (map root_ids (all_insts f)))"
  shows "u \<le> if_nvals f"
proof -
  obtain i where i: "i \<in> set (all_insts f)" "u \<in> set (root_ids i)" using assms(3) by auto
  then show ?thesis using ssa_facts(4) [OF assms(1) i(1)] all_insts_uses [OF i(1)] assms(2)
    by (auto simp: root_ids_def uses_in_range_def split: if_splits)
qed

lemma needed_in_closure:
  assumes d: "scanned f d" "defs_ok f" and "needed f v"
  shows "v \<in> dce.closure f d (set (concat (map root_ids (all_insts f)))) \<and> v \<le> if_nvals f"
  using assms(3)
proof (induction rule: needed.induct)
  case (need_root i)
  then have "ii_result i \<in> set (concat (map root_ids (all_insts f)))" by (auto simp: root_ids_def)
  then show ?case using dce.closure_refl ssa_facts(4) [OF d(2) need_root.hyps(1)] by blast
next
  case (need_effect i u)
  then have "operand_id u \<in> set (concat (map root_ids (all_insts f)))" by (auto simp: root_ids_def)
  moreover have "uses_in_range f" using d(1) by (simp add: scanned_def)
  ultimately show ?case using dce.closure_refl root_ids_range [OF d(2)] by blast
next
  case (need_operand i u)
  have "dc_defs d ! ii_result i = Some i" using scanned_def_at [OF d(1)] need_operand by blast
  then have s: "operand_id u \<in> set (dce_succs f d (ii_result i))" using need_operand.hyps by (simp add: dce_succs_def)
  then have "dce.next_node f d (ii_result i) (operand_id u)" using need_operand.IH by (simp add: dce.next_node_def)
  then show ?case using dce.closure_step need_operand.IH dce_succs_range [OF d(1) _ s] by blast
next
  case (need_arg v b k u)
  have p: "dc_bp_block d ! v = b" "dc_bp_index d ! v = k" "b \<noteq> 0"
    using scanned_param_at [OF d(1), of v b k] need_arg.hyps(2,3) need_arg.IH by simp_all
  have "dc_defs d ! v = None"
  proof (cases "dc_defs d ! v")
    case (Some i)
    then have "i \<in> set (all_insts f) \<and> ii_result i = v" using scanned_def_at [OF d(1), of v i] need_arg.IH by simp
    then have "v \<in> ii_result ` set (all_insts f)" by blast
    moreover have "v \<in> fst ` set (param_sites 0 (if_blocks f))" using need_arg.hyps(2) by (rule image_eqI [rotated]) simp
    ultimately have "v = 0" using ssa_facts(3) [OF d(2)] by simp
    then show ?thesis using need_arg.hyps(3) by simp
  qed
  then have s: "operand_id u \<in> set (dce_succs f d v)" using need_arg.hyps p by (auto simp: dce_succs_def value_ids_def)
  then have "dce.next_node f d v (operand_id u)" using need_arg.IH by (simp add: dce.next_node_def)
  then show ?case using dce.closure_step need_arg.IH dce_succs_range [OF d(1) _ s] by blast
qed

lemma closure_needed:
  assumes "scanned f d" "v \<in> dce.closure f d (set (concat (map root_ids (all_insts f))))"
  shows "needed f v"
proof -
  obtain r where r: "r \<in> set (concat (map root_ids (all_insts f)))" "(dce.next_node f d)\<^sup>*\<^sup>* r v" using assms(2) by (auto simp: dce.closure_def)
  from r(2) show ?thesis by (induction rule: rtranclp_induct) (auto intro: root_ids_needed [OF r(1)] next_node_needed [OF assms(1)])
qed

lemma live_set:
  assumes "defs_ok f" "scanned f d"
  shows "\<exists>live. dce_loop f d (dc_marks d) = Some (Inr live) \<and> length live = if_nvals f + 1 \<and> (\<forall>v\<le>if_nvals f. live ! v \<longleftrightarrow> needed f v)"
proof -
  let ?roots = "concat (map root_ids (all_insts f))"
  have u: "uses_in_range f" using assms(2) by (simp add: scanned_def)
  obtain live work where m: "fold mark ?roots (replicate (if_nvals f + 1) False, []) = (live, work @ [])" "length live = if_nvals f + 1"
    "marked live = {} \<union> set ?roots" "set work = set ?roots - {}"
    using fold_mark [of ?roots "replicate (if_nvals f + 1) False" "[]"] root_ids_range [OF assms(1) u] unfolding marked_none by (auto simp: less_Suc_eq_le)
  have "dce.worklist_inv f d live work" using m by (simp add: dce.worklist_inv_def)
  from dce.loop_marks [OF assms(2) this] obtain l where l: "dce_loop f d (live, work) = Some (Inr l)" "length l = Suc (if_nvals f)"
    "marked l = dce.closure f d (set ?roots)" using m(3) by auto
  have "dc_marks d = (live, work)" using assms(2) m(1) by (simp add: scanned_def)
  moreover have "l ! v \<longleftrightarrow> needed f v" if "v \<le> if_nvals f" for v
  proof -
    have "l ! v \<longleftrightarrow> v \<in> marked l" using that l(2) by (simp add: marked_def)
    then show ?thesis using l(3) closure_needed [OF assms(2)] needed_in_closure [OF assms(2,1)] by blast
  qed
  ultimately show ?thesis using l by simp
qed

definition dce_keeps :: "ir_func \<Rightarrow> ir_inst \<Rightarrow> bool" where
  "dce_keeps f i \<longleftrightarrow> ii_result i = 0 \<or> needed f (ii_result i)"

text \<open>The function without the instructions whose result is not needed.\<close>

definition dce_swept :: "ir_func \<Rightarrow> ir_func" where
  "dce_swept f = f\<lparr>if_blocks := map (\<lambda>b. b\<lparr>ib_insts := filter (dce_keeps f) (ib_insts b)\<rparr>) (if_blocks f)\<rparr>"

lemma sweep_insts_filter:
  "(\<forall>i\<in>set is. P i \<longleftrightarrow> ii_result i = 0 \<or> live ! ii_result i) \<Longrightarrow> sweep_insts live is = (filter P is, filter P is \<noteq> is)"
proof (induction "is")
  case (Cons i "is")
  have "filter P is \<noteq> i # is" using length_filter_le [of P "is"] by (metis impossible_Cons)
  then show ?case using Cons by (auto split: prod.split)
qed simp

lemma sweep_blocks_filter:
  "(\<forall>b\<in>set bs. \<forall>i\<in>set (ib_insts b). P i \<longleftrightarrow> ii_result i = 0 \<or> live ! ii_result i) \<Longrightarrow>
     sweep_blocks live bs = (map (\<lambda>b. b\<lparr>ib_insts := filter P (ib_insts b)\<rparr>) bs, map (\<lambda>b. b\<lparr>ib_insts := filter P (ib_insts b)\<rparr>) bs \<noteq> bs)"
proof (induction bs)
  case (Cons b bs)
  have "b\<lparr>ib_insts := filter P (ib_insts b)\<rparr> = b \<longleftrightarrow> filter P (ib_insts b) = ib_insts b" by (cases b) simp
  then show ?case using Cons sweep_insts_filter [of "ib_insts b" P live] by auto
qed simp

lemma dce_func_result:
  assumes "defs_ok f" "uses_in_range f"
  shows "dce_func f = Inr (if dce_swept f = f then f else ir_func_renumber (dce_swept f), dce_swept f \<noteq> f)"
proof -
  obtain d where d: "scan_blocks f 0 (if_blocks f) (dce_init f) = Inr d" "scanned f d" using scan_gives [OF assms] by blast
  obtain live where l: "dce_loop f d (dc_marks d) = Some (Inr live)" "\<forall>v\<le>if_nvals f. live ! v \<longleftrightarrow> needed f v" using live_set [OF assms(1) d(2)] by blast
  have "\<forall>b\<in>set (if_blocks f). \<forall>i\<in>set (ib_insts b). dce_keeps f i \<longleftrightarrow> ii_result i = 0 \<or> live ! ii_result i"
    using l(2) ssa_facts(4) [OF assms(1)] by (auto simp: dce_keeps_def all_insts_def)
  note sw = sweep_blocks_filter [OF this]
  have same: "dce_swept f = f \<longleftrightarrow> map (\<lambda>b. b\<lparr>ib_insts := filter (dce_keeps f) (ib_insts b)\<rparr>) (if_blocks f) = if_blocks f"
    unfolding dce_swept_def by (cases f) simp
  show ?thesis using same by (simp add: dce_func_def d(1) l(1) sw Let_def) (simp add: dce_swept_def)
qed

text \<open>
  C38: dead code elimination removes exactly the dead code. For a function whose values are defined once and
  whose uses are ids of values the pass returns; it removes the instructions that have a result nobody
  needs and no others; it reports a change exactly if it removed something, and then renumbers.
\<close>

theorem dce_func_exact:
  assumes "defs_ok f" "uses_in_range f"
  shows "dce_func f = Inr (if dce_swept f = f then f else ir_func_renumber (dce_swept f), dce_swept f \<noteq> f)"
  by (rule dce_func_result [OF assms])

section \<open>The pass preserves behaviour\<close>

text \<open>
  Functions as the verifier lets them pass: single assignment, every use names a definition, an instruction
  without result is one with effects, and a block ends with one.
\<close>

definition dce_wf :: "ir_func \<Rightarrow> bool" where
  "dce_wf f \<longleftrightarrow> defs_ok f \<and> uses_defined f \<and> (\<forall>i\<in>set (all_insts f). ii_result i = 0 \<longrightarrow> dce_root i) \<and>
     (\<forall>b\<in>set (if_blocks f). ib_insts b \<noteq> [] \<longrightarrow> ii_result (last (ib_insts b)) = 0)"

text \<open>
  The operations that only compute: arithmetic, comparisons, conversions, vectors, addresses and the loads and
  allocations whose result may go unused. The last three exist only as numbers; no function contains them.
\<close>

definition pure_op :: "ir_op \<Rightarrow> bool" where
  "pure_op op \<longleftrightarrow> op \<in>
     {IR_IADD, IR_ISUB, IR_IMUL, IR_SDIV, IR_UDIV, IR_SREM, IR_UREM, IR_AND, IR_OR, IR_XOR, IR_SHL, IR_LSHR, IR_ASHR, IR_ICMP, IR_FCMP,
      IR_FADD, IR_FSUB, IR_FMUL, IR_FDIV, IR_FNEG, IR_FABS, IR_SEXT, IR_ZEXT, IR_TRUNC, IR_FPEXT, IR_FPTRUNC, IR_FPTOSI, IR_FPTOUI,
      IR_SITOFP, IR_UITOFP, IR_BITCAST, IR_ALLOCA, IR_LOAD, IR_PTRADD, IR_SELECT, IR_VSPLAT, IR_VEXTRACT, IR_VREDUCE_ADD,
      IR_VREDUCE_MUL, IR_VREDUCE_AND, IR_VREDUCE_OR, IR_VREDUCE_XOR, IR_VA_ARG, IR_VA_END, IR_VA_COPY}"

definition pure_inst :: "ir_inst \<Rightarrow> bool" where
  "pure_inst i \<longleftrightarrow> pure_op (ii_op i) \<and> \<not> ii_volatile i \<and> \<not> ii_seq_cst i"

text \<open>Machines on which such instructions, unless volatile or sequentially consistent, leave the world alone.\<close>

definition pure_machine :: "('v, 'w) ir_machine \<Rightarrow> bool" where
  "pure_machine M \<longleftrightarrow> (\<forall>i xs w. pure_inst i \<longrightarrow> snd (im_exec M i xs w) = w)"

lemma not_root_pure: "\<not> dce_root i \<Longrightarrow> pure_inst i"
  by (cases "ii_op i") (auto simp: dce_root_def pure_inst_def pure_op_def split: if_splits)

definition dce_rel :: "ir_func \<Rightarrow> nat \<times> 'v env \<times> 'w \<Rightarrow> nat \<times> 'v env \<times> 'w \<Rightarrow> bool" where
  "dce_rel f s t = (case (s, t) of ((b, env, w), (b', env', w')) \<Rightarrow> b' = b \<and> w' = w \<and> (\<forall>v. needed f v \<longrightarrow> env' v = env v))"

lemma wf_uses_in_range: "dce_wf f \<Longrightarrow> uses_in_range f"
  using value_defs_pos [of _ f] by (fastforce simp: dce_wf_def uses_in_range_def uses_defined_def defs_ok_def)

lemma kept_uses: "dce_wf f \<Longrightarrow> i \<in> set (all_insts f) \<Longrightarrow> dce_keeps f i \<Longrightarrow> u \<in> set (inst_uses i) \<Longrightarrow> needed f (operand_id u)"
  by (cases "ii_result i = 0") (auto simp: dce_wf_def dce_keeps_def intro: need_effect need_operand)

lemma kept_vals:
  assumes "dce_wf f" "i \<in> set (all_insts f)" "dce_keeps f i" "\<forall>v. needed f v \<longrightarrow> e' v = e v"
    and "us = ii_ops i \<or> (\<exists>x\<in>set (ii_edges i). us = ed_args x)"
  shows "map (operand_val M e') us = map (operand_val M e) us"
proof -
  have "e' (operand_id u) = e (operand_id u)" if "u \<in> set us" "io_kind u = IROP_VALUE" for u
    using kept_uses [OF assms(1-3), of u] assms(4,5) that by (auto simp: inst_uses_def)
  then show ?thesis by (auto simp: operand_val_def)
qed

lemma removed_pure: "i \<in> set (all_insts f) \<Longrightarrow> \<not> dce_keeps f i \<Longrightarrow> \<not> dce_root (inst_shape i) \<and> \<not> needed f (ii_result i)"
  using need_root [of i f] by (auto simp: dce_keeps_def dce_root_def inst_shape_def)

lemma exec_swept:
  assumes "dce_wf f" "pure_machine M" "set is \<subseteq> set (all_insts f)" "\<forall>v. needed f v \<longrightarrow> e' v = e v" "fold (exec_inst M) is (e, w) = (e1, w1)"
  shows "\<exists>e1'. fold (exec_inst M) (filter (dce_keeps f) is) (e', w) = (e1', w1) \<and> (\<forall>v. needed f v \<longrightarrow> e1' v = e1 v)"
  using assms(3-)
proof (induction "is" arbitrary: e e' w)
  case (Cons i "is")
  have i: "i \<in> set (all_insts f)" using Cons.prems by simp
  obtain x w' where x: "im_exec M (inst_shape i) (map (operand_val M e) (ii_ops i)) w = (x, w')" by fastforce
  then have ex: "exec_inst M i (e, w) = (set_val (ii_result i) x e, w')" by (simp add: exec_inst_def)
  show ?case
  proof (cases "dce_keeps f i")
    case True
    have "map (operand_val M e') (ii_ops i) = map (operand_val M e) (ii_ops i)" by (rule kept_vals [OF assms(1) i True Cons.prems(2)]) simp
    then have "exec_inst M i (e', w) = (set_val (ii_result i) x e', w')" using x by (simp only: exec_inst_def prod.case)
    moreover have "\<forall>v. needed f v \<longrightarrow> set_val (ii_result i) x e' v = set_val (ii_result i) x e v" using Cons.prems(2) by (simp add: set_val_def)
    ultimately show ?thesis using Cons.IH [of "set_val (ii_result i) x e'" "set_val (ii_result i) x e" w'] Cons.prems(1,3) ex True by simp
  next
    case False
    have "w' = w" using assms(2) removed_pure [OF i False] not_root_pure x by (metis pure_machine_def snd_conv)
    moreover have "\<forall>v. needed f v \<longrightarrow> e' v = set_val (ii_result i) x e v" using removed_pure [OF i False] Cons.prems(2) by (auto simp: set_val_def)
    ultimately show ?thesis using Cons.IH [of e' "set_val (ii_result i) x e" w'] Cons.prems(1,3) ex False by simp
  qed
qed simp

lemma bind_vals_agree: "\<forall>v. P v \<longrightarrow> e' v = e v \<Longrightarrow> \<forall>v. P v \<longrightarrow> bind_vals ps xs e' v = bind_vals ps xs e v"
proof (induction ps xs e arbitrary: e' rule: bind_vals.induct)
  case (1 p ps x xs e)
  have "\<forall>v. P v \<longrightarrow> set_val p x e' v = set_val p x e v" using "1.prems" by (simp add: set_val_def)
  from "1.IH" [OF this] show ?case by simp
qed simp_all

lemma swept_params: "block_params (dce_swept f) k = block_params f k"
  by (cases k) (simp_all add: block_params_def dce_swept_def)

lemma last_filter_keep: "xs \<noteq> [] \<Longrightarrow> P (last xs) \<Longrightarrow> filter P xs \<noteq> [] \<and> last (filter P xs) = last xs"
  by (induction xs) (auto split: if_splits)

lemma exit_swept:
  assumes "dce_wf f" "blk \<in> set (if_blocks f)" "\<forall>v. needed f v \<longrightarrow> e' v = e v"
  shows "step_rel (dce_rel f) (block_exit M f (ib_insts blk) (e, w)) (block_exit M (dce_swept f) (filter (dce_keeps f) (ib_insts blk)) (e', w))"
proof (cases "ib_insts blk = []")
  case False
  define t where "t = last (ib_insts blk)"
  have t: "t \<in> set (all_insts f)" "dce_keeps f t" using False assms(1,2) by (auto simp: t_def all_insts_def dce_wf_def dce_keeps_def intro!: bexI [of _ blk])
  have l: "filter (dce_keeps f) (ib_insts blk) \<noteq> []" "last (filter (dce_keeps f) (ib_insts blk)) = t"
    using last_filter_keep [OF False] t(2) by (auto simp: t_def)
  have ops: "map (operand_val M e') (ii_ops t) = map (operand_val M e) (ii_ops t)" by (rule kept_vals [OF assms(1) t assms(3)]) simp
  have args: "map (operand_val M e') (ed_args (ii_edges t ! k)) = map (operand_val M e) (ed_args (ii_edges t ! k))" if "k < length (ii_edges t)" for k
    by (rule kept_vals [OF assms(1) t assms(3) disjI2 [OF bexI [OF refl nth_mem [OF that]]]])
  show ?thesis using False l bind_vals_agree [OF assms(3)]
    by (simp only: block_exit_def prod.case if_False Let_def t_def [symmetric] ops) (auto simp: step_rel_def dce_rel_def swept_params args split: option.splits)
qed (simp add: block_exit_def step_rel_def)

lemma dce_step:
  assumes "dce_wf f" "pure_machine M" and rel: "dce_rel f s t"
  shows "step_rel (dce_rel f) (block_step M f s) (block_step M (dce_swept f) t)"
proof -
  obtain b env w env' where s: "s = (b, env, w)" "t = (b, env', w)" and env: "\<forall>v. needed f v \<longrightarrow> env' v = env v"
    using rel by (cases s; cases t) (auto simp: dce_rel_def)
  show ?thesis
  proof (cases "1 \<le> b \<and> b \<le> length (if_blocks f)")
    case True
    define blk where "blk = if_blocks f ! (b - 1)"
    have "b - 1 < length (if_blocks f)" using True by linarith
    then have blk: "blk \<in> set (if_blocks f)" by (simp add: blk_def)
    then have sub: "set (ib_insts blk) \<subseteq> set (all_insts f)" by (auto simp: all_insts_def)
    obtain e v where fin: "fold (exec_inst M) (ib_insts blk) (env, w) = (e, v)" by fastforce
    obtain e' where fin': "fold (exec_inst M) (filter (dce_keeps f) (ib_insts blk)) (env', w) = (e', v)" "\<forall>v. needed f v \<longrightarrow> e' v = e v"
      using exec_swept [OF assms(1,2) sub env fin] by blast
    have "block_step M f s = block_exit M f (ib_insts blk) (e, v)" unfolding s using True fin by (intro block_step_in) (simp_all add: blk_def)
    moreover have "block_step M (dce_swept f) t = block_exit M (dce_swept f) (filter (dce_keeps f) (ib_insts blk)) (e', v)"
      unfolding s using True fin'(1) by (intro block_step_in) (auto simp: dce_swept_def blk_def)
    ultimately show ?thesis using exit_swept [OF assms(1) blk fin'(2)] by simp
  next
    case False
    then show ?thesis by (auto simp: block_step_def s dce_swept_def step_rel_def)
  qed
qed

interpretation elimination: lockstep f "dce_swept f" "\<lambda>M. dce_rel f" "\<lambda>M. dce_wf f \<and> pure_machine M" for f
  by unfold_locales (simp add: dce_rel_def, simp add: dce_rel_def dce_swept_def, blast intro: dce_step)

lemma swept_defs:
  "set (value_defs (dce_swept f)) =
     (set (if_param_vals f) \<union> (\<Union>b\<in>set (if_blocks f). set (ib_params b)) \<union> ii_result ` {i \<in> set (all_insts f). dce_keeps f i}) - {0}"
proof -
  have "(\<Union>b\<in>set (if_blocks f). ii_result ` set (filter (dce_keeps f) (ib_insts b))) = ii_result ` {i \<in> set (all_insts f). dce_keeps f i}"
    by (auto simp: all_insts_def)
  then show ?thesis by (simp add: value_defs_set dce_swept_def UN_Un_distrib Un_assoc)
qed

lemma all_defs: "set (value_defs f) = (set (if_param_vals f) \<union> (\<Union>b\<in>set (if_blocks f). set (ib_params b)) \<union> ii_result ` set (all_insts f)) - {0}"
proof -
  have "(\<Union>b\<in>set (if_blocks f). ii_result ` set (ib_insts b)) = ii_result ` set (all_insts f)" by (auto simp: all_insts_def)
  then show ?thesis by (simp add: value_defs_set UN_Un_distrib Un_assoc)
qed

lemma subseq_distinct: "subseq xs ys \<Longrightarrow> distinct ys \<Longrightarrow> distinct xs"
  by (auto simp: subseq_conv_nths distinct_nthsI)

lemma distinct_concat_map_filter:
  "distinct (filter P (xs @ concat (map (\<lambda>b. g b @ map h (k b)) bs))) \<Longrightarrow> distinct (filter P (xs @ concat (map (\<lambda>b. g b @ map h (filter Q (k b))) bs)))"
proof -
  have one: "subseq (filter P (g b @ map h (filter Q (k b)))) (filter P (g b @ map h (k b)))" for b
    by (intro subseq_filter list_emb_append_mono subseq_map subseq_filter_left) simp_all
  have "subseq (filter P (concat (map (\<lambda>b. g b @ map h (filter Q (k b))) bs))) (filter P (concat (map (\<lambda>b. g b @ map h (k b)) bs)))"
  proof (induction bs)
    case (Cons b bs)
    have "filter P (concat (map F (b # bs))) = filter P (F b) @ filter P (concat (map F bs))" for F by simp
    then show ?case using list_emb_append_mono [OF one Cons] by (simp only:)
  qed simp
  then have "subseq (filter P (xs @ concat (map (\<lambda>b. g b @ map h (filter Q (k b))) bs))) (filter P (xs @ concat (map (\<lambda>b. g b @ map h (k b)) bs)))"
    by (simp add: list_emb_append_mono)
  then show "distinct (filter P (xs @ concat (map (\<lambda>b. g b @ map h (k b)) bs))) \<Longrightarrow> distinct (filter P (xs @ concat (map (\<lambda>b. g b @ map h (filter Q (k b))) bs)))"
    by (rule subseq_distinct)
qed

lemma swept_wf:
  assumes "dce_wf f"
  shows "defs_ok (dce_swept f) \<and> uses_defined (dce_swept f)"
proof -
  have f: "distinct (value_defs f)" "\<forall>v\<in>set (value_defs f). v \<le> if_nvals f" "if_nvals f < 2 ^ 32" "uses_defined f"
    using assms by (simp_all add: dce_wf_def defs_ok_def)
  have "distinct (value_defs (dce_swept f))"
    using distinct_concat_map_filter [OF f(1) [unfolded value_defs_blocks]] by (simp add: value_defs_blocks dce_swept_def comp_def)
  moreover have "if_nvals (dce_swept f) = if_nvals f" by (simp add: dce_swept_def)
  ultimately have "defs_ok (dce_swept f)" using f(2,3) swept_defs [of f] all_defs [of f] by (auto simp: defs_ok_def)
  moreover have "v \<in> set (value_defs (dce_swept f))" if "v \<in> set (value_uses (dce_swept f))" for v
  proof -
    obtain i u where i: "i \<in> set (all_insts f)" "dce_keeps f i" "u \<in> set (inst_uses i)" "v = operand_id u"
      using \<open>v \<in> set (value_uses (dce_swept f))\<close> unfolding value_uses_def dce_swept_def all_insts_def by fastforce
    have n: "needed f v" using kept_uses [OF assms i(1-3)] i(4) by simp
    have d: "v \<in> set (value_defs f)" using all_insts_uses [OF i(1,3)] f(4) i(4) by (simp add: uses_defined_def)
    show ?thesis
    proof (cases "v \<in> ii_result ` set (all_insts f)")
      case True
      then show ?thesis using n d unfolding swept_defs all_defs [of f] dce_keeps_def by auto
    next
      case False
      then show ?thesis using d unfolding swept_defs all_defs [of f] by blast
    qed
  qed
  ultimately show ?thesis by (simp add: uses_defined_def)
qed

definition same_behaviour :: "('v, 'w) ir_machine \<Rightarrow> ir_func \<Rightarrow> ir_func \<Rightarrow> bool" where
  "same_behaviour M f g \<longleftrightarrow> (\<forall>args w k. behaviour M g args w k = behaviour M f args w k)"

lemma dce_func_preserves:
  assumes "dce_wf f" "pure_machine M"
  shows "\<exists>g ch. dce_func f = Inr (g, ch) \<and> defs_ok g \<and> uses_defined g \<and> same_behaviour M f g"
proof -
  have w: "defs_ok f" "uses_defined f" using assms(1) by (simp_all add: dce_wf_def)
  note run = dce_func_result [OF w(1) wf_uses_in_range [OF assms(1)]]
  have b: "same_behaviour M f (dce_swept f)" using elimination.behaviour_same [of f M] assms by (simp add: same_behaviour_def)
  have "same_behaviour M f (ir_func_renumber (dce_swept f))"
    using renumbering.behaviour_same [of "dce_swept f" M] swept_wf [OF assms(1)] b by (simp add: same_behaviour_def)
  then show ?thesis unfolding run using w renumber_wf [of "dce_swept f"] swept_wf [OF assms(1)] by (auto simp: same_behaviour_def)
qed

text \<open>
  C5: dead code elimination of a module preserves behaviour. If the functions are in single assignment form
  with defined uses, instructions without result have effects and end the blocks, the pass returns, and each
  function of the result behaves as before on every machine whose arithmetic, conversions, loads and the
  other computing operations leave the world alone; single assignment and defined uses are kept, so the next pass finds them.
\<close>

theorem opt_dce_preserves:
  assumes "\<forall>f\<in>set fs. dce_wf f" "pure_machine M"
  shows "\<exists>gs ch. opt_dce fs = Inr (gs, ch) \<and> list_all2 (same_behaviour M) fs gs \<and> (\<forall>g\<in>set gs. defs_ok g \<and> uses_defined g)"
  using assms(1)
proof (induction fs)
  case (Cons f fs)
  obtain g ch where g: "dce_func f = Inr (g, ch)" "defs_ok g" "uses_defined g" "same_behaviour M f g"
    using dce_func_preserves [OF _ assms(2), of f] Cons.prems by auto
  obtain gs ch' where "opt_dce fs = Inr (gs, ch')" "list_all2 (same_behaviour M) fs gs" "\<forall>g\<in>set gs. defs_ok g \<and> uses_defined g"
    using Cons by auto
  then show ?case using g by simp
qed auto

definition demo_value :: "nat \<Rightarrow> ir_operand" where
  "demo_value v = \<lparr>io_kind = IROP_VALUE, io_type = 0, io_argflags = 0, io_sym = 0, io_a = of_nat v, io_b = 0\<rparr>"

definition demo_inst :: "ir_op \<Rightarrow> nat \<Rightarrow> nat list \<Rightarrow> ir_inst" where
  "demo_inst op r vs = \<lparr>ii_op = op, ii_type = 0, ii_subop = 0, ii_volatile = False, ii_seq_cst = False, ii_result = r,
     ii_loc = 0, ii_align = 0, ii_ops = map demo_value vs, ii_edges = []\<rparr>"

text \<open>Parameter 1, a dead addition 2 and a product 3 that is returned.\<close>

definition demo_dce :: ir_func where
  "demo_dce = \<lparr>if_param_vals = [1], if_blocks = [\<lparr>ib_params = [], ib_insts =
     [demo_inst IR_IADD 2 [1, 1], demo_inst IR_IMUL 3 [1, 1], demo_inst IR_RET 0 [3]]\<rparr>],
     if_vals = replicate 3 val_info_cleared, if_local_slots = []\<rparr>"

lemma demo_dce_facts: "value_defs demo_dce = [1, 2, 3]" "value_uses demo_dce = [1, 1, 1, 1, 3]" "if_nvals demo_dce = 3"
  "all_insts demo_dce = [demo_inst IR_IADD 2 [1, 1], demo_inst IR_IMUL 3 [1, 1], demo_inst IR_RET 0 [3]]"
  by code_simp+

lemma demo_dce_ok: "defs_ok demo_dce" "uses_in_range demo_dce" "dce_wf demo_dce"
  by (simp_all add: defs_ok_def uses_in_range_def dce_wf_def uses_defined_def demo_dce_facts)
    (simp_all add: demo_dce_def demo_inst_def dce_root_def)

definition demo_dce_out :: ir_func where
  "demo_dce_out = ir_func_renumber (demo_dce\<lparr>if_blocks := [\<lparr>ib_params = [], ib_insts = [demo_inst IR_IMUL 3 [1, 1], demo_inst IR_RET 0 [3]]\<rparr>]\<rparr>)"

lemma demo_dce_run: "dce_func demo_dce = Inr (demo_dce_out, True)"
  by code_simp

theorem dce_func_exact_witness:
  "dce_func demo_dce = Inr (demo_dce_out, True) \<and> dce_swept demo_dce \<noteq> demo_dce \<and> ir_func_renumber (dce_swept demo_dce) = demo_dce_out"
  using dce_func_exact [OF demo_dce_ok(1,2)] demo_dce_run by (auto split: if_splits)

text \<open>A machine on which every effect counts.\<close>

definition demo_machine :: "(nat, nat) ir_machine" where
  "demo_machine = \<lparr>im_const = (\<lambda>o'. unat (io_a o')), im_undef = 0,
     im_exec = (\<lambda>i xs w. if pure_inst i then (sum_list xs, w) else (0, w + 1)), im_branch = (\<lambda>i xs. None)\<rparr>"

theorem opt_dce_preserves_witness:
  "opt_dce [demo_dce] = Inr ([demo_dce_out], True) \<and> same_behaviour demo_machine demo_dce demo_dce_out \<and> uses_defined demo_dce_out"
proof -
  have "opt_dce [demo_dce] = Inr ([demo_dce_out], True)" by (simp add: demo_dce_run)
  moreover have "pure_machine demo_machine" by (simp add: pure_machine_def demo_machine_def)
  note opt_dce_preserves [OF _ this, of "[demo_dce]"]
  ultimately show ?thesis using demo_dce_ok(3) by auto
qed

end
