(* ===== verification/Pp_Const.thy ===== *)
theory Pp_Const
  imports Numlit
begin

text \<open>
  The constants of #if expressions, src/src/pp/ppexpr.c: numbers and character constants, evaluated in 64-bit
  target arithmetic. A spelling is read as the list of characters left. The evaluation context keeps the
  errors and warnings given, each with its location.
\<close>

section \<open>Values and the evaluation context\<close>

record pp_val =
  pv_v :: u64
  pv_unsigned :: bool

definition make_val :: "u64 \<Rightarrow> bool \<Rightarrow> pp_val" where
  "make_val v is_unsigned = \<lparr>pv_v = v, pv_unsigned = is_unsigned\<rparr>"

record eval_ctx =
  ec_toks :: "pp_token list"
  ec_pos :: nat
  ec_line_loc :: nat
  ec_failed :: bool
  ec_errors :: "(nat \<times> string) list"
  ec_warnings :: "(nat \<times> string) list"

definition peek_tok :: "eval_ctx \<Rightarrow> pp_token option" where
  "peek_tok c = (if ec_pos c < length (ec_toks c) then Some (ec_toks c ! ec_pos c) else None)"

definition eval_error :: "eval_ctx \<Rightarrow> pp_token option \<Rightarrow> string \<Rightarrow> eval_ctx" where
  "eval_error c at' msg =
     (if ec_failed c then c
      else c\<lparr>ec_failed := True, ec_errors := ec_errors c @ [(case at' of Some t \<Rightarrow> pp_loc t | None \<Rightarrow> ec_line_loc c, msg)]\<rparr>)"

definition accept_punct :: "eval_ctx \<Rightarrow> nat \<Rightarrow> eval_ctx option" where
  "accept_punct c p =
     (case peek_tok c of
        Some t \<Rightarrow> if pp_kind t = PPTOK_PUNCT \<and> pp_punct t = p then Some (c\<lparr>ec_pos := ec_pos c + 1\<rparr>) else None
      | None \<Rightarrow> None)"

section \<open>Numbers\<close>

text \<open>The digit loop: value, overflow flag and the characters left.\<close>

fun number_digits :: "nat \<Rightarrow> u64 \<Rightarrow> bool \<Rightarrow> string \<Rightarrow> u64 \<times> bool \<times> string" where
  "number_digits base v overflow [] = (v, overflow, [])"
| "number_digits base v overflow (ch # cs) =
     (case digit_of base ch of
        None \<Rightarrow> (v, overflow, ch # cs)
      | Some d \<Rightarrow>
          if d \<ge> base then (v, overflow, ch # cs)
          else number_digits base (v * of_nat base + of_nat d) (overflow \<or> v > (NOT 0 - of_nat d) div of_nat base) cs)"

text \<open>The suffix loop: whether there is a u, and the characters left.\<close>

function number_suffix :: "bool \<Rightarrow> bool \<Rightarrow> string \<Rightarrow> bool \<times> string" where
  "number_suffix has_u has_l [] = (has_u, [])"
| "number_suffix has_u has_l (ch # cs) =
     (if (ch = CHR ''u'' \<or> ch = CHR ''U'') \<and> \<not> has_u then number_suffix True has_l cs
      else if (ch = CHR ''l'' \<or> ch = CHR ''L'') \<and> \<not> has_l then
        number_suffix has_u True (if cs \<noteq> [] \<and> hd cs = ch then tl cs else cs)
      else (has_u, ch # cs))"
  by pat_completeness auto
termination
  by (relation "measure (\<lambda>(u, l, s). length s)") auto

definition number_base :: "string \<Rightarrow> nat \<times> string" where
  "number_base s =
     (if length s > 2 \<and> s ! 0 = CHR ''0'' \<and> (s ! 1 = CHR ''x'' \<or> s ! 1 = CHR ''X'') then (16, drop 2 s)
      else if length s > 1 \<and> s ! 0 = CHR ''0'' then (8, drop 1 s)
      else (10, s))"

definition parse_number :: "eval_ctx \<Rightarrow> pp_token \<Rightarrow> pp_val \<times> eval_ctx" where
  "parse_number c t =
     (let (base, digits) = number_base (pp_spelling t);
          (v, overflow, left) = number_digits base 0 False digits;
          (has_u, left') = number_suffix False False left in
      if left' \<noteq> [] then (make_val 0 False, eval_error c (Some t) ''invalid integer constant in preprocessor expression'')
      else (make_val v (has_u \<or> v > 0x7FFFFFFFFFFFFFFF),
            if overflow then eval_error c (Some t) ''integer constant is too large for uintmax_t'' else c))"

section \<open>Character constants\<close>

fun cc_octal :: "nat \<Rightarrow> u64 \<Rightarrow> string \<Rightarrow> u64 \<times> string" where
  "cc_octal (Suc k) ch (c # cs) =
     (if code CHR ''0'' \<le> code c \<and> code c \<le> code CHR ''7''
      then cc_octal k (ch * 8 + of_nat (code c - code CHR ''0'')) cs else (ch, c # cs))"
| "cc_octal k ch cs = (ch, cs)"

fun cc_hex :: "u64 \<Rightarrow> string \<Rightarrow> u64 \<times> string" where
  "cc_hex ch [] = (ch, [])"
| "cc_hex ch (c # cs) =
     (case digit_of 16 c of None \<Rightarrow> (ch, c # cs) | Some d \<Rightarrow> cc_hex (ch * 16 + of_nat d) cs)"

text \<open>An escape, after the backslash: None is an unknown escape.\<close>

definition cc_escape :: "string \<Rightarrow> (u64 \<times> string) option" where
  "cc_escape s =
     (let c = hd s; cs = tl s in
      if c = CHR ''n'' then Some (10, cs) else if c = CHR ''t'' then Some (9, cs) else if c = CHR ''r'' then Some (13, cs)
      else if code CHR ''0'' \<le> code c \<and> code c \<le> code CHR ''7'' then Some (cc_octal 3 0 s)
      else if c = CHR ''x'' then Some (cc_hex 0 cs)
      else if c = CHR 0x5C then Some (0x5C, cs) else if c = CHR 0x27 then Some (0x27, cs) else if c = CHR 0x22 then Some (0x22, cs)
      else if c = CHR ''a'' then Some (7, cs) else if c = CHR ''b'' then Some (8, cs) else if c = CHR ''f'' then Some (12, cs)
      else if c = CHR ''v'' then Some (11, cs)
      else None)"

lemma cc_octal_length: "length (snd (cc_octal k ch s)) \<le> length s"
  by (induction k ch s rule: cc_octal.induct) auto

lemma cc_hex_length: "length (snd (cc_hex ch s)) \<le> length s"
  by (induction ch s rule: cc_hex.induct) (auto split: option.splits)

lemma cc_escape_length: "cc_escape s = Some (ch, left) \<Longrightarrow> length left \<le> length s"
  using cc_octal_length [of 3 0 s] cc_hex_length [of 0 "tl s"] by (auto simp: cc_escape_def Let_def split: if_splits)

text \<open>The loop over the characters up to the closing quote: an error message, or value, count and the characters left.\<close>

function charconst_loop :: "bool \<Rightarrow> u64 \<Rightarrow> nat \<Rightarrow> string \<Rightarrow> string + u64 \<times> nat \<times> string" where
  "charconst_loop prefixed v n [] = Inr (v, n, [])"
| "charconst_loop prefixed v n (c # cs) =
     (if c = CHR 0x27 then Inr (v, n, c # cs)
      else if c = CHR 0x5C then
        (if cs = [] then Inl ''invalid character constant''
         else case cc_escape cs of
           None \<Rightarrow> Inl ''unknown escape sequence in character constant''
         | Some (ch, left) \<Rightarrow> charconst_loop prefixed (if prefixed then ch else push_bit 8 v OR (ch AND 0xFF)) (n + 1) left)
      else (let ch = of_nat (code c) in charconst_loop prefixed (if prefixed then ch else push_bit 8 v OR (ch AND 0xFF)) (n + 1) cs))"
  by pat_completeness auto
termination
  by (relation "measure (\<lambda>(p, v, n, s). length s)") (auto dest: cc_escape_length)

definition parse_charconst :: "eval_ctx \<Rightarrow> pp_token \<Rightarrow> pp_val \<times> eval_ctx" where
  "parse_charconst c t =
     (let s = pp_spelling t;
          prefixed = (s \<noteq> [] \<and> (hd s = CHR ''L'' \<or> hd s = CHR ''u'' \<or> hd s = CHR ''U''));
          s1 = (if prefixed then tl s else s);
          bad = (make_val 0 False, eval_error c (Some t) ''invalid character constant'') in
      if s1 = [] \<or> hd s1 \<noteq> CHR 0x27 then bad
      else case charconst_loop prefixed 0 0 (tl s1) of
        Inl msg \<Rightarrow> (make_val 0 False, eval_error c (Some t) msg)
      | Inr (v, nchars, left) \<Rightarrow>
          if left = [] \<or> hd left \<noteq> CHR 0x27 \<or> nchars = 0 then bad
          else if nchars > 1 then
            (if prefixed then (make_val v False, c\<lparr>ec_warnings := ec_warnings c @ [(pp_loc t, ''character constant too long for its type'')]\<rparr>)
             else if nchars > 8 then (make_val 0 False, eval_error c (Some t) ''character constant too long'')
             else (make_val v False, c))
          else if prefixed then (make_val v False, c)
          else (make_val (signed (ucast v :: u8)) False, c))"

section \<open>What a number means\<close>

text \<open>
  A number is a prefix that gives the base, the longest run of digits of that base and a suffix of C11; its
  value is the value of the digits, and one that does not fit intmax_t is unsigned.
\<close>

definition number_spec :: "eval_ctx \<Rightarrow> pp_token \<Rightarrow> pp_val \<times> eval_ctx" where
  "number_spec c t =
     (let (base, body) = number_base (pp_spelling t);
          is_digit = (\<lambda>ch. case digit_of base ch of None \<Rightarrow> False | Some d \<Rightarrow> d < base);
          n = digits_value base (takeWhile is_digit body) in
      case map_of suffix_table (dropWhile is_digit body) of
        None \<Rightarrow> (make_val 0 False, eval_error c (Some t) ''invalid integer constant in preprocessor expression'')
      | Some (has_u, _) \<Rightarrow>
          (make_val (of_nat n) (has_u \<or> n mod 2 ^ 64 \<ge> 2 ^ 63),
           if n \<ge> 2 ^ 64 then eval_error c (Some t) ''integer constant is too large for uintmax_t'' else c))"

lemma number_digits_spec:
  assumes base: "2 \<le> base" "base \<le> 16" and "overflow \<longleftrightarrow> 2 ^ 64 \<le> n" "v = of_nat n"
  shows "number_digits base v overflow cs =
    (let is_digit = (\<lambda>ch. case digit_of base ch of None \<Rightarrow> False | Some d \<Rightarrow> d < base);
         m = foldl (\<lambda>n c. n * base + the (digit_of base c)) n (takeWhile is_digit cs)
     in (of_nat m, 2 ^ 64 \<le> m, dropWhile is_digit cs))"
  using assms(3,4)
proof (induction cs arbitrary: n v overflow)
  case (Cons c cs)
  consider "digit_of base c = None" | d where "digit_of base c = Some d" "d \<ge> base" | d where "digit_of base c = Some d" "d < base"
    by (cases "digit_of base c") (auto simp: not_le [symmetric])
  then show ?case
  proof cases
    case (3 d)
    have ov: "(overflow \<or> v > (NOT 0 - of_nat d) div of_nat base) \<longleftrightarrow> 2 ^ 64 \<le> n * base + d"
      using digit_overflow_step [OF base 3(2) Cons.prems] .
    have "v * of_nat base + of_nat d = of_nat (n * base + d)" using Cons.prems by simp
    from Cons.IH [OF ov this] show ?thesis using 3 by (simp add: Let_def)
  qed (use Cons.prems in simp_all)
qed simp

lemma number_suffix_both: "number_suffix True True s = (True, s)"
  by (cases s) simp_all

lemma number_suffix_table:
  "(case number_suffix False False s of (u, left) \<Rightarrow> if left = [] then Some u else None) = map_option fst (map_of suffix_table s)"
proof -
  have u: "number_suffix True False s = (True, case s of [] \<Rightarrow> [] | c # cs \<Rightarrow> if c \<in> {CHR ''l'', CHR ''L''} then if cs \<noteq> [] \<and> hd cs = c then tl cs else cs else s)" for s
    by (cases s) (simp_all add: number_suffix_both)
  have l: "number_suffix False True s = (case s of [] \<Rightarrow> (False, []) | c # cs \<Rightarrow> if c \<in> {CHR ''u'', CHR ''U''} then (True, cs) else (False, s))" for s
    by (cases s) (simp_all add: number_suffix_both)
  show ?thesis by (cases s) (auto simp: u l suffix_table_def split: list.splits)
qed


end
