(* ===== verification/Pp_Eval.thy ===== *)
theory Pp_Eval
  imports Pp_Const "HOL-Library.Signed_Division"
begin

text \<open>
  The evaluator of #if expressions, src/src/pp/ppexpr.c: recursive descent over the tokens of the line, in
  64-bit arithmetic with the usual unsigned infection. The ten functions eval_mul to eval_or have one shape,
  an operand of the next tighter level and a loop over the operators of the level; here the level is an
  argument and what a level does with an operator is a definition of its own. Recursion takes fuel, and
  None is running out of it; the fuel of \<open>eval_line\<close> is enough for every line.
\<close>

section \<open>Operators\<close>

text \<open>The numbers of the punctuators in the enumeration PpPunct.\<close>

abbreviation (input) "PUNCT_LPAREN \<equiv> 2 :: nat"
abbreviation (input) "PUNCT_RPAREN \<equiv> 3 :: nat"
abbreviation (input) "PUNCT_PLUSPLUS \<equiv> 8 :: nat"
abbreviation (input) "PUNCT_MINUSMINUS \<equiv> 9 :: nat"
abbreviation (input) "PUNCT_AMP \<equiv> 10 :: nat"
abbreviation (input) "PUNCT_STAR \<equiv> 11 :: nat"
abbreviation (input) "PUNCT_PLUS \<equiv> 12 :: nat"
abbreviation (input) "PUNCT_MINUS \<equiv> 13 :: nat"
abbreviation (input) "PUNCT_TILDE \<equiv> 14 :: nat"
abbreviation (input) "PUNCT_BANG \<equiv> 15 :: nat"
abbreviation (input) "PUNCT_SLASH \<equiv> 16 :: nat"
abbreviation (input) "PUNCT_PERCENT \<equiv> 17 :: nat"
abbreviation (input) "PUNCT_SHL \<equiv> 18 :: nat"
abbreviation (input) "PUNCT_SHR \<equiv> 19 :: nat"
abbreviation (input) "PUNCT_LT \<equiv> 20 :: nat"
abbreviation (input) "PUNCT_GT \<equiv> 21 :: nat"
abbreviation (input) "PUNCT_LE \<equiv> 22 :: nat"
abbreviation (input) "PUNCT_GE \<equiv> 23 :: nat"
abbreviation (input) "PUNCT_EQEQ \<equiv> 24 :: nat"
abbreviation (input) "PUNCT_NOTEQ \<equiv> 25 :: nat"
abbreviation (input) "PUNCT_CARET \<equiv> 26 :: nat"
abbreviation (input) "PUNCT_PIPE \<equiv> 27 :: nat"
abbreviation (input) "PUNCT_AMPAMP \<equiv> 28 :: nat"
abbreviation (input) "PUNCT_PIPEPIPE \<equiv> 29 :: nat"
abbreviation (input) "PUNCT_QUESTION \<equiv> 30 :: nat"
abbreviation (input) "PUNCT_COLON \<equiv> 31 :: nat"
abbreviation (input) "PUNCT_COMMA \<equiv> 45 :: nat"
abbreviation (input) "PUNCT_HASH \<equiv> 46 :: nat"

datatype level = LV_MUL | LV_ADD | LV_SHIFT | LV_REL | LV_EQ | LV_BITAND | LV_BITXOR | LV_BITOR | LV_AND | LV_OR

fun level_ops :: "level \<Rightarrow> nat list" where
  "level_ops LV_MUL = [PUNCT_STAR, PUNCT_SLASH, PUNCT_PERCENT]"
| "level_ops LV_ADD = [PUNCT_PLUS, PUNCT_MINUS]"
| "level_ops LV_SHIFT = [PUNCT_SHL, PUNCT_SHR]"
| "level_ops LV_REL = [PUNCT_LT, PUNCT_GT, PUNCT_LE, PUNCT_GE]"
| "level_ops LV_EQ = [PUNCT_EQEQ, PUNCT_NOTEQ]"
| "level_ops LV_BITAND = [PUNCT_AMP]"
| "level_ops LV_BITXOR = [PUNCT_CARET]"
| "level_ops LV_BITOR = [PUNCT_PIPE]"
| "level_ops LV_AND = [PUNCT_AMPAMP]"
| "level_ops LV_OR = [PUNCT_PIPEPIPE]"

text \<open>The level of the operands; the operands of products are unary expressions.\<close>

fun tighter :: "level \<Rightarrow> level option" where
  "tighter LV_MUL = None"
| "tighter LV_ADD = Some LV_MUL"
| "tighter LV_SHIFT = Some LV_ADD"
| "tighter LV_REL = Some LV_SHIFT"
| "tighter LV_EQ = Some LV_REL"
| "tighter LV_BITAND = Some LV_EQ"
| "tighter LV_BITXOR = Some LV_BITAND"
| "tighter LV_BITOR = Some LV_BITXOR"
| "tighter LV_AND = Some LV_BITOR"
| "tighter LV_OR = Some LV_AND"

definition accept_level :: "level \<Rightarrow> eval_ctx \<Rightarrow> (nat \<times> eval_ctx) option" where
  "accept_level lv c =
     (case peek_tok c of
        Some t \<Rightarrow> if pp_kind t = PPTOK_PUNCT \<and> pp_punct t \<in> set (level_ops lv) then Some (pp_punct t, c\<lparr>ec_pos := ec_pos c + 1\<rparr>) else None
      | None \<Rightarrow> None)"

definition s_lt :: "u64 \<Rightarrow> u64 \<Rightarrow> bool" where
  "s_lt a b \<longleftrightarrow> sint a < sint b"

definition apply_mul :: "nat \<Rightarrow> bool \<Rightarrow> pp_val \<Rightarrow> pp_val \<Rightarrow> eval_ctx \<Rightarrow> pp_val \<times> eval_ctx" where
  "apply_mul op live l r c =
     (let uns = pv_unsigned l \<or> pv_unsigned r; is_div = (op = PUNCT_SLASH) in
      if op = PUNCT_SLASH \<or> op = PUNCT_PERCENT then
        if pv_v r = 0 then
          (make_val 0 uns, if live then eval_error c (Some (ec_toks c ! (ec_pos c - 1))) ''division by zero in #if expression'' else c)
        else if uns then (make_val (if is_div then pv_v l div pv_v r else pv_v l mod pv_v r) True, c)
        else if sint (pv_v r) = -1 \<and> pv_v l = push_bit 63 1 then (make_val (if is_div then pv_v l else 0) False, c)
        else (make_val (word_of_int (if is_div then sint (pv_v l) sdiv sint (pv_v r) else sint (pv_v l) smod sint (pv_v r))) False, c)
      else (make_val (pv_v l * pv_v r) uns, c))"

definition apply_add :: "nat \<Rightarrow> pp_val \<Rightarrow> pp_val \<Rightarrow> pp_val" where
  "apply_add op l r = make_val (if op = PUNCT_MINUS then pv_v l - pv_v r else pv_v l + pv_v r) (pv_unsigned l \<or> pv_unsigned r)"

definition apply_shift :: "nat \<Rightarrow> pp_val \<Rightarrow> pp_val \<Rightarrow> pp_val" where
  "apply_shift op l r =
     (let right = (op = PUNCT_SHR);
          cnt = (if \<not> pv_unsigned r \<and> s_lt (pv_v r) 0 then 64 else pv_v r) in
      if cnt \<ge> 64 then
        (if right \<and> \<not> pv_unsigned l \<and> s_lt (pv_v l) 0 then make_val (NOT 0) (pv_unsigned l) else make_val 0 (pv_unsigned l))
      else if right then
        (if \<not> pv_unsigned l \<and> s_lt (pv_v l) 0 then make_val (NOT (drop_bit (unat cnt) (NOT (pv_v l)))) False
         else make_val (drop_bit (unat cnt) (pv_v l)) (pv_unsigned l))
      else make_val (push_bit (unat cnt) (pv_v l)) (pv_unsigned l))"

definition apply_rel :: "nat \<Rightarrow> pp_val \<Rightarrow> pp_val \<Rightarrow> pp_val" where
  "apply_rel op l r =
     (let a = pv_v l; b = pv_v r;
          res = (if pv_unsigned l \<or> pv_unsigned r then
                   (if op = PUNCT_LT then a < b else if op = PUNCT_GT then a > b else if op = PUNCT_LE then a \<le> b else a \<ge> b)
                 else
                   (if op = PUNCT_LT then s_lt a b else if op = PUNCT_GT then s_lt b a else if op = PUNCT_LE then \<not> s_lt b a else \<not> s_lt a b))
      in make_val (if res then 1 else 0) False)"

definition apply_eq :: "nat \<Rightarrow> pp_val \<Rightarrow> pp_val \<Rightarrow> pp_val" where
  "apply_eq op l r = make_val (if (pv_v l = pv_v r) \<noteq> (op = PUNCT_NOTEQ) then 1 else 0) False"

definition apply_bitand :: "pp_val \<Rightarrow> pp_val \<Rightarrow> pp_val" where
  "apply_bitand l r = make_val (pv_v l AND pv_v r) (pv_unsigned l \<or> pv_unsigned r)"

definition apply_bitxor :: "pp_val \<Rightarrow> pp_val \<Rightarrow> pp_val" where
  "apply_bitxor l r = make_val (pv_v l XOR pv_v r) (pv_unsigned l \<or> pv_unsigned r)"

definition apply_bitor :: "pp_val \<Rightarrow> pp_val \<Rightarrow> pp_val" where
  "apply_bitor l r = make_val (pv_v l OR pv_v r) (pv_unsigned l \<or> pv_unsigned r)"

definition apply_and :: "pp_val \<Rightarrow> pp_val \<Rightarrow> pp_val" where
  "apply_and l r = make_val (if pv_v l \<noteq> 0 \<and> pv_v r \<noteq> 0 then 1 else 0) False"

definition apply_or :: "pp_val \<Rightarrow> pp_val \<Rightarrow> pp_val" where
  "apply_or l r = make_val (if pv_v l \<noteq> 0 \<or> pv_v r \<noteq> 0 then 1 else 0) False"

fun apply_level :: "level \<Rightarrow> nat \<Rightarrow> bool \<Rightarrow> pp_val \<Rightarrow> pp_val \<Rightarrow> eval_ctx \<Rightarrow> pp_val \<times> eval_ctx" where
  "apply_level LV_MUL op live l r c = apply_mul op live l r c"
| "apply_level LV_ADD op live l r c = (apply_add op l r, c)"
| "apply_level LV_SHIFT op live l r c = (apply_shift op l r, c)"
| "apply_level LV_REL op live l r c = (apply_rel op l r, c)"
| "apply_level LV_EQ op live l r c = (apply_eq op l r, c)"
| "apply_level LV_BITAND op live l r c = (apply_bitand l r, c)"
| "apply_level LV_BITXOR op live l r c = (apply_bitxor l r, c)"
| "apply_level LV_BITOR op live l r c = (apply_bitor l r, c)"
| "apply_level LV_AND op live l r c = (apply_and l r, c)"
| "apply_level LV_OR op live l r c = (apply_or l r, c)"

text \<open>Whether the right operand is evaluated.\<close>

fun right_live :: "level \<Rightarrow> bool \<Rightarrow> pp_val \<Rightarrow> bool" where
  "right_live LV_AND live l = (live \<and> pv_v l \<noteq> 0)"
| "right_live LV_OR live l = (live \<and> pv_v l = 0)"
| "right_live _ live l = live"

section \<open>Recursive descent\<close>

definition eval_leaf :: "eval_ctx \<Rightarrow> pp_token \<Rightarrow> pp_val \<times> eval_ctx" where
  "eval_leaf c t =
     (case pp_kind t of
        PPTOK_PPNUM \<Rightarrow> parse_number c t
      | PPTOK_CHARCONST \<Rightarrow> parse_charconst c t
      | PPTOK_IDENT \<Rightarrow> (make_val 0 False, c)
      | PPTOK_STRLIT \<Rightarrow> (make_val 0 False, eval_error c (Some t) ''string literals are not allowed in #if'')
      | _ \<Rightarrow> (make_val 0 False, eval_error c (Some t) ''unexpected token in #if expression''))"

fun eval_cond :: "nat \<Rightarrow> bool \<Rightarrow> eval_ctx \<Rightarrow> (pp_val \<times> eval_ctx) option"
  and eval_level :: "nat \<Rightarrow> level \<Rightarrow> bool \<Rightarrow> eval_ctx \<Rightarrow> (pp_val \<times> eval_ctx) option"
  and eval_loop :: "nat \<Rightarrow> level \<Rightarrow> bool \<Rightarrow> pp_val \<Rightarrow> eval_ctx \<Rightarrow> (pp_val \<times> eval_ctx) option"
  and eval_unary :: "nat \<Rightarrow> bool \<Rightarrow> eval_ctx \<Rightarrow> (pp_val \<times> eval_ctx) option"
  and eval_primary :: "nat \<Rightarrow> bool \<Rightarrow> eval_ctx \<Rightarrow> (pp_val \<times> eval_ctx) option"
where
  "eval_cond 0 live c = None"
| "eval_cond (Suc n) live c =
     (case eval_level n LV_OR live c of
        None \<Rightarrow> None
      | Some (cond, c1) \<Rightarrow>
          (case accept_punct c1 PUNCT_QUESTION of
             None \<Rightarrow> Some (cond, c1)
           | Some c2 \<Rightarrow>
               (case eval_cond n (live \<and> pv_v cond \<noteq> 0) c2 of
                  None \<Rightarrow> None
                | Some (a, c3) \<Rightarrow>
                    (case accept_punct c3 PUNCT_COLON of
                       None \<Rightarrow> Some (make_val 0 False, eval_error c3 (peek_tok c3) ''expected ':' in #if expression'')
                     | Some c4 \<Rightarrow>
                         (case eval_cond n (live \<and> pv_v cond = 0) c4 of
                            None \<Rightarrow> None
                          | Some (b, c5) \<Rightarrow>
                              Some (make_val (if pv_v cond \<noteq> 0 then pv_v a else pv_v b) (pv_unsigned a \<or> pv_unsigned b), c5))))))"
| "eval_level 0 lv live c = None"
| "eval_level (Suc n) lv live c =
     (case (case tighter lv of None \<Rightarrow> eval_unary n live c | Some lv' \<Rightarrow> eval_level n lv' live c) of
        None \<Rightarrow> None
      | Some (l, c1) \<Rightarrow> eval_loop n lv live l c1)"
| "eval_loop 0 lv live l c = None"
| "eval_loop (Suc n) lv live l c =
     (case accept_level lv c of
        None \<Rightarrow> Some (l, c)
      | Some (op, c1) \<Rightarrow>
          (case (case tighter lv of None \<Rightarrow> eval_unary n (right_live lv live l) c1 | Some lv' \<Rightarrow> eval_level n lv' (right_live lv live l) c1) of
             None \<Rightarrow> None
           | Some (r, c2) \<Rightarrow>
               if lv = LV_MUL \<and> ec_failed c2 then Some (make_val 0 False, c2)
               else (case apply_level lv op live l r c2 of (l', c3) \<Rightarrow> eval_loop n lv live l' c3)))"
| "eval_unary 0 live c = None"
| "eval_unary (Suc n) live c =
     (case accept_punct c PUNCT_BANG of
        Some c1 \<Rightarrow> (case eval_unary n live c1 of None \<Rightarrow> None | Some (v, c2) \<Rightarrow> Some (make_val (if pv_v v = 0 then 1 else 0) False, c2))
      | None \<Rightarrow>
     (case accept_punct c PUNCT_TILDE of
        Some c1 \<Rightarrow> (case eval_unary n live c1 of None \<Rightarrow> None | Some (v, c2) \<Rightarrow> Some (make_val (NOT (pv_v v)) (pv_unsigned v), c2))
      | None \<Rightarrow>
     (case accept_punct c PUNCT_PLUS of
        Some c1 \<Rightarrow> eval_unary n live c1
      | None \<Rightarrow>
     (case accept_punct c PUNCT_MINUS of
        Some c1 \<Rightarrow> (case eval_unary n live c1 of None \<Rightarrow> None | Some (v, c2) \<Rightarrow> Some (make_val (0 - pv_v v) (pv_unsigned v), c2))
      | None \<Rightarrow>
     (case (case accept_punct c PUNCT_PLUSPLUS of Some c1 \<Rightarrow> Some c1 | None \<Rightarrow> accept_punct c PUNCT_MINUSMINUS) of
        Some c1 \<Rightarrow> Some (make_val 0 False, eval_error c1 (Some (ec_toks c1 ! (ec_pos c1 - 1))) '''++'/'--' are not allowed in #if'')
      | None \<Rightarrow> eval_primary n live c)))))"
| "eval_primary 0 live c = None"
| "eval_primary (Suc n) live c =
     (if ec_failed c then Some (make_val 0 False, c)
      else case peek_tok c of
        None \<Rightarrow> Some (make_val 0 False, eval_error c None ''expected expression in #if'')
      | Some t \<Rightarrow>
          (case accept_punct c PUNCT_LPAREN of
             Some c1 \<Rightarrow>
               (case eval_cond n live c1 of
                  None \<Rightarrow> None
                | Some (v, c2) \<Rightarrow>
                    (case accept_punct c2 PUNCT_RPAREN of
                       Some c3 \<Rightarrow> Some (v, c3)
                     | None \<Rightarrow> Some (v, eval_error c2 (peek_tok c2) ''expected ')' in #if expression'')))
           | None \<Rightarrow> Some (eval_leaf (c\<lparr>ec_pos := ec_pos c + 1\<rparr>) t)))"

section \<open>What evaluation does to the context\<close>

text \<open>Evaluation only moves forward in the same tokens, failure is final, and there is one error exactly if it failed.\<close>

definition ctx_ext :: "eval_ctx \<Rightarrow> eval_ctx \<Rightarrow> bool" where
  "ctx_ext c c' \<longleftrightarrow> ec_toks c' = ec_toks c \<and> ec_pos c \<le> ec_pos c' \<and> (ec_failed c \<longrightarrow> ec_failed c') \<and>
     (ec_pos c \<le> length (ec_toks c) \<longrightarrow> ec_pos c' \<le> length (ec_toks c)) \<and>
     (length (ec_errors c) = of_bool (ec_failed c) \<longrightarrow> length (ec_errors c') = of_bool (ec_failed c'))"

lemma ctx_ext_refl [simp]: "ctx_ext c c"
  by (simp add: ctx_ext_def)

lemma ctx_ext_trans [trans]: "ctx_ext a b \<Longrightarrow> ctx_ext b c \<Longrightarrow> ctx_ext a c"
  by (auto simp: ctx_ext_def)

lemma eval_error_ext [simp]: "ctx_ext c (eval_error c a msg)"
  by (simp add: ctx_ext_def eval_error_def)

lemma eval_error_pos [simp]: "ec_pos (eval_error c a msg) = ec_pos c" "ec_toks (eval_error c a msg) = ec_toks c" "ec_failed (eval_error c a msg)"
  by (simp_all add: eval_error_def)

lemma accept_punct_SomeD:
  "accept_punct c p = Some c' \<Longrightarrow> c' = c\<lparr>ec_pos := ec_pos c + 1\<rparr> \<and> ec_pos c < length (ec_toks c) \<and>
     pp_kind (ec_toks c ! ec_pos c) = PPTOK_PUNCT \<and> pp_punct (ec_toks c ! ec_pos c) = p"
  by (auto simp: accept_punct_def peek_tok_def split: if_splits)

lemma accept_level_SomeD:
  "accept_level lv c = Some (op, c') \<Longrightarrow> c' = c\<lparr>ec_pos := ec_pos c + 1\<rparr> \<and> ec_pos c < length (ec_toks c) \<and>
     pp_kind (ec_toks c ! ec_pos c) = PPTOK_PUNCT \<and> pp_punct (ec_toks c ! ec_pos c) = op \<and> op \<in> set (level_ops lv)"
  by (auto simp: accept_level_def peek_tok_def split: if_splits)

lemma accept_punct_ext: "accept_punct c p = Some c' \<Longrightarrow> ctx_ext c c'"
  by (auto dest!: accept_punct_SomeD simp: ctx_ext_def)

lemma accept_level_ext: "accept_level lv c = Some (op, c') \<Longrightarrow> ctx_ext c c'"
  by (auto dest!: accept_level_SomeD simp: ctx_ext_def)

lemma parse_number_ext: "parse_number c t = (v, c') \<Longrightarrow> ctx_ext c c' \<and> ec_pos c' = ec_pos c"
  by (auto simp: parse_number_def Let_def split: prod.splits if_splits)

lemma warned_ext [simp]: "ctx_ext c (c\<lparr>ec_warnings := w\<rparr>)"
  by (simp add: ctx_ext_def)

lemma parse_charconst_ext: "parse_charconst c t = (v, c') \<Longrightarrow> ctx_ext c c' \<and> ec_pos c' = ec_pos c"
  by (auto simp: parse_charconst_def Let_def split: prod.splits if_splits sum.splits)

lemma eval_leaf_ext: "eval_leaf c t = (v, c') \<Longrightarrow> ctx_ext c c' \<and> ec_pos c' = ec_pos c"
  by (auto simp: eval_leaf_def split: pp_tok_kind.splits dest: parse_number_ext parse_charconst_ext)

lemma apply_level_ext: "apply_level lv op live l r c = (v, c') \<Longrightarrow> ctx_ext c c' \<and> ec_pos c' = ec_pos c"
  by (cases lv) (auto simp: apply_mul_def Let_def split: if_splits)

text \<open>One statement for each of the five functions at a given fuel.\<close>

definition ext_at :: "nat \<Rightarrow> bool" where
  "ext_at n \<longleftrightarrow>
     (\<forall>live c v c'. eval_cond n live c = Some (v, c') \<longrightarrow> ctx_ext c c') \<and>
     (\<forall>lv live c v c'. eval_level n lv live c = Some (v, c') \<longrightarrow> ctx_ext c c') \<and>
     (\<forall>lv live l c v c'. eval_loop n lv live l c = Some (v, c') \<longrightarrow> ctx_ext c c') \<and>
     (\<forall>live c v c'. eval_unary n live c = Some (v, c') \<longrightarrow> ctx_ext c c') \<and>
     (\<forall>live c v c'. eval_primary n live c = Some (v, c') \<longrightarrow> ctx_ext c c')"

text \<open>The operand of a level.\<close>

definition eval_operand :: "nat \<Rightarrow> level \<Rightarrow> bool \<Rightarrow> eval_ctx \<Rightarrow> (pp_val \<times> eval_ctx) option" where
  "eval_operand n lv live c = (case tighter lv of None \<Rightarrow> eval_unary n live c | Some lv' \<Rightarrow> eval_level n lv' live c)"

lemmas eval_step = eval_cond.simps(2) eval_level.simps(2) [folded eval_operand_def] eval_loop.simps(2) [folded eval_operand_def]
  eval_unary.simps(2) eval_primary.simps(2)

declare eval_cond.simps(2) [simp del] eval_level.simps(2) [simp del] eval_loop.simps(2) [simp del]
  eval_unary.simps(2) [simp del] eval_primary.simps(2) [simp del]

lemma ext_atD:
  assumes "ext_at n"
  shows "eval_cond n live c = Some (v, c') \<Longrightarrow> ctx_ext c c'" "eval_level n lv live c = Some (v, c') \<Longrightarrow> ctx_ext c c'"
    "eval_loop n lv live l c = Some (v, c') \<Longrightarrow> ctx_ext c c'" "eval_unary n live c = Some (v, c') \<Longrightarrow> ctx_ext c c'"
    "eval_primary n live c = Some (v, c') \<Longrightarrow> ctx_ext c c'"
  using assms by (auto simp: ext_at_def)

lemma ext_at_operand: "ext_at n \<Longrightarrow> eval_operand n lv live c = Some (v, c') \<Longrightarrow> ctx_ext c c'"
  by (auto simp: ext_at_def eval_operand_def split: option.splits)

lemma ext_cond: "ext_at n \<Longrightarrow> eval_cond (Suc n) live c = Some (v, c') \<Longrightarrow> ctx_ext c c'"
proof -
  assume n: "ext_at n" and e: "eval_cond (Suc n) live c = Some (v, c')"
  obtain cond c1 where 1: "eval_level n LV_OR live c = Some (cond, c1)" using e by (auto simp: eval_step split: option.splits)
  note x1 = ext_atD(2) [OF n 1]
  show ?thesis
  proof (cases "accept_punct c1 PUNCT_QUESTION")
    case None
    then show ?thesis using e 1 x1 by (simp add: eval_step)
  next
    case (Some c2)
    obtain a c3 where 3: "eval_cond n (live \<and> pv_v cond \<noteq> 0) c2 = Some (a, c3)" using e 1 Some by (auto simp: eval_step split: option.splits)
    have x3: "ctx_ext c c3" by (rule ctx_ext_trans [OF x1 ctx_ext_trans [OF accept_punct_ext [OF Some] ext_atD(1) [OF n 3]]])
    show ?thesis
    proof (cases "accept_punct c3 PUNCT_COLON")
      case None
      then have "c' = eval_error c3 (peek_tok c3) ''expected ':' in #if expression''" using e 1 Some 3 by (simp add: eval_step)
      then show ?thesis using ctx_ext_trans [OF x3 eval_error_ext] by simp
    next
      case colon: (Some c4)
      obtain b where "eval_cond n (live \<and> pv_v cond = 0) c4 = Some (b, c')" using e 1 Some 3 colon by (auto simp: eval_step split: option.splits)
      then show ?thesis using ctx_ext_trans [OF x3 ctx_ext_trans [OF accept_punct_ext [OF colon] ext_atD(1) [OF n]]] by blast
    qed
  qed
qed

lemma ext_level: "ext_at n \<Longrightarrow> eval_level (Suc n) lv live c = Some (v, c') \<Longrightarrow> ctx_ext c c'"
proof -
  assume n: "ext_at n" and e: "eval_level (Suc n) lv live c = Some (v, c')"
  obtain l c1 where "eval_operand n lv live c = Some (l, c1)" "eval_loop n lv live l c1 = Some (v, c')"
    using e by (auto simp: eval_step split: option.splits)
  then show ?thesis using ctx_ext_trans [OF ext_at_operand [OF n] ext_atD(3) [OF n]] by blast
qed

lemma ext_loop: "ext_at n \<Longrightarrow> eval_loop (Suc n) lv live l c = Some (v, c') \<Longrightarrow> ctx_ext c c'"
proof -
  assume n: "ext_at n" and e: "eval_loop (Suc n) lv live l c = Some (v, c')"
  show ?thesis
  proof (cases "accept_level lv c")
    case None
    then show ?thesis using e by (simp add: eval_step)
  next
    case (Some oc)
    obtain op c1 where oc: "oc = (op, c1)" by fastforce
    have c1: "ctx_ext c c1" using accept_level_ext Some oc by blast
    obtain r c2 where r: "eval_operand n lv (right_live lv live l) c1 = Some (r, c2)"
      using e Some oc by (auto simp: eval_step split: option.splits)
    have c2: "ctx_ext c1 c2" by (rule ext_at_operand [OF n r])
    obtain l' c3 where l': "apply_level lv op live l r c2 = (l', c3)" by fastforce
    have c3: "ctx_ext c2 c3" using apply_level_ext [OF l'] by blast
    have "c' = c2 \<or> eval_loop n lv live l' c3 = Some (v, c')" using e Some oc r l' by (auto simp: eval_step split: if_splits)
    then have "c' = c2 \<or> ctx_ext c3 c'" using ext_atD(3) [OF n] by auto
    then show ?thesis using c1 c2 c3 by (auto intro: ctx_ext_trans)
  qed
qed

lemma ext_unary: "ext_at n \<Longrightarrow> eval_unary (Suc n) live c = Some (v, c') \<Longrightarrow> ctx_ext c c'"
proof -
  assume n: "ext_at n" and e: "eval_unary (Suc n) live c = Some (v, c')"
  show ?thesis using e by (auto simp: eval_step split: option.splits dest!: accept_punct_ext ext_atD(4,5) [OF n] intro: ctx_ext_trans)
qed

lemma ext_primary: "ext_at n \<Longrightarrow> eval_primary (Suc n) live c = Some (v, c') \<Longrightarrow> ctx_ext c c'"
proof -
  assume n: "ext_at n" and e: "eval_primary (Suc n) live c = Some (v, c')"
  have step: "ctx_ext c (c\<lparr>ec_pos := ec_pos c + 1\<rparr>)" if "peek_tok c = Some t" for t
    using that by (auto simp: peek_tok_def ctx_ext_def split: if_splits)
  show ?thesis using e
    by (auto simp: eval_step split: option.splits if_splits dest!: accept_punct_ext ext_atD(1) [OF n] eval_leaf_ext step intro: ctx_ext_trans)
      (meson ctx_ext_trans eval_error_ext)+
qed

lemma ext_at_all: "ext_at n"
proof (induction n)
  case (Suc n)
  then show ?case unfolding ext_at_def [of "Suc n"] by (intro conjI allI impI) (rule ext_cond ext_level ext_loop ext_unary ext_primary; assumption)+
qed (simp add: ext_at_def)

lemmas eval_ext = ext_atD [OF ext_at_all]
lemmas operand_ext = ext_at_operand [OF ext_at_all]

section \<open>Enough fuel\<close>

definition tokens_left :: "eval_ctx \<Rightarrow> nat" where
  "tokens_left c = length (ec_toks c) - ec_pos c"

fun level_depth :: "level \<Rightarrow> nat" where
  "level_depth LV_MUL = 3" | "level_depth LV_ADD = 4" | "level_depth LV_SHIFT = 5" | "level_depth LV_REL = 6" | "level_depth LV_EQ = 7"
| "level_depth LV_BITAND = 8" | "level_depth LV_BITXOR = 9" | "level_depth LV_BITOR = 10" | "level_depth LV_AND = 11" | "level_depth LV_OR = 12"

lemma level_depth_bounds: "3 \<le> level_depth lv" "level_depth lv \<le> 12" "tighter lv = Some lv' \<Longrightarrow> level_depth lv = level_depth lv' + 1"
  by (cases lv; simp)+

lemma level_depth_pos: "level_depth lv \<noteq> 0"
  by (cases lv) simp_all

definition fuel_at :: "nat \<Rightarrow> bool" where
  "fuel_at n \<longleftrightarrow>
     (\<forall>live c. 14 * tokens_left c + 13 \<le> n \<longrightarrow> eval_cond n live c \<noteq> None) \<and>
     (\<forall>lv live c. 14 * tokens_left c + level_depth lv \<le> n \<longrightarrow> eval_level n lv live c \<noteq> None) \<and>
     (\<forall>lv live l c. 14 * tokens_left c + 1 \<le> n \<longrightarrow> eval_loop n lv live l c \<noteq> None) \<and>
     (\<forall>live c. 14 * tokens_left c + 2 \<le> n \<longrightarrow> eval_unary n live c \<noteq> None) \<and>
     (\<forall>live c. 14 * tokens_left c + 1 \<le> n \<longrightarrow> eval_primary n live c \<noteq> None)"

lemma fuel_atD:
  assumes "fuel_at n"
  shows "14 * tokens_left c + 13 \<le> n \<Longrightarrow> \<exists>v c'. eval_cond n live c = Some (v, c')"
    "14 * tokens_left c + level_depth lv \<le> n \<Longrightarrow> \<exists>v c'. eval_level n lv live c = Some (v, c')"
    "14 * tokens_left c + 1 \<le> n \<Longrightarrow> \<exists>v c'. eval_loop n lv live l c = Some (v, c')"
    "14 * tokens_left c + 2 \<le> n \<Longrightarrow> \<exists>v c'. eval_unary n live c = Some (v, c')"
    "14 * tokens_left c + 1 \<le> n \<Longrightarrow> \<exists>v c'. eval_primary n live c = Some (v, c')"
  using assms by (auto simp: fuel_at_def)

lemma fuel_operand: "fuel_at n \<Longrightarrow> 14 * tokens_left c + level_depth lv \<le> Suc n \<Longrightarrow> \<exists>v c'. eval_operand n lv live c = Some (v, c')"
  using fuel_atD(2) [of n c] fuel_atD(4) [of n c] level_depth_bounds(3) [of lv] level_depth_bounds(1) [of lv]
  by (auto simp: eval_operand_def split: option.splits)

lemma tokens_left_ext: "ctx_ext c c' \<Longrightarrow> tokens_left c' \<le> tokens_left c"
  by (auto simp: tokens_left_def ctx_ext_def)

lemma tokens_left_accept: "accept_punct c p = Some c' \<Longrightarrow> tokens_left c = Suc (tokens_left c')"
  "accept_level lv c = Some (op, c') \<Longrightarrow> tokens_left c = Suc (tokens_left c')"
  by (auto dest!: accept_punct_SomeD accept_level_SomeD simp: tokens_left_def)

lemma fuel_cond: "fuel_at n \<Longrightarrow> 14 * tokens_left c + 13 \<le> Suc n \<Longrightarrow> eval_cond (Suc n) live c \<noteq> None"
proof -
  assume n: "fuel_at n" "14 * tokens_left c + 13 \<le> Suc n"
  obtain cond c1 where 1: "eval_level n LV_OR live c = Some (cond, c1)" using fuel_atD(2) [OF n(1), of c LV_OR live] n(2) by auto
  have left: "\<exists>v c''. eval_cond n lve c' = Some (v, c'')" if "tokens_left c' < tokens_left c" for c' lve using fuel_atD(1) [OF n(1), of c'] n(2) that by auto
  show ?thesis
  proof (cases "accept_punct c1 PUNCT_QUESTION")
    case (Some c2)
    then have "tokens_left c2 < tokens_left c" using tokens_left_accept(1) tokens_left_ext [OF eval_ext(2) [OF 1]] by fastforce
    then obtain a c3 where 3: "eval_cond n (live \<and> pv_v cond \<noteq> 0) c2 = Some (a, c3)" using left by blast
    have "tokens_left c4 < tokens_left c" if "accept_punct c3 PUNCT_COLON = Some c4" for c4
      using tokens_left_accept(1) [OF that] tokens_left_ext [OF eval_ext(1) [OF 3]] \<open>tokens_left c2 < tokens_left c\<close> by linarith
    then have "\<exists>v c''. eval_cond n (live \<and> pv_v cond = 0) c4 = Some (v, c'')" if "accept_punct c3 PUNCT_COLON = Some c4" for c4
      using left that by blast
    then show ?thesis by (cases "accept_punct c3 PUNCT_COLON") (auto simp: eval_step 1 Some 3)
  qed (simp add: eval_step 1)
qed

lemma fuel_level: "fuel_at n \<Longrightarrow> 14 * tokens_left c + level_depth lv \<le> Suc n \<Longrightarrow> eval_level (Suc n) lv live c \<noteq> None"
proof -
  assume n: "fuel_at n" "14 * tokens_left c + level_depth lv \<le> Suc n"
  obtain l c1 where 1: "eval_operand n lv live c = Some (l, c1)" using fuel_operand [OF n] by blast
  have "14 * tokens_left c1 + 1 \<le> n" using tokens_left_ext [OF operand_ext [OF 1]] n(2) level_depth_bounds(1) [of lv] by linarith
  then show ?thesis using fuel_atD(3) [OF n(1), of c1 lv live l] by (auto simp: eval_step 1)
qed

lemma fuel_loop: "fuel_at n \<Longrightarrow> 14 * tokens_left c + 1 \<le> Suc n \<Longrightarrow> eval_loop (Suc n) lv live l c \<noteq> None"
proof (cases "accept_level lv c")
  case (Some oc)
  assume n: "fuel_at n" "14 * tokens_left c + 1 \<le> Suc n"
  obtain op c1 where oc: "oc = (op, c1)" by fastforce
  have c1: "tokens_left c = Suc (tokens_left c1)" using tokens_left_accept(2) Some oc by blast
  have "14 * tokens_left c1 + level_depth lv \<le> Suc n" using c1 n(2) level_depth_bounds(2) [of lv] by linarith
  then obtain r c2 where r: "eval_operand n lv (right_live lv live l) c1 = Some (r, c2)" using fuel_operand [OF n(1)] by blast
  obtain l' c3 where a: "apply_level lv op live l r c2 = (l', c3)" by fastforce
  have "tokens_left c3 \<le> tokens_left c1" using tokens_left_ext [OF operand_ext [OF r]] tokens_left_ext [of c2 c3] apply_level_ext [OF a] by linarith
  then have "14 * tokens_left c3 + 1 \<le> n" using c1 n(2) by linarith
  then show ?thesis using fuel_atD(3) [OF n(1), of c3 lv live l'] by (auto simp: eval_step Some oc r a)
qed (simp add: eval_step)

lemma fuel_unary: "fuel_at n \<Longrightarrow> 14 * tokens_left c + 2 \<le> Suc n \<Longrightarrow> eval_unary (Suc n) live c \<noteq> None"
proof -
  assume n: "fuel_at n" "14 * tokens_left c + 2 \<le> Suc n"
  have u: "\<exists>v c'. eval_unary n live c1 = Some (v, c')" if "accept_punct c p = Some c1" for p c1
    using fuel_atD(4) [OF n(1), of c1] n(2) tokens_left_accept(1) [OF that] by auto
  have p: "eval_primary n live c \<noteq> None" using fuel_atD(5) [OF n(1), of c] n(2) by auto
  show ?thesis using u p by (auto simp: eval_step split: option.splits) (metis option.distinct(1))+
qed

lemma fuel_primary: "fuel_at n \<Longrightarrow> 14 * tokens_left c + 1 \<le> Suc n \<Longrightarrow> eval_primary (Suc n) live c \<noteq> None"
proof -
  assume n: "fuel_at n" "14 * tokens_left c + 1 \<le> Suc n"
  have u: "\<exists>v c'. eval_cond n live c1 = Some (v, c')" if "accept_punct c p = Some c1" for p c1
    using fuel_atD(1) [OF n(1), of c1] n(2) tokens_left_accept(1) [OF that] by auto
  show ?thesis using u [of PUNCT_LPAREN] by (auto simp: eval_step split: option.splits)
qed

lemma fuel_at_all: "fuel_at n"
proof (induction n)
  case (Suc n)
  then show ?case unfolding fuel_at_def [of "Suc n"] by (intro conjI allI impI) (rule fuel_cond fuel_level fuel_loop fuel_unary fuel_primary; assumption)+
qed (auto simp: fuel_at_def level_depth_pos)

end
