(* ===== verification/Pp_Grammar.thy ===== *)
theory Pp_Grammar
  imports Pp_Eval
begin

text \<open>
  What #if expressions mean: the grammar of C11 with its parse trees, the value of a tree in exact integer
  arithmetic with C's conversions, and that the evaluator of src/src/pp/ppexpr.c accepts exactly the token
  lists the grammar derives and computes that value.
\<close>

section \<open>The grammar\<close>

text \<open>
  The expressions of C11 6.6 without assignments, calls and commas: parse trees with the tokens they derive,
  by the syntactic category of the standard. Binary operators group to the left, the conditional to the
  right.
\<close>

datatype pexpr = E_Leaf pp_token | E_Paren pexpr | E_Un nat pexpr | E_Bin level nat pexpr pexpr | E_Cond pexpr pexpr pexpr

datatype category = C_primary | C_unary | C_level level | C_cond

fun operand_cat :: "level \<Rightarrow> category" where
  "operand_cat lv = (case tighter lv of None \<Rightarrow> C_unary | Some lv' \<Rightarrow> C_level lv')"

definition is_punct :: "nat \<Rightarrow> pp_token \<Rightarrow> bool" where
  "is_punct p t \<longleftrightarrow> pp_kind t = PPTOK_PUNCT \<and> pp_punct t = p"

inductive derives :: "category \<Rightarrow> pexpr \<Rightarrow> pp_token list \<Rightarrow> bool" where
  d_leaf: "pp_kind t \<in> {PPTOK_PPNUM, PPTOK_CHARCONST, PPTOK_IDENT} \<Longrightarrow> derives C_primary (E_Leaf t) [t]"
| d_paren: "is_punct PUNCT_LPAREN t \<Longrightarrow> derives C_cond e ts \<Longrightarrow> is_punct PUNCT_RPAREN u \<Longrightarrow> derives C_primary (E_Paren e) (t # ts @ [u])"
| d_primary: "derives C_primary e ts \<Longrightarrow> derives C_unary e ts"
| d_unary: "is_punct op t \<Longrightarrow> op \<in> {PUNCT_BANG, PUNCT_TILDE, PUNCT_PLUS, PUNCT_MINUS} \<Longrightarrow> derives C_unary e ts \<Longrightarrow> derives C_unary (E_Un op e) (t # ts)"
| d_operand: "derives (operand_cat lv) e ts \<Longrightarrow> derives (C_level lv) e ts"
| d_binary: "derives (C_level lv) a ts \<Longrightarrow> is_punct op t \<Longrightarrow> op \<in> set (level_ops lv) \<Longrightarrow> derives (operand_cat lv) b us \<Longrightarrow>
    derives (C_level lv) (E_Bin lv op a b) (ts @ t # us)"
| d_or: "derives (C_level LV_OR) e ts \<Longrightarrow> derives C_cond e ts"
| d_cond: "derives (C_level LV_OR) e ts \<Longrightarrow> is_punct PUNCT_QUESTION t \<Longrightarrow> derives C_cond a us \<Longrightarrow> is_punct PUNCT_COLON u \<Longrightarrow> derives C_cond b vs \<Longrightarrow>
    derives C_cond (E_Cond e a b) (ts @ t # us @ u # vs)"

text \<open>The value of a constant, and whether it is one.\<close>

definition leaf_ctx :: eval_ctx where
  "leaf_ctx = \<lparr>ec_toks = [], ec_pos = 0, ec_line_loc = 0, ec_failed = False, ec_errors = [], ec_warnings = []\<rparr>"

definition leaf_val :: "pp_token \<Rightarrow> pp_val" where
  "leaf_val t = fst (eval_leaf leaf_ctx t)"

definition leaf_ok :: "pp_token \<Rightarrow> bool" where
  "leaf_ok t \<longleftrightarrow> \<not> ec_failed (snd (eval_leaf leaf_ctx t))"

fun leaves_ok :: "pexpr \<Rightarrow> bool" where
  "leaves_ok (E_Leaf t) = leaf_ok t"
| "leaves_ok (E_Paren e) = leaves_ok e"
| "leaves_ok (E_Un op e) = leaves_ok e"
| "leaves_ok (E_Bin lv op a b) = (leaves_ok a \<and> leaves_ok b)"
| "leaves_ok (E_Cond e a b) = (leaves_ok e \<and> leaves_ok a \<and> leaves_ok b)"

lemma eval_error_failed: "ec_failed (eval_error c a msg)"
  by (simp add: eval_error_def)

lemma parse_number_indep:
  "fst (parse_number c t) = fst (parse_number c' t) \<and> (ec_failed c = ec_failed c' \<longrightarrow> ec_failed (snd (parse_number c t)) = ec_failed (snd (parse_number c' t)))"
  by (simp add: parse_number_def Let_def eval_error_failed split: prod.splits)

lemma parse_charconst_indep:
  "fst (parse_charconst c t) = fst (parse_charconst c' t) \<and> (ec_failed c = ec_failed c' \<longrightarrow> ec_failed (snd (parse_charconst c t)) = ec_failed (snd (parse_charconst c' t)))"
  by (simp add: parse_charconst_def Let_def eval_error_failed split: prod.splits sum.splits)

lemma eval_leaf_indep:
  assumes "\<not> ec_failed c"
  shows "fst (eval_leaf c t) = leaf_val t" "ec_failed (snd (eval_leaf c t)) \<longleftrightarrow> \<not> leaf_ok t"
  using parse_number_indep [of c t leaf_ctx] parse_charconst_indep [of c t leaf_ctx] assms
  by (simp_all add: leaf_val_def leaf_ok_def eval_leaf_def eval_error_failed leaf_ctx_def split: pp_tok_kind.splits)

section \<open>What the evaluator accepts is derivable\<close>

definition consumed :: "eval_ctx \<Rightarrow> eval_ctx \<Rightarrow> pp_token list \<Rightarrow> bool" where
  "consumed c c' ts \<longleftrightarrow> ec_toks c' = ec_toks c \<and> drop (ec_pos c) (ec_toks c) = ts @ drop (ec_pos c') (ec_toks c)"

lemma consumed_trans: "consumed c c' ts \<Longrightarrow> consumed c' c'' us \<Longrightarrow> consumed c c'' (ts @ us)"
  by (simp add: consumed_def)

lemma consumed_refl: "consumed c c []"
  by (simp add: consumed_def)

lemma consumed_accept:
  assumes "accept_punct c p = Some c'"
  obtains t where "is_punct p t" "consumed c c' [t]" "ec_failed c' = ec_failed c"
  using accept_punct_SomeD [OF assms] by (auto simp: is_punct_def consumed_def Cons_nth_drop_Suc intro: that [of "ec_toks c ! ec_pos c"])

lemma consumed_accept_level:
  assumes "accept_level lv c = Some (op, c')"
  obtains t where "is_punct op t" "op \<in> set (level_ops lv)" "consumed c c' [t]" "ec_failed c' = ec_failed c"
  using accept_level_SomeD [OF assms] by (auto simp: is_punct_def consumed_def Cons_nth_drop_Suc intro: that [of "ec_toks c ! ec_pos c"])

definition parsed :: "category \<Rightarrow> eval_ctx \<Rightarrow> eval_ctx \<Rightarrow> bool" where
  "parsed cat c c' \<longleftrightarrow> (\<exists>e ts. derives cat e ts \<and> leaves_ok e \<and> consumed c c' ts)"

text \<open>The loop extends an expression that has been read before it.\<close>

definition extended :: "level \<Rightarrow> eval_ctx \<Rightarrow> eval_ctx \<Rightarrow> bool" where
  "extended lv c c' \<longleftrightarrow> (\<forall>e ts. derives (C_level lv) e ts \<and> leaves_ok e \<longrightarrow> (\<exists>e' us. derives (C_level lv) e' (ts @ us) \<and> leaves_ok e' \<and> consumed c c' us))"

definition sound_at :: "nat \<Rightarrow> bool" where
  "sound_at n \<longleftrightarrow>
     (\<forall>live c v c'. eval_cond n live c = Some (v, c') \<longrightarrow> \<not> ec_failed c' \<longrightarrow> parsed C_cond c c') \<and>
     (\<forall>lv live c v c'. eval_level n lv live c = Some (v, c') \<longrightarrow> \<not> ec_failed c' \<longrightarrow> parsed (C_level lv) c c') \<and>
     (\<forall>lv live l c v c'. eval_loop n lv live l c = Some (v, c') \<longrightarrow> \<not> ec_failed c' \<longrightarrow> extended lv c c') \<and>
     (\<forall>live c v c'. eval_unary n live c = Some (v, c') \<longrightarrow> \<not> ec_failed c' \<longrightarrow> parsed C_unary c c') \<and>
     (\<forall>live c v c'. eval_primary n live c = Some (v, c') \<longrightarrow> \<not> ec_failed c' \<longrightarrow> parsed C_primary c c')"

lemma sound_atD:
  assumes "sound_at n"
  shows "eval_cond n live c = Some (v, c') \<Longrightarrow> \<not> ec_failed c' \<Longrightarrow> parsed C_cond c c'"
    "eval_level n lv live c = Some (v, c') \<Longrightarrow> \<not> ec_failed c' \<Longrightarrow> parsed (C_level lv) c c'"
    "eval_loop n lv live l c = Some (v, c') \<Longrightarrow> \<not> ec_failed c' \<Longrightarrow> extended lv c c'"
    "eval_unary n live c = Some (v, c') \<Longrightarrow> \<not> ec_failed c' \<Longrightarrow> parsed C_unary c c'"
    "eval_primary n live c = Some (v, c') \<Longrightarrow> \<not> ec_failed c' \<Longrightarrow> parsed C_primary c c'"
  using assms by (auto simp: sound_at_def)

lemma sound_operand: "sound_at n \<Longrightarrow> eval_operand n lv live c = Some (v, c') \<Longrightarrow> \<not> ec_failed c' \<Longrightarrow> parsed (operand_cat lv) c c'"
  by (auto simp: eval_operand_def split: option.splits dest: sound_atD)

lemma not_failed_before: "ctx_ext c c' \<Longrightarrow> \<not> ec_failed c' \<Longrightarrow> \<not> ec_failed c"
  by (auto simp: ctx_ext_def)

lemma parsedI: "derives cat e ts \<Longrightarrow> leaves_ok e \<Longrightarrow> consumed c c' ts \<Longrightarrow> parsed cat c c'"
  unfolding parsed_def by blast

lemma parsedE:
  assumes "parsed cat c c'"
  obtains e ts where "derives cat e ts" "leaves_ok e" "consumed c c' ts"
  using assms unfolding parsed_def by blast

lemma sound_cond:
  assumes n: "sound_at n" and e: "eval_cond (Suc n) live c = Some (v, c')" and ok: "\<not> ec_failed c'"
  shows "parsed C_cond c c'"
proof -
  obtain cond c1 where 1: "eval_level n LV_OR live c = Some (cond, c1)" using e by (auto simp: eval_step split: option.splits)
  show ?thesis
  proof (cases "accept_punct c1 PUNCT_QUESTION")
    case None
    then have "parsed (C_level LV_OR) c c'" using e 1 ok sound_atD(2) [OF n 1] by (simp add: eval_step)
    then show ?thesis by (elim parsedE) (rule parsedI [OF d_or])
  next
    case (Some c2)
    obtain a c3 where 3: "eval_cond n (live \<and> pv_v cond \<noteq> 0) c2 = Some (a, c3)" using e 1 Some by (auto simp: eval_step split: option.splits)
    show ?thesis
    proof (cases "accept_punct c3 PUNCT_COLON")
      case None
      then show ?thesis using e 1 Some 3 ok by (auto simp: eval_step eval_error_failed)
    next
      case colon: (Some c4)
      obtain b where 5: "eval_cond n (live \<and> pv_v cond = 0) c4 = Some (b, c')" using e 1 Some 3 colon by (auto simp: eval_step split: option.splits)
      obtain q where q: "is_punct PUNCT_QUESTION q" "consumed c1 c2 [q]" "ec_failed c2 = ec_failed c1" using consumed_accept [OF Some] by blast
      obtain k where k: "is_punct PUNCT_COLON k" "consumed c3 c4 [k]" "ec_failed c4 = ec_failed c3" using consumed_accept [OF colon] by blast
      have f: "\<not> ec_failed c3" "\<not> ec_failed c1" using not_failed_before eval_ext(1) [OF 5] eval_ext(1) [OF 3] ok q(3) k(3) by blast+
      obtain x ts where x: "derives (C_level LV_OR) x ts" "leaves_ok x" "consumed c c1 ts" using parsedE [OF sound_atD(2) [OF n 1 f(2)]] by blast
      obtain y us where y: "derives C_cond y us" "leaves_ok y" "consumed c2 c3 us" using parsedE [OF sound_atD(1) [OF n 3 f(1)]] by blast
      obtain z vs where z: "derives C_cond z vs" "leaves_ok z" "consumed c4 c' vs" using parsedE [OF sound_atD(1) [OF n 5 ok]] by blast
      have "consumed c c' (ts @ [q] @ us @ [k] @ vs)" using x(3) q(2) y(3) k(2) z(3) by (simp add: consumed_def)
      then show ?thesis using parsedI [OF d_cond [OF x(1) q(1) y(1) k(1) z(1)]] x(2) y(2) z(2) by simp
    qed
  qed
qed

lemma sound_level:
  assumes n: "sound_at n" and e: "eval_level (Suc n) lv live c = Some (v, c')" and ok: "\<not> ec_failed c'"
  shows "parsed (C_level lv) c c'"
proof -
  obtain l c1 where 1: "eval_operand n lv live c = Some (l, c1)" "eval_loop n lv live l c1 = Some (v, c')"
    using e by (auto simp: eval_step split: option.splits)
  have "\<not> ec_failed c1" using not_failed_before [OF eval_ext(3) [OF 1(2)] ok] .
  then obtain x ts where x: "derives (operand_cat lv) x ts" "leaves_ok x" "consumed c c1 ts" using parsedE [OF sound_operand [OF n 1(1)]] by blast
  obtain y us where "derives (C_level lv) y (ts @ us)" "leaves_ok y" "consumed c1 c' us"
    using sound_atD(3) [OF n 1(2) ok] d_operand [OF x(1)] x(2) unfolding extended_def by blast
  then show ?thesis using parsedI consumed_trans [OF x(3)] by blast
qed

lemma sound_loop:
  assumes n: "sound_at n" and e: "eval_loop (Suc n) lv live l c = Some (v, c')" and ok: "\<not> ec_failed c'"
  shows "extended lv c c'"
proof (cases "accept_level lv c")
  case None
  then have "c' = c" using e by (simp add: eval_step)
  then show ?thesis unfolding extended_def using consumed_refl by (metis append_Nil2)
next
  case (Some oc)
  obtain op c1 where oc: "oc = (op, c1)" by fastforce
  obtain t where t: "is_punct op t" "op \<in> set (level_ops lv)" "consumed c c1 [t]" using consumed_accept_level Some oc by blast
  obtain r c2 where r: "eval_operand n lv (right_live lv live l) c1 = Some (r, c2)" using e Some oc by (auto simp: eval_step split: option.splits)
  obtain l' c3 where a: "apply_level lv op live l r c2 = (l', c3)" by fastforce
  have loop: "eval_loop n lv live l' c3 = Some (v, c')" using e Some oc r a ok by (auto simp: eval_step split: if_splits)
  have f: "\<not> ec_failed c3" "\<not> ec_failed c2" using not_failed_before [OF eval_ext(3) [OF loop] ok] not_failed_before [of c2 c3] apply_level_ext [OF a] by blast+
  obtain y us where y: "derives (operand_cat lv) y us" "leaves_ok y" "consumed c1 c2 us" using parsedE [OF sound_operand [OF n r f(2)]] by blast
  have c3: "consumed c2 c3 []" using apply_level_ext [OF a] by (simp add: consumed_def ctx_ext_def)
  have cons: "consumed c c3 (t # us)" using t(3) y(3) c3 by (simp add: consumed_def)
  show ?thesis unfolding extended_def
  proof (intro allI impI)
    fix x ts
    assume "derives (C_level lv) x ts \<and> leaves_ok x"
    then have "derives (C_level lv) (E_Bin lv op x y) (ts @ t # us) \<and> leaves_ok (E_Bin lv op x y)" using d_binary [OF _ t(1,2) y(1)] y(2) by simp
    then obtain z vs where z: "derives (C_level lv) z ((ts @ t # us) @ vs)" "leaves_ok z" "consumed c3 c' vs"
      using sound_atD(3) [OF n loop ok] unfolding extended_def by blast
    have "consumed c c' ((t # us) @ vs)" by (rule consumed_trans [OF cons z(3)])
    then show "\<exists>z vs. derives (C_level lv) z (ts @ vs) \<and> leaves_ok z \<and> consumed c c' vs" using z(1,2) by (metis append.assoc)
  qed
qed

lemma sound_unary:
  assumes n: "sound_at n" and e: "eval_unary (Suc n) live c = Some (v, c')" and ok: "\<not> ec_failed c'"
  shows "parsed C_unary c c'"
proof -
  have un: "parsed C_unary c c'" if op: "op \<in> {PUNCT_BANG, PUNCT_TILDE, PUNCT_PLUS, PUNCT_MINUS}"
    and acc: "accept_punct c op = Some c1" "eval_unary n live c1 = Some (x, c')" for op c1 x
  proof -
    obtain t where t: "is_punct op t" "consumed c c1 [t]" using consumed_accept [OF acc(1)] by blast
    obtain y us where y: "derives C_unary y us" "leaves_ok y" "consumed c1 c' us" using parsedE [OF sound_atD(4) [OF n acc(2) ok]] by blast
    show ?thesis using parsedI [OF d_unary [OF t(1) op y(1)]] y(2) consumed_trans [OF t(2) y(3)] by simp
  qed
  have pr: "parsed C_unary c c'" if "eval_primary n live c = Some (v, c')"
    by (rule parsedE [OF sound_atD(5) [OF n that ok]]) (rule parsedI [OF d_primary])
  show ?thesis using e ok un [of PUNCT_BANG] un [of PUNCT_TILDE] un [of PUNCT_PLUS] un [of PUNCT_MINUS] pr
    by (auto simp: eval_step eval_error_failed split: option.splits)
qed

lemma sound_primary:
  assumes n: "sound_at n" and e: "eval_primary (Suc n) live c = Some (v, c')" and ok: "\<not> ec_failed c'"
  shows "parsed C_primary c c'"
proof -
  have c: "\<not> ec_failed c" using not_failed_before [OF eval_ext(5) [OF e] ok] .
  obtain t where t: "peek_tok c = Some t" using e c ok eval_error_failed by (auto simp: eval_step split: option.splits)
  show ?thesis
  proof (cases "accept_punct c PUNCT_LPAREN")
    case None
    then have leaf: "eval_leaf (c\<lparr>ec_pos := ec_pos c + 1\<rparr>) t = (v, c')" using e c t by (simp add: eval_step)
    have "leaf_ok t" using eval_leaf_indep(2) [of "c\<lparr>ec_pos := ec_pos c + 1\<rparr>" t] leaf c ok by simp
    moreover have "pp_kind t \<in> {PPTOK_PPNUM, PPTOK_CHARCONST, PPTOK_IDENT}"
      using leaf ok eval_error_failed by (cases "pp_kind t") (auto simp: eval_leaf_def)
    moreover have "consumed c c' [t]" using t eval_leaf_ext [OF leaf]
      by (auto simp: peek_tok_def consumed_def ctx_ext_def Cons_nth_drop_Suc split: if_splits)
    ultimately show ?thesis using parsedI [OF d_leaf] by simp
  next
    case (Some c1)
    obtain x c2 where x: "eval_cond n live c1 = Some (x, c2)" using e c t Some by (auto simp: eval_step split: option.splits)
    obtain c3 where c3: "accept_punct c2 PUNCT_RPAREN = Some c3" "c' = c3"
      using e c t Some x ok eval_error_failed by (auto simp: eval_step split: option.splits)
    obtain p where p: "is_punct PUNCT_LPAREN p" "consumed c c1 [p]" using consumed_accept [OF Some] by blast
    obtain q where q: "is_punct PUNCT_RPAREN q" "consumed c2 c3 [q]" "ec_failed c3 = ec_failed c2" using consumed_accept [OF c3(1)] by blast
    have f: "\<not> ec_failed c2" using q(3) c3(2) ok by simp
    obtain y us where y: "derives C_cond y us" "leaves_ok y" "consumed c1 c2 us" using parsedE [OF sound_atD(1) [OF n x f]] by blast
    have "consumed c c' (p # us @ [q])" using p(2) y(3) q(2) c3(2) by (simp add: consumed_def)
    then show ?thesis using parsedI [OF d_paren [OF p(1) y(1) q(1)]] y(2) by simp
  qed
qed

lemma sound_at_all: "sound_at n"
proof (induction n)
  case (Suc n)
  then show ?case unfolding sound_at_def [of "Suc n"] by (intro conjI allI impI) (rule sound_cond sound_level sound_loop sound_unary sound_primary; assumption)+
qed (simp add: sound_at_def)

section \<open>What is derivable is accepted, with the value of the tree\<close>

text \<open>The operators do not read the context, except for reporting a division by zero.\<close>

definition apply_val :: "level \<Rightarrow> nat \<Rightarrow> pp_val \<Rightarrow> pp_val \<Rightarrow> pp_val" where
  "apply_val lv op l r = fst (apply_level lv op False l r leaf_ctx)"

definition zero_division :: "level \<Rightarrow> nat \<Rightarrow> bool \<Rightarrow> pp_val \<Rightarrow> bool" where
  "zero_division lv op live r \<longleftrightarrow> lv = LV_MUL \<and> (op = PUNCT_SLASH \<or> op = PUNCT_PERCENT) \<and> pv_v r = 0 \<and> live"

lemma apply_level_val:
  "fst (apply_level lv op live l r c) = apply_val lv op l r"
  "\<not> zero_division lv op live r \<Longrightarrow> snd (apply_level lv op live l r c) = c"
  "zero_division lv op live r \<Longrightarrow> ec_failed (snd (apply_level lv op live l r c))"
  by (cases lv; auto simp: apply_val_def apply_mul_def zero_division_def eval_error_failed Let_def)+

definition un_val :: "nat \<Rightarrow> pp_val \<Rightarrow> pp_val" where
  "un_val op v = (if op = PUNCT_BANG then make_val (if pv_v v = 0 then 1 else 0) False
     else if op = PUNCT_TILDE then make_val (NOT (pv_v v)) (pv_unsigned v)
     else if op = PUNCT_MINUS then make_val (0 - pv_v v) (pv_unsigned v) else v)"

text \<open>The value of a tree on a path that is taken or not; None is a division by zero on a taken path.\<close>

fun tree_val :: "bool \<Rightarrow> pexpr \<Rightarrow> pp_val option" where
  "tree_val live (E_Leaf t) = Some (leaf_val t)"
| "tree_val live (E_Paren e) = tree_val live e"
| "tree_val live (E_Un op e) = map_option (un_val op) (tree_val live e)"
| "tree_val live (E_Bin lv op a b) =
     (case tree_val live a of None \<Rightarrow> None | Some l \<Rightarrow>
       (case tree_val (right_live lv live l) b of None \<Rightarrow> None | Some r \<Rightarrow>
          if zero_division lv op live r then None else Some (apply_val lv op l r)))"
| "tree_val live (E_Cond e a b) =
     (case tree_val live e of None \<Rightarrow> None | Some x \<Rightarrow>
       (case tree_val (live \<and> pv_v x \<noteq> 0) a of None \<Rightarrow> None | Some y \<Rightarrow>
         (case tree_val (live \<and> pv_v x = 0) b of None \<Rightarrow> None | Some z \<Rightarrow>
            Some (make_val (if pv_v x \<noteq> 0 then pv_v y else pv_v z) (pv_unsigned y \<or> pv_unsigned z)))))"

text \<open>An expression ends where no operator of a tighter level follows.\<close>

definition tighter_ops :: "level \<Rightarrow> nat list" where
  "tighter_ops lv = concat (map level_ops (filter (\<lambda>k. level_depth k < level_depth lv)
     [LV_AND, LV_BITOR, LV_BITXOR, LV_BITAND, LV_EQ, LV_REL, LV_SHIFT, LV_ADD, LV_MUL]))"

lemma tighter_ops_step: "tighter lv = Some lv' \<Longrightarrow> tighter_ops lv = level_ops lv' @ tighter_ops lv'"
  by (cases lv) (auto simp: tighter_ops_def)

lemma level_op_not_tighter: "op \<in> set (level_ops lv) \<Longrightarrow> op \<notin> set (tighter_ops lv)"
  by (cases lv) (auto simp: tighter_ops_def)

definition stops :: "nat list \<Rightarrow> pp_token list \<Rightarrow> bool" where
  "stops ops rest \<longleftrightarrow> rest = [] \<or> \<not> (pp_kind (hd rest) = PPTOK_PUNCT \<and> pp_punct (hd rest) \<in> set ops)"

fun stop_ops :: "category \<Rightarrow> nat list" where
  "stop_ops (C_level lv) = tighter_ops lv"
| "stop_ops C_cond = PUNCT_QUESTION # level_ops LV_OR @ tighter_ops LV_OR"
| "stop_ops _ = []"

lemma stops_append: "stops (xs @ ys) rest \<Longrightarrow> stops xs rest \<and> stops ys rest"
  by (auto simp: stops_def)

lemma stops_punct: "is_punct op t \<Longrightarrow> op \<notin> set ops \<Longrightarrow> stops ops (t # rest)"
  by (auto simp: stops_def is_punct_def)

lemma accept_level_stops: "drop (ec_pos c) (ec_toks c) = rest \<Longrightarrow> stops (level_ops lv) rest \<Longrightarrow> accept_level lv c = None"
  by (auto simp: accept_level_def peek_tok_def stops_def hd_drop_conv_nth)

lemma accept_punct_stops: "drop (ec_pos c) (ec_toks c) = rest \<Longrightarrow> stops (p # ps) rest \<Longrightarrow> accept_punct c p = None"
  by (auto simp: accept_punct_def peek_tok_def stops_def hd_drop_conv_nth)

lemma peek_at: "drop (ec_pos c) (ec_toks c) = t # rest \<Longrightarrow> peek_tok c = Some t"
  by (metis drop_eq_Nil2 hd_drop_conv_nth leI list.sel(1) list.simps(3) peek_tok_def)

lemma drop_next: "drop k xs = t # rest \<Longrightarrow> drop (Suc k) xs = rest"
  by (metis drop_Suc list.sel(3) tl_drop)

lemma accept_at:
  assumes "drop (ec_pos c) (ec_toks c) = t # rest" "is_punct p t"
  shows "accept_punct c p = Some (c\<lparr>ec_pos := ec_pos c + 1\<rparr>)" "q \<noteq> p \<Longrightarrow> accept_punct c q = None"
    "p \<in> set (level_ops lv) \<Longrightarrow> accept_level lv c = Some (p, c\<lparr>ec_pos := ec_pos c + 1\<rparr>)"
    "drop (ec_pos c + 1) (ec_toks c) = rest"
  using peek_at [OF assms(1)] assms by (auto simp: accept_punct_def accept_level_def is_punct_def drop_next)

text \<open>What one function returns on the tokens of an expression.\<close>

definition outcome_ok :: "bool \<Rightarrow> pexpr \<Rightarrow> pp_token list \<Rightarrow> eval_ctx \<Rightarrow> pp_val \<times> eval_ctx \<Rightarrow> bool" where
  "outcome_ok live e ts c r =
     (case tree_val live e of
        Some x \<Rightarrow> fst r = x \<and> \<not> ec_failed (snd r) \<and> consumed c (snd r) ts
      | None \<Rightarrow> ec_failed (snd r))"

definition starts :: "eval_ctx \<Rightarrow> pp_token list \<Rightarrow> pp_token list \<Rightarrow> bool" where
  "starts c ts rest \<longleftrightarrow> drop (ec_pos c) (ec_toks c) = ts @ rest \<and> \<not> ec_failed c"

fun complete :: "category \<Rightarrow> pexpr \<Rightarrow> pp_token list \<Rightarrow> bool" where
  "complete C_primary e ts \<longleftrightarrow> (\<forall>n live c rest r. starts c ts rest \<longrightarrow> eval_primary n live c = Some r \<longrightarrow> outcome_ok live e ts c r)"
| "complete C_unary e ts \<longleftrightarrow> (\<forall>n live c rest r. starts c ts rest \<longrightarrow> eval_unary n live c = Some r \<longrightarrow> outcome_ok live e ts c r)"
| "complete C_cond e ts \<longleftrightarrow>
     (\<forall>n live c rest r. starts c ts rest \<longrightarrow> stops (stop_ops C_cond) rest \<longrightarrow> eval_cond n live c = Some r \<longrightarrow> outcome_ok live e ts c r)"
| "complete (C_level lv) e ts \<longleftrightarrow>
     (\<forall>n live c rest r. starts c ts rest \<longrightarrow> stops (tighter_ops lv) rest \<longrightarrow> eval_level n lv live c = Some r \<longrightarrow>
        (case tree_val live e of
           Some x \<Rightarrow> \<exists>m c1. consumed c c1 ts \<and> \<not> ec_failed c1 \<and> eval_loop m lv live x c1 = Some r
         | None \<Rightarrow> ec_failed (snd r)))"

lemmas completeD = complete.simps [THEN iffD1, rule_format]

declare complete.simps [simp del]

lemma starts_after: "starts c (ts @ us) rest \<Longrightarrow> consumed c c1 ts \<Longrightarrow> \<not> ec_failed c1 \<Longrightarrow> starts c1 us rest"
  by (simp add: starts_def consumed_def)

lemma loop_stops:
  assumes "eval_loop m lv live x c1 = Some r" "starts c1 [] rest" "stops (level_ops lv) rest"
  shows "r = (x, c1)"
proof (cases m)
  case (Suc k)
  then show ?thesis using assms accept_level_stops [of c1 rest lv] by (simp add: eval_step starts_def)
qed (use assms in simp)

lemma complete_operand:
  assumes "complete (operand_cat lv) e ts" "starts c ts rest" "stops (tighter_ops lv) rest" "eval_operand n lv live c = Some r"
  shows "outcome_ok live e ts c r"
proof (cases "tighter lv")
  case None
  have "complete C_unary e ts" using assms(1) by (simp add: None)
  moreover have "eval_unary n live c = Some r" using assms(4) by (simp add: eval_operand_def None)
  ultimately show ?thesis by (rule completeD(2) [OF _ assms(2)])
next
  case (Some lv')
  have st: "stops (level_ops lv') rest" "stops (tighter_ops lv') rest" using stops_append [of "level_ops lv'" "tighter_ops lv'" rest] assms(3) by (simp_all add: tighter_ops_step [OF Some])
  have e: "eval_level n lv' live c = Some r" using assms(4) Some by (simp add: eval_operand_def)
  have cp: "case tree_val live e of Some x \<Rightarrow> \<exists>m c1. consumed c c1 ts \<and> \<not> ec_failed c1 \<and> eval_loop m lv' live x c1 = Some r | None \<Rightarrow> ec_failed (snd r)"
    by (rule completeD(4) [OF _ assms(2) st(2) e]) (use assms(1) in \<open>simp add: Some\<close>)
  show ?thesis
  proof (cases "tree_val live e")
    case None
    then show ?thesis using cp by (simp add: outcome_ok_def)
  next
    case x: (Some x)
    then obtain m c1 where c1: "consumed c c1 ts" "\<not> ec_failed c1" "eval_loop m lv' live x c1 = Some r" using cp by auto
    have "r = (x, c1)" using loop_stops [OF c1(3) _ st(1)] starts_after [of c ts "[]" rest c1] assms(2) c1 by simp
    then show ?thesis using c1 x by (simp add: outcome_ok_def)
  qed
qed

lemma outcome_cases:
  assumes "outcome_ok live e ts c (v, c')"
  obtains "tree_val live e = Some v" "\<not> ec_failed c'" "consumed c c' ts" | "tree_val live e = None" "ec_failed c'"
  using assms by (auto simp: outcome_ok_def split: option.splits)

lemma complete_leaf: "pp_kind t \<in> {PPTOK_PPNUM, PPTOK_CHARCONST, PPTOK_IDENT} \<Longrightarrow> leaf_ok t \<Longrightarrow> complete C_primary (E_Leaf t) [t]"
proof (simp only: complete.simps, intro allI impI)
  fix n live c rest r
  assume k: "pp_kind t \<in> {PPTOK_PPNUM, PPTOK_CHARCONST, PPTOK_IDENT}" "leaf_ok t" and s: "starts c [t] rest" and e: "eval_primary n live c = Some r"
  obtain m where n: "n = Suc m" using e by (cases n) auto
  have d: "drop (ec_pos c) (ec_toks c) = t # rest" "\<not> ec_failed c" using s by (simp_all add: starts_def)
  have "accept_punct c PUNCT_LPAREN = None" using peek_at [OF d(1)] k(1) by (auto simp: accept_punct_def)
  then have r: "eval_leaf (c\<lparr>ec_pos := ec_pos c + 1\<rparr>) t = r" using e n d peek_at [OF d(1)] by (simp add: eval_step)
  have "fst r = leaf_val t" "\<not> ec_failed (snd r)" using eval_leaf_indep [of "c\<lparr>ec_pos := ec_pos c + 1\<rparr>" t] d(2) k(2) r by auto
  moreover have "consumed c (snd r) [t]" using eval_leaf_ext [of "c\<lparr>ec_pos := ec_pos c + 1\<rparr>" t "fst r" "snd r"] r d(1) drop_next [OF d(1)]
    by (simp add: consumed_def ctx_ext_def)
  ultimately show "outcome_ok live (E_Leaf t) [t] c r" by (simp add: outcome_ok_def)
qed

lemma complete_paren:
  assumes "is_punct PUNCT_LPAREN t" "complete C_cond e ts" "is_punct PUNCT_RPAREN u"
  shows "complete C_primary (E_Paren e) (t # ts @ [u])"
proof (simp only: complete.simps, intro allI impI)
  fix n live c rest r
  assume s: "starts c (t # ts @ [u]) rest" and ev: "eval_primary n live c = Some r"
  obtain m where n: "n = Suc m" using ev by (cases n) auto
  have d: "drop (ec_pos c) (ec_toks c) = t # (ts @ u # rest)" "\<not> ec_failed c" using s by (simp_all add: starts_def)
  define c1 where "c1 = c\<lparr>ec_pos := ec_pos c + 1\<rparr>"
  have c1: "accept_punct c PUNCT_LPAREN = Some c1" "starts c1 ts (u # rest)" "consumed c c1 [t]"
    using accept_at(1) [OF d(1) assms(1)] drop_next [OF d(1)] d by (simp_all add: c1_def starts_def consumed_def)
  obtain x c2 where x: "eval_cond m live c1 = Some (x, c2)" using ev n d(2) peek_at [OF d(1)] c1(1) by (auto simp: eval_step split: option.splits)
  have "stops (stop_ops C_cond) (u # rest)" using stops_punct [OF assms(3)] by (simp add: tighter_ops_def)
  then have "outcome_ok live e ts c1 (x, c2)" by (rule completeD(3) [OF assms(2) c1(2) _ x])
  then show "outcome_ok live (E_Paren e) (t # ts @ [u]) c r"
  proof (cases rule: outcome_cases)
    case 1
    have d2: "drop (ec_pos c2) (ec_toks c2) = u # rest" using 1(3) c1(2) by (simp add: consumed_def starts_def)
    have "r = (x, c2\<lparr>ec_pos := ec_pos c2 + 1\<rparr>)" using ev n d(2) peek_at [OF d(1)] c1(1) x accept_at(1) [OF d2 assms(3)] by (simp add: eval_step)
    then show ?thesis using 1 c1(3) d2 drop_next [OF d2] by (simp add: outcome_ok_def consumed_def)
  next
    case 2
    have "ec_failed (snd r)" using ev n d(2) peek_at [OF d(1)] c1(1) x 2(2)
      by (auto simp: eval_step eval_error_failed split: option.splits dest!: accept_punct_SomeD)
    then show ?thesis using 2(1) by (simp add: outcome_ok_def)
  qed
qed

lemma complete_primary: "complete C_primary e ts \<Longrightarrow> ts \<noteq> [] \<Longrightarrow>
    \<not> (\<exists>op\<in>{PUNCT_BANG, PUNCT_TILDE, PUNCT_PLUS, PUNCT_MINUS, PUNCT_PLUSPLUS, PUNCT_MINUSMINUS}. is_punct op (hd ts)) \<Longrightarrow> complete C_unary e ts"
proof (simp only: complete.simps(2), intro allI impI)
  fix n live c rest r
  assume p: "complete C_primary e ts"
    and h: "ts \<noteq> []" "\<not> (\<exists>op\<in>{PUNCT_BANG, PUNCT_TILDE, PUNCT_PLUS, PUNCT_MINUS, PUNCT_PLUSPLUS, PUNCT_MINUSMINUS}. is_punct op (hd ts))"
    and s: "starts c ts rest" and ev: "eval_unary n live c = Some r"
  obtain m where n: "n = Suc m" using ev by (cases n) auto
  obtain t ts' where ts: "ts = t # ts'" using h(1) by (cases ts) auto
  have pk: "peek_tok c = Some t" using peek_at [of c t] s ts by (auto simp: starts_def)
  have none: "accept_punct c op = None" if "op \<in> {PUNCT_BANG, PUNCT_TILDE, PUNCT_PLUS, PUNCT_MINUS, PUNCT_PLUSPLUS, PUNCT_MINUSMINUS}" for op
    using h(2) ts pk that by (auto simp: accept_punct_def is_punct_def)
  have "eval_primary m live c = Some r" using ev n none by (simp add: eval_step)
  then show "outcome_ok live e ts c r" by (rule completeD(1) [OF p s])
qed

lemma complete_unary:
  assumes "is_punct op t" "op \<in> {PUNCT_BANG, PUNCT_TILDE, PUNCT_PLUS, PUNCT_MINUS}" "complete C_unary e ts"
  shows "complete C_unary (E_Un op e) (t # ts)"
proof (simp only: complete.simps, intro allI impI)
  fix n live c rest r
  assume s: "starts c (t # ts) rest" and ev: "eval_unary n live c = Some r"
  obtain m where n: "n = Suc m" using ev by (cases n) auto
  have d: "drop (ec_pos c) (ec_toks c) = t # (ts @ rest)" "\<not> ec_failed c" using s by (simp_all add: starts_def)
  define c1 where "c1 = c\<lparr>ec_pos := ec_pos c + 1\<rparr>"
  have c1: "accept_punct c op = Some c1" "starts c1 ts rest" "consumed c c1 [t]"
    using accept_at(1) [OF d(1) assms(1)] drop_next [OF d(1)] d by (simp_all add: c1_def starts_def consumed_def)
  have none: "accept_punct c q = None" if "q \<noteq> op" for q using accept_at(2) [OF d(1) assms(1) that] .
  obtain x c2 where x: "eval_unary m live c1 = Some (x, c2)" "r = (un_val op x, c2)"
    using ev n assms(2) c1(1) none by (cases r) (auto simp: eval_step un_val_def split: option.splits)
  have "outcome_ok live e ts c1 (x, c2)" by (rule completeD(2) [OF assms(3) c1(2) x(1)])
  then show "outcome_ok live (E_Un op e) (t # ts) c r" using x(2) c1(3) by (auto simp: outcome_ok_def consumed_def split: option.splits)
qed

lemma failed_stays: "eval_loop n lv live l c = Some r \<Longrightarrow> ec_failed c \<Longrightarrow> ec_failed (snd r)"
  using eval_ext(3) [of n lv live l c "fst r" "snd r"] by (auto simp: ctx_ext_def)

lemma complete_level:
  assumes "complete (operand_cat lv) e ts"
  shows "complete (C_level lv) e ts"
proof (simp only: complete.simps, intro allI impI)
  fix n live c rest r
  assume s: "starts c ts rest" "stops (tighter_ops lv) rest" and ev: "eval_level n lv live c = Some r"
  obtain m where n: "n = Suc m" using ev by (cases n) auto
  obtain x c1 where x: "eval_operand m lv live c = Some (x, c1)" "eval_loop m lv live x c1 = Some r" using ev n by (auto simp: eval_step split: option.splits)
  from complete_operand [OF assms s x(1)]
  show "case tree_val live e of Some x \<Rightarrow> \<exists>m c1. consumed c c1 ts \<and> \<not> ec_failed c1 \<and> eval_loop m lv live x c1 = Some r | None \<Rightarrow> ec_failed (snd r)"
    by (cases rule: outcome_cases) (use x failed_stays in auto)
qed

lemma complete_binary:
  assumes a: "complete (C_level lv) a ts" and t: "is_punct op t" "op \<in> set (level_ops lv)" and b: "complete (operand_cat lv) b us"
  shows "complete (C_level lv) (E_Bin lv op a b) (ts @ t # us)"
proof (simp only: complete.simps, intro allI impI)
  fix n live c rest r
  assume s: "starts c (ts @ t # us) rest" "stops (tighter_ops lv) rest" and ev: "eval_level n lv live c = Some r"
  have sa: "starts c ts (t # us @ rest)" "stops (tighter_ops lv) (t # us @ rest)"
    using s(1) stops_punct [OF t(1) level_op_not_tighter [OF t(2)]] by (simp_all add: starts_def)
  have ca: "case tree_val live a of Some x \<Rightarrow> \<exists>m c1. consumed c c1 ts \<and> \<not> ec_failed c1 \<and> eval_loop m lv live x c1 = Some r | None \<Rightarrow> ec_failed (snd r)"
    by (rule completeD(4) [OF a sa ev])
  show "case tree_val live (E_Bin lv op a b) of Some x \<Rightarrow> \<exists>m c1. consumed c c1 (ts @ t # us) \<and> \<not> ec_failed c1 \<and> eval_loop m lv live x c1 = Some r | None \<Rightarrow> ec_failed (snd r)"
  proof (cases "tree_val live a")
    case None
    then show ?thesis using ca by simp
  next
    case (Some l)
    then obtain m c1 where c1: "consumed c c1 ts" "\<not> ec_failed c1" "eval_loop m lv live l c1 = Some r" using ca by auto
    obtain k where m: "m = Suc k" using c1(3) by (cases m) auto
    have d: "drop (ec_pos c1) (ec_toks c1) = t # (us @ rest)" using starts_after [of c ts "t # us" rest c1] s(1) c1 by (simp add: starts_def)
    define c2 where "c2 = c1\<lparr>ec_pos := ec_pos c1 + 1\<rparr>"
    have c2: "accept_level lv c1 = Some (op, c2)" "starts c2 us rest" "consumed c1 c2 [t]"
      using accept_at(3) [OF d t] drop_next [OF d] d c1(2) by (simp_all add: c2_def starts_def consumed_def)
    obtain x c3 where x: "eval_operand k lv (right_live lv live l) c2 = Some (x, c3)" using c1(3) m c2(1) by (auto simp: eval_step split: option.splits)
    obtain l' c4 where ap: "apply_level lv op live l x c3 = (l', c4)" by fastforce
    have r: "if lv = LV_MUL \<and> ec_failed c3 then r = (make_val 0 False, c3) else eval_loop k lv live l' c4 = Some r"
      using c1(3) m c2(1) x ap by (auto simp: eval_step)
    from complete_operand [OF b c2(2) s(2) x] show ?thesis
    proof (cases rule: outcome_cases)
      case 1
      then have loop: "eval_loop k lv live l' c4 = Some r" using r by simp
      show ?thesis
      proof (cases "zero_division lv op live x")
        case True
        then have "ec_failed (snd r)" using failed_stays [OF loop] apply_level_val(3) [OF True, of l c3] ap by simp
        then show ?thesis using Some 1(1) True by simp
      next
        case False
        then have "c4 = c3" "l' = apply_val lv op l x" using apply_level_val(1) [of lv op live l x c3] apply_level_val(2) [OF False, of l c3] ap by auto
        moreover have "consumed c c3 (ts @ t # us)" using c1(1) c2(3) 1(3) by (simp add: consumed_def)
        ultimately show ?thesis using Some 1 False loop by auto
      qed
    next
      case 2
      have "ec_failed c4" using 2(2) apply_level_ext [OF ap] by (simp add: ctx_ext_def)
      then have "ec_failed (snd r)" using r failed_stays [of k lv live l' c4 r] 2(2) by (auto split: if_splits)
      then show ?thesis using Some 2(1) by simp
    qed
  qed
qed

lemma complete_or:
  assumes "complete (C_level LV_OR) e ts" "starts c ts rest" "stops (level_ops LV_OR @ tighter_ops LV_OR) rest" "eval_level n LV_OR live c = Some r"
  shows "outcome_ok live e ts c r"
proof -
  have st: "stops (level_ops LV_OR) rest" "stops (tighter_ops LV_OR) rest" using stops_append [OF assms(3)] by simp_all
  have ca: "case tree_val live e of Some x \<Rightarrow> \<exists>m c1. consumed c c1 ts \<and> \<not> ec_failed c1 \<and> eval_loop m LV_OR live x c1 = Some r | None \<Rightarrow> ec_failed (snd r)"
    by (rule completeD(4) [OF assms(1,2) st(2) assms(4)])
  show ?thesis
  proof (cases "tree_val live e")
    case (Some x)
    then obtain m c1 where c1: "consumed c c1 ts" "\<not> ec_failed c1" "eval_loop m LV_OR live x c1 = Some r" using ca by auto
    have "r = (x, c1)" using loop_stops [OF c1(3) _ st(1)] starts_after [of c ts "[]" rest c1] assms(2) c1 by simp
    then show ?thesis using c1 Some by (simp add: outcome_ok_def)
  qed (use ca in \<open>simp add: outcome_ok_def\<close>)
qed

lemma complete_cond_or: "complete (C_level LV_OR) e ts \<Longrightarrow> complete C_cond e ts"
proof (simp only: complete.simps(3), intro allI impI)
  fix n live c rest r
  assume p: "complete (C_level LV_OR) e ts" and s: "starts c ts rest" "stops (stop_ops C_cond) rest" and ev: "eval_cond n live c = Some r"
  obtain m where n: "n = Suc m" using ev by (cases n) auto
  obtain x c1 where x: "eval_level m LV_OR live c = Some (x, c1)" using ev n by (auto simp: eval_step split: option.splits)
  have st: "stops [PUNCT_QUESTION] rest" "stops (level_ops LV_OR @ tighter_ops LV_OR) rest"
    using stops_append [of "[PUNCT_QUESTION]" "level_ops LV_OR @ tighter_ops LV_OR" rest] s(2) by simp_all
  from complete_or [OF p s(1) st(2) x] show "outcome_ok live e ts c r"
  proof (cases rule: outcome_cases)
    case 1
    have "accept_punct c1 PUNCT_QUESTION = None" using accept_punct_stops [OF _ st(1)] 1(3) s(1) by (simp add: consumed_def starts_def)
    then have "r = (x, c1)" using ev n x by (simp add: eval_step)
    then show ?thesis using 1 by (simp add: outcome_ok_def)
  next
    case 2
    have "ctx_ext c1 (snd r)" using ev n x
      by (auto simp: eval_step split: option.splits dest!: accept_punct_ext eval_ext(1) intro: ctx_ext_trans) (meson ctx_ext_trans eval_error_ext)+
    then show ?thesis using 2 by (simp add: outcome_ok_def ctx_ext_def)
  qed
qed

lemma complete_cond:
  assumes e: "complete (C_level LV_OR) e ts" and t: "is_punct PUNCT_QUESTION t" and a: "complete C_cond a us"
    and u: "is_punct PUNCT_COLON u" and b: "complete C_cond b vs"
  shows "complete C_cond (E_Cond e a b) (ts @ t # us @ u # vs)"
proof (simp only: complete.simps, intro allI impI)
  fix n live c rest r
  assume s: "starts c (ts @ t # us @ u # vs) rest" "stops (stop_ops C_cond) rest" and ev: "eval_cond n live c = Some r"
  obtain m where n: "n = Suc m" using ev by (cases n) auto
  obtain x c1 where x: "eval_level m LV_OR live c = Some (x, c1)" using ev n by (auto simp: eval_step split: option.splits)
  have s1: "starts c ts (t # us @ u # vs @ rest)" using s(1) by (simp add: starts_def)
  have "stops (level_ops LV_OR @ tighter_ops LV_OR) (t # us @ u # vs @ rest)" using stops_punct [OF t] by (simp add: tighter_ops_def)
  from complete_or [OF e s1 this x] show "outcome_ok live (E_Cond e a b) (ts @ t # us @ u # vs) c r"
  proof (cases rule: outcome_cases)
    case 1
    define c2 where "c2 = c1\<lparr>ec_pos := ec_pos c1 + 1\<rparr>"
    have d: "drop (ec_pos c1) (ec_toks c1) = t # (us @ u # vs @ rest)" using 1(3) s1 by (simp add: consumed_def starts_def)
    have c2: "accept_punct c1 PUNCT_QUESTION = Some c2" "starts c2 us (u # vs @ rest)" "consumed c1 c2 [t]"
      using accept_at(1) [OF d t] drop_next [OF d] d 1(2) by (simp_all add: c2_def starts_def consumed_def)
    obtain y c3 where y: "eval_cond m (live \<and> pv_v x \<noteq> 0) c2 = Some (y, c3)" using ev n x c2(1) by (auto simp: eval_step split: option.splits)
    have "stops (stop_ops C_cond) (u # vs @ rest)" using stops_punct [OF u] by (simp add: tighter_ops_def)
    then have "outcome_ok (live \<and> pv_v x \<noteq> 0) a us c2 (y, c3)" by (rule completeD(3) [OF a c2(2) _ y])
    then show ?thesis
    proof (cases rule: outcome_cases)
      case y1: 1
      define c4 where "c4 = c3\<lparr>ec_pos := ec_pos c3 + 1\<rparr>"
      have d3: "drop (ec_pos c3) (ec_toks c3) = u # (vs @ rest)" using y1(3) c2(2) by (simp add: consumed_def starts_def)
      have c4: "accept_punct c3 PUNCT_COLON = Some c4" "starts c4 vs rest" "consumed c3 c4 [u]"
        using accept_at(1) [OF d3 u] drop_next [OF d3] d3 y1(2) by (simp_all add: c4_def starts_def consumed_def)
      obtain z c5 where z: "eval_cond m (live \<and> pv_v x = 0) c4 = Some (z, c5)" using ev n x c2(1) y c4(1) by (auto simp: eval_step split: option.splits)
      have r: "r = (make_val (if pv_v x \<noteq> 0 then pv_v y else pv_v z) (pv_unsigned y \<or> pv_unsigned z), c5)" using ev n x c2(1) y c4(1) z by (simp add: eval_step)
      have "outcome_ok (live \<and> pv_v x = 0) b vs c4 (z, c5)" by (rule completeD(3) [OF b c4(2) s(2) z])
      then show ?thesis
      proof (cases rule: outcome_cases)
        case z1: 1
        have "consumed c c5 (ts @ t # us @ u # vs)" using 1(3) c2(3) y1(3) c4(3) z1(3) by (simp add: consumed_def)
        then show ?thesis using r 1(1) y1(1) z1(1,2) by (simp add: outcome_ok_def)
      qed (use r 1 y1 in \<open>simp add: outcome_ok_def\<close>)
    next
      case 2
      have "ctx_ext c3 (snd r)" using ev n x c2(1) y
        by (auto simp: eval_step split: option.splits dest!: accept_punct_ext eval_ext(1) intro: ctx_ext_trans)
      then show ?thesis using 1(1) 2 by (simp add: outcome_ok_def ctx_ext_def)
    qed
  next
    case 2
    have "ctx_ext c1 (snd r)" using ev n x
      by (auto simp: eval_step split: option.splits dest!: accept_punct_ext eval_ext(1) intro: ctx_ext_trans) (meson ctx_ext_trans eval_error_ext)+
    then show ?thesis using 2 by (simp add: outcome_ok_def ctx_ext_def)
  qed
qed

inductive_cases derives_primaryE: "derives C_primary e ts"

lemma primary_head:
  "derives C_primary e ts \<Longrightarrow> ts \<noteq> [] \<and>
     \<not> (\<exists>op\<in>{PUNCT_BANG, PUNCT_TILDE, PUNCT_PLUS, PUNCT_MINUS, PUNCT_PLUSPLUS, PUNCT_MINUSMINUS}. is_punct op (hd ts))"
  by (erule derives_primaryE) (auto simp: is_punct_def)

lemma derives_complete: "derives cat e ts \<Longrightarrow> leaves_ok e \<Longrightarrow> complete cat e ts"
proof (induction rule: derives.induct)
  case (d_leaf t)
  then show ?case by (intro complete_leaf) simp_all
next
  case (d_primary e ts)
  then show ?case using primary_head [OF d_primary.hyps] by (intro complete_primary) simp_all
next
  case (d_binary lv a ts op t b us)
  then show ?case by (intro complete_binary) simp_all
next
  case (d_cond e ts t a us u b vs)
  then show ?case by (intro complete_cond) simp_all
next
  case (d_operand lv e ts)
  then show ?case by (intro complete_level) simp
next
  case (d_or e ts)
  then show ?case by (intro complete_cond_or) simp
next
  case (d_unary op t e ts)
  then show ?case by (intro complete_unary) simp_all
next
  case (d_paren t e ts u)
  then show ?case by (intro complete_paren) simp_all
qed

end
