(* ===== verification/Pp_Value.thy ===== *)
theory Pp_Value
  imports Pp_Grammar
begin

text \<open>
  The value of an #if expression in exact integers, C11 6.10.1: every type is intmax_t or uintmax_t, so an
  expression has a signedness and an integer in the range of that type. Only the operands that the standard
  evaluates take part; a division by zero among them leaves no value. The word arithmetic of
  src/src/pp/ppexpr.c computes exactly this value.
\<close>

section \<open>The value of an expression\<close>

text \<open>Conversion of an integer to uintmax_t or to intmax_t.\<close>

definition conv :: "bool \<Rightarrow> int \<Rightarrow> int" where
  "conv u x = (if u then take_bit 64 x else signed_take_bit 63 x)"

fun is_uns :: "pexpr \<Rightarrow> bool" where
  "is_uns (E_Leaf t) = pv_unsigned (leaf_val t)"
| "is_uns (E_Paren e) = is_uns e"
| "is_uns (E_Un op e) = (op \<noteq> PUNCT_BANG \<and> is_uns e)"
| "is_uns (E_Bin lv op a b) =
     (if lv \<in> {LV_REL, LV_EQ, LV_AND, LV_OR} then False else if lv = LV_SHIFT then is_uns a else is_uns a \<or> is_uns b)"
| "is_uns (E_Cond e a b) = (is_uns a \<or> is_uns b)"

text \<open>
  The exact result of an operator on two integers already converted to the type of the operation; a shift
  takes its count as it is, and a count that is negative counts as the width.
\<close>

definition exact_op :: "level \<Rightarrow> nat \<Rightarrow> int \<Rightarrow> int \<Rightarrow> int" where
  "exact_op lv op x y =
     (case lv of
        LV_MUL \<Rightarrow> (if op = PUNCT_STAR then x * y else if op = PUNCT_SLASH then x sdiv y else x smod y)
      | LV_ADD \<Rightarrow> (if op = PUNCT_PLUS then x + y else x - y)
      | LV_SHIFT \<Rightarrow> (let n = nat (if y < 0 then 64 else y) in if op = PUNCT_SHL then x * 2 ^ n else x div 2 ^ n)
      | LV_REL \<Rightarrow> of_bool (if op = PUNCT_LT then x < y else if op = PUNCT_GT then x > y else if op = PUNCT_LE then x \<le> y else x \<ge> y)
      | LV_EQ \<Rightarrow> of_bool (if op = PUNCT_EQEQ then x = y else x \<noteq> y)
      | LV_BITAND \<Rightarrow> x AND y
      | LV_BITXOR \<Rightarrow> x XOR y
      | LV_BITOR \<Rightarrow> x OR y
      | LV_AND \<Rightarrow> of_bool (x \<noteq> 0 \<and> y \<noteq> 0)
      | LV_OR \<Rightarrow> of_bool (x \<noteq> 0 \<or> y \<noteq> 0))"

text \<open>The usual arithmetic conversions come before every operator except the shifts and the logical ones.\<close>

definition converts :: "level \<Rightarrow> bool" where
  "converts lv \<longleftrightarrow> lv \<notin> {LV_SHIFT, LV_AND, LV_OR}"

fun cval :: "pexpr \<Rightarrow> int option" where
  "cval (E_Leaf t) = Some (conv (pv_unsigned (leaf_val t)) (uint (pv_v (leaf_val t))))"
| "cval (E_Paren e) = cval e"
| "cval (E_Un op e) =
     map_option (\<lambda>x. if op = PUNCT_BANG then of_bool (x = 0)
        else if op = PUNCT_TILDE then conv (is_uns e) (NOT x)
        else if op = PUNCT_MINUS then conv (is_uns e) (- x) else x) (cval e)"
| "cval (E_Bin lv op a b) =
     (case cval a of
        None \<Rightarrow> None
      | Some x \<Rightarrow>
          if lv = LV_AND \<and> x = 0 then Some 0
          else if lv = LV_OR \<and> x \<noteq> 0 then Some 1
          else (case cval b of
             None \<Rightarrow> None
           | Some y \<Rightarrow>
               if lv = LV_MUL \<and> op \<noteq> PUNCT_STAR \<and> y = 0 then None
               else
                 let u = is_uns a \<or> is_uns b in
                 Some (conv (is_uns (E_Bin lv op a b))
                   (if converts lv then exact_op lv op (conv u x) (conv u y) else exact_op lv op x y))))"
| "cval (E_Cond e a b) =
     (case cval e of
        None \<Rightarrow> None
      | Some x \<Rightarrow> map_option (conv (is_uns a \<or> is_uns b)) (cval (if x \<noteq> 0 then a else b)))"

section \<open>Words that represent integers\<close>

definition rep :: "bool \<Rightarrow> int \<Rightarrow> pp_val" where
  "rep u x = make_val (word_of_int x) u"

lemma rep_simps [simp]: "pv_v (rep u x) = word_of_int x" "pv_unsigned (rep u x) = u"
  by (simp_all add: rep_def make_val_def)

lemma conv_conv [simp]: "conv u (conv v x) = conv u x"
  by (simp add: conv_def take_bit_signed_take_bit signed_take_bit_take_bit)

lemma word_of_int_conv [simp]: "(word_of_int (conv u x) :: u64) = word_of_int x"
  by (rule bit_word_eqI) (auto simp: conv_def bit_simps)

lemma uint_of_conv: "uint (word_of_int x :: u64) = conv True x"
  by (simp add: conv_def uint_word_of_int take_bit_eq_mod)

lemma sint_of_conv: "sint (word_of_int x :: u64) = conv False x"
  by (simp add: conv_def sint_uint uint_word_of_int_eq signed_take_bit_take_bit)

lemma word_of_int_eq_conv: "(word_of_int x :: u64) = word_of_int y \<longleftrightarrow> conv u x = conv u y"
  by (metis conv_conv sint_of_conv uint_of_conv word_of_int_conv)

lemma conv_0 [simp]: "conv u 0 = 0"
  by (simp add: conv_def)

lemma zero_iff: "conv u x = x \<Longrightarrow> (word_of_int x :: u64) = 0 \<longleftrightarrow> x = 0"
  using word_of_int_eq_conv [of x 0 u] by simp

lemma conv_bool [simp]: "conv u (of_bool b) = of_bool b"
  by (simp add: conv_def)

lemma conv_1 [simp]: "conv u 1 = 1"
  using conv_bool [of u True] by simp

lemma conv_nonneg: "0 \<le> conv True x" "conv True x < 2 ^ 64"
  using take_bit_nonnegative [of 64 x] take_bit_int_less_exp [of 64 x] by (simp_all add: conv_def)

section \<open>Operators\<close>

lemma rep_conv: "rep u (conv v x) = rep u x"
  by (simp add: rep_def)

lemma apply_mul_exact:
  assumes "conv ua x = x" "conv ub y = y" "op = PUNCT_STAR \<or> (y \<noteq> 0 \<and> (op = PUNCT_SLASH \<or> op = PUNCT_PERCENT))"
  shows "apply_val LV_MUL op (rep ua x) (rep ub y) = rep (ua \<or> ub) (exact_op LV_MUL op (conv (ua \<or> ub) x) (conv (ua \<or> ub) y))"
proof -
  have star: ?thesis if "op = PUNCT_STAR"
    using that word_of_int_conv [of "ua \<or> ub" x] word_of_int_conv [of "ua \<or> ub" y]
    by (simp add: apply_val_def apply_mul_def exact_op_def rep_def make_val_def Let_def)
  have nz: "(word_of_int y :: u64) \<noteq> 0" if "y \<noteq> 0" using zero_iff [OF assms(2)] that by simp
  have uns: ?thesis if "y \<noteq> 0" "op = PUNCT_SLASH \<or> op = PUNCT_PERCENT" "ua \<or> ub"
  proof -
    have "(word_of_int x :: u64) div word_of_int y = word_of_int (conv True x div conv True y)"
      "(word_of_int x :: u64) mod word_of_int y = word_of_int (conv True x mod conv True y)"
      by (simp_all add: word_div_def word_mod_def uint_of_conv)
    moreover have "conv True x sdiv conv True y = conv True x div conv True y" "conv True x smod conv True y = conv True x mod conv True y"
      using conv_nonneg(1) [of x] conv_nonneg(1) [of y] by (simp_all add: signed_divide_int_def signed_modulo_int_def sgn_if modulo_int_def)
    ultimately show ?thesis using that nz by (auto simp: apply_val_def apply_mul_def exact_op_def rep_def make_val_def Let_def)
  qed
  have sgn: ?thesis if "y \<noteq> 0" "op = PUNCT_SLASH \<or> op = PUNCT_PERCENT" "\<not> (ua \<or> ub)"
  proof -
    have "sint (word_of_int y :: u64) = y" "sint (word_of_int x :: u64) = x" using assms(1,2) that(3) by (simp_all add: sint_of_conv)
    moreover have "word_of_int (x sdiv y) = (word_of_int x :: u64)" "x smod y = 0" if "y = -1" "word_of_int x = (push_bit 63 1 :: u64)"
    proof -
      have "x sdiv y = - x" "x smod y = 0" using that(1) by (simp_all add: signed_divide_int_def signed_modulo_int_def sgn_if)
      then show "word_of_int (x sdiv y) = (word_of_int x :: u64)" "x smod y = 0" using that(2) by simp_all
    qed
    ultimately show ?thesis using that nz assms(1,2)
      by (auto simp: apply_val_def apply_mul_def exact_op_def rep_def make_val_def Let_def)
  qed
  show ?thesis using assms(3) star uns sgn by blast
qed

lemma apply_add_exact:
  "op \<in> {PUNCT_PLUS, PUNCT_MINUS} \<Longrightarrow>
     apply_val LV_ADD op (rep ua x) (rep ub y) = rep (ua \<or> ub) (exact_op LV_ADD op (conv (ua \<or> ub) x) (conv (ua \<or> ub) y))"
  using word_of_int_conv [of "ua \<or> ub" x] word_of_int_conv [of "ua \<or> ub" y]
  by (auto simp: apply_val_def apply_add_def exact_op_def rep_def make_val_def simp del: word_of_int_conv)

lemma apply_bits_exact:
  "apply_val LV_BITAND op (rep ua x) (rep ub y) = rep (ua \<or> ub) (exact_op LV_BITAND op (conv (ua \<or> ub) x) (conv (ua \<or> ub) y))"
  "apply_val LV_BITXOR op (rep ua x) (rep ub y) = rep (ua \<or> ub) (exact_op LV_BITXOR op (conv (ua \<or> ub) x) (conv (ua \<or> ub) y))"
  "apply_val LV_BITOR op (rep ua x) (rep ub y) = rep (ua \<or> ub) (exact_op LV_BITOR op (conv (ua \<or> ub) x) (conv (ua \<or> ub) y))"
  by (simp_all add: apply_val_def apply_bitand_def apply_bitxor_def apply_bitor_def exact_op_def rep_def make_val_def
      of_int_and_eq of_int_xor_eq of_int_or_eq)

lemma apply_rel_exact:
  assumes "op \<in> set (level_ops LV_REL)"
  shows "apply_val LV_REL op (rep ua x) (rep ub y) = rep False (exact_op LV_REL op (conv (ua \<or> ub) x) (conv (ua \<or> ub) y))"
  using assms by (auto simp: apply_val_def apply_rel_def exact_op_def rep_def make_val_def Let_def s_lt_def word_less_def word_le_def uint_of_conv sint_of_conv)

lemma apply_eq_exact:
  assumes "op \<in> set (level_ops LV_EQ)"
  shows "apply_val LV_EQ op (rep ua x) (rep ub y) = rep False (exact_op LV_EQ op (conv (ua \<or> ub) x) (conv (ua \<or> ub) y))"
  using assms word_of_int_eq_conv [of x y "ua \<or> ub"] by (auto simp: apply_val_def apply_eq_def exact_op_def rep_def make_val_def)

lemma apply_logic_exact:
  assumes "conv ua x = x" "conv ub y = y"
  shows "apply_val LV_AND op (rep ua x) (rep ub y) = rep False (exact_op LV_AND op x y)"
    "apply_val LV_OR op (rep ua x) (rep ub y) = rep False (exact_op LV_OR op x y)"
  using zero_iff [OF assms(1)] zero_iff [OF assms(2)] by (simp_all add: apply_val_def apply_and_def apply_or_def exact_op_def rep_def make_val_def)

lemma shift_right_exact:
  "drop_bit n (word_of_int x :: u64) = word_of_int (conv True x div 2 ^ n)"
  "conv False x < 0 \<Longrightarrow> NOT (drop_bit n (NOT (word_of_int x :: u64))) = word_of_int (conv False x div 2 ^ n)"
  "\<not> conv False x < 0 \<Longrightarrow> conv True x = conv False x"
proof -
  show "drop_bit n (word_of_int x :: u64) = word_of_int (conv True x div 2 ^ n)"
    by (rule bit_word_eqI) (simp add: conv_def bit_simps flip: drop_bit_eq_div)
  have sgn: "bit x m \<longleftrightarrow> conv False x < 0" if "63 \<le> m" "m < 64" for m
  proof -
    have "m = 63" using that by simp
    then show ?thesis by (simp add: conv_def)
  qed
  have neg: "bit x m" if "conv False x < 0" "63 \<le> m" "m < 64" for m using sgn that by blast
  have pos: "\<not> bit x m" if "\<not> conv False x < 0" "63 \<le> m" "m < 64" for m using sgn that by blast
  show "NOT (drop_bit n (NOT (word_of_int x :: u64))) = word_of_int (conv False x div 2 ^ n)" if "conv False x < 0"
    using neg [OF that] that by (intro bit_word_eqI) (auto simp: conv_def bit_simps min_def not_less not_le simp flip: drop_bit_eq_div)
  show "conv True x = conv False x" if "\<not> conv False x < 0"
    using pos [OF that] that by (intro bit_eqI) (auto simp: conv_def bit_simps min_def not_less not_le Suc_le_eq less_Suc_eq_le)
qed

lemma shift_overflow:
  assumes "64 \<le> n"
  shows "(word_of_int (x * 2 ^ n) :: u64) = 0" "word_of_int (conv True x div 2 ^ n) = (0 :: u64)"
    "conv False x < 0 \<Longrightarrow> word_of_int (conv False x div 2 ^ n) = (-1 :: u64)"
proof -
  have "(word_of_int (x * 2 ^ n) :: u64) = push_bit n (word_of_int x)" by (simp add: push_bit_eq_mult)
  moreover have "push_bit n (word_of_int x :: u64) = 0" using assms by (intro bit_word_eqI) (simp add: bit_simps)
  ultimately show "(word_of_int (x * 2 ^ n) :: u64) = 0" by simp
  have "(2 :: int) ^ 64 \<le> 2 ^ n" using assms by (intro power_increasing) simp_all
  then have "conv True x div 2 ^ n = 0" using conv_nonneg [of x] by (intro div_pos_pos_trivial) simp_all
  then show "word_of_int (conv True x div 2 ^ n) = (0 :: u64)" by simp
  assume neg: "conv False x < 0"
  have "- (2 ^ 63) \<le> conv False x" using signed_take_bit_int_greater_eq_minus_exp [of 63 x] by (simp add: conv_def)
  then have "conv False x div 2 ^ n = -1" using neg \<open>2 ^ 64 \<le> 2 ^ n\<close> by (intro int_div_pos_eq [where r = "conv False x + 2 ^ n"]) simp_all
  then show "word_of_int (conv False x div 2 ^ n) = (-1 :: u64)" by simp
qed

lemma apply_shift_exact:
  assumes "conv ua x = x" "conv ub y = y" "op \<in> set (level_ops LV_SHIFT)"
  shows "apply_val LV_SHIFT op (rep ua x) (rep ub y) = rep ua (exact_op LV_SHIFT op x y)"
proof -
  define cnt :: u64 where "cnt = (if \<not> ub \<and> s_lt (word_of_int y) 0 then 64 else word_of_int y)"
  define n where "n = nat (if y < 0 then 64 else y)"
  have uy: "uint cnt = (if y < 0 then 64 else y)"
  proof (cases ub)
    case True
    then show ?thesis using assms(2) conv_nonneg(1) [of y] by (simp add: cnt_def uint_of_conv)
  next
    case False
    then show ?thesis using assms(2) shift_right_exact(3) [of y] by (auto simp: cnt_def s_lt_def sint_of_conv uint_of_conv)
  qed
  have n: "unat cnt = n" by (simp add: n_def unat_eq_nat_uint uy)
  have big: "cnt \<ge> 64 \<longleftrightarrow> 64 \<le> n" by (simp add: word_le_nat_alt n)
  have sx: "s_lt (word_of_int x) 0 \<longleftrightarrow> conv False x < 0" by (simp add: s_lt_def sint_of_conv)
  have left: "push_bit n (word_of_int x :: u64) = word_of_int (x * 2 ^ n)" by (simp add: push_bit_eq_mult)
  have val: "apply_val LV_SHIFT op (rep ua x) (rep ub y) =
     (if 64 \<le> n then (if op = PUNCT_SHR \<and> \<not> ua \<and> conv False x < 0 then make_val (NOT 0) ua else make_val 0 ua)
      else if op = PUNCT_SHR then
        (if \<not> ua \<and> conv False x < 0 then make_val (NOT (drop_bit n (NOT (word_of_int x)))) False else make_val (drop_bit n (word_of_int x)) ua)
      else make_val (push_bit n (word_of_int x)) ua)"
    unfolding apply_val_def apply_level.simps fst_conv apply_shift_def Let_def rep_simps cnt_def [symmetric] big n sx by (rule refl)
  have ex: "exact_op LV_SHIFT op x y = (if op = PUNCT_SHL then x * 2 ^ n else x div 2 ^ n)" by (simp add: exact_op_def n_def)
  have ux: "conv True x = x" if "ua \<or> \<not> conv False x < 0" using that assms(1) shift_right_exact(3) [of x] by (cases ua) auto
  have sx': "conv False x = x" if "\<not> ua" using that assms(1) by simp
  consider "op = PUNCT_SHL" | "op = PUNCT_SHR" "\<not> ua" "conv False x < 0" | "op = PUNCT_SHR" "ua \<or> \<not> conv False x < 0" using assms(3) by auto
  then show ?thesis
  proof cases
    case 1
    then show ?thesis using shift_overflow(1) [of n x] unfolding val unfolding ex rep_def left by (simp del: of_int_mult)
  next
    case 2
    then show ?thesis using shift_overflow(3) [of n x] shift_right_exact(2) [of x n] sx' unfolding val unfolding ex rep_def by simp
  next
    case 3
    then show ?thesis using shift_overflow(2) [of n x] shift_right_exact(1) [of n x] ux unfolding val unfolding ex rep_def by auto
  qed
qed

lemma apply_exact:
  assumes "conv ua x = x" "conv ub y = y" "op \<in> set (level_ops lv)" "lv = LV_MUL \<longrightarrow> op = PUNCT_STAR \<or> y \<noteq> 0"
  shows "apply_val lv op (rep ua x) (rep ub y) =
     rep (if lv \<in> {LV_REL, LV_EQ, LV_AND, LV_OR} then False else if lv = LV_SHIFT then ua else ua \<or> ub)
       (if converts lv then exact_op lv op (conv (ua \<or> ub) x) (conv (ua \<or> ub) y) else exact_op lv op x y)"
proof (cases lv)
  case LV_MUL
  then show ?thesis using assms apply_mul_exact [OF assms(1,2), of op] by (auto simp: converts_def)
qed (use assms apply_add_exact apply_bits_exact apply_rel_exact apply_eq_exact apply_logic_exact [OF assms(1,2)] apply_shift_exact [OF assms(1,2)]
  in \<open>simp_all add: converts_def\<close>)

section \<open>The evaluator computes the exact value\<close>

lemma apply_val_uns:
  "pv_unsigned (apply_val lv op l r) =
     (if lv \<in> {LV_REL, LV_EQ, LV_AND, LV_OR} then False else if lv = LV_SHIFT then pv_unsigned l else pv_unsigned l \<or> pv_unsigned r)"
  by (cases lv) (auto simp: apply_val_def apply_mul_def apply_add_def apply_shift_def apply_rel_def apply_eq_def apply_bitand_def
      apply_bitxor_def apply_bitor_def apply_and_def apply_or_def make_val_def Let_def)

lemma un_val_exact:
  assumes "conv u x = x" "op \<in> {PUNCT_BANG, PUNCT_TILDE, PUNCT_PLUS, PUNCT_MINUS}"
  shows "un_val op (rep u x) = rep (op \<noteq> PUNCT_BANG \<and> u)
    (if op = PUNCT_BANG then of_bool (x = 0) else if op = PUNCT_TILDE then conv u (NOT x) else if op = PUNCT_MINUS then conv u (- x) else x)"
  using assms(2) zero_iff [OF assms(1)] by (auto simp: un_val_def rep_def make_val_def of_int_not_eq)

text \<open>On a path that is not taken there is always a value, of the type of the expression.\<close>

lemma tree_val_dead: "\<exists>v. tree_val False e = Some v \<and> pv_unsigned v = is_uns e"
proof (induction e)
  case (E_Bin lv op a b)
  obtain l r where l: "tree_val False a = Some l" "pv_unsigned l = is_uns a" and r: "tree_val False b = Some r" "pv_unsigned r = is_uns b"
    using E_Bin by blast
  have "right_live lv False l = False" by (cases lv) simp_all
  then show ?case using l r by (simp add: zero_division_def apply_val_uns)
next
  case (E_Cond e a b)
  then obtain x y z where "tree_val False e = Some x" "tree_val False a = Some y" "pv_unsigned y = is_uns a" "tree_val False b = Some z" "pv_unsigned z = is_uns b"
    by blast
  then show ?case by (simp add: make_val_def)
next
  case (E_Un op e)
  then obtain x where "tree_val False e = Some x" "pv_unsigned x = is_uns e" by blast
  then show ?case by (auto simp: un_val_def make_val_def)
qed simp_all

definition exact :: "pexpr \<Rightarrow> bool" where
  "exact e \<longleftrightarrow> tree_val True e = map_option (rep (is_uns e)) (cval e) \<and> (\<forall>x. cval e = Some x \<longrightarrow> conv (is_uns e) x = x)"

lemma exactD: "exact e \<Longrightarrow> tree_val True e = map_option (rep (is_uns e)) (cval e)" "exact e \<Longrightarrow> cval e = Some x \<Longrightarrow> conv (is_uns e) x = x"
  by (simp_all add: exact_def)

lemma exact_leaf: "exact (E_Leaf t)"
  by (simp add: exact_def rep_def make_val_def)

lemma exact_un: "exact e \<Longrightarrow> op \<in> {PUNCT_BANG, PUNCT_TILDE, PUNCT_PLUS, PUNCT_MINUS} \<Longrightarrow> exact (E_Un op e)"
  using un_val_exact by (cases "cval e") (auto simp: exact_def)

lemma exact_cond:
  assumes "exact e" "exact a" "exact b"
  shows "exact (E_Cond e a b)"
proof (cases "cval e")
  case (Some x)
  have e: "tree_val True e = Some (rep (is_uns e) x)" "(word_of_int x :: u64) = 0 \<longleftrightarrow> x = 0"
    using exactD(1) [OF assms(1)] zero_iff [OF exactD(2) [OF assms(1) Some]] Some by simp_all
  obtain y where y: "tree_val False a = Some y" "pv_unsigned y = is_uns a" using tree_val_dead by blast
  obtain z where z: "tree_val False b = Some z" "pv_unsigned z = is_uns b" using tree_val_dead by blast
  show ?thesis using Some e y z exactD(1) [OF assms(2)] exactD(1) [OF assms(3)]
    by (cases "cval a"; cases "cval b") (auto simp: exact_def rep_def make_val_def)
qed (use exactD(1) [OF assms(1)] in \<open>simp add: exact_def\<close>)

lemma exact_binary:
  assumes a: "exact a" and b: "exact b" and op: "op \<in> set (level_ops lv)"
  shows "exact (E_Bin lv op a b)"
proof (cases "cval a")
  case (Some x)
  have l: "tree_val True a = Some (rep (is_uns a) x)" "(word_of_int x :: u64) = 0 \<longleftrightarrow> x = 0"
    using exactD(1) [OF a] zero_iff [OF exactD(2) [OF a Some]] Some by simp_all
  show ?thesis
  proof (cases "lv = LV_AND \<and> x = 0 \<or> lv = LV_OR \<and> x \<noteq> 0")
    case True
    obtain r where "tree_val False b = Some r" using tree_val_dead by blast
    then show ?thesis using True Some l by (auto simp: exact_def zero_division_def apply_val_def apply_and_def apply_or_def rep_def make_val_def)
  next
    case False
    then have live: "right_live lv True (rep (is_uns a) x) = True" using l(2) by (cases lv) auto
    show ?thesis
    proof (cases "cval b")
      case None
      then show ?thesis using False Some l live exactD(1) [OF b] by (auto simp: exact_def)
    next
      case y: (Some y)
      have r: "tree_val True b = Some (rep (is_uns b) y)" "(word_of_int y :: u64) = 0 \<longleftrightarrow> y = 0"
        using exactD(1) [OF b] zero_iff [OF exactD(2) [OF b y]] y by simp_all
      have zd: "zero_division lv op True (rep (is_uns b) y) \<longleftrightarrow> lv = LV_MUL \<and> op \<noteq> PUNCT_STAR \<and> y = 0"
        using op r(2) by (auto simp: zero_division_def)
      show ?thesis
      proof (cases "lv = LV_MUL \<and> op \<noteq> PUNCT_STAR \<and> y = 0")
        case True
        then show ?thesis using False Some y l(1) r(1) zd live by (simp add: exact_def)
      next
        case nz: False
        have "apply_val lv op (rep (is_uns a) x) (rep (is_uns b) y) = rep (is_uns (E_Bin lv op a b))
            (if converts lv then exact_op lv op (conv (is_uns a \<or> is_uns b) x) (conv (is_uns a \<or> is_uns b) y) else exact_op lv op x y)"
          using apply_exact [OF exactD(2) [OF a Some] exactD(2) [OF b y] op] nz by auto
        moreover have "cval (E_Bin lv op a b) = Some (conv (is_uns (E_Bin lv op a b))
            (if converts lv then exact_op lv op (conv (is_uns a \<or> is_uns b) x) (conv (is_uns a \<or> is_uns b) y) else exact_op lv op x y))"
          using False Some y nz by (auto simp: Let_def simp del: is_uns.simps)
        moreover have "tree_val True (E_Bin lv op a b) = Some (apply_val lv op (rep (is_uns a) x) (rep (is_uns b) y))"
          using l(1) r(1) live zd nz by simp
        ultimately show ?thesis unfolding exact_def by (simp add: rep_conv del: is_uns.simps tree_val.simps cval.simps)
      qed
    qed
  qed
qed (use exactD(1) [OF a] in \<open>simp add: exact_def\<close>)

lemma derives_exact: "derives cat e ts \<Longrightarrow> exact e"
proof (induction rule: derives.induct)
  case (d_paren t e ts u)
  then show ?case by (simp add: exact_def)
qed (auto intro: exact_leaf exact_un exact_cond exact_binary simp del: level_ops.simps)

end
