(* ===== verification/Pp_If.thy ===== *)
theory Pp_If
  imports Pp_Value
begin

text \<open>
  Conditions of #if and #elif, the rest of src/src/pp/ppexpr.c: the operators defined and __has_include and
  the assertion tests are replaced by 0 and 1 before and after macro expansion, then the line is evaluated.
  What other parts of the preprocessor answer is an argument: which names are macros and of which kind, the
  result of expanding the line, whether a header exists, and the assertion test on the tokens after a #,
  which gives its error or its value with the number of tokens it has read.
\<close>

section \<open>Replacing the operators\<close>

datatype macro_builtin =
  MACRO_BUILTIN_NONE | MACRO_BUILTIN_FILE | MACRO_BUILTIN_LINE | MACRO_BUILTIN_COUNTER | MACRO_BUILTIN_HAS_INCLUDE | MACRO_BUILTIN_HAS_EXTENSION

record cond_env =
  ce_macros :: "string \<rightharpoonup> macro_builtin"
  ce_expand :: "pp_token list \<Rightarrow> pp_token list"
  ce_header_exists :: "string \<Rightarrow> bool \<Rightarrow> bool"
  ce_assert_test :: "pp_token list \<Rightarrow> nat \<Rightarrow> (nat \<times> string) + bool \<times> nat"

definition pp_name_is_defined :: "cond_env \<Rightarrow> string \<Rightarrow> bool" where
  "pp_name_is_defined env name \<longleftrightarrow> ce_macros env name \<noteq> None \<or> name = ''_Pragma''"

definition bool_token :: "bool \<Rightarrow> nat \<Rightarrow> bool \<Rightarrow> pp_token" where
  "bool_token b loc space = \<lparr>pp_spelling = (if b then ''1'' else ''0''), pp_loc = loc, pp_kind = PPTOK_PPNUM, pp_punct = 0, pp_space = space\<rparr>"

text \<open>The name after defined and the tokens behind it.\<close>

definition defined_operand :: "pp_token list \<Rightarrow> (string \<times> pp_token list) option" where
  "defined_operand ts =
     (if ts \<noteq> [] \<and> pp_kind (hd ts) = PPTOK_IDENT then Some (pp_spelling (hd ts), tl ts)
      else if length ts \<ge> 3 \<and> is_punct PUNCT_LPAREN (ts ! 0) \<and> pp_kind (ts ! 1) = PPTOK_IDENT \<and> is_punct PUNCT_RPAREN (ts ! 2)
        then Some (pp_spelling (ts ! 1), drop 3 ts)
      else None)"

text \<open>The name between angle brackets, with the tokens after the closing one.\<close>

fun angled_name :: "string \<Rightarrow> pp_token list \<Rightarrow> (string \<times> pp_token list) option" where
  "angled_name b [] = None"
| "angled_name b (t # ts) =
     (if is_punct PUNCT_GT t then (if b = [] then None else Some (b, ts))
      else angled_name (b @ (if b \<noteq> [] \<and> pp_space t then '' '' else []) @ pp_spelling t) ts)"

text \<open>The operand of __has_include: an error, or the name, whether it is in angle brackets, and the tokens left.\<close>

definition header_operand :: "pp_token list \<Rightarrow> string + string \<times> bool \<times> pp_token list" where
  "header_operand ts =
     (let expects = Inl ''operator '__has_include' expects \"FILENAME\" or <FILENAME>'';
          close = (\<lambda>name angled rest. if rest \<noteq> [] \<and> is_punct PUNCT_RPAREN (hd rest) then Inr (name, angled, tl rest) else expects) in
      if ts = [] \<or> \<not> is_punct PUNCT_LPAREN (hd ts) then Inl ''operator '__has_include' requires a parenthesized header name''
      else case tl ts of
        [] \<Rightarrow> expects
      | t # rest \<Rightarrow>
          if pp_kind t = PPTOK_STRLIT \<and> length (pp_spelling t) \<ge> 2 \<and> hd (pp_spelling t) = CHR 0x22 \<and> last (pp_spelling t) = CHR 0x22
            then close (butlast (tl (pp_spelling t))) False rest
          else if is_punct PUNCT_LT t then
            (case angled_name [] rest of None \<Rightarrow> expects | Some (name, left) \<Rightarrow> close name True left)
          else expects)"

definition add_token :: "pp_token \<Rightarrow> 'e + pp_token list \<Rightarrow> 'e + pp_token list" where
  "add_token t r = (case r of Inl e \<Rightarrow> Inl e | Inr ts \<Rightarrow> Inr (t # ts))"

lemma defined_operand_length: "defined_operand ts = Some (name, rest) \<Longrightarrow> length rest \<le> length ts"
  by (auto simp: defined_operand_def split: if_splits)

lemma angled_name_length: "angled_name b ts = Some (name, rest) \<Longrightarrow> length rest \<le> length ts"
  by (induction b ts rule: angled_name.induct) (auto split: if_splits)

lemma header_operand_length: "header_operand ts = Inr (name, angled, rest) \<Longrightarrow> length rest \<le> length ts"
  by (cases ts) (auto simp: header_operand_def Let_def split: if_splits list.splits option.splits dest!: angled_name_length)

function replace_operators :: "cond_env \<Rightarrow> bool \<Rightarrow> pp_token list \<Rightarrow> (nat \<times> string) + pp_token list" where
  "replace_operators env after_expansion [] = Inr []"
| "replace_operators env after_expansion (t # ts) =
     (if pp_kind t = PPTOK_IDENT \<and> pp_spelling t = ''defined'' then
        (case defined_operand ts of
           None \<Rightarrow> Inl (pp_loc t, ''operator 'defined' requires an identifier'')
         | Some (name, rest) \<Rightarrow> add_token (bool_token (pp_name_is_defined env name) (pp_loc t) False) (replace_operators env after_expansion rest))
      else if after_expansion \<and> pp_kind t = PPTOK_IDENT \<and> pp_spelling t = ''__has_include'' then
        (if ce_macros env ''__has_include'' = Some MACRO_BUILTIN_HAS_INCLUDE then
           (case header_operand ts of
              Inl msg \<Rightarrow> Inl (pp_loc t, msg)
            | Inr (name, angled, rest) \<Rightarrow>
                add_token (bool_token (ce_header_exists env name angled) (pp_loc t) (pp_space t)) (replace_operators env after_expansion rest))
         else add_token t (replace_operators env after_expansion ts))
      else if is_punct PUNCT_HASH t then
        (case ce_assert_test env ts (pp_loc t) of
           Inl e \<Rightarrow> Inl e
         | Inr (value, n) \<Rightarrow> add_token (bool_token value (pp_loc t) (pp_space t)) (replace_operators env after_expansion (drop n ts)))
      else add_token t (replace_operators env after_expansion ts))"
  by pat_completeness auto
termination
  by (relation "measure (\<lambda>(env, after, ts). length ts)") (auto dest: defined_operand_length header_operand_length)

section \<open>Evaluating the line\<close>

definition eval_line :: "nat \<Rightarrow> pp_token list \<Rightarrow> (bool \<times> eval_ctx) option" where
  "eval_line loc toks =
     (let c = \<lparr>ec_toks = toks, ec_pos = 0, ec_line_loc = loc, ec_failed = False, ec_errors = [], ec_warnings = []\<rparr> in
      case eval_cond (14 * length toks + 13) True c of
        None \<Rightarrow> None
      | Some (v, c1) \<Rightarrow>
          (let c2 = (if \<not> ec_failed c1 \<and> ec_pos c1 \<noteq> length toks then
               eval_error c1 (Some (toks ! ec_pos c1))
                 (if is_punct PUNCT_COMMA (toks ! ec_pos c1) then ''',' is not allowed in #if expressions''
                  else ''trailing tokens after #if expression'')
             else c1)
           in Some (\<not> ec_failed c2 \<and> pv_v v \<noteq> 0, c2)))"

text \<open>The line that is evaluated: operators replaced, macros expanded, operators the expansion produced replaced.\<close>

definition if_line :: "cond_env \<Rightarrow> nat \<Rightarrow> pp_token list \<Rightarrow> (nat \<times> string) + pp_token list" where
  "if_line env loc toks =
     (if toks = [] then Inl (loc, ''#if with no expression'')
      else case replace_operators env False toks of
        Inl e \<Rightarrow> Inl e
      | Inr scratch \<Rightarrow> replace_operators env True (ce_expand env scratch))"

text \<open>The condition as a whole: its truth value and the errors given.\<close>

definition pp_eval_condition :: "cond_env \<Rightarrow> nat \<Rightarrow> pp_token list \<Rightarrow> (bool \<times> (nat \<times> string) list) option" where
  "pp_eval_condition env loc toks =
     (case if_line env loc toks of
        Inl e \<Rightarrow> Some (False, [e])
      | Inr line \<Rightarrow> map_option (\<lambda>(v, c). (v, ec_errors c)) (eval_line loc line))"

section \<open>A condition has the value of its expression\<close>

definition condition_values :: "pp_token list \<Rightarrow> int set" where
  "condition_values toks = {x. \<exists>e. derives C_cond e toks \<and> leaves_ok e \<and> cval e = Some x}"

definition line_ctx :: "nat \<Rightarrow> pp_token list \<Rightarrow> eval_ctx" where
  "line_ctx loc toks = \<lparr>ec_toks = toks, ec_pos = 0, ec_line_loc = loc, ec_failed = False, ec_errors = [], ec_warnings = []\<rparr>"

lemma line_ctx_simps [simp]: "ec_toks (line_ctx loc toks) = toks" "ec_pos (line_ctx loc toks) = 0" "\<not> ec_failed (line_ctx loc toks)" "ec_errors (line_ctx loc toks) = []"
  by (simp_all add: line_ctx_def)

lemma eval_line_start: "\<exists>v c. eval_cond (14 * length toks + 13) True (line_ctx loc toks) = Some (v, c)"
  by (rule fuel_atD(1) [OF fuel_at_all]) (simp add: tokens_left_def)

text \<open>Every derivation that has a value is what the evaluator has read, to the end of the line.\<close>

lemma eval_line_complete:
  assumes "eval_cond n True (line_ctx loc toks) = Some (v, c)" "derives C_cond e toks" "leaves_ok e" "cval e = Some x"
  shows "\<not> ec_failed c" "ec_pos c = length toks" "v = rep (is_uns e) x" "pv_v v \<noteq> 0 \<longleftrightarrow> x \<noteq> 0"
proof -
  have s: "starts (line_ctx loc toks) toks []" "stops (stop_ops C_cond) []" by (simp_all add: starts_def stops_def)
  have out: "outcome_ok True e toks (line_ctx loc toks) (v, c)" by (rule completeD(3) [OF derives_complete [OF assms(2,3)] s assms(1)])
  have t: "tree_val True e = Some (rep (is_uns e) x)" using exactD(1) [OF derives_exact [OF assms(2)]] assms(4) by simp
  then show f: "\<not> ec_failed c" "v = rep (is_uns e) x" using out by (simp_all add: outcome_ok_def)
  show "pv_v v \<noteq> 0 \<longleftrightarrow> x \<noteq> 0" using zero_iff [OF exactD(2) [OF derives_exact [OF assms(2)] assms(4)]] f(2) by simp
  have "drop (ec_pos c) toks = []" using out t by (simp add: outcome_ok_def consumed_def)
  then show "ec_pos c = length toks" using eval_ext(1) [OF assms(1)] by (simp add: ctx_ext_def)
qed

lemma eval_line_sound:
  assumes "eval_cond n True (line_ctx loc toks) = Some (v, c)" "\<not> ec_failed c" "ec_pos c = length toks"
  obtains e x where "derives C_cond e toks" "leaves_ok e" "cval e = Some x"
proof -
  obtain e ts where e: "derives C_cond e ts" "leaves_ok e" "consumed (line_ctx loc toks) c ts"
    using parsedE [OF sound_atD(1) [OF sound_at_all assms(1,2)]] by blast
  have ts: "ts = toks" using e(3) assms(3) by (simp add: consumed_def)
  have s: "starts (line_ctx loc toks) toks []" "stops (stop_ops C_cond) []" by (simp_all add: starts_def stops_def)
  have "outcome_ok True e toks (line_ctx loc toks) (v, c)"
    by (rule completeD(3) [OF derives_complete [OF e(1,2) [unfolded ts]] s assms(1)])
  then have "tree_val True e \<noteq> None" using assms(2) by (auto simp: outcome_ok_def split: option.splits)
  then obtain x where "cval e = Some x" using exactD(1) [OF derives_exact [OF e(1)]] by (cases "cval e") auto
  then show thesis using that e(1,2) ts by blast
qed

lemma eval_line_value:
  "\<exists>v c. eval_line loc toks = Some (v, c) \<and>
     ((\<exists>x. condition_values toks = {x} \<and> v = (x \<noteq> 0) \<and> ec_errors c = []) \<or>
      (condition_values toks = {} \<and> \<not> v \<and> length (ec_errors c) = 1))"
proof -
  obtain w c where ev: "eval_cond (14 * length toks + 13) True (line_ctx loc toks) = Some (w, c)" using eval_line_start by blast
  have errs: "length (ec_errors c) = of_bool (ec_failed c)" using eval_ext(1) [OF ev] by (simp add: ctx_ext_def)
  note line = eval_line_def [of loc toks, folded line_ctx_def, unfolded Let_def ev]
  note complete = eval_line_complete [OF ev]
  show ?thesis
  proof (cases "\<not> ec_failed c \<and> ec_pos c = length toks")
    case True
    then obtain e x where e: "derives C_cond e toks" "leaves_ok e" "cval e = Some x" using eval_line_sound [OF ev] by blast
    have "y = x" if y: "y \<in> condition_values toks" for y
    proof -
      obtain e' where e': "derives C_cond e' toks" "leaves_ok e'" "cval e' = Some y" using y unfolding condition_values_def by blast
      have "rep (is_uns e') y = rep (is_uns e) x" using complete(3) [OF e'] complete(3) [OF e] by simp
      then have "is_uns e' = is_uns e" "(word_of_int y :: u64) = word_of_int x" by (simp_all add: rep_def make_val_def)
      then show ?thesis using exactD(2) [OF derives_exact [OF e(1)] e(3)] exactD(2) [OF derives_exact [OF e'(1)] e'(3)]
        word_of_int_eq_conv [of y x "is_uns e"] by simp
    qed
    moreover have "x \<in> condition_values toks" using e unfolding condition_values_def by blast
    ultimately have "condition_values toks = {x}" by blast
    then show ?thesis using True errs complete(4) [OF e] by (simp add: line)
  next
    case False
    have "x \<notin> condition_values toks" for x using complete(1,2) False by (auto simp: condition_values_def)
    then have "condition_values toks = {}" by blast
    moreover have "length (ec_errors (eval_error c t msg)) = 1" if "\<not> ec_failed c" for t msg using that errs by (simp add: eval_error_def)
    ultimately show ?thesis using False errs by (auto simp: line)
  qed
qed


section \<open>The operator defined\<close>

text \<open>A line as a sequence of uses of defined, with and without parentheses, and of other tokens.\<close>

datatype if_item = I_Token pp_token | I_Defined pp_token pp_token | I_Defined_Paren pp_token pp_token pp_token pp_token

fun item_ok :: "if_item \<Rightarrow> bool" where
  "item_ok (I_Token t) = (\<not> is_punct PUNCT_HASH t \<and> \<not> (pp_kind t = PPTOK_IDENT \<and> pp_spelling t \<in> {''defined'', ''__has_include''}))"
| "item_ok (I_Defined d n) = (pp_kind d = PPTOK_IDENT \<and> pp_spelling d = ''defined'' \<and> pp_kind n = PPTOK_IDENT)"
| "item_ok (I_Defined_Paren d l n r) =
     (pp_kind d = PPTOK_IDENT \<and> pp_spelling d = ''defined'' \<and> is_punct PUNCT_LPAREN l \<and> pp_kind n = PPTOK_IDENT \<and> is_punct PUNCT_RPAREN r)"

fun item_tokens :: "if_item \<Rightarrow> pp_token list" where
  "item_tokens (I_Token t) = [t]"
| "item_tokens (I_Defined d n) = [d, n]"
| "item_tokens (I_Defined_Paren d l n r) = [d, l, n, r]"

fun item_replaced :: "cond_env \<Rightarrow> if_item \<Rightarrow> pp_token" where
  "item_replaced env (I_Token t) = t"
| "item_replaced env (I_Defined d n) = bool_token (pp_name_is_defined env (pp_spelling n)) (pp_loc d) False"
| "item_replaced env (I_Defined_Paren d l n r) = bool_token (pp_name_is_defined env (pp_spelling n)) (pp_loc d) False"

lemma replace_items:
  "list_all item_ok items \<Longrightarrow> replace_operators env after (concat (map item_tokens items)) = Inr (map (item_replaced env) items)"
proof (induction items)
  case (Cons i items)
  have "replace_operators env after (item_tokens i @ ts) = add_token (item_replaced env i) (replace_operators env after ts)" for ts
    using Cons.prems by (cases i) (auto simp: defined_operand_def is_punct_def numeral_3_eq_3)
  then show ?case using Cons by (simp add: add_token_def)
qed simp

lemma replaced_ok: "item_ok i \<Longrightarrow> item_ok (I_Token (item_replaced env i))"
  by (cases i) (auto simp: bool_token_def is_punct_def)

text \<open>
  The operator defined. In a line of uses of defined and of tokens that are neither operators nor part of
  an assertion, with no macro of the line expanded, every use becomes 1 if its name is a macro or _Pragma
  and 0 otherwise, at its location, and every other token stays as it is, through both passes.
\<close>

theorem if_line_defined:
  assumes "list_all item_ok items" "items \<noteq> []" "ce_expand env (map (item_replaced env) items) = map (item_replaced env) items"
  shows "if_line env loc (concat (map item_tokens items)) = Inr (map (item_replaced env) items)"
proof -
  let ?line = "map (item_replaced env) items"
  have again: "replace_operators env True ?line = Inr ?line"
  proof -
    have "list_all item_ok (map I_Token ?line)" using assms(1) replaced_ok by (auto simp: list_all_iff)
    from replace_items [OF this, of env True] show ?thesis by (simp add: comp_def concat_map_singleton)
  qed
  have "concat (map item_tokens items) \<noteq> []"
  proof (cases items)
    case (Cons i more)
    then show ?thesis by (cases i) simp_all
  qed (use assms(2) in simp)
  then show ?thesis using replace_items [OF assms(1), of env False] assms(3) again by (simp add: if_line_def)
qed

definition if_tok :: "pp_tok_kind \<Rightarrow> nat \<Rightarrow> string \<Rightarrow> pp_token" where
  "if_tok k p s = \<lparr>pp_spelling = s, pp_loc = 0, pp_kind = k, pp_punct = p, pp_space = False\<rparr>"

definition if_env :: cond_env where
  "if_env = \<lparr>ce_macros = [''NDEBUG'' \<mapsto> MACRO_BUILTIN_NONE], ce_expand = id, ce_header_exists = (\<lambda>_ _. False), ce_assert_test = (\<lambda>_ _. Inr (False, 0))\<rparr>"

text \<open>The line \<open>#if defined NDEBUG || 1\<close> in an environment that defines NDEBUG.\<close>

theorem if_line_defined_witness:
  "if_line if_env 0 [if_tok PPTOK_IDENT 0 ''defined'', if_tok PPTOK_IDENT 0 ''NDEBUG'', if_tok PPTOK_PUNCT PUNCT_PIPEPIPE ''||'', if_tok PPTOK_PPNUM 0 ''1''] =
     Inr [if_tok PPTOK_PPNUM 0 ''1'', if_tok PPTOK_PUNCT PUNCT_PIPEPIPE ''||'', if_tok PPTOK_PPNUM 0 ''1'']"
  using if_line_defined [of "[I_Defined (if_tok PPTOK_IDENT 0 ''defined'') (if_tok PPTOK_IDENT 0 ''NDEBUG''),
      I_Token (if_tok PPTOK_PUNCT PUNCT_PIPEPIPE ''||''), I_Token (if_tok PPTOK_PPNUM 0 ''1'')]" if_env 0]
  by (simp add: if_tok_def if_env_def is_punct_def bool_token_def pp_name_is_defined_def)

end
