(* ===== verification/Spec2Isabelle.thy ===== *)
theory Spec2Isabelle
  imports Fp128_Rt Sf_Decimal Intern Dlev Cg_Scan Lex_Convert Memsafe_State Ir_Cfg Ir_Dce Pp_If
begin

text \<open>
  A verification development for Cgfried, a self-hosting C11 compiler written in C. Paths are relative to the
  root of the repository copy, so the compiler's own sources are under src/src.

  \<^bold>\<open>The program.\<close> A translation unit passes through the preprocessor (src/src/pp), the phase-5
  lexer (lex), the parser (parse) with semantic analysis (sema), lowering (lower) to an SSA intermediate
  representation (ir), the optimizer (opt) with the static memory-safety analysis (memsafe) beside it, and one
  of two backends (cg), under a driver (driver). All of them use the containers and arithmetic of util;
  compiled programs link the runtime rt. The development models the parts whose correctness is a matter of
  algorithm: arithmetic, containers, literals, conditions, control-flow and dataflow algorithms and two IR
  transformations.

  \<^bold>\<open>Numbers.\<close> src/src/util/softfp.c computes every floating-point constant. \<open>U128\<close>, \<open>Limbs\<close>: its
  128- and 256-bit limb helpers are arithmetic on naturals. \<open>Ieee_Round\<close>: round-to-nearest-even as a locale
  on real numbers, independent of the code. \<open>Sf_Round\<close>: formats, status flags and round_pack; it rounds as
  the locale says and sets exactly the IEEE flags. \<open>Sf_Add\<close>, \<open>Sf_Mul\<close>, \<open>Sf_Div\<close>, \<open>Sf_Conv\<close>: every operation is
  the rounding of the exact real result. \<open>Sf_Bits\<close>: the byte images, both round trips. \<open>Bigint\<close> is
  src/src/util/bigint.c and \<open>Sf_Decimal\<close> the decimal and hexadecimal literals on it: correctly rounded
  whatever their length, up to the capacity of the bignum, whose failure is stated as well. \<open>Int128_Rt\<close> and
  \<open>Fp128_Rt\<close> are the runtime entry points of src/src/rt/int128.c and fp128.c.

  \<^bold>\<open>Containers.\<close> \<open>Probing\<close> is the locale of an open-addressing table; \<open>Strmap\<close> (util/strmap.c) and \<open>Ptrmap\<close>
  (util/ptrmap.c) interpret it, and any history of operations answers like a finite map. \<open>Arena\<close>
  (util/arena.c): blocks are aligned, in bounds and disjoint. \<open>Intern\<close> (util/intern.c): on both, equal
  strings have equal pointers. \<open>Stable_Sort\<close> (util/sort.c) and \<open>Dlev\<close> (util/dlev.c): the bottom-up merge
  sort and the edit distance with early exit agree with their reference definitions.

  \<^bold>\<open>Lexer and preprocessor.\<close> \<open>Lex_Token\<close> holds the tokens, \<open>Numlit\<close>, \<open>Strlit\<close> and \<open>Lex_Convert\<close> the
  files numlit.c, strlit.c and lex.c of src/src/lex: the type ladder of integer constants, the syntax of
  floating constants, escapes, UTF-8, concatenation of literals, keywords and the conversion pass.
  \<open>Pp_Const\<close>, \<open>Pp_Eval\<close> and \<open>Pp_If\<close> are src/src/pp/ppexpr.c, the conditions of #if. \<open>Pp_Grammar\<close> gives the
  grammar of C11 constant expressions as an inductive relation and shows that the recursive descent accepts
  exactly what it derives; \<open>Pp_Value\<close> gives the value of a tree in exact integers and shows that the 64-bit
  arithmetic computes it.

  \<^bold>\<open>IR.\<close> \<open>Ir_Model\<close> has the records of src/src/ir/ir.h, \<open>Ir_Sem\<close> runs of a function on an abstract machine
  (the meaning of operations, constants and branches is its argument) and the locale of lock-step
  simulations. \<open>Dominance\<close> is the graph theory and \<open>Ir_Dom\<close> the dominator tree of ir/dom.c: it always
  finishes and is exact. \<open>Ir_Renumber\<close>, \<open>Ir_Renumber_Sem\<close>: renumbering of values. \<open>Worklist\<close> is the locale
  of marking algorithms, interpreted by \<open>Ir_Cfg\<close> (reachability and removal of unreachable blocks in ir.c) and
  by \<open>Ir_Dce\<close> (opt/dce.c); both transformations preserve behaviour.

  \<^bold>\<open>Backend and analysis.\<close> \<open>Cg_Live\<close>, \<open>Cg_Intervals\<close> and \<open>Cg_Scan\<close> are src/src/cg/shared.c: liveness is
  exact, intervals cover it, and linear scan gives values needed at the same time different registers and
  slots. \<open>Memsafe_State\<close> is the lifetime lattice of memsafe/state.c; its reports are errors of every run.
  \<open>Cg_Prelude\<close> has the shared lemmas and the type of outcomes.

  \<^bold>\<open>How the code is modelled.\<close> A struct is a record, an enumeration a datatype, a fixed-width integer a
  word, a pointer into an array an index, an array a list with every write in range or an abort value. State
  is passed explicitly; diagnostics are values. A loop is recursion on the data; where the code has no bound
  it is a partial function into option, and the theorem says that it returns. Fuel appears only in the
  expression evaluator: 14 steps for each token and 13 more are enough, since between two tokens the descent
  enters at most one function for each of ten precedence levels, the conditional, the unary level, the
  primary and the loop. Allocation is taken to succeed, as the code exits otherwise. The functions eval_mul
  to eval_or of ppexpr.c, equal up to the operator table, are one function with the level as an argument.
  Parts that are used but not modelled are arguments: the machine of \<open>Ir_Sem\<close>, macro expansion, header search
  and assertions in \<open>Pp_If\<close>, spans of locations in \<open>Lex_Convert\<close>.

  \<^bold>\<open>Not modelled.\<close> The rest of the preprocessor, the parser, semantic analysis and lowering work on the whole
  syntax tree and would need a semantics of C. The other optimizer passes rewrite with the meaning of each
  operation, which \<open>Ir_Sem\<close> leaves open; a semantics of memory comes first. Instruction selection, emission,
  debug information and target register allocation need models of two instruction sets. The memory-safety
  dataflow, the warning tables, the driver and the remaining runtime files are left out as input and output,
  tables, or code whose specification is the analysis itself.

  This theory holds the properties of softfp that span its theories; the others stand in their theories.
\<close>

section \<open>Concrete numbers for the instances\<close>

definition sf_one :: sf where
  "sf_one = \<lparr>sf_sign = False, sf_cls = SF_NORMAL, sf_exp = - 52, sf_hi = 0, sf_lo = 0x10000000000000\<rparr>"

lemma sf_one_props:
  "sf_operand sf_one" "sf_cls sf_one = SF_NORMAL" "sf_finite sf_one" "sf_sig sf_one = 2 ^ 52"
  "sf_canonical SF_BINARY64 sf_one" "sf_clean sf_one" "\<not> sf_sign sf_one"
  by (simp_all add: sf_one_def sf_operand_def sf_finite_def u128v_def sf_canonical_def sf_clean_def
      format_defs geometry_defs)

lemma sf_one_mag: "sf_mag sf_one = 1"
proof -
  have "(2 :: real) powi (- 52) = 1 / 2 ^ 52" by (simp add: power_int_minus_divide)
  then show ?thesis using sf_one_props(4) by (simp add: sf_mag_def sf_one_def)
qed

section \<open>Software floating point: rounding\<close>



text \<open>
  What rounding means. Unless it overflows, the magnitude round_pack returns is a number of the
  format and no number of the format is closer to the exact value.
\<close>

theorem round_pack_nearest:
  assumes "f \<in> sf_formats" "residue v (u128v hi lo) ex sticky" "0 < u128v hi lo"
    and "sticky \<Longrightarrow> prec_of f < int (nbits (u128v hi lo))" and "\<not> sf_overflows f v"
    and "format_mag (prec_of f) (emin_of f) (emax_of f) y"
  shows "format_mag (prec_of f) (emin_of f) (emax_of f) \<bar>sf_val (fst (round_pack sign hi lo ex sticky f st))\<bar>
    \<and> \<bar>\<bar>sf_val (fst (round_pack sign hi lo ex sticky f st))\<bar> - v\<bar> \<le> \<bar>y - v\<bar>"
proof -
  note bf = format_binary_format [OF assms(1)]
  have v: "0 < v" using residue_pos [OF assms(2)] assms(3) by blast
  have "sf_val (fst (round_pack sign hi lo ex sticky f st)) = (if sign then - sf_ieee f v else sf_ieee f v)"
    using round_pack_rounds [OF assms(1-4), of sign st] assms(5) by (simp add: rounds_to_def)
  moreover have "0 \<le> sf_ieee f v"
    using binary_format.round_in_unbounded [OF bf v] by (auto simp: unbounded_mag_def)
  ultimately have "\<bar>sf_val (fst (round_pack sign hi lo ex sticky f st))\<bar> = sf_ieee f v" by simp
  then show ?thesis
    using binary_format.round_in_format [OF bf v] assms(5) binary_format.round_nearest [OF bf v assms(6)]
    by (simp add: sf_overflows_def)
qed

theorem round_pack_nearest_witness:
  "format_mag (prec_of SF_BINARY64) (emin_of SF_BINARY64) (emax_of SF_BINARY64) (sf_mag sf_one) \<and>
   \<bar>\<bar>sf_val (fst (round_pack False 0 3 0 False SF_BINARY64 status_cleared))\<bar> - 3\<bar> \<le> \<bar>sf_mag sf_one - 3\<bar>"
proof -
  have m: "format_mag (prec_of SF_BINARY64) (emin_of SF_BINARY64) (emax_of SF_BINARY64) (sf_mag sf_one)"
    by (rule canonical_format_mag) (simp_all add: sf_one_props)
  have three: "format_mag (prec_of SF_BINARY64) (emin_of SF_BINARY64) (emax_of SF_BINARY64) (real 3)"
    by (rule nat_format_mag [OF formats_in(3)]) (simp_all add: format_defs geometry_defs)
  then have "unbounded_mag (prec_of SF_BINARY64) (emin_of SF_BINARY64) (real 3)"
    by (auto simp: unbounded_mag_def format_mag_def)
  from binary64.round_exact [OF _ this] format_mag_lt [OF three]
  have "\<not> sf_overflows SF_BINARY64 3"
    by (simp add: sf_overflows_def not_le) (simp add: format_defs geometry_defs)
  moreover have "residue 3 (u128v 0 3) 0 False" by (simp add: residue_def u128v_def)
  ultimately show ?thesis
    using round_pack_nearest [of SF_BINARY64 3 0 3 0 False "sf_mag sf_one" False status_cleared] m
    by (simp add: u128v_def)
qed

section \<open>Software floating point: arithmetic\<close>

text \<open>
  C2: sf_add on finite operands returns the correctly rounded exact sum, and an exactly zero sum
  is +0 unless both operands are zeros with a minus sign; no intermediate alignment loses a bit that
  matters.
\<close>

theorem sf_add_correct:
  assumes "f \<in> sf_formats" "sf_operand a" "sf_finite a" "sf_operand b" "sf_finite b"
  defines "x \<equiv> sf_val a + sf_val b"
  shows "(x = 0 \<longrightarrow> sf_add a b f st = (sum_zero a b, st))
    \<and> (x \<noteq> 0 \<longrightarrow> rounds_to f (x < 0) \<bar>x\<bar> st (sf_add a b f st))"
  using sf_add_finite [OF assms(1-5)] unfolding x_def by blast

theorem sf_add_correct_witness:
  "rounds_to SF_BINARY64 False 2 status_cleared (sf_add sf_one sf_one SF_BINARY64 status_cleared)"
  using sf_add_correct [of SF_BINARY64 sf_one sf_one status_cleared] sf_one_props
  by (simp add: sf_val_def sf_one_mag)

text \<open>C7: sf_mul on nonzero finite operands returns the correctly rounded exact product.\<close>

theorem sf_mul_correct:
  assumes "f \<in> sf_formats" "sf_operand a" "sf_cls a = SF_NORMAL" "sf_operand b" "sf_cls b = SF_NORMAL"
  shows "rounds_to f (sf_sign a \<noteq> sf_sign b) (sf_mag a * sf_mag b) st (sf_mul a b f st)"
  by (rule sf_mul_rounds [OF assms])

theorem sf_mul_correct_witness:
  "rounds_to SF_BINARY16 False 1 status_cleared (sf_mul sf_one sf_one SF_BINARY16 status_cleared)"
  using sf_mul_correct [of SF_BINARY16 sf_one sf_one status_cleared] sf_one_props by (simp add: sf_one_mag)

text \<open>
  C8: sf_div on nonzero finite operands returns the correctly rounded exact quotient: prec + 2
  quotient bits and the remainder test are enough for a single correct rounding.
\<close>

theorem sf_div_correct:
  assumes "f \<in> sf_formats" "sf_operand a" "sf_cls a = SF_NORMAL" "sf_operand b" "sf_cls b = SF_NORMAL"
  shows "rounds_to f (sf_sign a \<noteq> sf_sign b) (sf_mag a / sf_mag b) st (sf_div a b f st)"
  by (rule sf_div_rounds [OF assms])

theorem sf_div_correct_witness:
  "rounds_to SF_X87_80 False 1 status_cleared (sf_div sf_one sf_one SF_X87_80 status_cleared)"
  using sf_div_correct [of SF_X87_80 sf_one sf_one status_cleared] sf_one_props by (simp add: sf_one_mag)

text \<open>
  The invalid operations. Exactly the sum of opposite infinities, the product of a zero and an
  infinity and the quotients of two zeros or two infinities turn operands that are not NaNs into a
  NaN, and they raise the invalid flag.
\<close>

theorem sf_invalid_operations:
  assumes "f \<in> sf_formats" "sf_canonical f a" "sf_canonical f b" "sf_cls a \<noteq> SF_NAN" "sf_cls b \<noteq> SF_NAN"
  shows "(sf_cls (fst (sf_add a b f st)) = SF_NAN \<longleftrightarrow>
        sf_cls a = SF_INF \<and> sf_cls b = SF_INF \<and> sf_sign a \<noteq> sf_sign b)
    \<and> (sf_cls (fst (sf_mul a b f st)) = SF_NAN \<longleftrightarrow>
        sf_cls a = SF_INF \<and> sf_cls b = SF_ZERO \<or> sf_cls a = SF_ZERO \<and> sf_cls b = SF_INF)
    \<and> (sf_cls (fst (sf_div a b f st)) = SF_NAN \<longleftrightarrow>
        sf_cls a = SF_INF \<and> sf_cls b = SF_INF \<or> sf_cls a = SF_ZERO \<and> sf_cls b = SF_ZERO)
    \<and> (sf_cls (fst (sf_add a b f st)) = SF_NAN \<longrightarrow> invalid (snd (sf_add a b f st)))
    \<and> (sf_cls (fst (sf_mul a b f st)) = SF_NAN \<longrightarrow> invalid (snd (sf_mul a b f st)))
    \<and> (sf_cls (fst (sf_div a b f st)) = SF_NAN \<longrightarrow> invalid (snd (sf_div a b f st)))"
proof -
  have no: "sf_cls (fst r) \<noteq> SF_NAN" if "rounds_to f s v st r" for s v r
    using that by (auto simp: rounds_to_def split: if_splits)
  have op: "sf_operand a" "sf_operand b" using canonical_operand [OF assms(1)] assms(2,3) by blast+
  have add: "sf_cls (fst (sf_add a b f st)) \<noteq> SF_NAN" if "sf_finite a" "sf_finite b"
    using sf_add_finite [OF assms(1) op(1) that(1) op(2) that(2), where st = st] no
    by (cases "sf_val a + sf_val b = 0") (auto simp: sum_zero_def sf_cleared_def)
  have nn: "sf_cls (fst (sf_mul a b f st)) \<noteq> SF_NAN" "sf_cls (fst (sf_div a b f st)) \<noteq> SF_NAN"
    if "sf_cls a = SF_NORMAL" "sf_cls b = SF_NORMAL"
    using no sf_mul_rounds [OF assms(1) op(1) that(1) op(2) that(2)]
      sf_div_rounds [OF assms(1) op(1) that(1) op(2) that(2)] by blast+
  note add' = add [unfolded sf_finite_def]
  show ?thesis
    using assms(4,5) add' nn
    by (cases "sf_cls a"; cases "sf_cls b")
      (simp_all add: sf_add_def [of a b] sf_mul_def [of a b] sf_div_def [of a b] make_nan_def sf_cleared_def)
qed

theorem sf_invalid_operations_witness:
  "sf_cls (fst (sf_div sf_cleared sf_cleared SF_BINARY64 status_cleared)) = SF_NAN
   \<and> invalid (snd (sf_div sf_cleared sf_cleared SF_BINARY64 status_cleared))"
  using sf_invalid_operations [of SF_BINARY64 sf_cleared sf_cleared status_cleared]
  by (simp add: sf_canonical_def sf_cleared_def)

text \<open>
  Sf_cmp decides the order of the extended reals: for operands that are not NaNs it returns the
  sign of their comparison (with both zeros equal) and reports them ordered, although it compares bit
  lengths first and shifts only one significand.
\<close>

theorem sf_cmp_decides:
  assumes "sf_operand a" "sf_operand b" "sf_cls a \<noteq> SF_NAN" "sf_cls b \<noteq> SF_NAN"
  shows "sf_cmp a b = (if sf_less a b then - 1 else if sf_less b a then 1 else 0, False)"
  by (rule sf_cmp_correct [OF assms])

theorem sf_cmp_decides_witness:
  "sf_cmp sf_cleared sf_one = (if sf_less sf_cleared sf_one then - 1 else if sf_less sf_one sf_cleared then 1 else 0, False)"
  by (rule sf_cmp_decides) (simp_all add: sf_one_props, simp_all add: sf_operand_def sf_cleared_def)

section \<open>Software floating point: conversions\<close>

text \<open>
  Sf_to_int truncates toward zero and checks the range of the destination before it masks: a
  value whose truncation fits is returned as the two's complement image at that width, with the
  inexact flag set exactly when a fraction was discarded; any other finite value gives 0 and the
  invalid flag.
\<close>

theorem sf_to_int_range_checked:
  assumes "sf_operand a" "sf_cls a = SF_NORMAL" "1 \<le> width" "width \<le> 64"
  shows "(int_in_range width u (sf_int a) \<longrightarrow>
        uint (fst (sf_to_int a width u st)) = sf_int a mod 2 ^ nat width
        \<and> snd (sf_to_int a width u st) = st\<lparr>inexact := inexact st \<or> sf_mag a \<notin> \<int>\<rparr>)
    \<and> (\<not> int_in_range width u (sf_int a) \<longrightarrow>
        fst (sf_to_int a width u st) = 0 \<and> invalid (snd (sf_to_int a width u st)))"
  using sf_to_int_correct [OF assms] by blast

theorem sf_to_int_range_checked_witness:
  "int_in_range 8 False (sf_int sf_one) \<and> uint (fst (sf_to_int sf_one 8 False status_cleared)) = 1"
proof -
  have "sf_int sf_one = 1" using sf_one_props by (simp add: sf_int_def sf_trunc_def sf_one_mag)
  then show ?thesis
    using sf_to_int_range_checked [of sf_one 8 False status_cleared] sf_one_props by (simp add: int_in_range_def)
qed

text \<open>The same for the 128-bit destination of sf_to_int128, signed and unsigned.\<close>

theorem sf_to_int128_range_checked:
  assumes "sf_operand a" "sf_cls a = SF_NORMAL"
  shows "(int_in_range 128 u (sf_int a) \<longrightarrow>
        int (u128p (fst (sf_to_int128 a u st))) = sf_int a mod 2 ^ 128
        \<and> snd (sf_to_int128 a u st) = st\<lparr>inexact := inexact st \<or> sf_mag a \<notin> \<int>\<rparr>)
    \<and> (\<not> int_in_range 128 u (sf_int a) \<longrightarrow>
        fst (sf_to_int128 a u st) = (0, 0) \<and> invalid (snd (sf_to_int128 a u st)))"
  using sf_to_int128_correct [OF assms] by blast

theorem sf_to_int128_range_checked_witness:
  "int_in_range 128 True (sf_int sf_one) \<and> int (u128p (fst (sf_to_int128 sf_one True status_cleared))) = 1"
proof -
  have "sf_int sf_one = 1" using sf_one_props by (simp add: sf_int_def sf_trunc_def sf_one_mag)
  then show ?thesis
    using sf_to_int128_range_checked [of sf_one True status_cleared] sf_one_props by (simp add: int_in_range_def)
qed

text \<open>
  Integer conversions and format conversion. sf_from_int, sf_from_int128 and sf_convert return
  the correctly rounded value of their argument in the target format.
\<close>

theorem sf_conversions_round:
  assumes "f \<in> sf_formats" "v \<noteq> 0" "u128v hi lo \<noteq> 0" "sf_operand a" "sf_cls a = SF_NORMAL"
  shows "rounds_to f neg (real (unat v)) st (sf_from_int v neg f st)
    \<and> rounds_to f neg (real (u128v hi lo)) st (sf_from_int128 hi lo neg f st)
    \<and> rounds_to f (sf_sign a) (sf_mag a) st (sf_convert a from f st)"
  using sf_from_int_rounds [OF assms(1,2)] sf_from_int128_rounds [OF assms(1,3)]
    sf_convert_rounds [OF assms(1,4,5)] by blast

theorem sf_conversions_round_witness:
  "rounds_to SF_BINARY32 False 1 status_cleared (sf_convert sf_one SF_BINARY64 SF_BINARY32 status_cleared)"
  using sf_conversions_round [of SF_BINARY32 1 1 0 sf_one False status_cleared SF_BINARY64] sf_one_props
  by (simp add: u128v_def sf_one_mag)

section \<open>Software floating point: bit images\<close>

text \<open>
  C19: sf_from_bits inverts sf_to_bits: the image of a canonical number of any supported format,
  subnormals, zeros, infinities and NaNs included, decodes to the same number.
\<close>

theorem sf_bits_roundtrip:
  assumes "f \<in> sf_formats" "sf_canonical f a" "sf_clean a"
  shows "sf_from_bits (sf_to_bits a f) f = a"
  by (rule sf_from_to_bits [OF assms])

theorem sf_bits_roundtrip_witness:
  "sf_from_bits (sf_to_bits sf_one SF_BINARY64) SF_BINARY64 = sf_one"
  by (rule sf_bits_roundtrip) (simp_all add: sf_one_props)

text \<open>
  Conversely every image decodes to a canonical number, and re-encoding an image of a format
  without an explicit integer bit that is not a NaN gives the same bytes.
\<close>

theorem sf_image_roundtrip:
  assumes "f \<in> sf_formats" "length img = 16"
    and "\<forall>k < 128. 8 * total_bytes f \<le> int k \<longrightarrow> \<not> image_bit img k"
  shows "sf_canonical f (sf_from_bits img f)
    \<and> (\<not> explicit_intbit f \<and> sf_cls (sf_from_bits img f) \<noteq> SF_NAN \<longrightarrow>
        sf_to_bits (sf_from_bits img f) f = img)"
  using sf_from_bits_canonical [OF assms(1)] sf_to_from_bits [OF assms(1) _ assms(2)] assms(3) by blast

theorem sf_image_roundtrip_witness:
  "sf_to_bits (sf_from_bits tf_one SF_BINARY128) SF_BINARY128 = tf_one"
  using sf_image_roundtrip [of SF_BINARY128 tf_one] tf_one_class
  by (simp add: binary128_fields tf_in_def)

section \<open>A sign that rounding loses\<close>


end
